(* ===== verification/Prelude.thy ===== *)
theory Prelude
  imports Main "HOL-Library.Word" "HOL-Library.Multiset"
begin

text \<open>
  Names for the machine integers of the C code, the byte buffers it writes with
  \<open>memcpy\<close>, the conversion between bytes and machine words on a little-endian machine
  (the only byte order modelled: \<open>WORDS_BIGENDIAN\<close> is not defined), and the cutting of a
  byte string into the complete blocks of a given size plus the bytes left over.
\<close>

unbundle bit_operations_syntax

type_synonym u8 = "8 word"
type_synonym u32 = "32 word"
type_synonym u64 = "64 word"

named_theorems buffer_simps "lengths and prefixes of buffers written with memcpy"
named_theorems block_simps "cutting of byte strings into blocks"

section \<open>Writing into a buffer\<close>

text \<open>\<open>memcpy (buf + off, d, length d)\<close>: the bytes of \<open>buf\<close> from \<open>off\<close> on are replaced.\<close>

definition put_at :: "'a list \<Rightarrow> nat \<Rightarrow> 'a list \<Rightarrow> 'a list" where
  "put_at buf off d = take off buf @ d @ drop (off + length d) buf"

lemma length_put_at [buffer_simps]:
  "off + length d \<le> length buf \<Longrightarrow> length (put_at buf off d) = length buf"
  by (simp add: put_at_def)

lemma take_put_at [buffer_simps]:
  "off \<le> length buf \<Longrightarrow> n = off + length d \<Longrightarrow> take n (put_at buf off d) = take off buf @ d"
  by (simp add: put_at_def)

lemma put_at_full [buffer_simps]:
  "off + length d = length buf \<Longrightarrow> put_at buf off d = take off buf @ d"
  by (simp add: put_at_def)

lemma take_put_at_below [buffer_simps]:
  "n \<le> off \<Longrightarrow> off \<le> length buf \<Longrightarrow> take n (put_at buf off d) = take n buf"
  by (simp add: put_at_def min_absorb1)

lemma put_at_put_at [buffer_simps]:
  "off + length d \<le> length buf \<Longrightarrow> put_at (put_at buf off d) (off + length d) e = put_at buf off (d @ e)"
  by (simp add: put_at_def ac_simps)

lemma put_at_Cons: "off < length buf \<Longrightarrow> put_at (buf[off := x]) (Suc off) d = put_at buf off (x # d)"
  by (simp add: put_at_def take_Suc_conv_app_nth drop_update_swap)

lemma put_at_Nil [simp]: "put_at buf off [] = buf"
  by (simp add: put_at_def)

section \<open>Optional values\<close>

lemma option_eqI:
  assumes "\<And>r. x = Some r \<longleftrightarrow> y = Some r"
  shows "x = y"
proof (cases x)
  case None
  with assms show ?thesis by (cases y) auto
next
  case (Some r)
  with assms [of r] show ?thesis by simp
qed

section \<open>Bytes and words\<close>

definition le32 :: "u8 list \<Rightarrow> u32" where
  "le32 bs = ucast (bs ! 0) OR push_bit 8 (ucast (bs ! 1))
     OR push_bit 16 (ucast (bs ! 2)) OR push_bit 24 (ucast (bs ! 3))"

definition be32 :: "u8 list \<Rightarrow> u32" where
  "be32 bs = le32 (rev bs)"

definition bytes_le32 :: "u32 \<Rightarrow> u8 list" where
  "bytes_le32 w = [ucast w, ucast (drop_bit 8 w), ucast (drop_bit 16 w), ucast (drop_bit 24 w)]"

definition bytes_be32 :: "u32 \<Rightarrow> u8 list" where
  "bytes_be32 w = rev (bytes_le32 w)"

definition le64 :: "u8 list \<Rightarrow> u64" where
  "le64 bs = ucast (le32 (take 4 bs)) OR push_bit 32 (ucast (le32 (drop 4 bs)))"

definition be64 :: "u8 list \<Rightarrow> u64" where
  "be64 bs = le64 (rev bs)"

definition bytes_le64 :: "u64 \<Rightarrow> u8 list" where
  "bytes_le64 w = bytes_le32 (ucast w) @ bytes_le32 (ucast (drop_bit 32 w))"

definition bytes_be64 :: "u64 \<Rightarrow> u8 list" where
  "bytes_be64 w = rev (bytes_le64 w)"

lemma length_word_bytes [simp]:
  "length (bytes_le32 w) = 4" "length (bytes_be32 w) = 4"
  "length (bytes_le64 v) = 8" "length (bytes_be64 v) = 8"
  by (simp_all add: bytes_le32_def bytes_be32_def bytes_le64_def bytes_be64_def)

lemma list_of_4: "length bs = 4 \<Longrightarrow> \<exists>a b c d. bs = [a, b, c, d]"
  by (auto simp: length_Suc_conv numeral_eq_Suc)

lemma le32_bytes [simp]: "le32 (bytes_le32 w) = w"
proof (rule bit_word_eqI)
  fix n assume n: "n < LENGTH(32)"
  consider "n < 8" | "8 \<le> n \<and> n < 16" | "16 \<le> n \<and> n < 24" | "24 \<le> n" by linarith
  then show "bit (le32 (bytes_le32 w)) n = bit w n"
    by cases (use n in \<open>auto simp: le32_def bytes_le32_def bit_simps\<close>)
qed

lemma u8_bit_beyond: "8 \<le> n \<Longrightarrow> \<not> bit (a :: u8) n"
  by (auto dest: bit_imp_le_length)

lemma bytes_le32_le32: "length bs = 4 \<Longrightarrow> bytes_le32 (le32 bs) = bs"
  by (auto simp: bytes_le32_def le32_def bit_simps u8_bit_beyond dest!: list_of_4
      intro!: bit_word_eqI)

lemma be32_bytes [simp]: "be32 (bytes_be32 w) = w"
  by (simp add: be32_def bytes_be32_def)

lemma le64_bytes [simp]: "le64 (bytes_le64 w) = w"
  by (rule bit_word_eqI) (auto simp: le64_def bytes_le64_def bit_simps)

lemma bytes_le64_le64:
  assumes "length bs = 8"
  shows "bytes_le64 (le64 bs) = bs"
proof -
  have "ucast (le64 bs) = le32 (take 4 bs)" "ucast (drop_bit 32 (le64 bs)) = le32 (drop 4 bs)"
    by (rule bit_word_eqI, auto simp: le64_def bit_simps dest: bit_imp_le_length)+
  then show ?thesis using assms by (simp add: bytes_le64_def bytes_le32_le32)
qed

lemma be64_bytes [simp]: "be64 (bytes_be64 w) = w"
  by (simp add: be64_def bytes_be64_def)

lemma sum_list_word [simp]:
  "sum_list (map (\<lambda>x. 4) ws) = 4 * length ws" "sum_list (map (\<lambda>x. 8) ws) = 8 * length ws"
  by (induction ws) simp_all

section \<open>Complete blocks and the bytes left over\<close>

function blocks :: "nat \<Rightarrow> 'a list \<Rightarrow> 'a list list" where
  "blocks n xs = (if n = 0 \<or> length xs < n then [] else take n xs # blocks n (drop n xs))"
  by pat_completeness auto
termination
  by (relation "measure (\<lambda>(n, xs). length xs)") auto

declare blocks.simps [simp del]

definition rest :: "nat \<Rightarrow> 'a list \<Rightarrow> 'a list" where
  "rest n xs = drop (length xs - length xs mod n) xs"

lemma blocks_short [simp]: "length xs < n \<Longrightarrow> blocks n xs = []"
  by (simp add: blocks.simps)

lemma blocks_step:
  "0 < n \<Longrightarrow> n \<le> length xs \<Longrightarrow> blocks n xs = take n xs # blocks n (drop n xs)"
  by (simp add: blocks.simps [of n xs])

lemma blocks_Cons [block_simps]:
  "0 < n \<Longrightarrow> length a = n \<Longrightarrow> blocks n (a @ b) = a # blocks n b"
  by (simp add: blocks_step)

lemma rest_short [simp]: "length xs < n \<Longrightarrow> rest n xs = xs"
  by (simp add: rest_def)

lemma length_rest [simp]: "length (rest n xs) = length xs mod n"
  by (simp add: rest_def)

lemma rest_step:
  assumes "0 < n" and "n \<le> length xs"
  shows "rest n (drop n xs) = rest n xs"
proof -
  have "length xs - n - (length xs - n) mod n + n = length xs - (length xs - n) mod n"
    using assms mod_less_eq_dividend [of "length xs - n" n] by linarith
  with assms show ?thesis by (simp add: rest_def le_mod_geq)
qed

lemma rest_Cons [block_simps]: "0 < n \<Longrightarrow> length a = n \<Longrightarrow> rest n (a @ b) = rest n b"
  using rest_step [of n "a @ b"] by simp

lemma blocks_append:
  "0 < n \<Longrightarrow> blocks n (m @ d) = blocks n m @ blocks n (rest n m @ d)"
proof (induction n m rule: blocks.induct)
  case (1 n m)
  show ?case
  proof (cases "length m < n")
    case False
    with "1.prems" have "blocks n (m @ d) = take n m # blocks n (drop n m @ d)"
      by (simp add: blocks_step)
    also have "\<dots> = take n m # blocks n (drop n m) @ blocks n (rest n (drop n m) @ d)"
      using "1.IH" "1.prems" False by simp
    finally show ?thesis
      using False "1.prems" by (simp add: blocks_step rest_step)
  qed simp
qed

lemma rest_append: "0 < n \<Longrightarrow> rest n (m @ d) = rest n (rest n m @ d)"
proof (induction n m rule: blocks.induct)
  case (1 n m)
  show ?case
  proof (cases "length m < n")
    case False
    with "1.prems" have "rest n (m @ d) = rest n (drop n m @ d)"
      using rest_step [of n "m @ d"] by simp
    with False "1" show ?thesis by (simp add: rest_step)
  qed simp
qed

lemma concat_blocks_rest: "0 < n \<Longrightarrow> concat (blocks n xs) @ rest n xs = xs"
proof (induction n xs rule: blocks.induct)
  case (1 n xs)
  then show ?case
    by (cases "length xs < n") (simp_all add: blocks_step rest_step [symmetric])
qed

lemma length_concat_blocks: "0 < n \<Longrightarrow> length (concat (blocks n xs)) mod n = 0"
proof (induction n xs rule: blocks.induct)
  case (1 n xs)
  then show ?case by (cases "length xs < n") (simp_all add: blocks_step)
qed

lemma rest_empty: "length xs mod n = 0 \<Longrightarrow> rest n xs = []"
  by (simp add: rest_def)

lemma set_blocks_length: "b \<in> set (blocks n xs) \<Longrightarrow> length b = n"
proof (induction n xs rule: blocks.induct)
  case (1 n xs)
  then show ?case by (subst (asm) (2) blocks.simps) (auto split: if_splits)
qed

section \<open>Masks and small words\<close>

lemma word_of_unat: "unat x = n \<Longrightarrow> x = of_nat n"
  for x :: "'a::len word"
  using unsigned_less [of x, where 'a = nat]
  by (intro unsigned_word_eqI [where 'a = nat]) (auto simp: unsigned_of_nat take_bit_nat_eq_self)

lemma unat_and_mask: "unat (x AND mask n) = unat x mod 2 ^ n"
  for x :: "'a::len word"
  by (metis take_bit_eq_mask take_bit_eq_mod unsigned_take_bit_eq)

lemma sint_of_nat_small: "n < 2 ^ 31 \<Longrightarrow> sint (of_nat n :: u32) = int n"
  by (simp add: signed_of_nat signed_take_bit_int_eq_self)

lemma sint_of_nat_wrap:
  assumes "2 ^ 31 \<le> n" and "n < 2 ^ 32"
  shows "sint (of_nat n :: u32) = int n - 2 ^ 32"
proof -
  have "sint (of_nat n :: u32) = take_bit 32 (int n + 2 ^ 31) - 2 ^ 31"
    by (simp add: signed_of_nat signed_take_bit_eq_take_bit_shift)
  also have "take_bit 32 (int n + 2 ^ 31) = (int n + 2 ^ 31 - 2 ^ 32) mod 2 ^ 32"
    unfolding take_bit_eq_mod by (rule minus_mod_self2 [symmetric])
  also have "\<dots> = int n + 2 ^ 31 - 2 ^ 32"
    using assms by (intro mod_pos_pos_trivial) auto
  finally show ?thesis by simp
qed

section \<open>Evaluating word expressions by rewriting\<close>

text \<open>
  The simplifier computes with word numerals without reducing them, so that a long computation
  makes them grow. The identity \<open>norm\<close> marks the places where a numeral is reduced
  modulo the width of its type; it is used only to state equations for the evaluation of known
  answers.
\<close>

definition norm :: "'a::len word \<Rightarrow> 'a word" where
  "norm x = x"

named_theorems norm_simps "evaluation of word expressions marked with norm"

lemma word_of_int_take_bit: "word_of_int (take_bit LENGTH('a) i) = (word_of_int i :: 'a::len word)"
  by (simp only: word_of_int_eq_iff) simp

lemma norm_numeral [norm_simps]:
  "norm (numeral k :: 'a::len word) = word_of_int (take_bit LENGTH('a) (numeral k))"
  "norm (- numeral k :: 'a::len word) = word_of_int (take_bit LENGTH('a) (- numeral k))"
  "norm (- 1 :: 'a::len word) = word_of_int (take_bit LENGTH('a) (- 1))"
  by (simp_all only: norm_def word_of_int_take_bit) simp_all

lemma norm_small [norm_simps]: "norm 0 = 0" "norm 1 = 1"
  by (simp_all add: norm_def)

lemma replicate_numeral [norm_simps]:
  "replicate (numeral k) x = x # replicate (pred_numeral k) x"
  by (simp add: numeral_eq_Suc)

lemma foldl_state_cong: "a = a' \<Longrightarrow> foldl f a xs = foldl f a' xs"
  by simp

section \<open>Tables of chains\<close>

lemma mset_concat_update:
  "i < length vs \<Longrightarrow> mset (concat (vs[i := es])) + mset (vs ! i) = mset (concat vs) + mset es"
  by (induction vs arbitrary: i) (auto simp: less_Suc_eq_0_disj ac_simps split: nat.splits)

end
