(* ===== verification/Digest_Stream.thy ===== *)
theory Digest_Stream
  imports Prelude
begin

text \<open>
  What the digest implementations under \<open>lib/ext/digest\<close> share. A context holds a chaining
  value, a buffer for the bytes of an incomplete block and a length counter. This theory states
  when a chaining value and a buffer represent a message (\<open>stream_rep\<close>), how the padded message
  is built, and the contract between an implementation (\<open>init\<close>, \<open>update\<close>,
  \<open>finish\<close>) and its clients as the locale \<open>digest_stream\<close>. Every algorithm
  interprets the locale on its own functions; \<open>wf\<close> says that the arrays of a context have
  their declared lengths, which is all that holds of freshly allocated memory; \<open>update\<close> and \<open>finish\<close> return
  \<open>None\<close> where the C loop does not terminate.
\<close>

section \<open>A chaining value and a buffer represent a message\<close>

definition stream_rep ::
  "nat \<Rightarrow> ('s \<Rightarrow> u8 list \<Rightarrow> 's) \<Rightarrow> 's \<Rightarrow> 's \<Rightarrow> u8 list \<Rightarrow> u8 list \<Rightarrow> bool" where
  "stream_rep n f iv st buf m \<longleftrightarrow>
     st = foldl f iv (blocks n m) \<and> length buf = n \<and> take (length m mod n) buf = rest n m"

lemma stream_rep_init: "0 < n \<Longrightarrow> length buf = n \<Longrightarrow> stream_rep n f iv iv buf []"
  by (simp add: stream_rep_def)

lemma stream_repD:
  assumes "stream_rep n f iv st buf m"
  shows "st = foldl f iv (blocks n m)" "length buf = n" "take (length m mod n) buf = rest n m"
  using assms by (simp_all add: stream_rep_def)

lemma stream_rep_blocks:
  "0 < n \<Longrightarrow> stream_rep n f iv st buf m \<Longrightarrow>
     foldl f st (blocks n (rest n m @ d)) = foldl f iv (blocks n (m @ d))"
  by (simp add: stream_rep_def blocks_append [of n m])

text \<open>The new bytes do not complete the block: they are appended in the buffer.\<close>

lemma stream_rep_partial:
  assumes "0 < n" and rep: "stream_rep n f iv st buf m" and len: "length m mod n + length d < n"
  shows "stream_rep n f iv st (put_at buf (length m mod n) d) (m @ d)"
proof -
  have short: "length (rest n m @ d) < n" using len by simp
  with assms(1) have "blocks n (m @ d) = blocks n m" "rest n (m @ d) = rest n m @ d"
    by (simp_all add: blocks_append [of n m] rest_append [of n m])
  moreover have "(length m + length d) mod n = length m mod n + length d"
    using len by (metis mod_add_left_eq mod_less)
  ultimately show ?thesis
    using stream_repD [OF rep] len by (simp add: stream_rep_def buffer_simps)
qed

text \<open>Any number of blocks is completed, and the buffer holds what is left over.\<close>

lemma stream_rep_absorb:
  assumes "0 < n" and rep: "stream_rep n f iv st buf m"
    and st': "st' = foldl f st (blocks n (rest n m @ d))"
    and buf': "length buf' = n" "take (length (rest n m @ d) mod n) buf' = rest n (rest n m @ d)"
  shows "stream_rep n f iv st' buf' (m @ d)"
  using assms stream_rep_blocks [OF assms(1) rep, of d]
  by (simp add: stream_rep_def rest_append [of n m] mod_add_left_eq)

text \<open>The buffer is filled up and processed, then the complete blocks of what is left.\<close>

lemma stream_rep_fill:
  assumes n: "0 < n" and rep: "stream_rep n f iv st buf m"
    and r: "r = length m mod n" "n \<le> r + length d"
    and st': "st' = foldl f (f st (put_at buf r (take (n - r) d))) (blocks n (drop (n - r) d))"
    and buf': "length buf' = n" "take (length (drop (n - r) d) mod n) buf' = rest n (drop (n - r) d)"
  shows "stream_rep n f iv st' buf' (m @ d)"
proof (rule stream_rep_absorb [OF n rep])
  let ?b = "rest n m @ take (n - r) d"
  have rn: "r < n" using r n by simp
  have b: "length ?b = n" "put_at buf r (take (n - r) d) = ?b"
    using r rn stream_repD(2,3) [OF rep] by (simp_all add: buffer_simps)
  have split: "rest n m @ d = ?b @ drop (n - r) d" by simp
  have "blocks n (rest n m @ d) = ?b # blocks n (drop (n - r) d)"
    unfolding split by (rule blocks_Cons [OF n b(1)])
  with b st' show "st' = foldl f st (blocks n (rest n m @ d))" by simp
  have "rest n (rest n m @ d) = rest n (drop (n - r) d)"
    unfolding split by (rule rest_Cons [OF n b(1)])
  moreover from this have "length (rest n m @ d) mod n = length (drop (n - r) d) mod n"
    by (metis length_rest)
  ultimately show "take (length (rest n m @ d) mod n) buf' = rest n (rest n m @ d)"
    using buf'(2) by (simp del: length_append)
qed (rule buf'(1))

text \<open>Exactly one block is completed.\<close>

lemma stream_rep_block:
  assumes n: "0 < n" and rep: "stream_rep n f iv st buf m" and len: "length m mod n + length d = n"
    and buf': "length buf' = n"
  shows "stream_rep n f iv (f st (rest n m @ d)) buf' (m @ d)"
proof (rule stream_rep_absorb [OF n rep])
  have b: "length (rest n m @ d) = n" using len by simp
  show "f st (rest n m @ d) = foldl f st (blocks n (rest n m @ d))"
    using blocks_Cons [OF n b, of "[]"] n by simp
  show "take (length (rest n m @ d) mod n) buf' = rest n (rest n m @ d)"
    unfolding b using n b by (simp add: rest_def)
qed (rule buf')

section \<open>A block as sixteen words\<close>

text \<open>The 64 bytes of a block read (\<open>memcpy\<close>, or in place) as an array of 32-bit words.\<close>

definition words32 :: "u8 list \<Rightarrow> u32 list" where
  "words32 data = map (\<lambda>i. le32 (take 4 (drop (4 * i) data))) [0..<16]"

lemma length_words32 [simp]: "length (words32 data) = 16"
  by (simp add: words32_def)

lemma nth_words32: "i < 16 \<Longrightarrow> words32 data ! i = le32 (take 4 (drop (4 * i) data))"
  by (simp add: words32_def)

definition words_be32 :: "u8 list \<Rightarrow> u32 list" where
  "words_be32 data = map (\<lambda>i. be32 (take 4 (drop (4 * i) data))) [0..<16]"

lemma length_words_be32 [simp]: "length (words_be32 data) = 16"
  by (simp add: words_be32_def)

lemma nth_words_be32: "i < 16 \<Longrightarrow> words_be32 data ! i = be32 (take 4 (drop (4 * i) data))"
  by (simp add: words_be32_def)

definition words64 :: "u8 list \<Rightarrow> u64 list" where
  "words64 data = map (\<lambda>i. le64 (take 8 (drop (8 * i) data))) [0..<16]"

definition words_be64 :: "u8 list \<Rightarrow> u64 list" where
  "words_be64 data = map (\<lambda>i. be64 (take 8 (drop (8 * i) data))) [0..<16]"

lemma length_words64 [simp]: "length (words64 data) = 16" "length (words_be64 data) = 16"
  by (simp_all add: words64_def words_be64_def)

lemma nth_words64:
  "i < 16 \<Longrightarrow> words64 data ! i = le64 (take 8 (drop (8 * i) data))"
  "i < 16 \<Longrightarrow> words_be64 data ! i = be64 (take 8 (drop (8 * i) data))"
  by (simp_all add: words64_def words_be64_def)

section \<open>Padding\<close>

text \<open>
  One bit 1 and then zeros, up to the last \<open>lw\<close> bytes of a block of \<open>n\<close> bytes; the
  message length in bits fills those.
\<close>

definition zeros :: "nat \<Rightarrow> nat \<Rightarrow> nat \<Rightarrow> nat" where
  "zeros n lw len = (n - (len + 1 + lw) mod n) mod n"

definition md_pad :: "nat \<Rightarrow> nat \<Rightarrow> nat \<Rightarrow> u8 list" where
  "md_pad n lw len = 0x80 # replicate (zeros n lw len) 0"

lemma zeros_bound: "0 < n \<Longrightarrow> zeros n lw len < n"
  by (simp add: zeros_def)

lemma zeros_aligned:
  assumes "0 < n"
  shows "n dvd len + 1 + lw + zeros n lw len"
proof -
  let ?k = "(len + 1 + lw) mod n"
  have "(len + 1 + lw + zeros n lw len) mod n = (?k + (n - ?k)) mod n"
    unfolding zeros_def by (metis mod_add_left_eq mod_add_right_eq)
  also have "\<dots> = 0" using assms by (simp add: less_imp_le)
  finally show ?thesis by (simp add: dvd_eq_mod_eq_0)
qed

lemma zeros_unique:
  assumes n: "0 < n" "z < n" "n dvd len + 1 + lw + z"
  shows "zeros n lw len = z"
proof -
  let ?z = "zeros n lw len"
  have "n dvd (len + 1 + lw + z) - (len + 1 + lw + ?z)" "n dvd (len + 1 + lw + ?z) - (len + 1 + lw + z)"
    using zeros_aligned [OF n(1)] n(3) by (blast intro: dvd_diff_nat)+
  then have "n dvd z - ?z" "n dvd ?z - z" by simp_all
  then have "z - ?z = 0" "?z - z = 0"
    using n(2) zeros_bound [OF n(1), of lw len] by (auto dest!: dvd_imp_le)
  then show ?thesis by simp
qed

text \<open>The padding stops exactly where the length field has to start.\<close>

lemma zeros_mod:
  assumes "z < n" "lw + 1 \<le> n" "(l + z) mod n = n - 1 - lw"
  shows "zeros n lw l = z"
proof (rule zeros_unique)
  have "((l + z) mod n + (1 + lw)) mod n = 0" using assms by simp
  then have "(l + z + (1 + lw)) mod n = 0" by (simp only: mod_add_left_eq)
  then show "n dvd l + 1 + lw + z" by (simp add: dvd_eq_mod_eq_0 ac_simps)
qed (use assms in simp_all)

lemma zeros_stop:
  assumes "0 < n" "lw + 1 \<le> n"
  shows "(len + 1 + zeros n lw len) mod n = (n - lw) mod n"
proof -
  obtain k where k: "len + 1 + lw + zeros n lw len = n * k"
    using zeros_aligned [OF assms(1), of len lw] by (auto elim: dvdE)
  then have "k \<noteq> 0" by (cases k) auto
  then obtain j where j: "k = Suc j" by (cases k) auto
  with k assms have "len + 1 + zeros n lw len = (n - lw) + j * n" by (simp add: mult.commute)
  then show ?thesis by (simp only: mod_mult_self1)
qed

text \<open>The last block of a padded message, or the last two.\<close>

lemma blocks_padded:
  assumes n: "lw + 1 \<le> n" and L: "length L = lw"
  shows "length m mod n + 1 + lw \<le> n \<Longrightarrow> blocks n (m @ md_pad n lw (length m) @ L) =
      blocks n m @ [rest n m @ 0x80 # replicate (n - lw - 1 - length m mod n) 0 @ L]"
    and "n < length m mod n + 1 + lw \<Longrightarrow> blocks n (m @ md_pad n lw (length m) @ L) =
      blocks n m @ [rest n m @ 0x80 # replicate (n - 1 - length m mod n) 0, replicate (n - lw) 0 @ L]"
proof -
  let ?r = "length m mod n"
  have n0: "0 < n" using n by simp
  have r: "?r < n" using n0 by simp
  have dvd: "n dvd length m + 1 + lw + x" if "n dvd ?r + (1 + lw + x)" for x
  proof -
    have "n dvd length m + (1 + lw + x)"
      using that by (metis dvd_eq_mod_eq_0 mod_add_left_eq)
    then show ?thesis by (simp only: add.assoc)
  qed
  show "blocks n (m @ md_pad n lw (length m) @ L) =
      blocks n m @ [rest n m @ 0x80 # replicate (n - lw - 1 - ?r) 0 @ L]" if "?r + 1 + lw \<le> n"
  proof -
    have "n dvd ?r + (1 + lw + (n - lw - 1 - ?r))" using that by simp
    from dvd [OF this] have z: "zeros n lw (length m) = n - lw - 1 - ?r"
      using n n0 by (intro zeros_unique) simp_all
    have "length (rest n m @ 0x80 # replicate (n - lw - 1 - ?r) 0 @ L) = n"
      using that L by simp
    from blocks_Cons [OF n0 this, of "[]"]
    have "blocks n (rest n m @ md_pad n lw (length m) @ L) =
        [rest n m @ 0x80 # replicate (n - lw - 1 - ?r) 0 @ L]"
      using n0 by (simp add: md_pad_def z)
    then show ?thesis by (simp only: blocks_append [OF n0, of m])
  qed
  show "blocks n (m @ md_pad n lw (length m) @ L) =
      blocks n m @ [rest n m @ 0x80 # replicate (n - 1 - ?r) 0, replicate (n - lw) 0 @ L]" if "n < ?r + 1 + lw"
  proof -
    have "?r + (1 + lw + ((n - 1 - ?r) + (n - lw))) = n + n" using r n by linarith
    then have "n dvd ?r + (1 + lw + ((n - 1 - ?r) + (n - lw)))" by simp
    from dvd [OF this] have d: "n dvd length m + 1 + lw + ((n - 1 - ?r) + (n - lw))" .
    have "(n - 1 - ?r) + (n - lw) < n" using that r n by linarith
    from zeros_unique [OF n0 this d] have z: "zeros n lw (length m) = (n - 1 - ?r) + (n - lw)" .
    let ?b1 = "rest n m @ 0x80 # replicate (n - 1 - ?r) 0" and ?b2 = "replicate (n - lw) 0 @ L"
    have b1: "length ?b1 = n"
      unfolding length_append length_rest length_Cons length_replicate using r by linarith
    have b2: "length ?b2 = n" using L n by simp
    note b = b1 b2
    have "rest n m @ md_pad n lw (length m) @ L = ?b1 @ ?b2 @ []"
      by (simp add: md_pad_def z replicate_add)
    moreover have "blocks n (?b1 @ ?b2 @ []) = [?b1, ?b2]"
      using n0 by (simp only: blocks_Cons [OF n0 b(1)] blocks_Cons [OF n0 b(2)]) simp
    ultimately show ?thesis by (simp only: blocks_append [OF n0, of m])
  qed
qed

section \<open>A 64-bit counter in two 32-bit halves\<close>

definition counter64 :: "u32 \<Rightarrow> u32 \<Rightarrow> nat" where
  "counter64 lo hi = unat lo + 2 ^ 32 * unat hi"

lemma unat32: "unat (x :: u32) < 2 ^ 32"
  using unsigned_less [of x, where 'a = nat] by simp

lemma carry_add:
  fixes B :: nat
  assumes "a < B" "b < B"
  shows "(a + b) mod B + B * ((H + K + (if (a + b) mod B < b then 1 else 0)) mod B) =
    (a + B * H + b + B * K) mod (B * B)"
proof -
  have c: "(if (a + b) mod B < b then 1 else 0) = (a + b) div B"
  proof (cases "a + b < B")
    case False
    with assms have "(a + b) div B = 1" by (simp add: div_nat_eqI)
    moreover from False assms have "(a + b) mod B < b" by (simp add: le_mod_geq)
    ultimately show ?thesis by simp
  qed simp
  have "(a + B * H + b + B * K) mod (B * B) = (a + b + B * (H + K)) mod (B * B)"
    by (simp add: algebra_simps)
  also have "\<dots> = B * ((a + b + B * (H + K)) div B mod B) + (a + b + B * (H + K)) mod B"
    by (rule mod_mult2_eq)
  also have "\<dots> = B * ((H + K + (a + b) div B) mod B) + (a + b) mod B"
    using assms(1) by (simp add: add.commute)
  finally show ?thesis by (simp only: c add.commute)
qed

lemma counter64_add:
  "counter64 (lo + b) (hi + h + (if lo + b < b then 1 else 0)) =
     (counter64 lo hi + unat b + 2 ^ 32 * unat h) mod 2 ^ 64"
proof -
  have c: "unat (if lo + b < b then 1 else 0 :: u32) =
      (if (unat lo + unat b) mod 2 ^ 32 < unat b then 1 else 0)"
    by (simp add: word_less_nat_alt unat_word_ariths)
  have "unat (hi + h + (if lo + b < b then 1 else 0)) =
      (unat hi + unat h + (if (unat lo + unat b) mod 2 ^ 32 < unat b then 1 else 0)) mod 2 ^ 32"
    by (subst unat_word_ariths(1), subst unat_word_ariths(1), subst c) (simp add: mod_simps)
  then have "counter64 (lo + b) (hi + h + (if lo + b < b then 1 else 0)) =
      (unat lo + unat b) mod 2 ^ 32 + 2 ^ 32 *
        ((unat hi + unat h + (if (unat lo + unat b) mod 2 ^ 32 < unat b then 1 else 0)) mod 2 ^ 32)"
    by (simp only: counter64_def unat_word_ariths(1)) simp
  also have "\<dots> = (unat lo + 2 ^ 32 * unat hi + unat b + 2 ^ 32 * unat h) mod (2 ^ 32 * 2 ^ 32)"
    by (rule carry_add [OF unat32 unat32])
  finally show ?thesis by (simp only: counter64_def) simp
qed

lemma counter64_message:
  assumes cnt: "counter64 lo hi = (8 * l) mod 2 ^ 64" and n: "unat b + 2 ^ 32 * unat h = 8 * n"
  shows "counter64 (lo + b) (if lo + b < b then hi + h + 1 else hi + h) = (8 * (l + n)) mod 2 ^ 64"
proof -
  have "counter64 (lo + b) (if lo + b < b then hi + h + 1 else hi + h) =
      counter64 (lo + b) (hi + h + (if lo + b < b then 1 else 0))"
    by simp
  also have "\<dots> = (counter64 lo hi + (unat b + 2 ^ 32 * unat h)) mod 2 ^ 64"
    by (simp only: counter64_add) (simp only: add.assoc)
  also have "\<dots> = (8 * (l + n)) mod 2 ^ 64"
    by (simp only: cnt n mod_add_left_eq distrib_left)
  finally show ?thesis .
qed

text \<open>The low half alone gives the number of bytes in the buffer.\<close>

lemma counter64_bytes:
  assumes "counter64 lo hi = (8 * l) mod 2 ^ 64"
  shows "unat (drop_bit 3 lo AND 63) = l mod 64"
proof -
  have "unat lo = counter64 lo hi mod 2 ^ 32"
    using unat32 [of lo] by (simp add: counter64_def)
  also have "\<dots> = (8 * l) mod (8 * 2 ^ 29)"
    by (simp add: assms mod_mod_cancel)
  finally have "unat lo div 8 = l mod 2 ^ 29"
    by (simp only: mult_mod_right [symmetric])
  moreover have "unat (drop_bit 3 lo AND 63) = unat lo div 8 mod 64"
    using unat_and_mask [of "drop_bit 3 lo" 6]
    unat_drop_bit_eq [of 3 lo] drop_bit_eq_div [of 3 "unat lo"]
    by (simp add: mask_eq_exp_minus_1)
  ultimately show ?thesis by (simp add: mod_mod_cancel)
qed

text \<open>A count of bits that is split into its low 32 bits and the rest.\<close>

lemma count_split:
  assumes "n < 2 ^ 61"
  shows "unat (ucast (push_bit 3 (of_nat n :: u64)) :: u32)
      + 2 ^ 32 * unat (ucast (drop_bit 29 (of_nat n :: u64)) :: u32) = 8 * n"
proof -
  have n: "unat (of_nat n :: u64) = n" using assms by (simp add: unat_of_nat)
  have "unat (ucast (push_bit 3 (of_nat n :: u64)) :: u32) = (8 * n) mod 2 ^ 32"
    using n by (simp add: unsigned_ucast_eq push_bit_eq_mult take_bit_eq_mod unat_word_ariths
        mod_mod_cancel mult.commute)
  moreover have "unat (ucast (drop_bit 29 (of_nat n :: u64)) :: u32) = n div 2 ^ 29"
  proof -
    have "unat (drop_bit 29 (of_nat n :: u64)) = n div 2 ^ 29"
      by (simp only: unat_drop_bit_eq drop_bit_eq_div [where 'a = nat] n)
    moreover have "n div 2 ^ 29 < 2 ^ 32"
      using assms by (simp add: less_mult_imp_div_less)
    ultimately show ?thesis by (simp only: unsigned_ucast_eq take_bit_eq_mod) simp
  qed
  moreover have "(8 * n) div 2 ^ 32 = n div 2 ^ 29" by simp
  ultimately show ?thesis using mod_mult_div_eq [of "8 * n" "2 ^ 32"] by simp
qed

text \<open>The two halves, stored with the low one first, are the bytes of the 64-bit count.\<close>

lemma counter64_of_nat:
  assumes "counter64 lo hi = n mod 2 ^ 64"
  shows "lo = ucast (of_nat n :: u64)" "hi = ucast (drop_bit 32 (of_nat n :: u64))"
proof -
  have n: "unat (of_nat n :: u64) = counter64 lo hi"
    by (simp add: unat_of_nat assms)
  have "unat (ucast (of_nat n :: u64) :: u32) = unat lo"
    unfolding unsigned_ucast_eq n using unat32 [of lo] by (simp add: counter64_def take_bit_eq_mod)
  then show "lo = ucast (of_nat n :: u64)" by (simp add: word_unat_eq_iff)
  have "unat (drop_bit 32 (of_nat n :: u64)) = unat hi"
    unfolding unat_drop_bit_eq n drop_bit_eq_div [where 'a = nat]
    using unat32 [of lo] by (simp add: counter64_def)
  then have "unat (ucast (drop_bit 32 (of_nat n :: u64)) :: u32) = unat hi"
    unfolding unsigned_ucast_eq using unat32 [of hi] by (simp add: take_bit_eq_mod)
  then show "hi = ucast (drop_bit 32 (of_nat n :: u64))" by (simp add: word_unat_eq_iff)
qed

lemma counter64_bytes_le64:
  "counter64 lo hi = n mod 2 ^ 64 \<Longrightarrow> bytes_le32 lo @ bytes_le32 hi = bytes_le64 (of_nat n)"
  using counter64_of_nat [of lo hi n] by (simp add: bytes_le64_def)

lemma of_nat_size_zero: "n < 2 ^ 61 \<Longrightarrow> (of_nat n :: u64) = 0 \<longleftrightarrow> n = 0"
  by (auto simp: word_of_nat_eq_0_iff dest: dvd_imp_le)

text \<open>A count of bits in one 64-bit word.\<close>

lemma bits_to_bytes:
  fixes w :: u64
  assumes "unat w dvd (2 ^ 61 :: nat)"
  shows "unat (drop_bit 3 (of_nat (8 * l)) mod w) = l mod unat w"
proof -
  have "unat (of_nat (8 * l) :: u64) = (8 * l) mod (8 * 2 ^ 61)"
    by (simp add: unat_of_nat del: of_nat_mult)
  also have "\<dots> = 8 * (l mod 2 ^ 61)" by (rule mult_mod_right [symmetric])
  finally have "unat (drop_bit 3 (of_nat (8 * l) :: u64)) = l mod 2 ^ 61"
    by (simp only: unat_drop_bit_eq drop_bit_eq_div [where 'a = nat]) simp
  then show ?thesis
    by (simp only: unat_mod_distrib mod_mod_cancel [OF assms])
qed

lemma push_bit_3: "push_bit 3 (of_nat n :: u64) = of_nat (8 * n)"
  by (simp add: push_bit_eq_mult)

section \<open>The contract of a digest implementation\<close>

text \<open>Feeding the pieces of a message one after the other.\<close>

primrec feed :: "('c \<Rightarrow> u8 list \<Rightarrow> 'c option) \<Rightarrow> 'c \<Rightarrow> u8 list list \<Rightarrow> 'c option" where
  "feed update c [] = Some c"
| "feed update c (d # ds) = Option.bind (update c d) (\<lambda>c'. feed update c' ds)"

lemma feed_total: "feed (\<lambda>c d. Some (f c d)) c ds = Some (foldl f c ds)"
  by (induction ds arbitrary: c) simp_all

locale digest_stream =
  fixes init :: "'c \<Rightarrow> 'c"
    and update :: "'c \<Rightarrow> u8 list \<Rightarrow> 'c option"
    and finish :: "'c \<Rightarrow> ('c \<times> u8 list) option"
    and wf :: "'c \<Rightarrow> bool"
    and rep :: "'c \<Rightarrow> u8 list \<Rightarrow> bool"
    and spec :: "u8 list \<Rightarrow> u8 list"
    and piece_ok :: "nat \<Rightarrow> bool"
    and total_ok :: "nat \<Rightarrow> bool"
  assumes rep_init: "wf c \<Longrightarrow> rep (init c) []"
    and rep_wf: "rep c m \<Longrightarrow> wf c"
    and rep_update: "rep c m \<Longrightarrow> piece_ok (length d) \<Longrightarrow> total_ok (length m + length d) \<Longrightarrow>
          \<exists>c'. update c d = Some c' \<and> rep c' (m @ d)"
    and finish_spec: "rep c m \<Longrightarrow> total_ok (length m) \<Longrightarrow> 
          \<exists>c'. finish c = Some (c', spec m) \<and> wf c'"
    and total_ok_mono: "total_ok k \<Longrightarrow> j \<le> k \<Longrightarrow> total_ok j"
begin

lemma rep_feed:
  "rep c m \<Longrightarrow> \<forall>d \<in> set ds. piece_ok (length d) \<Longrightarrow> total_ok (length m + length (concat ds)) \<Longrightarrow>
     \<exists>c'. feed update c ds = Some c' \<and> rep c' (m @ concat ds)"
proof (induction ds arbitrary: c m)
  case Nil
  then show ?case by simp
next
  case (Cons d ds)
  have "total_ok (length m + length d)"
    using Cons.prems(3) by (rule total_ok_mono) simp
  with Cons.prems obtain c1 where c1: "update c d = Some c1" "rep c1 (m @ d)"
    using rep_update by fastforce
  have "total_ok (length (m @ d) + length (concat ds))"
    using Cons.prems(3) by (simp add: add.assoc)
  with Cons.IH [OF c1(2)] Cons.prems(2) c1(1) show ?case by simp
qed

text \<open>However the message is cut into pieces, the digest is the one of the whole message.\<close>

lemma digest_of_pieces:
  assumes "wf c0" and "\<forall>d \<in> set ds. piece_ok (length d)" and "total_ok (length (concat ds))"
  shows "\<exists>c c'. feed update (init c0) ds = Some c \<and> finish c = Some (c', spec (concat ds))"
proof -
  from rep_feed [OF rep_init [OF assms(1)] assms(2)] assms(3)
  obtain c where "feed update (init c0) ds = Some c" "rep c (concat ds)" by auto
  with finish_spec assms(3) show ?thesis by blast
qed

lemma cutting_is_irrelevant:
  assumes "wf c0" "wf c1" "concat ds = concat es" and "total_ok (length (concat ds))"
    and "\<forall>d \<in> set ds. piece_ok (length d)" and "\<forall>d \<in> set es. piece_ok (length d)"
  shows "map_option snd (Option.bind (feed update (init c0) ds) finish)
    = map_option snd (Option.bind (feed update (init c1) es) finish)"
  using digest_of_pieces [of c0 ds] digest_of_pieces [of c1 es] assms by auto

end

end
