(* ===== verification/Digest_Base.thy ===== *)
theory Digest_Base
  imports Digest_Stream
begin

text \<open>
  The Ruby classes over the digest algorithms (\<open>lib/ext/digest/digest.c\<close> and the \<open>*init.c\<close> files).
  \<open>Digest::Instance\<close> implements \<open>digest\<close>, \<open>hexdigest\<close>, \<open>==\<close> and so on with four methods that a
  class provides; they are sent to the object (\<open>rb_funcall\<close>) and so come from a table of methods
  here. \<open>Digest::Base\<close> provides them on top of the functions of an algorithm, which it finds in a
  metadata record of the class or of a class above it. The locale \<open>digest_object\<close> is the contract of
  the table; \<open>base_class\<close> derives it from the contract \<open>digest_stream\<close> of an algorithm.

  A method returns \<open>None\<close> where the C function does not return, a Ruby exception (without the
  state of the objects at that time), or its value together with the receiver.
\<close>

section \<open>Results\<close>

datatype digest_error = RuntimeError | NotImplementedError | ArgumentError | TypeError | FrozenError

type_synonym 'a res = "(digest_error + 'a) option"

abbreviation returns :: "'a \<Rightarrow> 'a res" where "returns x \<equiv> Some (Inr x)"
abbreviation raises :: "digest_error \<Rightarrow> 'a res" where "raises e \<equiv> Some (Inl e)"

definition and_then :: "'a res \<Rightarrow> ('a \<Rightarrow> 'b res) \<Rightarrow> 'b res" where
  "and_then r f = (case r of None \<Rightarrow> None | Some (Inl e) \<Rightarrow> raises e | Some (Inr x) \<Rightarrow> f x)"

lemma and_then_simps [simp]:
  "and_then (returns x) f = f x" "and_then (raises e) f = raises e" "and_then None f = None"
  by (simp_all add: and_then_def)

lemma and_then_assoc: "and_then (and_then r f) g = and_then r (\<lambda>x. and_then (f x) g)"
  by (simp add: and_then_def split: option.split sum.split)

section \<open>Hexadecimal form\<close>

text \<open>A string literal as bytes.\<close>

definition ascii :: "string \<Rightarrow> u8 list" where
  "ascii s = map (of_nat \<circ> of_char) s"

definition LONG_MAX :: nat where "LONG_MAX = 9223372036854775807"

text \<open>The largest value of an \<open>int\<close>. Going beyond it is undefined in C, for which the result is \<open>None\<close>.\<close>

definition INT_MAX :: nat where "INT_MAX = 2147483647"

definition hex :: "u8 list" where
  "hex = [48, 49, 50, 51, 52, 53, 54, 55, 56, 57, 97, 98, 99, 100, 101, 102]"

text \<open>The loop of \<open>hexencode_str_new\<close> over the \<open>int\<close> \<open>i\<close>, writing into \<open>buf\<close> at \<open>i + i\<close> and \<open>i + i + 1\<close>.\<close>

definition hexencode_step :: "u8 list \<Rightarrow> u8 list option \<Rightarrow> nat \<Rightarrow> u8 list option" where
  "hexencode_step digest buf i =
     (case buf of None \<Rightarrow> None
      | Some p \<Rightarrow>
          (let byte = digest ! i
           in if i + i + 1 > INT_MAX then None
              else Some (p[i + i := hex ! unat (drop_bit 4 byte), i + i + 1 := hex ! unat (byte AND 0x0f)])))"

definition hexencode_str_new :: "u8 list \<Rightarrow> u8 list res" where
  "hexencode_str_new digest =
     (let digest_len = length digest
      in if LONG_MAX div 2 < digest_len then raises RuntimeError
         else map_option Inr (foldl (hexencode_step digest) (Some (replicate (digest_len * 2) 0)) [0..<digest_len]))"

definition rb_digest_s_hexencode :: "u8 list \<Rightarrow> u8 list res" where
  "rb_digest_s_hexencode str = hexencode_str_new str"

text \<open>The two digits of a byte, and the text as a function of the bytes.\<close>

definition hex_digits :: "u8 \<Rightarrow> u8 list" where
  "hex_digits b = [hex ! unat (drop_bit 4 b), hex ! unat (b AND 0x0f)]"

definition hex_text :: "u8 list \<Rightarrow> u8 list" where
  "hex_text bs = concat (map hex_digits bs)"

lemma hex_text_simps [simp]:
  "hex_text [] = []" "hex_text (b # bs) = hex_digits b @ hex_text bs"
  "hex_text (as @ bs) = hex_text as @ hex_text bs"
  by (simp_all add: hex_text_def)

lemma length_hex_digits [simp]: "length (hex_digits b) = 2"
  by (simp add: hex_digits_def)

lemma length_hex_text [simp]: "length (hex_text bs) = 2 * length bs"
  by (induction bs) auto

lemma hexencode_loop:
  "n \<le> length digest \<Longrightarrow> foldl (hexencode_step digest) (Some (replicate (length digest * 2) 0)) [0..<n]
     = (if n \<le> 2 ^ 30 then Some (hex_text (take n digest) @ replicate (2 * (length digest - n)) 0) else None)"
proof (induction n)
  case (Suc n)
  have "2 * (length digest - n) = Suc (Suc (2 * (length digest - Suc n)))" using Suc.prems by simp
  then have r: "replicate (2 * (length digest - n)) 0 = 0 # 0 # replicate (2 * (length digest - Suc n)) (0 :: u8)" by simp
  have l: "length (hex_text (take n digest)) = n + n" using Suc.prems by simp
  show ?case
    using Suc by (simp add: r hexencode_step_def INT_MAX_def take_Suc_conv_app_nth hex_digits_def list_update_append l Let_def)
qed simp

lemma hexencode_spec:
  "hexencode_str_new digest =
     (if LONG_MAX div 2 < length digest then raises RuntimeError
      else if length digest \<le> 2 ^ 30 then returns (hex_text digest) else None)"
  using hexencode_loop [of "length digest" digest] by (simp add: hexencode_str_new_def Let_def)

text \<open>Reading the text back.\<close>

definition hex_value :: "u8 \<Rightarrow> u8" where
  "hex_value c = (if c < 97 then c - 48 else c - 87)"

fun hex_decode :: "u8 list \<Rightarrow> u8 list" where
  "hex_decode (c # d # cs) = (push_bit 4 (hex_value c) OR hex_value d) # hex_decode cs"
| "hex_decode _ = []"

lemma all_nibbles: "\<forall>n<16. hex_value (hex ! n) = of_nat n"
  by code_simp

lemma hex_value_nth:
  fixes w :: u8
  assumes "w < 16"
  shows "hex_value (hex ! unat w) = w"
proof -
  have "unat w < 16" using assms by (simp add: word_less_nat_alt)
  with all_nibbles show ?thesis by simp
qed

lemma nibbles:
  fixes b :: u8
  shows "push_bit 4 (hex_value (hex ! unat (drop_bit 4 b))) OR hex_value (hex ! unat (b AND 0x0f)) = b"
proof -
  have "unat (drop_bit 4 b) = unat b div 16" by (simp only: unat_drop_bit_eq drop_bit_eq_div [where 'a = nat]) simp
  then have "unat (drop_bit 4 b) < 16" using unsigned_less [of b, where 'a = nat] by simp
  then have 1: "hex_value (hex ! unat (drop_bit 4 b)) = drop_bit 4 b" by (simp add: hex_value_nth word_less_nat_alt)
  have "b AND 0x0f < 16" using word_and_le1 [of b "0x0f"] by (simp add: word_le_nat_alt word_less_nat_alt)
  then have 2: "hex_value (hex ! unat (b AND 0x0f)) = b AND 0x0f" by (rule hex_value_nth)
  have m: "(0x0f :: u8) = mask 4" by (simp add: mask_eq_exp_minus_1)
  have "push_bit 4 (drop_bit 4 b) OR (b AND mask 4) = b" by (rule bit_word_eqI) (auto simp: bit_simps)
  then show ?thesis unfolding 1 2 unfolding m .
qed

lemma hex_decode_text: "hex_decode (hex_text bs) = bs"
  by (induction bs) (simp_all add: hex_digits_def nibbles)

section \<open>Digest::Instance\<close>

text \<open>The methods that a class provides.\<close>

record 'o digest_methods =
  m_clone :: "'o \<Rightarrow> 'o res"
  m_reset :: "'o \<Rightarrow> 'o res"
  m_update :: "'o \<Rightarrow> u8 list \<Rightarrow> 'o res"
  m_finish :: "'o \<Rightarrow> ('o \<times> u8 list) res"
  m_digest_length :: "'o \<Rightarrow> nat res"
  m_classname :: "'o \<Rightarrow> u8 list"

text \<open>The methods of the module that a class has to override.\<close>

definition rb_digest_instance_update :: "'o \<Rightarrow> u8 list \<Rightarrow> 'o res" where
  "rb_digest_instance_update self str = raises RuntimeError"

definition rb_digest_instance_finish :: "'o \<Rightarrow> ('o \<times> u8 list) res" where
  "rb_digest_instance_finish self = raises RuntimeError"

definition rb_digest_instance_reset :: "'o \<Rightarrow> 'o res" where
  "rb_digest_instance_reset self = raises RuntimeError"

definition rb_digest_instance_block_length :: "'o \<Rightarrow> nat res" where
  "rb_digest_instance_block_length self = raises RuntimeError"

definition rb_digest_instance_new :: "'o digest_methods \<Rightarrow> 'o \<Rightarrow> 'o res" where
  "rb_digest_instance_new ms self = and_then (m_clone ms self) (m_reset ms)"

text \<open>\<open>argv\<close> holds at most one string.\<close>

definition digest_of_argv :: "'o digest_methods \<Rightarrow> u8 list list \<Rightarrow> 'o \<Rightarrow> ('o \<times> u8 list) res" where
  "digest_of_argv ms argv self =
     (case argv of
        [] \<Rightarrow>
          and_then (m_clone ms self) (\<lambda>clone.
          and_then (m_finish ms clone) (\<lambda>(clone, value).
          and_then (m_reset ms clone) (\<lambda>clone. returns (self, value))))
      | [str] \<Rightarrow>
          and_then (m_reset ms self) (\<lambda>self.
          and_then (m_update ms self str) (\<lambda>self.
          and_then (m_finish ms self) (\<lambda>(self, value).
          and_then (m_reset ms self) (\<lambda>self. returns (self, value)))))
      | _ \<Rightarrow> raises ArgumentError)"

definition rb_digest_instance_digest :: "'o digest_methods \<Rightarrow> u8 list list \<Rightarrow> 'o \<Rightarrow> ('o \<times> u8 list) res" where
  "rb_digest_instance_digest ms argv self = digest_of_argv ms argv self"

definition finish_and_reset :: "'o digest_methods \<Rightarrow> 'o \<Rightarrow> ('o \<times> u8 list) res" where
  "finish_and_reset ms self =
     and_then (m_finish ms self) (\<lambda>(self, value).
     and_then (m_reset ms self) (\<lambda>self. returns (self, value)))"

definition rb_digest_instance_digest_bang :: "'o digest_methods \<Rightarrow> 'o \<Rightarrow> ('o \<times> u8 list) res" where
  "rb_digest_instance_digest_bang ms self = finish_and_reset ms self"

text \<open>A value in its hexadecimal form.\<close>

definition hexencode_value :: "('o \<times> u8 list) res \<Rightarrow> ('o \<times> u8 list) res" where
  "hexencode_value r =
     and_then r (\<lambda>(self, value). and_then (hexencode_str_new value) (\<lambda>str. returns (self, str)))"

definition rb_digest_instance_hexdigest :: "'o digest_methods \<Rightarrow> u8 list list \<Rightarrow> 'o \<Rightarrow> ('o \<times> u8 list) res" where
  "rb_digest_instance_hexdigest ms argv self = hexencode_value (digest_of_argv ms argv self)"

definition rb_digest_instance_hexdigest_bang :: "'o digest_methods \<Rightarrow> 'o \<Rightarrow> ('o \<times> u8 list) res" where
  "rb_digest_instance_hexdigest_bang ms self = hexencode_value (finish_and_reset ms self)"

definition rb_digest_instance_to_s :: "'o digest_methods \<Rightarrow> 'o \<Rightarrow> ('o \<times> u8 list) res" where
  "rb_digest_instance_to_s ms self = rb_digest_instance_hexdigest ms [] self"

text \<open>\<open>#<\<close>, the class name, \<open>: \<close>, the digest and \<open>>\<close>.\<close>

definition rb_digest_instance_inspect :: "'o digest_methods \<Rightarrow> 'o \<Rightarrow> ('o \<times> u8 list) res" where
  "rb_digest_instance_inspect ms self =
     and_then (rb_digest_instance_hexdigest ms [] self) (\<lambda>(self, digest).
       returns (self, [35, 60] @ m_classname ms self @ [58, 32] @ digest @ [62]))"

text \<open>The operand of \<open>==\<close>: a digest object (of any class), a string, or an object that \<open>StringValue\<close>
  cannot convert.\<close>

datatype 'p operand = Digest_Object "'p digest_methods" 'p | String_Object "u8 list" | Other_Object

definition string_equal :: "u8 list \<Rightarrow> u8 list \<Rightarrow> bool" where
  "string_equal str1 str2 \<longleftrightarrow> length str1 = length str2 \<and> str1 = str2"

definition rb_digest_instance_equal :: "'o digest_methods \<Rightarrow> 'o \<Rightarrow> 'p operand \<Rightarrow> bool res" where
  "rb_digest_instance_equal ms self other =
     (case other of
        Digest_Object ms' obj \<Rightarrow>
          and_then (rb_digest_instance_digest ms [] self) (\<lambda>(self, str1).
          and_then (rb_digest_instance_digest ms' [] obj) (\<lambda>(obj, str2). returns (string_equal str1 str2)))
      | String_Object str2 \<Rightarrow>
          and_then (rb_digest_instance_to_s ms self) (\<lambda>(self, str1). returns (string_equal str1 str2))
      | Other_Object \<Rightarrow>
          and_then (rb_digest_instance_to_s ms self) (\<lambda>(self, str1). raises TypeError))"

definition rb_digest_instance_digest_length :: "'o digest_methods \<Rightarrow> 'o \<Rightarrow> nat res" where
  "rb_digest_instance_digest_length ms self =
     and_then (rb_digest_instance_digest ms [] self) (\<lambda>(self, digest). returns (length digest))"

definition rb_digest_instance_length :: "'o digest_methods \<Rightarrow> 'o \<Rightarrow> nat res" where
  "rb_digest_instance_length ms self = m_digest_length ms self"

section \<open>Digest::Class\<close>

text \<open>\<open>alloc\<close> and \<open>call_init\<close> stand for the allocation of an object of the class and its \<open>initialize\<close>.\<close>

fun rb_digest_class_s_digest :: "'o digest_methods \<Rightarrow> 'o res \<Rightarrow> ('o \<Rightarrow> u8 list list \<Rightarrow> 'o res) \<Rightarrow> u8 list list \<Rightarrow> u8 list res" where
  "rb_digest_class_s_digest ms alloc call_init [] = raises ArgumentError"
| "rb_digest_class_s_digest ms alloc call_init (str # argv) =
     and_then alloc (\<lambda>obj. and_then (call_init obj argv) (\<lambda>obj.
     and_then (rb_digest_instance_digest ms [str] obj) (\<lambda>(obj, value). returns value)))"

definition rb_digest_class_s_hexdigest :: "'o digest_methods \<Rightarrow> 'o res \<Rightarrow> ('o \<Rightarrow> u8 list list \<Rightarrow> 'o res) \<Rightarrow> u8 list list \<Rightarrow> u8 list res" where
  "rb_digest_class_s_hexdigest ms alloc call_init argv =
     and_then (rb_digest_class_s_digest ms alloc call_init argv) hexencode_str_new"

section \<open>Digest::Base\<close>

record 'c rb_digest_metadata =
  api_version :: int
  digest_len :: nat
  block_len :: nat
  init_func :: "'c \<Rightarrow> 'c"
  update_func :: "'c \<Rightarrow> u8 list \<Rightarrow> 'c option"
  finish_func :: "'c \<Rightarrow> ('c \<times> u8 list) option"

text \<open>A class: its name, whether it is \<open>Digest::Base\<close> itself, and the variable \<open>metadata\<close> of the class and
  of the classes above it, \<open>None\<close> where it is not defined. An object holds a context.\<close>

record 'c rb_class =
  class_name :: "u8 list"
  is_digest_base :: bool
  metadata_chain :: "'c rb_digest_metadata option list"

record 'c digest_obj =
  obj_class :: "'c rb_class"
  obj_frozen :: bool
  pctx :: 'c

fun find_metadata :: "'c rb_digest_metadata option list \<Rightarrow> 'c rb_digest_metadata option" where
  "find_metadata [] = None"
| "find_metadata (None # ps) = find_metadata ps"
| "find_metadata (Some obj # ps) = Some obj"

definition get_digest_base_metadata :: "'c rb_class \<Rightarrow> 'c rb_digest_metadata res" where
  "get_digest_base_metadata klass =
     (case find_metadata (metadata_chain klass) of
        None \<Rightarrow> raises RuntimeError
      | Some algo \<Rightarrow> if api_version algo = 2 then returns algo else raises RuntimeError)"

text \<open>\<open>raw\<close> is the memory that \<open>xmalloc\<close> returns.\<close>

definition rb_digest_base_alloc :: "'c \<Rightarrow> 'c rb_class \<Rightarrow> 'c digest_obj res" where
  "rb_digest_base_alloc raw klass =
     (if is_digest_base klass then raises NotImplementedError
      else and_then (get_digest_base_metadata klass) (\<lambda>algo.
        returns \<lparr>obj_class = klass, obj_frozen = False, pctx = init_func algo raw\<rparr>))"

text \<open>\<open>same\<close> tells whether \<open>copy\<close> and \<open>obj\<close> are one object.\<close>

definition rb_digest_base_copy :: "bool \<Rightarrow> 'c digest_obj \<Rightarrow> 'c digest_obj \<Rightarrow> 'c digest_obj res" where
  "rb_digest_base_copy same copy obj =
     (if same then returns copy
      else if obj_frozen copy then raises FrozenError
      else and_then (get_digest_base_metadata (obj_class copy)) (\<lambda>algo. returns (copy\<lparr>pctx := pctx obj\<rparr>)))"

definition rb_digest_base_reset :: "'c digest_obj \<Rightarrow> 'c digest_obj res" where
  "rb_digest_base_reset self =
     and_then (get_digest_base_metadata (obj_class self)) (\<lambda>algo.
       returns (self\<lparr>pctx := init_func algo (pctx self)\<rparr>))"

definition rb_digest_base_update :: "'c digest_obj \<Rightarrow> u8 list \<Rightarrow> 'c digest_obj res" where
  "rb_digest_base_update self str =
     and_then (get_digest_base_metadata (obj_class self)) (\<lambda>algo.
       case update_func algo (pctx self) str of
         None \<Rightarrow> None
       | Some c \<Rightarrow> returns (self\<lparr>pctx := c\<rparr>))"

definition rb_digest_base_finish :: "'c digest_obj \<Rightarrow> ('c digest_obj \<times> u8 list) res" where
  "rb_digest_base_finish self =
     and_then (get_digest_base_metadata (obj_class self)) (\<lambda>algo.
       case finish_func algo (pctx self) of
         None \<Rightarrow> None
       | Some (c, out) \<Rightarrow>
           returns (self\<lparr>pctx := init_func algo c\<rparr>,
             take (digest_len algo) (put_at (replicate (digest_len algo) 0) 0 out)))"

definition rb_digest_base_digest_length :: "'c digest_obj \<Rightarrow> nat res" where
  "rb_digest_base_digest_length self =
     and_then (get_digest_base_metadata (obj_class self)) (\<lambda>algo. returns (digest_len algo))"

definition rb_digest_base_block_length :: "'c digest_obj \<Rightarrow> nat res" where
  "rb_digest_base_block_length self =
     and_then (get_digest_base_metadata (obj_class self)) (\<lambda>algo. returns (block_len algo))"

text \<open>\<open>rb_obj_clone\<close> allocates an object of the class and calls \<open>initialize_copy\<close>.\<close>

definition base_clone :: "'c \<Rightarrow> 'c digest_obj \<Rightarrow> 'c digest_obj res" where
  "base_clone raw obj = and_then (rb_digest_base_alloc raw (obj_class obj)) (\<lambda>copy. rb_digest_base_copy False copy obj)"

definition base_methods :: "'c \<Rightarrow> 'c digest_obj digest_methods" where
  "base_methods raw =
     \<lparr>m_clone = base_clone raw, m_reset = rb_digest_base_reset, m_update = rb_digest_base_update,
      m_finish = rb_digest_base_finish, m_digest_length = rb_digest_base_digest_length,
      m_classname = (\<lambda>self. class_name (obj_class self))\<rparr>"

section \<open>A session with a digest object\<close>

datatype digest_call = Update "u8 list" | Reset | Digest | Digest_Of "u8 list" | Digest_Bang | Hexdigest | Hexdigest_Bang

definition no_value :: "'o res \<Rightarrow> ('o \<times> u8 list) res" where
  "no_value r = and_then r (\<lambda>self. returns (self, []))"

fun digest_exec :: "'o digest_methods \<Rightarrow> digest_call \<Rightarrow> 'o \<Rightarrow> ('o \<times> u8 list) res" where
  "digest_exec ms (Update str) self = no_value (m_update ms self str)"
| "digest_exec ms Reset self = no_value (m_reset ms self)"
| "digest_exec ms Digest self = rb_digest_instance_digest ms [] self"
| "digest_exec ms (Digest_Of str) self = rb_digest_instance_digest ms [str] self"
| "digest_exec ms Digest_Bang self = rb_digest_instance_digest_bang ms self"
| "digest_exec ms Hexdigest self = rb_digest_instance_hexdigest ms [] self"
| "digest_exec ms Hexdigest_Bang self = rb_digest_instance_hexdigest_bang ms self"

fun digest_run :: "'o digest_methods \<Rightarrow> digest_call list \<Rightarrow> 'o \<Rightarrow> ('o \<times> u8 list list) res" where
  "digest_run ms [] self = returns (self, [])"
| "digest_run ms (c # cs) self =
     and_then (digest_exec ms c self) (\<lambda>(self, value).
     and_then (digest_run ms cs self) (\<lambda>(self, values). returns (self, value # values)))"

text \<open>The abstract object is the message it has been given since it was last reset.\<close>

fun message_exec :: "(u8 list \<Rightarrow> u8 list) \<Rightarrow> digest_call \<Rightarrow> u8 list \<Rightarrow> u8 list \<times> u8 list" where
  "message_exec H (Update str) m = (m @ str, [])"
| "message_exec H Reset m = ([], [])"
| "message_exec H Digest m = (m, H m)"
| "message_exec H (Digest_Of str) m = ([], H str)"
| "message_exec H Digest_Bang m = ([], H m)"
| "message_exec H Hexdigest m = (m, hex_text (H m))"
| "message_exec H Hexdigest_Bang m = ([], hex_text (H m))"

fun message_run :: "(u8 list \<Rightarrow> u8 list) \<Rightarrow> digest_call list \<Rightarrow> u8 list \<Rightarrow> u8 list list" where
  "message_run H [] m = []"
| "message_run H (c # cs) m = (case message_exec H c m of (m, value) \<Rightarrow> value # message_run H cs m)"

fun call_length :: "digest_call \<Rightarrow> nat" where
  "call_length (Update str) = length str"
| "call_length (Digest_Of str) = length str"
| "call_length _ = 0"

section \<open>The contract of a digest object\<close>

locale digest_object =
  fixes ms :: "'o digest_methods"
    and rep :: "'o \<Rightarrow> u8 list \<Rightarrow> bool"
    and H :: "u8 list \<Rightarrow> u8 list"
    and size_H :: nat
    and piece_ok :: "nat \<Rightarrow> bool"
    and total_ok :: "nat \<Rightarrow> bool"
  assumes clone_rep: "rep obj m \<Longrightarrow> \<exists>obj'. m_clone ms obj = returns obj' \<and> rep obj' m"
    and reset_rep: "rep obj m \<Longrightarrow> \<exists>obj'. m_reset ms obj = returns obj' \<and> rep obj' []"
    and update_rep: "rep obj m \<Longrightarrow> piece_ok (length str) \<Longrightarrow> total_ok (length m + length str) \<Longrightarrow>
          \<exists>obj'. m_update ms obj str = returns obj' \<and> rep obj' (m @ str)"
    and finish_rep: "rep obj m \<Longrightarrow> total_ok (length m) \<Longrightarrow>
          \<exists>obj'. m_finish ms obj = returns (obj', H m) \<and> rep obj' []"
    and total_mono: "total_ok k \<Longrightarrow> j \<le> k \<Longrightarrow> total_ok j"
    and size_H: "length (H m) = size_H" and size_H_bound: "size_H \<le> 2 ^ 30"
begin

lemma digest_rep: "rep obj m \<Longrightarrow> total_ok (length m) \<Longrightarrow> rb_digest_instance_digest ms [] obj = returns (obj, H m)"
  using clone_rep finish_rep reset_rep by (fastforce simp: rb_digest_instance_digest_def digest_of_argv_def)

lemma digest_of_rep:
  assumes "rep obj m" and "piece_ok (length str)" and "total_ok (length str)"
  shows "\<exists>obj'. rb_digest_instance_digest ms [str] obj = returns (obj', H str) \<and> rep obj' []"
proof -
  obtain o1 where o1: "m_reset ms obj = returns o1" "rep o1 []" using reset_rep [OF assms(1)] by blast
  obtain o2 where o2: "m_update ms o1 str = returns o2" "rep o2 str"
    using update_rep [OF o1(2) assms(2)] assms(3) by auto
  obtain o3 where o3: "m_finish ms o2 = returns (o3, H str)" "rep o3 []" using finish_rep [OF o2(2) assms(3)] by blast
  obtain o4 where "m_reset ms o3 = returns o4" "rep o4 []" using reset_rep [OF o3(2)] by blast
  with o1 o2 o3 show ?thesis by (simp add: rb_digest_instance_digest_def digest_of_argv_def)
qed

lemma bang_rep:
  assumes "rep obj m" and "total_ok (length m)"
  shows "\<exists>obj'. finish_and_reset ms obj = returns (obj', H m) \<and> rep obj' []"
proof -
  obtain o1 where o1: "m_finish ms obj = returns (o1, H m)" "rep o1 []" using finish_rep [OF assms] by blast
  obtain o2 where "m_reset ms o1 = returns o2" "rep o2 []" using reset_rep [OF o1(2)] by blast
  with o1 show ?thesis by (simp add: finish_and_reset_def)
qed

lemma hex_H: "hexencode_str_new (H m) = returns (hex_text (H m))"
  using size_H size_H_bound by (simp add: hexencode_spec LONG_MAX_def)

lemma hexdigest_rep: "rep obj m \<Longrightarrow> total_ok (length m) \<Longrightarrow> rb_digest_instance_hexdigest ms [] obj = returns (obj, hex_text (H m))"
  using digest_rep [of obj m] hex_H [of m]
  by (simp add: rb_digest_instance_hexdigest_def rb_digest_instance_digest_def hexencode_value_def)

lemma exec_rep:
  assumes "rep obj m" and "piece_ok (call_length c)" and "total_ok (length m + call_length c)"
  shows "\<exists>obj'. digest_exec ms c obj = returns (obj', snd (message_exec H c m)) \<and> rep obj' (fst (message_exec H c m))"
proof -
  have t: "total_ok (length m)" "total_ok (call_length c)" using total_mono [OF assms(3)] by simp_all
  show ?thesis
    using assms t update_rep [OF assms(1)] reset_rep [OF assms(1)] digest_rep [OF assms(1)] bang_rep [OF assms(1)]
      digest_of_rep [OF assms(1)] hexdigest_rep [OF assms(1)] hex_H [of m]
    by (cases c) (fastforce simp: no_value_def rb_digest_instance_digest_bang_def
        rb_digest_instance_hexdigest_bang_def hexencode_value_def)+
qed

lemma message_length: "length (fst (message_exec H c m)) \<le> length m + call_length c"
  by (cases c) auto

lemma run_rep:
  assumes "rep obj m" and "\<forall>c\<in>set cs. piece_ok (call_length c)" and "total_ok (length m + sum_list (map call_length cs))"
  shows "\<exists>obj'. digest_run ms cs obj = returns (obj', message_run H cs m)"
  using assms
proof (induction cs arbitrary: obj m)
  case Nil
  then show ?case by simp
next
  case (Cons c cs)
  have t: "total_ok (length m + call_length c)" using Cons.prems(3) by (rule total_mono) simp
  from Cons.prems(2) have "piece_ok (call_length c)" by simp
  from exec_rep [OF Cons.prems(1) this t] obtain o1 where
    o1: "digest_exec ms c obj = returns (o1, snd (message_exec H c m))" "rep o1 (fst (message_exec H c m))" by blast
  have "total_ok (length (fst (message_exec H c m)) + sum_list (map call_length cs))"
    using Cons.prems(3) by (rule total_mono) (use message_length [of c m] in simp)
  from Cons.IH [OF o1(2) _ this] Cons.prems(2) obtain o2 where
    "digest_run ms cs o1 = returns (o2, message_run H cs (fst (message_exec H c m)))" by auto
  with o1 show ?case by (simp split: prod.split)
qed

lemma equal_string:
  assumes "rep obj m" and "total_ok (length m)"
  shows "rb_digest_instance_equal ms obj (String_Object str) = returns (str = hex_text (H m))"
  using hexdigest_rep [OF assms]
  by (auto simp: rb_digest_instance_equal_def rb_digest_instance_to_s_def string_equal_def)

lemma equal_other:
  assumes "rep obj m" and "total_ok (length m)"
  shows "rb_digest_instance_equal ms obj Other_Object = raises TypeError"
  using hexdigest_rep [OF assms] by (simp add: rb_digest_instance_equal_def rb_digest_instance_to_s_def)

lemma equal_object:
  assumes "rep obj m" and "total_ok (length m)" and "rb_digest_instance_digest ms' [] obj' = returns (obj', d)"
  shows "rb_digest_instance_equal ms obj (Digest_Object ms' obj') = returns (H m = d)"
  using digest_rep [OF assms(1,2)] assms(3) by (auto simp: rb_digest_instance_equal_def string_equal_def)

lemma inspect_rep:
  assumes "rep obj m" and "total_ok (length m)"
  shows "rb_digest_instance_inspect ms obj
    = returns (obj, [35, 60] @ m_classname ms obj @ [58, 32] @ hex_text (H m) @ [62])"
  using hexdigest_rep [OF assms] by (simp add: rb_digest_instance_inspect_def)

end

section \<open>From an algorithm to its class\<close>

definition obj_rep :: "'c rb_class \<Rightarrow> ('c \<Rightarrow> u8 list \<Rightarrow> bool) \<Rightarrow> 'c digest_obj \<Rightarrow> u8 list \<Rightarrow> bool" where
  "obj_rep klass rep obj m \<longleftrightarrow> obj_class obj = klass \<and> rep (pctx obj) m"

locale base_class = digest_stream init update finish wf rep spec piece_ok total_ok
  for init :: "'c \<Rightarrow> 'c"
    and update :: "'c \<Rightarrow> u8 list \<Rightarrow> 'c option"
    and finish :: "'c \<Rightarrow> ('c \<times> u8 list) option"
    and wf :: "'c \<Rightarrow> bool"
    and rep :: "'c \<Rightarrow> u8 list \<Rightarrow> bool"
    and spec :: "u8 list \<Rightarrow> u8 list"
    and piece_ok :: "nat \<Rightarrow> bool"
    and total_ok :: "nat \<Rightarrow> bool" +
  fixes klass :: "'c rb_class" and algo :: "'c rb_digest_metadata"
  assumes metadata: "get_digest_base_metadata klass = returns algo" and not_base: "\<not> is_digest_base klass"
    and funcs: "init_func algo = init" "update_func algo = update" "finish_func algo = finish"
    and spec_length: "length (spec m) = digest_len algo" and len_bound: "digest_len algo \<le> 2 ^ 30"

sublocale base_class \<subseteq> digest_object "base_methods raw" "obj_rep klass rep" spec "digest_len algo" piece_ok total_ok
proof
  fix obj m assume r: "obj_rep klass rep obj m"
  then show "\<exists>obj'. m_clone (base_methods raw) obj = returns obj' \<and> obj_rep klass rep obj' m"
    using metadata not_base
    by (simp add: base_methods_def base_clone_def obj_rep_def rb_digest_base_alloc_def rb_digest_base_copy_def)
  show "\<exists>obj'. m_reset (base_methods raw) obj = returns obj' \<and> obj_rep klass rep obj' []"
    using r metadata funcs rep_init rep_wf
    by (auto simp: base_methods_def obj_rep_def rb_digest_base_reset_def)
  show "\<exists>obj'. m_update (base_methods raw) obj str = returns obj' \<and> obj_rep klass rep obj' (m @ str)"
    if "piece_ok (length str)" "total_ok (length m + length str)" for str
    using r metadata funcs rep_update [of "pctx obj" m str] that
    by (auto simp: base_methods_def obj_rep_def rb_digest_base_update_def)
  show "\<exists>obj'. m_finish (base_methods raw) obj = returns (obj', spec m) \<and> obj_rep klass rep obj' []"
    if "total_ok (length m)"
    using r metadata funcs finish_spec [of "pctx obj" m] that rep_init spec_length [of m]
    by (auto simp: base_methods_def obj_rep_def rb_digest_base_finish_def put_at_def)
qed (use total_ok_mono spec_length len_bound in auto)

text \<open>Allocating an object, a session with it, and its values.\<close>

definition session :: "'c \<Rightarrow> 'c rb_class \<Rightarrow> digest_call list \<Rightarrow> u8 list list res" where
  "session raw klass cs =
     and_then (rb_digest_base_alloc raw klass) (\<lambda>obj.
     and_then (digest_run (base_methods raw) cs obj) (\<lambda>(obj, values). returns values))"

context base_class begin

lemma alloc_rep:
  assumes "wf raw"
  obtains obj where "rb_digest_base_alloc raw klass = returns obj" and "obj_rep klass rep obj []"
    and "\<not> obj_frozen obj"
  using metadata not_base funcs rep_init [OF assms] by (auto simp: rb_digest_base_alloc_def obj_rep_def)

lemma session_rep:
  assumes "wf raw" and "\<forall>c\<in>set cs. piece_ok (call_length c)" and "total_ok (sum_list (map call_length cs))"
  shows "session raw klass cs = returns (message_run spec cs [])"
proof -
  obtain obj where "rb_digest_base_alloc raw klass = returns obj" "obj_rep klass rep obj []"
    by (rule alloc_rep [OF assms(1)])
  moreover obtain obj' where "digest_run (base_methods raw) cs obj = returns (obj', message_run spec cs [])"
    using run_rep [OF calculation(2) assms(2)] assms(3) by auto
  ultimately show ?thesis by (simp add: session_def)
qed

end

section \<open>Properties\<close>

lemma set_hex_text: "set (hex_text bs) \<subseteq> set hex"
proof -
  have l: "length hex = 16" by (simp add: hex_def)
  have "set (hex_digits b) \<subseteq> set hex" for b
  proof -
    have "unat (drop_bit 4 b) = unat b div 16" by (simp only: unat_drop_bit_eq drop_bit_eq_div [where 'a = nat]) simp
    then have "unat (drop_bit 4 b) < 16" using unsigned_less [of b, where 'a = nat] by simp
    moreover have "unat (b AND 0x0f) < 16" using word_and_le1 [of b "0x0f"] by (simp add: word_le_nat_alt)
    ultimately show ?thesis using l by (simp add: hex_digits_def)
  qed
  then show ?thesis by (induction bs) auto
qed

text \<open>The hexadecimal form loses nothing. For a string of at most \<open>2 ^ 30\<close> bytes, \<open>hexencode\<close> fills
  its buffer with exactly two lower-case digits a byte, and decoding them gives the string
  back. For a longer one that passes the check against \<open>LONG_MAX / 2\<close>, the sum \<open>i + i\<close> of the \<open>int\<close> \<open>i\<close>
  overflows.\<close>

theorem hexencode_round_trip:
  assumes "length digest \<le> 2 ^ 30"
  shows "\<exists>str. rb_digest_s_hexencode digest = returns str \<and> length str = 2 * length digest \<and> set str \<subseteq> set hex
    \<and> hex_decode str = digest"
  using assms set_hex_text [of digest] hex_decode_text [of digest]
  by (simp add: rb_digest_s_hexencode_def hexencode_spec LONG_MAX_def)

theorem hexencode_round_trip_witness:
  "rb_digest_s_hexencode [0, 0xaf, 0x9] = returns [48, 48, 97, 102, 48, 57] \<and> hex_decode [48, 48, 97, 102, 48, 57] = [0, 0xaf, 0x9]"
proof -
  have "hex_text [0, 0xaf, 0x9] = [48, 48, 97, 102, 48, 57]" by code_simp
  then have "rb_digest_s_hexencode [0, 0xaf, 0x9] = returns [48, 48, 97, 102, 48, 57]"
    by (simp add: rb_digest_s_hexencode_def hexencode_spec LONG_MAX_def)
  with hexencode_round_trip [of "[0, 0xaf, 0x9]"] show ?thesis by simp
qed

lemma hexencode_int_overflow:
  "2 ^ 30 < length digest \<Longrightarrow> length digest \<le> LONG_MAX div 2 \<Longrightarrow> rb_digest_s_hexencode digest = None"
  by (simp add: rb_digest_s_hexencode_def hexencode_spec)

end
