(* ===== verification/Digest_Unroll.thy ===== *)
theory Digest_Unroll
  imports Prelude
begin

text \<open>
  The block functions of MD5, SHA-1, SHA-2 and RIPEMD-160 are written as long sequences of
  macro calls. A call works in place on a few of the registers and the next call names the same
  registers one place to the right, so that no value is ever moved. The published algorithms are
  loops that move every value one place on. This theory relates the two shapes: running the
  in-place sequence and reading the registers through the names of its last step gives what the
  loop gives (\<open>unrolled_rolled\<close>), and after a multiple of the number of registers the
  names are back in place (\<open>unrolled_aligned\<close>).
\<close>

named_theorems round_simps "evaluation of the macro sequences"

text \<open>\<open>roles n t\<close>: the registers named by call number \<open>t\<close>, in the order of the
  macro's parameters.\<close>

definition roles :: "nat \<Rightarrow> nat \<Rightarrow> nat list" where
  "roles n t = rotate ((n - 1) * t) [0..<n]"

definition read_regs :: "nat list \<Rightarrow> 'a list \<Rightarrow> 'a list" where
  "read_regs rs regs = map (\<lambda>r. regs ! r) rs"

primrec write_regs :: "nat list \<Rightarrow> 'a list \<Rightarrow> 'a list \<Rightarrow> 'a list" where
  "write_regs [] vs regs = regs"
| "write_regs (r # rs) vs regs = write_regs rs (tl vs) (regs[r := hd vs])"

definition rotr :: "'a list \<Rightarrow> 'a list" where
  "rotr vs = last vs # butlast vs"

text \<open>\<open>f t\<close>: what call number \<open>t\<close> computes from the values of its parameters, in
  order, and from a state \<open>w\<close> that all calls share (the message schedule).\<close>

definition unrolled_step ::
  "nat \<Rightarrow> (nat \<Rightarrow> 'a list \<times> 'w \<Rightarrow> 'a list \<times> 'w) \<Rightarrow> 'a list \<times> 'w \<Rightarrow> nat \<Rightarrow> 'a list \<times> 'w" where
  "unrolled_step n f s t =
     (let (vs, w) = f t (read_regs (roles n t) (fst s), snd s) in (write_regs (roles n t) vs (fst s), w))"

definition rolled_step ::
  "(nat \<Rightarrow> 'a list \<times> 'w \<Rightarrow> 'a list \<times> 'w) \<Rightarrow> 'a list \<times> 'w \<Rightarrow> nat \<Rightarrow> 'a list \<times> 'w" where
  "rolled_step f s t = (let (vs, w) = f t s in (rotr vs, w))"

lemma length_roles [simp]: "length (roles n t) = n"
  by (simp add: roles_def)

lemma length_read_regs [simp]: "length (read_regs rs regs) = length rs"
  by (simp add: read_regs_def)

lemma length_write_regs [simp]: "length (write_regs rs vs regs) = length regs"
  by (induction rs arbitrary: vs regs) simp_all

lemma nth_write_regs_other: "i \<notin> set rs \<Longrightarrow> write_regs rs vs regs ! i = regs ! i"
  by (induction rs arbitrary: vs regs) auto

lemma read_write_regs:
  "distinct rs \<Longrightarrow> set rs \<subseteq> {..<length regs} \<Longrightarrow> length vs = length rs \<Longrightarrow>
     read_regs rs (write_regs rs vs regs) = vs"
proof (induction rs arbitrary: vs regs)
  case (Cons r rs)
  from Cons.prems obtain v vs' where vs: "vs = v # vs'" "length vs' = length rs"
    by (cases vs) auto
  have "read_regs rs (write_regs rs vs' (regs[r := v])) = vs'"
    using Cons.prems vs by (intro Cons.IH) auto
  with Cons.prems vs show ?case
    by (simp add: read_regs_def nth_write_regs_other)
qed (simp add: read_regs_def)

lemma roles_distinct [simp]: "distinct (roles n t)"
  by (simp add: roles_def)

lemma set_roles [simp]: "set (roles n t) = {..<n}"
  by (simp add: roles_def atLeast_upt)

lemma rotr_rotate: "vs \<noteq> [] \<Longrightarrow> rotr vs = rotate (length vs - 1) vs"
  by (cases vs rule: rev_cases) (simp_all add: rotr_def rotate_drop_take)

lemma length_rotr [simp]: "vs \<noteq> [] \<Longrightarrow> length (rotr vs) = length vs"
  by (simp add: rotr_def)

lemma roles_0 [simp]: "roles n 0 = [0..<n]"
  by (simp add: roles_def)

lemma roles_Suc: "0 < n \<Longrightarrow> roles n (Suc t) = rotr (roles n t)"
  by (subst rotr_rotate) (auto simp: roles_def rotate_rotate dest: length_0_conv [THEN iffD2])

lemma roles_aligned: "roles n (n * q) = [0..<n]"
  using rotate_conv_mod [of "(n - 1) * (n * q)" "[0..<n]"]
  by (simp add: roles_def mult.left_commute [of _ n])

lemma read_regs_id: "length regs = n \<Longrightarrow> read_regs [0..<n] regs = regs"
  by (auto simp: read_regs_def map_nth)

lemma read_regs_rotr: "rs \<noteq> [] \<Longrightarrow> read_regs (rotr rs) regs = rotr (read_regs rs regs)"
  by (simp add: rotr_def read_regs_def last_map map_butlast)

section \<open>In-place calls against the moving loop\<close>

definition keeps_length :: "nat \<Rightarrow> nat \<Rightarrow> (nat \<Rightarrow> 'a list \<times> 'w \<Rightarrow> 'a list \<times> 'w) \<Rightarrow> bool" where
  "keeps_length n k f \<longleftrightarrow>
     (\<forall>t < k. \<forall>vs w. length vs = n \<longrightarrow> length (fst (f t (vs, w))) = n)"

lemma unrolled_step_length:
  "length (fst s) = n \<Longrightarrow> length (fst (unrolled_step n f s t)) = n"
  by (simp add: unrolled_step_def split: prod.split)

lemma unrolled_rolled_step:
  assumes "0 < n" "length (fst s) = n"
    and f: "keeps_length n k f" "t < k"
  shows "(read_regs (roles n (Suc t)) (fst (unrolled_step n f s t)), snd (unrolled_step n f s t))
     = rolled_step f (read_regs (roles n t) (fst s), snd s) t"
proof -
  let ?rs = "roles n t"
  obtain vs w where fw: "f t (read_regs ?rs (fst s), snd s) = (vs, w)" by fastforce
  have len: "length vs = n"
    using f fw length_read_regs [of ?rs "fst s"] unfolding keeps_length_def
    by (metis fst_conv length_roles)
  have rs: "?rs \<noteq> []" using assms(1) by (metis length_0_conv length_roles not_gr_zero)
  have "read_regs ?rs (write_regs ?rs vs (fst s)) = vs"
    using len assms(2) by (intro read_write_regs) simp_all
  with fw rs assms(1) show ?thesis
    by (simp add: unrolled_step_def rolled_step_def roles_Suc read_regs_rotr)
qed

lemma unrolled_rolled:
  assumes "0 < n" "length (fst s) = n"
    and f: "keeps_length n k f"
  shows "(read_regs (roles n k) (fst (foldl (unrolled_step n f) s [0..<k])),
      snd (foldl (unrolled_step n f) s [0..<k])) = foldl (rolled_step f) s [0..<k] \<and>
    length (fst (foldl (unrolled_step n f) s [0..<k])) = n"
  using f
proof (induction k)
  case 0
  then show ?case using assms by (simp add: read_regs_id)
next
  case (Suc k)
  let ?s = "foldl (unrolled_step n f) s [0..<k]"
  have kf: "keeps_length n k f" using Suc.prems by (simp add: keeps_length_def)
  from Suc.IH [OF this] have IH: "(read_regs (roles n k) (fst ?s), snd ?s) = foldl (rolled_step f) s [0..<k]"
    and len: "length (fst ?s) = n" by auto
  from unrolled_rolled_step [OF assms(1) len Suc.prems lessI] len show ?case
    by (simp add: unrolled_step_length IH [symmetric])
qed

text \<open>After a multiple of \<open>n\<close> calls the names are in place again.\<close>

lemma unrolled_aligned:
  assumes "0 < n" "length (fst s) = n" "n dvd k"
    and f: "keeps_length n k f"
  shows "foldl (unrolled_step n f) s [0..<k] = foldl (rolled_step f) s [0..<k]"
proof -
  from \<open>n dvd k\<close> obtain q where "k = n * q" by (rule dvdE)
  with unrolled_rolled [OF assms(1,2) f] show ?thesis
    by (auto simp: roles_aligned read_regs_id prod_eq_iff)
qed

lemma length_rolled:
  assumes "0 < n" "length (fst s) = n"
    and f: "keeps_length n k f"
  shows "length (fst (foldl (rolled_step f) s [0..<k])) = n"
  using unrolled_rolled [OF assms(1,2) f] by (metis fst_conv length_read_regs length_roles)

lemma roles_add: "roles n (n * q + t) = roles n t"
proof -
  have "rotate ((n - 1) * (n * q + t)) [0..<n] = rotate (((n - 1) * (n * q + t)) mod n) [0..<n]"
    using rotate_conv_mod [of _ "[0..<n]"] by simp
  also have "((n - 1) * (n * q + t)) mod n = ((n - 1) * t) mod n"
    by (simp add: distrib_left mult.left_commute [of _ n])
  also have "rotate (((n - 1) * t) mod n) [0..<n] = rotate ((n - 1) * t) [0..<n]"
    using rotate_conv_mod [of _ "[0..<n]"] by simp
  finally show ?thesis by (simp add: roles_def)
qed

section \<open>Reading the names off\<close>

lemma roles_map: "roles n t = map (\<lambda>j. ((n - 1) * t + j) mod n) [0..<n]"
  by (rule nth_equalityI) (simp_all add: roles_def nth_rotate)

lemma roles_4: "roles 4 t = [3 * t mod 4, (3 * t + 1) mod 4, (3 * t + 2) mod 4, (3 * t + 3) mod 4]"
  by (simp add: roles_map upt_rec add.commute)

lemma roles_5: "roles 5 t = [4 * t mod 5, (4 * t + 1) mod 5, (4 * t + 2) mod 5,
    (4 * t + 3) mod 5, (4 * t + 4) mod 5]"
  by (simp add: roles_map upt_rec add.commute)

lemma roles_8: "roles 8 t = [7 * t mod 8, (7 * t + 1) mod 8, (7 * t + 2) mod 8, (7 * t + 3) mod 8,
    (7 * t + 4) mod 8, (7 * t + 5) mod 8, (7 * t + 6) mod 8, (7 * t + 7) mod 8]"
  by (simp add: roles_map upt_rec add.commute)

text \<open>A call that assigns one of its parameters, or two.\<close>

lemma write_regs_target:
  assumes "length regs' = length regs" "set rs \<subseteq> {..<length regs}"
    and "\<And>i. i < length regs \<Longrightarrow> i \<notin> set rs \<Longrightarrow> regs' ! i = regs ! i"
  shows "write_regs rs (read_regs rs regs') regs = regs'"
  using assms
proof (induction rs arbitrary: regs)
  case Nil
  then show ?case by (simp add: nth_equalityI)
next
  case (Cons r rs)
  have "write_regs rs (read_regs rs regs') (regs[r := regs' ! r]) = regs'"
    using Cons.prems by (intro Cons.IH) (auto simp: nth_list_update)
  then show ?case by (simp add: read_regs_def)
qed

lemma read_regs_update:
  assumes "distinct rs" "set rs \<subseteq> {..<length regs}" "j < length rs"
  shows "read_regs rs (regs[rs ! j := x]) = (read_regs rs regs)[j := x]"
  by (rule nth_equalityI)
    (use assms in \<open>auto simp: read_regs_def nth_list_update nth_eq_iff_index_eq dest: nth_mem\<close>)

lemma nth_outside: "i \<notin> set rs \<Longrightarrow> j < length rs \<Longrightarrow> rs ! j \<noteq> i"
  by auto

lemma write_regs_one:
  assumes "distinct rs" "set rs \<subseteq> {..<length regs}" "j < length rs"
  shows "write_regs rs ((read_regs rs regs)[j := x]) regs = regs[rs ! j := x]"
  unfolding read_regs_update [OF assms, symmetric]
  using assms by (intro write_regs_target) (simp_all add: nth_outside)

lemma write_regs_two:
  assumes "distinct rs" "set rs \<subseteq> {..<length regs}" "j < length rs" "k < length rs"
  shows "write_regs rs ((read_regs rs regs)[j := x, k := y]) regs = regs[rs ! j := x, rs ! k := y]"
proof -
  have "(read_regs rs regs)[j := x, k := y] = read_regs rs (regs[rs ! j := x, rs ! k := y])"
    using assms by (simp add: read_regs_update)
  moreover have "write_regs rs (read_regs rs (regs[rs ! j := x, rs ! k := y])) regs
      = regs[rs ! j := x, rs ! k := y]"
    using assms by (intro write_regs_target) (simp_all add: nth_outside)
  ultimately show ?thesis by simp
qed

lemma upt_16: "[0..<16] =
    [0, 1, 2, 3, 4, 5, 6, 7, 8, 9, 10, 11, 12, 13, 14, 15]"
  by (simp add: upt_rec)

lemma upt_32: "[0..<32] =
    [0, 1, 2, 3, 4, 5, 6, 7, 8, 9, 10, 11, 12, 13, 14, 15, 16, 17, 18, 19, 20, 21, 22,
     23, 24, 25, 26, 27, 28, 29, 30, 31]"
  by (simp add: upt_rec)

lemma upt_64: "[0..<64] =
    [0, 1, 2, 3, 4, 5, 6, 7, 8, 9, 10, 11, 12, 13, 14, 15, 16, 17, 18, 19, 20, 21, 22,
     23, 24, 25, 26, 27, 28, 29, 30, 31, 32, 33, 34, 35, 36, 37, 38, 39, 40, 41, 42, 43,
     44, 45, 46, 47, 48, 49, 50, 51, 52, 53, 54, 55, 56, 57, 58, 59, 60, 61, 62, 63]"
  by (simp add: upt_rec)

lemma upt_80: "[0..<80] =
    [0, 1, 2, 3, 4, 5, 6, 7, 8, 9, 10, 11, 12, 13, 14, 15, 16, 17, 18, 19, 20, 21, 22,
     23, 24, 25, 26, 27, 28, 29, 30, 31, 32, 33, 34, 35, 36, 37, 38, 39, 40, 41, 42, 43,
     44, 45, 46, 47, 48, 49, 50, 51, 52, 53, 54, 55, 56, 57, 58, 59, 60, 61, 62, 63, 64,
     65, 66, 67, 68, 69, 70, 71, 72, 73, 74, 75, 76, 77, 78, 79]"
  by (simp add: upt_rec)

lemma upt_16_64: "[16..<64] =
    [16, 17, 18, 19, 20, 21, 22, 23, 24, 25, 26, 27, 28, 29, 30, 31, 32, 33, 34, 35, 36,
     37, 38, 39, 40, 41, 42, 43, 44, 45, 46, 47, 48, 49, 50, 51, 52, 53, 54, 55, 56, 57,
     58, 59, 60, 61, 62, 63]"
  by (simp add: upt_rec)

lemma upt_16_80: "[16..<80] =
    [16, 17, 18, 19, 20, 21, 22, 23, 24, 25, 26, 27, 28, 29, 30, 31, 32, 33, 34, 35, 36,
     37, 38, 39, 40, 41, 42, 43, 44, 45, 46, 47, 48, 49, 50, 51, 52, 53, 54, 55, 56, 57,
     58, 59, 60, 61, 62, 63, 64, 65, 66, 67, 68, 69, 70, 71, 72, 73, 74, 75, 76, 77, 78,
     79]"
  by (simp add: upt_rec)

section \<open>Message schedules\<close>

text \<open>
  The published schedule is a growing list: word \<open>t\<close> is computed from the sixteen words
  before it. The code keeps only those sixteen words, in a circular array.
\<close>

definition schedule :: "((nat \<Rightarrow> 'a) \<Rightarrow> 'a) \<Rightarrow> 'a list \<Rightarrow> nat \<Rightarrow> 'a list" where
  "schedule g M n = foldl (\<lambda>W t. W @ [g (\<lambda>k. W ! (t - k))]) M [16..<n]"

definition looks_back :: "((nat \<Rightarrow> 'a) \<Rightarrow> 'a) \<Rightarrow> bool" where
  "looks_back g \<longleftrightarrow> (\<forall>a b. (\<forall>k. 0 < k \<and> k \<le> 16 \<longrightarrow> a k = b k) \<longrightarrow> g a = g b)"

lemma length_schedule [simp]: "length M = 16 \<Longrightarrow> length (schedule g M n) = max 16 n"
  by (induction n) (auto simp: schedule_def)

lemma schedule_Suc:
  "16 \<le> n \<Longrightarrow> schedule g M (Suc n) = schedule g M n @ [g (\<lambda>k. schedule g M n ! (n - k))]"
  by (simp add: schedule_def)

lemma schedule_prefix:
  assumes "length M = 16" "16 \<le> n" "n \<le> m" "i < n"
  shows "schedule g M m ! i = schedule g M n ! i"
  using assms(3)
proof (induction m rule: dec_induct)
  case (step m)
  with assms show ?case by (simp add: schedule_Suc nth_append)
qed simp

lemma schedule_16: "schedule g M 16 = M"
  by (simp add: schedule_def)

lemma schedule_low: "length M = 16 \<Longrightarrow> 16 \<le> n \<Longrightarrow> i < 16 \<Longrightarrow> schedule g M n ! i = M ! i"
  using schedule_prefix [of M 16 n i g] by (simp add: schedule_16)

lemma schedule_rec:
  assumes g: "looks_back g" and M: "length M = 16" and t: "16 \<le> t" "t < n"
  shows "schedule g M n ! t = g (\<lambda>k. schedule g M n ! (t - k))"
proof -
  have "schedule g M n ! t = schedule g M (Suc t) ! t"
    using M t by (intro schedule_prefix) simp_all
  also have "\<dots> = g (\<lambda>k. schedule g M t ! (t - k))"
    using M t by (simp add: schedule_Suc nth_append)
  also have "\<dots> = g (\<lambda>k. schedule g M n ! (t - k))"
  proof -
    have "schedule g M n ! (t - k) = schedule g M t ! (t - k)" if "0 < k \<and> k \<le> 16" for k
      using M t that by (intro schedule_prefix) simp_all
    with g show ?thesis by (simp add: looks_back_def)
  qed
  finally show ?thesis .
qed

text \<open>The circular array before step \<open>t\<close>: the last sixteen words of the schedule, and the
  words of the block that have not been used yet.\<close>

definition window :: "'a list \<Rightarrow> 'a list \<Rightarrow> nat \<Rightarrow> 'a list \<Rightarrow> bool" where
  "window W raw t l \<longleftrightarrow> length l = 16 \<and> (\<forall>i < t. t \<le> i + 16 \<longrightarrow> l ! (i mod 16) = W ! i)
     \<and> (\<forall>i < 16. t \<le> i \<longrightarrow> l ! i = raw ! i)"

lemma window_init: "length raw = 16 \<Longrightarrow> window W raw 0 raw"
  by (simp add: window_def)

lemma window_length: "window W raw t l \<Longrightarrow> length l = 16"
  by (simp add: window_def)

lemma window_raw: "window W raw t l \<Longrightarrow> t < 16 \<Longrightarrow> l ! t = raw ! t"
  by (simp add: window_def)

lemma window_put:
  assumes "window W raw t l"
  shows "window W raw (Suc t) (l[t mod 16 := W ! t])"
proof -
  have "(l[t mod 16 := W ! t]) ! (i mod 16) = W ! i" if "i < Suc t" "Suc t \<le> i + 16" for i
  proof (cases "i = t")
    case False
    have "i mod 16 \<noteq> t mod 16"
    proof
      assume "i mod 16 = t mod 16"
      then have "16 dvd t - i" using mod_eq_dvd_iff_nat [of i t 16] that by simp
      with False that show False by (auto dest: dvd_imp_le)
    qed
    with assms that False show ?thesis by (auto simp: window_def)
  qed (use assms in \<open>simp add: window_def\<close>)
  moreover have "(l[t mod 16 := W ! t]) ! i = raw ! i" if "i < 16" "Suc t \<le> i" for i
    using assms that by (simp add: window_def)
  ultimately show ?thesis using assms by (simp add: window_def)
qed

lemma window_get:
  assumes "window W raw t l" "0 < k" "k \<le> 16" "k \<le> t"
  shows "l ! ((t + 16 - k) mod 16) = W ! (t - k)"
proof -
  have "t + 16 - k = t - k + 16" using assms by simp
  then have "(t + 16 - k) mod 16 = (t - k) mod 16" by (simp only: mod_add_self2)
  moreover have "t - k < t" "t \<le> t - k + 16" using assms by simp_all
  ultimately show ?thesis using assms(1) by (simp add: window_def)
qed

end
