(* ===== verification/Md5.thy ===== *)
theory Md5
  imports Digest_Stream Digest_Unroll
begin

text \<open>
  MD5 (\<open>lib/ext/digest/md5/md5.c\<close>): the 64 macro calls of \<open>md5_process\<close>, the context
  operations \<open>MD5_Init\<close>, \<open>MD5_Update\<close> and \<open>MD5_Finish\<close>, and two
  specifications they are proved against: the loop of RFC 1321 for one block, and the digest of a
  whole message for the context operations. The byte order is little endian, so the branch that
  reads aligned data in place and the one that copies it read the same sixteen words.
\<close>

section \<open>The block function\<close>

abbreviation T_MASK :: u32 where "T_MASK \<equiv> NOT 0"

definition md5_T :: "u32 list" where
  "md5_T =
    [T_MASK XOR 0x28955b87, T_MASK XOR 0x173848a9, 0x242070db, T_MASK XOR 0x3e423111,
     T_MASK XOR 0x0a83f050, 0x4787c62a, T_MASK XOR 0x57cfb9ec, T_MASK XOR 0x02b96afe,
     0x698098d8, T_MASK XOR 0x74bb0850, T_MASK XOR 0x0000a44e, T_MASK XOR 0x76a32841,
     0x6b901122, T_MASK XOR 0x02678e6c, T_MASK XOR 0x5986bc71, 0x49b40821,
     T_MASK XOR 0x09e1da9d, T_MASK XOR 0x3fbf4cbf, 0x265e5a51, T_MASK XOR 0x16493855,
     T_MASK XOR 0x29d0efa2, 0x02441453, T_MASK XOR 0x275e197e, T_MASK XOR 0x182c0437,
     0x21e1cde6, T_MASK XOR 0x3cc8f829, T_MASK XOR 0x0b2af278, 0x455a14ed,
     T_MASK XOR 0x561c16fa, T_MASK XOR 0x03105c07, 0x676f02d9, T_MASK XOR 0x72d5b375,
     T_MASK XOR 0x0005c6bd, T_MASK XOR 0x788e097e, 0x6d9d6122, T_MASK XOR 0x021ac7f3,
     T_MASK XOR 0x5b4115bb, 0x4bdecfa9, T_MASK XOR 0x0944b49f, T_MASK XOR 0x4140438f,
     0x289b7ec6, T_MASK XOR 0x155ed805, T_MASK XOR 0x2b10cf7a, 0x04881d05,
     T_MASK XOR 0x262b2fc6, T_MASK XOR 0x1924661a, 0x1fa27cf8, T_MASK XOR 0x3b53a99a,
     T_MASK XOR 0x0bd6ddbb, 0x432aff97, T_MASK XOR 0x546bdc58, T_MASK XOR 0x036c5fc6,
     0x655b59c3, T_MASK XOR 0x70f3336d, T_MASK XOR 0x00100b82, T_MASK XOR 0x7a7ba22e,
     0x6fa87e4f, T_MASK XOR 0x01d3191f, T_MASK XOR 0x5cfebceb, 0x4e0811a1,
     T_MASK XOR 0x08ac817d, T_MASK XOR 0x42c50dca, 0x2ad7d2bb, T_MASK XOR 0x14792c6e]"

definition md5_Ti :: "nat \<Rightarrow> u32" where
  "md5_Ti i = md5_T ! (i - 1)"

definition ROTATE_LEFT :: "u32 \<Rightarrow> nat \<Rightarrow> u32" where
  "ROTATE_LEFT x n = push_bit n x OR drop_bit (32 - n) x"

definition md5_F :: "u32 \<Rightarrow> u32 \<Rightarrow> u32 \<Rightarrow> u32" where
  "md5_F x y z = (x AND y) OR (NOT x AND z)"

definition md5_G :: "u32 \<Rightarrow> u32 \<Rightarrow> u32 \<Rightarrow> u32" where
  "md5_G x y z = (x AND z) OR (y AND NOT z)"

definition md5_H :: "u32 \<Rightarrow> u32 \<Rightarrow> u32 \<Rightarrow> u32" where
  "md5_H x y z = x XOR y XOR z"

definition md5_I :: "u32 \<Rightarrow> u32 \<Rightarrow> u32 \<Rightarrow> u32" where
  "md5_I x y z = y XOR (x OR NOT z)"

text \<open>The four local variables of \<open>md5_process\<close> are the elements of a list.\<close>

abbreviation (input) va :: nat where "va \<equiv> 0"
abbreviation (input) vb :: nat where "vb \<equiv> 1"
abbreviation (input) vc :: nat where "vc \<equiv> 2"
abbreviation (input) vd :: nat where "vd \<equiv> 3"

definition md5_SET ::
  "(u32 \<Rightarrow> u32 \<Rightarrow> u32 \<Rightarrow> u32) \<Rightarrow> u32 list \<Rightarrow> nat \<Rightarrow> nat \<Rightarrow> nat \<Rightarrow> nat \<Rightarrow> nat \<Rightarrow> nat \<Rightarrow> u32 \<Rightarrow>
     u32 list \<Rightarrow> u32 list" where
  "md5_SET f X a b c d k s Ti regs =
     (let t = regs ! a + f (regs ! b) (regs ! c) (regs ! d) + X ! k + Ti
      in regs[a := ROTATE_LEFT t s + regs ! b])"

definition md5_round1 :: "u32 list \<Rightarrow> (u32 list \<Rightarrow> u32 list) list" where
  "md5_round1 X =
    [md5_SET md5_F X va vb vc vd 0 7 (md5_Ti 1),
     md5_SET md5_F X vd va vb vc 1 12 (md5_Ti 2),
     md5_SET md5_F X vc vd va vb 2 17 (md5_Ti 3),
     md5_SET md5_F X vb vc vd va 3 22 (md5_Ti 4),
     md5_SET md5_F X va vb vc vd 4 7 (md5_Ti 5),
     md5_SET md5_F X vd va vb vc 5 12 (md5_Ti 6),
     md5_SET md5_F X vc vd va vb 6 17 (md5_Ti 7),
     md5_SET md5_F X vb vc vd va 7 22 (md5_Ti 8),
     md5_SET md5_F X va vb vc vd 8 7 (md5_Ti 9),
     md5_SET md5_F X vd va vb vc 9 12 (md5_Ti 10),
     md5_SET md5_F X vc vd va vb 10 17 (md5_Ti 11),
     md5_SET md5_F X vb vc vd va 11 22 (md5_Ti 12),
     md5_SET md5_F X va vb vc vd 12 7 (md5_Ti 13),
     md5_SET md5_F X vd va vb vc 13 12 (md5_Ti 14),
     md5_SET md5_F X vc vd va vb 14 17 (md5_Ti 15),
     md5_SET md5_F X vb vc vd va 15 22 (md5_Ti 16)]"

definition md5_round2 :: "u32 list \<Rightarrow> (u32 list \<Rightarrow> u32 list) list" where
  "md5_round2 X =
    [md5_SET md5_G X va vb vc vd 1 5 (md5_Ti 17),
     md5_SET md5_G X vd va vb vc 6 9 (md5_Ti 18),
     md5_SET md5_G X vc vd va vb 11 14 (md5_Ti 19),
     md5_SET md5_G X vb vc vd va 0 20 (md5_Ti 20),
     md5_SET md5_G X va vb vc vd 5 5 (md5_Ti 21),
     md5_SET md5_G X vd va vb vc 10 9 (md5_Ti 22),
     md5_SET md5_G X vc vd va vb 15 14 (md5_Ti 23),
     md5_SET md5_G X vb vc vd va 4 20 (md5_Ti 24),
     md5_SET md5_G X va vb vc vd 9 5 (md5_Ti 25),
     md5_SET md5_G X vd va vb vc 14 9 (md5_Ti 26),
     md5_SET md5_G X vc vd va vb 3 14 (md5_Ti 27),
     md5_SET md5_G X vb vc vd va 8 20 (md5_Ti 28),
     md5_SET md5_G X va vb vc vd 13 5 (md5_Ti 29),
     md5_SET md5_G X vd va vb vc 2 9 (md5_Ti 30),
     md5_SET md5_G X vc vd va vb 7 14 (md5_Ti 31),
     md5_SET md5_G X vb vc vd va 12 20 (md5_Ti 32)]"

definition md5_round3 :: "u32 list \<Rightarrow> (u32 list \<Rightarrow> u32 list) list" where
  "md5_round3 X =
    [md5_SET md5_H X va vb vc vd 5 4 (md5_Ti 33),
     md5_SET md5_H X vd va vb vc 8 11 (md5_Ti 34),
     md5_SET md5_H X vc vd va vb 11 16 (md5_Ti 35),
     md5_SET md5_H X vb vc vd va 14 23 (md5_Ti 36),
     md5_SET md5_H X va vb vc vd 1 4 (md5_Ti 37),
     md5_SET md5_H X vd va vb vc 4 11 (md5_Ti 38),
     md5_SET md5_H X vc vd va vb 7 16 (md5_Ti 39),
     md5_SET md5_H X vb vc vd va 10 23 (md5_Ti 40),
     md5_SET md5_H X va vb vc vd 13 4 (md5_Ti 41),
     md5_SET md5_H X vd va vb vc 0 11 (md5_Ti 42),
     md5_SET md5_H X vc vd va vb 3 16 (md5_Ti 43),
     md5_SET md5_H X vb vc vd va 6 23 (md5_Ti 44),
     md5_SET md5_H X va vb vc vd 9 4 (md5_Ti 45),
     md5_SET md5_H X vd va vb vc 12 11 (md5_Ti 46),
     md5_SET md5_H X vc vd va vb 15 16 (md5_Ti 47),
     md5_SET md5_H X vb vc vd va 2 23 (md5_Ti 48)]"

definition md5_round4 :: "u32 list \<Rightarrow> (u32 list \<Rightarrow> u32 list) list" where
  "md5_round4 X =
    [md5_SET md5_I X va vb vc vd 0 6 (md5_Ti 49),
     md5_SET md5_I X vd va vb vc 7 10 (md5_Ti 50),
     md5_SET md5_I X vc vd va vb 14 15 (md5_Ti 51),
     md5_SET md5_I X vb vc vd va 5 21 (md5_Ti 52),
     md5_SET md5_I X va vb vc vd 12 6 (md5_Ti 53),
     md5_SET md5_I X vd va vb vc 3 10 (md5_Ti 54),
     md5_SET md5_I X vc vd va vb 10 15 (md5_Ti 55),
     md5_SET md5_I X vb vc vd va 1 21 (md5_Ti 56),
     md5_SET md5_I X va vb vc vd 8 6 (md5_Ti 57),
     md5_SET md5_I X vd va vb vc 15 10 (md5_Ti 58),
     md5_SET md5_I X vc vd va vb 6 15 (md5_Ti 59),
     md5_SET md5_I X vb vc vd va 13 21 (md5_Ti 60),
     md5_SET md5_I X va vb vc vd 4 6 (md5_Ti 61),
     md5_SET md5_I X vd va vb vc 11 10 (md5_Ti 62),
     md5_SET md5_I X vc vd va vb 2 15 (md5_Ti 63),
     md5_SET md5_I X vb vc vd va 9 21 (md5_Ti 64)]"

record MD5_CTX =
  md5_count :: "u32 list"
  md5_state :: "u32 list"
  md5_buffer :: "u8 list"

definition md5_block :: "u32 list \<Rightarrow> u8 list \<Rightarrow> u32 list" where
  "md5_block st data =
     (let X = words32 data;
          regs = foldl (\<lambda>r call. call r) [st ! 0, st ! 1, st ! 2, st ! 3]
            (md5_round1 X @ md5_round2 X @ md5_round3 X @ md5_round4 X)
      in [st ! 0 + regs ! va, st ! 1 + regs ! vb, st ! 2 + regs ! vc, st ! 3 + regs ! vd])"

definition md5_process :: "MD5_CTX \<Rightarrow> u8 list \<Rightarrow> MD5_CTX" where
  "md5_process pms data = pms\<lparr>md5_state := md5_block (md5_state pms) data\<rparr>"

section \<open>The context operations\<close>

definition md5_iv :: "u32 list" where
  "md5_iv = [0x67452301, T_MASK XOR 0x10325476, T_MASK XOR 0x67452301, 0x10325476]"

definition MD5_Init :: "MD5_CTX \<Rightarrow> MD5_CTX" where
  "MD5_Init pms = pms\<lparr>md5_count := [0, 0], md5_state := md5_iv\<rparr>"

text \<open>The loop over the full blocks: the context after it and the bytes it leaves.\<close>

function md5_full_blocks :: "MD5_CTX \<Rightarrow> u8 list \<Rightarrow> MD5_CTX \<times> u8 list" where
  "md5_full_blocks pms p =
     (if 64 \<le> length p then md5_full_blocks (md5_process pms (take 64 p)) (drop 64 p) else (pms, p))"
  by pat_completeness auto
termination
  by (relation "measure (\<lambda>(pms, p). length p)") auto

declare md5_full_blocks.simps [simp del]

definition md5_tail :: "MD5_CTX \<Rightarrow> u8 list \<Rightarrow> MD5_CTX" where
  "md5_tail pms p =
     (let (pms, p) = md5_full_blocks pms p
      in if p \<noteq> [] then pms\<lparr>md5_buffer := put_at (md5_buffer pms) 0 p\<rparr> else pms)"

definition md5_add_length :: "u32 list \<Rightarrow> u64 \<Rightarrow> u32 list" where
  "md5_add_length cnt nbytes =
     (let nbits = ucast (push_bit 3 nbytes);
          count1 = cnt ! 1 + ucast (drop_bit 29 nbytes);
          count0 = cnt ! 0 + nbits
      in [count0, if count0 < nbits then count1 + 1 else count1])"

definition MD5_Update :: "MD5_CTX \<Rightarrow> u8 list \<Rightarrow> MD5_CTX" where
  "MD5_Update pms data =
     (let nbytes = of_nat (length data);
          offset = unat (drop_bit 3 (md5_count pms ! 0) AND 63)
      in if nbytes = 0 then pms
      else
        let pms = pms\<lparr>md5_count := md5_add_length (md5_count pms) nbytes\<rparr>
        in if offset \<noteq> 0 then
             let copy = (if offset + length data > 64 then 64 - offset else length data);
                 pms = pms\<lparr>md5_buffer := put_at (md5_buffer pms) offset (take copy data)\<rparr>
             in if offset + copy < 64 then pms
                else md5_tail (md5_process pms (md5_buffer pms)) (drop copy data)
           else md5_tail pms data)"

definition md5_padding :: "u8 list" where
  "md5_padding = 0x80 # replicate 63 0"

definition MD5_Finish :: "MD5_CTX \<Rightarrow> MD5_CTX \<times> u8 list" where
  "MD5_Finish pms =
     (let data = map (\<lambda>i. ucast (drop_bit (8 * (i mod 4)) (md5_count pms ! (i div 4)))) [0..<8];
          pms = MD5_Update pms
            (take (unat ((55 - drop_bit 3 (md5_count pms ! 0)) AND 63) + 1) md5_padding);
          pms = MD5_Update pms data
      in (pms, map (\<lambda>i. ucast (drop_bit (8 * (i mod 4)) (md5_state pms ! (i div 4)))) [0..<16]))"

section \<open>The context represents the message fed so far\<close>

definition md5_wf :: "MD5_CTX \<Rightarrow> bool" where
  "md5_wf c \<longleftrightarrow> length (md5_count c) = 2 \<and> length (md5_state c) = 4 \<and> length (md5_buffer c) = 64"

definition md5_rep :: "MD5_CTX \<Rightarrow> u8 list \<Rightarrow> bool" where
  "md5_rep c m \<longleftrightarrow> stream_rep 64 md5_block md5_iv (md5_state c) (md5_buffer c) m \<and> md5_wf c
     \<and> counter64 (md5_count c ! 0) (md5_count c ! 1) = (8 * length m) mod 2 ^ 64"

lemma length_md5_block [simp]: "length (md5_block st b) = 4"
  by (simp add: md5_block_def Let_def)

lemma length_foldl_md5_block [simp]:
  "length st = 4 \<Longrightarrow> length (foldl md5_block st bs) = 4"
  by (induction bs arbitrary: st) simp_all

lemma md5_rep_wf: "md5_rep c m \<Longrightarrow> md5_wf c"
  by (simp add: md5_rep_def)

lemma md5_rep_init: "md5_wf c \<Longrightarrow> md5_rep (MD5_Init c) []"
  by (simp add: md5_rep_def MD5_Init_def md5_wf_def stream_rep_init counter64_def md5_iv_def)

lemma md5_full_blocks_eq:
  "md5_full_blocks pms p =
     (pms\<lparr>md5_state := foldl md5_block (md5_state pms) (blocks 64 p)\<rparr>, rest 64 p)"
proof (induction pms p rule: md5_full_blocks.induct)
  case (1 pms p)
  then show ?case
    by (cases "64 \<le> length p")
      (simp_all add: md5_full_blocks.simps [of pms p] blocks_step rest_step md5_process_def)
qed

lemma md5_tail_eq:
  "md5_tail pms p = pms\<lparr>md5_state := foldl md5_block (md5_state pms) (blocks 64 p),
     md5_buffer := put_at (md5_buffer pms) 0 (rest 64 p)\<rparr>"
  by (simp add: md5_tail_def md5_full_blocks_eq)

lemma md5_rep_update:
  assumes rep: "md5_rep c m" and d: "length d < 2 ^ 61"
  shows "md5_rep (MD5_Update c d) (m @ d)"
proof (cases "d = []")
  case True
  with rep show ?thesis by (simp add: MD5_Update_def)
next
  case False
  let ?r = "length m mod 64"
  from rep have wf: "md5_wf c"
    and str: "stream_rep 64 md5_block md5_iv (md5_state c) (md5_buffer c) m"
    and cnt: "counter64 (md5_count c ! 0) (md5_count c ! 1) = (8 * length m) mod 2 ^ 64"
    by (simp_all add: md5_rep_def)
  have off: "unat (drop_bit 3 (md5_count c ! 0) AND 63) = ?r"
    by (rule counter64_bytes [OF cnt])
  have nz: "(of_nat (length d) :: u64) \<noteq> 0"
    using False d by (simp add: of_nat_size_zero)
  note buf = stream_repD (2,3) [OF str]
  define cs where "cs = md5_add_length (md5_count c) (of_nat (length d))"
  have cs: "counter64 (cs ! 0) (cs ! 1) = (8 * length (m @ d)) mod 2 ^ 64" "length cs = 2"
    using counter64_message [OF cnt count_split [OF d]]
    by (simp_all add: cs_def md5_add_length_def Let_def del: One_nat_def)
  show ?thesis
  proof (cases "?r + length d < 64")
    case True
    have "MD5_Update c d = c\<lparr>md5_count := cs, md5_buffer := put_at (md5_buffer c) ?r d\<rparr>"
      using nz off True buf
      by (auto simp: MD5_Update_def cs_def Let_def md5_tail_eq)
    with stream_rep_partial [OF _ str True] wf cs True buf show ?thesis
      by (simp add: md5_rep_def md5_wf_def buffer_simps)
  next
    case False
    let ?b = "rest 64 m @ take (64 - ?r) d"
    have b: "length ?b = 64" "put_at (md5_buffer c) ?r (take (64 - ?r) d) = ?b"
      using False buf by (simp_all add: buffer_simps)
    have split: "rest 64 m @ d = ?b @ drop (64 - ?r) d" by simp
    define B where "B = (if ?r = 0 then md5_buffer c else ?b)"
    have B: "length B = 64" using b(1) buf by (simp add: B_def)
    have "MD5_Update c d = c\<lparr>md5_count := cs,
        md5_state := foldl md5_block (md5_state c) (blocks 64 (rest 64 m @ d)),
        md5_buffer := put_at B 0 (rest 64 (rest 64 m @ d))\<rparr>"
    proof (cases "?r = 0")
      case True
      with nz off show ?thesis
        by (simp add: MD5_Update_def cs_def Let_def md5_tail_eq B_def rest_empty)
    next
      case r: False
      have "blocks 64 (rest 64 m @ d) = ?b # blocks 64 (drop (64 - ?r) d)"
          "rest 64 (rest 64 m @ d) = rest 64 (drop (64 - ?r) d)"
        unfolding split using b(1) by (intro blocks_Cons rest_Cons; simp)+
      with r nz off False b show ?thesis
        by (auto simp: MD5_Update_def cs_def Let_def md5_tail_eq B_def md5_process_def)
    qed
    moreover have "stream_rep 64 md5_block md5_iv
        (foldl md5_block (md5_state c) (blocks 64 (rest 64 m @ d)))
        (put_at B 0 (rest 64 (rest 64 m @ d))) (m @ d)"
      using B by (intro stream_rep_absorb [OF _ str refl]) (simp_all add: buffer_simps less_imp_le)
    ultimately show ?thesis
      using wf cs B by (simp add: md5_rep_def md5_wf_def buffer_simps less_imp_le)
  qed
qed

section \<open>RFC 1321 for one block\<close>

text \<open>Functions, message word, rotation and constant of step \<open>t\<close>.\<close>

definition rfc1321_f :: "nat \<Rightarrow> u32 \<Rightarrow> u32 \<Rightarrow> u32 \<Rightarrow> u32" where
  "rfc1321_f t = (if t < 16 then md5_F else if t < 32 then md5_G else if t < 48 then md5_H else md5_I)"

definition rfc1321_k :: "nat \<Rightarrow> nat" where
  "rfc1321_k t = (if t < 16 then t else if t < 32 then (5 * t + 1) mod 16
     else if t < 48 then (3 * t + 5) mod 16 else 7 * t mod 16)"

definition rfc1321_s :: "nat \<Rightarrow> nat" where
  "rfc1321_s t = (if t < 16 then [7, 12, 17, 22] else if t < 32 then [5, 9, 14, 20]
     else if t < 48 then [4, 11, 16, 23] else [6, 10, 15, 21]) ! (t mod 4)"

definition rfc1321_new :: "u32 list \<Rightarrow> nat \<Rightarrow> u32 list \<Rightarrow> u32" where
  "rfc1321_new X t v = v ! 1 + ROTATE_LEFT
     (v ! 0 + rfc1321_f t (v ! 1) (v ! 2) (v ! 3) + X ! rfc1321_k t + md5_T ! t) (rfc1321_s t)"

definition rfc1321_step :: "u32 list \<Rightarrow> u32 list \<Rightarrow> nat \<Rightarrow> u32 list" where
  "rfc1321_step X v t = [v ! 3, rfc1321_new X t v, v ! 1, v ! 2]"

definition rfc1321_block :: "u32 list \<Rightarrow> u8 list \<Rightarrow> u32 list" where
  "rfc1321_block st data = map2 (+) st (foldl (rfc1321_step (words32 data)) st [0..<64])"

text \<open>The digest of a whole message.\<close>

definition md5_padded :: "u8 list \<Rightarrow> u8 list" where
  "md5_padded m = m @ md_pad 64 8 (length m) @ bytes_le64 (of_nat (8 * length m))"

definition md5_spec :: "u8 list \<Rightarrow> u8 list" where
  "md5_spec m = concat (map bytes_le32 (foldl rfc1321_block md5_iv (blocks 64 (md5_padded m))))"

section \<open>The macro sequence is the loop of RFC 1321\<close>

definition md5_call :: "u32 list \<Rightarrow> nat \<Rightarrow> u32 list \<Rightarrow> u32 list" where
  "md5_call X t = md5_SET (rfc1321_f t) X ((3 * t) mod 4) ((3 * t + 1) mod 4) ((3 * t + 2) mod 4)
     ((3 * t + 3) mod 4) (rfc1321_k t) (rfc1321_s t) (md5_Ti (t + 1))"

lemma md5_program:
  "md5_round1 X @ md5_round2 X @ md5_round3 X @ md5_round4 X = map (md5_call X) [0..<64]"
  by (simp add: md5_round1_def md5_round2_def md5_round3_def md5_round4_def upt_64 
      md5_call_def rfc1321_f_def rfc1321_k_def rfc1321_s_def numeral_2_eq_2 [symmetric])

definition md5_inplace :: "u32 list \<Rightarrow> nat \<Rightarrow> u32 list \<times> unit \<Rightarrow> u32 list \<times> unit" where
  "md5_inplace X t s = ((fst s)[0 := rfc1321_new X t (fst s)], ())"

lemma md5_call_unrolled:
  assumes "length regs = 4"
  shows "unrolled_step 4 (md5_inplace X) (regs, ()) t = (md5_call X t regs, ())"
proof -
  have new: "rfc1321_new X t (read_regs (roles 4 t) regs) = regs ! ((3 * t + 1) mod 4) + ROTATE_LEFT
      (regs ! (3 * t mod 4) + rfc1321_f t (regs ! ((3 * t + 1) mod 4)) (regs ! ((3 * t + 2) mod 4))
        (regs ! ((3 * t + 3) mod 4)) + X ! rfc1321_k t + md5_T ! t) (rfc1321_s t)"
    by (simp add: rfc1321_new_def read_regs_def roles_4)
  have r0: "roles 4 t ! 0 = 3 * t mod 4" by (simp add: roles_4)
  have "write_regs (roles 4 t) ((read_regs (roles 4 t) regs)[0 := x]) regs = regs[3 * t mod 4 := x]" for x
    using write_regs_one [of "roles 4 t" regs 0 x] assms by (simp only: r0) simp
  then show ?thesis
    by (simp add: unrolled_step_def md5_inplace_def new md5_call_def md5_SET_def md5_Ti_def
        add.commute)
qed

lemma md5_calls_unrolled:
  "length regs = 4 \<Longrightarrow> foldl (unrolled_step 4 (md5_inplace X)) (regs, ()) ts =
     (foldl (\<lambda>r call. call r) regs (map (md5_call X) ts), ())"
  by (induction ts arbitrary: regs) (simp_all add: md5_call_unrolled md5_call_def md5_SET_def Let_def)

lemma rfc1321_step_rolled:
  "length v = 4 \<Longrightarrow> rolled_step (md5_inplace X) (v, ()) t = (rfc1321_step X v t, ())"
  by (auto simp: rolled_step_def md5_inplace_def rfc1321_step_def rotr_def numeral_eq_Suc length_Suc_conv)

lemma rfc1321_steps_rolled:
  "length v = 4 \<Longrightarrow> foldl (rolled_step (md5_inplace X)) (v, ()) ts = (foldl (rfc1321_step X) v ts, ())"
  by (induction ts arbitrary: v) (simp_all add: rfc1321_step_rolled rfc1321_step_def)

lemma md5_registers:
  assumes "length st = 4"
  shows "foldl (\<lambda>r call. call r) st (md5_round1 X @ md5_round2 X @ md5_round3 X @ md5_round4 X) =
     foldl (rfc1321_step X) st [0..<64]"
proof -
  have "keeps_length 4 64 (md5_inplace X)" by (simp add: keeps_length_def md5_inplace_def)
  from unrolled_aligned [OF _ _ _ this, of "(st, ())"] assms show ?thesis
    by (simp add: md5_calls_unrolled rfc1321_steps_rolled md5_program)
qed

lemma md5_block_eq_rfc:
  assumes "length st = 4"
  shows "md5_block st data = rfc1321_block st data"
proof -
  have len: "length (foldl (rfc1321_step X) st ts) = 4" for X ts
    using assms by (induction ts rule: rev_induct) (simp_all add: rfc1321_step_def)
  have st: "[st ! 0, st ! 1, st ! 2, st ! 3] = st"
    using assms by (auto simp: numeral_eq_Suc length_Suc_conv)
  have four: "map2 (+) st r = [st ! 0 + r ! 0, st ! 1 + r ! 1, st ! 2 + r ! 2, st ! 3 + r ! 3]"
    if "length r = 4" for r :: "u32 list"
    using assms that by (auto simp: numeral_eq_Suc length_Suc_conv)
  show ?thesis
    unfolding md5_block_def Let_def st md5_registers [OF assms] rfc1321_block_def
    by (simp add: four [OF len])
qed

section \<open>MD5_Finish\<close>

lemma md5_pad_length:
  assumes "unat (drop_bit 3 x AND (63 :: u32)) = l mod 64"
  shows "unat ((55 - drop_bit 3 x) AND (63 :: u32)) = zeros 64 8 l"
proof -
  let ?w = "drop_bit 3 x" and ?z = "unat ((55 - drop_bit 3 x) AND (63 :: u32))"
  have m: "unat (v AND (63 :: u32)) = unat v mod 64" for v
    using unat_and_mask [of v 6] by (simp add: mask_eq_exp_minus_1)
  have "(unat (55 - ?w) + unat ?w) mod 2 ^ 32 = unat ((55 - ?w) + ?w)"
    by (simp only: unat_word_ariths(1)) simp
  then have "(unat (55 - ?w) + unat ?w) mod 2 ^ 32 mod 64 = 55" by simp
  moreover have "n mod 2 ^ 32 mod 64 = n mod 64" for n :: nat by (simp add: mod_mod_cancel)
  ultimately have "(unat (55 - ?w) + unat ?w) mod 64 = 55" by (simp only:)
  then have "(unat (55 - ?w) mod 64 + unat ?w mod 64) mod 64 = 55" by (simp only: mod_add_eq)
  then have "(?z + l mod 64) mod 64 = 55"
    using assms by (simp only: m)
  then have "(l + ?z) mod 64 = 55" by (simp only: mod_add_right_eq mod_add_left_eq add.commute)
  then show ?thesis by (intro zeros_mod [symmetric]) (simp_all add: m)
qed

lemma md5_data_bytes:
  "map (\<lambda>i. ucast (drop_bit (8 * (i mod 4)) ([a, b] ! (i div 4)))) [0..<8] = bytes_le32 a @ bytes_le32 (b :: u32)"
  by (simp add: bytes_le32_def upt_rec)

lemma md5_digest_bytes:
  "map (\<lambda>i. ucast (drop_bit (8 * (i mod 4)) ([a, b, c, d] ! (i div 4)))) [0..<16] =
     concat (map bytes_le32 [a, b, c, d :: u32])"
  by (simp add: bytes_le32_def upt_rec)

lemma take_md5_padding: "z < 64 \<Longrightarrow> take (z + 1) md5_padding = 0x80 # replicate z 0"
  by (simp add: md5_padding_def)

lemma md5_foldl_eq_rfc:
  "length st = 4 \<Longrightarrow> foldl md5_block st bs = foldl rfc1321_block st bs"
proof (induction bs arbitrary: st)
  case (Cons b bs)
  with md5_block_eq_rfc [OF Cons.prems, of b] show ?case by (metis foldl_Cons length_md5_block)
qed simp

lemma md5_finish_spec:
  assumes rep: "md5_rep c m"
  shows "\<exists>c'. MD5_Finish c = (c', md5_spec m) \<and> md5_wf c'"
proof -
  let ?z = "zeros 64 8 (length m)"
  from rep have cnt: "counter64 (md5_count c ! 0) (md5_count c ! 1) = (8 * length m) mod 2 ^ 64"
    and two: "md5_count c = [md5_count c ! 0, md5_count c ! 1]"
    by (auto simp: md5_rep_def md5_wf_def numeral_2_eq_2 length_Suc_conv)
  define pad where
    "pad = take (unat ((55 - drop_bit 3 (md5_count c ! 0)) AND 63) + 1) md5_padding"
  define data :: "u8 list" where "data = bytes_le64 (of_nat (8 * length m))"
  have data: "map (\<lambda>i. ucast (drop_bit (8 * (i mod 4)) (md5_count c ! (i div 4)))) [0..<8] = data"
    unfolding data_def counter64_bytes_le64 [OF cnt, symmetric] by (subst two) (rule md5_data_bytes)
  have pad: "pad = md_pad 64 8 (length m)"
    unfolding pad_def md5_pad_length [OF counter64_bytes [OF cnt]] md_pad_def
    by (rule take_md5_padding) (simp add: zeros_bound)
  have len: "length pad = 1 + ?z" "?z < 64" by (simp_all add: pad md_pad_def zeros_bound)
  have fin: "md5_rep (MD5_Update (MD5_Update c pad) data) ((m @ pad) @ data)"
    using len by (intro md5_rep_update rep) (simp_all add: data_def)
  let ?c = "MD5_Update (MD5_Update c pad) data"
  from fin have wf: "md5_wf ?c" and "md5_state ?c = foldl md5_block md5_iv (blocks 64 (md5_padded m))"
    by (simp_all add: md5_rep_def stream_rep_def md5_padded_def pad data_def)
  then have st: "md5_state ?c = foldl rfc1321_block md5_iv (blocks 64 (md5_padded m))"
    by (simp add: md5_foldl_eq_rfc md5_iv_def)
  have four: "md5_state ?c = [md5_state ?c ! 0, md5_state ?c ! 1, md5_state ?c ! 2, md5_state ?c ! 3]"
    using wf by (auto simp: md5_wf_def numeral_eq_Suc length_Suc_conv)
  have "map (\<lambda>i. ucast (drop_bit (8 * (i mod 4)) (md5_state ?c ! (i div 4)))) [0..<16] =
      concat (map bytes_le32 (md5_state ?c))"
    by (subst (1 2) four) (rule md5_digest_bytes)
  then have "MD5_Finish c = (?c, md5_spec m)"
    by (simp only: MD5_Finish_def Let_def data pad_def [symmetric] md5_spec_def st)
  with wf show ?thesis by blast
qed

interpretation md5: digest_stream MD5_Init "\<lambda>c d. Some (MD5_Update c d)" "\<lambda>c. Some (MD5_Finish c)"
  md5_wf md5_rep md5_spec "\<lambda>n. n < 2 ^ 61" "\<lambda>_. True"
  by unfold_locales (auto simp: md5_rep_init md5_rep_update dest: md5_rep_wf md5_finish_spec)

section \<open>A known answer\<close>

text \<open>The table holds the constants of RFC 1321.\<close>

lemma md5_T_values:
  "md5_T =
    [0xd76aa478, 0xe8c7b756, 0x242070db, 0xc1bdceee, 0xf57c0faf, 0x4787c62a,
     0xa8304613, 0xfd469501, 0x698098d8, 0x8b44f7af, 0xffff5bb1, 0x895cd7be,
     0x6b901122, 0xfd987193, 0xa679438e, 0x49b40821, 0xf61e2562, 0xc040b340,
     0x265e5a51, 0xe9b6c7aa, 0xd62f105d, 0x02441453, 0xd8a1e681, 0xe7d3fbc8,
     0x21e1cde6, 0xc33707d6, 0xf4d50d87, 0x455a14ed, 0xa9e3e905, 0xfcefa3f8,
     0x676f02d9, 0x8d2a4c8a, 0xfffa3942, 0x8771f681, 0x6d9d6122, 0xfde5380c,
     0xa4beea44, 0x4bdecfa9, 0xf6bb4b60, 0xbebfbc70, 0x289b7ec6, 0xeaa127fa,
     0xd4ef3085, 0x04881d05, 0xd9d4d039, 0xe6db99e5, 0x1fa27cf8, 0xc4ac5665,
     0xf4292244, 0x432aff97, 0xab9423a7, 0xfc93a039, 0x655b59c3, 0x8f0ccc92,
     0xffeff47d, 0x85845dd1, 0x6fa87e4f, 0xfe2ce6e0, 0xa3014314, 0x4e0811a1,
     0xf7537e82, 0xbd3af235, 0x2ad7d2bb, 0xeb86d391]"
  by (simp add: md5_T_def)

lemma md5_T_at:
  "md5_T ! 0 = 0xd76aa478" "md5_T ! Suc 0 = 0xe8c7b756" "md5_T ! 2 = 0x242070db" "md5_T ! 3 = 0xc1bdceee"
  "md5_T ! 4 = 0xf57c0faf" "md5_T ! 5 = 0x4787c62a" "md5_T ! 6 = 0xa8304613" "md5_T ! 7 = 0xfd469501"
  "md5_T ! 8 = 0x698098d8" "md5_T ! 9 = 0x8b44f7af" "md5_T ! 10 = 0xffff5bb1" "md5_T ! 11 = 0x895cd7be"
  "md5_T ! 12 = 0x6b901122" "md5_T ! 13 = 0xfd987193" "md5_T ! 14 = 0xa679438e" "md5_T ! 15 = 0x49b40821"
  "md5_T ! 16 = 0xf61e2562" "md5_T ! 17 = 0xc040b340" "md5_T ! 18 = 0x265e5a51" "md5_T ! 19 = 0xe9b6c7aa"
  "md5_T ! 20 = 0xd62f105d" "md5_T ! 21 = 0x02441453" "md5_T ! 22 = 0xd8a1e681" "md5_T ! 23 = 0xe7d3fbc8"
  "md5_T ! 24 = 0x21e1cde6" "md5_T ! 25 = 0xc33707d6" "md5_T ! 26 = 0xf4d50d87" "md5_T ! 27 = 0x455a14ed"
  "md5_T ! 28 = 0xa9e3e905" "md5_T ! 29 = 0xfcefa3f8" "md5_T ! 30 = 0x676f02d9" "md5_T ! 31 = 0x8d2a4c8a"
  "md5_T ! 32 = 0xfffa3942" "md5_T ! 33 = 0x8771f681" "md5_T ! 34 = 0x6d9d6122" "md5_T ! 35 = 0xfde5380c"
  "md5_T ! 36 = 0xa4beea44" "md5_T ! 37 = 0x4bdecfa9" "md5_T ! 38 = 0xf6bb4b60" "md5_T ! 39 = 0xbebfbc70"
  "md5_T ! 40 = 0x289b7ec6" "md5_T ! 41 = 0xeaa127fa" "md5_T ! 42 = 0xd4ef3085" "md5_T ! 43 = 0x04881d05"
  "md5_T ! 44 = 0xd9d4d039" "md5_T ! 45 = 0xe6db99e5" "md5_T ! 46 = 0x1fa27cf8" "md5_T ! 47 = 0xc4ac5665"
  "md5_T ! 48 = 0xf4292244" "md5_T ! 49 = 0x432aff97" "md5_T ! 50 = 0xab9423a7" "md5_T ! 51 = 0xfc93a039"
  "md5_T ! 52 = 0x655b59c3" "md5_T ! 53 = 0x8f0ccc92" "md5_T ! 54 = 0xffeff47d" "md5_T ! 55 = 0x85845dd1"
  "md5_T ! 56 = 0x6fa87e4f" "md5_T ! 57 = 0xfe2ce6e0" "md5_T ! 58 = 0xa3014314" "md5_T ! 59 = 0x4e0811a1"
  "md5_T ! 60 = 0xf7537e82" "md5_T ! 61 = 0xbd3af235" "md5_T ! 62 = 0x2ad7d2bb" "md5_T ! 63 = 0xeb86d391"
  by (simp_all add: md5_T_values)

lemma rfc1321_step_norm:
  "rfc1321_step X [a, b, c, d] t = [d, norm (b + ROTATE_LEFT
     (norm (a + rfc1321_f t b c d + X ! rfc1321_k t + md5_T ! t)) (rfc1321_s t)), b, c]"
  by (simp add: rfc1321_step_def rfc1321_new_def norm_def)

lemma md5_spec_abc:
  "md5_spec [0x61, 0x62, 0x63] = [0x90, 0x01, 0x50, 0x98, 0x3c, 0xd2, 0x4f, 0xb0,
     0xd6, 0x96, 0x3f, 0x7d, 0x28, 0xe1, 0x7f, 0x72]"
proof -
  have padded: "blocks 64 (md5_padded [0x61, 0x62, 0x63]) = [[0x61, 0x62, 0x63, 0x80] @ replicate 52 0 @ [24, 0,0,0,0,0,0,0]]"
    by (simp add: md5_padded_def md_pad_def zeros_def blocks_step bytes_le64_def bytes_le32_def)
  have words: "words32 ([0x61, 0x62, 0x63, 0x80] @ replicate 52 0 @ [24, 0,0,0,0,0,0,0]) =
    [0x80636261,0,0,0,0,0,0,0,0,0,0,0,0,0,24,0]"
    by (simp add: words32_def upt_16 le32_def norm_simps)
  have "foldl (rfc1321_step [0x80636261,0,0,0,0,0,0,0,0,0,0,0,0,0,24,0]) md5_iv [0..<64] =
      [0x310ade8f, 0xc08226b3, 0xe484b9d8, 0x624d8cb2]"
    unfolding md5_iv_def upt_64
    by (simp add: norm_simps rfc1321_step_norm md5_T_at
        rfc1321_k_def rfc1321_s_def rfc1321_f_def ROTATE_LEFT_def
        md5_F_def md5_G_def md5_H_def md5_I_def cong: foldl_state_cong)
  then have "foldl rfc1321_block md5_iv (blocks 64 (md5_padded [0x61, 0x62, 0x63])) =
      [0x98500190, 0xb04fd23c, 0x7d3f96d6, 0x727fe128]"
    by (simp only: padded foldl.simps rfc1321_block_def words) (simp add: md5_iv_def)
  then show ?thesis by (simp add: md5_spec_def bytes_le32_def)
qed

section \<open>Properties\<close>

definition md5_blank :: MD5_CTX where
  "md5_blank = \<lparr>md5_count = [0, 0], md5_state = replicate 4 0, md5_buffer = replicate 64 0\<rparr>"

lemma md5_wf_blank: "md5_wf md5_blank"
  by (simp add: md5_wf_def md5_blank_def)

text \<open>C23. MD5, whole message: however a message is cut into pieces (each of less than
  \<open>2^61\<close> bytes), \<open>MD5_Init\<close>, a \<open>MD5_Update\<close> per piece and
  \<open>MD5_Finish\<close> give the RFC 1321 digest of the concatenation.\<close>

theorem md5_digest_of_pieces:
  assumes "md5_wf c0" and "\<forall>d \<in> set ds. length d < 2 ^ 61"
  shows "snd (MD5_Finish (foldl MD5_Update (MD5_Init c0) ds)) = md5_spec (concat ds)"
  using md5.digest_of_pieces [OF assms] by (auto simp: feed_total)

lemma md5_digest_of_pieces_witness:
  "snd (MD5_Finish (foldl MD5_Update (MD5_Init md5_blank) [[0x61], [], [0x62, 0x63]])) =
     [0x90, 0x01, 0x50, 0x98, 0x3c, 0xd2, 0x4f, 0xb0, 0xd6, 0x96, 0x3f, 0x7d, 0x28, 0xe1, 0x7f, 0x72]"
  using md5_digest_of_pieces [OF md5_wf_blank, of "[[0x61], [], [0x62, 0x63]]"]
  by (simp add: md5_spec_abc)

text \<open>The 64 in-place macro calls of \<open>md5_process\<close> compute the 64-step loop of RFC 1321
  and add it to the chaining value; nothing else of the context changes.\<close>

theorem md5_process_is_rfc1321:
  assumes "length (md5_state pms) = 4"
  shows "md5_process pms data = pms\<lparr>md5_state := rfc1321_block (md5_state pms) data\<rparr>"
  by (simp add: md5_process_def md5_block_eq_rfc [OF assms])

lemma md5_process_is_rfc1321_witness:
  "md5_process (MD5_Init md5_blank) (replicate 64 0) =
     (MD5_Init md5_blank)\<lparr>md5_state := rfc1321_block md5_iv (replicate 64 0)\<rparr>"
  using md5_process_is_rfc1321 [of "MD5_Init md5_blank" "replicate 64 0"]
  by (simp add: MD5_Init_def md5_iv_def)

end
