(* ===== verification/Sha1.thy ===== *)
theory Sha1
  imports Digest_Stream Digest_Unroll
begin

text \<open>
  SHA-1 (\<open>lib/ext/digest/sha1/sha1.c\<close>). The four rounds of \<open>SHA1_Transform\<close> are the
  sequences of macro calls that the file also has as the functions \<open>do_R01\<close> to
  \<open>do_R4\<close>; they run on five registers and on a workspace of sixteen words, in which the
  message schedule is expanded in place. \<open>SHA1_Update\<close> indexes its input with a
  \<open>uint32_t\<close> and need not return on huge pieces, so it is a partial function.
\<close>

section \<open>The block function\<close>

definition rol :: "u32 \<Rightarrow> nat \<Rightarrow> u32" where
  "rol x n = push_bit n x OR drop_bit (32 - n) x"

definition sha1_blk0 :: "u32 list \<Rightarrow> nat \<Rightarrow> u32 \<times> u32 list" where
  "sha1_blk0 l i =
     (let b = (rol (l ! i) 24 AND 0xFF00FF00) OR (rol (l ! i) 8 AND 0x00FF00FF) in (b, l[i := b]))"

definition sha1_blk :: "u32 list \<Rightarrow> nat \<Rightarrow> u32 \<times> u32 list" where
  "sha1_blk l i =
     (let b = rol (l ! ((i + 13) AND 15) XOR l ! ((i + 8) AND 15) XOR l ! ((i + 2) AND 15) XOR l ! (i AND 15)) 1
      in (b, l[i AND 15 := b]))"

text \<open>What the five macros have in common: \<open>z += f (w, x, y) + blk (i) + k + rol (v, 5); w = rol (w, 30)\<close>.\<close>

definition sha1_round ::
  "(u32 \<Rightarrow> u32 \<Rightarrow> u32 \<Rightarrow> u32) \<Rightarrow> (u32 list \<Rightarrow> nat \<Rightarrow> u32 \<times> u32 list) \<Rightarrow> u32 \<Rightarrow>
     nat \<Rightarrow> nat \<Rightarrow> nat \<Rightarrow> nat \<Rightarrow> nat \<Rightarrow> nat \<Rightarrow> u32 list \<times> u32 list \<Rightarrow> u32 list \<times> u32 list" where
  "sha1_round f blk k v w x y z i s =
     (let regs = fst s;
          (b, l) = blk (snd s) i;
          regs = regs[z := regs ! z + (f (regs ! w) (regs ! x) (regs ! y) + b + k + rol (regs ! v) 5)];
          regs = regs[w := rol (regs ! w) 30]
      in (regs, l))"

definition sha1_choose :: "u32 \<Rightarrow> u32 \<Rightarrow> u32 \<Rightarrow> u32" where
  "sha1_choose w x y = (w AND (x XOR y)) XOR y"

definition sha1_parity :: "u32 \<Rightarrow> u32 \<Rightarrow> u32 \<Rightarrow> u32" where
  "sha1_parity w x y = w XOR x XOR y"

definition sha1_majority :: "u32 \<Rightarrow> u32 \<Rightarrow> u32 \<Rightarrow> u32" where
  "sha1_majority w x y = ((w OR x) AND y) OR (w AND x)"

type_synonym sha1_macro = "nat \<Rightarrow> nat \<Rightarrow> nat \<Rightarrow> nat \<Rightarrow> nat \<Rightarrow> nat \<Rightarrow> u32 list \<times> u32 list \<Rightarrow> u32 list \<times> u32 list"

definition sha1_R0 :: sha1_macro where
  "sha1_R0 = sha1_round sha1_choose sha1_blk0 0x5A827999"

definition sha1_R1 :: sha1_macro where
  "sha1_R1 = sha1_round sha1_choose sha1_blk 0x5A827999"

definition sha1_R2 :: sha1_macro where
  "sha1_R2 = sha1_round sha1_parity sha1_blk 0x6ED9EBA1"

definition sha1_R3 :: sha1_macro where
  "sha1_R3 = sha1_round sha1_majority sha1_blk 0x8F1BBCDC"

definition sha1_R4 :: sha1_macro where
  "sha1_R4 = sha1_round sha1_parity sha1_blk 0xCA62C1D6"

text \<open>The variables \<open>a\<close> to \<open>e\<close> are the elements of a list.\<close>

abbreviation (input) sa :: nat where "sa \<equiv> 0"
abbreviation (input) sb :: nat where "sb \<equiv> 1"
abbreviation (input) sc :: nat where "sc \<equiv> 2"
abbreviation (input) sd :: nat where "sd \<equiv> 3"
abbreviation (input) se :: nat where "se \<equiv> 4"

definition do_R01 :: "(u32 list \<times> u32 list \<Rightarrow> u32 list \<times> u32 list) list" where
  "do_R01 =
    [sha1_R0 sa sb sc sd se 0, sha1_R0 se sa sb sc sd 1,
     sha1_R0 sd se sa sb sc 2, sha1_R0 sc sd se sa sb 3,
     sha1_R0 sb sc sd se sa 4, sha1_R0 sa sb sc sd se 5,
     sha1_R0 se sa sb sc sd 6, sha1_R0 sd se sa sb sc 7,
     sha1_R0 sc sd se sa sb 8, sha1_R0 sb sc sd se sa 9,
     sha1_R0 sa sb sc sd se 10, sha1_R0 se sa sb sc sd 11,
     sha1_R0 sd se sa sb sc 12, sha1_R0 sc sd se sa sb 13,
     sha1_R0 sb sc sd se sa 14, sha1_R0 sa sb sc sd se 15,
     sha1_R1 se sa sb sc sd 16, sha1_R1 sd se sa sb sc 17,
     sha1_R1 sc sd se sa sb 18, sha1_R1 sb sc sd se sa 19]"

definition do_R2 :: "(u32 list \<times> u32 list \<Rightarrow> u32 list \<times> u32 list) list" where
  "do_R2 =
    [sha1_R2 sa sb sc sd se 20, sha1_R2 se sa sb sc sd 21,
     sha1_R2 sd se sa sb sc 22, sha1_R2 sc sd se sa sb 23,
     sha1_R2 sb sc sd se sa 24, sha1_R2 sa sb sc sd se 25,
     sha1_R2 se sa sb sc sd 26, sha1_R2 sd se sa sb sc 27,
     sha1_R2 sc sd se sa sb 28, sha1_R2 sb sc sd se sa 29,
     sha1_R2 sa sb sc sd se 30, sha1_R2 se sa sb sc sd 31,
     sha1_R2 sd se sa sb sc 32, sha1_R2 sc sd se sa sb 33,
     sha1_R2 sb sc sd se sa 34, sha1_R2 sa sb sc sd se 35,
     sha1_R2 se sa sb sc sd 36, sha1_R2 sd se sa sb sc 37,
     sha1_R2 sc sd se sa sb 38, sha1_R2 sb sc sd se sa 39]"

definition do_R3 :: "(u32 list \<times> u32 list \<Rightarrow> u32 list \<times> u32 list) list" where
  "do_R3 =
    [sha1_R3 sa sb sc sd se 40, sha1_R3 se sa sb sc sd 41,
     sha1_R3 sd se sa sb sc 42, sha1_R3 sc sd se sa sb 43,
     sha1_R3 sb sc sd se sa 44, sha1_R3 sa sb sc sd se 45,
     sha1_R3 se sa sb sc sd 46, sha1_R3 sd se sa sb sc 47,
     sha1_R3 sc sd se sa sb 48, sha1_R3 sb sc sd se sa 49,
     sha1_R3 sa sb sc sd se 50, sha1_R3 se sa sb sc sd 51,
     sha1_R3 sd se sa sb sc 52, sha1_R3 sc sd se sa sb 53,
     sha1_R3 sb sc sd se sa 54, sha1_R3 sa sb sc sd se 55,
     sha1_R3 se sa sb sc sd 56, sha1_R3 sd se sa sb sc 57,
     sha1_R3 sc sd se sa sb 58, sha1_R3 sb sc sd se sa 59]"

definition do_R4 :: "(u32 list \<times> u32 list \<Rightarrow> u32 list \<times> u32 list) list" where
  "do_R4 =
    [sha1_R4 sa sb sc sd se 60, sha1_R4 se sa sb sc sd 61,
     sha1_R4 sd se sa sb sc 62, sha1_R4 sc sd se sa sb 63,
     sha1_R4 sb sc sd se sa 64, sha1_R4 sa sb sc sd se 65,
     sha1_R4 se sa sb sc sd 66, sha1_R4 sd se sa sb sc 67,
     sha1_R4 sc sd se sa sb 68, sha1_R4 sb sc sd se sa 69,
     sha1_R4 sa sb sc sd se 70, sha1_R4 se sa sb sc sd 71,
     sha1_R4 sd se sa sb sc 72, sha1_R4 sc sd se sa sb 73,
     sha1_R4 sb sc sd se sa 74, sha1_R4 sa sb sc sd se 75,
     sha1_R4 se sa sb sc sd 76, sha1_R4 sd se sa sb sc 77,
     sha1_R4 sc sd se sa sb 78, sha1_R4 sb sc sd se sa 79]"

definition SHA1_Transform :: "u32 list \<Rightarrow> u8 list \<Rightarrow> u32 list" where
  "SHA1_Transform st buffer =
     (let (regs, block) = foldl (\<lambda>s call. call s) ([st ! 0, st ! 1, st ! 2, st ! 3, st ! 4], words32 buffer)
            (do_R01 @ do_R2 @ do_R3 @ do_R4)
      in [st ! 0 + regs ! sa, st ! 1 + regs ! sb, st ! 2 + regs ! sc, st ! 3 + regs ! sd, st ! 4 + regs ! se])"

section \<open>The context operations\<close>

record SHA1_CTX =
  sha1_state :: "u32 list"
  sha1_count :: "u32 list"
  sha1_buffer :: "u8 list"

definition sha1_iv :: "u32 list" where
  "sha1_iv = [0x67452301, 0xEFCDAB89, 0x98BADCFE, 0x10325476, 0xC3D2E1F0]"

definition SHA1_Init :: "SHA1_CTX \<Rightarrow> SHA1_CTX" where
  "SHA1_Init context = context\<lparr>sha1_state := sha1_iv, sha1_count := [0, 0]\<rparr>"

text \<open>The loop \<open>for ( ; i + 63 < len; i += 64)\<close>: \<open>i\<close> is a \<open>uint32_t\<close>, \<open>len\<close> a
  \<open>size_t\<close>.\<close>

partial_function (option) sha1_full_blocks :: "u32 list \<Rightarrow> u8 list \<Rightarrow> u32 \<Rightarrow> (u32 list \<times> u32) option" where
  "sha1_full_blocks st data i =
     (if unat (i + 63) < length data
      then sha1_full_blocks (SHA1_Transform st (take 64 (drop (unat i) data))) data (i + 64)
      else Some (st, i))"

definition SHA1_Update :: "SHA1_CTX \<Rightarrow> u8 list \<Rightarrow> SHA1_CTX option" where
  "SHA1_Update context data =
     (let j = sha1_count context ! 0;
          len = of_nat (length data) :: u64;
          count0 = ucast (ucast j + push_bit 3 len) :: u32;
          count1 = (if count0 < j then sha1_count context ! 1 + ucast (drop_bit 29 len + 1)
                    else sha1_count context ! 1);
          context = context\<lparr>sha1_count := [count0, count1]\<rparr>;
          j = drop_bit 3 j AND 63
      in if unat j + length data > 63 then
           let i = 64 - j;
               buffer = put_at (sha1_buffer context) (unat j) (take (unat i) data);
               st = SHA1_Transform (sha1_state context) buffer
           in Option.bind (sha1_full_blocks st data i) (\<lambda>(st, i).
                Some (context\<lparr>sha1_state := st, sha1_buffer := put_at buffer 0 (drop (unat i) data)\<rparr>))
         else Some (context\<lparr>sha1_buffer := put_at (sha1_buffer context) (unat j) data\<rparr>))"

text \<open>The loop that appends zero bytes until only the length is missing.\<close>

partial_function (option) sha1_zero_fill :: "SHA1_CTX \<Rightarrow> SHA1_CTX option" where
  "sha1_zero_fill context =
     (if sha1_count context ! 0 AND 504 \<noteq> 448
      then Option.bind (SHA1_Update context [0]) sha1_zero_fill
      else Some context)"

definition SHA1_Finish :: "SHA1_CTX \<Rightarrow> (SHA1_CTX \<times> u8 list) option" where
  "SHA1_Finish context =
     (let finalcount = map (\<lambda>i. ucast (drop_bit ((3 - (i AND 3)) * 8)
            (sha1_count context ! (if i \<ge> 4 then 0 else 1)) AND 255)) [0..<8]
      in Option.bind (SHA1_Update context [0x80]) (\<lambda>context.
         Option.bind (sha1_zero_fill context) (\<lambda>context.
         Option.bind (SHA1_Update context finalcount) (\<lambda>context.
         Some (context, map (\<lambda>i. ucast (drop_bit ((3 - (i AND 3)) * 8)
            (sha1_state context ! (drop_bit 2 i)) AND 255)) [0..<20])))))"

section \<open>FIPS 180-1 for one block\<close>

definition fips_choose :: "u32 \<Rightarrow> u32 \<Rightarrow> u32 \<Rightarrow> u32" where
  "fips_choose x y z = (x AND y) XOR (NOT x AND z)"

definition fips_majority :: "u32 \<Rightarrow> u32 \<Rightarrow> u32 \<Rightarrow> u32" where
  "fips_majority x y z = (x AND y) XOR (x AND z) XOR (y AND z)"

definition sha1_f :: "nat \<Rightarrow> u32 \<Rightarrow> u32 \<Rightarrow> u32 \<Rightarrow> u32" where
  "sha1_f t = (if t < 20 then fips_choose else if t < 40 then sha1_parity
     else if t < 60 then fips_majority else sha1_parity)"

definition sha1_K :: "nat \<Rightarrow> u32" where
  "sha1_K t = (if t < 20 then 0x5A827999 else if t < 40 then 0x6ED9EBA1
     else if t < 60 then 0x8F1BBCDC else 0xCA62C1D6)"

text \<open>The message schedule: sixteen big-endian words, extended to 80 words.\<close>

definition sha1_expand :: "(nat \<Rightarrow> u32) \<Rightarrow> u32" where
  "sha1_expand W = rol (W 3 XOR W 8 XOR W 14 XOR W 16) 1"

definition sha1_schedule :: "u8 list \<Rightarrow> u32 list" where
  "sha1_schedule data = schedule sha1_expand (words_be32 data) 80"

definition sha1_step :: "u32 list \<Rightarrow> u32 list \<Rightarrow> nat \<Rightarrow> u32 list" where
  "sha1_step W v t =
     [rol (v ! 0) 5 + sha1_f t (v ! 1) (v ! 2) (v ! 3) + v ! 4 + W ! t + sha1_K t,
      v ! 0, rol (v ! 1) 30, v ! 2, v ! 3]"

definition sha1_block :: "u32 list \<Rightarrow> u8 list \<Rightarrow> u32 list" where
  "sha1_block st data = map2 (+) st (foldl (sha1_step (sha1_schedule data)) st [0..<80])"

section \<open>The macro sequence is the loop of FIPS 180-1\<close>

lemma sha1_choose_eq: "sha1_choose = fips_choose"
  by (intro ext bit_word_eqI) (auto simp: sha1_choose_def fips_choose_def bit_simps)

lemma sha1_majority_eq: "sha1_majority = fips_majority"
  by (intro ext bit_word_eqI) (auto simp: sha1_majority_def fips_majority_def bit_simps)

definition sha1_get :: "nat \<Rightarrow> u32 list \<Rightarrow> u32 \<times> u32 list" where
  "sha1_get t l = (if t < 16 then sha1_blk0 l t else sha1_blk l t)"

definition sha1_call :: "nat \<Rightarrow> u32 list \<times> u32 list \<Rightarrow> u32 list \<times> u32 list" where
  "sha1_call t = sha1_round (sha1_f t) (if t < 16 then sha1_blk0 else sha1_blk) (sha1_K t)
     (4 * t mod 5) ((4 * t + 1) mod 5) ((4 * t + 2) mod 5) ((4 * t + 3) mod 5) ((4 * t + 4) mod 5) t"

lemma sha1_program: "do_R01 @ do_R2 @ do_R3 @ do_R4 = map sha1_call [0..<80]"
  by (simp add: do_R01_def do_R2_def do_R3_def do_R4_def upt_80 sha1_call_def sha1_R0_def sha1_R1_def
      sha1_R2_def sha1_R3_def sha1_R4_def sha1_f_def sha1_K_def sha1_choose_eq sha1_majority_eq
      numeral_2_eq_2 [symmetric])

definition sha1_inplace :: "nat \<Rightarrow> u32 list \<times> u32 list \<Rightarrow> u32 list \<times> u32 list" where
  "sha1_inplace t s =
     (let v = fst s; (b, l) = sha1_get t (snd s)
      in (v[4 := v ! 4 + (sha1_f t (v ! 1) (v ! 2) (v ! 3) + b + sha1_K t + rol (v ! 0) 5),
            1 := rol (v ! 1) 30], l))"

lemma sha1_call_unrolled:
  assumes "length regs = 5"
  shows "unrolled_step 5 sha1_inplace (regs, l) t = sha1_call t (regs, l)"
proof -
  let ?v = "read_regs (roles 5 t) regs"
  have reads: "?v ! 0 = regs ! (4 * t mod 5)" "?v ! 1 = regs ! ((4 * t + 1) mod 5)"
    "?v ! 2 = regs ! ((4 * t + 2) mod 5)" "?v ! 3 = regs ! ((4 * t + 3) mod 5)"
    "?v ! 4 = regs ! ((4 * t + 4) mod 5)"
    by (simp_all add: roles_5 read_regs_def)
  have names: "roles 5 t ! 4 = (4 * t + 4) mod 5" "roles 5 t ! 1 = (4 * t + 1) mod 5"
    by (simp_all add: roles_5)
  have "write_regs (roles 5 t) (?v[4 := x, 1 := y]) regs =
      regs[(4 * t + 4) mod 5 := x, (4 * t + 1) mod 5 := y]" for x y
    using write_regs_two [of "roles 5 t" regs 4 1 x y] assms by (simp only: names) simp
  moreover have "(4 * t + 4) mod 5 \<noteq> (4 * t + 1) mod 5"
    by (simp add: mod_eq_dvd_iff_nat nat_dvd_not_less)
  ultimately show ?thesis
    by (simp only: unrolled_step_def sha1_inplace_def fst_conv snd_conv Let_def reads)
      (auto simp: sha1_call_def sha1_round_def sha1_get_def Let_def split: prod.split)
qed

lemma blk0_swap:
  assumes "length b = 4"
  shows "(rol (le32 b) 24 AND 0xFF00FF00) OR (rol (le32 b) 8 AND 0x00FF00FF) = be32 b"
proof -
  obtain w x y z where b: "b = [w, x, y, z]" using list_of_4 [OF assms] by blast
  have m: "(0xFF00FF00 :: u32) = push_bit 24 (mask 8) OR push_bit 8 (mask 8)"
    "(0x00FF00FF :: u32) = push_bit 16 (mask 8) OR mask 8"
    by (simp_all add: mask_eq_exp_minus_1)
  show ?thesis
  proof (rule bit_word_eqI)
    fix n assume n: "n < LENGTH(32)"
    consider "n < 8" | "8 \<le> n \<and> n < 16" | "16 \<le> n \<and> n < 24" | "24 \<le> n" by linarith
    then show "bit ((rol (le32 b) 24 AND 0xFF00FF00) OR (rol (le32 b) 8 AND 0x00FF00FF)) n = bit (be32 b) n"
      unfolding m b
      by cases (use n in \<open>auto simp: be32_def le32_def rol_def bit_simps u8_bit_beyond\<close>)
  qed
qed

lemma and_15: "(n :: nat) AND 15 = n mod 16"
  using take_bit_eq_mask [of 4 n] by (simp add: mask_eq_exp_minus_1 take_bit_eq_mod)

lemma sha1_get_window:
  assumes win: "window (sha1_schedule data) (words32 data) t l" and t: "t < 80"
    and data: "length data = 64"
  shows "sha1_get t l = (sha1_schedule data ! t, l[t mod 16 := sha1_schedule data ! t])"
proof (cases "t < 16")
  case True
  have "rol (l ! t) 24 AND 0xFF00FF00 OR rol (l ! t) 8 AND 0x00FF00FF = sha1_schedule data ! t"
    using True data window_raw [OF win True]
    by (simp add: nth_words32 blk0_swap sha1_schedule_def schedule_low nth_words_be32)
  with True show ?thesis by (simp add: sha1_get_def sha1_blk0_def Let_def)
next
  case False
  have lb: "looks_back sha1_expand" by (simp add: looks_back_def sha1_expand_def)
  have "l ! ((t + 13) mod 16) = sha1_schedule data ! (t - 3)"
    "l ! ((t + 8) mod 16) = sha1_schedule data ! (t - 8)"
    "l ! ((t + 2) mod 16) = sha1_schedule data ! (t - 14)"
    "l ! (t mod 16) = sha1_schedule data ! (t - 16)"
    using False window_get [OF win, of 3] window_get [OF win, of 8] window_get [OF win, of 14]
      window_get [OF win, of 16] by (simp_all add: add.commute)
  moreover have "sha1_schedule data ! t = sha1_expand (\<lambda>k. sha1_schedule data ! (t - k))"
    unfolding sha1_schedule_def using lb False t by (intro schedule_rec) simp_all
  ultimately show ?thesis
    using False by (simp add: sha1_get_def sha1_blk_def and_15 sha1_expand_def Let_def)
qed

lemma sha1_rolled_step:
  assumes "window (sha1_schedule data) (words32 data) t l" "t < 80" "length data = 64" "length v = 5"
  shows "rolled_step sha1_inplace (v, l) t =
     (sha1_step (sha1_schedule data) v t, l[t mod 16 := sha1_schedule data ! t])"
proof -
  obtain a b c d e where "v = [a, b, c, d, e]"
    using assms(4) by (auto simp: numeral_eq_Suc length_Suc_conv)
  then show ?thesis
    by (simp add: rolled_step_def sha1_inplace_def sha1_get_window [OF assms(1-3)] rotr_def sha1_step_def
        eval_nat_numeral(2) [symmetric])
qed

lemma sha1_rolled:
  assumes "length data = 64" "length st = 5" "n \<le> 80"
  shows "\<exists>l. foldl (rolled_step sha1_inplace) (st, words32 data) [0..<n] =
      (foldl (sha1_step (sha1_schedule data)) st [0..<n], l) \<and>
    window (sha1_schedule data) (words32 data) n l \<and>
    length (foldl (sha1_step (sha1_schedule data)) st [0..<n]) = 5"
  using assms(3)
proof (induction n)
  case 0
  show ?case using assms by (simp add: window_init)
next
  case (Suc n)
  then obtain l where "foldl (rolled_step sha1_inplace) (st, words32 data) [0..<n] =
      (foldl (sha1_step (sha1_schedule data)) st [0..<n], l)"
    and "window (sha1_schedule data) (words32 data) n l"
    and "length (foldl (sha1_step (sha1_schedule data)) st [0..<n]) = 5"
    by auto
  with Suc.prems assms show ?case
    by (simp add: sha1_rolled_step window_put) (simp add: sha1_step_def)
qed

lemma sha1_calls_unrolled:
  "length regs = 5 \<Longrightarrow> foldl (unrolled_step 5 sha1_inplace) (regs, l) ts =
     foldl (\<lambda>s call. call s) (regs, l) (map sha1_call ts)"
proof (induction ts arbitrary: regs l)
  case (Cons t ts)
  obtain regs' l' where s: "sha1_call t (regs, l) = (regs', l')" by fastforce
  then have "length regs' = 5"
    using Cons.prems by (auto simp: sha1_call_def sha1_round_def Let_def split: prod.splits)
  with Cons s show ?case by (simp add: sha1_call_unrolled)
qed simp

lemma SHA1_Transform_eq_fips:
  assumes "length st = 5" "length data = 64"
  shows "SHA1_Transform st data = sha1_block st data"
proof -
  let ?regs = "foldl (sha1_step (sha1_schedule data)) st [0..<80]"
  have st: "[st ! 0, st ! 1, st ! 2, st ! 3, st ! 4] = st"
    using assms by (auto simp: numeral_eq_Suc length_Suc_conv)
  have five: "map2 (+) st r = [st ! 0 + r ! 0, st ! 1 + r ! 1, st ! 2 + r ! 2, st ! 3 + r ! 3,
      st ! 4 + r ! 4]" if "length r = 5" for r :: "u32 list"
    using assms(1) that by (auto simp: numeral_eq_Suc length_Suc_conv)
  have "keeps_length 5 80 sha1_inplace"
    by (auto simp: keeps_length_def sha1_inplace_def Let_def split: prod.split)
  from unrolled_aligned [OF _ _ _ this, of "(st, words32 data)"] assms
  have "foldl (\<lambda>s call. call s) (st, words32 data) (map sha1_call [0..<80]) =
      foldl (rolled_step sha1_inplace) (st, words32 data) [0..<80]"
    by (simp add: sha1_calls_unrolled)
  moreover obtain l where "foldl (rolled_step sha1_inplace) (st, words32 data) [0..<80] = (?regs, l)"
    and len: "length ?regs = 5"
    using sha1_rolled [OF assms(2,1), of 80] by auto
  ultimately show ?thesis
    unfolding SHA1_Transform_def Let_def st sha1_program sha1_block_def five [OF len] by simp
qed

section \<open>The context represents the message fed so far\<close>

definition sha1_wf :: "SHA1_CTX \<Rightarrow> bool" where
  "sha1_wf c \<longleftrightarrow> length (sha1_count c) = 2 \<and> length (sha1_state c) = 5 \<and> length (sha1_buffer c) = 64"

definition sha1_rep :: "SHA1_CTX \<Rightarrow> u8 list \<Rightarrow> bool" where
  "sha1_rep c m \<longleftrightarrow> stream_rep 64 SHA1_Transform sha1_iv (sha1_state c) (sha1_buffer c) m \<and> sha1_wf c
     \<and> counter64 (sha1_count c ! 0) (sha1_count c ! 1) = (8 * length m) mod 2 ^ 64"

lemma sha1_rep_wf: "sha1_rep c m \<Longrightarrow> sha1_wf c"
  by (simp add: sha1_rep_def)

lemma length_SHA1_Transform [simp]: "length (SHA1_Transform st b) = 5"
  by (simp add: SHA1_Transform_def split: prod.split)

lemma length_foldl_SHA1_Transform [simp]:
  "length st = 5 \<Longrightarrow> length (foldl SHA1_Transform st bs) = 5"
  by (induction bs arbitrary: st) simp_all

lemma sha1_rep_init: "sha1_wf c \<Longrightarrow> sha1_rep (SHA1_Init c) []"
  by (simp add: sha1_rep_def SHA1_Init_def sha1_wf_def stream_rep_init counter64_def sha1_iv_def)

text \<open>The loop returns as long as its index does not wrap.\<close>

lemma sha1_full_blocks_eq:
  assumes "length data + 64 < 2 ^ 32" "unat i \<le> length data"
  shows "\<exists>k. sha1_full_blocks st data i = Some (foldl SHA1_Transform st (blocks 64 (drop (unat i) data)), k)
    \<and> drop (unat k) data = rest 64 (drop (unat i) data)"
  using assms(2)
proof (induction "length data - unat i" arbitrary: st i rule: less_induct)
  case less
  have i63: "unat (i + 63) = unat i + 63" and i64: "unat (i + 64) = unat i + 64"
    using less.prems assms(1) by (simp_all add: unat_word_ariths)
  show ?case
  proof (cases "unat i + 63 < length data")
    case True
    let ?st = "SHA1_Transform st (take 64 (drop (unat i) data))"
    have "\<exists>k. sha1_full_blocks ?st data (i + 64) =
        Some (foldl SHA1_Transform ?st (blocks 64 (drop (unat (i + 64)) data)), k)
      \<and> drop (unat k) data = rest 64 (drop (unat (i + 64)) data)"
      using True less.prems i64 by (intro less.hyps) simp_all
    moreover have "drop (unat (i + 64)) data = drop 64 (drop (unat i) data)"
      by (simp add: i64 add.commute)
    moreover have "rest 64 (drop 64 (drop (unat i) data)) = rest 64 (drop (unat i) data)"
      using True by (intro rest_step) simp_all
    ultimately show ?thesis
      using True i63 by (simp add: sha1_full_blocks.simps [of st] blocks_step del: drop_drop)
  next
    case False
    with i63 less.prems show ?thesis
      by (simp add: sha1_full_blocks.simps [of st])
  qed
qed

text \<open>
  Pieces of less than \<open>2^29\<close> bytes: the number of bits fits in 32 bits, and the high half
  of the counter changes only when the low half wraps.
\<close>

lemma sha1_count_low:
  assumes "n < 2 ^ 29"
  shows "ucast (ucast (c0 :: u32) + push_bit 3 (of_nat n :: u64)) = c0 + of_nat (8 * n)"
proof -
  have "unat (ucast (ucast c0 + push_bit 3 (of_nat n :: u64)) :: u32) = (unat c0 + 8 * n) mod 2 ^ 32"
    using assms by (simp add: unsigned_ucast_eq push_bit_eq_mult take_bit_eq_mod unat_word_ariths
        mod_mod_cancel mult.commute unat_of_nat mod_simps)
  then show ?thesis
    using assms by (simp add: word_unat_eq_iff unat_word_ariths unat_of_nat mod_simps)
qed

lemma sha1_count_high:
  assumes "n < 2 ^ 29"
  shows "ucast (drop_bit 29 (of_nat n :: u64) + 1) = (1 :: u32)"
proof -
  have "unat (drop_bit 29 (of_nat n :: u64)) = 0"
    using assms by (simp add: unat_drop_bit_eq drop_bit_eq_div [where 'a = nat] unat_of_nat)
  then have "drop_bit 29 (of_nat n :: u64) = 0" by (simp add: word_unat_eq_iff)
  then show ?thesis by simp
qed

lemma add_less_swap: "(a + b < a) \<longleftrightarrow> (a + b < b)" for a b :: u32
proof -
  have "((x + y) mod 2 ^ 32 < x) = ((x + y) mod 2 ^ 32 < y)" if "x < 2 ^ 32" "y < 2 ^ 32" for x y :: nat
    using that by (cases "x + y < 2 ^ 32") (auto simp: le_mod_geq)
  from this [OF unat32 unat32, of a b] show ?thesis
    by (simp add: word_less_nat_alt unat_word_ariths)
qed

lemma sha1_count_update:
  assumes cnt: "counter64 c0 c1 = (8 * l) mod 2 ^ 64" and n: "n < 2 ^ 29"
    and c0': "c0' = ucast (ucast c0 + push_bit 3 (of_nat n :: u64))"
  shows "counter64 c0' (if c0' < c0 then c1 + ucast (drop_bit 29 (of_nat n :: u64) + 1) else c1) =
     (8 * (l + n)) mod 2 ^ 64"
proof -
  have "unat (of_nat (8 * n) :: u32) + 2 ^ 32 * unat (0 :: u32) = 8 * n"
    using n by (simp add: unat_of_nat del: of_nat_mult)
  from counter64_message [OF cnt this]
  show ?thesis
    unfolding c0' sha1_count_low [OF n] sha1_count_high [OF n]
    by (simp only: add_0_right add_less_swap [of c0 "of_nat (8 * n)"])
qed

lemma sha1_rep_update:
  assumes rep: "sha1_rep c m" and d: "length d < 2 ^ 29"
  shows "\<exists>c'. SHA1_Update c d = Some c' \<and> sha1_rep c' (m @ d)"
proof -
  let ?r = "length m mod 64"
  from rep have wf: "sha1_wf c"
    and str: "stream_rep 64 SHA1_Transform sha1_iv (sha1_state c) (sha1_buffer c) m"
    and cnt: "counter64 (sha1_count c ! 0) (sha1_count c ! 1) = (8 * length m) mod 2 ^ 64"
    by (simp_all add: sha1_rep_def)
  note off = counter64_bytes [OF cnt]
  define j where "j = drop_bit 3 (sha1_count c ! 0) AND 63"
  have j: "unat j = ?r" using off by (simp add: j_def)
  define c0 where "c0 = (ucast (ucast (sha1_count c ! 0) + push_bit 3 (of_nat (length d) :: u64)) :: u32)"
  define c1 where "c1 = (if c0 < sha1_count c ! 0
     then sha1_count c ! 1 + ucast (drop_bit 29 (of_nat (length d) :: u64) + 1) else sha1_count c ! 1)"
  have cnt': "counter64 c0 c1 = (8 * length (m @ d)) mod 2 ^ 64"
    using sha1_count_update [OF cnt d c0_def] by (simp add: c1_def)
  note buf = stream_repD (2,3) [OF str]
  show ?thesis
  proof (cases "?r + length d < 64")
    case True
    have "SHA1_Update c d = Some (c\<lparr>sha1_count := [c0, c1], sha1_buffer := put_at (sha1_buffer c) ?r d\<rparr>)"
      using True j unfolding SHA1_Update_def Let_def c0_def [symmetric] c1_def [symmetric] j_def [symmetric]
      by simp
    with stream_rep_partial [OF _ str True] wf cnt' True buf show ?thesis
      by (simp add: sha1_rep_def sha1_wf_def buffer_simps)
  next
    case False
    have i: "unat (64 - j) = 64 - ?r"
      using j by (simp add: unat_sub word_le_nat_alt less_imp_le)
    let ?buf = "put_at (sha1_buffer c) ?r (take (64 - ?r) d)"
    have len: "length ?buf = 64" using False buf by (simp add: buffer_simps)
    have le: "64 - ?r \<le> length d" using False by simp
    obtain k where k: "sha1_full_blocks (SHA1_Transform (sha1_state c) ?buf) d (64 - j) =
        Some (foldl SHA1_Transform (SHA1_Transform (sha1_state c) ?buf) (blocks 64 (drop (64 - ?r) d)), k)"
      "drop (unat k) d = rest 64 (drop (64 - ?r) d)"
      using sha1_full_blocks_eq [of d "64 - j" "SHA1_Transform (sha1_state c) ?buf"] le d
      unfolding i by auto
    have "SHA1_Update c d = Some (c\<lparr>sha1_count := [c0, c1],
        sha1_state := foldl SHA1_Transform (SHA1_Transform (sha1_state c) ?buf) (blocks 64 (drop (64 - ?r) d)),
        sha1_buffer := put_at ?buf 0 (rest 64 (drop (64 - ?r) d))\<rparr>)"
      using False k unfolding SHA1_Update_def Let_def c0_def [symmetric] c1_def [symmetric] j_def [symmetric]
      by (simp add: j i)
    moreover have "stream_rep 64 SHA1_Transform sha1_iv
        (foldl SHA1_Transform (SHA1_Transform (sha1_state c) ?buf) (blocks 64 (drop (64 - ?r) d)))
        (put_at ?buf 0 (rest 64 (drop (64 - ?r) d))) (m @ d)"
      using False len
      by (intro stream_rep_fill [OF _ str refl]) (simp_all add: buffer_simps less_imp_le)
    ultimately show ?thesis
      using wf cnt' len by (simp add: sha1_rep_def sha1_wf_def buffer_simps less_imp_le)
  qed
qed

section \<open>SHA1_Finish\<close>

lemma and_504: "x AND 504 = 448 \<longleftrightarrow> unat (drop_bit 3 x AND 63) = 56" for x :: u32
proof -
  let ?y = "drop_bit 3 x AND 63"
  have m: "(504 :: u32) = push_bit 3 (mask 6)" "(63 :: u32) = mask 6"
    by (simp_all add: mask_eq_exp_minus_1)
  have x: "x AND 504 = push_bit 3 ?y"
    unfolding m by (rule bit_word_eqI) (auto simp: bit_simps)
  have "unat ?y < 64"
    using unat_and_mask [of "drop_bit 3 x" 6] by (simp add: m(2))
  then have "unat (push_bit 3 ?y) = 8 * unat ?y"
    by (simp add: push_bit_eq_mult unat_word_ariths)
  then show ?thesis
    unfolding x by (auto simp: word_unat_eq_iff)
qed

lemma sha1_zero_fill_rep:
  "sha1_rep c m \<Longrightarrow> z < 64 \<Longrightarrow> (length m + z) mod 64 = 56 \<Longrightarrow>
     \<exists>c'. sha1_zero_fill c = Some c' \<and> sha1_rep c' (m @ replicate z 0)"
proof (induction z arbitrary: c m)
  case 0
  then have "sha1_count c ! 0 AND 504 = 448"
    by (simp add: and_504 sha1_rep_def counter64_bytes [of _ "sha1_count c ! 1" "length m"])
  with 0 show ?case by (simp add: sha1_zero_fill.simps [of c])
next
  case (Suc z)
  have "length m mod 64 \<noteq> 56"
  proof
    assume "length m mod 64 = 56"
    then have "(56 + Suc z) mod 64 = 56" using Suc.prems(3) by (metis mod_add_left_eq)
    moreover have "(56 + Suc z) mod 64 \<noteq> 56"
      using Suc.prems(2) by (cases "Suc z < 8") (auto simp: le_mod_geq)
    ultimately show False by simp
  qed
  then have "sha1_count c ! 0 AND 504 \<noteq> 448"
    using Suc.prems(1) by (simp add: and_504 sha1_rep_def counter64_bytes [of _ "sha1_count c ! 1" "length m"])
  moreover obtain c1 where c1: "SHA1_Update c [0] = Some c1" "sha1_rep c1 (m @ [0])"
    using sha1_rep_update [OF Suc.prems(1), of "[0]"] by auto
  moreover have "\<exists>c'. sha1_zero_fill c1 = Some c' \<and> sha1_rep c' ((m @ [0]) @ replicate z 0)"
    using Suc.prems by (intro Suc.IH c1) simp_all
  ultimately show ?case by (simp add: sha1_zero_fill.simps [of c])
qed

definition sha1_padded :: "u8 list \<Rightarrow> u8 list" where
  "sha1_padded m = m @ md_pad 64 8 (length m) @ bytes_be64 (of_nat (8 * length m))"

definition sha1_spec :: "u8 list \<Rightarrow> u8 list" where
  "sha1_spec m = concat (map bytes_be32 (foldl sha1_block sha1_iv (blocks 64 (sha1_padded m))))"

lemma and_3: "(n :: nat) AND 3 = n mod 4"
  using take_bit_eq_mask [of 2 n] by (simp add: mask_eq_exp_minus_1 take_bit_eq_mod)

lemma and_255: "ucast (x AND 255) = (ucast x :: u8)" for x :: u32
proof -
  have m: "(255 :: u32) = mask 8" by (simp add: mask_eq_exp_minus_1)
  show ?thesis unfolding m by (rule bit_word_eqI) (auto simp: bit_simps)
qed

lemma sha1_finalcount:
  "map (\<lambda>i. ucast (drop_bit ((3 - (i AND 3)) * 8) ([a, b] ! (if i \<ge> 4 then 0 else 1)) AND 255)) [0..<8] =
     bytes_be32 b @ bytes_be32 (a :: u32)"
  by (simp add: bytes_be32_def bytes_le32_def upt_rec and_3 and_255)

lemma sha1_digest_bytes:
  "map (\<lambda>i. ucast (drop_bit ((3 - (i AND 3)) * 8) ([a, b, c, d, e] ! drop_bit 2 i) AND 255)) [0..<20] =
     concat (map bytes_be32 [a, b, c, d, e :: u32])"
  by (simp add: bytes_be32_def bytes_le32_def upt_rec and_3 and_255 drop_bit_eq_div [where 'a = nat])

lemma sha1_foldl_eq_fips:
  "length st = 5 \<Longrightarrow> \<forall>b \<in> set bs. length b = 64 \<Longrightarrow>
     foldl SHA1_Transform st bs = foldl sha1_block st bs"
proof (induction bs arbitrary: st)
  case (Cons b bs)
  then show ?case
    using SHA1_Transform_eq_fips [of st b] length_SHA1_Transform [of st b] by simp
qed simp

lemma sha1_finish_spec:
  assumes rep: "sha1_rep c m"
  shows "\<exists>c'. SHA1_Finish c = Some (c', sha1_spec m) \<and> sha1_wf c'"
proof -
  let ?z = "zeros 64 8 (length m)"
  from rep have cnt: "counter64 (sha1_count c ! 0) (sha1_count c ! 1) = (8 * length m) mod 2 ^ 64"
    and two: "sha1_count c = [sha1_count c ! 0, sha1_count c ! 1]"
    by (auto simp: sha1_rep_def sha1_wf_def numeral_2_eq_2 length_Suc_conv)
  define data :: "u8 list" where "data = bytes_be64 (of_nat (8 * length m))"
  have data: "map (\<lambda>i. ucast (drop_bit ((3 - (i AND 3)) * 8)
      (sha1_count c ! (if i \<ge> 4 then 0 else 1)) AND 255)) [0..<8] = data"
    unfolding data_def bytes_be64_def counter64_bytes_le64 [OF cnt, symmetric]
    by (subst two) (simp only: sha1_finalcount bytes_be32_def rev_append)
  obtain c1 where c1: "SHA1_Update c [0x80] = Some c1" "sha1_rep c1 (m @ [0x80])"
    using sha1_rep_update [OF rep, of "[0x80]"] by auto
  have z: "?z < 64" by (simp add: zeros_bound)
  have "(length (m @ [0x80]) + ?z) mod 64 = 56" using zeros_stop [of 64 8 "length m"] by simp
  from sha1_zero_fill_rep [OF c1(2) z this] obtain c2 where
    c2: "sha1_zero_fill c1 = Some c2" "sha1_rep c2 ((m @ [0x80]) @ replicate ?z 0)" by blast
  obtain c3 where c3: "SHA1_Update c2 data = Some c3" "sha1_rep c3 (((m @ [0x80]) @ replicate ?z 0) @ data)"
    using sha1_rep_update [OF c2(2), of data] by (auto simp: data_def)
  then have wf: "sha1_wf c3" and "sha1_state c3 = foldl SHA1_Transform sha1_iv (blocks 64 (sha1_padded m))"
    by (simp_all add: sha1_rep_def stream_rep_def sha1_padded_def md_pad_def data_def)
  then have st: "sha1_state c3 = foldl sha1_block sha1_iv (blocks 64 (sha1_padded m))"
    by (simp add: sha1_foldl_eq_fips sha1_iv_def set_blocks_length)
  have five: "sha1_state c3 = [sha1_state c3 ! 0, sha1_state c3 ! 1, sha1_state c3 ! 2,
      sha1_state c3 ! 3, sha1_state c3 ! 4]"
    using wf by (auto simp: sha1_wf_def numeral_eq_Suc length_Suc_conv)
  have "map (\<lambda>i. ucast (drop_bit ((3 - (i AND 3)) * 8) (sha1_state c3 ! drop_bit 2 i) AND 255)) [0..<20] =
      concat (map bytes_be32 (sha1_state c3))"
    by (subst (1 2) five) (rule sha1_digest_bytes)
  then have "SHA1_Finish c = Some (c3, sha1_spec m)"
    by (simp only: SHA1_Finish_def Let_def data c1 c2 c3 bind.simps sha1_spec_def st)
  with wf show ?thesis by blast
qed

interpretation sha1: digest_stream SHA1_Init SHA1_Update SHA1_Finish
  sha1_wf sha1_rep sha1_spec "\<lambda>n. n < 2 ^ 29" "\<lambda>_. True"
  by unfold_locales
    (auto intro: sha1_rep_init sha1_rep_wf sha1_rep_update sha1_finish_spec)

section \<open>Pieces that the index and the counter do not cover\<close>

lemma sha1_full_blocks_returns:
  assumes "sha1_full_blocks st data i = Some y" shows "length data < 2 ^ 32"
proof (rule sha1_full_blocks.raw_induct [OF _ assms, where P="\<lambda>st data i y. length data < 2 ^ 32"])
  fix f :: "u32 list \<Rightarrow> u8 list \<Rightarrow> u32 \<Rightarrow> (u32 list \<times> u32) option" and st data i y
  assume IH: "\<And>st data i y. f st data i = Some y \<Longrightarrow> length data < 2 ^ 32"
    and eq: "(if unat (i + 63) < length data then f (SHA1_Transform st (take 64 (drop (unat i) data))) data (i + 64)
      else Some (st, i)) = Some y"
  show "length data < 2 ^ 32"
    using eq IH unat32 [of "i + 63"] by (cases "unat (i + 63) < length data") auto
qed
section \<open>A known answer\<close>

lemma sha1_step_norm:
  "sha1_step W [a, b, c, d, e] t =
     [norm (rol a 5 + sha1_f t b c d + e + W ! t + sha1_K t), a, norm (rol b 30), c, d]"
  by (simp add: sha1_step_def norm_def)

lemma sha1_spec_abc:
  "sha1_spec [0x61, 0x62, 0x63] = [0xa9, 0x99, 0x3e, 0x36, 0x47, 0x06, 0x81, 0x6a, 0xba, 0x3e, 0x25, 0x71, 0x78, 0x50, 0xc2, 0x6c, 0x9c, 0xd0, 0xd8, 0x9d]"
proof -
  have padded: "blocks 64 (sha1_padded [0x61, 0x62, 0x63]) = [[0x61, 0x62, 0x63, 0x80] @ replicate 52 0 @ [0,0,0,0,0,0,0,24]]"
    by (simp add: sha1_padded_def md_pad_def zeros_def blocks_step bytes_be64_def bytes_le64_def bytes_le32_def)
  have words: "words_be32 ([0x61, 0x62, 0x63, 0x80] @ replicate 52 0 @ [0,0,0,0,0,0,0,24]) =
    [0x61626380,0,0,0,0,0,0,0,0,0,0,0,0,0,0,24]"
    by (simp add: words_be32_def upt_16 be32_def le32_def norm_simps)
  have step: "foldl (\<lambda>W t. W @ [sha1_expand (\<lambda>k. W ! (t - k))]) W (t # ts) =
      foldl (\<lambda>W t. W @ [sha1_expand (\<lambda>k. W ! (t - k))])
       (W @ [norm (rol (W ! (t - 3) XOR W ! (t - 8) XOR W ! (t - 14) XOR W ! (t - 16)) 1)]) ts" for W t ts
    by (simp add: sha1_expand_def norm_def)
  have sched: "sha1_schedule ([0x61, 0x62, 0x63, 0x80] @ replicate 52 0 @ [0,0,0,0,0,0,0,24]) =
    [0x61626380, 0x00000000, 0x00000000, 0x00000000, 0x00000000, 0x00000000, 0x00000000,
     0x00000000, 0x00000000, 0x00000000, 0x00000000, 0x00000000, 0x00000000, 0x00000000,
     0x00000000, 0x00000018, 0xc2c4c700, 0x00000000, 0x00000030, 0x85898e01, 0x00000000,
     0x00000060, 0x0b131c03, 0x00000030, 0x85898ec1, 0x16263806, 0x00000000, 0x00000180,
     0x2c4c700c, 0x000000f0, 0x93afb507, 0x5898e048, 0x8e9a9202, 0x00000600, 0xb131c0f0,
     0x16263bc6, 0x4ebed41e, 0x626380a1, 0x16263806, 0x000018c0, 0xd2e138c4, 0x00000f00,
     0x3afb5079, 0x898e04e5, 0xe2ba3c2b, 0x000060c0, 0x053a37cd, 0x74458547, 0xda9415ed,
     0x26380a16, 0x626383a1, 0x4ebf54de, 0x3835b44b, 0x0000f600, 0x1e84c7a3, 0x98e04d98,
     0x651d16a0, 0x62658ca1, 0x458544d6, 0x44584cb7, 0x7ba06619, 0x6380aea2, 0x0ae55269,
     0x627b49a1, 0x7cd45c9d, 0x000f0000, 0xfb50753a, 0xec6765e8, 0xba3c2be2, 0x0060c000,
     0x3a37cd05, 0x458546f4, 0xb8599dd6, 0x380a1a26, 0x01e02203, 0xe7cc3456, 0xe6e60b69,
     0x00f60a00, 0x5795ef4f, 0x822e0879]"
    unfolding sha1_schedule_def words schedule_def upt_16_80
    by (simp add: step norm_simps rol_def del: foldl.simps(2) cong: foldl_state_cong)
  have "foldl (sha1_step
    [0x61626380, 0x00000000, 0x00000000, 0x00000000, 0x00000000, 0x00000000, 0x00000000,
     0x00000000, 0x00000000, 0x00000000, 0x00000000, 0x00000000, 0x00000000, 0x00000000,
     0x00000000, 0x00000018, 0xc2c4c700, 0x00000000, 0x00000030, 0x85898e01, 0x00000000,
     0x00000060, 0x0b131c03, 0x00000030, 0x85898ec1, 0x16263806, 0x00000000, 0x00000180,
     0x2c4c700c, 0x000000f0, 0x93afb507, 0x5898e048, 0x8e9a9202, 0x00000600, 0xb131c0f0,
     0x16263bc6, 0x4ebed41e, 0x626380a1, 0x16263806, 0x000018c0, 0xd2e138c4, 0x00000f00,
     0x3afb5079, 0x898e04e5, 0xe2ba3c2b, 0x000060c0, 0x053a37cd, 0x74458547, 0xda9415ed,
     0x26380a16, 0x626383a1, 0x4ebf54de, 0x3835b44b, 0x0000f600, 0x1e84c7a3, 0x98e04d98,
     0x651d16a0, 0x62658ca1, 0x458544d6, 0x44584cb7, 0x7ba06619, 0x6380aea2, 0x0ae55269,
     0x627b49a1, 0x7cd45c9d, 0x000f0000, 0xfb50753a, 0xec6765e8, 0xba3c2be2, 0x0060c000,
     0x3a37cd05, 0x458546f4, 0xb8599dd6, 0x380a1a26, 0x01e02203, 0xe7cc3456, 0xe6e60b69,
     0x00f60a00, 0x5795ef4f, 0x822e0879]) sha1_iv [0..<80] =
      [0x42541b35, 0x5738d5e1, 0x21834873, 0x681e6df6, 0xd8fdf6ad]"
    unfolding sha1_iv_def upt_80
    by (simp add: norm_simps sha1_step_norm sha1_K_def sha1_f_def rol_def
        fips_choose_def fips_majority_def sha1_parity_def cong: foldl_state_cong)
  then have "foldl sha1_block sha1_iv (blocks 64 (sha1_padded [0x61, 0x62, 0x63])) =
      [0xa9993e36, 0x4706816a, 0xba3e2571, 0x7850c26c, 0x9cd0d89d]"
    by (simp only: padded foldl.simps sha1_block_def sched) (simp add: sha1_iv_def)
  then show ?thesis by (simp add: sha1_spec_def bytes_be32_def bytes_le32_def)
qed

section \<open>Properties\<close>

definition sha1_blank :: SHA1_CTX where
  "sha1_blank = \<lparr>sha1_state = replicate 5 0, sha1_count = [0, 0], sha1_buffer = replicate 64 0\<rparr>"

lemma sha1_wf_blank: "sha1_wf sha1_blank"
  by (simp add: sha1_wf_def sha1_blank_def)

text \<open>C22. SHA-1, whole message: however a message is cut into pieces (each of less than
  \<open>2^29\<close> bytes), initialising a context, feeding it the pieces and finishing returns, and
  gives the FIPS 180-1 digest of the concatenation.\<close>

theorem sha1_digest_of_pieces:
  assumes "sha1_wf c0" and "\<forall>d \<in> set ds. length d < 2 ^ 29"
  shows "\<exists>c c'. feed SHA1_Update (SHA1_Init c0) ds = Some c \<and> SHA1_Finish c = Some (c', sha1_spec (concat ds))"
  using sha1.digest_of_pieces [OF assms] by simp

lemma sha1_digest_of_pieces_witness:
  "\<exists>c c'. feed SHA1_Update (SHA1_Init sha1_blank) [[0x61], [], [0x62, 0x63]] = Some c \<and>
     SHA1_Finish c = Some (c', [0xa9, 0x99, 0x3e, 0x36, 0x47, 0x06, 0x81, 0x6a, 0xba, 0x3e, 0x25, 0x71, 0x78, 0x50, 0xc2, 0x6c, 0x9c, 0xd0, 0xd8, 0x9d])"
  using sha1_digest_of_pieces [OF sha1_wf_blank, of "[[0x61], [], [0x62, 0x63]]"]
  by (simp add: sha1_spec_abc)

text \<open>The 80 in-place macro calls of \<open>SHA1_Transform\<close>, with the schedule kept in a
  circular array of sixteen words, compute the FIPS 180-1 loop over the full schedule.\<close>

theorem SHA1_Transform_is_fips:
  assumes "length st = 5" and "length data = 64"
  shows "SHA1_Transform st data = sha1_block st data"
  by (rule SHA1_Transform_eq_fips [OF assms])

lemma SHA1_Transform_is_fips_witness:
  "SHA1_Transform sha1_iv (replicate 64 0) = sha1_block sha1_iv (replicate 64 0)"
  by (rule SHA1_Transform_is_fips) (simp_all add: sha1_iv_def)

text \<open>C26. \<open>SHA1_Update\<close> does not return on a piece of \<open>2^32\<close> bytes or more: its index is
  a \<open>uint32_t\<close>, so \<open>i + 63 < len\<close> never becomes false.\<close>

theorem SHA1_Update_huge_piece_diverges:
  assumes "2 ^ 32 \<le> length d"
  shows "SHA1_Update c d = None"
proof -
  have "sha1_full_blocks st d i = None" for st i
    using assms sha1_full_blocks_returns [of st d i] by (cases "sha1_full_blocks st d i") auto
  with assms show ?thesis by (simp add: SHA1_Update_def Let_def)
qed

lemma SHA1_Update_huge_piece_diverges_witness:
  "SHA1_Update sha1_blank (replicate (2 ^ 32) 0) = None"
  by (rule SHA1_Update_huge_piece_diverges) simp

text \<open>A piece of exactly \<open>2^29\<close> bytes fed to a fresh context leaves the counter at 0
  bits instead of \<open>2^32\<close>: the high half is updated only when the low half wraps.\<close>

theorem SHA1_Update_loses_length:
  assumes "length d = 2 ^ 29"
  shows "\<exists>c'. SHA1_Update (SHA1_Init c) d = Some c' \<and> sha1_count c' = [0, 0] \<and> 8 * length d = 2 ^ 32"
proof -
  have "push_bit 3 (of_nat (2 ^ 29) :: u64) = 2 ^ 32" by simp
  then have "ucast (ucast (0 :: u32) + push_bit 3 (of_nat (length d) :: u64)) = (0 :: u32)"
    unfolding assms by simp
  moreover define st where "st = SHA1_Transform sha1_iv (put_at (sha1_buffer c) 0 (take 64 d))"
  moreover obtain st' k where "sha1_full_blocks st d 64 = Some (st', k)"
    using sha1_full_blocks_eq [of d 64 st] assms by auto
  ultimately show ?thesis
    using assms by (simp add: SHA1_Update_def SHA1_Init_def Let_def)
qed

lemma SHA1_Update_loses_length_witness:
  "\<exists>c'. SHA1_Update (SHA1_Init sha1_blank) (replicate (2 ^ 29) 0) = Some c' \<and> sha1_count c' = [0, 0]"
  using SHA1_Update_loses_length [of "replicate (2 ^ 29) 0" sha1_blank] by auto

end
