(* ===== verification/Sha2_Rounds.thy ===== *)
theory Sha2_Rounds
  imports Digest_Stream Digest_Unroll "HOL-Library.While_Combinator"
begin

text \<open>
  The compression function of \<open>lib/ext/digest/sha2/sha2.c\<close>. The file has it four times: for
  32-bit and for 64-bit words, and each of them rolled or, under \<open>SHA2_UNROLL_TRANSFORM\<close>, as
  macro calls on renamed registers. The two widths differ only in the functions and constants
  collected in \<open>sha2_fun\<close>. The state of the loops is the eight registers, the circular
  schedule array and the index \<open>j\<close>. Both shapes are related to the loop of FIPS 180-2 over the
  full schedule.
\<close>

record 'w sha2_fun =
  Sigma0 :: "'w \<Rightarrow> 'w"
  Sigma1 :: "'w \<Rightarrow> 'w"
  sigma0 :: "'w \<Rightarrow> 'w"
  sigma1 :: "'w \<Rightarrow> 'w"
  REVERSE :: "'w \<Rightarrow> 'w"
  KK :: "'w list"

definition Ch :: "'a::len word \<Rightarrow> 'a word \<Rightarrow> 'a word \<Rightarrow> 'a word" where
  "Ch x y z = (x AND y) XOR (NOT x AND z)"

definition Maj :: "'a::len word \<Rightarrow> 'a word \<Rightarrow> 'a word \<Rightarrow> 'a word" where
  "Maj x y z = (x AND y) XOR (x AND z) XOR (y AND z)"

definition R_shift :: "nat \<Rightarrow> 'a::len word \<Rightarrow> 'a word" where
  "R_shift b x = drop_bit b x"

definition S_rotate :: "nat \<Rightarrow> 'a::len word \<Rightarrow> 'a word" where
  "S_rotate b x = drop_bit b x OR push_bit (LENGTH('a) - b) x"

type_synonym 'w loop_state = "'w list \<times> 'w list \<times> nat"

definition do_while :: "('s \<Rightarrow> 's) \<Rightarrow> ('s \<Rightarrow> bool) \<Rightarrow> 's \<Rightarrow> 's" where
  "do_while body c s = while c body (body s)"

section \<open>The rolled loops\<close>

definition rolled_first ::
  "'a::len word sha2_fun \<Rightarrow> 'a word list \<Rightarrow> 'a word loop_state \<Rightarrow> 'a word loop_state" where
  "rolled_first F data s = (case s of (r, W, j) \<Rightarrow>
     (let W = W[j := REVERSE F (data ! j)];
          T1 = r ! 7 + Sigma1 F (r ! 4) + Ch (r ! 4) (r ! 5) (r ! 6) + KK F ! j + W ! j;
          T2 = Sigma0 F (r ! 0) + Maj (r ! 0) (r ! 1) (r ! 2)
      in ([T1 + T2, r ! 0, r ! 1, r ! 2, r ! 3 + T1, r ! 4, r ! 5, r ! 6], W, j + 1)))"

definition rolled_rest ::
  "'a::len word sha2_fun \<Rightarrow> 'a word loop_state \<Rightarrow> 'a word loop_state" where
  "rolled_rest F s = (case s of (r, W, j) \<Rightarrow>
     (let s0 = sigma0 F (W ! ((j + 1) AND 15));
          s1 = sigma1 F (W ! ((j + 14) AND 15));
          W = W[j AND 15 := W ! (j AND 15) + (s1 + W ! ((j + 9) AND 15) + s0)];
          T1 = r ! 7 + Sigma1 F (r ! 4) + Ch (r ! 4) (r ! 5) (r ! 6) + KK F ! j + W ! (j AND 15);
          T2 = Sigma0 F (r ! 0) + Maj (r ! 0) (r ! 1) (r ! 2)
      in ([T1 + T2, r ! 0, r ! 1, r ! 2, r ! 3 + T1, r ! 4, r ! 5, r ! 6], W, j + 1)))"

definition sha2_rolled ::
  "'a::len word sha2_fun \<Rightarrow> nat \<Rightarrow> 'a word list \<Rightarrow> 'a word list \<Rightarrow> 'a word list \<Rightarrow>
     'a word list \<times> 'a word list" where
  "sha2_rolled F n data st W =
     (let s = ([st ! 0, st ! 1, st ! 2, st ! 3, st ! 4, st ! 5, st ! 6, st ! 7], W, 0);
          s = do_while (rolled_first F data) (\<lambda>(r, W, j). j < 16) s;
          (r, W, j) = do_while (rolled_rest F) (\<lambda>(r, W, j). j < n) s
      in (map (\<lambda>i. st ! i + r ! i) [0..<8], W))"

section \<open>The unrolled macros\<close>

type_synonym 'w round_macro =
  "nat \<Rightarrow> nat \<Rightarrow> nat \<Rightarrow> nat \<Rightarrow> nat \<Rightarrow> nat \<Rightarrow> nat \<Rightarrow> nat \<Rightarrow> 'w loop_state \<Rightarrow> 'w loop_state"

definition ROUND_0_TO_15 ::
  "'a::len word sha2_fun \<Rightarrow> 'a word list \<Rightarrow> 'a word round_macro" where
  "ROUND_0_TO_15 F data a b c d e f g h s = (case s of (r, W, j) \<Rightarrow>
     (let W = W[j := REVERSE F (data ! j)];
          T1 = r ! h + Sigma1 F (r ! e) + Ch (r ! e) (r ! f) (r ! g) + KK F ! j + W ! j;
          r = r[d := r ! d + T1];
          r = r[h := T1 + Sigma0 F (r ! a) + Maj (r ! a) (r ! b) (r ! c)]
      in (r, W, j + 1)))"

definition ROUND :: "'a::len word sha2_fun \<Rightarrow> 'a word round_macro" where
  "ROUND F a b c d e f g h s = (case s of (r, W, j) \<Rightarrow>
     (let s0 = sigma0 F (W ! ((j + 1) AND 15));
          s1 = sigma1 F (W ! ((j + 14) AND 15));
          W = W[j AND 15 := W ! (j AND 15) + (s1 + W ! ((j + 9) AND 15) + s0)];
          T1 = r ! h + Sigma1 F (r ! e) + Ch (r ! e) (r ! f) (r ! g) + KK F ! j + W ! (j AND 15);
          r = r[d := r ! d + T1];
          r = r[h := T1 + Sigma0 F (r ! a) + Maj (r ! a) (r ! b) (r ! c)]
      in (r, W, j + 1)))"

abbreviation (input) ra :: nat where "ra \<equiv> 0"
abbreviation (input) rb :: nat where "rb \<equiv> 1"
abbreviation (input) rc :: nat where "rc \<equiv> 2"
abbreviation (input) rd :: nat where "rd \<equiv> 3"
abbreviation (input) re :: nat where "re \<equiv> 4"
abbreviation (input) rf :: nat where "rf \<equiv> 5"
abbreviation (input) rg :: nat where "rg \<equiv> 6"
abbreviation (input) rh :: nat where "rh \<equiv> 7"

definition eight_rounds :: "'w round_macro \<Rightarrow> 'w loop_state \<Rightarrow> 'w loop_state" where
  "eight_rounds rnd s = foldl (\<lambda>s call. call s) s
     [rnd ra rb rc rd re rf rg rh,
      rnd rh ra rb rc rd re rf rg,
      rnd rg rh ra rb rc rd re rf,
      rnd rf rg rh ra rb rc rd re,
      rnd re rf rg rh ra rb rc rd,
      rnd rd re rf rg rh ra rb rc,
      rnd rc rd re rf rg rh ra rb,
      rnd rb rc rd re rf rg rh ra]"

definition sha2_unrolled ::
  "'a::len word sha2_fun \<Rightarrow> nat \<Rightarrow> 'a word list \<Rightarrow> 'a word list \<Rightarrow> 'a word list \<Rightarrow>
     'a word list \<times> 'a word list" where
  "sha2_unrolled F n data st W =
     (let s = ([st ! 0, st ! 1, st ! 2, st ! 3, st ! 4, st ! 5, st ! 6, st ! 7], W, 0);
          s = do_while (eight_rounds (ROUND_0_TO_15 F data)) (\<lambda>(r, W, j). j < 16) s;
          (r, W, j) = do_while (eight_rounds (ROUND F)) (\<lambda>(r, W, j). j < n) s
      in (map (\<lambda>i. st ! i + r ! i) [0..<8], W))"

section \<open>FIPS 180-2\<close>

definition sha2_expand :: "'a::len word sha2_fun \<Rightarrow> (nat \<Rightarrow> 'a word) \<Rightarrow> 'a word" where
  "sha2_expand F W = sigma1 F (W 2) + W 7 + sigma0 F (W 15) + W 16"

definition sha2_step :: "'a::len word sha2_fun \<Rightarrow> 'a word list \<Rightarrow> 'a word list \<Rightarrow> nat \<Rightarrow> 'a word list" where
  "sha2_step F W v t =
     (let T1 = v ! 7 + Sigma1 F (v ! 4) + Ch (v ! 4) (v ! 5) (v ! 6) + KK F ! t + W ! t;
          T2 = Sigma0 F (v ! 0) + Maj (v ! 0) (v ! 1) (v ! 2)
      in [T1 + T2, v ! 0, v ! 1, v ! 2, v ! 3 + T1, v ! 4, v ! 5, v ! 6])"

definition sha2_compress :: "'a::len word sha2_fun \<Rightarrow> nat \<Rightarrow> 'a word list \<Rightarrow> 'a word list \<Rightarrow> 'a word list" where
  "sha2_compress F n st M = map2 (+) st (foldl (sha2_step F (schedule (sha2_expand F) M n)) st [0..<n])"

section \<open>The rolled loops compute it\<close>

lemma do_while_funpow:
  assumes step: "\<And>s. j (body s) = j s + d" and "0 < d" and "j s + d * Suc k = n"
  shows "do_while body (\<lambda>s. j s < n) s = (body ^^ Suc k) s"
  using assms(3)
proof (induction k arbitrary: s)
  case 0
  then show ?case
    by (simp add: do_while_def step while_unfold [of _ _ "body s"])
next
  case (Suc k)
  have "do_while body (\<lambda>s. j s < n) s = do_while body (\<lambda>s. j s < n) (body s)"
    using Suc.prems assms(2) unfolding do_while_def
    by (subst while_unfold) (simp add: step)
  also have "\<dots> = (body ^^ Suc k) (body s)"
    using Suc.prems by (intro Suc.IH) (simp add: step)
  finally show ?case by (simp add: funpow_swap1)
qed

lemma do_while_loop:
  assumes step: "\<And>s. snd (snd (body s)) = snd (snd s) + d" and "0 < d" "d * Suc k = n - j" "j \<le> n"
  shows "do_while body (\<lambda>(r, W, j). j < n) (r, W, j) = (body ^^ Suc k) (r, W, j)"
  using do_while_funpow [of "\<lambda>s. snd (snd s)" body d "(r, W, j)" k n] assms
  by (simp add: case_prod_unfold)

definition sha2_inplace ::
  "'a::len word sha2_fun \<Rightarrow> 'a word list \<Rightarrow> nat \<Rightarrow> 'a word list \<times> 'a word list \<Rightarrow>
     'a word list \<times> 'a word list" where
  "sha2_inplace F data t s =
     (let v = fst s; W = snd s;
          W' = (if t < 16 then W[t := REVERSE F (data ! t)]
                else W[t AND 15 := W ! (t AND 15) + (sigma1 F (W ! ((t + 14) AND 15)) +
                  W ! ((t + 9) AND 15) + sigma0 F (W ! ((t + 1) AND 15)))]);
          w = (if t < 16 then W' ! t else W' ! (t AND 15));
          T1 = v ! 7 + Sigma1 F (v ! 4) + Ch (v ! 4) (v ! 5) (v ! 6) + KK F ! t + w
      in (v[3 := v ! 3 + T1, 7 := T1 + Sigma0 F (v ! 0) + Maj (v ! 0) (v ! 1) (v ! 2)], W'))"

definition with_index :: "'a \<times> 'b \<Rightarrow> nat \<Rightarrow> 'a \<times> 'b \<times> nat" where
  "with_index s j = (fst s, snd s, j)"

lemma length_8D: "length v = 8 \<Longrightarrow> \<exists>a b c d e f g h. v = [a, b, c, d, e, f, g, h]"
  by (auto simp: length_Suc_conv numeral_eq_Suc)

lemma rolled_first_step:
  "length v = 8 \<Longrightarrow> j < 16 \<Longrightarrow>
     rolled_first F data (v, W, j) = with_index (rolled_step (sha2_inplace F data) (v, W) j) (Suc j)"
  by (auto dest!: length_8D simp: rolled_first_def rolled_step_def sha2_inplace_def Let_def with_index_def
      rotr_def add.assoc)

lemma rolled_rest_step:
  "length v = 8 \<Longrightarrow> 16 \<le> j \<Longrightarrow>
     rolled_rest F (v, W, j) = with_index (rolled_step (sha2_inplace F data) (v, W) j) (Suc j)"
  by (auto dest!: length_8D simp: rolled_rest_def rolled_step_def sha2_inplace_def Let_def with_index_def
      rotr_def add.assoc)

text \<open>A macro applied to the registers in a list of names.\<close>

definition on_names :: "'w round_macro \<Rightarrow> nat list \<Rightarrow> 'w loop_state \<Rightarrow> 'w loop_state" where
  "on_names rnd rs = rnd (rs ! 0) (rs ! 1) (rs ! 2) (rs ! 3) (rs ! 4) (rs ! 5) (rs ! 6) (rs ! 7)"

lemma eight_rounds_roles:
  "eight_rounds rnd s = foldl (\<lambda>s i. on_names rnd (roles 8 i) s) s [0..<8]"
proof -
  have upt: "[0..<8] = [0, 1, 2, 3, 4, 5, 6, 7]" by (simp add: upt_rec)
  show ?thesis by (simp add: eight_rounds_def on_names_def upt roles_8 numeral_2_eq_2 [symmetric])
qed

lemma macro_step:
  assumes "length r = 8"
  shows "j < 16 \<Longrightarrow> on_names (ROUND_0_TO_15 F data) (roles 8 j) (r, W, j) =
       with_index (unrolled_step 8 (sha2_inplace F data) (r, W) j) (Suc j)"
    and "16 \<le> j \<Longrightarrow> on_names (ROUND F) (roles 8 j) (r, W, j) =
       with_index (unrolled_step 8 (sha2_inplace F data) (r, W) j) (Suc j)"
proof -
  let ?rs = "roles 8 j"
  have reads: "read_regs ?rs r ! i = r ! (?rs ! i)" if "i < 8" for i
    using that by (simp add: read_regs_def)
  have put: "write_regs ?rs ((read_regs ?rs r)[3 := x, 7 := y]) r = r[?rs ! 3 := x, ?rs ! 7 := y]" for x y
    using assms by (intro write_regs_two) simp_all
  have ne: "?rs ! a \<noteq> ?rs ! b" if "a < 8" "b < 8" "a \<noteq> b" for a b
    using that by (simp add: nth_eq_iff_index_eq)
  show "on_names (ROUND_0_TO_15 F data) (roles 8 j) (r, W, j) =
       with_index (unrolled_step 8 (sha2_inplace F data) (r, W) j) (Suc j)" if "j < 16"
    using that
    by (simp add: on_names_def ROUND_0_TO_15_def unrolled_step_def sha2_inplace_def Let_def reads put
        ne with_index_def)
  show "on_names (ROUND F) (roles 8 j) (r, W, j) =
       with_index (unrolled_step 8 (sha2_inplace F data) (r, W) j) (Suc j)" if "16 \<le> j"
    using that
    by (simp add: on_names_def ROUND_def unrolled_step_def sha2_inplace_def Let_def reads put
        ne with_index_def)
qed

text \<open>A loop body that performs \<open>d\<close> steps, run \<open>k\<close> times.\<close>

lemma funpow_steps:
  assumes body: "\<And>v W j. length v = 8 \<Longrightarrow> d dvd j \<Longrightarrow> lo \<le> j \<Longrightarrow> j + d \<le> hi \<Longrightarrow>
      body (v, W, j) = with_index (foldl f (v, W) [j..<j + d]) (j + d)"
    and f: "\<And>s i. length (fst s) = 8 \<Longrightarrow> length (fst (f s i)) = 8"
    and "length v = 8" "d dvd j" "lo \<le> j" "j + d * k \<le> hi"
  shows "(body ^^ k) (v, W, j) = with_index (foldl f (v, W) [j..<j + d * k]) (j + d * k)"
  using assms(3-)
proof (induction k)
  case 0
  then show ?case by (simp add: with_index_def)
next
  case (Suc k)
  let ?s = "foldl f (v, W) [j..<j + d * k]"
  have "length (fst (foldl f (v, W) ts)) = 8" for ts
    using Suc.prems(1) f by (induction ts rule: rev_induct) simp_all
  then have "length (fst ?s) = 8" .
  moreover have "(body ^^ k) (v, W, j) = with_index ?s (j + d * k)"
    using Suc by simp
  moreover have "[j..<j + d * Suc k] = [j..<j + d * k] @ [j + d * k..<j + d * k + d]"
    using upt_add_eq_append [of j "j + d * k" d] by (simp add: ac_simps)
  ultimately show ?case
    using Suc.prems body [of "fst ?s" "j + d * k" "snd ?s"]
    by (simp add: with_index_def ac_simps)
qed

lemma length_inplace: "length (fst s) = 8 \<Longrightarrow> length (fst (sha2_inplace F data t s)) = 8"
  by (simp add: sha2_inplace_def Let_def)

lemma length_rolled_inplace:
  "length (fst s) = 8 \<Longrightarrow> length (fst (rolled_step (sha2_inplace F data) s t)) = 8"
  using length_inplace [of s F data t] by (auto simp: rolled_step_def rotr_def split: prod.split)

lemma keeps_inplace: "keeps_length 8 k (sha2_inplace F data)"
  by (simp add: keeps_length_def length_inplace)

lemma sha2_rolled_fold:
  assumes "length st = 8" "16 < n"
  shows "sha2_rolled F n data st W =
    (let (r, W) = foldl (rolled_step (sha2_inplace F data)) (st, W) [0..<n] in (map (\<lambda>i. st ! i + r ! i) [0..<8], W))"
proof -
  let ?f = "rolled_step (sha2_inplace F data)"
  let ?s = "foldl ?f (st, W) [0..<16]"
  obtain v l where s: "?s = (v, l)" by fastforce
  have len: "length (fst (foldl ?f (st, W) ts)) = 8" for ts
    using assms(1) by (induction ts rule: rev_induct) (simp_all add: length_rolled_inplace)
  then have v: "length v = 8" using s by (metis fst_conv)
  have st: "[st ! 0, st ! 1, st ! 2, st ! 3, st ! 4, st ! 5, st ! 6, st ! 7] = st"
    using length_8D [OF assms(1)] by auto
  have first: "do_while (rolled_first F data) (\<lambda>(r, W, j). j < 16) (st, W, 0) = (v, l, 16)"
  proof -
    have "do_while (rolled_first F data) (\<lambda>(r, W, j). j < 16) (st, W, 0) =
        (rolled_first F data ^^ Suc 15) (st, W, 0)"
      by (rule do_while_loop [where d = 1]) (auto simp: rolled_first_def Let_def)
    also have "\<dots> = with_index (foldl ?f (st, W) [0..<0 + 1 * Suc 15]) (0 + 1 * Suc 15)"
      using assms(1) by (intro funpow_steps [where lo = 0 and hi = 16])
        (auto simp: rolled_first_step length_rolled_inplace)
    finally show ?thesis using s by (simp add: with_index_def)
  qed
  have "do_while (rolled_rest F) (\<lambda>(r, W, j). j < n) (v, l, 16) = (rolled_rest F ^^ Suc (n - 17)) (v, l, 16)"
    using assms(2) by (intro do_while_loop [where d = 1]) (auto simp: rolled_rest_def Let_def)
  also have "\<dots> = with_index (foldl ?f (v, l) [16..<16 + 1 * Suc (n - 17)]) (16 + 1 * Suc (n - 17))"
    using assms(2) v by (intro funpow_steps [where lo = 16 and hi = n])
      (auto simp: rolled_rest_step [where data = data] length_rolled_inplace)
  also have "16 + 1 * Suc (n - 17) = n" using assms(2) by simp
  also have "foldl ?f (v, l) [16..<n] = foldl ?f (st, W) [0..<n]"
    using assms(2) upt_add_eq_append [of 0 16 "n - 16"] by (simp add: s)
  finally show ?thesis
    unfolding sha2_rolled_def Let_def st first by (simp add: with_index_def case_prod_unfold)
qed

lemma length_unrolled_inplace:
  "length (fst s) = 8 \<Longrightarrow> length (fst (unrolled_step 8 (sha2_inplace F data) s t)) = 8"
  by (rule unrolled_step_length)

lemma eight_steps:
  assumes r: "\<And>v W i. length v = 8 \<Longrightarrow> j \<le> i \<Longrightarrow> i < j + 8 \<Longrightarrow>
      on_names rnd (roles 8 i) (v, W, i) = with_index (unrolled_step 8 (sha2_inplace F data) (v, W) i) (Suc i)"
    and "length v = 8" "8 dvd j"
  shows "eight_rounds rnd (v, W, j) =
    with_index (foldl (unrolled_step 8 (sha2_inplace F data)) (v, W) [j..<j + 8]) (j + 8)"
proof -
  let ?f = "unrolled_step 8 (sha2_inplace F data)"
  obtain q where q: "j = 8 * q" using assms(3) by (rule dvdE)
  have "foldl (\<lambda>s i. on_names rnd (roles 8 i) s) (v, W, j) [0..<k] =
      with_index (foldl ?f (v, W) [j..<j + k]) (j + k) \<and> length (fst (foldl ?f (v, W) [j..<j + k])) = 8"
    if "k \<le> 8" for k
    using that
  proof (induction k)
    case (Suc k)
    let ?s = "foldl ?f (v, W) [j..<j + k]"
    have "on_names rnd (roles 8 k) (with_index ?s (j + k)) = with_index (?f ?s (j + k)) (Suc (j + k))"
      using Suc r [of "fst ?s" "j + k" "snd ?s"] roles_add [of 8 q k] by (simp add: with_index_def q)
    with Suc show ?case by (simp add: length_unrolled_inplace)
  qed (simp add: with_index_def assms(2))
  from this [of 8] show ?thesis by (simp add: eight_rounds_roles)
qed

lemma macro_index:
  "snd (snd (ROUND_0_TO_15 F data a b c d e f g h s)) = Suc (snd (snd s))"
  "snd (snd (ROUND F a b c d e f g h s)) = Suc (snd (snd s))"
  by (simp_all add: ROUND_0_TO_15_def ROUND_def Let_def case_prod_unfold)

lemma sha2_unrolled_fold:
  assumes "length st = 8" "16 < n" "8 dvd n"
  shows "sha2_unrolled F n data st W =
    (let (r, W) = foldl (unrolled_step 8 (sha2_inplace F data)) (st, W) [0..<n] in (map (\<lambda>i. st ! i + r ! i) [0..<8], W))"
proof -
  let ?f = "unrolled_step 8 (sha2_inplace F data)"
  let ?s = "foldl ?f (st, W) [0..<16]"
  obtain v l where s: "?s = (v, l)" by fastforce
  have len: "length (fst (foldl ?f (st, W) ts)) = 8" for ts
    using assms(1) by (induction ts rule: rev_induct) (simp_all add: length_unrolled_inplace)
  then have v: "length v = 8" using s by (metis fst_conv)
  have st: "[st ! 0, st ! 1, st ! 2, st ! 3, st ! 4, st ! 5, st ! 6, st ! 7] = st"
    using length_8D [OF assms(1)] by auto
  have j: "snd (snd (eight_rounds (ROUND_0_TO_15 F data) s)) = snd (snd s) + 8"
    "snd (snd (eight_rounds (ROUND F) s)) = snd (snd s) + 8" for s
    by (simp_all add: eight_rounds_def macro_index)
  have first: "do_while (eight_rounds (ROUND_0_TO_15 F data)) (\<lambda>(r, W, j). j < 16) (st, W, 0) = (v, l, 16)"
  proof -
    have "do_while (eight_rounds (ROUND_0_TO_15 F data)) (\<lambda>(r, W, j). j < 16) (st, W, 0) =
        (eight_rounds (ROUND_0_TO_15 F data) ^^ Suc 1) (st, W, 0)"
      by (rule do_while_loop [where d = 8]) (simp_all add: j)
    also have "\<dots> = with_index (foldl ?f (st, W) [0..<0 + 8 * Suc 1]) (0 + 8 * Suc 1)"
      using assms(1) by (intro funpow_steps [where lo = 0 and hi = 16] eight_steps)
        (auto simp: macro_step length_unrolled_inplace)
    finally show ?thesis using s by (simp add: with_index_def)
  qed
  have "\<exists>m. n = 24 + 8 * m"
  proof -
    obtain q where "n = 8 * q" using assms(3) by (rule dvdE)
    then have "n = 24 + 8 * (q - 3)" using assms(2) by simp
    then show ?thesis by blast
  qed
  then obtain m where n: "n = 24 + 8 * m" by blast
  have "do_while (eight_rounds (ROUND F)) (\<lambda>(r, W, j). j < n) (v, l, 16) =
      (eight_rounds (ROUND F) ^^ Suc m) (v, l, 16)"
    by (rule do_while_loop [where d = 8]) (simp_all add: j n)
  also have "\<dots> = with_index (foldl ?f (v, l) [16..<16 + 8 * Suc m]) (16 + 8 * Suc m)"
    using v by (intro funpow_steps [where lo = 16 and hi = n] eight_steps)
      (auto simp: macro_step [where data = data] length_unrolled_inplace n)
  also have "16 + 8 * Suc m = n" by (simp add: n)
  also have "foldl ?f (v, l) [16..<n] = foldl ?f (st, W) [0..<n]"
    using assms(2) upt_add_eq_append [of 0 16 "n - 16"] by (simp add: s)
  finally show ?thesis
    unfolding sha2_unrolled_def Let_def st first by (simp add: with_index_def case_prod_unfold)
qed

lemma sha2_unrolled_eq_rolled:
  assumes "length st = 8" "16 < n" "8 dvd n"
  shows "sha2_unrolled F n data st W = sha2_rolled F n data st W"
  using unrolled_aligned [OF _ _ assms(3) keeps_inplace, of "(st, W)" F data] assms
  by (simp add: sha2_unrolled_fold sha2_rolled_fold)

text \<open>The schedule kept in the circular array is the one of FIPS 180-2.\<close>

lemma and_0x0f: "(n :: nat) AND 15 = n mod 16"
  using take_bit_eq_mask [of 4 n] by (simp add: mask_eq_exp_minus_1 take_bit_eq_mod)

lemma looks_back_sha2: "looks_back (sha2_expand F)"
  by (simp add: looks_back_def sha2_expand_def)

lemma sha2_inplace_window:
  fixes F data
  defines "S \<equiv> schedule (sha2_expand F) (map (REVERSE F) data)"
  assumes win: "window (S n) raw t W" and t: "t < n" "16 \<le> n" and "length data = 16" "length v = 8"
  shows "rolled_step (sha2_inplace F data) (v, W) t = (sha2_step F (S n) v t, W[t mod 16 := S n ! t])"
proof -
  have M: "length (map (REVERSE F) data) = 16" using assms by simp
  have len: "length W = 16" using win by (rule window_length)
  obtain a b c d e f g h where v: "v = [a, b, c, d, e, f, g, h]"
    using length_8D [OF assms(6)] by blast
  show ?thesis
  proof (cases "t < 16")
    case True
    then have "S n ! t = REVERSE F (data ! t)"
      using M t assms(5) by (simp add: S_def schedule_low)
    with True len show ?thesis
      by (simp add: rolled_step_def sha2_inplace_def Let_def v rotr_def sha2_step_def add.assoc)
  next
    case False
    have "W ! ((t + 1) mod 16) = S n ! (t - 15)" "W ! ((t + 14) mod 16) = S n ! (t - 2)"
      "W ! ((t + 9) mod 16) = S n ! (t - 7)" "W ! (t mod 16) = S n ! (t - 16)"
      using False window_get [OF win, of 15] window_get [OF win, of 2] window_get [OF win, of 7]
        window_get [OF win, of 16] by (simp_all add: add.commute)
    moreover have "S n ! t = sha2_expand F (\<lambda>k. S n ! (t - k))"
      unfolding S_def using False t M by (intro schedule_rec looks_back_sha2) simp_all
    ultimately have "W ! (t mod 16) + (sigma1 F (W ! ((t + 14) mod 16)) + W ! ((t + 9) mod 16) +
        sigma0 F (W ! ((t + 1) mod 16))) = S n ! t"
      by (simp add: sha2_expand_def add.commute)
    with False len show ?thesis
      by (simp add: rolled_step_def sha2_inplace_def Let_def v rotr_def sha2_step_def and_0x0f add.assoc)
  qed
qed

lemma sha2_rolled_compress:
  assumes "length st = 8" "16 < n" "length data = 16" "length W = 16"
  shows "\<exists>W'. sha2_rolled F n data st W = (sha2_compress F n st (map (REVERSE F) data), W') \<and> length W' = 16"
proof -
  let ?S = "schedule (sha2_expand F) (map (REVERSE F) data) n"
  let ?f = "rolled_step (sha2_inplace F data)"
  have "\<exists>l. foldl ?f (st, W) [0..<k] = (foldl (sha2_step F ?S) st [0..<k], l) \<and> window ?S W k l \<and>
      length (foldl (sha2_step F ?S) st [0..<k]) = 8" if "k \<le> n" for k
    using that
  proof (induction k)
    case 0
    show ?case using assms by (simp add: window_init)
  next
    case (Suc k)
    then obtain l where "foldl ?f (st, W) [0..<k] = (foldl (sha2_step F ?S) st [0..<k], l)"
      and "window ?S W k l" and "length (foldl (sha2_step F ?S) st [0..<k]) = 8"
      by auto
    with Suc.prems assms show ?case
      by (simp add: sha2_inplace_window [where n = n] window_put) (simp add: sha2_step_def Let_def)
  qed
  from this [OF order_refl] obtain l where fold: "foldl ?f (st, W) [0..<n] = (foldl (sha2_step F ?S) st [0..<n], l)"
    and l: "length l = 16" and r: "length (foldl (sha2_step F ?S) st [0..<n]) = 8"
    by (auto dest: window_length)
  have add: "map (\<lambda>i. st ! i + r ! i) [0..<8] = map2 (+) st r" if "length r = 8" for r
    using that assms(1) by (intro nth_equalityI) simp_all
  show ?thesis
    using l by (simp add: sha2_rolled_fold [OF assms(1,2)] fold add [OF r] sha2_compress_def)
qed

lemma length_sha2_compress: "length st = 8 \<Longrightarrow> length (sha2_compress F n st M) = 8"
proof -
  have "length st = 8 \<Longrightarrow> length (foldl (sha2_step F W) st ts) = 8" for W ts
    by (induction ts rule: rev_induct) (simp_all add: sha2_step_def Let_def)
  then show "length st = 8 \<Longrightarrow> length (sha2_compress F n st M) = 8"
    by (simp add: sha2_compress_def)
qed

end
