(* ===== verification/Sha256.thy ===== *)
theory Sha256
  imports Sha2_Rounds
begin

text \<open>
  SHA-256 (\<open>lib/ext/digest/sha2/sha2.c\<close>). The transform uses the buffer of the context as its
  schedule array, so after every block the buffer holds words of the schedule; only the first
  \<open>usedspace\<close> bytes of it ever mean anything. When the block is the buffer itself, word
  \<open>j\<close> is read just before the schedule overwrites it, so the model may pass the bytes of the
  block by value. \<open>SHA256_Finish\<close> is called with a digest buffer, as \<open>digest.c\<close>
  does.
\<close>

section \<open>Functions and constants\<close>

definition REVERSE32 :: "u32 \<Rightarrow> u32" where
  "REVERSE32 w =
     (let tmp = drop_bit 16 w OR push_bit 16 w
      in drop_bit 8 (tmp AND 0xff00ff00) OR push_bit 8 (tmp AND 0x00ff00ff))"

definition REVERSE64 :: "u64 \<Rightarrow> u64" where
  "REVERSE64 w =
     (let tmp = drop_bit 32 w OR push_bit 32 w;
          tmp = drop_bit 8 (tmp AND 0xff00ff00ff00ff00) OR push_bit 8 (tmp AND 0x00ff00ff00ff00ff)
      in drop_bit 16 (tmp AND 0xffff0000ffff0000) OR push_bit 16 (tmp AND 0x0000ffff0000ffff))"

definition Sigma0_256 :: "u32 \<Rightarrow> u32" where
  "Sigma0_256 x = S_rotate 2 x XOR S_rotate 13 x XOR S_rotate 22 x"

definition Sigma1_256 :: "u32 \<Rightarrow> u32" where
  "Sigma1_256 x = S_rotate 6 x XOR S_rotate 11 x XOR S_rotate 25 x"

definition sigma0_256 :: "u32 \<Rightarrow> u32" where
  "sigma0_256 x = S_rotate 7 x XOR S_rotate 18 x XOR R_shift 3 x"

definition sigma1_256 :: "u32 \<Rightarrow> u32" where
  "sigma1_256 x = S_rotate 17 x XOR S_rotate 19 x XOR R_shift 10 x"

definition K256 :: "u32 list" where
  "K256 =
     [0x428a2f98, 0x71374491, 0xb5c0fbcf, 0xe9b5dba5] @
     [0x3956c25b, 0x59f111f1, 0x923f82a4, 0xab1c5ed5] @
     [0xd807aa98, 0x12835b01, 0x243185be, 0x550c7dc3] @
     [0x72be5d74, 0x80deb1fe, 0x9bdc06a7, 0xc19bf174] @
     [0xe49b69c1, 0xefbe4786, 0x0fc19dc6, 0x240ca1cc] @
     [0x2de92c6f, 0x4a7484aa, 0x5cb0a9dc, 0x76f988da] @
     [0x983e5152, 0xa831c66d, 0xb00327c8, 0xbf597fc7] @
     [0xc6e00bf3, 0xd5a79147, 0x06ca6351, 0x14292967] @
     [0x27b70a85, 0x2e1b2138, 0x4d2c6dfc, 0x53380d13] @
     [0x650a7354, 0x766a0abb, 0x81c2c92e, 0x92722c85] @
     [0xa2bfe8a1, 0xa81a664b, 0xc24b8b70, 0xc76c51a3] @
     [0xd192e819, 0xd6990624, 0xf40e3585, 0x106aa070] @
     [0x19a4c116, 0x1e376c08, 0x2748774c, 0x34b0bcb5] @
     [0x391c0cb3, 0x4ed8aa4a, 0x5b9cca4f, 0x682e6ff3] @
     [0x748f82ee, 0x78a5636f, 0x84c87814, 0x8cc70208] @
     [0x90befffa, 0xa4506ceb, 0xbef9a3f7, 0xc67178f2]"

definition sha256_initial_hash_value :: "u32 list" where
  "sha256_initial_hash_value =
     [0x6a09e667, 0xbb67ae85, 0x3c6ef372, 0xa54ff53a] @
     [0x510e527f, 0x9b05688c, 0x1f83d9ab, 0x5be0cd19]"

definition fun256 :: "u32 sha2_fun" where
  "fun256 = \<lparr>Sigma0 = Sigma0_256, Sigma1 = Sigma1_256, sigma0 = sigma0_256, sigma1 = sigma1_256,
     REVERSE = REVERSE32, KK = K256\<rparr>"

section \<open>The context operations\<close>

record SHA256_CTX =
  s256_state :: "u32 list"
  s256_bitcount :: u64
  s256_buffer :: "u8 list"

definition SHA256_Init :: "SHA256_CTX \<Rightarrow> SHA256_CTX" where
  "SHA256_Init context = context\<lparr>s256_state := sha256_initial_hash_value,
     s256_buffer := replicate 64 0, s256_bitcount := 0\<rparr>"

definition SHA256_Transform :: "SHA256_CTX \<Rightarrow> u8 list \<Rightarrow> SHA256_CTX" where
  "SHA256_Transform context data =
     (let (st, W256) = sha2_rolled fun256 64 (words32 data) (s256_state context) (words32 (s256_buffer context))
      in context\<lparr>s256_state := st, s256_buffer := concat (map bytes_le32 W256)\<rparr>)"

definition SHA256_Transform_unrolled :: "SHA256_CTX \<Rightarrow> u8 list \<Rightarrow> SHA256_CTX" where
  "SHA256_Transform_unrolled context data =
     (let (st, W256) = sha2_unrolled fun256 64 (words32 data) (s256_state context) (words32 (s256_buffer context))
      in context\<lparr>s256_state := st, s256_buffer := concat (map bytes_le32 W256)\<rparr>)"

definition s256_count :: "SHA256_CTX \<Rightarrow> u64 \<Rightarrow> SHA256_CTX" where
  "s256_count context n = context\<lparr>s256_bitcount := s256_bitcount context + push_bit 3 n\<rparr>"

function s256_full_blocks :: "SHA256_CTX \<Rightarrow> u8 list \<Rightarrow> SHA256_CTX \<times> u8 list" where
  "s256_full_blocks context data =
     (if 64 \<le> length data
      then s256_full_blocks (s256_count (SHA256_Transform context (take 64 data)) 64) (drop 64 data)
      else (context, data))"
  by pat_completeness auto
termination
  by (relation "measure (\<lambda>(context, data). length data)") auto

declare s256_full_blocks.simps [simp del]

definition s256_tail :: "SHA256_CTX \<Rightarrow> u8 list \<Rightarrow> SHA256_CTX" where
  "s256_tail context data =
     (let (context, data) = s256_full_blocks context data
      in if data \<noteq> [] then
           s256_count (context\<lparr>s256_buffer := put_at (s256_buffer context) 0 data\<rparr>) (of_nat (length data))
         else context)"

definition SHA256_Update :: "SHA256_CTX \<Rightarrow> u8 list \<Rightarrow> SHA256_CTX" where
  "SHA256_Update context data =
     (if data = [] then context
      else
        let usedspace = unat (drop_bit 3 (s256_bitcount context) mod 64)
        in if usedspace > 0 then
             let freespace = 64 - usedspace
             in if length data \<ge> freespace then
                  let context = s256_count (context\<lparr>s256_buffer :=
                        put_at (s256_buffer context) usedspace (take freespace data)\<rparr>) (of_nat freespace)
                  in s256_tail (SHA256_Transform context (s256_buffer context)) (drop freespace data)
                else s256_count (context\<lparr>s256_buffer := put_at (s256_buffer context) usedspace data\<rparr>)
                       (of_nat (length data))
           else s256_tail context data)"

text \<open>The padding of \<open>SHA256_Finish\<close>: the context ready for the last transform, but for the
  bit count.\<close>

definition s256_pad :: "SHA256_CTX \<Rightarrow> nat \<Rightarrow> SHA256_CTX" where
  "s256_pad context usedspace =
     (if usedspace > 0 then
        let context = context\<lparr>s256_buffer := put_at (s256_buffer context) usedspace [0x80]\<rparr>;
            usedspace = usedspace + 1
        in if usedspace \<le> 56 then
             context\<lparr>s256_buffer := put_at (s256_buffer context) usedspace (replicate (56 - usedspace) 0)\<rparr>
           else
             let context = (if usedspace < 64 then
                    context\<lparr>s256_buffer := put_at (s256_buffer context) usedspace (replicate (64 - usedspace) 0)\<rparr>
                  else context);
                 context = SHA256_Transform context (s256_buffer context)
             in context\<lparr>s256_buffer := put_at (s256_buffer context) 0 (replicate 56 0)\<rparr>
      else
        let context = context\<lparr>s256_buffer := put_at (s256_buffer context) 0 (replicate 56 0)\<rparr>
        in context\<lparr>s256_buffer := put_at (s256_buffer context) 0 [0x80]\<rparr>)"

definition SHA256_Finish :: "SHA256_CTX \<Rightarrow> SHA256_CTX \<times> u8 list" where
  "SHA256_Finish context =
     (let usedspace = unat (drop_bit 3 (s256_bitcount context) mod 64);
          context = context\<lparr>s256_bitcount := REVERSE64 (s256_bitcount context)\<rparr>;
          context = s256_pad context usedspace;
          context = context\<lparr>s256_buffer := put_at (s256_buffer context) 56 (bytes_le64 (s256_bitcount context))\<rparr>;
          context = SHA256_Transform context (s256_buffer context);
          digest = concat (map (\<lambda>w. bytes_le32 (REVERSE32 w)) (s256_state context))
      in (\<lparr>s256_state = replicate 8 0, s256_bitcount = 0, s256_buffer = replicate 64 0\<rparr>, digest))"

section \<open>Byte reversal\<close>

lemma REVERSE32_bytes: "bytes_le32 (REVERSE32 w) = bytes_be32 w"
proof -
  have m: "(0xff00ff00 :: u32) = push_bit 24 (mask 8) OR push_bit 8 (mask 8)"
    "(0x00ff00ff :: u32) = push_bit 16 (mask 8) OR mask 8"
    by (simp_all add: mask_eq_exp_minus_1)
  show ?thesis
    unfolding REVERSE32_def bytes_be32_def bytes_le32_def Let_def m
    by (simp, intro conjI; rule bit_word_eqI) (auto simp: bit_simps dest: bit_imp_le_length)
qed

lemma REVERSE32_le32: "length b = 4 \<Longrightarrow> REVERSE32 (le32 b) = be32 b"
  by (metis REVERSE32_bytes be32_def bytes_be32_def bytes_le32_le32 le32_bytes)

lemma REVERSE64_bytes: "bytes_le64 (REVERSE64 w) = bytes_be64 w"
proof -
  have m: "(0xff00ff00ff00ff00 :: u64) = push_bit 56 (mask 8) OR push_bit 40 (mask 8) OR
      push_bit 24 (mask 8) OR push_bit 8 (mask 8)"
    "(0x00ff00ff00ff00ff :: u64) = push_bit 48 (mask 8) OR push_bit 32 (mask 8) OR push_bit 16 (mask 8) OR mask 8"
    "(0xffff0000ffff0000 :: u64) = push_bit 48 (mask 16) OR push_bit 16 (mask 16)"
    "(0x0000ffff0000ffff :: u64) = push_bit 32 (mask 16) OR mask 16"
    by (simp_all add: mask_eq_exp_minus_1)
  show ?thesis
    unfolding REVERSE64_def bytes_be64_def bytes_le64_def bytes_le32_def Let_def m
    by (simp, intro conjI; rule bit_word_eqI) (auto simp: bit_simps dest: bit_imp_le_length)
qed

section \<open>FIPS 180-2\<close>

definition sha256_block :: "u32 list \<Rightarrow> u8 list \<Rightarrow> u32 list" where
  "sha256_block st data = sha2_compress fun256 64 st (words_be32 data)"

definition sha256_padded :: "u8 list \<Rightarrow> u8 list" where
  "sha256_padded m = m @ md_pad 64 8 (length m) @ bytes_be64 (of_nat (8 * length m))"

definition sha256_spec :: "u8 list \<Rightarrow> u8 list" where
  "sha256_spec m = concat (map bytes_be32
     (foldl sha256_block sha256_initial_hash_value (blocks 64 (sha256_padded m))))"

lemma length_sha256_block [simp]: "length st = 8 \<Longrightarrow> length (sha256_block st b) = 8"
  by (simp add: sha256_block_def length_sha2_compress)

lemma map_REVERSE32: "length data = 64 \<Longrightarrow> map REVERSE32 (words32 data) = words_be32 data"
  by (rule nth_equalityI) (simp_all add: nth_words32 nth_words_be32 REVERSE32_le32)

lemma SHA256_Transform_block:
  assumes "length (s256_state c) = 8" "length b = 64"
  shows "s256_state (SHA256_Transform c b) = sha256_block (s256_state c) b"
    and "length (s256_buffer (SHA256_Transform c b)) = 64"
    and "s256_bitcount (SHA256_Transform c b) = s256_bitcount c"
proof -
  obtain W where "sha2_rolled fun256 64 (words32 b) (s256_state c) (words32 (s256_buffer c)) =
      (sha2_compress fun256 64 (s256_state c) (map (REVERSE fun256) (words32 b)), W)" "length W = 16"
    using sha2_rolled_compress [of "s256_state c" 64 "words32 b" "words32 (s256_buffer c)" fun256] assms
    by auto
  moreover have "map (REVERSE fun256) (words32 b) = words_be32 b"
    using map_REVERSE32 [OF assms(2)] by (simp add: fun256_def)
  ultimately show "s256_state (SHA256_Transform c b) = sha256_block (s256_state c) b"
      "length (s256_buffer (SHA256_Transform c b)) = 64"
      "s256_bitcount (SHA256_Transform c b) = s256_bitcount c"
    by (simp_all add: SHA256_Transform_def sha256_block_def length_concat comp_def)
qed

section \<open>The context represents the message fed so far\<close>

definition s256_wf :: "SHA256_CTX \<Rightarrow> bool" where
  "s256_wf c \<longleftrightarrow> length (s256_state c) = 8 \<and> length (s256_buffer c) = 64"

definition s256_rep :: "SHA256_CTX \<Rightarrow> u8 list \<Rightarrow> bool" where
  "s256_rep c m \<longleftrightarrow>
     stream_rep 64 sha256_block sha256_initial_hash_value (s256_state c) (s256_buffer c) m \<and> s256_wf c
     \<and> s256_bitcount c = of_nat (8 * length m)"

lemma s256_rep_wf: "s256_rep c m \<Longrightarrow> s256_wf c"
  by (simp add: s256_rep_def)

lemma length_iv256 [simp]: "length sha256_initial_hash_value = 8"
  by (simp add: sha256_initial_hash_value_def)

lemma s256_rep_init: "s256_rep (SHA256_Init c) []"
  by (simp add: s256_rep_def SHA256_Init_def s256_wf_def stream_rep_init)

lemma s256_used: "s256_rep c m \<Longrightarrow> unat (drop_bit 3 (s256_bitcount c) mod 64) = length m mod 64"
  using bits_to_bytes [of 64 "length m"] by (simp add: s256_rep_def)

lemma s256_rep_part:
  assumes "s256_rep c m" "length m mod 64 + length d < 64"
  shows "s256_rep (s256_count (c\<lparr>s256_buffer := put_at (s256_buffer c) (length m mod 64) d\<rparr>) (of_nat (length d))) (m @ d)"
proof -
  have str: "stream_rep 64 sha256_block sha256_initial_hash_value (s256_state c) (s256_buffer c) m"
    using assms(1) by (simp add: s256_rep_def)
  from stream_rep_partial [OF _ str assms(2)] assms show ?thesis
    by (simp add: s256_rep_def s256_wf_def s256_count_def push_bit_3 buffer_simps distrib_left)
qed

lemma s256_rep_block:
  assumes "s256_rep c m" "length m mod 64 + length d = 64"
    and "s256_state c' = sha256_block (s256_state c) (rest 64 m @ d)" "length (s256_buffer c') = 64"
    and "s256_bitcount c' = s256_bitcount c + of_nat (8 * length d)"
  shows "s256_rep c' (m @ d)"
proof -
  have str: "stream_rep 64 sha256_block sha256_initial_hash_value (s256_state c) (s256_buffer c) m"
    using assms(1) by (simp add: s256_rep_def)
  from stream_rep_block [OF _ str assms(2,4)] assms show ?thesis
    by (simp add: s256_rep_def s256_wf_def distrib_left)
qed

lemma s256_full_blocks_rep:
  "s256_rep c m \<Longrightarrow> length m mod 64 = 0 \<Longrightarrow>
     \<exists>c'. s256_full_blocks c d = (c', rest 64 d) \<and> s256_rep c' (m @ concat (blocks 64 d))"
proof (induction c d arbitrary: m rule: s256_full_blocks.induct)
  case (1 c d)
  show ?case
  proof (cases "64 \<le> length d")
    case True
    let ?c = "s256_count (SHA256_Transform c (take 64 d)) 64"
    have wf: "length (s256_state c) = 8" using "1.prems" by (simp add: s256_rep_def s256_wf_def)
    have "s256_rep ?c (m @ take 64 d)"
      using "1.prems" True SHA256_Transform_block [OF wf, of "take 64 d"]
      by (intro s256_rep_block [OF "1.prems"(1)])
        (simp_all add: s256_count_def rest_empty push_bit_eq_mult)
    with True "1.prems" "1.IH" [OF True, of "m @ take 64 d"] show ?thesis
      by (simp add: s256_full_blocks.simps [of c d] blocks_step rest_step)
  qed (use "1.prems" in \<open>simp add: s256_full_blocks.simps [of c d]\<close>)
qed

lemma s256_tail_rep:
  assumes "s256_rep c m" "length m mod 64 = 0"
  shows "s256_rep (s256_tail c d) (m @ d)"
proof -
  obtain c' where c': "s256_full_blocks c d = (c', rest 64 d)" "s256_rep c' (m @ concat (blocks 64 d))"
    using s256_full_blocks_rep [OF assms] by blast
  have "concat (blocks 64 d) @ rest 64 d = d" by (rule concat_blocks_rest) simp
  moreover have "length (concat (blocks 64 d)) mod 64 = 0"
    by (simp add: length_concat_blocks)
  moreover from this assms(2) have "length (m @ concat (blocks 64 d)) mod 64 = 0"
    by (metis length_append mod_add_left_eq add_0)
  ultimately show ?thesis
    using c' s256_rep_part [OF c'(2), of "rest 64 d"]
    by (auto simp: s256_tail_def)
qed

lemma s256_rep_update:
  assumes rep: "s256_rep c m"
  shows "s256_rep (SHA256_Update c d) (m @ d)"
proof -
  let ?r = "length m mod 64"
  note used = s256_used [OF rep]
  consider "d = []" | "d \<noteq> []" "?r = 0" | "d \<noteq> []" "0 < ?r" "?r + length d < 64"
    | "d \<noteq> []" "0 < ?r" "64 \<le> ?r + length d" by linarith
  then show ?thesis
  proof cases
    case 1
    with rep show ?thesis by (simp add: SHA256_Update_def)
  next
    case 2
    with used s256_tail_rep [OF rep 2(2)] show ?thesis by (simp add: SHA256_Update_def Let_def)
  next
    case 3
    then have "\<not> 64 - ?r \<le> length d" by linarith
    with 3 used s256_rep_part [OF rep 3(3)] show ?thesis by (simp add: SHA256_Update_def Let_def)
  next
    case 4
    let ?f = "take (64 - ?r) d"
    let ?c = "s256_count (c\<lparr>s256_buffer := put_at (s256_buffer c) ?r ?f\<rparr>) (of_nat (64 - ?r))"
    let ?c' = "SHA256_Transform ?c (s256_buffer ?c)"
    have f: "length ?f = 64 - ?r" using 4 by simp
    from rep have wf: "length (s256_state c) = 8" "length (s256_buffer c) = 64"
      and buf: "take ?r (s256_buffer c) = rest 64 m"
      by (auto simp only: s256_rep_def s256_wf_def stream_rep_def)
    have b: "s256_buffer ?c = rest 64 m @ ?f" "length (s256_buffer ?c) = 64" "length (s256_state ?c) = 8"
      using wf buf f by (simp_all add: s256_count_def buffer_simps)
    have cnt: "s256_bitcount ?c = s256_bitcount c + of_nat (8 * length ?f)"
      unfolding f push_bit_3 [symmetric] by (simp add: s256_count_def)
    have "s256_state ?c = s256_state c" by (simp add: s256_count_def)
    with SHA256_Transform_block [OF b(3,2)] have "s256_rep ?c' (m @ ?f)"
      unfolding b(1) using cnt f b by (intro s256_rep_block [OF rep]) (simp_all only:, simp)
    moreover have "length (m @ ?f) mod 64 = 0"
    proof -
      have "?r + length ?f = 64" unfolding f by simp
      then have "(length m + length ?f) mod 64 = 0"
        by (metis mod_add_left_eq mod_self)
      then show ?thesis by (simp only: length_append)
    qed
    ultimately have "s256_rep (s256_tail ?c' (drop (64 - ?r) d)) ((m @ ?f) @ drop (64 - ?r) d)"
      by (rule s256_tail_rep)
    moreover have "SHA256_Update c d = s256_tail ?c' (drop (64 - ?r) d)"
      using 4 used by (simp add: SHA256_Update_def Let_def)
    ultimately show ?thesis by simp
  qed
qed

section \<open>SHA256_Finish\<close>

lemma s256_pad_spec:
  assumes wf: "length (s256_state c) = 8" "length (s256_buffer c) = 64"
    and buf: "take (length m mod 64) (s256_buffer c) = rest 64 m" and L: "length L = 8"
  defines "c' \<equiv> s256_pad c (length m mod 64)"
  shows "\<exists>bs. blocks 64 (m @ md_pad 64 8 (length m) @ L) = blocks 64 m @ bs @ [take 56 (s256_buffer c') @ L] \<and>
     s256_state c' = foldl sha256_block (s256_state c) bs \<and> length (s256_buffer c') = 64 \<and>
     s256_bitcount c' = s256_bitcount c"
proof -
  let ?r = "length m mod 64"
  have r: "?r < 64" by simp
  consider (empty) "?r = 0" | (one) "0 < ?r" "?r + 1 + 8 \<le> 64" | (two) "64 < ?r + 1 + 8" by linarith
  then show ?thesis
  proof cases
    case empty
    then have "s256_buffer c' = 0x80 # replicate 55 0 @ drop 56 (s256_buffer c)"
      using wf by (simp add: c'_def s256_pad_def put_at_def) 
    moreover have "rest 64 m = []" using empty by (rule rest_empty)
    ultimately show ?thesis
      using blocks_padded(1) [of 8 64 L m] L empty wf
      by (intro exI [of _ "[]"]) (simp add: c'_def s256_pad_def)
  next
    case one
    let ?b = "rest 64 m @ 0x80 # replicate (55 - ?r) 0"
    have "s256_buffer c' = ?b @ drop 56 (s256_buffer c)"
      using one wf buf by (simp add: c'_def s256_pad_def put_at_def Let_def min_def drop_Cons')
    moreover have b: "length ?b = 56" using one by simp
    then have "take 56 (?b @ x) = ?b" for x by (simp only: take_append) simp
    ultimately show ?thesis
      using blocks_padded(1) [of 8 64 L m] L one wf
      by (intro exI [of _ "[]"]) (simp add: c'_def s256_pad_def Let_def)
  next
    case two
    let ?b = "rest 64 m @ 0x80 # replicate (63 - ?r) 0"
    have lb: "length ?b = 64"
      unfolding length_append length_rest length_Cons length_replicate using r by linarith
    let ?d = "c\<lparr>s256_buffer := ?b\<rparr>"
    have "put_at (s256_buffer c) ?r [0x80] = rest 64 m @ 0x80 # drop (?r + 1) (s256_buffer c)"
      using buf by (simp add: put_at_def)
    moreover have "put_at (rest 64 m @ 0x80 # drop (?r + 1) (s256_buffer c)) (?r + 1) (replicate (63 - ?r) 0) = ?b"
      using wf r by (simp add: put_at_def)
    moreover have "?r + 1 = 64 \<Longrightarrow> drop (?r + 1) (s256_buffer c) = replicate (63 - ?r) 0"
      using wf by simp
    ultimately have c': "c' = (let d = SHA256_Transform ?d ?b in
        d\<lparr>s256_buffer := put_at (s256_buffer d) 0 (replicate 56 0)\<rparr>)"
      using two r by (auto simp: c'_def s256_pad_def Let_def)
    from SHA256_Transform_block [of ?d ?b] wf lb show ?thesis
      using blocks_padded(2) [of 8 64 L m] L two
      by (intro exI [of _ "[?b]"]) (simp add: c' Let_def buffer_simps)
  qed
qed

lemma s256_finish_spec:
  assumes rep: "s256_rep c m"
  shows "\<exists>c'. SHA256_Finish c = (c', sha256_spec m) \<and> s256_wf c'"
proof -
  define L where "L = bytes_le64 (REVERSE64 (s256_bitcount c))"
  have L: "L = bytes_be64 (of_nat (8 * length m))" "length L = 8"
    using rep by (simp_all add: L_def REVERSE64_bytes s256_rep_def)
  let ?c = "c\<lparr>s256_bitcount := REVERSE64 (s256_bitcount c)\<rparr>"
  let ?p = "s256_pad ?c (length m mod 64)"
  have wf: "length (s256_state ?c) = 8" "length (s256_buffer ?c) = 64"
    and buf: "take (length m mod 64) (s256_buffer ?c) = rest 64 m"
    and st: "s256_state c = foldl sha256_block sha256_initial_hash_value (blocks 64 m)"
    using rep by (auto simp: s256_rep_def s256_wf_def stream_rep_def)
  obtain bs where bs: "blocks 64 (sha256_padded m) = blocks 64 m @ bs @ [take 56 (s256_buffer ?p) @ L]"
    and p: "s256_state ?p = foldl sha256_block (s256_state c) bs" "length (s256_buffer ?p) = 64"
      "s256_bitcount ?p = REVERSE64 (s256_bitcount c)"
    using s256_pad_spec [OF wf buf L(2)] by (auto simp: sha256_padded_def L(1))
  define b where "b = put_at (s256_buffer ?p) 56 L"
  have b: "b = take 56 (s256_buffer ?p) @ L" "length b = 64"
    using p L(2) by (simp_all add: b_def buffer_simps)
  have len: "length (foldl sha256_block st bs) = 8" if "length st = 8" for st
    using that by (induction bs arbitrary: st) simp_all
  let ?q = "?p\<lparr>s256_buffer := b\<rparr>"
  have "s256_state (SHA256_Transform ?q b) = sha256_block (s256_state ?p) b"
    using SHA256_Transform_block(1) [of ?q b] b(2) p(1) len wf by simp
  then have fin: "s256_state (SHA256_Transform ?q b) =
      foldl sha256_block sha256_initial_hash_value (blocks 64 (sha256_padded m))"
    by (simp add: bs p(1) b(1) st)
  have "snd (SHA256_Finish c) = concat (map (\<lambda>w. bytes_le32 (REVERSE32 w)) (s256_state (SHA256_Transform ?q b)))"
    by (simp add: SHA256_Finish_def Let_def s256_used [OF rep] p(3) b_def L_def)
  then have "snd (SHA256_Finish c) = sha256_spec m"
    by (simp only: fin sha256_spec_def REVERSE32_bytes)
  moreover have "s256_wf (fst (SHA256_Finish c))"
    by (simp add: SHA256_Finish_def Let_def s256_wf_def)
  ultimately show ?thesis by (metis prod.collapse)
qed

interpretation sha256: digest_stream SHA256_Init "\<lambda>c d. Some (SHA256_Update c d)"
  "\<lambda>c. Some (SHA256_Finish c)" s256_wf s256_rep sha256_spec "\<lambda>_. True" "\<lambda>_. True"
  by unfold_locales (auto simp: s256_rep_init s256_rep_update dest: s256_rep_wf s256_finish_spec)

section \<open>A known answer\<close>

lemma K256_at:
  "K256 ! 0 = 0x428a2f98" "K256 ! Suc 0 = 0x71374491" "K256 ! 2 = 0xb5c0fbcf"
  "K256 ! 3 = 0xe9b5dba5" "K256 ! 4 = 0x3956c25b" "K256 ! 5 = 0x59f111f1"
  "K256 ! 6 = 0x923f82a4" "K256 ! 7 = 0xab1c5ed5" "K256 ! 8 = 0xd807aa98"
  "K256 ! 9 = 0x12835b01" "K256 ! 10 = 0x243185be" "K256 ! 11 = 0x550c7dc3"
  "K256 ! 12 = 0x72be5d74" "K256 ! 13 = 0x80deb1fe" "K256 ! 14 = 0x9bdc06a7"
  "K256 ! 15 = 0xc19bf174" "K256 ! 16 = 0xe49b69c1" "K256 ! 17 = 0xefbe4786"
  "K256 ! 18 = 0x0fc19dc6" "K256 ! 19 = 0x240ca1cc" "K256 ! 20 = 0x2de92c6f"
  "K256 ! 21 = 0x4a7484aa" "K256 ! 22 = 0x5cb0a9dc" "K256 ! 23 = 0x76f988da"
  "K256 ! 24 = 0x983e5152" "K256 ! 25 = 0xa831c66d" "K256 ! 26 = 0xb00327c8"
  "K256 ! 27 = 0xbf597fc7" "K256 ! 28 = 0xc6e00bf3" "K256 ! 29 = 0xd5a79147"
  "K256 ! 30 = 0x06ca6351" "K256 ! 31 = 0x14292967" "K256 ! 32 = 0x27b70a85"
  "K256 ! 33 = 0x2e1b2138" "K256 ! 34 = 0x4d2c6dfc" "K256 ! 35 = 0x53380d13"
  "K256 ! 36 = 0x650a7354" "K256 ! 37 = 0x766a0abb" "K256 ! 38 = 0x81c2c92e"
  "K256 ! 39 = 0x92722c85" "K256 ! 40 = 0xa2bfe8a1" "K256 ! 41 = 0xa81a664b"
  "K256 ! 42 = 0xc24b8b70" "K256 ! 43 = 0xc76c51a3" "K256 ! 44 = 0xd192e819"
  "K256 ! 45 = 0xd6990624" "K256 ! 46 = 0xf40e3585" "K256 ! 47 = 0x106aa070"
  "K256 ! 48 = 0x19a4c116" "K256 ! 49 = 0x1e376c08" "K256 ! 50 = 0x2748774c"
  "K256 ! 51 = 0x34b0bcb5" "K256 ! 52 = 0x391c0cb3" "K256 ! 53 = 0x4ed8aa4a"
  "K256 ! 54 = 0x5b9cca4f" "K256 ! 55 = 0x682e6ff3" "K256 ! 56 = 0x748f82ee"
  "K256 ! 57 = 0x78a5636f" "K256 ! 58 = 0x84c87814" "K256 ! 59 = 0x8cc70208"
  "K256 ! 60 = 0x90befffa" "K256 ! 61 = 0xa4506ceb" "K256 ! 62 = 0xbef9a3f7"
  "K256 ! 63 = 0xc67178f2"
  by (simp_all add: K256_def)

lemma sha256_step_norm:
  "sha2_step fun256 W [a, b, c, d, e, f, g, h] t =
     (let T1 = norm (h + Sigma1_256 e + Ch e f g + K256 ! t + W ! t)
      in [norm (T1 + (Sigma0_256 a + Maj a b c)), a, b, c, norm (d + T1), e, f, g])"
  by (simp add: sha2_step_def norm_def Let_def fun256_def)

lemma sha256_spec_abc:
  "sha256_spec [0x61, 0x62, 0x63] =
    [0xba, 0x78, 0x16, 0xbf, 0x8f, 0x01, 0xcf, 0xea, 0x41, 0x41, 0x40, 0xde, 0x5d, 0xae, 0x22, 0x23,
     0xb0, 0x03, 0x61, 0xa3, 0x96, 0x17, 0x7a, 0x9c, 0xb4, 0x10, 0xff, 0x61, 0xf2, 0x00, 0x15, 0xad]"
proof -
  have padded: "blocks 64 (sha256_padded [0x61, 0x62, 0x63]) =
      [[0x61, 0x62, 0x63, 0x80] @ replicate 52 0 @ [0, 0, 0, 0, 0, 0, 0, 24]]"
    by (simp add: sha256_padded_def md_pad_def zeros_def blocks_step bytes_be64_def bytes_le64_def bytes_le32_def)
  have words: "words_be32 ([0x61, 0x62, 0x63, 0x80] @ replicate 52 0 @ [0, 0, 0, 0, 0, 0, 0, 24]) =
      [0x61626380, 0, 0, 0, 0, 0, 0, 0, 0, 0, 0, 0, 0, 0, 0, 24]"
    by (simp add: words_be32_def upt_16 be32_def le32_def norm_simps)
  have step: "foldl (\<lambda>W t. W @ [sha2_expand fun256 (\<lambda>k. W ! (t - k))]) W (t # ts) =
      foldl (\<lambda>W t. W @ [sha2_expand fun256 (\<lambda>k. W ! (t - k))])
       (W @ [norm (sigma1_256 (W ! (t - 2)) + W ! (t - 7) + sigma0_256 (W ! (t - 15)) + W ! (t - 16))]) ts" for W t ts
    by (simp add: sha2_expand_def norm_def fun256_def)
  have sched: "schedule (sha2_expand fun256) [0x61626380, 0, 0, 0, 0, 0, 0, 0, 0, 0, 0, 0, 0, 0, 0, 24] 64 =
    [0x61626380, 0x00000000, 0x00000000, 0x00000000, 0x00000000, 0x00000000, 0x00000000,
     0x00000000, 0x00000000, 0x00000000, 0x00000000, 0x00000000, 0x00000000, 0x00000000,
     0x00000000, 0x00000018, 0x61626380, 0x000f0000, 0x7da86405, 0x600003c6, 0x3e9d7b78,
     0x0183fc00, 0x12dcbfdb, 0xe2e2c38e, 0xc8215c1a, 0xb73679a2, 0xe5bc3909, 0x32663c5b,
     0x9d209d67, 0xec8726cb, 0x702138a4, 0xd3b7973b, 0x93f5997f, 0x3b68ba73, 0xaff4ffc1,
     0xf10a5c62, 0x0a8b3996, 0x72af830a, 0x9409e33e, 0x24641522, 0x9f47bf94, 0xf0a64f5a,
     0x3e246a79, 0x27333ba3, 0x0c4763f2, 0x840abf27, 0x7a290d5d, 0x065c43da, 0xfb3e89cb,
     0xcc7617db, 0xb9e66c34, 0xa9993667, 0x84badedd, 0xc21462bc, 0x1487472c, 0xb20f7a99,
     0xef57b9cd, 0xebe6b238, 0x9fe3095e, 0x78bc8d4b, 0xa43fcf15, 0x668b2ff8, 0xeeaba2cc,
     0x12b1edeb]"
    unfolding schedule_def upt_16_64
    by (simp add: step norm_simps sigma0_256_def sigma1_256_def S_rotate_def R_shift_def
        del: foldl.simps(2) cong: foldl_state_cong)
  have "foldl (sha2_step fun256
    [0x61626380, 0x00000000, 0x00000000, 0x00000000, 0x00000000, 0x00000000, 0x00000000,
     0x00000000, 0x00000000, 0x00000000, 0x00000000, 0x00000000, 0x00000000, 0x00000000,
     0x00000000, 0x00000018, 0x61626380, 0x000f0000, 0x7da86405, 0x600003c6, 0x3e9d7b78,
     0x0183fc00, 0x12dcbfdb, 0xe2e2c38e, 0xc8215c1a, 0xb73679a2, 0xe5bc3909, 0x32663c5b,
     0x9d209d67, 0xec8726cb, 0x702138a4, 0xd3b7973b, 0x93f5997f, 0x3b68ba73, 0xaff4ffc1,
     0xf10a5c62, 0x0a8b3996, 0x72af830a, 0x9409e33e, 0x24641522, 0x9f47bf94, 0xf0a64f5a,
     0x3e246a79, 0x27333ba3, 0x0c4763f2, 0x840abf27, 0x7a290d5d, 0x065c43da, 0xfb3e89cb,
     0xcc7617db, 0xb9e66c34, 0xa9993667, 0x84badedd, 0xc21462bc, 0x1487472c, 0xb20f7a99,
     0xef57b9cd, 0xebe6b238, 0x9fe3095e, 0x78bc8d4b, 0xa43fcf15, 0x668b2ff8, 0xeeaba2cc,
     0x12b1edeb]) sha256_initial_hash_value [0..<64] =
      [0x506e3058, 0xd39a2165, 0x04d24d6c, 0xb85e2ce9, 0x5ef50f24, 0xfb121210, 0x948d25b6, 0x961f4894]"
    unfolding upt_64
    by (simp add: norm_simps sha256_step_norm K256_at Let_def sha256_initial_hash_value_def
        Sigma0_256_def Sigma1_256_def S_rotate_def Ch_def Maj_def cong: foldl_state_cong)
  then have "foldl sha256_block sha256_initial_hash_value (blocks 64 (sha256_padded [0x61, 0x62, 0x63])) =
      [0xba7816bf, 0x8f01cfea, 0x414140de, 0x5dae2223, 0xb00361a3, 0x96177a9c, 0xb410ff61, 0xf20015ad]"
    by (simp only: padded foldl.simps sha256_block_def sha2_compress_def words sched)
      (simp add: sha256_initial_hash_value_def)
  then show ?thesis by (simp add: sha256_spec_def bytes_be32_def bytes_le32_def)
qed

section \<open>Properties\<close>

definition s256_blank :: SHA256_CTX where
  "s256_blank = \<lparr>s256_state = replicate 8 0, s256_bitcount = 0, s256_buffer = replicate 64 0\<rparr>"

lemma s256_wf_blank: "s256_wf s256_blank"
  by (simp add: s256_wf_def s256_blank_def)

text \<open>SHA-256, whole message: however a message is cut into pieces, initialising a context,
  feeding it the pieces and finishing gives the FIPS 180-2 digest of the concatenation, and leaves a
  context with no trace of the message.\<close>

theorem sha256_digest_of_pieces:
  assumes "s256_wf c0"
  shows "SHA256_Finish (foldl SHA256_Update (SHA256_Init c0) ds) = (s256_blank, sha256_spec (concat ds))"
proof -
  have "snd (SHA256_Finish (foldl SHA256_Update (SHA256_Init c0) ds)) = sha256_spec (concat ds)"
    using sha256.digest_of_pieces [OF assms, of ds] by (auto simp: feed_total)
  moreover have "fst (SHA256_Finish c) = s256_blank" for c
    by (simp add: SHA256_Finish_def s256_blank_def Let_def)
  ultimately show ?thesis by (metis prod.collapse)
qed

lemma sha256_digest_of_pieces_witness:
  "snd (SHA256_Finish (foldl SHA256_Update (SHA256_Init s256_blank) [[0x61], [], [0x62, 0x63]])) =
    [0xba, 0x78, 0x16, 0xbf, 0x8f, 0x01, 0xcf, 0xea, 0x41, 0x41, 0x40, 0xde, 0x5d, 0xae, 0x22, 0x23,
     0xb0, 0x03, 0x61, 0xa3, 0x96, 0x17, 0x7a, 0x9c, 0xb4, 0x10, 0xff, 0x61, 0xf2, 0x00, 0x15, 0xad]"
  using sha256_digest_of_pieces [OF s256_wf_blank, of "[[0x61], [], [0x62, 0x63]]"]
  by (simp add: sha256_spec_abc)

text \<open>Both shapes of the SHA-256 transform, the macro calls on renamed registers chosen by
  \<open>SHA2_UNROLL_TRANSFORM\<close> and the loops that move the registers, change the context in the same
  way, schedule words left in the buffer included.\<close>

theorem SHA256_Transform_unrolled_eq:
  assumes "length (s256_state c) = 8"
  shows "SHA256_Transform_unrolled c data = SHA256_Transform c data"
  using assms by (simp add: SHA256_Transform_unrolled_def SHA256_Transform_def sha2_unrolled_eq_rolled)

lemma SHA256_Transform_unrolled_eq_witness:
  "SHA256_Transform_unrolled s256_blank (replicate 64 0) = SHA256_Transform s256_blank (replicate 64 0)"
  by (rule SHA256_Transform_unrolled_eq) (simp add: s256_blank_def)

end
