(* ===== verification/Sha512.thy ===== *)
theory Sha512
  imports Sha256
begin

text \<open>
  SHA-512 and SHA-384 (\<open>lib/ext/digest/sha2/sha2.c\<close>), which share the context, the transform,
  \<open>SHA512_Update\<close> and \<open>SHA512_Last\<close> and differ in the initial value and in the length of the
  digest. The bit count is a 128-bit number in two words, low word first. Every increment of it is
  below one block, so pieces may have any length.
\<close>

section \<open>Functions and constants\<close>

definition Sigma0_512 :: "u64 \<Rightarrow> u64" where
  "Sigma0_512 x = S_rotate 28 x XOR S_rotate 34 x XOR S_rotate 39 x"

definition Sigma1_512 :: "u64 \<Rightarrow> u64" where
  "Sigma1_512 x = S_rotate 14 x XOR S_rotate 18 x XOR S_rotate 41 x"

definition sigma0_512 :: "u64 \<Rightarrow> u64" where
  "sigma0_512 x = S_rotate 1 x XOR S_rotate 8 x XOR R_shift 7 x"

definition sigma1_512 :: "u64 \<Rightarrow> u64" where
  "sigma1_512 x = S_rotate 19 x XOR S_rotate 61 x XOR R_shift 6 x"

definition K512 :: "u64 list" where
  "K512 =
     [0x428a2f98d728ae22, 0x7137449123ef65cd] @
     [0xb5c0fbcfec4d3b2f, 0xe9b5dba58189dbbc] @
     [0x3956c25bf348b538, 0x59f111f1b605d019] @
     [0x923f82a4af194f9b, 0xab1c5ed5da6d8118] @
     [0xd807aa98a3030242, 0x12835b0145706fbe] @
     [0x243185be4ee4b28c, 0x550c7dc3d5ffb4e2] @
     [0x72be5d74f27b896f, 0x80deb1fe3b1696b1] @
     [0x9bdc06a725c71235, 0xc19bf174cf692694] @
     [0xe49b69c19ef14ad2, 0xefbe4786384f25e3] @
     [0x0fc19dc68b8cd5b5, 0x240ca1cc77ac9c65] @
     [0x2de92c6f592b0275, 0x4a7484aa6ea6e483] @
     [0x5cb0a9dcbd41fbd4, 0x76f988da831153b5] @
     [0x983e5152ee66dfab, 0xa831c66d2db43210] @
     [0xb00327c898fb213f, 0xbf597fc7beef0ee4] @
     [0xc6e00bf33da88fc2, 0xd5a79147930aa725] @
     [0x06ca6351e003826f, 0x142929670a0e6e70] @
     [0x27b70a8546d22ffc, 0x2e1b21385c26c926] @
     [0x4d2c6dfc5ac42aed, 0x53380d139d95b3df] @
     [0x650a73548baf63de, 0x766a0abb3c77b2a8] @
     [0x81c2c92e47edaee6, 0x92722c851482353b] @
     [0xa2bfe8a14cf10364, 0xa81a664bbc423001] @
     [0xc24b8b70d0f89791, 0xc76c51a30654be30] @
     [0xd192e819d6ef5218, 0xd69906245565a910] @
     [0xf40e35855771202a, 0x106aa07032bbd1b8] @
     [0x19a4c116b8d2d0c8, 0x1e376c085141ab53] @
     [0x2748774cdf8eeb99, 0x34b0bcb5e19b48a8] @
     [0x391c0cb3c5c95a63, 0x4ed8aa4ae3418acb] @
     [0x5b9cca4f7763e373, 0x682e6ff3d6b2b8a3] @
     [0x748f82ee5defb2fc, 0x78a5636f43172f60] @
     [0x84c87814a1f0ab72, 0x8cc702081a6439ec] @
     [0x90befffa23631e28, 0xa4506cebde82bde9] @
     [0xbef9a3f7b2c67915, 0xc67178f2e372532b] @
     [0xca273eceea26619c, 0xd186b8c721c0c207] @
     [0xeada7dd6cde0eb1e, 0xf57d4f7fee6ed178] @
     [0x06f067aa72176fba, 0x0a637dc5a2c898a6] @
     [0x113f9804bef90dae, 0x1b710b35131c471b] @
     [0x28db77f523047d84, 0x32caab7b40c72493] @
     [0x3c9ebe0a15c9bebc, 0x431d67c49c100d4c] @
     [0x4cc5d4becb3e42b6, 0x597f299cfc657e2a] @
     [0x5fcb6fab3ad6faec, 0x6c44198c4a475817]"

definition sha384_initial_hash_value :: "u64 list" where
  "sha384_initial_hash_value =
     [0xcbbb9d5dc1059ed8, 0x629a292a367cd507] @
     [0x9159015a3070dd17, 0x152fecd8f70e5939] @
     [0x67332667ffc00b31, 0x8eb44a8768581511] @
     [0xdb0c2e0d64f98fa7, 0x47b5481dbefa4fa4]"

definition sha512_initial_hash_value :: "u64 list" where
  "sha512_initial_hash_value =
     [0x6a09e667f3bcc908, 0xbb67ae8584caa73b] @
     [0x3c6ef372fe94f82b, 0xa54ff53a5f1d36f1] @
     [0x510e527fade682d1, 0x9b05688c2b3e6c1f] @
     [0x1f83d9abfb41bd6b, 0x5be0cd19137e2179]"

definition fun512 :: "u64 sha2_fun" where
  "fun512 = \<lparr>Sigma0 = Sigma0_512, Sigma1 = Sigma1_512, sigma0 = sigma0_512, sigma1 = sigma1_512,
     REVERSE = REVERSE64, KK = K512\<rparr>"

section \<open>The context operations\<close>

record SHA512_CTX =
  s512_state :: "u64 list"
  s512_bitcount :: "u64 list"
  s512_buffer :: "u8 list"

definition ADDINC128 :: "u64 list \<Rightarrow> u64 \<Rightarrow> u64 list" where
  "ADDINC128 w n =
     (let w0 = w ! 0 + n in [w0, if w0 < n then w ! 1 + 1 else w ! 1])"

definition SHA512_Init :: "SHA512_CTX \<Rightarrow> SHA512_CTX" where
  "SHA512_Init context = context\<lparr>s512_state := sha512_initial_hash_value,
     s512_buffer := replicate 128 0, s512_bitcount := [0, 0]\<rparr>"

definition SHA384_Init :: "SHA512_CTX \<Rightarrow> SHA512_CTX" where
  "SHA384_Init context = context\<lparr>s512_state := sha384_initial_hash_value,
     s512_buffer := replicate 128 0, s512_bitcount := [0, 0]\<rparr>"

definition SHA512_Transform :: "SHA512_CTX \<Rightarrow> u8 list \<Rightarrow> SHA512_CTX" where
  "SHA512_Transform context data =
     (let (st, W512) = sha2_rolled fun512 80 (words64 data) (s512_state context) (words64 (s512_buffer context))
      in context\<lparr>s512_state := st, s512_buffer := concat (map bytes_le64 W512)\<rparr>)"

definition SHA512_Transform_unrolled :: "SHA512_CTX \<Rightarrow> u8 list \<Rightarrow> SHA512_CTX" where
  "SHA512_Transform_unrolled context data =
     (let (st, W512) = sha2_unrolled fun512 80 (words64 data) (s512_state context) (words64 (s512_buffer context))
      in context\<lparr>s512_state := st, s512_buffer := concat (map bytes_le64 W512)\<rparr>)"

definition s512_count :: "SHA512_CTX \<Rightarrow> u64 \<Rightarrow> SHA512_CTX" where
  "s512_count context n = context\<lparr>s512_bitcount := ADDINC128 (s512_bitcount context) (push_bit 3 n)\<rparr>"

function s512_full_blocks :: "SHA512_CTX \<Rightarrow> u8 list \<Rightarrow> SHA512_CTX \<times> u8 list" where
  "s512_full_blocks context data =
     (if 128 \<le> length data
      then s512_full_blocks (s512_count (SHA512_Transform context (take 128 data)) 128) (drop 128 data)
      else (context, data))"
  by pat_completeness auto
termination
  by (relation "measure (\<lambda>(context, data). length data)") auto

declare s512_full_blocks.simps [simp del]

definition s512_tail :: "SHA512_CTX \<Rightarrow> u8 list \<Rightarrow> SHA512_CTX" where
  "s512_tail context data =
     (let (context, data) = s512_full_blocks context data
      in if data \<noteq> [] then
           s512_count (context\<lparr>s512_buffer := put_at (s512_buffer context) 0 data\<rparr>) (of_nat (length data))
         else context)"

definition SHA512_Update :: "SHA512_CTX \<Rightarrow> u8 list \<Rightarrow> SHA512_CTX" where
  "SHA512_Update context data =
     (if data = [] then context
      else
        let usedspace = unat (drop_bit 3 (s512_bitcount context ! 0) mod 128)
        in if usedspace > 0 then
             let freespace = 128 - usedspace
             in if length data \<ge> freespace then
                  let context = s512_count (context\<lparr>s512_buffer :=
                        put_at (s512_buffer context) usedspace (take freespace data)\<rparr>) (of_nat freespace)
                  in s512_tail (SHA512_Transform context (s512_buffer context)) (drop freespace data)
                else s512_count (context\<lparr>s512_buffer := put_at (s512_buffer context) usedspace data\<rparr>)
                       (of_nat (length data))
           else s512_tail context data)"

text \<open>The padding of \<open>SHA512_Last\<close>: the context ready for the last transform, but for the
  bit count.\<close>

definition s512_pad :: "SHA512_CTX \<Rightarrow> nat \<Rightarrow> SHA512_CTX" where
  "s512_pad context usedspace =
     (if usedspace > 0 then
        let context = context\<lparr>s512_buffer := put_at (s512_buffer context) usedspace [0x80]\<rparr>;
            usedspace = usedspace + 1
        in if usedspace \<le> 112 then
             context\<lparr>s512_buffer := put_at (s512_buffer context) usedspace (replicate (112 - usedspace) 0)\<rparr>
           else
             let context = (if usedspace < 128 then
                    context\<lparr>s512_buffer := put_at (s512_buffer context) usedspace (replicate (128 - usedspace) 0)\<rparr>
                  else context);
                 context = SHA512_Transform context (s512_buffer context)
             in context\<lparr>s512_buffer := put_at (s512_buffer context) 0 (replicate (128 - 2) 0)\<rparr>
      else
        let context = context\<lparr>s512_buffer := put_at (s512_buffer context) 0 (replicate 112 0)\<rparr>
        in context\<lparr>s512_buffer := put_at (s512_buffer context) 0 [0x80]\<rparr>)"

definition SHA512_Last :: "SHA512_CTX \<Rightarrow> SHA512_CTX" where
  "SHA512_Last context =
     (let usedspace = unat (drop_bit 3 (s512_bitcount context ! 0) mod 128);
          context = context\<lparr>s512_bitcount := map REVERSE64 (s512_bitcount context)\<rparr>;
          context = s512_pad context usedspace;
          context = context\<lparr>s512_buffer := put_at (s512_buffer context) 112 (bytes_le64 (s512_bitcount context ! 1))\<rparr>;
          context = context\<lparr>s512_buffer := put_at (s512_buffer context) 120 (bytes_le64 (s512_bitcount context ! 0))\<rparr>
      in SHA512_Transform context (s512_buffer context))"

definition s512_zero :: SHA512_CTX where
  "s512_zero = \<lparr>s512_state = replicate 8 0, s512_bitcount = [0, 0], s512_buffer = replicate 128 0\<rparr>"

definition SHA512_Finish :: "SHA512_CTX \<Rightarrow> SHA512_CTX \<times> u8 list" where
  "SHA512_Finish context =
     (let context = SHA512_Last context
      in (s512_zero, concat (map (\<lambda>j. bytes_le64 (REVERSE64 (s512_state context ! j))) [0..<8])))"

definition SHA384_Update :: "SHA512_CTX \<Rightarrow> u8 list \<Rightarrow> SHA512_CTX" where
  "SHA384_Update context data = SHA512_Update context data"

definition SHA384_Finish :: "SHA512_CTX \<Rightarrow> SHA512_CTX \<times> u8 list" where
  "SHA384_Finish context =
     (let context = SHA512_Last context
      in (s512_zero, concat (map (\<lambda>j. bytes_le64 (REVERSE64 (s512_state context ! j))) [0..<6])))"

section \<open>FIPS 180-2\<close>

definition sha512_block :: "u64 list \<Rightarrow> u8 list \<Rightarrow> u64 list" where
  "sha512_block st data = sha2_compress fun512 80 st (words_be64 data)"

definition sha512_padded :: "u8 list \<Rightarrow> u8 list" where
  "sha512_padded m = m @ md_pad 128 16 (length m) @
     bytes_be64 (of_nat (8 * length m div 2 ^ 64)) @ bytes_be64 (of_nat (8 * length m))"

definition sha512_hash :: "u64 list \<Rightarrow> u8 list \<Rightarrow> u64 list" where
  "sha512_hash iv m = foldl sha512_block iv (blocks 128 (sha512_padded m))"

definition sha512_spec :: "u8 list \<Rightarrow> u8 list" where
  "sha512_spec m = concat (map bytes_be64 (sha512_hash sha512_initial_hash_value m))"

definition sha384_spec :: "u8 list \<Rightarrow> u8 list" where
  "sha384_spec m = concat (map bytes_be64 (take 6 (sha512_hash sha384_initial_hash_value m)))"

lemma length_sha512_block [simp]: "length st = 8 \<Longrightarrow> length (sha512_block st b) = 8"
  by (simp add: sha512_block_def length_sha2_compress)

lemma REVERSE64_le64: "length b = 8 \<Longrightarrow> REVERSE64 (le64 b) = be64 b"
  by (metis REVERSE64_bytes be64_def bytes_be64_def bytes_le64_le64 le64_bytes)

lemma map_REVERSE64: "length data = 128 \<Longrightarrow> map REVERSE64 (words64 data) = words_be64 data"
  by (rule nth_equalityI) (simp_all add: nth_words64 REVERSE64_le64)

lemma SHA512_Transform_block:
  assumes "length (s512_state c) = 8" "length b = 128"
  shows "s512_state (SHA512_Transform c b) = sha512_block (s512_state c) b"
    and "length (s512_buffer (SHA512_Transform c b)) = 128"
    and "s512_bitcount (SHA512_Transform c b) = s512_bitcount c"
proof -
  obtain W where "sha2_rolled fun512 80 (words64 b) (s512_state c) (words64 (s512_buffer c)) =
      (sha2_compress fun512 80 (s512_state c) (map (REVERSE fun512) (words64 b)), W)" "length W = 16"
    using sha2_rolled_compress [of "s512_state c" 80 "words64 b" "words64 (s512_buffer c)" fun512] assms
    by auto
  moreover have "map (REVERSE fun512) (words64 b) = words_be64 b"
    using map_REVERSE64 [OF assms(2)] by (simp add: fun512_def)
  ultimately show "s512_state (SHA512_Transform c b) = sha512_block (s512_state c) b"
      "length (s512_buffer (SHA512_Transform c b)) = 128"
      "s512_bitcount (SHA512_Transform c b) = s512_bitcount c"
    by (simp_all add: SHA512_Transform_def sha512_block_def length_concat comp_def)
qed

section \<open>The context represents the message fed so far\<close>

definition s512_wf :: "SHA512_CTX \<Rightarrow> bool" where
  "s512_wf c \<longleftrightarrow> length (s512_state c) = 8 \<and> length (s512_buffer c) = 128 \<and> length (s512_bitcount c) = 2"

definition s512_rep :: "u64 list \<Rightarrow> SHA512_CTX \<Rightarrow> u8 list \<Rightarrow> bool" where
  "s512_rep iv c m \<longleftrightarrow> stream_rep 128 sha512_block iv (s512_state c) (s512_buffer c) m \<and> s512_wf c
     \<and> s512_bitcount c = [of_nat (8 * length m), of_nat (8 * length m div 2 ^ 64)]"

lemma s512_rep_wf: "s512_rep iv c m \<Longrightarrow> s512_wf c"
  by (simp add: s512_rep_def)

lemma length_iv512 [simp]: "length sha512_initial_hash_value = 8" "length sha384_initial_hash_value = 8"
  by (simp_all add: sha512_initial_hash_value_def sha384_initial_hash_value_def)

lemma s512_rep_init:
  "s512_rep sha512_initial_hash_value (SHA512_Init c) []"
  "s512_rep sha384_initial_hash_value (SHA384_Init c) []"
  by (simp_all add: s512_rep_def SHA512_Init_def SHA384_Init_def s512_wf_def stream_rep_init)

lemma s512_used: "s512_rep iv c m \<Longrightarrow> unat (drop_bit 3 (s512_bitcount c ! 0) mod 128) = length m mod 128"
  using bits_to_bytes [of 128 "length m"] by (simp add: s512_rep_def)

text \<open>The 128-bit counter: the carry is detected by comparing the new low word with the increment.\<close>

lemma ADDINC128_correct:
  assumes "n < 2 ^ 64"
  shows "ADDINC128 [of_nat N, of_nat (N div 2 ^ 64)] (of_nat n) = [of_nat (N + n), of_nat ((N + n) div 2 ^ 64)]"
proof -
  let ?B = "2 ^ 64 :: nat"
  have less: "(of_nat N + of_nat n :: u64) < of_nat n \<longleftrightarrow> (N mod ?B + n) mod ?B < n"
  proof -
    have "unat (of_nat N + of_nat n :: u64) = (N mod ?B + n) mod ?B"
      using assms by (simp add: unat_word_ariths unat_of_nat)
    with assms show ?thesis by (simp add: word_less_nat_alt unat_of_nat)
  qed
  have "(N + n) div ?B = N div ?B + (if (N mod ?B + n) mod ?B < n then 1 else 0)"
  proof (cases "N mod ?B + n < ?B")
    case True
    then have "(N mod ?B + n) div ?B = 0" "\<not> (N mod ?B + n) mod ?B < n" by simp_all
    then show ?thesis by (simp only: div_add1_eq [of N n] div_less [OF assms] mod_less [OF assms]) simp
  next
    case False
    have "N mod ?B < ?B" by simp
    with False assms have "(N mod ?B + n) div ?B = 1" by (intro div_nat_eqI) simp_all
    moreover from False \<open>N mod ?B < ?B\<close> assms have "(N mod ?B + n) mod ?B < n"
      by (simp only: le_mod_geq not_less) simp
    ultimately show ?thesis by (simp only: div_add1_eq [of N n] div_less [OF assms] mod_less [OF assms]) simp
  qed
  then show ?thesis
    by (simp add: ADDINC128_def Let_def less)
qed

lemma s512_count_rep:
  assumes "s512_bitcount c = [of_nat (8 * l), of_nat (8 * l div 2 ^ 64)]" "k \<le> 128"
  shows "s512_bitcount (s512_count c (of_nat k)) = [of_nat (8 * (l + k)), of_nat (8 * (l + k) div 2 ^ 64)]"
  using ADDINC128_correct [of "8 * k" "8 * l"] assms
  by (simp only: s512_count_def push_bit_3) (simp add: distrib_left)

lemma s512_rep_part:
  assumes "s512_rep iv c m" "length m mod 128 + length d < 128"
  shows "s512_rep iv (s512_count (c\<lparr>s512_buffer := put_at (s512_buffer c) (length m mod 128) d\<rparr>) (of_nat (length d))) (m @ d)"
proof -
  have str: "stream_rep 128 sha512_block iv (s512_state c) (s512_buffer c) m"
    using assms(1) by (simp add: s512_rep_def)
  from stream_rep_partial [OF _ str assms(2)] assms show ?thesis
    using s512_count_rep [of "c\<lparr>s512_buffer := put_at (s512_buffer c) (length m mod 128) d\<rparr>" "length m" "length d"]
    by (simp add: s512_rep_def s512_wf_def buffer_simps) (simp add: s512_count_def buffer_simps)
qed

lemma s512_rep_block:
  assumes "s512_rep iv c m" "length m mod 128 + length d = 128"
    and "s512_state c' = sha512_block (s512_state c) (rest 128 m @ d)" "length (s512_buffer c') = 128"
    and "s512_bitcount c' = [of_nat (8 * (length m + length d)), of_nat (8 * (length m + length d) div 2 ^ 64)]"
  shows "s512_rep iv c' (m @ d)"
proof -
  have str: "stream_rep 128 sha512_block iv (s512_state c) (s512_buffer c) m"
    using assms(1) by (simp add: s512_rep_def)
  from stream_rep_block [OF _ str assms(2,4)] assms show ?thesis
    by (simp add: s512_rep_def s512_wf_def)
qed

lemma s512_full_blocks_rep:
  "s512_rep iv c m \<Longrightarrow> length m mod 128 = 0 \<Longrightarrow>
     \<exists>c'. s512_full_blocks c d = (c', rest 128 d) \<and> s512_rep iv c' (m @ concat (blocks 128 d))"
proof (induction c d arbitrary: m rule: s512_full_blocks.induct)
  case (1 c d)
  show ?case
  proof (cases "128 \<le> length d")
    case True
    let ?c = "s512_count (SHA512_Transform c (take 128 d)) 128"
    have wf: "length (s512_state c) = 8" using "1.prems" by (simp add: s512_rep_def s512_wf_def)
    have "s512_bitcount (SHA512_Transform c (take 128 d)) =
        [of_nat (8 * length m), of_nat (8 * length m div 2 ^ 64)]"
      using "1.prems" True SHA512_Transform_block(3) [OF wf, of "take 128 d"] by (simp add: s512_rep_def)
    from s512_count_rep [OF this, of 128] have cnt: "s512_bitcount ?c =
        [of_nat (8 * (length m + 128)), of_nat (8 * (length m + 128) div 2 ^ 64)]"
      by simp
    have "s512_rep iv ?c (m @ take 128 d)"
    proof (rule s512_rep_block [OF "1.prems"(1)])
      show "s512_bitcount ?c = [of_nat (8 * (length m + length (take 128 d))),
          of_nat (8 * (length m + length (take 128 d)) div 2 ^ 64)]"
        using True cnt by (simp only: length_take min_absorb2)
    qed (use "1.prems" True SHA512_Transform_block [OF wf, of "take 128 d"] in
        \<open>simp_all add: s512_count_def rest_empty\<close>)
    with True "1.prems" "1.IH" [OF True, of "m @ take 128 d"] show ?thesis
      by (simp add: s512_full_blocks.simps [of c d] blocks_step rest_step)
  qed (use "1.prems" in \<open>simp add: s512_full_blocks.simps [of c d]\<close>)
qed

lemma s512_tail_rep:
  assumes "s512_rep iv c m" "length m mod 128 = 0"
  shows "s512_rep iv (s512_tail c d) (m @ d)"
proof -
  obtain c' where c': "s512_full_blocks c d = (c', rest 128 d)" "s512_rep iv c' (m @ concat (blocks 128 d))"
    using s512_full_blocks_rep [OF assms] by blast
  have "concat (blocks 128 d) @ rest 128 d = d" by (rule concat_blocks_rest) simp
  moreover have "length (concat (blocks 128 d)) mod 128 = 0"
    by (simp add: length_concat_blocks)
  moreover from this assms(2) have "length (m @ concat (blocks 128 d)) mod 128 = 0"
    by (metis length_append mod_add_left_eq add_0)
  ultimately show ?thesis
    using c' s512_rep_part [OF c'(2), of "rest 128 d"]
    by (auto simp: s512_tail_def)
qed

lemma s512_rep_update:
  assumes rep: "s512_rep iv c m"
  shows "s512_rep iv (SHA512_Update c d) (m @ d)"
proof -
  let ?r = "length m mod 128"
  note used = s512_used [OF rep]
  consider "d = []" | "d \<noteq> []" "?r = 0" | "d \<noteq> []" "0 < ?r" "?r + length d < 128"
    | "d \<noteq> []" "0 < ?r" "128 \<le> ?r + length d" by linarith
  then show ?thesis
  proof cases
    case 1
    with rep show ?thesis by (simp add: SHA512_Update_def)
  next
    case 2
    with used s512_tail_rep [OF rep 2(2)] show ?thesis by (simp add: SHA512_Update_def Let_def)
  next
    case 3
    then have "\<not> 128 - ?r \<le> length d" by linarith
    with 3 used s512_rep_part [OF rep 3(3)] show ?thesis by (simp add: SHA512_Update_def Let_def)
  next
    case 4
    let ?f = "take (128 - ?r) d"
    let ?c = "s512_count (c\<lparr>s512_buffer := put_at (s512_buffer c) ?r ?f\<rparr>) (of_nat (128 - ?r))"
    let ?c' = "SHA512_Transform ?c (s512_buffer ?c)"
    have f: "length ?f = 128 - ?r" using 4 by simp
    from rep have wf: "length (s512_state c) = 8" "length (s512_buffer c) = 128"
      and buf: "take ?r (s512_buffer c) = rest 128 m"
      by (auto simp only: s512_rep_def s512_wf_def stream_rep_def)
    have b: "s512_buffer ?c = rest 128 m @ ?f" "length (s512_buffer ?c) = 128" "length (s512_state ?c) = 8"
      using wf buf f by (simp_all add: s512_count_def buffer_simps)
    have "s512_bitcount (c\<lparr>s512_buffer := put_at (s512_buffer c) ?r ?f\<rparr>) =
        [of_nat (8 * length m), of_nat (8 * length m div 2 ^ 64)]"
      using rep by (simp add: s512_rep_def)
    from s512_count_rep [OF this, of "64 * 2 - ?r"] have cnt: "s512_bitcount ?c =
        [of_nat (8 * (length m + length ?f)), of_nat (8 * (length m + length ?f) div 2 ^ 64)]"
      unfolding f by simp
    have "s512_state ?c = s512_state c" by (simp add: s512_count_def)
    with SHA512_Transform_block [OF b(3,2)] have "s512_rep iv ?c' (m @ ?f)"
      unfolding b(1) using cnt f b by (intro s512_rep_block [OF rep]) (simp_all only:, simp)
    moreover have "length (m @ ?f) mod 128 = 0"
    proof -
      have "?r + length ?f = 128" unfolding f by simp
      then have "(length m + length ?f) mod 128 = 0"
        by (metis mod_add_left_eq mod_self)
      then show ?thesis by (simp only: length_append)
    qed
    ultimately have "s512_rep iv (s512_tail ?c' (drop (128 - ?r) d)) ((m @ ?f) @ drop (128 - ?r) d)"
      by (rule s512_tail_rep)
    moreover have "SHA512_Update c d = s512_tail ?c' (drop (128 - ?r) d)"
      using 4 used by (simp add: SHA512_Update_def Let_def)
    ultimately show ?thesis by simp
  qed
qed

section \<open>SHA512_Finish\<close>

lemma s512_pad_spec:
  assumes wf: "length (s512_state c) = 8" "length (s512_buffer c) = 128"
    and buf: "take (length m mod 128) (s512_buffer c) = rest 128 m" and L: "length L = 16"
  defines "c' \<equiv> s512_pad c (length m mod 128)"
  shows "\<exists>bs. blocks 128 (m @ md_pad 128 16 (length m) @ L) = blocks 128 m @ bs @ [take 112 (s512_buffer c') @ L] \<and>
     s512_state c' = foldl sha512_block (s512_state c) bs \<and> length (s512_buffer c') = 128 \<and>
     s512_bitcount c' = s512_bitcount c"
proof -
  let ?r = "length m mod 128"
  have r: "?r < 128" by simp
  consider (empty) "?r = 0" | (one) "0 < ?r" "?r + 1 + 16 \<le> 128" | (two) "128 < ?r + 1 + 16" by linarith
  then show ?thesis
  proof cases
    case empty
    then have "s512_buffer c' = 0x80 # replicate 111 0 @ drop 112 (s512_buffer c)"
      using wf by (simp add: c'_def s512_pad_def put_at_def) 
    moreover have "rest 128 m = []" using empty by (rule rest_empty)
    ultimately show ?thesis
      using blocks_padded(1) [of 16 128 L m] L empty wf
      by (intro exI [of _ "[]"]) (simp add: c'_def s512_pad_def)
  next
    case one
    let ?b = "rest 128 m @ 0x80 # replicate (111 - ?r) 0"
    have "s512_buffer c' = ?b @ drop 112 (s512_buffer c)"
      using one wf buf by (simp add: c'_def s512_pad_def put_at_def Let_def min_def drop_Cons')
    moreover have b: "length ?b = 112" using one by simp
    then have "take 112 (?b @ x) = ?b" for x by (simp only: take_append) simp
    ultimately show ?thesis
      using blocks_padded(1) [of 16 128 L m] L one wf
      by (intro exI [of _ "[]"]) (simp add: c'_def s512_pad_def Let_def)
  next
    case two
    let ?b = "rest 128 m @ 0x80 # replicate (127 - ?r) 0"
    have lb: "length ?b = 128"
      unfolding length_append length_rest length_Cons length_replicate using r by linarith
    let ?d = "c\<lparr>s512_buffer := ?b\<rparr>"
    have "put_at (s512_buffer c) ?r [0x80] = rest 128 m @ 0x80 # drop (?r + 1) (s512_buffer c)"
      using buf by (simp add: put_at_def)
    moreover have "put_at (rest 128 m @ 0x80 # drop (?r + 1) (s512_buffer c)) (?r + 1) (replicate (127 - ?r) 0) = ?b"
      using wf r by (simp add: put_at_def)
    moreover have "?r + 1 = 128 \<Longrightarrow> drop (?r + 1) (s512_buffer c) = replicate (127 - ?r) 0"
      using wf by simp
    ultimately have c': "c' = (let d = SHA512_Transform ?d ?b in
        d\<lparr>s512_buffer := put_at (s512_buffer d) 0 (replicate 126 0)\<rparr>)"
      using two r by (auto simp: c'_def s512_pad_def Let_def)
    from SHA512_Transform_block [of ?d ?b] wf lb show ?thesis
      using blocks_padded(2) [of 16 128 L m] L two
      by (intro exI [of _ "[?b]"]) (simp add: c' Let_def put_at_def)
  qed
qed

lemma s512_last_spec:
  assumes rep: "s512_rep iv c m" and iv: "length iv = 8"
  shows "s512_state (SHA512_Last c) = sha512_hash iv m \<and> length (s512_state (SHA512_Last c)) = 8"
proof -
  let ?c = "c\<lparr>s512_bitcount := map REVERSE64 (s512_bitcount c)\<rparr>"
  define L1 where "L1 = bytes_be64 (of_nat (8 * length m div 2 ^ 64))"
  define L0 where "L0 = bytes_be64 (of_nat (8 * length m))"
  have L: "bytes_le64 (s512_bitcount ?c ! 1) = L1" "bytes_le64 (s512_bitcount ?c ! 0) = L0"
      "length (L1 @ L0) = 16" "length L1 = 8" "length L0 = 8"
    using rep by (simp_all add: L0_def L1_def REVERSE64_bytes s512_rep_def)
  let ?p = "s512_pad ?c (length m mod 128)"
  have wf: "length (s512_state ?c) = 8" "length (s512_buffer ?c) = 128"
    and buf: "take (length m mod 128) (s512_buffer ?c) = rest 128 m"
    and st: "s512_state c = foldl sha512_block iv (blocks 128 m)"
    using rep by (auto simp: s512_rep_def s512_wf_def stream_rep_def)
  obtain bs where bs: "blocks 128 (sha512_padded m) = blocks 128 m @ bs @ [take 112 (s512_buffer ?p) @ L1 @ L0]"
    and p: "s512_state ?p = foldl sha512_block (s512_state c) bs" "length (s512_buffer ?p) = 128"
      "s512_bitcount ?p = s512_bitcount ?c"
    using s512_pad_spec [OF wf buf L(3)] by (auto simp: sha512_padded_def L1_def L0_def)
  define b where "b = put_at (put_at (s512_buffer ?p) 112 L1) 120 L0"
  have b: "b = take 112 (s512_buffer ?p) @ L1 @ L0" "length b = 128"
    using p L(4,5) by (simp_all add: b_def buffer_simps) 
  have len: "length (foldl sha512_block st bs) = 8" if "length st = 8" for st bs
    using that by (induction bs arbitrary: st) simp_all
  let ?q = "?p\<lparr>s512_buffer := b\<rparr>"
  have "SHA512_Last c = SHA512_Transform ?q b"
    unfolding SHA512_Last_def Let_def s512_used [OF rep] b_def L(1,2) [symmetric]
    using p(3) by (simp del: One_nat_def)
  moreover have "s512_state (SHA512_Transform ?q b) = sha512_block (s512_state ?p) b"
    using SHA512_Transform_block(1) [of ?q b] b(2) p(1) len wf by simp
  ultimately have "s512_state (SHA512_Last c) = sha512_hash iv m"
    by (simp add: bs p(1) b(1) st sha512_hash_def)
  moreover from this have "length (s512_state (SHA512_Last c)) = 8"
    by (simp only: sha512_hash_def len [OF iv])
  ultimately show ?thesis ..
qed

lemma nth_map_upt: "n \<le> length xs \<Longrightarrow> map (\<lambda>j. f (xs ! j)) [0..<n] = map f (take n xs)"
  by (rule nth_equalityI) simp_all

lemma length_sha512_hash: "length iv = 8 \<Longrightarrow> length (sha512_hash iv m) = 8"
proof -
  have "length iv = 8 \<Longrightarrow> length (foldl sha512_block iv bs) = 8" for bs
    by (induction bs rule: rev_induct) simp_all
  then show "length iv = 8 \<Longrightarrow> length (sha512_hash iv m) = 8" by (simp add: sha512_hash_def)
qed

lemma s512_wf_zero: "s512_wf s512_zero"
  by (simp add: s512_wf_def s512_zero_def)

lemma SHA512_Finish_spec:
  "s512_rep sha512_initial_hash_value c m \<Longrightarrow> SHA512_Finish c = (s512_zero, sha512_spec m)"
  using s512_last_spec [of sha512_initial_hash_value c m] length_sha512_hash [of sha512_initial_hash_value m]
    nth_map_upt [of 8 "sha512_hash sha512_initial_hash_value m" bytes_be64]
  by (simp add: SHA512_Finish_def Let_def REVERSE64_bytes sha512_spec_def)

lemma SHA384_Finish_spec:
  "s512_rep sha384_initial_hash_value c m \<Longrightarrow> SHA384_Finish c = (s512_zero, sha384_spec m)"
  using s512_last_spec [of sha384_initial_hash_value c m] length_sha512_hash [of sha384_initial_hash_value m]
    nth_map_upt [of 6 "sha512_hash sha384_initial_hash_value m" bytes_be64]
  by (simp add: SHA384_Finish_def Let_def REVERSE64_bytes sha384_spec_def)

interpretation sha512: digest_stream SHA512_Init "\<lambda>c d. Some (SHA512_Update c d)"
  "\<lambda>c. Some (SHA512_Finish c)" s512_wf "s512_rep sha512_initial_hash_value" sha512_spec "\<lambda>_. True" "\<lambda>_. True"
  by unfold_locales
    (auto simp: s512_rep_init s512_rep_update SHA512_Finish_spec s512_wf_zero dest: s512_rep_wf)

interpretation sha384: digest_stream SHA384_Init "\<lambda>c d. Some (SHA384_Update c d)"
  "\<lambda>c. Some (SHA384_Finish c)" s512_wf "s512_rep sha384_initial_hash_value" sha384_spec "\<lambda>_. True" "\<lambda>_. True"
  by unfold_locales
    (auto simp: s512_rep_init s512_rep_update SHA384_Finish_spec SHA384_Update_def s512_wf_zero dest: s512_rep_wf)

section \<open>Known answers\<close>

lemma K512_at:
  "K512 ! 0 = 0x428a2f98d728ae22"
  "K512 ! Suc 0 = 0x7137449123ef65cd"
  "K512 ! 2 = 0xb5c0fbcfec4d3b2f"
  "K512 ! 3 = 0xe9b5dba58189dbbc"
  "K512 ! 4 = 0x3956c25bf348b538"
  "K512 ! 5 = 0x59f111f1b605d019"
  "K512 ! 6 = 0x923f82a4af194f9b"
  "K512 ! 7 = 0xab1c5ed5da6d8118"
  "K512 ! 8 = 0xd807aa98a3030242"
  "K512 ! 9 = 0x12835b0145706fbe"
  "K512 ! 10 = 0x243185be4ee4b28c"
  "K512 ! 11 = 0x550c7dc3d5ffb4e2"
  "K512 ! 12 = 0x72be5d74f27b896f"
  "K512 ! 13 = 0x80deb1fe3b1696b1"
  "K512 ! 14 = 0x9bdc06a725c71235"
  "K512 ! 15 = 0xc19bf174cf692694"
  "K512 ! 16 = 0xe49b69c19ef14ad2"
  "K512 ! 17 = 0xefbe4786384f25e3"
  "K512 ! 18 = 0x0fc19dc68b8cd5b5"
  "K512 ! 19 = 0x240ca1cc77ac9c65"
  "K512 ! 20 = 0x2de92c6f592b0275"
  "K512 ! 21 = 0x4a7484aa6ea6e483"
  "K512 ! 22 = 0x5cb0a9dcbd41fbd4"
  "K512 ! 23 = 0x76f988da831153b5"
  "K512 ! 24 = 0x983e5152ee66dfab"
  "K512 ! 25 = 0xa831c66d2db43210"
  "K512 ! 26 = 0xb00327c898fb213f"
  "K512 ! 27 = 0xbf597fc7beef0ee4"
  "K512 ! 28 = 0xc6e00bf33da88fc2"
  "K512 ! 29 = 0xd5a79147930aa725"
  "K512 ! 30 = 0x06ca6351e003826f"
  "K512 ! 31 = 0x142929670a0e6e70"
  "K512 ! 32 = 0x27b70a8546d22ffc"
  "K512 ! 33 = 0x2e1b21385c26c926"
  "K512 ! 34 = 0x4d2c6dfc5ac42aed"
  "K512 ! 35 = 0x53380d139d95b3df"
  "K512 ! 36 = 0x650a73548baf63de"
  "K512 ! 37 = 0x766a0abb3c77b2a8"
  "K512 ! 38 = 0x81c2c92e47edaee6"
  "K512 ! 39 = 0x92722c851482353b"
  "K512 ! 40 = 0xa2bfe8a14cf10364"
  "K512 ! 41 = 0xa81a664bbc423001"
  "K512 ! 42 = 0xc24b8b70d0f89791"
  "K512 ! 43 = 0xc76c51a30654be30"
  "K512 ! 44 = 0xd192e819d6ef5218"
  "K512 ! 45 = 0xd69906245565a910"
  "K512 ! 46 = 0xf40e35855771202a"
  "K512 ! 47 = 0x106aa07032bbd1b8"
  "K512 ! 48 = 0x19a4c116b8d2d0c8"
  "K512 ! 49 = 0x1e376c085141ab53"
  "K512 ! 50 = 0x2748774cdf8eeb99"
  "K512 ! 51 = 0x34b0bcb5e19b48a8"
  "K512 ! 52 = 0x391c0cb3c5c95a63"
  "K512 ! 53 = 0x4ed8aa4ae3418acb"
  "K512 ! 54 = 0x5b9cca4f7763e373"
  "K512 ! 55 = 0x682e6ff3d6b2b8a3"
  "K512 ! 56 = 0x748f82ee5defb2fc"
  "K512 ! 57 = 0x78a5636f43172f60"
  "K512 ! 58 = 0x84c87814a1f0ab72"
  "K512 ! 59 = 0x8cc702081a6439ec"
  "K512 ! 60 = 0x90befffa23631e28"
  "K512 ! 61 = 0xa4506cebde82bde9"
  "K512 ! 62 = 0xbef9a3f7b2c67915"
  "K512 ! 63 = 0xc67178f2e372532b"
  "K512 ! 64 = 0xca273eceea26619c"
  "K512 ! 65 = 0xd186b8c721c0c207"
  "K512 ! 66 = 0xeada7dd6cde0eb1e"
  "K512 ! 67 = 0xf57d4f7fee6ed178"
  "K512 ! 68 = 0x06f067aa72176fba"
  "K512 ! 69 = 0x0a637dc5a2c898a6"
  "K512 ! 70 = 0x113f9804bef90dae"
  "K512 ! 71 = 0x1b710b35131c471b"
  "K512 ! 72 = 0x28db77f523047d84"
  "K512 ! 73 = 0x32caab7b40c72493"
  "K512 ! 74 = 0x3c9ebe0a15c9bebc"
  "K512 ! 75 = 0x431d67c49c100d4c"
  "K512 ! 76 = 0x4cc5d4becb3e42b6"
  "K512 ! 77 = 0x597f299cfc657e2a"
  "K512 ! 78 = 0x5fcb6fab3ad6faec"
  "K512 ! 79 = 0x6c44198c4a475817"
  by (simp_all add: K512_def)

lemma sha512_step_norm:
  "sha2_step fun512 W [a, b, c, d, e, f, g, h] t =
     (let T1 = norm (h + Sigma1_512 e + Ch e f g + K512 ! t + W ! t)
      in [norm (T1 + (Sigma0_512 a + Maj a b c)), a, b, c, norm (d + T1), e, f, g])"
  by (simp add: sha2_step_def norm_def Let_def fun512_def)

lemma sha512_schedule_abc:
  "schedule (sha2_expand fun512) [0x6162638000000000, 0, 0, 0, 0, 0, 0, 0, 0, 0, 0, 0, 0, 0, 0, 24] 80 =
    [0x6162638000000000, 0x0000000000000000, 0x0000000000000000, 0x0000000000000000,
     0x0000000000000000, 0x0000000000000000, 0x0000000000000000, 0x0000000000000000,
     0x0000000000000000, 0x0000000000000000, 0x0000000000000000, 0x0000000000000000,
     0x0000000000000000, 0x0000000000000000, 0x0000000000000000, 0x0000000000000018,
     0x6162638000000000, 0x00030000000000c0, 0x0a9699a24c700003, 0x00000c0060000603,
     0x549ef62639858996, 0x00c0003300003c00, 0x1497007a8a0e9dbc, 0x62e56500cc0780f0,
     0x7760dd475a538797, 0xf1554b711c1c0003, 0xca2993a4345d9ff2, 0x5e0e66b5c783dd32,
     0xe25a625d00494b62, 0x9f44486fb1e4fbd2, 0xb31b8c2b06085f2f, 0x0e987660934142f6,
     0xa4af2cfd09fbb924, 0xad289e2e0bd53186, 0x3c74563aa2f9673e, 0x6ccdcd14cc14b53f,
     0xc3f925b337f22bde, 0x5bcc77a75ad95b54, 0x3ec2257adca09a52, 0x28246960001fc5eb,
     0x04e33a75ce2be88a, 0x7d5314b3c359e0e7, 0xaef7a285ff251266, 0x0b8472581deea04f,
     0xb174e26eddc7b033, 0x5d63bae58ddd88de, 0x4c044007b744ccbb, 0xe6a9aa4d74dc7d43,
     0xebeaf1237248019c, 0x361e80b2d00f3193, 0x2e9839125df3b175, 0x3319629293ad5363,
     0x9cbc5d89ac1b89d5, 0x275e23ffeeca50b7, 0x3b80d680bf69ef58, 0x0d0696933945a125,
     0x7533eabcb786ff00, 0xb89826cee6fbf0e5, 0x249b4fbcad623e9f, 0x4aea9df2b02d6f1e,
     0x2cc57475a55e8d8f, 0xb2574ae938d8be89, 0xc1b35a57b16d6aea, 0xcc4918b5949206bb,
     0x5099c3add79f90ec, 0x5ea81d78e7660bf1, 0xebee6267405ac2a9, 0xb01f21926108a4ab,
     0x786433dd2fe65556, 0xc54a6eaa24a0552c, 0xb3c8f1530bdbaa9e, 0xbb8abfe56f469338,
     0xf63d4265cc1c5a78, 0xbe8355ea73129afb, 0x49e2db8ebdcfbeb5, 0x82269d4a883a3d99,
     0xfdf53df3011f362b, 0x464af5671d71c12e, 0xe449b68198ec611c, 0x92aeeed1a7bcf7d2]"
proof -
  have step: "foldl (\<lambda>W t. W @ [sha2_expand fun512 (\<lambda>k. W ! (t - k))]) W (t # ts) =
      foldl (\<lambda>W t. W @ [sha2_expand fun512 (\<lambda>k. W ! (t - k))])
       (W @ [norm (sigma1_512 (W ! (t - 2)) + W ! (t - 7) + sigma0_512 (W ! (t - 15)) + W ! (t - 16))]) ts" for W t ts
    by (simp add: sha2_expand_def norm_def fun512_def)
  show ?thesis
    unfolding schedule_def upt_16_80
    by (simp add: step norm_simps sigma0_512_def sigma1_512_def S_rotate_def R_shift_def
        del: foldl.simps(2) cong: foldl_state_cong)
qed

lemma sha512_hash_abc:
  "sha512_hash sha512_initial_hash_value [0x61, 0x62, 0x63] =
    [0xddaf35a193617aba, 0xcc417349ae204131, 0x12e6fa4e89a97ea2, 0x0a9eeee64b55d39a,
     0x2192992a274fc1a8, 0x36ba3c23a3feebbd, 0x454d4423643ce80e, 0x2a9ac94fa54ca49f]" (is ?h5)
  "sha512_hash sha384_initial_hash_value [0x61, 0x62, 0x63] =
    [0xcb00753f45a35e8b, 0xb5a03d699ac65007, 0x272c32ab0eded163, 0x1a8b605a43ff5bed,
     0x8086072ba1e7cc23, 0x58baeca134c825a7, 0xa303edfdf3b89cd7, 0x0c66918ece57ba15]" (is ?h3)
proof -
  have padded: "blocks 128 (sha512_padded [0x61, 0x62, 0x63]) =
      [[0x61, 0x62, 0x63, 0x80] @ replicate 116 0 @ [0, 0, 0, 0, 0, 0, 0, 24]]"
    by (simp add: sha512_padded_def md_pad_def zeros_def blocks_step bytes_be64_def bytes_le64_def bytes_le32_def
        norm_simps)
  have words: "words_be64 ([0x61, 0x62, 0x63, 0x80] @ replicate 116 0 @ [0, 0, 0, 0, 0, 0, 0, 24]) =
      [0x6162638000000000, 0, 0, 0, 0, 0, 0, 0, 0, 0, 0, 0, 0, 0, 0, 24]"
    by (simp add: words_be64_def upt_16 be64_def le64_def le32_def norm_simps)
  have r5: "foldl (sha2_step fun512
    [0x6162638000000000, 0x0000000000000000, 0x0000000000000000, 0x0000000000000000,
     0x0000000000000000, 0x0000000000000000, 0x0000000000000000, 0x0000000000000000,
     0x0000000000000000, 0x0000000000000000, 0x0000000000000000, 0x0000000000000000,
     0x0000000000000000, 0x0000000000000000, 0x0000000000000000, 0x0000000000000018,
     0x6162638000000000, 0x00030000000000c0, 0x0a9699a24c700003, 0x00000c0060000603,
     0x549ef62639858996, 0x00c0003300003c00, 0x1497007a8a0e9dbc, 0x62e56500cc0780f0,
     0x7760dd475a538797, 0xf1554b711c1c0003, 0xca2993a4345d9ff2, 0x5e0e66b5c783dd32,
     0xe25a625d00494b62, 0x9f44486fb1e4fbd2, 0xb31b8c2b06085f2f, 0x0e987660934142f6,
     0xa4af2cfd09fbb924, 0xad289e2e0bd53186, 0x3c74563aa2f9673e, 0x6ccdcd14cc14b53f,
     0xc3f925b337f22bde, 0x5bcc77a75ad95b54, 0x3ec2257adca09a52, 0x28246960001fc5eb,
     0x04e33a75ce2be88a, 0x7d5314b3c359e0e7, 0xaef7a285ff251266, 0x0b8472581deea04f,
     0xb174e26eddc7b033, 0x5d63bae58ddd88de, 0x4c044007b744ccbb, 0xe6a9aa4d74dc7d43,
     0xebeaf1237248019c, 0x361e80b2d00f3193, 0x2e9839125df3b175, 0x3319629293ad5363,
     0x9cbc5d89ac1b89d5, 0x275e23ffeeca50b7, 0x3b80d680bf69ef58, 0x0d0696933945a125,
     0x7533eabcb786ff00, 0xb89826cee6fbf0e5, 0x249b4fbcad623e9f, 0x4aea9df2b02d6f1e,
     0x2cc57475a55e8d8f, 0xb2574ae938d8be89, 0xc1b35a57b16d6aea, 0xcc4918b5949206bb,
     0x5099c3add79f90ec, 0x5ea81d78e7660bf1, 0xebee6267405ac2a9, 0xb01f21926108a4ab,
     0x786433dd2fe65556, 0xc54a6eaa24a0552c, 0xb3c8f1530bdbaa9e, 0xbb8abfe56f469338,
     0xf63d4265cc1c5a78, 0xbe8355ea73129afb, 0x49e2db8ebdcfbeb5, 0x82269d4a883a3d99,
     0xfdf53df3011f362b, 0x464af5671d71c12e, 0xe449b68198ec611c, 0x92aeeed1a7bcf7d2]) sha512_initial_hash_value [0..<80] =
    [0x73a54f399fa4b1b2, 0x10d9c4c4295599f6, 0xd67806db8b148677, 0x654ef9abec389ca9,
     0xd08446aa79693ed7, 0x9bb4d39778c07f9e, 0x25c96a7768fb2aa3, 0xceb9fc3691ce8326]"
    unfolding upt_80
    by (simp add: norm_simps sha512_step_norm K512_at Let_def sha512_initial_hash_value_def
        Sigma0_512_def Sigma1_512_def S_rotate_def Ch_def Maj_def cong: foldl_state_cong)
  have r3: "foldl (sha2_step fun512
    [0x6162638000000000, 0x0000000000000000, 0x0000000000000000, 0x0000000000000000,
     0x0000000000000000, 0x0000000000000000, 0x0000000000000000, 0x0000000000000000,
     0x0000000000000000, 0x0000000000000000, 0x0000000000000000, 0x0000000000000000,
     0x0000000000000000, 0x0000000000000000, 0x0000000000000000, 0x0000000000000018,
     0x6162638000000000, 0x00030000000000c0, 0x0a9699a24c700003, 0x00000c0060000603,
     0x549ef62639858996, 0x00c0003300003c00, 0x1497007a8a0e9dbc, 0x62e56500cc0780f0,
     0x7760dd475a538797, 0xf1554b711c1c0003, 0xca2993a4345d9ff2, 0x5e0e66b5c783dd32,
     0xe25a625d00494b62, 0x9f44486fb1e4fbd2, 0xb31b8c2b06085f2f, 0x0e987660934142f6,
     0xa4af2cfd09fbb924, 0xad289e2e0bd53186, 0x3c74563aa2f9673e, 0x6ccdcd14cc14b53f,
     0xc3f925b337f22bde, 0x5bcc77a75ad95b54, 0x3ec2257adca09a52, 0x28246960001fc5eb,
     0x04e33a75ce2be88a, 0x7d5314b3c359e0e7, 0xaef7a285ff251266, 0x0b8472581deea04f,
     0xb174e26eddc7b033, 0x5d63bae58ddd88de, 0x4c044007b744ccbb, 0xe6a9aa4d74dc7d43,
     0xebeaf1237248019c, 0x361e80b2d00f3193, 0x2e9839125df3b175, 0x3319629293ad5363,
     0x9cbc5d89ac1b89d5, 0x275e23ffeeca50b7, 0x3b80d680bf69ef58, 0x0d0696933945a125,
     0x7533eabcb786ff00, 0xb89826cee6fbf0e5, 0x249b4fbcad623e9f, 0x4aea9df2b02d6f1e,
     0x2cc57475a55e8d8f, 0xb2574ae938d8be89, 0xc1b35a57b16d6aea, 0xcc4918b5949206bb,
     0x5099c3add79f90ec, 0x5ea81d78e7660bf1, 0xebee6267405ac2a9, 0xb01f21926108a4ab,
     0x786433dd2fe65556, 0xc54a6eaa24a0552c, 0xb3c8f1530bdbaa9e, 0xbb8abfe56f469338,
     0xf63d4265cc1c5a78, 0xbe8355ea73129afb, 0x49e2db8ebdcfbeb5, 0x82269d4a883a3d99,
     0xfdf53df3011f362b, 0x464af5671d71c12e, 0xe449b68198ec611c, 0x92aeeed1a7bcf7d2]) sha384_initial_hash_value [0..<80] =
    [0xff44d7e1849dbfb3, 0x5306143f64497b00, 0x95d33150de6df44c, 0x055b73814cf102b4,
     0x1952e0c3a227c0f2, 0xca06a219cc701096, 0xc7f7bff08ebf0d30, 0xc4b149710f5d6a71]"
    unfolding upt_80
    by (simp add: norm_simps sha512_step_norm K512_at Let_def sha384_initial_hash_value_def
        Sigma0_512_def Sigma1_512_def S_rotate_def Ch_def Maj_def cong: foldl_state_cong)
  show ?h5
    by (simp only: sha512_hash_def padded foldl.simps sha512_block_def sha2_compress_def words
        sha512_schedule_abc r5) (simp add: sha512_initial_hash_value_def)
  show ?h3
    by (simp only: sha512_hash_def padded foldl.simps sha512_block_def sha2_compress_def words
        sha512_schedule_abc r3) (simp add: sha384_initial_hash_value_def)
qed

section \<open>Properties\<close>

text \<open>C24. SHA-512, whole message: initialising any context, feeding it the pieces of a message and
  finishing gives the FIPS 180-2 digest of the concatenation, with the length counted modulo
  \<open>2^128\<close> bits, and zeroes the context.\<close>

theorem sha512_digest_of_pieces:
  assumes "s512_wf c0"
  shows "SHA512_Finish (foldl SHA512_Update (SHA512_Init c0) ds) = (s512_zero, sha512_spec (concat ds))"
proof -
  have "snd (SHA512_Finish (foldl SHA512_Update (SHA512_Init c0) ds)) = sha512_spec (concat ds)"
    using sha512.digest_of_pieces [OF assms, of ds] by (auto simp: feed_total)
  moreover have "fst (SHA512_Finish c) = s512_zero" for c
    by (simp add: SHA512_Finish_def Let_def)
  ultimately show ?thesis by (metis prod.collapse)
qed

lemma sha512_digest_of_pieces_witness:
  "snd (SHA512_Finish (foldl SHA512_Update (SHA512_Init s512_zero) [[0x61], [], [0x62, 0x63]])) =
    [0xdd, 0xaf, 0x35, 0xa1, 0x93, 0x61, 0x7a, 0xba, 0xcc, 0x41, 0x73, 0x49, 0xae, 0x20,
     0x41, 0x31, 0x12, 0xe6, 0xfa, 0x4e, 0x89, 0xa9, 0x7e, 0xa2, 0x0a, 0x9e, 0xee, 0xe6,
     0x4b, 0x55, 0xd3, 0x9a, 0x21, 0x92, 0x99, 0x2a, 0x27, 0x4f, 0xc1, 0xa8, 0x36, 0xba,
     0x3c, 0x23, 0xa3, 0xfe, 0xeb, 0xbd, 0x45, 0x4d, 0x44, 0x23, 0x64, 0x3c, 0xe8, 0x0e,
     0x2a, 0x9a, 0xc9, 0x4f, 0xa5, 0x4c, 0xa4, 0x9f]"
  using sha512_digest_of_pieces [OF s512_wf_zero, of "[[0x61], [], [0x62, 0x63]]"]
  by (simp add: sha512_spec_def sha512_hash_abc bytes_be64_def bytes_le64_def bytes_le32_def)

text \<open>SHA-384, whole message: the same contract for \<open>SHA384_Init\<close>, \<open>SHA384_Update\<close> and
  \<open>SHA384_Finish\<close>, with the 384-bit initial value and the first six words of the result.\<close>

theorem sha384_digest_of_pieces:
  assumes "s512_wf c0"
  shows "SHA384_Finish (foldl SHA384_Update (SHA384_Init c0) ds) = (s512_zero, sha384_spec (concat ds))"
proof -
  have "snd (SHA384_Finish (foldl SHA384_Update (SHA384_Init c0) ds)) = sha384_spec (concat ds)"
    using sha384.digest_of_pieces [OF assms, of ds] by (auto simp: feed_total)
  moreover have "fst (SHA384_Finish c) = s512_zero" for c
    by (simp add: SHA384_Finish_def Let_def)
  ultimately show ?thesis by (metis prod.collapse)
qed

lemma sha384_digest_of_pieces_witness:
  "snd (SHA384_Finish (foldl SHA384_Update (SHA384_Init s512_zero) [[0x61, 0x62], [0x63]])) =
    [0xcb, 0x00, 0x75, 0x3f, 0x45, 0xa3, 0x5e, 0x8b, 0xb5, 0xa0, 0x3d, 0x69, 0x9a, 0xc6,
     0x50, 0x07, 0x27, 0x2c, 0x32, 0xab, 0x0e, 0xde, 0xd1, 0x63, 0x1a, 0x8b, 0x60, 0x5a,
     0x43, 0xff, 0x5b, 0xed, 0x80, 0x86, 0x07, 0x2b, 0xa1, 0xe7, 0xcc, 0x23, 0x58, 0xba,
     0xec, 0xa1, 0x34, 0xc8, 0x25, 0xa7]"
  using sha384_digest_of_pieces [OF s512_wf_zero, of "[[0x61, 0x62], [0x63]]"]
  by (simp add: sha384_spec_def sha512_hash_abc bytes_be64_def bytes_le64_def bytes_le32_def)

text \<open>The rolled and the unrolled transform of SHA-512 change the context in the same way.\<close>

theorem SHA512_Transform_unrolled_eq:
  assumes "length (s512_state c) = 8"
  shows "SHA512_Transform_unrolled c data = SHA512_Transform c data"
  using assms by (simp add: SHA512_Transform_unrolled_def SHA512_Transform_def sha2_unrolled_eq_rolled)

lemma SHA512_Transform_unrolled_eq_witness:
  "SHA512_Transform_unrolled s512_zero (replicate 128 0) = SHA512_Transform s512_zero (replicate 128 0)"
  by (rule SHA512_Transform_unrolled_eq) (simp add: s512_zero_def)

text \<open>The macro \<open>ADDINC128\<close> adds to a 128-bit number in two 64-bit words, the carry found by
  comparing the new low word with the increment.\<close>

theorem ADDINC128_adds:
  fixes w :: "u64 list" and n :: u64
  defines "v \<equiv> ADDINC128 w n"
  shows "unat (v ! 0) + 2 ^ 64 * unat (v ! 1) = (unat (w ! 0) + 2 ^ 64 * unat (w ! 1) + unat n) mod 2 ^ 128"
proof -
  have u: "unat (x :: u64) < 2 ^ 64" for x using unsigned_less [of x, where 'a = nat] by simp
  have c: "unat (if w ! 0 + n < n then 1 else 0 :: u64) =
      (if (unat (w ! 0) + unat n) mod 2 ^ 64 < unat n then 1 else 0)"
    by (simp add: word_less_nat_alt unat_word_ariths)
  have v: "v ! 0 = w ! 0 + n" "v ! 1 = w ! 1 + (if w ! 0 + n < n then 1 else 0)"
    by (simp_all add: v_def ADDINC128_def Let_def)
  have "unat (v ! 0) + 2 ^ 64 * unat (v ! 1) = (unat (w ! 0) + unat n) mod 2 ^ 64 + 2 ^ 64 *
      ((unat (w ! 1) + 0 + (if (unat (w ! 0) + unat n) mod 2 ^ 64 < unat n then 1 else 0)) mod 2 ^ 64)"
    unfolding v by (simp only: unat_word_ariths(1) c) simp
  also have "\<dots> = (unat (w ! 0) + 2 ^ 64 * unat (w ! 1) + unat n + 2 ^ 64 * 0) mod (2 ^ 64 * 2 ^ 64)"
    by (rule carry_add [OF u u])
  finally show ?thesis by simp
qed

end
