(* ===== verification/Rmd160.thy ===== *)
theory Rmd160
  imports Digest_Stream Digest_Unroll
begin

text \<open>
  RIPEMD-160 (\<open>lib/ext/digest/rmd160/rmd160.c\<close>). \<open>RMD160_Transform\<close> runs two lines of eighty
  macro calls over the same sixteen words. The context counts bytes, not bits; its carry into
  \<open>length[1]\<close> never happens because the overflow test is evaluated in \<open>size_t\<close>, so the
  digests are right for messages below \<open>2^32\<close> bytes. \<open>RMD160_Update\<close> indexes its input with a
  \<open>uint32_t\<close> and is a partial function.
\<close>

section \<open>The block function\<close>

definition ROL :: "u32 \<Rightarrow> nat \<Rightarrow> u32" where
  "ROL x n = push_bit n x OR drop_bit (32 - n) x"

definition rmd_F :: "u32 \<Rightarrow> u32 \<Rightarrow> u32 \<Rightarrow> u32" where
  "rmd_F x y z = x XOR y XOR z"

definition rmd_G :: "u32 \<Rightarrow> u32 \<Rightarrow> u32 \<Rightarrow> u32" where
  "rmd_G x y z = (x AND y) OR (NOT x AND z)"

definition rmd_H :: "u32 \<Rightarrow> u32 \<Rightarrow> u32 \<Rightarrow> u32" where
  "rmd_H x y z = (x OR NOT y) XOR z"

definition rmd_I :: "u32 \<Rightarrow> u32 \<Rightarrow> u32 \<Rightarrow> u32" where
  "rmd_I x y z = (x AND z) OR (y AND NOT z)"

definition rmd_J :: "u32 \<Rightarrow> u32 \<Rightarrow> u32 \<Rightarrow> u32" where
  "rmd_J x y z = x XOR (y OR NOT z)"

text \<open>What the ten macros have in common: \<open>a += f (b, c, d) + x + k; a = ROL (a, s) + e; c = ROL (c, 10)\<close>,
  on registers named by their index.\<close>

definition rmd_op ::
  "nat \<Rightarrow> nat \<Rightarrow> nat \<Rightarrow> nat \<Rightarrow> nat \<Rightarrow> nat \<Rightarrow> (u32 \<Rightarrow> u32 \<Rightarrow> u32 \<Rightarrow> u32) \<Rightarrow> u32 list \<Rightarrow> u32 list" where
  "rmd_op a b c d e s add r =
     (let r = r[a := r ! a + add (r ! b) (r ! c) (r ! d)];
          r = r[a := ROL (r ! a) s + r ! e]
      in r[c := ROL (r ! c) 10])"

type_synonym rmd_macro =
  "nat \<Rightarrow> nat \<Rightarrow> nat \<Rightarrow> nat \<Rightarrow> nat \<Rightarrow> u32 \<Rightarrow> nat \<Rightarrow> u32 list \<Rightarrow> u32 list"

definition rmd_FF :: rmd_macro where
  "rmd_FF a b c d e x s = rmd_op a b c d e s (\<lambda>y z w. rmd_F y z w + x)"

definition rmd_GG :: rmd_macro where
  "rmd_GG a b c d e x s = rmd_op a b c d e s (\<lambda>y z w. rmd_G y z w + x + 0x5a827999)"

definition rmd_HH :: rmd_macro where
  "rmd_HH a b c d e x s = rmd_op a b c d e s (\<lambda>y z w. rmd_H y z w + x + 0x6ed9eba1)"

definition rmd_II :: rmd_macro where
  "rmd_II a b c d e x s = rmd_op a b c d e s (\<lambda>y z w. rmd_I y z w + x + 0x8f1bbcdc)"

definition rmd_JJ :: rmd_macro where
  "rmd_JJ a b c d e x s = rmd_op a b c d e s (\<lambda>y z w. rmd_J y z w + x + 0xa953fd4e)"

definition rmd_FFF :: rmd_macro where
  "rmd_FFF a b c d e x s = rmd_op a b c d e s (\<lambda>y z w. rmd_F y z w + x)"

definition rmd_GGG :: rmd_macro where
  "rmd_GGG a b c d e x s = rmd_op a b c d e s (\<lambda>y z w. rmd_G y z w + x + 0x7a6d76e9)"

definition rmd_HHH :: rmd_macro where
  "rmd_HHH a b c d e x s = rmd_op a b c d e s (\<lambda>y z w. rmd_H y z w + x + 0x6d703ef3)"

definition rmd_III :: rmd_macro where
  "rmd_III a b c d e x s = rmd_op a b c d e s (\<lambda>y z w. rmd_I y z w + x + 0x5c4dd124)"

definition rmd_JJJ :: rmd_macro where
  "rmd_JJJ a b c d e x s = rmd_op a b c d e s (\<lambda>y z w. rmd_J y z w + x + 0x50a28be6)"

abbreviation (input) ra :: nat where "ra \<equiv> 0"
abbreviation (input) rb :: nat where "rb \<equiv> 1"
abbreviation (input) rc :: nat where "rc \<equiv> 2"
abbreviation (input) rd :: nat where "rd \<equiv> 3"
abbreviation (input) re :: nat where "re \<equiv> 4"

definition rmd_round1 :: "u32 list \<Rightarrow> (u32 list \<Rightarrow> u32 list) list" where
  "rmd_round1 block =
    [rmd_FF ra rb rc rd re (block ! 0) 11, rmd_FF re ra rb rc rd (block ! 1) 14,
     rmd_FF rd re ra rb rc (block ! 2) 15, rmd_FF rc rd re ra rb (block ! 3) 12,
     rmd_FF rb rc rd re ra (block ! 4) 5, rmd_FF ra rb rc rd re (block ! 5) 8,
     rmd_FF re ra rb rc rd (block ! 6) 7, rmd_FF rd re ra rb rc (block ! 7) 9,
     rmd_FF rc rd re ra rb (block ! 8) 11, rmd_FF rb rc rd re ra (block ! 9) 13,
     rmd_FF ra rb rc rd re (block ! 10) 14, rmd_FF re ra rb rc rd (block ! 11) 15,
     rmd_FF rd re ra rb rc (block ! 12) 6, rmd_FF rc rd re ra rb (block ! 13) 7,
     rmd_FF rb rc rd re ra (block ! 14) 9, rmd_FF ra rb rc rd re (block ! 15) 8]"

definition rmd_round2 :: "u32 list \<Rightarrow> (u32 list \<Rightarrow> u32 list) list" where
  "rmd_round2 block =
    [rmd_GG re ra rb rc rd (block ! 7) 7, rmd_GG rd re ra rb rc (block ! 4) 6,
     rmd_GG rc rd re ra rb (block ! 13) 8, rmd_GG rb rc rd re ra (block ! 1) 13,
     rmd_GG ra rb rc rd re (block ! 10) 11, rmd_GG re ra rb rc rd (block ! 6) 9,
     rmd_GG rd re ra rb rc (block ! 15) 7, rmd_GG rc rd re ra rb (block ! 3) 15,
     rmd_GG rb rc rd re ra (block ! 12) 7, rmd_GG ra rb rc rd re (block ! 0) 12,
     rmd_GG re ra rb rc rd (block ! 9) 15, rmd_GG rd re ra rb rc (block ! 5) 9,
     rmd_GG rc rd re ra rb (block ! 2) 11, rmd_GG rb rc rd re ra (block ! 14) 7,
     rmd_GG ra rb rc rd re (block ! 11) 13, rmd_GG re ra rb rc rd (block ! 8) 12]"

definition rmd_round3 :: "u32 list \<Rightarrow> (u32 list \<Rightarrow> u32 list) list" where
  "rmd_round3 block =
    [rmd_HH rd re ra rb rc (block ! 3) 11, rmd_HH rc rd re ra rb (block ! 10) 13,
     rmd_HH rb rc rd re ra (block ! 14) 6, rmd_HH ra rb rc rd re (block ! 4) 7,
     rmd_HH re ra rb rc rd (block ! 9) 14, rmd_HH rd re ra rb rc (block ! 15) 9,
     rmd_HH rc rd re ra rb (block ! 8) 13, rmd_HH rb rc rd re ra (block ! 1) 15,
     rmd_HH ra rb rc rd re (block ! 2) 14, rmd_HH re ra rb rc rd (block ! 7) 8,
     rmd_HH rd re ra rb rc (block ! 0) 13, rmd_HH rc rd re ra rb (block ! 6) 6,
     rmd_HH rb rc rd re ra (block ! 13) 5, rmd_HH ra rb rc rd re (block ! 11) 12,
     rmd_HH re ra rb rc rd (block ! 5) 7, rmd_HH rd re ra rb rc (block ! 12) 5]"

definition rmd_round4 :: "u32 list \<Rightarrow> (u32 list \<Rightarrow> u32 list) list" where
  "rmd_round4 block =
    [rmd_II rc rd re ra rb (block ! 1) 11, rmd_II rb rc rd re ra (block ! 9) 12,
     rmd_II ra rb rc rd re (block ! 11) 14, rmd_II re ra rb rc rd (block ! 10) 15,
     rmd_II rd re ra rb rc (block ! 0) 14, rmd_II rc rd re ra rb (block ! 8) 15,
     rmd_II rb rc rd re ra (block ! 12) 9, rmd_II ra rb rc rd re (block ! 4) 8,
     rmd_II re ra rb rc rd (block ! 13) 9, rmd_II rd re ra rb rc (block ! 3) 14,
     rmd_II rc rd re ra rb (block ! 7) 5, rmd_II rb rc rd re ra (block ! 15) 6,
     rmd_II ra rb rc rd re (block ! 14) 8, rmd_II re ra rb rc rd (block ! 5) 6,
     rmd_II rd re ra rb rc (block ! 6) 5, rmd_II rc rd re ra rb (block ! 2) 12]"

definition rmd_round5 :: "u32 list \<Rightarrow> (u32 list \<Rightarrow> u32 list) list" where
  "rmd_round5 block =
    [rmd_JJ rb rc rd re ra (block ! 4) 9, rmd_JJ ra rb rc rd re (block ! 0) 15,
     rmd_JJ re ra rb rc rd (block ! 5) 5, rmd_JJ rd re ra rb rc (block ! 9) 11,
     rmd_JJ rc rd re ra rb (block ! 7) 6, rmd_JJ rb rc rd re ra (block ! 12) 8,
     rmd_JJ ra rb rc rd re (block ! 2) 13, rmd_JJ re ra rb rc rd (block ! 10) 12,
     rmd_JJ rd re ra rb rc (block ! 14) 5, rmd_JJ rc rd re ra rb (block ! 1) 12,
     rmd_JJ rb rc rd re ra (block ! 3) 13, rmd_JJ ra rb rc rd re (block ! 8) 14,
     rmd_JJ re ra rb rc rd (block ! 11) 11, rmd_JJ rd re ra rb rc (block ! 6) 8,
     rmd_JJ rc rd re ra rb (block ! 15) 5, rmd_JJ rb rc rd re ra (block ! 13) 6]"

definition rmd_parallel1 :: "u32 list \<Rightarrow> (u32 list \<Rightarrow> u32 list) list" where
  "rmd_parallel1 block =
    [rmd_JJJ ra rb rc rd re (block ! 5) 8, rmd_JJJ re ra rb rc rd (block ! 14) 9,
     rmd_JJJ rd re ra rb rc (block ! 7) 9, rmd_JJJ rc rd re ra rb (block ! 0) 11,
     rmd_JJJ rb rc rd re ra (block ! 9) 13, rmd_JJJ ra rb rc rd re (block ! 2) 15,
     rmd_JJJ re ra rb rc rd (block ! 11) 15, rmd_JJJ rd re ra rb rc (block ! 4) 5,
     rmd_JJJ rc rd re ra rb (block ! 13) 7, rmd_JJJ rb rc rd re ra (block ! 6) 7,
     rmd_JJJ ra rb rc rd re (block ! 15) 8, rmd_JJJ re ra rb rc rd (block ! 8) 11,
     rmd_JJJ rd re ra rb rc (block ! 1) 14, rmd_JJJ rc rd re ra rb (block ! 10) 14,
     rmd_JJJ rb rc rd re ra (block ! 3) 12, rmd_JJJ ra rb rc rd re (block ! 12) 6]"

definition rmd_parallel2 :: "u32 list \<Rightarrow> (u32 list \<Rightarrow> u32 list) list" where
  "rmd_parallel2 block =
    [rmd_III re ra rb rc rd (block ! 6) 9, rmd_III rd re ra rb rc (block ! 11) 13,
     rmd_III rc rd re ra rb (block ! 3) 15, rmd_III rb rc rd re ra (block ! 7) 7,
     rmd_III ra rb rc rd re (block ! 0) 12, rmd_III re ra rb rc rd (block ! 13) 8,
     rmd_III rd re ra rb rc (block ! 5) 9, rmd_III rc rd re ra rb (block ! 10) 11,
     rmd_III rb rc rd re ra (block ! 14) 7, rmd_III ra rb rc rd re (block ! 15) 7,
     rmd_III re ra rb rc rd (block ! 8) 12, rmd_III rd re ra rb rc (block ! 12) 7,
     rmd_III rc rd re ra rb (block ! 4) 6, rmd_III rb rc rd re ra (block ! 9) 15,
     rmd_III ra rb rc rd re (block ! 1) 13, rmd_III re ra rb rc rd (block ! 2) 11]"

definition rmd_parallel3 :: "u32 list \<Rightarrow> (u32 list \<Rightarrow> u32 list) list" where
  "rmd_parallel3 block =
    [rmd_HHH rd re ra rb rc (block ! 15) 9, rmd_HHH rc rd re ra rb (block ! 5) 7,
     rmd_HHH rb rc rd re ra (block ! 1) 15, rmd_HHH ra rb rc rd re (block ! 3) 11,
     rmd_HHH re ra rb rc rd (block ! 7) 8, rmd_HHH rd re ra rb rc (block ! 14) 6,
     rmd_HHH rc rd re ra rb (block ! 6) 6, rmd_HHH rb rc rd re ra (block ! 9) 14,
     rmd_HHH ra rb rc rd re (block ! 11) 12, rmd_HHH re ra rb rc rd (block ! 8) 13,
     rmd_HHH rd re ra rb rc (block ! 12) 5, rmd_HHH rc rd re ra rb (block ! 2) 14,
     rmd_HHH rb rc rd re ra (block ! 10) 13, rmd_HHH ra rb rc rd re (block ! 0) 13,
     rmd_HHH re ra rb rc rd (block ! 4) 7, rmd_HHH rd re ra rb rc (block ! 13) 5]"

definition rmd_parallel4 :: "u32 list \<Rightarrow> (u32 list \<Rightarrow> u32 list) list" where
  "rmd_parallel4 block =
    [rmd_GGG rc rd re ra rb (block ! 8) 15, rmd_GGG rb rc rd re ra (block ! 6) 5,
     rmd_GGG ra rb rc rd re (block ! 4) 8, rmd_GGG re ra rb rc rd (block ! 1) 11,
     rmd_GGG rd re ra rb rc (block ! 3) 14, rmd_GGG rc rd re ra rb (block ! 11) 14,
     rmd_GGG rb rc rd re ra (block ! 15) 6, rmd_GGG ra rb rc rd re (block ! 0) 14,
     rmd_GGG re ra rb rc rd (block ! 5) 6, rmd_GGG rd re ra rb rc (block ! 12) 9,
     rmd_GGG rc rd re ra rb (block ! 2) 12, rmd_GGG rb rc rd re ra (block ! 13) 9,
     rmd_GGG ra rb rc rd re (block ! 9) 12, rmd_GGG re ra rb rc rd (block ! 7) 5,
     rmd_GGG rd re ra rb rc (block ! 10) 15, rmd_GGG rc rd re ra rb (block ! 14) 8]"

definition rmd_parallel5 :: "u32 list \<Rightarrow> (u32 list \<Rightarrow> u32 list) list" where
  "rmd_parallel5 block =
    [rmd_FFF rb rc rd re ra (block ! 12) 8, rmd_FFF ra rb rc rd re (block ! 15) 5,
     rmd_FFF re ra rb rc rd (block ! 10) 12, rmd_FFF rd re ra rb rc (block ! 4) 9,
     rmd_FFF rc rd re ra rb (block ! 1) 12, rmd_FFF rb rc rd re ra (block ! 5) 5,
     rmd_FFF ra rb rc rd re (block ! 8) 14, rmd_FFF re ra rb rc rd (block ! 7) 6,
     rmd_FFF rd re ra rb rc (block ! 6) 8, rmd_FFF rc rd re ra rb (block ! 2) 13,
     rmd_FFF rb rc rd re ra (block ! 13) 6, rmd_FFF ra rb rc rd re (block ! 14) 5,
     rmd_FFF re ra rb rc rd (block ! 0) 15, rmd_FFF rd re ra rb rc (block ! 3) 13,
     rmd_FFF rc rd re ra rb (block ! 9) 11, rmd_FFF rb rc rd re ra (block ! 11) 11]"

definition RMD160_Transform :: "u32 list \<Rightarrow> u32 list \<Rightarrow> u32 list" where
  "RMD160_Transform st block =
     (let start = [st ! 0, st ! 1, st ! 2, st ! 3, st ! 4];
          l = foldl (\<lambda>r call. call r) start (rmd_round1 block @ rmd_round2 block @
                rmd_round3 block @ rmd_round4 block @ rmd_round5 block);
          p = foldl (\<lambda>r call. call r) start (rmd_parallel1 block @ rmd_parallel2 block @
                rmd_parallel3 block @ rmd_parallel4 block @ rmd_parallel5 block);
          ddd = p ! rd + (l ! rc + st ! 1)
      in [ddd, st ! 2 + l ! rd + p ! re, st ! 3 + l ! re + p ! ra, st ! 4 + l ! ra + p ! rb,
          st ! 0 + l ! rb + p ! rc])"

section \<open>The context operations\<close>

record RMD160_CTX =
  rmd_state :: "u32 list"
  rmd_length :: "u32 list"
  rmd_bbuffer :: "u8 list"
  rmd_buflen :: u32

definition rmd_iv :: "u32 list" where
  "rmd_iv = [0x67452301, 0xefcdab89, 0x98badcfe, 0x10325476, 0xc3d2e1f0]"

definition RMD160_Init :: "RMD160_CTX \<Rightarrow> RMD160_CTX" where
  "RMD160_Init context = context\<lparr>rmd_state := rmd_iv, rmd_length := [0, 0], rmd_buflen := 0\<rparr>"

text \<open>The loop over the remaining complete blocks; \<open>64 * i\<close> is computed in 32 bits.\<close>

partial_function (option) rmd_full_blocks ::
  "u32 list \<Rightarrow> u8 list \<Rightarrow> u32 \<Rightarrow> u64 \<Rightarrow> u32 \<Rightarrow> (u32 list \<times> u32) option" where
  "rmd_full_blocks st data ofs nbytes i =
     (if (ucast i :: u64) < drop_bit 6 nbytes
      then rmd_full_blocks (RMD160_Transform st (words32 (take 64 (drop (unat (64 * i) + unat ofs) data))))
             data ofs nbytes (i + 1)
      else Some (st, i))"

definition RMD160_Update :: "RMD160_CTX \<Rightarrow> u8 list \<Rightarrow> RMD160_CTX option" where
  "RMD160_Update context data =
     (let nbytes = of_nat (length data) :: u64;
          len0 = rmd_length context ! 0;
          len1 = (if (ucast len0 :: u64) + nbytes < ucast len0
                  then rmd_length context ! 1 + 1 else rmd_length context ! 1);
          context = context\<lparr>rmd_length := [ucast (ucast len0 + nbytes), len1]\<rparr>;
          buflen = rmd_buflen context
      in if ucast buflen + nbytes < 64 then
           Some (context\<lparr>rmd_bbuffer := put_at (rmd_bbuffer context) (unat buflen) data,
                         rmd_buflen := ucast (ucast buflen + nbytes)\<rparr>)
         else
           let ofs = 64 - buflen;
               bbuffer = put_at (rmd_bbuffer context) (unat buflen) (take (unat ofs) data);
               st = RMD160_Transform (rmd_state context) (words32 bbuffer);
               nbytes = nbytes - ucast ofs
           in Option.bind (rmd_full_blocks st data ofs nbytes 0) (\<lambda>(st, i).
                let buflen = ucast (nbytes AND 63)
                in Some (context\<lparr>rmd_state := st, rmd_buflen := buflen,
                     rmd_bbuffer := put_at bbuffer 0
                       (take (unat buflen) (drop (unat (64 * i) + unat ofs) data))\<rparr>)))"

definition RMD160_Finish :: "RMD160_CTX \<Rightarrow> RMD160_CTX \<times> u8 list" where
  "RMD160_Finish context =
     (let buflen = unat (rmd_buflen context);
          context = context\<lparr>rmd_bbuffer := put_at (rmd_bbuffer context) buflen [0x80]\<rparr>;
          context = context\<lparr>rmd_bbuffer := put_at (rmd_bbuffer context) (buflen + 1) (replicate (63 - buflen) 0)\<rparr>;
          X = words32 (rmd_bbuffer context);
          (context, X) = (if buflen > 55
             then (context\<lparr>rmd_state := RMD160_Transform (rmd_state context) X\<rparr>, replicate 16 0)
             else (context, X));
          X = X[14 := push_bit 3 (rmd_length context ! 0)];
          X = X[15 := drop_bit 29 (rmd_length context ! 0) OR push_bit 3 (rmd_length context ! 1)];
          context = context\<lparr>rmd_state := RMD160_Transform (rmd_state context) X\<rparr>
      in (context, map (\<lambda>i. ucast (drop_bit (8 * (i mod 4)) (rmd_state context ! (i div 4)))) [0..<20]))"

section \<open>RIPEMD-160 for one block\<close>

text \<open>The published order of the message words: a permutation applied once more in every round, to
  the identity on the left line and to \<open>9 i + 5\<close> on the right one. The shifts of a round belong
  to the message words and are the same for both lines.\<close>

definition rho :: "nat \<Rightarrow> nat" where
  "rho i = [7, 4, 13, 1, 10, 6, 15, 3, 12, 0, 9, 5, 2, 14, 11, 8] ! i"

definition rmd_word_left :: "nat \<Rightarrow> nat" where
  "rmd_word_left t = (rho ^^ (t div 16)) (t mod 16)"

definition rmd_word_right :: "nat \<Rightarrow> nat" where
  "rmd_word_right t = (rho ^^ (t div 16)) ((9 * (t mod 16) + 5) mod 16)"

definition rmd_shifts :: "nat list list" where
  "rmd_shifts =
    [[11, 14, 15, 12, 5, 8, 7, 9, 11, 13, 14, 15, 6, 7, 9, 8],
     [12, 13, 11, 15, 6, 9, 9, 7, 12, 15, 11, 13, 7, 8, 7, 7],
     [13, 15, 14, 11, 7, 7, 6, 8, 13, 14, 13, 12, 5, 5, 6, 9],
     [14, 11, 12, 14, 8, 6, 5, 5, 15, 12, 15, 14, 9, 9, 8, 6],
     [15, 12, 13, 13, 9, 5, 8, 6, 14, 11, 12, 11, 8, 6, 5, 5]]"

definition rmd_fun_left :: "nat \<Rightarrow> u32 \<Rightarrow> u32 \<Rightarrow> u32 \<Rightarrow> u32" where
  "rmd_fun_left t = [rmd_F, rmd_G, rmd_H, rmd_I, rmd_J] ! (t div 16)"

definition rmd_fun_right :: "nat \<Rightarrow> u32 \<Rightarrow> u32 \<Rightarrow> u32 \<Rightarrow> u32" where
  "rmd_fun_right t = [rmd_J, rmd_I, rmd_H, rmd_G, rmd_F] ! (t div 16)"

definition rmd_K_left :: "nat \<Rightarrow> u32" where
  "rmd_K_left t = [0, 0x5a827999, 0x6ed9eba1, 0x8f1bbcdc, 0xa953fd4e] ! (t div 16)"

definition rmd_K_right :: "nat \<Rightarrow> u32" where
  "rmd_K_right t = [0x50a28be6, 0x5c4dd124, 0x6d703ef3, 0x7a6d76e9, 0] ! (t div 16)"

definition rmd_step ::
  "(u32 \<Rightarrow> u32 \<Rightarrow> u32 \<Rightarrow> u32) \<Rightarrow> u32 \<Rightarrow> u32 \<Rightarrow> nat \<Rightarrow> u32 list \<Rightarrow> u32 list" where
  "rmd_step f x k s v =
     [v ! 4, ROL (v ! 0 + f (v ! 1) (v ! 2) (v ! 3) + x + k) s + v ! 4, v ! 1, ROL (v ! 2) 10, v ! 3]"

definition rmd_left :: "u32 list \<Rightarrow> u32 list \<Rightarrow> nat \<Rightarrow> u32 list" where
  "rmd_left X v t = rmd_step (rmd_fun_left t) (X ! rmd_word_left t) (rmd_K_left t)
     (rmd_shifts ! (t div 16) ! rmd_word_left t) v"

definition rmd_right :: "u32 list \<Rightarrow> u32 list \<Rightarrow> nat \<Rightarrow> u32 list" where
  "rmd_right X v t = rmd_step (rmd_fun_right t) (X ! rmd_word_right t) (rmd_K_right t)
     (rmd_shifts ! (t div 16) ! rmd_word_right t) v"

definition rmd_compress :: "u32 list \<Rightarrow> u32 list \<Rightarrow> u32 list" where
  "rmd_compress st X =
     (let l = foldl (rmd_left X) st [0..<80]; p = foldl (rmd_right X) st [0..<80]
      in map (\<lambda>i. st ! ((i + 1) mod 5) + l ! ((i + 2) mod 5) + p ! ((i + 3) mod 5)) [0..<5])"

section \<open>The two lines compute it\<close>

definition rmd_call ::
  "(nat \<Rightarrow> u32 \<Rightarrow> u32 \<Rightarrow> u32 \<Rightarrow> u32) \<Rightarrow> (nat \<Rightarrow> u32) \<Rightarrow> (nat \<Rightarrow> nat) \<Rightarrow> u32 list \<Rightarrow> nat \<Rightarrow> u32 list \<Rightarrow> u32 list" where
  "rmd_call f k w X t = rmd_op (4 * t mod 5) ((4 * t + 1) mod 5) ((4 * t + 2) mod 5) ((4 * t + 3) mod 5)
     ((4 * t + 4) mod 5) (rmd_shifts ! (t div 16) ! w t) (\<lambda>y z u. f t y z u + X ! w t + k t)"

lemmas rmd_macro_defs = rmd_FF_def rmd_GG_def rmd_HH_def rmd_II_def rmd_JJ_def
  rmd_FFF_def rmd_GGG_def rmd_HHH_def rmd_III_def rmd_JJJ_def

lemma funpow_small: "f ^^ 2 = f \<circ> f" "f ^^ 3 = f \<circ> f \<circ> f" "f ^^ 4 = f \<circ> f \<circ> f \<circ> f"
  by (simp_all add: numeral_eq_Suc fun_eq_iff)

lemma rmd_left_program:
  "rmd_round1 X @ rmd_round2 X @ rmd_round3 X @ rmd_round4 X @ rmd_round5 X =
     map (rmd_call rmd_fun_left rmd_K_left rmd_word_left X) [0..<80]"
  by (simp add: rmd_round1_def rmd_round2_def rmd_round3_def rmd_round4_def rmd_round5_def upt_80
      rmd_call_def rmd_macro_defs rmd_fun_left_def rmd_K_left_def funpow_small
      rmd_word_left_def rmd_shifts_def rho_def numeral_2_eq_2 [symmetric])

lemma rmd_right_program:
  "rmd_parallel1 X @ rmd_parallel2 X @ rmd_parallel3 X @ rmd_parallel4 X @ rmd_parallel5 X =
     map (rmd_call rmd_fun_right rmd_K_right rmd_word_right X) [0..<80]"
  by (simp add: rmd_parallel1_def rmd_parallel2_def rmd_parallel3_def rmd_parallel4_def rmd_parallel5_def upt_80
      rmd_call_def rmd_macro_defs rmd_fun_right_def rmd_K_right_def funpow_small
      rmd_word_right_def rmd_shifts_def rho_def numeral_2_eq_2 [symmetric])

definition rmd_inplace ::
  "(nat \<Rightarrow> u32 \<Rightarrow> u32 \<Rightarrow> u32 \<Rightarrow> u32) \<Rightarrow> (nat \<Rightarrow> u32) \<Rightarrow> (nat \<Rightarrow> nat) \<Rightarrow> u32 list \<Rightarrow>
     nat \<Rightarrow> u32 list \<times> unit \<Rightarrow> u32 list \<times> unit" where
  "rmd_inplace f k w X t s = (let v = fst s in
     (v[0 := ROL (v ! 0 + (f t (v ! 1) (v ! 2) (v ! 3) + X ! w t + k t)) (rmd_shifts ! (t div 16) ! w t) + v ! 4,
        2 := ROL (v ! 2) 10], ()))"

lemma rmd_call_unrolled:
  assumes "length regs = 5"
  shows "unrolled_step 5 (rmd_inplace f k w X) (regs, ()) t = (rmd_call f k w X t regs, ())"
proof -
  let ?rs = "roles 5 t" and ?v = "read_regs (roles 5 t) regs"
  have reads: "?v ! i = regs ! (?rs ! i)" if "i < 5" for i
    using that by (simp add: read_regs_def)
  have names: "?rs ! 0 = 4 * t mod 5" "?rs ! 1 = (4 * t + 1) mod 5" "?rs ! 2 = (4 * t + 2) mod 5"
    "?rs ! 3 = (4 * t + 3) mod 5" "?rs ! 4 = (4 * t + 4) mod 5"
    by (simp_all add: roles_5)
  have put: "write_regs ?rs (?v[0 := x, 2 := y]) regs = regs[?rs ! 0 := x, ?rs ! 2 := y]" for x y
    using assms by (intro write_regs_two) simp_all
  have bound: "?rs ! i < 5" if "i < 5" for i using that set_roles [of 5 t] nth_mem [of i ?rs] by auto
  have ne: "?rs ! a \<noteq> ?rs ! b" if "a < 5" "b < 5" "a \<noteq> b" for a b
    using that by (simp add: nth_eq_iff_index_eq)
  show ?thesis
    unfolding rmd_call_def names [symmetric]
    using assms ne [of 0 4] ne [of 0 2] bound [of 0]
    by (simp add: unrolled_step_def rmd_inplace_def Let_def reads put rmd_op_def)
qed

lemma length_rmd_op [simp]: "length (rmd_op a b c d e s f r) = length r"
  by (simp add: rmd_op_def Let_def)

lemma length_rmd_call [simp]: "length (rmd_call f k w X t r) = length r"
  by (simp add: rmd_call_def)

lemma rmd_calls_unrolled:
  "length regs = 5 \<Longrightarrow> foldl (unrolled_step 5 (rmd_inplace f k w X)) (regs, ()) ts =
     (foldl (\<lambda>r call. call r) regs (map (rmd_call f k w X) ts), ())"
  by (induction ts arbitrary: regs) (simp_all add: rmd_call_unrolled)

lemma rmd_steps_rolled:
  "length v = 5 \<Longrightarrow> foldl (rolled_step (rmd_inplace f k w X)) (v, ()) ts =
     (foldl (\<lambda>v t. rmd_step (f t) (X ! w t) (k t) (rmd_shifts ! (t div 16) ! w t) v) v ts, ())"
proof (induction ts arbitrary: v)
  case (Cons t ts)
  obtain a b c d e where v: "v = [a, b, c, d, e]"
    using Cons.prems by (auto simp: numeral_eq_Suc length_Suc_conv)
  have "rolled_step (rmd_inplace f k w X) (v, ()) t =
      (rmd_step (f t) (X ! w t) (k t) (rmd_shifts ! (t div 16) ! w t) v, ())"
    by (simp add: v rolled_step_def rmd_inplace_def rmd_step_def rotr_def add.assoc Let_def)
  with Cons show ?case by (simp add: rmd_step_def)
qed simp

lemma rmd_line:
  assumes "length st = 5"
  shows "foldl (\<lambda>r call. call r) st (map (rmd_call f k w X) [0..<80]) =
    foldl (\<lambda>v t. rmd_step (f t) (X ! w t) (k t) (rmd_shifts ! (t div 16) ! w t) v) st [0..<80]"
proof -
  have "keeps_length 5 80 (rmd_inplace f k w X)"
    by (simp add: keeps_length_def rmd_inplace_def Let_def)
  from unrolled_aligned [OF _ _ _ this, of "(st, ())"] assms show ?thesis
    by (simp add: rmd_calls_unrolled rmd_steps_rolled)
qed

lemma RMD160_Transform_eq:
  assumes "length st = 5"
  shows "RMD160_Transform st X = rmd_compress st X"
proof -
  have st: "[st ! 0, st ! 1, st ! 2, st ! 3, st ! 4] = st"
    using assms by (auto simp: numeral_eq_Suc length_Suc_conv)
  have l: "rmd_left X = (\<lambda>v t. rmd_step (rmd_fun_left t) (X ! rmd_word_left t) (rmd_K_left t)
      (rmd_shifts ! (t div 16) ! rmd_word_left t) v)"
    by (simp add: rmd_left_def fun_eq_iff)
  have r: "rmd_right X = (\<lambda>v t. rmd_step (rmd_fun_right t) (X ! rmd_word_right t) (rmd_K_right t)
      (rmd_shifts ! (t div 16) ! rmd_word_right t) v)"
    by (simp add: rmd_right_def fun_eq_iff)
  have upt: "[0..<5] = [0, 1, 2, 3, 4]" by (simp add: upt_rec)
  show ?thesis
    unfolding RMD160_Transform_def rmd_compress_def Let_def st rmd_left_program rmd_right_program
      rmd_line [OF assms] l r upt
    by (simp add: ac_simps numeral_2_eq_2 [symmetric])
qed

section \<open>The context represents the message fed so far\<close>

abbreviation rmd_fold :: "u32 list \<Rightarrow> u8 list \<Rightarrow> u32 list" where
  "rmd_fold st b \<equiv> RMD160_Transform st (words32 b)"

definition rmd_wf :: "RMD160_CTX \<Rightarrow> bool" where
  "rmd_wf c \<longleftrightarrow> length (rmd_state c) = 5 \<and> length (rmd_length c) = 2 \<and> length (rmd_bbuffer c) = 64"

definition rmd_rep :: "RMD160_CTX \<Rightarrow> u8 list \<Rightarrow> bool" where
  "rmd_rep c m \<longleftrightarrow> stream_rep 64 rmd_fold rmd_iv (rmd_state c) (rmd_bbuffer c) m \<and> rmd_wf c
     \<and> rmd_length c = [of_nat (length m), 0] \<and> unat (rmd_buflen c) = length m mod 64"

lemma rmd_rep_wf: "rmd_rep c m \<Longrightarrow> rmd_wf c"
  by (simp add: rmd_rep_def)

lemma length_RMD160_Transform [simp]: "length (RMD160_Transform st X) = 5"
  by (simp add: RMD160_Transform_def Let_def)

lemma length_foldl_rmd [simp]: "length st = 5 \<Longrightarrow> length (foldl rmd_fold st bs) = 5"
  by (induction bs arbitrary: st) simp_all

lemma rmd_rep_init: "rmd_wf c \<Longrightarrow> rmd_rep (RMD160_Init c) []"
  by (simp add: rmd_rep_def RMD160_Init_def rmd_wf_def stream_rep_init rmd_iv_def)

lemma rmd_full_blocks_eq:
  assumes D: "D = drop (unat ofs) data" "length D < 2 ^ 32"
  shows "unat i \<le> length D div 64 \<Longrightarrow>
    \<exists>k. rmd_full_blocks st data ofs (of_nat (length D)) i =
      Some (foldl rmd_fold st (blocks 64 (drop (64 * unat i) D)), k) \<and> unat k = length D div 64"
proof (induction "length D div 64 - unat i" arbitrary: st i rule: less_induct)
  case less
  let ?n = "length D"
  have n: "unat (of_nat ?n :: u64) = ?n" using D(2) by (simp add: unat_of_nat)
  have cond: "((ucast i :: u64) < drop_bit 6 (of_nat ?n)) = (unat i < ?n div 64)"
  proof -
    have "unat (drop_bit 6 (of_nat ?n :: u64)) = ?n div 64"
      by (simp only: unat_drop_bit_eq drop_bit_eq_div [where 'a = nat] n) simp
    moreover have "unat (ucast i :: u64) = unat i"
      using unat32 [of i] by (simp add: unsigned_ucast_eq take_bit_eq_mod)
    ultimately show ?thesis by (simp only: word_less_nat_alt)
  qed
  show ?case
  proof (cases "unat i < ?n div 64")
    case True
    have i64: "64 * unat i + 64 \<le> ?n" using True by linarith
    have u: "unat (64 * i) = 64 * unat i" "unat (i + 1) = unat i + 1"
      using i64 D(2) by (simp_all add: unat_word_ariths)
    let ?st = "rmd_fold st (take 64 (drop (64 * unat i) D))"
    have "\<exists>k. rmd_full_blocks ?st data ofs (of_nat ?n) (i + 1) =
        Some (foldl rmd_fold ?st (blocks 64 (drop (64 * unat (i + 1)) D)), k) \<and> unat k = ?n div 64"
      using True u by (intro less.hyps) simp_all
    moreover have "drop (64 * unat (i + 1)) D = drop 64 (drop (64 * unat i) D)"
      by (simp add: u)
    moreover have "drop (unat (64 * i) + unat ofs) data = drop (64 * unat i) D"
      by (simp add: D(1) u)
    ultimately show ?thesis
      using True i64
      by (simp add: rmd_full_blocks.simps [of st] cond blocks_step [of 64 "drop (64 * unat i) D"] del: drop_drop)
  next
    case False
    with less.prems have "unat i = ?n div 64" by simp
    moreover have "length (drop (64 * (?n div 64)) D) < 64"
      by (simp add: minus_mult_div_eq_mod)
    ultimately show ?thesis
      by (simp add: rmd_full_blocks.simps [of st] cond)
  qed
qed

lemma rest_drop: "drop (64 * (length D div 64)) D = rest 64 D"
  by (simp add: rest_def minus_mod_eq_mult_div)

lemma rmd_repI:
  "stream_rep 64 rmd_fold rmd_iv S B m \<Longrightarrow> length S = 5 \<Longrightarrow> length B = 64 \<Longrightarrow>
     unat l = length m mod 64 \<Longrightarrow>
     rmd_rep (c\<lparr>rmd_length := [of_nat (length m), 0], rmd_state := S, rmd_buflen := l, rmd_bbuffer := B\<rparr>) m"
  by (simp add: rmd_rep_def rmd_wf_def)

lemma RMD160_Update_unfold:
  "RMD160_Update c d =
     (let len0 = rmd_length c ! 0; nbytes = of_nat (length d) :: u64;
          len = [ucast (ucast len0 + nbytes),
            if ucast len0 + nbytes < ucast len0 then rmd_length c ! 1 + 1 else rmd_length c ! 1]
      in if ucast (rmd_buflen c) + nbytes < 64 then
        Some (c\<lparr>rmd_length := len, rmd_bbuffer := put_at (rmd_bbuffer c) (unat (rmd_buflen c)) d,
          rmd_buflen := ucast (ucast (rmd_buflen c) + nbytes)\<rparr>)
      else
        let ofs = 64 - rmd_buflen c;
            buf = put_at (rmd_bbuffer c) (unat (rmd_buflen c)) (take (unat ofs) d)
        in Option.bind (rmd_full_blocks (rmd_fold (rmd_state c) buf) d ofs (nbytes - ucast ofs) 0) (\<lambda>(st, i).
          Some (c\<lparr>rmd_length := len, rmd_state := st, rmd_buflen := ucast (nbytes - ucast ofs AND 63),
            rmd_bbuffer := put_at buf 0
              (take (unat (ucast (nbytes - ucast ofs AND 63) :: u32)) (drop (unat (64 * i) + unat ofs) d))\<rparr>)))"
  by (simp add: RMD160_Update_def Let_def)

lemma rmd_rep_update:
  assumes rep: "rmd_rep c m" and total: "length m + length d < 2 ^ 32"
  shows "\<exists>c'. RMD160_Update c d = Some c' \<and> rmd_rep c' (m @ d)"
proof -
  let ?r = "length m mod 64"
  from rep have wf: "length (rmd_state c) = 5" "length (rmd_length c) = 2" "length (rmd_bbuffer c) = 64"
    and str: "stream_rep 64 rmd_fold rmd_iv (rmd_state c) (rmd_bbuffer c) m"
    and len: "rmd_length c ! 0 = of_nat (length m)" "rmd_length c ! 1 = 0"
    and bl: "unat (rmd_buflen c) = ?r"
    by (simp_all add: rmd_rep_def rmd_wf_def)
  have um: "ucast (of_nat (length m) :: u32) = (of_nat (length m) :: u64)"
    using total by (simp add: word_unat_eq_iff unsigned_ucast_eq take_bit_eq_mod unat_of_nat)
  have nocarry: "\<not> (ucast (of_nat (length m) :: u32) :: u64) + of_nat (length d) < ucast (of_nat (length m) :: u32)"
    using total unfolding um
    by (simp add: word_less_nat_alt unat_word_ariths unat_of_nat)
  have newlen: "ucast (ucast (of_nat (length m) :: u32) + of_nat (length d) :: u64) = (of_nat (length (m @ d)) :: u32)"
    using total unfolding um
    by (simp add: word_unat_eq_iff unsigned_ucast_eq take_bit_eq_mod unat_word_ariths unat_of_nat)
  have sum: "unat (ucast (rmd_buflen c) + of_nat (length d) :: u64) = ?r + length d"
  proof -
    have "unat (ucast (rmd_buflen c) :: u64) = ?r"
      using unat32 [of "rmd_buflen c"] by (simp add: unsigned_ucast_eq take_bit_eq_mod bl)
    moreover have "?r < 64" by simp
    ultimately show ?thesis using total by (simp add: unat_word_ariths unat_of_nat)
  qed
  have less: "ucast (rmd_buflen c) + of_nat (length d) < (64 :: u64) \<longleftrightarrow> ?r + length d < 64"
    by (simp add: word_less_nat_alt sum)
  note [simp] = nocarry newlen len less
  show ?thesis
  proof (cases "?r + length d < 64")
    case True
    let ?c = "c\<lparr>rmd_length := [of_nat (length (m @ d)), 0], rmd_bbuffer := put_at (rmd_bbuffer c) ?r d,
        rmd_buflen := ucast (ucast (rmd_buflen c) + of_nat (length d) :: u64)\<rparr>"
    have "RMD160_Update c d = Some ?c"
      using True unfolding RMD160_Update_unfold Let_def
      by (simp only: len nocarry newlen less bl if_True if_False)
    moreover have "unat (ucast (ucast (rmd_buflen c) + of_nat (length d) :: u64) :: u32) = ?r + length d"
      using True by (simp add: unsigned_ucast_eq take_bit_eq_mod sum)
    moreover have "length (m @ d) mod 64 = ?r + length d"
      using True by (metis length_append mod_add_left_eq mod_less)
    ultimately show ?thesis
      using stream_rep_partial [OF _ str True] wf True
      by (simp add: rmd_rep_def rmd_wf_def buffer_simps)
  next
    case False
    let ?ofs = "64 - rmd_buflen c" and ?D = "drop (64 - ?r) d"
    let ?buf = "put_at (rmd_bbuffer c) ?r (take (64 - ?r) d)"
    let ?st = "rmd_fold (rmd_state c) ?buf"
    have ofs: "unat ?ofs = 64 - ?r"
      using bl by (simp add: unat_sub word_le_nat_alt less_imp_le)
    have D: "length ?D = length d - (64 - ?r)" by simp
    have "unat (ucast ?ofs :: u64) = 64 - ?r"
      using unat32 [of ?ofs] by (simp only: unsigned_ucast_eq take_bit_eq_mod ofs) simp
    then have "ucast ?ofs = (of_nat (64 - ?r) :: u64)"
      by (rule word_of_unat)
    moreover have "64 - ?r \<le> length d" using False by simp
    ultimately have nb: "of_nat (length d) - ucast ?ofs = (of_nat (length ?D) :: u64)"
      by (simp only: D of_nat_diff)
    have buf: "length ?buf = 64" using False wf by (simp add: buffer_simps)
    have "length ?D < 2 ^ 32" using total by simp
    from rmd_full_blocks_eq [OF _ this, of ?ofs d 0 ?st] ofs
    obtain k where k: "rmd_full_blocks ?st d ?ofs (of_nat (length ?D)) 0 =
        Some (foldl rmd_fold ?st (blocks 64 ?D), k)" "unat k = length ?D div 64"
      by auto
    have "64 * unat k \<le> length ?D" using k(2) by simp
    then have k64: "unat (64 * k) = 64 * unat k"
      using total by (simp add: unat_word_ariths)
    have left: "unat (ucast (of_nat (length ?D) AND 63 :: u64) :: u32) = length ?D mod 64"
    proof -
      have "unat (of_nat (length ?D) AND 63 :: u64) = length ?D mod 64"
        using unat_and_mask [of "of_nat (length ?D) :: u64" 6] total
        by (simp add: mask_eq_exp_minus_1 unat_of_nat mod_mod_cancel del: length_drop)
      then show ?thesis by (simp add: unsigned_ucast_eq take_bit_eq_mod del: length_drop)
    qed
    have "drop (unat (64 * k) + unat ?ofs) d = rest 64 ?D"
      using rest_drop [of ?D] by (simp add: k64 k(2) ofs)
    then have rest: "take (unat (ucast (of_nat (length ?D) AND 63 :: u64) :: u32))
        (drop (unat (64 * k) + (64 - ?r)) d) = rest 64 ?D"
      by (simp only: left ofs) simp
    let ?c = "c\<lparr>rmd_length := [of_nat (length (m @ d)), 0], rmd_state := foldl rmd_fold ?st (blocks 64 ?D),
        rmd_buflen := ucast (of_nat (length ?D) AND 63 :: u64), rmd_bbuffer := put_at ?buf 0 (rest 64 ?D)\<rparr>"
    have "RMD160_Update c d = Some ?c"
      using False unfolding RMD160_Update_unfold Let_def
      by (simp only: len nocarry newlen less bl nb ofs k(1) if_True if_False bind.simps prod.case rest)
    moreover have "stream_rep 64 rmd_fold rmd_iv (foldl rmd_fold ?st (blocks 64 ?D))
        (put_at ?buf 0 (rest 64 ?D)) (m @ d)"
      using False buf by (intro stream_rep_fill [OF _ str refl]) (simp_all add: buffer_simps less_imp_le)
    moreover have "length ?D mod 64 = length (m @ d) mod 64"
    proof -
      have "?r + length d = 64 + length ?D" using False by (simp add: D)
      then have "(?r + length d) mod 64 = length ?D mod 64" by (simp only: mod_add_self1)
      then show ?thesis by (simp only: mod_add_left_eq length_append)
    qed
    with left have left: "unat (ucast (of_nat (length ?D) AND 63 :: u64) :: u32) = length (m @ d) mod 64"
      by (simp only:)
    moreover have "length (put_at ?buf 0 (rest 64 ?D)) = 64"
      using buf by (simp add: length_put_at less_imp_le)
    moreover have "length (foldl rmd_fold ?st (blocks 64 ?D)) = 5" by simp
    ultimately have "rmd_rep ?c (m @ d)"
      by (intro rmd_repI)
    with \<open>RMD160_Update c d = Some ?c\<close> show ?thesis by blast
  qed
qed

section \<open>RMD160_Finish\<close>

definition rmd_block :: "u32 list \<Rightarrow> u8 list \<Rightarrow> u32 list" where
  "rmd_block st data = rmd_compress st (words32 data)"

definition rmd_padded :: "u8 list \<Rightarrow> u8 list" where
  "rmd_padded m = m @ md_pad 64 8 (length m) @ bytes_le64 (of_nat (8 * length m))"

definition rmd_spec :: "u8 list \<Rightarrow> u8 list" where
  "rmd_spec m = concat (map bytes_le32 (foldl rmd_block rmd_iv (blocks 64 (rmd_padded m))))"

lemma rmd_foldl_eq:
  "length st = 5 \<Longrightarrow> foldl rmd_fold st bs = foldl rmd_block st bs"
proof (induction bs arbitrary: st)
  case (Cons b bs)
  then show ?case
    using RMD160_Transform_eq [of st "words32 b"] length_RMD160_Transform [of st "words32 b"]
    by (simp add: rmd_block_def)
qed simp

text \<open>The two length words replace the last eight bytes of the block.\<close>

lemma words32_length_field:
  assumes "length b = 64" "length L0 = 4" "length L1 = 4"
  shows "(words32 b)[14 := le32 L0, 15 := le32 L1] = words32 (take 56 b @ L0 @ L1)"
proof (rule nth_equalityI)
  fix i assume "i < length ((words32 b)[14 := le32 L0, 15 := le32 L1])"
  then have i: "i < 16" by simp
  consider "i < 14" | "i = 14" | "i = 15" using i by linarith
  then show "(words32 b)[14 := le32 L0, 15 := le32 L1] ! i = words32 (take 56 b @ L0 @ L1) ! i"
  proof cases
    case 1
    then have "4 \<le> 56 - 4 * i" by linarith
    then have "take 4 (drop (4 * i) (take 56 b @ L0 @ L1)) = take 4 (drop (4 * i) b)"
      using assms by (simp add: drop_take min_def)
    with 1 show ?thesis by (simp add: nth_words32)
  qed (use assms in \<open>simp_all add: nth_words32\<close>)
qed simp

lemma words32_zero: "words32 (replicate 64 0) = replicate 16 0"
  by (rule nth_equalityI) (simp_all add: nth_words32 le32_def)

lemma rmd_length_words:
  assumes "l < 2 ^ 32"
  shows "bytes_le32 (push_bit 3 (of_nat l)) @ bytes_le32 (drop_bit 29 (of_nat l) OR push_bit 3 0) =
     bytes_le64 (of_nat (8 * l))"
proof (rule counter64_bytes_le64)
  have "unat (push_bit 3 (of_nat l :: u32)) = (8 * l) mod 2 ^ 32"
    by (simp add: push_bit_eq_mult unat_word_ariths unat_of_nat mod_simps mult.commute)
  moreover have "unat (drop_bit 29 (of_nat l :: u32)) = l div 2 ^ 29"
    using assms by (simp add: unat_drop_bit_eq drop_bit_eq_div [where 'a = nat] unat_of_nat)
  moreover have "(8 * l) div 2 ^ 32 = l div 2 ^ 29" by simp
  moreover have "8 * l < 2 ^ 64" using assms by simp
  ultimately show "counter64 (push_bit 3 (of_nat l)) (drop_bit 29 (of_nat l) OR push_bit 3 0) = 8 * l mod 2 ^ 64"
    using mod_mult_div_eq [of "8 * l" "2 ^ 32"] by (simp add: counter64_def)
qed

lemma rmd_digest_bytes:
  "map (\<lambda>i. ucast (drop_bit (8 * (i mod 4)) ([a, b, c, d, e] ! (i div 4)))) [0..<20] =
     concat (map bytes_le32 [a, b, c, d, e :: u32])"
  by (simp add: bytes_le32_def upt_rec)

lemma rmd_finish_spec:
  assumes rep: "rmd_rep c m" and total: "length m < 2 ^ 32"
  shows "\<exists>c'. RMD160_Finish c = (c', rmd_spec m) \<and> rmd_wf c'"
proof -
  let ?r = "length m mod 64"
  from rep have wf: "length (rmd_state c) = 5" "length (rmd_length c) = 2" "length (rmd_bbuffer c) = 64"
    and st: "rmd_state c = foldl rmd_fold rmd_iv (blocks 64 m)" and buf: "take ?r (rmd_bbuffer c) = rest 64 m"
    and len: "rmd_length c = [of_nat (length m), 0]" and bl: "unat (rmd_buflen c) = ?r"
    by (auto simp: rmd_rep_def rmd_wf_def stream_rep_def)
  define L0 :: "u8 list" where "L0 = bytes_le32 (push_bit 3 (of_nat (length m)))"
  define L1 :: "u8 list" where "L1 = bytes_le32 (drop_bit 29 (of_nat (length m)) OR push_bit 3 0)"
  have L: "length L0 = 4" "length L1 = 4" "L0 @ L1 = bytes_le64 (of_nat (8 * length m))"
      "le32 L0 = push_bit 3 (of_nat (length m))" "le32 L1 = drop_bit 29 (of_nat (length m)) OR push_bit 3 0"
    using rmd_length_words [OF total] by (simp_all add: L0_def L1_def)
  let ?b = "rest 64 m @ 0x80 # replicate (63 - ?r) 0"
  have r: "?r < 64" by simp
  have lb: "length ?b = 64"
    unfolding length_append length_rest length_Cons length_replicate using r by linarith
  have b: "put_at (put_at (rmd_bbuffer c) ?r [0x80]) (?r + 1) (replicate (63 - ?r) 0) = ?b"
    using wf r buf by (simp add: put_at_def)
  define fin where "fin = (if ?r > 55
     then rmd_fold (rmd_fold (rmd_state c) ?b) (replicate 56 0 @ L0 @ L1)
     else rmd_fold (rmd_state c) (take 56 ?b @ L0 @ L1))"
  have spec: "fin = foldl rmd_fold rmd_iv (blocks 64 (rmd_padded m))"
  proof (cases "?r > 55")
    case True
    then have "blocks 64 (rmd_padded m) = blocks 64 m @ [?b, replicate 56 0 @ L0 @ L1]"
      using blocks_padded(2) [of 8 64 "L0 @ L1" m] L by (simp add: rmd_padded_def)
    with True show ?thesis by (simp add: fin_def st)
  next
    case False
    then have le: "?r \<le> 55" by simp
    then have "take 56 ?b = rest 64 m @ 0x80 # replicate (55 - ?r) 0"
      by (simp add: take_Cons' min_def)
    moreover have "blocks 64 (rmd_padded m) = blocks 64 m @ [rest 64 m @ 0x80 # replicate (55 - ?r) 0 @ L0 @ L1]"
      using blocks_padded(1) [of 8 64 "L0 @ L1" m] L le by (simp add: rmd_padded_def)
    ultimately show ?thesis using False by (simp add: fin_def st)
  qed
  have zero: "(replicate 16 0)[14 := le32 L0, 15 := le32 L1] = words32 (replicate 56 0 @ L0 @ L1)"
    using words32_length_field [of "replicate 64 0" L0 L1] L by (simp add: words32_zero)
  note field = words32_length_field [OF lb L(1,2)]
  have state: "rmd_state (fst (RMD160_Finish c)) = fin"
    unfolding RMD160_Finish_def Let_def bl
    using bl L(4,5) [symmetric] zero field b
    by (auto simp: len fin_def split: prod.split)
  let ?s = "rmd_state (fst (RMD160_Finish c))"
  have s5: "length ?s = 5"
    using wf by (simp add: state fin_def)
  then have five: "?s = [?s ! 0, ?s ! 1, ?s ! 2, ?s ! 3, ?s ! 4]"
    by (auto simp: numeral_eq_Suc length_Suc_conv)
  have "snd (RMD160_Finish c) = map (\<lambda>i. ucast (drop_bit (8 * (i mod 4)) (?s ! (i div 4)))) [0..<20]"
    by (simp add: RMD160_Finish_def Let_def split: prod.split)
  also have "\<dots> = concat (map bytes_le32 ?s)"
    by (subst (1 2) five) (rule rmd_digest_bytes)
  also have "\<dots> = rmd_spec m"
    by (simp only: state spec rmd_spec_def rmd_foldl_eq) (simp add: rmd_foldl_eq rmd_iv_def)
  finally have "snd (RMD160_Finish c) = rmd_spec m" .
  moreover have "rmd_length (fst (RMD160_Finish c)) = rmd_length c" "rmd_bbuffer (fst (RMD160_Finish c)) = ?b"
    using b by (simp_all add: RMD160_Finish_def Let_def bl split: prod.split)
  then have "rmd_wf (fst (RMD160_Finish c))"
    using s5 wf(2) lb by (simp only: rmd_wf_def)
  ultimately show ?thesis by (metis prod.collapse)
qed

interpretation rmd160: digest_stream RMD160_Init RMD160_Update "\<lambda>c. Some (RMD160_Finish c)"
  rmd_wf rmd_rep rmd_spec "\<lambda>_. True" "\<lambda>n. n < 2 ^ 32"
  by unfold_locales (auto intro: rmd_rep_init rmd_rep_wf rmd_rep_update dest: rmd_finish_spec)

section \<open>The carry that is never taken\<close>

lemma no_carry:
  assumes "n < 2 ^ 64 - 2 ^ 32"
  shows "\<not> (ucast (x :: u32) :: u64) + of_nat n < ucast x"
proof -
  have "unat (ucast x :: u64) = unat x"
    using unat32 [of x] by (simp add: unsigned_ucast_eq take_bit_eq_mod)
  moreover have "unat (of_nat n :: u64) = n" using assms by (simp add: unat_of_nat)
  ultimately show ?thesis
    using assms unat32 [of x] by (simp add: word_less_nat_alt unat_word_ariths)
qed

section \<open>A known answer\<close>

lemma rmd_step_norm:
  "rmd_left X [a, b, c, d, e] t = [e, norm (ROL (norm (a + rmd_fun_left t b c d + X ! rmd_word_left t + rmd_K_left t))
     (rmd_shifts ! (t div 16) ! rmd_word_left t) + e), b, norm (ROL c 10), d]"
  "rmd_right X [a, b, c, d, e] t = [e, norm (ROL (norm (a + rmd_fun_right t b c d + X ! rmd_word_right t + rmd_K_right t))
     (rmd_shifts ! (t div 16) ! rmd_word_right t) + e), b, norm (ROL c 10), d]"
  by (simp_all add: rmd_left_def rmd_right_def rmd_step_def norm_def)

lemma rmd_spec_abc:
  "rmd_spec [0x61, 0x62, 0x63] =
    [0x8e, 0xb2, 0x08, 0xf7, 0xe0, 0x5d, 0x98, 0x7a, 0x9b, 0x04, 0x4a, 0x8e, 0x98, 0xc6,
     0xb0, 0x87, 0xf1, 0x5a, 0x0b, 0xfc]"
proof -
  have padded: "blocks 64 (rmd_padded [0x61, 0x62, 0x63]) =
      [[0x61, 0x62, 0x63, 0x80] @ replicate 52 0 @ [24, 0, 0, 0, 0, 0, 0, 0]]"
    by (simp add: rmd_padded_def md_pad_def zeros_def blocks_step bytes_le64_def bytes_le32_def)
  have words: "words32 ([0x61, 0x62, 0x63, 0x80] @ replicate 52 0 @ [24, 0, 0, 0, 0, 0, 0, 0]) =
      [0x80636261, 0, 0, 0, 0, 0, 0, 0, 0, 0, 0, 0, 0, 0, 24, 0]"
    by (simp add: words32_def upt_16 le32_def norm_simps)
  have l: "foldl (rmd_left [0x80636261, 0, 0, 0, 0, 0, 0, 0, 0, 0, 0, 0, 0, 0, 24, 0]) rmd_iv [0..<80] =
      [0x641129ca, 0xd563bfdc, 0x0b2cdc01, 0x6e413468, 0xfc433da8]"
    unfolding rmd_iv_def upt_80
    by (simp add: norm_simps rmd_step_norm rmd_word_left_def rmd_word_right_def rho_def funpow_small rmd_shifts_def
        rmd_fun_left_def rmd_fun_right_def rmd_K_left_def rmd_K_right_def ROL_def rmd_F_def rmd_G_def rmd_H_def rmd_I_def rmd_J_def cong: foldl_state_cong)
  have p: "foldl (rmd_right [0x80636261, 0, 0, 0, 0, 0, 0, 0, 0, 0, 0, 0, 0, 0, 24, 0]) rmd_iv [0..<80] =
      [0x81d4727d, 0x5fccbade, 0xbf627814, 0xfc0e2b04, 0x739c4c7a]"
    unfolding rmd_iv_def upt_80
    by (simp add: norm_simps rmd_step_norm rmd_word_left_def rmd_word_right_def rho_def funpow_small rmd_shifts_def
        rmd_fun_left_def rmd_fun_right_def rmd_K_left_def rmd_K_right_def ROL_def rmd_F_def rmd_G_def rmd_H_def rmd_I_def rmd_J_def cong: foldl_state_cong)
  have "foldl rmd_block rmd_iv (blocks 64 (rmd_padded [0x61, 0x62, 0x63])) =
      [0xf708b28e, 0x7a985de0, 0x8e4a049b, 0x87b0c698, 0xfc0b5af1]"
    by (simp only: padded foldl.simps rmd_block_def rmd_compress_def Let_def words l p)
      (simp add: rmd_iv_def upt_rec)
  then show ?thesis by (simp add: rmd_spec_def bytes_le32_def)
qed

section \<open>Properties\<close>

definition rmd_blank :: RMD160_CTX where
  "rmd_blank = \<lparr>rmd_state = replicate 5 0, rmd_length = [0, 0], rmd_bbuffer = replicate 64 0, rmd_buflen = 0\<rparr>"

lemma rmd_wf_blank: "rmd_wf rmd_blank"
  by (simp add: rmd_wf_def rmd_blank_def)

text \<open>C25. RIPEMD-160, whole message: however a message of less than \<open>2^32\<close> bytes is cut into
  pieces, initialising a context, feeding it the pieces and finishing returns, and gives the
  RIPEMD-160 digest of the concatenation.\<close>

theorem rmd160_digest_of_pieces:
  assumes "rmd_wf c0" and "length (concat ds) < 2 ^ 32"
  shows "\<exists>c c'. feed RMD160_Update (RMD160_Init c0) ds = Some c \<and> RMD160_Finish c = (c', rmd_spec (concat ds))"
  using rmd160.digest_of_pieces [OF assms(1) _ assms(2)] by simp

lemma rmd160_digest_of_pieces_witness:
  "\<exists>c c'. feed RMD160_Update (RMD160_Init rmd_blank) [[0x61], [], [0x62, 0x63]] = Some c \<and> RMD160_Finish c = (c',
    [0x8e, 0xb2, 0x08, 0xf7, 0xe0, 0x5d, 0x98, 0x7a, 0x9b, 0x04, 0x4a, 0x8e, 0x98, 0xc6,
     0xb0, 0x87, 0xf1, 0x5a, 0x0b, 0xfc])"
  using rmd160_digest_of_pieces [OF rmd_wf_blank, of "[[0x61], [], [0x62, 0x63]]"]
  by (simp add: rmd_spec_abc)

text \<open>The two lines of eighty macro calls of \<open>RMD160_Transform\<close> compute the published
  compression function, whose message order is generated by one permutation and whose shifts are a
  table indexed by round and message word.\<close>

theorem RMD160_Transform_is_published:
  assumes "length st = 5"
  shows "RMD160_Transform st X = rmd_compress st X"
  by (rule RMD160_Transform_eq [OF assms])

lemma RMD160_Transform_is_published_witness:
  "RMD160_Transform rmd_iv (replicate 16 0) = rmd_compress rmd_iv (replicate 16 0)"
  by (rule RMD160_Transform_is_published) (simp add: rmd_iv_def)

text \<open>The high word of the byte count never changes: the overflow test of
  \<open>RMD160_Update\<close> adds a 32-bit word to a \<open>size_t\<close> and compares in 64 bits, so no piece
  that fits in memory takes the branch \<open>length[1]++\<close>, whatever the count already is.\<close>

theorem RMD160_Update_never_carries:
  assumes "RMD160_Update c d = Some c'" and "length d < 2 ^ 64 - 2 ^ 32"
  shows "rmd_length c' ! 1 = rmd_length c ! 1"
  using assms(1) no_carry [OF assms(2), of "rmd_length c ! 0"]
  by (auto simp: RMD160_Update_unfold Let_def bind_eq_Some_conv split: if_splits prod.splits)

lemma RMD160_Update_never_carries_witness:
  "\<exists>c'. RMD160_Update (rmd_blank\<lparr>rmd_length := [0xffffffff, 7]\<rparr>) [0x61] = Some c' \<and> rmd_length c' = [0, 7]"
proof -
  let ?c = "rmd_blank\<lparr>rmd_length := [0xffffffff, 7]\<rparr>"
  obtain c' where c': "RMD160_Update ?c [0x61] = Some c'" "length (rmd_length c') = 2" "rmd_length c' ! 0 = 0"
    by (simp add: RMD160_Update_def Let_def rmd_blank_def)
  have "rmd_length c' ! 1 = 7"
    using RMD160_Update_never_carries [OF c'(1)] by simp
  with c' show ?thesis by (auto simp: numeral_2_eq_2 length_Suc_conv)
qed

end
