(* ===== verification/Digest_Classes.thy ===== *)
theory Digest_Classes
  imports Digest_Base Md5 Sha1 Sha256 Sha512 Rmd160
begin

text \<open>
  The six digest classes (\<open>md5init.c\<close>, \<open>sha1init.c\<close>, \<open>sha2init.c\<close>, \<open>rmd160init.c\<close>, the branches without
  OpenSSL): their metadata, and the contract \<open>digest_object\<close> for the objects of each. The
  metadata is the variable of the class itself, where the search starts; no class above
  defines one.
\<close>

section \<open>The classes\<close>

text \<open>\<open>Digest::\<close>\<close>

definition digest_prefix :: "u8 list" where
  "digest_prefix = [68, 105, 103, 101, 115, 116, 58, 58]"

definition digest_class :: "u8 list \<Rightarrow> 'c rb_digest_metadata \<Rightarrow> 'c rb_class" where
  "digest_class name algo =
     \<lparr>class_name = digest_prefix @ name, is_digest_base = False, metadata_chain = [Some algo]\<rparr>"

definition md5_metadata :: "MD5_CTX rb_digest_metadata" where
  "md5_metadata =
     \<lparr>api_version = 2, digest_len = 16, block_len = 64, init_func = MD5_Init,
      update_func = (\<lambda>c d. Some (MD5_Update c d)), finish_func = (\<lambda>c. Some (MD5_Finish c))\<rparr>"

definition cDigest_MD5 :: "MD5_CTX rb_class" where
  "cDigest_MD5 = digest_class [77, 68, 53] md5_metadata"

definition sha1_metadata :: "SHA1_CTX rb_digest_metadata" where
  "sha1_metadata =
     \<lparr>api_version = 2, digest_len = 20, block_len = 64, init_func = SHA1_Init,
      update_func = SHA1_Update, finish_func = SHA1_Finish\<rparr>"

definition cDigest_SHA1 :: "SHA1_CTX rb_class" where
  "cDigest_SHA1 = digest_class [83, 72, 65, 49] sha1_metadata"

definition sha256_metadata :: "SHA256_CTX rb_digest_metadata" where
  "sha256_metadata =
     \<lparr>api_version = 2, digest_len = 32, block_len = 64, init_func = SHA256_Init,
      update_func = (\<lambda>c d. Some (SHA256_Update c d)), finish_func = (\<lambda>c. Some (SHA256_Finish c))\<rparr>"

definition cDigest_SHA256 :: "SHA256_CTX rb_class" where
  "cDigest_SHA256 = digest_class [83, 72, 65, 50, 53, 54] sha256_metadata"

definition sha384_metadata :: "SHA512_CTX rb_digest_metadata" where
  "sha384_metadata =
     \<lparr>api_version = 2, digest_len = 48, block_len = 128, init_func = SHA384_Init,
      update_func = (\<lambda>c d. Some (SHA384_Update c d)), finish_func = (\<lambda>c. Some (SHA384_Finish c))\<rparr>"

definition cDigest_SHA384 :: "SHA512_CTX rb_class" where
  "cDigest_SHA384 = digest_class [83, 72, 65, 51, 56, 52] sha384_metadata"

definition sha512_metadata :: "SHA512_CTX rb_digest_metadata" where
  "sha512_metadata =
     \<lparr>api_version = 2, digest_len = 64, block_len = 128, init_func = SHA512_Init,
      update_func = (\<lambda>c d. Some (SHA512_Update c d)), finish_func = (\<lambda>c. Some (SHA512_Finish c))\<rparr>"

definition cDigest_SHA512 :: "SHA512_CTX rb_class" where
  "cDigest_SHA512 = digest_class [83, 72, 65, 53, 49, 50] sha512_metadata"

definition rmd160_metadata :: "RMD160_CTX rb_digest_metadata" where
  "rmd160_metadata =
     \<lparr>api_version = 2, digest_len = 20, block_len = 64, init_func = RMD160_Init,
      update_func = RMD160_Update, finish_func = (\<lambda>c. Some (RMD160_Finish c))\<rparr>"

definition cDigest_RMD160 :: "RMD160_CTX rb_class" where
  "cDigest_RMD160 = digest_class [82, 77, 68, 49, 54, 48] rmd160_metadata"

section \<open>The length of a digest\<close>

lemma length_foldl_keeps: "(\<And>s b. length s = n \<Longrightarrow> length (f s b) = n) \<Longrightarrow> length s = n \<Longrightarrow> length (foldl f s bs) = n"
  by (induction bs arbitrary: s) auto

lemma length_concat_map: "(\<And>w. length (f w) = k) \<Longrightarrow> length (concat (map f ws)) = k * length ws"
  by (induction ws) auto

lemma digest_lengths:
  "length (md5_spec m) = 16" "length (sha1_spec m) = 20" "length (sha256_spec m) = 32"
  "length (sha384_spec m) = 48" "length (sha512_spec m) = 64" "length (rmd_spec m) = 20"
proof -
  have "length (foldl (rfc1321_step X) st ts) = 4" if "length st = 4" for X st ts
    using that by (intro length_foldl_keeps) (simp_all add: rfc1321_step_def)
  then have "length (foldl rfc1321_block md5_iv bs) = 4" for bs
    by (intro length_foldl_keeps) (simp_all add: rfc1321_block_def md5_iv_def)
  then show "length (md5_spec m) = 16" by (simp add: md5_spec_def length_concat_map [of bytes_le32 4])
  have "length (foldl (sha1_step X) st ts) = 5" if "length st = 5" for X st ts
    using that by (intro length_foldl_keeps) (simp_all add: sha1_step_def)
  then have "length (foldl sha1_block sha1_iv bs) = 5" for bs
    by (intro length_foldl_keeps) (simp_all add: sha1_block_def sha1_iv_def)
  then show "length (sha1_spec m) = 20" by (simp add: sha1_spec_def length_concat_map [of bytes_be32 4])
  have "length (foldl sha256_block sha256_initial_hash_value bs) = 8" for bs
    by (rule length_foldl_keeps) simp_all
  then show "length (sha256_spec m) = 32" by (simp add: sha256_spec_def length_concat_map [of bytes_be32 4])
  have h: "length (sha512_hash iv m) = 8" if "length iv = 8" for iv using that by (rule length_sha512_hash)
  show "length (sha512_spec m) = 64" by (simp add: sha512_spec_def length_concat_map [of bytes_be64 8] h)
  show "length (sha384_spec m) = 48" by (simp add: sha384_spec_def length_concat_map [of bytes_be64 8] h)
  have "length (rmd_block st b) = 5" for st b by (simp add: rmd_block_def rmd_compress_def Let_def)
  then have "length (foldl rmd_block rmd_iv bs) = 5" for bs
    by (intro length_foldl_keeps) (simp_all add: rmd_iv_def)
  then show "length (rmd_spec m) = 20" by (simp add: rmd_spec_def length_concat_map [of bytes_le32 4])
qed

section \<open>The contract for each class\<close>

lemma class_metadata: "api_version algo = 2 \<Longrightarrow> get_digest_base_metadata (digest_class name algo) = returns algo"
  by (simp add: get_digest_base_metadata_def digest_class_def)

lemma class_not_base: "\<not> is_digest_base (digest_class name algo)"
  by (simp add: digest_class_def)

interpretation md5_class: base_class MD5_Init "\<lambda>c d. Some (MD5_Update c d)" "\<lambda>c. Some (MD5_Finish c)"
  md5_wf md5_rep md5_spec "\<lambda>n. n < 2 ^ 61" "\<lambda>_. True" cDigest_MD5 md5_metadata
  by unfold_locales
    (simp_all add: cDigest_MD5_def class_metadata class_not_base md5_metadata_def digest_lengths LONG_MAX_def)

interpretation sha1_class: base_class SHA1_Init SHA1_Update SHA1_Finish
  sha1_wf sha1_rep sha1_spec "\<lambda>n. n < 2 ^ 29" "\<lambda>_. True" cDigest_SHA1 sha1_metadata
  by unfold_locales
    (simp_all add: cDigest_SHA1_def class_metadata class_not_base sha1_metadata_def digest_lengths LONG_MAX_def)

interpretation sha256_class: base_class SHA256_Init "\<lambda>c d. Some (SHA256_Update c d)" "\<lambda>c. Some (SHA256_Finish c)"
  s256_wf s256_rep sha256_spec "\<lambda>_. True" "\<lambda>_. True" cDigest_SHA256 sha256_metadata
  by unfold_locales
    (simp_all add: cDigest_SHA256_def class_metadata class_not_base sha256_metadata_def digest_lengths LONG_MAX_def)

interpretation sha384_class: base_class SHA384_Init "\<lambda>c d. Some (SHA384_Update c d)" "\<lambda>c. Some (SHA384_Finish c)"
  s512_wf "s512_rep sha384_initial_hash_value" sha384_spec "\<lambda>_. True" "\<lambda>_. True" cDigest_SHA384 sha384_metadata
  by unfold_locales
    (simp_all add: cDigest_SHA384_def class_metadata class_not_base sha384_metadata_def digest_lengths LONG_MAX_def)

interpretation sha512_class: base_class SHA512_Init "\<lambda>c d. Some (SHA512_Update c d)" "\<lambda>c. Some (SHA512_Finish c)"
  s512_wf "s512_rep sha512_initial_hash_value" sha512_spec "\<lambda>_. True" "\<lambda>_. True" cDigest_SHA512 sha512_metadata
  by unfold_locales
    (simp_all add: cDigest_SHA512_def class_metadata class_not_base sha512_metadata_def digest_lengths LONG_MAX_def)

interpretation rmd160_class: base_class RMD160_Init RMD160_Update "\<lambda>c. Some (RMD160_Finish c)"
  rmd_wf rmd_rep rmd_spec "\<lambda>_. True" "\<lambda>n. n < 2 ^ 32" cDigest_RMD160 rmd160_metadata
  by unfold_locales
    (simp_all add: cDigest_RMD160_def class_metadata class_not_base rmd160_metadata_def digest_lengths LONG_MAX_def)

section \<open>Subclasses\<close>

text \<open>A class without metadata of its own, below \<open>klass\<close>: \<open>n\<close> classes lie between.\<close>

definition subclass_of :: "u8 list \<Rightarrow> nat \<Rightarrow> 'c rb_class \<Rightarrow> 'c rb_class" where
  "subclass_of name n klass = \<lparr>class_name = name, is_digest_base = False,
     metadata_chain = replicate (Suc n) None @ metadata_chain klass\<rparr>"

lemma find_metadata_replicate: "find_metadata (replicate n None @ ps) = find_metadata ps"
  by (induction n) auto

lemma get_metadata_subclass [simp]: "get_digest_base_metadata (subclass_of name n klass) = get_digest_base_metadata klass"
  using find_metadata_replicate [of "Suc n" "metadata_chain klass"]
  by (simp add: get_digest_base_metadata_def subclass_of_def)

text \<open>The object of the subclass that corresponds to an object.\<close>

definition as_sub :: "u8 list \<Rightarrow> nat \<Rightarrow> 'c digest_obj \<Rightarrow> 'c digest_obj" where
  "as_sub name n obj = obj\<lparr>obj_class := subclass_of name n (obj_class obj)\<rparr>"

lemma sub_class [simp]:
  "\<not> is_digest_base (subclass_of name n klass)"
  "obj_class (as_sub name n obj) = subclass_of name n (obj_class obj)"
  "pctx (as_sub name n obj) = pctx obj" "obj_frozen (as_sub name n obj) = obj_frozen obj"
  "(as_sub name n obj)\<lparr>pctx := c\<rparr> = as_sub name n (obj\<lparr>pctx := c\<rparr>)"
  "\<lparr>obj_class = subclass_of name n klass, obj_frozen = b, pctx = c\<rparr>
     = as_sub name n \<lparr>obj_class = klass, obj_frozen = b, pctx = c\<rparr>"
  by (simp_all add: subclass_of_def as_sub_def)

definition map_res :: "('a \<Rightarrow> 'b) \<Rightarrow> 'a res \<Rightarrow> 'b res" where
  "map_res f r = and_then r (\<lambda>x. returns (f x))"

lemma map_res_simps [simp]:
  "map_res f (returns x) = returns (f x)" "map_res f (raises e) = raises e" "map_res f None = None"
  by (simp_all add: map_res_def)

lemma map_res_then: "map_res f (and_then r g) = and_then r (\<lambda>x. map_res f (g x))"
  by (simp add: map_res_def and_then_assoc)

lemma then_map_res: "and_then (map_res f r) g = and_then r (\<lambda>x. g (f x))"
  by (simp add: map_res_def and_then_assoc)

lemma and_then_cong: "(\<And>x. r = returns x \<Longrightarrow> f x = g x) \<Longrightarrow> and_then r f = and_then r g"
  by (simp add: and_then_def split: option.split sum.split)

named_theorems sub_simps "methods of the objects of a subclass"

lemma sub_methods [sub_simps]:
  assumes "\<not> is_digest_base (obj_class obj)"
  shows "m_clone (base_methods raw) (as_sub name n obj) = map_res (as_sub name n) (m_clone (base_methods raw) obj)"
    and "m_reset (base_methods raw) (as_sub name n obj) = map_res (as_sub name n) (m_reset (base_methods raw) obj)"
    and "m_update (base_methods raw) (as_sub name n obj) str = map_res (as_sub name n) (m_update (base_methods raw) obj str)"
    and "m_finish (base_methods raw) (as_sub name n obj)
      = map_res (map_prod (as_sub name n) id) (m_finish (base_methods raw) obj)"
  using assms
  by (auto simp: base_methods_def base_clone_def rb_digest_base_alloc_def rb_digest_base_copy_def rb_digest_base_reset_def
      rb_digest_base_update_def rb_digest_base_finish_def map_res_def and_then_def
      split: option.split sum.split)

text \<open>No method changes the class of its receiver.\<close>

lemma class_kept:
  "m_clone (base_methods raw) obj = returns obj' \<Longrightarrow> obj_class obj' = obj_class obj"
  "m_reset (base_methods raw) obj = returns obj' \<Longrightarrow> obj_class obj' = obj_class obj"
  "m_update (base_methods raw) obj str = returns obj' \<Longrightarrow> obj_class obj' = obj_class obj"
  "m_finish (base_methods raw) obj = returns (obj', v) \<Longrightarrow> obj_class obj' = obj_class obj"
  by (auto simp: base_methods_def base_clone_def rb_digest_base_alloc_def rb_digest_base_copy_def rb_digest_base_reset_def
      rb_digest_base_update_def rb_digest_base_finish_def and_then_def split: option.splits sum.splits if_splits)

abbreviation sub_result :: "u8 list \<Rightarrow> nat \<Rightarrow> ('c digest_obj \<times> 'a) res \<Rightarrow> ('c digest_obj \<times> 'a) res" where
  "sub_result name n \<equiv> map_res (map_prod (as_sub name n) id)"

lemma sub_finish_and_reset [sub_simps]:
  assumes "\<not> is_digest_base (obj_class obj)"
  shows "finish_and_reset (base_methods raw) (as_sub name n obj) = sub_result name n (finish_and_reset (base_methods raw) obj)"
  using assms unfolding finish_and_reset_def sub_methods(4) [OF assms] then_map_res map_res_then
  by (intro and_then_cong) (auto simp: sub_methods then_map_res map_res_then class_kept(4) split: prod.splits)

lemma sub_digest_of_argv [sub_simps]:
  assumes "\<not> is_digest_base (obj_class obj)"
  shows "digest_of_argv (base_methods raw) argv (as_sub name n obj) = sub_result name n (digest_of_argv (base_methods raw) argv obj)"
proof -
  consider "argv = []" | str where "argv = [str]" | "length argv > 1" by (cases argv rule: remdups_adj.cases) auto
  then show ?thesis
  proof cases
    case 1
    show ?thesis
      unfolding 1 digest_of_argv_def list.case sub_methods(1) [OF assms] then_map_res map_res_then
      using assms
      by (intro and_then_cong) (auto simp: sub_methods then_map_res map_res_then class_kept split: prod.splits intro!: and_then_cong)
  next
    case 2
    show ?thesis
      unfolding 2 digest_of_argv_def list.case sub_methods(2) [OF assms] then_map_res map_res_then
      using assms
      by (intro and_then_cong) (auto simp: sub_methods then_map_res map_res_then class_kept split: prod.splits intro!: and_then_cong)
  next
    case 3
    then show ?thesis by (auto simp: digest_of_argv_def split: list.split)
  qed
qed

lemma sub_hexencode: "hexencode_value (sub_result name n r) = sub_result name n (hexencode_value r)"
  by (cases r) (auto simp: hexencode_value_def map_res_def and_then_def split: sum.split option.split)

lemma sub_no_value: "no_value (map_res (as_sub name n) r) = sub_result name n (no_value r)"
  by (cases r) (auto simp: no_value_def map_res_def and_then_def split: sum.split option.split)

lemma sub_exec:
  assumes "\<not> is_digest_base (obj_class obj)"
  shows "digest_exec (base_methods raw) c (as_sub name n obj) = sub_result name n (digest_exec (base_methods raw) c obj)"
  using assms
  by (cases c) (simp_all add: sub_simps rb_digest_instance_digest_def rb_digest_instance_digest_bang_def
      rb_digest_instance_hexdigest_def rb_digest_instance_hexdigest_bang_def sub_hexencode sub_no_value)

lemma then_returns: "and_then r f = returns y \<longleftrightarrow> (\<exists>x. r = returns x \<and> f x = returns y)"
  by (auto simp: and_then_def split: option.splits sum.splits)

lemma class_kept_argv: "digest_of_argv (base_methods raw) argv obj = returns (obj', v) \<Longrightarrow> obj_class obj' = obj_class obj"
  by (auto simp: digest_of_argv_def then_returns dest!: class_kept split: list.splits)

lemma class_kept_exec: "digest_exec (base_methods raw) c obj = returns (obj', v) \<Longrightarrow> obj_class obj' = obj_class obj"
  by (cases c) (auto simp: no_value_def rb_digest_instance_digest_def rb_digest_instance_digest_bang_def finish_and_reset_def
      rb_digest_instance_hexdigest_def rb_digest_instance_hexdigest_bang_def hexencode_value_def then_returns
      dest!: class_kept class_kept_argv)

lemma sub_run:
  assumes "\<not> is_digest_base (obj_class obj)"
  shows "digest_run (base_methods raw) cs (as_sub name n obj) = sub_result name n (digest_run (base_methods raw) cs obj)"
  using assms
proof (induction cs arbitrary: obj)
  case Nil
  then show ?case by simp
next
  case (Cons c cs)
  show ?case
    unfolding digest_run.simps sub_exec [OF Cons.prems] then_map_res map_res_then
  proof (rule and_then_cong)
    fix x assume "digest_exec (base_methods raw) c obj = returns x"
    then obtain o1 v where x: "x = (o1, v)" "obj_class o1 = obj_class obj"
      by (cases x) (auto dest: class_kept_exec)
    then have "\<not> is_digest_base (obj_class o1)" using Cons.prems by simp
    from Cons.IH [OF this]
    show "(case map_prod (as_sub name n) id x of (self, value) \<Rightarrow>
        and_then (digest_run (base_methods raw) cs self) (\<lambda>(self, values). returns (self, value # values)))
      = sub_result name n (case x of (self, value) \<Rightarrow>
        and_then (digest_run (base_methods raw) cs self) (\<lambda>(self, values). returns (self, value # values)))"
      by (simp add: x(1) then_map_res map_res_then split_beta)
  qed
qed

section \<open>Properties\<close>

text \<open>C31. A session with an object of \<open>Digest::SHA256\<close>, \<open>Digest::SHA384\<close> or \<open>Digest::SHA512\<close> behaves like a
  session with the message itself. Whatever \<open>update\<close>, \<open>reset\<close>, \<open>digest\<close>, \<open>digest!\<close>, \<open>hexdigest\<close> and
  \<open>hexdigest!\<close> calls are made, in any order, each reply is the digest (or its hexadecimal form) of the
  bytes given since the last reset, and \<open>digest(string)\<close> that of the string; no call raises or hangs.\<close>

theorem sha2_sessions_refine_messages:
  assumes "s256_wf raw" and "s512_wf raw'"
  shows "session raw cDigest_SHA256 cs = returns (message_run sha256_spec cs [])
    \<and> session raw' cDigest_SHA384 cs = returns (message_run sha384_spec cs [])
    \<and> session raw' cDigest_SHA512 cs = returns (message_run sha512_spec cs [])"
  using sha256_class.session_rep [OF assms(1)] sha384_class.session_rep [OF assms(2)]
    sha512_class.session_rep [OF assms(2)] by simp

theorem sha2_sessions_refine_messages_witness:
  "session s256_blank cDigest_SHA256 [Update [0x61], Update [0x62, 0x63], Digest] =
    returns [[], [], [0xba, 0x78, 0x16, 0xbf, 0x8f, 0x01, 0xcf, 0xea, 0x41, 0x41, 0x40, 0xde, 0x5d, 0xae, 0x22, 0x23,
      0xb0, 0x03, 0x61, 0xa3, 0x96, 0x17, 0x7a, 0x9c, 0xb4, 0x10, 0xff, 0x61, 0xf2, 0x00, 0x15, 0xad]]"
  using sha2_sessions_refine_messages [OF s256_wf_blank s512_wf_zero, of "[Update [0x61], Update [0x62, 0x63], Digest]"]
  by (simp add: sha256_spec_abc)

text \<open>The same for \<open>Digest::MD5\<close>, \<open>Digest::SHA1\<close> and \<open>Digest::RMD160\<close>, within the limits that the
  algorithms have: pieces of less than \<open>2^29\<close> bytes (SHA-1), less than \<open>2^32\<close> bytes in all
  (RIPEMD-160).\<close>

theorem md_sessions_refine_messages:
  assumes "md5_wf raw" and "sha1_wf raw'" and "rmd_wf raw''"
    and "\<forall>c\<in>set cs. call_length c < 2 ^ 29" and "sum_list (map call_length cs) < 2 ^ 32"
  shows "session raw cDigest_MD5 cs = returns (message_run md5_spec cs [])
    \<and> session raw' cDigest_SHA1 cs = returns (message_run sha1_spec cs [])
    \<and> session raw'' cDigest_RMD160 cs = returns (message_run rmd_spec cs [])"
proof -
  have "\<forall>c\<in>set cs. call_length c < 2 ^ 61" using assms(4) by fastforce
  then show ?thesis
    using md5_class.session_rep [OF assms(1)] sha1_class.session_rep [OF assms(2)]
      rmd160_class.session_rep [OF assms(3)] assms(4,5) by simp
qed

theorem md_sessions_refine_messages_witness:
  "session md5_blank cDigest_MD5 [Update [0x61], Update [0x62, 0x63], Digest] =
      returns [[], [], [0x90, 0x01, 0x50, 0x98, 0x3c, 0xd2, 0x4f, 0xb0, 0xd6, 0x96, 0x3f, 0x7d, 0x28, 0xe1, 0x7f, 0x72]]"
  using md_sessions_refine_messages [OF md5_wf_blank sha1_wf_blank rmd_wf_blank, of "[Update [0x61], Update [0x62, 0x63], Digest]"]
  by (simp add: md5_spec_abc)

text \<open>A Ruby subclass of a digest class, however deep, computes what the class computes: the metadata
  are found on the way up, and every session gives the same replies, exceptions included.\<close>

theorem subclass_session:
  assumes "\<not> is_digest_base klass"
  shows "session raw (subclass_of name n klass) cs = session raw klass cs"
proof -
  have "rb_digest_base_alloc raw (subclass_of name n klass) = map_res (as_sub name n) (rb_digest_base_alloc raw klass)"
    using assms by (auto simp: rb_digest_base_alloc_def map_res_def and_then_def split: option.split sum.split)
  then have "session raw (subclass_of name n klass) cs = and_then (rb_digest_base_alloc raw klass)
      (\<lambda>obj. and_then (digest_run (base_methods raw) cs (as_sub name n obj)) (\<lambda>(obj, values). returns values))"
    by (simp add: session_def then_map_res)
  also have "\<dots> = session raw klass cs"
    unfolding session_def
  proof (rule and_then_cong)
    fix obj assume "rb_digest_base_alloc raw klass = returns obj"
    then have "obj_class obj = klass" by (auto simp: rb_digest_base_alloc_def then_returns split: if_splits)
    with assms show "and_then (digest_run (base_methods raw) cs (as_sub name n obj)) (\<lambda>(obj, values). returns values)
      = and_then (digest_run (base_methods raw) cs obj) (\<lambda>(obj, values). returns values)"
      by (simp add: sub_run then_map_res case_prod_unfold)
  qed
  finally show ?thesis .
qed

theorem subclass_session_witness:
  "session md5_blank (subclass_of (ascii ''MyDigest'') 2 cDigest_MD5) [Update [0x61, 0x62, 0x63], Digest] =
      returns [[], [0x90, 0x01, 0x50, 0x98, 0x3c, 0xd2, 0x4f, 0xb0, 0xd6, 0x96, 0x3f, 0x7d, 0x28, 0xe1, 0x7f, 0x72]]"
proof -
  have "session md5_blank cDigest_MD5 [Update [0x61, 0x62, 0x63], Digest] =
      returns [[], [0x90, 0x01, 0x50, 0x98, 0x3c, 0xd2, 0x4f, 0xb0, 0xd6, 0x96, 0x3f, 0x7d, 0x28, 0xe1, 0x7f, 0x72]]"
    using md5_class.session_rep [OF md5_wf_blank, of "[Update [0x61, 0x62, 0x63], Digest]"] by (simp add: md5_spec_abc)
  moreover have "\<not> is_digest_base cDigest_MD5" by (simp add: cDigest_MD5_def class_not_base)
  ultimately show ?thesis using subclass_session [of cDigest_MD5 md5_blank "ascii ''MyDigest''" 2] by simp
qed

text \<open>\<open>==\<close> on a digest object compares digests: with a string it tells whether the string is the
  hexadecimal digest of the message (and nothing else, not even the same digits in capitals), with
  another digest object, of any class, whether the two digests are the same bytes.\<close>

theorem digest_equal:
  assumes "obj_rep cDigest_SHA256 s256_rep obj m" and "obj_rep cDigest_MD5 md5_rep obj' m'"
  shows "rb_digest_instance_equal (base_methods raw) obj (String_Object str) = returns (str = hex_text (sha256_spec m))
    \<and> rb_digest_instance_equal (base_methods raw) obj (Digest_Object (base_methods raw') obj')
        = returns (sha256_spec m = md5_spec m')"
proof
  have d: "rb_digest_instance_digest (base_methods raw') [] obj' = returns (obj', md5_spec m')"
    using md5_class.digest_rep [OF assms(2)] by simp
  show "rb_digest_instance_equal (base_methods raw) obj (Digest_Object (base_methods raw') obj')
      = returns (sha256_spec m = md5_spec m')"
    by (rule sha256_class.equal_object [OF assms(1) _ d]) simp
  show "rb_digest_instance_equal (base_methods raw) obj (String_Object str) = returns (str = hex_text (sha256_spec m))"
    by (rule sha256_class.equal_string [OF assms(1)]) simp
qed

lemma sha256_abc_object:
  obtains obj where "obj_rep cDigest_SHA256 s256_rep obj [0x61, 0x62, 0x63]"
proof -
  obtain o1 where "obj_rep cDigest_SHA256 s256_rep o1 []" by (rule sha256_class.alloc_rep [OF s256_wf_blank])
  from sha256_class.update_rep [OF this, where str = "[0x61, 0x62, 0x63]"] that show thesis by auto
qed

text \<open>The hexadecimal digest of \<open>abc\<close>.\<close>

definition abc_hex :: "u8 list" where
  "abc_hex = ascii ''ba7816bf8f01cfea414140de5dae2223b00361a396177a9cb410ff61f20015ad''"

lemma sha256_hex_abc: "hex_text (sha256_spec [0x61, 0x62, 0x63]) = abc_hex"
  unfolding sha256_spec_abc abc_hex_def by code_simp

theorem digest_equal_witness:
  "\<exists>obj obj'. rb_digest_instance_equal (base_methods s256_blank) obj (String_Object abc_hex :: MD5_CTX digest_obj operand) = returns True
    \<and> rb_digest_instance_equal (base_methods s256_blank) obj (Digest_Object (base_methods md5_blank) obj') = returns False"
proof -
  obtain obj where obj: "obj_rep cDigest_SHA256 s256_rep obj [0x61, 0x62, 0x63]" by (rule sha256_abc_object)
  obtain obj' where obj': "obj_rep cDigest_MD5 md5_rep obj' []" by (rule md5_class.alloc_rep [OF md5_wf_blank])
  have "length (sha256_spec [0x61, 0x62, 0x63]) \<noteq> length (md5_spec [])" by (simp add: digest_lengths)
  then have "sha256_spec [0x61, 0x62, 0x63] \<noteq> md5_spec []" by metis
  with digest_equal [OF obj obj', of s256_blank abc_hex md5_blank] sha256_hex_abc show ?thesis by auto
qed

text \<open>\<open>==\<close> with an operand that is neither a digest object nor convertible to a string does not return
  false, as its documentation says: it raises a \<open>TypeError\<close>.\<close>

theorem digest_equal_raises:
  assumes "obj_rep cDigest_SHA256 s256_rep obj m"
  shows "rb_digest_instance_equal (base_methods raw) obj Other_Object = raises TypeError"
  by (rule sha256_class.equal_other [OF assms]) simp

theorem digest_equal_raises_witness:
  "\<exists>obj. rb_digest_instance_equal (base_methods s256_blank) obj (Other_Object :: nat operand) = raises TypeError"
proof -
  obtain obj where "obj_rep cDigest_SHA256 s256_rep obj []" by (rule sha256_class.alloc_rep [OF s256_wf_blank])
  from digest_equal_raises [OF this] show ?thesis by blast
qed

end
