(* ===== verification/Bubblebabble.thy ===== *)
theory Bubblebabble
  imports Digest_Base
begin

text \<open>
  The BubbleBabble encoding of digests (\<open>lib/ext/digest/bubblebabble/bubblebabble.c\<close>): the bytes two
  by two as pronounceable syllables, with a checksum that runs along in the vowels. Characters are
  bytes. The loop writes at \<open>p[j++]\<close> into a buffer whose length \<open>buf_len\<close>, like the indices \<open>i\<close> and \<open>j\<close>, is an \<open>int\<close>; up to which
  length of the digest it fills the buffer exactly is a theorem, and so is that the encoding can be undone.
\<close>

section \<open>The encoding\<close>

definition vowels :: "u8 list" where
  "vowels = [97, 101, 105, 111, 117, 121]"

definition consonants :: "u8 list" where
  "consonants = [98, 99, 100, 102, 103, 104, 107, 108, 109, 110, 112, 114, 115, 116, 118, 122, 120]"

text \<open>A buffer with the position at which the next character is written by \<open>p[j++] = c\<close>, where \<open>j\<close> is an \<open>int\<close>. A write outside of the
  buffer, and going beyond \<open>INT_MAX\<close>, is undefined: \<open>None\<close>.\<close>

type_synonym out_buf = "u8 list \<times> nat"

definition put_char :: "out_buf option \<Rightarrow> u8 \<Rightarrow> out_buf option" where
  "put_char b c =
     (case b of None \<Rightarrow> None
      | Some (p, j) \<Rightarrow> if j < length p \<and> j < INT_MAX then Some (p[j := c], j + 1) else None)"

text \<open>The loop: the \<open>int\<close> \<open>i\<close> is the index of the next byte.\<close>

function bubble_loop :: "u8 list \<Rightarrow> nat \<Rightarrow> nat \<Rightarrow> out_buf option \<Rightarrow> out_buf option" where
  "bubble_loop digest i seed b =
     (if i \<ge> length digest then foldl put_char b [vowels ! (seed mod 6), consonants ! 16, vowels ! (seed div 6)]
      else
        let byte1 = digest ! i;
            b = (if i < INT_MAX then b else None);
            b = foldl put_char b
              [vowels ! ((unat (drop_bit 6 byte1 AND 3) + seed) mod 6), consonants ! unat (drop_bit 2 byte1 AND 15),
               vowels ! ((unat (byte1 AND 3) + seed div 6) mod 6)]
        in if i + 1 \<ge> length digest then b
           else
             let byte2 = digest ! (i + 1);
                 b = (if i + 1 < INT_MAX then b else None);
                 b = foldl put_char b [consonants ! unat (drop_bit 4 byte2 AND 15), 45, consonants ! unat (byte2 AND 15)]
             in bubble_loop digest (i + 2) ((seed * 5 + unat byte1 * 7 + unat byte2) mod 36) b)"
  by pat_completeness auto
termination by (relation "measure (\<lambda>(digest, i, seed, b). length digest - i)") auto

declare bubble_loop.simps [simp del]

text \<open>\<open>buf_len\<close> is an \<open>int\<close>, computed from a \<open>size_t\<close>. When it comes out negative, \<open>calloc\<close> is asked for nearly \<open>2 ^ 64\<close> bytes and
  answers a null pointer, through which the loop writes.\<close>

definition bubblebabble_str_new :: "u8 list \<Rightarrow> u8 list res" where
  "bubblebabble_str_new digest =
     (let digest_len = length digest
      in if (LONG_MAX - 2) div 3 < (digest_len OR 1) then raises RuntimeError
         else
           let buf_len = signed_take_bit 31 (int ((digest_len OR 1) * 3 + 2))
           in if buf_len < 0 then None
              else case bubble_loop digest 0 1 (put_char (Some (replicate (nat buf_len) 0, 0)) 120) of
                     None \<Rightarrow> None
                   | Some (p, j) \<Rightarrow> if j < length p then returns (p[j := 120]) else None)"

definition rb_digest_s_bubblebabble :: "u8 list \<Rightarrow> u8 list res" where
  "rb_digest_s_bubblebabble str = bubblebabble_str_new str"

definition rb_digest_class_s_bubblebabble :: "'o digest_methods \<Rightarrow> 'o res \<Rightarrow> ('o \<Rightarrow> u8 list list \<Rightarrow> 'o res) \<Rightarrow> u8 list list \<Rightarrow>
    u8 list res" where
  "rb_digest_class_s_bubblebabble ms alloc call_init argv =
     and_then (rb_digest_class_s_digest ms alloc call_init argv) bubblebabble_str_new"

definition rb_digest_instance_bubblebabble :: "'o digest_methods \<Rightarrow> 'o \<Rightarrow> ('o \<times> u8 list) res" where
  "rb_digest_instance_bubblebabble ms self =
     and_then (rb_digest_instance_digest ms [] self) (\<lambda>(self, value).
     and_then (bubblebabble_str_new value) (\<lambda>str. returns (self, str)))"

section \<open>The text of the encoding\<close>

text \<open>The characters that the loop writes, as a function of the bytes.\<close>

function bubble_text :: "u8 list \<Rightarrow> nat \<Rightarrow> nat \<Rightarrow> u8 list" where
  "bubble_text digest i seed =
     (if i \<ge> length digest then [vowels ! (seed mod 6), consonants ! 16, vowels ! (seed div 6)]
      else
        let byte1 = digest ! i;
            p = [vowels ! ((unat (drop_bit 6 byte1 AND 3) + seed) mod 6), consonants ! unat (drop_bit 2 byte1 AND 15),
                 vowels ! ((unat (byte1 AND 3) + seed div 6) mod 6)]
        in if i + 1 \<ge> length digest then p
           else
             let byte2 = digest ! (i + 1)
             in p @ [consonants ! unat (drop_bit 4 byte2 AND 15), 45, consonants ! unat (byte2 AND 15)]
                @ bubble_text digest (i + 2) ((seed * 5 + unat byte1 * 7 + unat byte2) mod 36))"
  by pat_completeness auto
termination by (relation "measure (\<lambda>(digest, i, seed). length digest - i)") auto

declare bubble_text.simps [simp del]

definition bubblebabble_text :: "u8 list \<Rightarrow> u8 list" where
  "bubblebabble_text digest = [120] @ bubble_text digest 0 1 @ [120]"

lemma length_bubble_text:
  "i \<le> length digest \<Longrightarrow> even i \<Longrightarrow> length (bubble_text digest i seed) = 3 * ((length digest - i) OR 1)"
proof (induction digest i seed rule: bubble_text.induct)
  case (1 digest i seed)
  let ?n = "length digest - i"
  have or1: "(n :: nat) OR 1 = (if even n then n + 1 else n)" for n
    using or_one_eq [of n] by simp
  consider "?n = 0" | "?n = 1" | "2 \<le> ?n" by linarith
  then show ?case
  proof cases
    case 1
    then show ?thesis using 1 by (simp add: bubble_text.simps [of digest i])
  next
    case 2
    then show ?thesis by (simp add: bubble_text.simps [of digest i] Let_def)
  next
    case 3
    then have n: "?n = (length digest - (i + 2)) + 2" by simp
    have "length (bubble_text digest (i + 2) s) = 3 * ((length digest - (i + 2)) OR 1)"
      if "s = (seed * 5 + unat (digest ! i) * 7 + unat (digest ! (i + 1))) mod 36" for s
      using 1(1) [of "digest ! i" _ "digest ! (i + 1)"] 1(2,3) 3 that by simp
    moreover define k where "k = length digest - (i + 2)"
    then have k: "?n = k + 2" "length digest - (i + 2) = k" using 3 by simp_all
    moreover have "\<not> i \<ge> length digest" "\<not> i + 1 \<ge> length digest" using 3 by simp_all
    ultimately show ?thesis
      by (subst bubble_text.simps) (simp add: Let_def or1 del: One_nat_def add_2_eq_Suc add_2_eq_Suc')
  qed
qed

section \<open>The buffer\<close>

lemma put_char_None [simp]: "put_char None c = None"
  by (simp add: put_char_def)

lemma put_chars_None [simp]: "foldl put_char None cs = None"
  by (induction cs) simp_all

lemma put_chars:
  "length p \<le> INT_MAX \<Longrightarrow> j \<le> length p \<Longrightarrow> foldl put_char (Some (p, j)) cs =
     (if j + length cs \<le> length p then Some (put_at p j cs, j + length cs) else None)"
proof (induction cs arbitrary: p j)
  case (Cons c cs)
  show ?case
  proof (cases "j < length p")
    case True
    with Cons.IH [of "p[j := c]" "Suc j"] Cons.prems put_at_Cons [of j p c cs] show ?thesis by (simp add: put_char_def)
  next
    case False
    then show ?thesis by (simp add: put_char_def [of "Some _"])
  qed
qed simp

lemma bubble_loop_None: "bubble_loop digest i seed None = None"
proof (induction digest i seed rule: bubble_text.induct)
  case (1 digest i seed)
  show ?case using 1 by (subst bubble_loop.simps) (simp add: Let_def cong: if_cong)
qed

lemma bubble_loop_text:
  "length p \<le> INT_MAX \<Longrightarrow> i \<le> j \<Longrightarrow> j \<le> length p \<Longrightarrow> bubble_loop digest i seed (Some (p, j)) =
     (if j + length (bubble_text digest i seed) \<le> length p
      then Some (put_at p j (bubble_text digest i seed), j + length (bubble_text digest i seed)) else None)"
proof (induction digest i seed arbitrary: p j rule: bubble_text.induct)
  case (1 digest i seed)
  note chars = put_chars [OF 1(2) 1(4)]
  let ?a = "digest ! i" and ?b = "digest ! (i + 1)"
  define p1 where "p1 = [vowels ! ((unat (drop_bit 6 ?a AND 3) + seed) mod 6), consonants ! unat (drop_bit 2 ?a AND 15),
    vowels ! ((unat (?a AND 3) + seed div 6) mod 6)]"
  define p2 where "p2 = [consonants ! unat (drop_bit 4 ?b AND 15), 45, consonants ! unat (?b AND 15)]"
  define s where "s = (seed * 5 + unat ?a * 7 + unat ?b) mod 36"
  consider "i \<ge> length digest" | "i < length digest" "i + 1 \<ge> length digest" | "i + 1 < length digest" by linarith
  then show ?case
  proof cases
    case 1
    then show ?thesis by (simp add: bubble_loop.simps [of digest i] bubble_text.simps [of digest i] chars del: foldl_Cons)
  next
    case 2
    then have t: "bubble_text digest i seed = p1" by (simp add: bubble_text.simps [of digest i] Let_def p1_def)
    have "bubble_loop digest i seed (Some (p, j)) = foldl put_char (if i < INT_MAX then Some (p, j) else None) p1"
      using 2 by (simp add: bubble_loop.simps [of digest i] Let_def p1_def)
    then show ?thesis using chars 1(2-4) by (simp add: t p1_def del: foldl_Cons)
  next
    case 3
    then have t: "bubble_text digest i seed = p1 @ p2 @ bubble_text digest (i + 2) s"
      by (subst bubble_text.simps) (simp add: Let_def p1_def p2_def s_def)
    have l: "bubble_loop digest i seed (Some (p, j)) = bubble_loop digest (i + 2) s
        (foldl put_char (if i + 1 < INT_MAX then foldl put_char (if i < INT_MAX then Some (p, j) else None) p1 else None) p2)"
      using 3 by (subst bubble_loop.simps) (simp add: Let_def p1_def p2_def s_def)
    have len: "length p1 = 3" "length p2 = 3" by (simp_all add: p1_def p2_def)
    show ?thesis
    proof (cases "j + 6 \<le> length p")
      case False
      have "foldl put_char (if i + 1 < INT_MAX then foldl put_char (if i < INT_MAX then Some (p, j) else None) p1 else None) p2 = None"
        using False chars 1(2-4) len put_chars [of "put_at p j p1" "j + 3" p2] by (simp add: length_put_at)
      with False show ?thesis by (simp add: l t len bubble_loop_None)
    next
      case True
      then have "i + 1 < INT_MAX" using 1(2,3) by simp
      moreover from this have "foldl put_char (Some (p, j)) p1 = Some (put_at p j p1, j + 3)" using True chars len by simp
      moreover have "foldl put_char (Some (put_at p j p1, j + 3)) p2 = Some (put_at p j (p1 @ p2), j + 6)"
        using True 1(2) len put_chars [of "put_at p j p1" "j + 3" p2] put_at_put_at [of j p1 p p2] by (simp add: length_put_at)
      ultimately have e: "bubble_loop digest i seed (Some (p, j)) = bubble_loop digest (i + 2) s (Some (put_at p j (p1 @ p2), j + 6))"
        by (simp add: l)
      have IH: "bubble_loop digest (i + 2) s (Some (q, k)) =
          (if k + length (bubble_text digest (i + 2) s) \<le> length q
           then Some (put_at q k (bubble_text digest (i + 2) s), k + length (bubble_text digest (i + 2) s)) else None)"
        if "length q \<le> INT_MAX" "i + 2 \<le> k" "k \<le> length q" for q k
        using 1(1) [of ?a _ ?b q k] 3 that by (simp add: s_def)
      show ?thesis
        using IH [of "put_at p j (p1 @ p2)" "j + 6"] True 1(2,3) len put_at_put_at [of j "p1 @ p2" p "bubble_text digest (i + 2) s"]
        by (simp add: e t length_put_at)
    qed
  qed
qed

section \<open>Decoding\<close>

definition pos_in :: "u8 list \<Rightarrow> u8 \<Rightarrow> nat" where
  "pos_in xs c = length (takeWhile ((\<noteq>) c) xs)"

lemma pos_in_nth: "distinct xs \<Longrightarrow> n < length xs \<Longrightarrow> pos_in xs (xs ! n) = n"
proof -
  assume d: "distinct xs" "n < length xs"
  have "takeWhile ((\<noteq>) (xs ! n)) xs = take n xs"
    by (rule takeWhile_eq_take_P_nth) (use d in \<open>auto simp: nth_eq_iff_index_eq\<close>)
  with d show ?thesis by (simp add: pos_in_def)
qed

text \<open>The syllables without the \<open>x\<close> at both ends; the consonant \<open>x\<close> ends an even number of bytes.\<close>

fun bubble_decode :: "nat \<Rightarrow> u8 list \<Rightarrow> u8 list" where
  "bubble_decode seed (v1 # c # v2 # cs) =
     (if c = 120 then []
      else
        let byte1 = 64 * ((pos_in vowels v1 + 36 - seed) mod 6) + 4 * pos_in consonants c
              + (pos_in vowels v2 + 6 - seed div 6) mod 6
        in case cs of
             c1 # dash # c2 # cs' \<Rightarrow>
               let byte2 = 16 * pos_in consonants c1 + pos_in consonants c2
               in of_nat byte1 # of_nat byte2 # bubble_decode ((seed * 5 + byte1 * 7 + byte2) mod 36) cs'
           | _ \<Rightarrow> [of_nat byte1])"
| "bubble_decode seed _ = []"

lemma vowel_pos: "n < 6 \<Longrightarrow> pos_in vowels (vowels ! n) = n"
  by (rule pos_in_nth) (simp_all add: vowels_def)

lemma consonant_pos: "n < 17 \<Longrightarrow> pos_in consonants (consonants ! n) = n"
  by (rule pos_in_nth) (simp_all add: consonants_def)

lemma consonant_not_x: "n < 16 \<Longrightarrow> consonants ! n \<noteq> 120"
  using nth_eq_iff_index_eq [of consonants n 16] by (simp add: consonants_def)

lemma and_small:
  fixes b :: u8
  shows "unat (b AND 3) = unat b mod 4" "unat (b AND 15) = unat b mod 16"
  using unat_and_mask [of b 2] unat_and_mask [of b 4] by (simp_all add: mask_eq_exp_minus_1)

lemma unat_drop:
  fixes b :: u8
  shows "unat (drop_bit n b) = unat b div 2 ^ n"
  by (simp only: unat_drop_bit_eq drop_bit_eq_div [where 'a = nat])

lemma byte_parts:
  fixes b :: u8
  shows "64 * unat (drop_bit 6 b AND 3) + 4 * unat (drop_bit 2 b AND 15) + unat (b AND 3) = unat b"
    and "16 * unat (drop_bit 4 b AND 15) + unat (b AND 15) = unat b"
proof -
  have b: "unat b < 256" using unsigned_less [of b, where 'a = nat] by simp
  then have q: "unat b div 64 mod 4 = unat b div 64" "unat b div 16 mod 16 = unat b div 16" by simp_all
  have d: "unat b div 64 = unat b div 4 div 16" by (simp flip: div_mult2_eq)
  have "64 * (unat b div 64) + 4 * (unat b div 4 mod 16) = 4 * (16 * (unat b div 4 div 16) + unat b div 4 mod 16)"
    unfolding d by (simp only: distrib_left mult.assoc [symmetric])
  also have "\<dots> + unat b mod 4 = unat b" by (simp only: mult_div_mod_eq)
  finally have "64 * (unat b div 64) + 4 * (unat b div 4 mod 16) + unat b mod 4 = unat b" .
  then show "64 * unat (drop_bit 6 b AND 3) + 4 * unat (drop_bit 2 b AND 15) + unat (b AND 3) = unat b"
    using q(1) by (simp add: and_small unat_drop)
  show "16 * unat (drop_bit 4 b AND 15) + unat (b AND 15) = unat b"
    using div_mult_mod_eq [of "unat b" 16] q(2) by (simp add: and_small unat_drop)
qed

lemma vowel_back:
  assumes "h < 4" and "s < 36"
  shows "((h + s) mod 6 + 36 - s) mod 6 = (h :: nat)"
proof -
  have "((h + s) mod 6 + 36 - s) mod 6 = ((h + s) mod 6 + (36 - s)) mod 6" using assms by simp
  also have "\<dots> = (h + s + (36 - s)) mod 6" by (rule mod_add_left_eq)
  also have "h + s + (36 - s) = h + 6 * 6" using assms by simp
  also have "\<dots> mod 6 = h" using mod_mult_self2 [of h 6 6] assms(1) by simp
  finally show ?thesis .
qed

lemma vowel_back_high:
  assumes "h < 4" and "s < 36"
  shows "((h + s div 6) mod 6 + 6 - s div 6) mod 6 = (h :: nat)"
proof -
  have s: "s div 6 < 6" using assms by simp
  have "((h + s div 6) mod 6 + 6 - s div 6) mod 6 = ((h + s div 6) mod 6 + (6 - s div 6)) mod 6" using s by simp
  also have "\<dots> = (h + s div 6 + (6 - s div 6)) mod 6" by (rule mod_add_left_eq)
  also have "\<dots> = h" using assms s by simp
  finally show ?thesis .
qed

lemma bubble_decode_text:
  "seed < 36 \<Longrightarrow> bubble_decode seed (bubble_text digest i seed) = drop i digest"
proof (induction digest i seed rule: bubble_text.induct)
  case (1 digest i seed)
  show ?case
  proof (cases "i < length digest")
    case False
    then show ?thesis by (simp add: bubble_text.simps [of digest i] consonants_def)
  next
    case True
    let ?a = "digest ! i" and ?b = "digest ! (i + 1)"
    have m: "unat (w AND 3) < 4" "unat (w AND 15) < 16" for w :: u8 by (simp_all add: and_small)
    note un = vowel_back [OF m(1) 1(2), of "drop_bit 6 ?a"] vowel_back_high [OF m(1) 1(2), of ?a]
    have byte1: "64 * ((pos_in vowels (vowels ! ((unat (drop_bit 6 ?a AND 3) + seed) mod 6)) + 36 - seed) mod 6)
        + 4 * pos_in consonants (consonants ! unat (drop_bit 2 ?a AND 15))
        + (pos_in vowels (vowels ! ((unat (?a AND 3) + seed div 6) mod 6)) + 6 - seed div 6) mod 6 = unat ?a"
      using m(2) [of "drop_bit 2 ?a"] by (simp add: vowel_pos consonant_pos un byte_parts)
    have x: "consonants ! unat (drop_bit 2 ?a AND 15) \<noteq> 120" by (rule consonant_not_x [OF m(2)])
    show ?thesis
    proof (cases "i + 1 < length digest")
      case False
      then have "drop i digest = [?a]" using True by (simp add: Cons_nth_drop_Suc [symmetric])
      with True False x show ?thesis
        by (simp add: bubble_text.simps [of digest i] Let_def byte1 [simplified])
    next
      case two: True
      have byte2: "16 * pos_in consonants (consonants ! unat (drop_bit 4 ?b AND 15))
          + pos_in consonants (consonants ! unat (?b AND 15)) = unat ?b"
        using m(2) [of "drop_bit 4 ?b"] m(2) [of ?b] by (simp add: consonant_pos byte_parts)
      have "drop i digest = ?a # ?b # drop (i + 2) digest"
        using True two by (simp add: Cons_nth_drop_Suc)
      moreover have "bubble_decode s (bubble_text digest (i + 2) s) = drop (i + 2) digest"
        if "s = (seed * 5 + unat ?a * 7 + unat ?b) mod 36" for s
        using 1(1) [of ?a _ ?b] True two that by simp
      ultimately show ?thesis
        using True two x
        by (subst bubble_text.simps) (simp add: Let_def byte1 [simplified] byte2 [simplified]
            byte2 [THEN arg_cong [of _ _ "of_nat :: nat \<Rightarrow> u8"], simplified])
    qed
  qed
qed

section \<open>Properties\<close>

lemma length_text: "length (bubblebabble_text digest) = (length digest OR 1) * 3 + 2"
  using length_bubble_text [of 0 digest 1] by (simp add: bubblebabble_text_def mult.commute)

lemma int_small: "k \<le> INT_MAX \<Longrightarrow> signed_take_bit 31 (int k) = int k"
  by (simp add: INT_MAX_def signed_take_bit_int_eq_self)

text \<open>The result as a function of the length, with \<open>n\<close> the number of characters of the encoding.\<close>

lemma bubblebabble_result:
  assumes "length digest OR 1 \<le> (LONG_MAX - 2) div 3"
  defines "n \<equiv> (length digest OR 1) * 3 + 2"
  shows "bubblebabble_str_new digest = (if n \<le> INT_MAX then returns (bubblebabble_text digest) else None)"
proof -
  define buf_len where "buf_len = signed_take_bit 31 (int n)"
  define p where "p = replicate (nat buf_len) (0 :: u8)"
  let ?t = "bubble_text digest 0 1"
  have small: "buf_len \<le> int INT_MAX" using signed_take_bit_int_less_exp [of 31 "int n"] by (simp add: buf_len_def INT_MAX_def)
  then have lp: "length p \<le> INT_MAX" by (simp add: p_def)
  have lt: "length ?t + 2 = n" using length_text [of digest] by (simp add: bubblebabble_text_def n_def)
  have run: "bubblebabble_str_new digest = (if buf_len < 0 then None
      else case bubble_loop digest 0 1 (put_char (Some (p, 0)) 120) of
        None \<Rightarrow> None | Some (p, j) \<Rightarrow> if j < length p then returns (p[j := 120]) else None)"
    using assms(1) unfolding bubblebabble_str_new_def Let_def n_def [symmetric] buf_len_def [symmetric] p_def [symmetric]
    by (simp only: not_less if_not_P if_False simp_thms flip: not_le)
  have first: "put_char (Some (p, 0)) 120 = (if 0 < length p then Some (p[0 := 120], 1) else None)"
    by (simp add: put_char_def INT_MAX_def)
  have loop: "bubble_loop digest 0 1 (Some (p[0 := 120], 1)) =
      (if 1 + length ?t \<le> length p then Some (put_at (p[0 := 120]) 1 ?t, 1 + length ?t) else None)" if "0 < length p"
    using bubble_loop_text [of "p[0 := 120]" 0 1 digest 1] lp that by simp
  show ?thesis
  proof (cases "n \<le> INT_MAX")
    case True
    then have bl: "buf_len = int n" by (simp add: buf_len_def int_small)
    then have n: "length p = n" "0 < length p" "1 + length ?t < length p" using lt by (simp_all add: p_def n_def)
    have "put_at (p[0 := 120]) 1 ?t = put_at p 0 (120 # ?t)" using put_at_Cons [of 0 p 120 ?t] n(2) by simp
    moreover have "length p - Suc (length ?t) = 1" using n(1) lt by simp
    then have "drop (Suc (length ?t)) p = [0]" unfolding p_def drop_replicate length_replicate by simp
    then have "(put_at p 0 (120 # ?t))[Suc (length ?t) := 120] = bubblebabble_text digest"
      by (simp add: put_at_def bubblebabble_text_def list_update_append)
    ultimately show ?thesis using True n bl loop [OF n(2)] by (simp add: run first length_put_at)
  next
    case False
    have "\<not> 1 + length ?t < length p" using lp lt False by simp
    then show ?thesis using False loop by (cases "0 < length p") (simp_all add: run first bubble_loop_None length_put_at put_char_def)
  qed
qed

text \<open>C32. BubbleBabble loses nothing and stays in its buffer. For a digest of up to 715827881 bytes, so that the length of the encoding fits
  into an \<open>int\<close>, the loop writes exactly the \<open>buf_len\<close> characters allocated, starting and ending with \<open>x\<close>, and the digest can be
  computed back from them.\<close>

theorem bubblebabble_round_trip:
  assumes "length digest OR 1 \<le> (INT_MAX - 2) div 3"
  shows "\<exists>str. bubblebabble_str_new digest = returns str \<and> length str = (length digest OR 1) * 3 + 2
    \<and> str = bubblebabble_text digest \<and> hd str = 120 \<and> last str = 120 \<and> bubble_decode 1 (butlast (tl str)) = digest"
proof -
  let ?w = "bubblebabble_text digest"
  have "bubblebabble_str_new digest = returns ?w"
    using assms bubblebabble_result [of digest] by (simp add: INT_MAX_def LONG_MAX_def)
  moreover have "hd ?w = 120" "last ?w = 120" "butlast (tl ?w) = bubble_text digest 0 1"
    by (simp_all add: bubblebabble_text_def butlast_append)
  ultimately show ?thesis using bubble_decode_text [of 1 digest 0] length_text [of digest] by simp
qed

text \<open>From there to the check against \<open>LONG_MAX\<close>, \<open>buf_len\<close> is less than the number of characters and the loop writes past the buffer.\<close>

lemma bubblebabble_int_overflow:
  "(INT_MAX - 2) div 3 < length digest OR 1 \<Longrightarrow> length digest OR 1 \<le> (LONG_MAX - 2) div 3 \<Longrightarrow> bubblebabble_str_new digest = None"
  using bubblebabble_result [of digest] by (simp add: INT_MAX_def)

text \<open>The known answers of the encoding: \<open>xexax\<close> for no bytes, \<open>xesef-disof-gytuf-katof-movif-baxux\<close>
  for \<open>1234567890\<close>.\<close>

lemma text_1234567890: "bubblebabble_text (ascii ''1234567890'') = ascii ''xesef-disof-gytuf-katof-movif-baxux''"
  by code_simp

theorem bubblebabble_round_trip_witness:
  "bubblebabble_str_new (ascii ''1234567890'') = returns (ascii ''xesef-disof-gytuf-katof-movif-baxux'')"
proof -
  have "length (ascii ''1234567890'') OR 1 = 11" by code_simp
  with bubblebabble_round_trip [of "ascii ''1234567890''"] text_1234567890 show ?thesis
    by (simp add: INT_MAX_def)
qed

end
