(* ===== verification/St_Table.thy ===== *)
theory St_Table
  imports Prelude "HOL-Library.Multiset" "HOL-Library.Sublist"
begin

text \<open>
  The hash table of Syck (\<open>lib/ext/syck/st.c\<close>). A bin is the list of the entries chained from
  it, so the pointer surgery of the code is list surgery here. Keys and records are polymorphic;
  what the table does with keys it does through the \<open>compare\<close> and \<open>hash\<close> functions of its
  type. A key of a string table is the byte string it points to. When \<open>new_size\<close> runs out of
  sizes it returns -1, \<open>calloc\<close> is asked for that many bins and returns a null pointer that
  the code does not test: \<open>None\<close> is that case, in which the next access to a bin has no
  defined behaviour. Memory does not run out otherwise. The callback of
  \<open>st_foreach\<close> has a state of its own and does not touch the table, so that
  \<open>ST_CHECK\<close> finds the entry it looks for.
\<close>

section \<open>Data\<close>

record 'k st_hash_type =
  compare :: "'k \<Rightarrow> 'k \<Rightarrow> int"
  hash_fun :: "'k \<Rightarrow> u32"

record ('k, 'v) st_table_entry =
  e_hash :: u32
  e_key :: 'k
  e_record :: 'v

record ('k, 'v) st_table =
  st_type :: "'k st_hash_type"
  num_bins :: nat
  num_entries :: int
  bins :: "('k, 'v) st_table_entry list list"

datatype st_retval = ST_CONTINUE | ST_STOP | ST_DELETE | ST_CHECK

section \<open>The hash types of the library\<close>

text \<open>The C library fixes only the sign of the result; the terminating zero byte is the end of the
  list.\<close>

fun strcmp :: "u8 list \<Rightarrow> u8 list \<Rightarrow> int" where
  "strcmp [] [] = 0"
| "strcmp [] (y # ys) = - 1"
| "strcmp (x # xs) [] = 1"
| "strcmp (x # xs) (y # ys) = (if x = y then strcmp xs ys else if x < y then - 1 else 1)"

definition strhash :: "u8 list \<Rightarrow> u32" where
  "strhash string =
     (let val = foldl (\<lambda>val c. val * 997 + scast c) 0 string
      in val + signed_drop_bit 5 val)"

definition type_strhash :: "u8 list st_hash_type" where
  "type_strhash = \<lparr>compare = strcmp, hash_fun = strhash\<rparr>"

definition numcmp :: "u64 \<Rightarrow> u64 \<Rightarrow> int" where
  "numcmp x y = (if x \<noteq> y then 1 else 0)"

definition numhash :: "u64 \<Rightarrow> u32" where
  "numhash n = ucast n"

definition type_numhash :: "u64 st_hash_type" where
  "type_numhash = \<lparr>compare = numcmp, hash_fun = numhash\<rparr>"

section \<open>Table sizes\<close>

definition primes :: "int list" where
  "primes = [8 + 3, 16 + 3, 32 + 5, 64 + 3, 128 + 3, 256 + 27, 512 + 9, 1024 + 9, 2048 + 5, 4096 + 3,
     8192 + 27, 16384 + 43, 32768 + 3, 65536 + 45, 131072 + 29, 262144 + 3, 524288 + 21,
     1048576 + 7, 2097152 + 17, 4194304 + 15, 8388608 + 9, 16777216 + 43, 33554432 + 35,
     67108864 + 15, 134217728 + 29, 268435456 + 3, 536870912 + 11, 1073741824 + 85, 0]"

text \<open>The loop of \<open>new_size\<close>: \<open>newsize\<close> is an \<open>int\<close> that is doubled in every round.\<close>

fun new_size_from :: "int list \<Rightarrow> u32 \<Rightarrow> u32 \<Rightarrow> int" where
  "new_size_from [] newsize sz = - 1"
| "new_size_from (p # ps) newsize sz =
     (if sz <s newsize then p else new_size_from ps (push_bit 1 newsize) sz)"

definition new_size :: "u32 \<Rightarrow> int" where
  "new_size sz = new_size_from primes 8 sz"

text \<open>\<open>Calloc (n, sizeof (st_table_entry *))\<close>: a null pointer for a negative number of bins.\<close>

definition calloc_bins :: "int \<Rightarrow> 'e list list option" where
  "calloc_bins n = (if n < 0 then None else Some (replicate (nat n) []))"

definition st_init_table_with_size :: "'k st_hash_type \<Rightarrow> u32 \<Rightarrow> ('k, 'v) st_table option" where
  "st_init_table_with_size type sz =
     (let n = new_size sz
      in map_option (\<lambda>b. \<lparr>st_type = type, num_bins = nat n, num_entries = 0, bins = b\<rparr>)
           (calloc_bins n))"

definition st_init_table :: "'k st_hash_type \<Rightarrow> ('k, 'v) st_table option" where
  "st_init_table type = st_init_table_with_size type 0"

definition st_init_numtable :: "(u64, 'v) st_table option" where
  "st_init_numtable = st_init_table type_numhash"

definition st_init_numtable_with_size :: "u32 \<Rightarrow> (u64, 'v) st_table option" where
  "st_init_numtable_with_size sz = st_init_table_with_size type_numhash sz"

definition st_init_strtable :: "(u8 list, 'v) st_table option" where
  "st_init_strtable = st_init_table type_strhash"

definition st_init_strtable_with_size :: "u32 \<Rightarrow> (u8 list, 'v) st_table option" where
  "st_init_strtable_with_size sz = st_init_table_with_size type_strhash sz"

section \<open>Lookup\<close>

definition EQUAL :: "('k, 'v) st_table \<Rightarrow> 'k \<Rightarrow> 'k \<Rightarrow> bool" where
  "EQUAL table x y \<longleftrightarrow> x = y \<or> compare (st_type table) x y = 0"

definition do_hash :: "'k \<Rightarrow> ('k, 'v) st_table \<Rightarrow> u32" where
  "do_hash key table = hash_fun (st_type table) key"

definition PTR_NOT_EQUAL :: "('k, 'v) st_table \<Rightarrow> u32 \<Rightarrow> 'k \<Rightarrow> ('k, 'v) st_table_entry \<Rightarrow> bool" where
  "PTR_NOT_EQUAL table hash_val key e \<longleftrightarrow> e_hash e \<noteq> hash_val \<or> \<not> EQUAL table key (e_key e)"

text \<open>The chain from the entry that \<open>FIND_ENTRY\<close> finds on, empty for the null pointer.\<close>

fun chain_from :: "('k, 'v) st_table \<Rightarrow> u32 \<Rightarrow> 'k \<Rightarrow> ('k, 'v) st_table_entry list \<Rightarrow>
    ('k, 'v) st_table_entry list" where
  "chain_from table hash_val key [] = []"
| "chain_from table hash_val key (e # es) =
     (if PTR_NOT_EQUAL table hash_val key e then chain_from table hash_val key es else e # es)"

definition bin_pos :: "u32 \<Rightarrow> ('k, 'v) st_table \<Rightarrow> nat" where
  "bin_pos hash_val table = unat hash_val mod num_bins table"

definition FIND_ENTRY :: "('k, 'v) st_table \<Rightarrow> u32 \<Rightarrow> 'k \<Rightarrow> ('k, 'v) st_table_entry list" where
  "FIND_ENTRY table hash_val key = chain_from table hash_val key (bins table ! bin_pos hash_val table)"

definition st_lookup :: "('k, 'v) st_table \<Rightarrow> 'k \<Rightarrow> 'v option" where
  "st_lookup table key =
     (case FIND_ENTRY table (do_hash key table) key of [] \<Rightarrow> None | e # _ \<Rightarrow> Some (e_record e))"

section \<open>Insertion\<close>

definition rehash_bins :: "nat \<Rightarrow> ('k, 'v) st_table_entry list list \<Rightarrow> ('k, 'v) st_table_entry list list \<Rightarrow>
    ('k, 'v) st_table_entry list list" where
  "rehash_bins new_num_bins old new_bins =
     foldl (\<lambda>new_bins ptr. let i = unat (e_hash ptr) mod new_num_bins in new_bins[i := ptr # new_bins ! i])
       new_bins (concat old)"

definition rehash :: "('k, 'v) st_table \<Rightarrow> ('k, 'v) st_table option" where
  "rehash table =
     (let new_num_bins = new_size (of_nat (num_bins table + 1))
      in map_option (\<lambda>new_bins. table\<lparr>num_bins := nat new_num_bins,
             bins := rehash_bins (nat new_num_bins) (bins table) new_bins\<rparr>)
           (calloc_bins new_num_bins))"

definition ADD_DIRECT :: "('k, 'v) st_table \<Rightarrow> 'k \<Rightarrow> 'v \<Rightarrow> u32 \<Rightarrow> nat \<Rightarrow> ('k, 'v) st_table option" where
  "ADD_DIRECT table key value hash_val pos =
     Option.bind
       (if num_entries table div int (num_bins table) > 5
        then map_option (\<lambda>table. (table, bin_pos hash_val table)) (rehash table)
        else Some (table, pos))
       (\<lambda>(table, pos).
          let entry = \<lparr>e_hash = hash_val, e_key = key, e_record = value\<rparr>
          in Some (table\<lparr>bins := (bins table)[pos := entry # bins table ! pos],
                num_entries := num_entries table + 1\<rparr>))"

text \<open>\<open>ptr->record = value\<close> for the entry that was found.\<close>

fun set_record :: "('k, 'v) st_table \<Rightarrow> u32 \<Rightarrow> 'k \<Rightarrow> 'v \<Rightarrow> ('k, 'v) st_table_entry list \<Rightarrow>
    ('k, 'v) st_table_entry list" where
  "set_record table hash_val key value [] = []"
| "set_record table hash_val key value (e # es) =
     (if PTR_NOT_EQUAL table hash_val key e then e # set_record table hash_val key value es
      else e\<lparr>e_record := value\<rparr> # es)"

definition st_insert :: "('k, 'v) st_table \<Rightarrow> 'k \<Rightarrow> 'v \<Rightarrow> (('k, 'v) st_table \<times> bool) option" where
  "st_insert table key value =
     (let hash_val = do_hash key table; pos = bin_pos hash_val table
      in if FIND_ENTRY table hash_val key = []
         then map_option (\<lambda>table. (table, False)) (ADD_DIRECT table key value hash_val pos)
         else Some (table\<lparr>bins := (bins table)[pos := set_record table hash_val key value (bins table ! pos)]\<rparr>, True))"

definition st_add_direct :: "('k, 'v) st_table \<Rightarrow> 'k \<Rightarrow> 'v \<Rightarrow> ('k, 'v) st_table option" where
  "st_add_direct table key value =
     (let hash_val = do_hash key table
      in ADD_DIRECT table key value hash_val (bin_pos hash_val table))"

definition st_copy :: "('k, 'v) st_table \<Rightarrow> ('k, 'v) st_table" where
  "st_copy old_table = old_table\<lparr>bins := map (foldl (\<lambda>new ptr. ptr # new) []) (bins old_table)\<rparr>"

section \<open>Deletion\<close>

text \<open>The loop over \<open>ptr->next\<close>: the entry that is unlinked and the rest of the chain.\<close>

fun unlink_next :: "('k, 'v) st_table \<Rightarrow> 'k \<Rightarrow> ('k, 'v) st_table_entry list \<Rightarrow>
    (('k, 'v) st_table_entry \<times> ('k, 'v) st_table_entry list) option" where
  "unlink_next table key [] = None"
| "unlink_next table key (e # es) =
     (if EQUAL table (e_key e) key then Some (e, es)
      else map_option (\<lambda>(tmp, es). (tmp, e # es)) (unlink_next table key es))"

text \<open>The cells \<open>*key\<close> and \<open>*value\<close> are passed in and returned; \<open>None\<close> is a null
  \<open>value\<close> pointer.\<close>

definition st_delete :: "('k, 'v::zero) st_table \<Rightarrow> 'k \<Rightarrow> 'v option \<Rightarrow> ('k, 'v) st_table \<times> bool \<times> 'k \<times> 'v option" where
  "st_delete table key value =
     (let pos = bin_pos (do_hash key table) table
      in case bins table ! pos of
           [] \<Rightarrow> (table, False, key, map_option (\<lambda>_. 0) value)
         | ptr # next \<Rightarrow>
             if EQUAL table key (e_key ptr) then
               (table\<lparr>bins := (bins table)[pos := next], num_entries := num_entries table - 1\<rparr>, True,
                e_key ptr, map_option (\<lambda>_. e_record ptr) value)
             else
               (case unlink_next table key next of
                  None \<Rightarrow> (table, False, key, value)
                | Some (tmp, next) \<Rightarrow>
                    (table\<lparr>bins := (bins table)[pos := ptr # next], num_entries := num_entries table - 1\<rparr>, True,
                     e_key tmp, map_option (\<lambda>_. e_record tmp) value)))"

fun mark_never :: "('k, 'k) st_table \<Rightarrow> 'k \<Rightarrow> 'k \<Rightarrow> ('k, 'k) st_table_entry list \<Rightarrow>
    (('k, 'k) st_table_entry \<times> ('k, 'k) st_table_entry list) option" where
  "mark_never table key never [] = None"
| "mark_never table key never (ptr # es) =
     (if e_key ptr \<noteq> never \<and> EQUAL table (e_key ptr) key
      then Some (ptr, ptr\<lparr>e_key := never, e_record := never\<rparr> # es)
      else map_option (\<lambda>(tmp, es). (tmp, ptr # es)) (mark_never table key never es))"

text \<open>Keys and records have one type here, as \<open>st_data_t\<close> has in the code.\<close>

definition st_delete_safe :: "('k::zero, 'k) st_table \<Rightarrow> 'k \<Rightarrow> 'k option \<Rightarrow> 'k \<Rightarrow>
    ('k, 'k) st_table \<times> bool \<times> 'k \<times> 'k option" where
  "st_delete_safe table key value never =
     (let pos = bin_pos (do_hash key table) table
      in if bins table ! pos = [] then (table, False, key, map_option (\<lambda>_. 0) value)
         else
           (case mark_never table key never (bins table ! pos) of
              None \<Rightarrow> (table, False, key, value)
            | Some (ptr, es) \<Rightarrow>
                (table\<lparr>bins := (bins table)[pos := es], num_entries := num_entries table - 1\<rparr>, True,
                 e_key ptr, map_option (\<lambda>_. e_record ptr) value)))"

section \<open>Iteration\<close>

text \<open>One bin: the entries kept, the state of the callback, the number of entries deleted, and
  whether the callback asked to stop.\<close>

fun foreach_bin :: "('k \<Rightarrow> 'v \<Rightarrow> 's \<Rightarrow> st_retval \<times> 's) \<Rightarrow> ('k, 'v) st_table_entry list \<Rightarrow> 's \<Rightarrow>
    ('k, 'v) st_table_entry list \<times> 's \<times> nat \<times> bool" where
  "foreach_bin func [] s = ([], s, 0, False)"
| "foreach_bin func (ptr # es) s =
     (let (retval, s) = func (e_key ptr) (e_record ptr) s
      in if retval = ST_STOP then (ptr # es, s, 0, True)
         else let (es, s, d, stop) = foreach_bin func es s
           in if retval = ST_DELETE then (es, s, d + 1, stop) else (ptr # es, s, d, stop))"

fun foreach_bins :: "('k \<Rightarrow> 'v \<Rightarrow> 's \<Rightarrow> st_retval \<times> 's) \<Rightarrow> ('k, 'v) st_table_entry list list \<Rightarrow> 's \<Rightarrow>
    ('k, 'v) st_table_entry list list \<times> 's \<times> nat" where
  "foreach_bins func [] s = ([], s, 0)"
| "foreach_bins func (b # bs) s =
     (let (b, s, d, stop) = foreach_bin func b s
      in if stop then (b # bs, s, d)
         else let (bs, s, d') = foreach_bins func bs s in (b # bs, s, d + d'))"

definition st_foreach :: "('k, 'v) st_table \<Rightarrow> ('k \<Rightarrow> 'v \<Rightarrow> 's \<Rightarrow> st_retval \<times> 's) \<Rightarrow> 's \<Rightarrow> ('k, 'v) st_table \<times> 's" where
  "st_foreach table func s =
     (let (b, s, d) = foreach_bins func (bins table) s
      in (table\<lparr>bins := b, num_entries := num_entries table - int d\<rparr>, s))"

definition delete_never :: "'k \<Rightarrow> 'v \<Rightarrow> 'v \<Rightarrow> st_retval" where
  "delete_never key value never = (if value = never then ST_DELETE else ST_CONTINUE)"

definition st_cleanup_safe :: "('k, 'v) st_table \<Rightarrow> 'v \<Rightarrow> ('k, 'v) st_table" where
  "st_cleanup_safe table never =
     (let n = num_entries table;
          (table, _) = st_foreach table (\<lambda>k v s. (delete_never k v never, s)) ()
      in table\<lparr>num_entries := n\<rparr>)"


lemma all_less_two: "(\<forall>i<2 :: nat. P i) \<longleftrightarrow> P 0 \<and> P 1"
  by (auto simp: numeral_2_eq_2 less_Suc_eq)

section \<open>The contract of a hash type\<close>

locale st_keys =
  fixes ty :: "'k st_hash_type"
  assumes compare_refl: "compare ty k k = 0"
    and compare_sym: "compare ty k l = 0 \<Longrightarrow> compare ty l k = 0"
    and compare_trans: "compare ty k l = 0 \<Longrightarrow> compare ty l m = 0 \<Longrightarrow> compare ty k m = 0"
    and compare_hash: "compare ty k l = 0 \<Longrightarrow> hash_fun ty k = hash_fun ty l"

section \<open>The invariant of a table\<close>

definition st_entries :: "('k, 'v) st_table \<Rightarrow> ('k, 'v) st_table_entry list" where
  "st_entries table = concat (bins table)"

definition entry_ok :: "'k st_hash_type \<Rightarrow> nat \<Rightarrow> nat \<Rightarrow> ('k, 'v) st_table_entry \<Rightarrow> bool" where
  "entry_ok ty n i e \<longleftrightarrow> e_hash e = hash_fun ty (e_key e) \<and> unat (e_hash e) mod n = i"

definition other_key :: "'k st_hash_type \<Rightarrow> ('k, 'v) st_table_entry \<Rightarrow> ('k, 'v) st_table_entry \<Rightarrow> bool" where
  "other_key ty e f \<longleftrightarrow> compare ty (e_key e) (e_key f) \<noteq> 0"

definition bin_ok :: "'k st_hash_type \<Rightarrow> nat \<Rightarrow> nat \<Rightarrow> ('k, 'v) st_table_entry list \<Rightarrow> bool" where
  "bin_ok ty n i es \<longleftrightarrow> (\<forall>e\<in>set es. entry_ok ty n i e) \<and> sorted_wrt (other_key ty) es"

definition bins_ok :: "'k st_hash_type \<Rightarrow> nat \<Rightarrow> ('k, 'v) st_table_entry list list \<Rightarrow> bool" where
  "bins_ok ty n bs \<longleftrightarrow> 0 < n \<and> length bs = n \<and> (\<forall>i<n. bin_ok ty n i (bs ! i))"

definition st_wf :: "('k, 'v) st_table \<Rightarrow> bool" where
  "st_wf table \<longleftrightarrow> bins_ok (st_type table) (num_bins table) (bins table)
     \<and> num_entries table = int (length (st_entries table))"

lemmas st_wf_defs = st_wf_def bins_ok_def bin_ok_def

section \<open>Sizes\<close>

lemma new_size_ok:
  assumes "0 \<le>s sz" and "sz <s 1073741824"
  shows "sint sz < new_size sz \<and> 0 < new_size sz \<and> new_size sz < 1073741910"
  using assms by (simp add: new_size_def primes_def word_sless_alt word_sle_eq)

lemma new_size_pos: "sz <s 1073741824 \<Longrightarrow> 0 < new_size sz"
  by (simp add: new_size_def primes_def word_sless_alt)

lemma new_size_none: "1073741824 \<le>s sz \<Longrightarrow> new_size sz = - 1"
  by (simp add: new_size_def primes_def word_sless_alt word_sle_eq)

section \<open>Chains\<close>

lemma chain_from_dropWhile: "chain_from table h key es = dropWhile (PTR_NOT_EQUAL table h key) es"
  by (induction es) simp_all

lemma FIND_ENTRY_find:
  "(case FIND_ENTRY table h key of [] \<Rightarrow> None | e # _ \<Rightarrow> Some e)
     = find (\<lambda>e. \<not> PTR_NOT_EQUAL table h key e) (bins table ! bin_pos h table)"
proof -
  have "(case dropWhile P es of [] \<Rightarrow> None | e # _ \<Rightarrow> Some e) = find (\<lambda>e. \<not> P e) es" for P and es :: "'c list"
    by (induction es) simp_all
  then show ?thesis by (simp add: FIND_ENTRY_def chain_from_dropWhile)
qed

lemma st_lookup_find:
  "st_lookup table key = map_option e_record
     (find (\<lambda>e. \<not> PTR_NOT_EQUAL table (do_hash key table) key e) (bins table ! bin_pos (do_hash key table) table))"
  by (simp add: st_lookup_def FIND_ENTRY_find [symmetric] split: list.split)

section \<open>Bins as a collection of entries\<close>

lemma length_concat_update:
  assumes "i < length bs"
  shows "length (concat (bs[i := es])) + length (bs ! i) = length (concat bs) + length es"
  using mset_concat_update [OF assms, of es, THEN arg_cong [where f = size]] by simp

lemma mset_push:
  assumes "i < length bs"
  shows "mset (concat (bs[i := e # bs ! i])) = add_mset e (mset (concat bs))"
  using mset_concat_update [OF assms, of "e # bs ! i"] by (simp add: add_eq_conv_ex)

lemma in_concat_nth: "e \<in> set (concat bs) \<longleftrightarrow> (\<exists>i<length bs. e \<in> set (bs ! i))"
  by (auto simp: in_set_conv_nth) (metis nth_mem in_set_conv_nth)+

lemma bins_ok_update:
  "bins_ok ty n bs \<Longrightarrow> i < n \<Longrightarrow> bin_ok ty n i es \<Longrightarrow> bins_ok ty n (bs[i := es])"
  by (simp add: bins_ok_def nth_list_update)

lemma bins_ok_bin: "bins_ok ty n bs \<Longrightarrow> i < n \<Longrightarrow> bin_ok ty n i (bs ! i)"
  by (simp add: bins_ok_def)

lemma sorted_wrt_filter_rev:
  assumes "sorted_wrt R es" and "\<And>a b. R a b \<Longrightarrow> R b a"
  shows "sorted_wrt R (rev (filter P es))"
  using assms by (simp add: sorted_wrt_rev sorted_wrt_filter)
   (metis (no_types, lifting) sorted_wrt_filter sorted_wrt_mono_rel)

section \<open>Chains that are changed\<close>

lemma set_record_split:
  "chain_from table h key es = e # post \<Longrightarrow>
   \<exists>pre. es = pre @ e # post \<and> set_record table h key v es = pre @ e\<lparr>e_record := v\<rparr> # post
     \<and> \<not> PTR_NOT_EQUAL table h key e"
  by (induction es) (force split: if_splits intro: exI [of _ "x # xs" for x xs])+

lemma unlink_next_None: "unlink_next table key es = None \<longleftrightarrow> (\<forall>e\<in>set es. \<not> EQUAL table (e_key e) key)"
  by (induction es) auto

lemma unlink_next_Some:
  "unlink_next table key es = Some (e, es') \<Longrightarrow>
   \<exists>pre post. es = pre @ e # post \<and> es' = pre @ post \<and> EQUAL table (e_key e) key"
proof (induction es arbitrary: es')
  case (Cons f fs)
  show ?case
  proof (cases "EQUAL table (e_key f) key")
    case True
    with Cons.prems show ?thesis by (intro exI [of _ "[]"] exI [of _ es']) auto
  next
    case False
    with Cons.prems obtain fs' where "unlink_next table key fs = Some (e, fs')" "es' = f # fs'" by auto
    with Cons.IH [OF this(1)] show ?thesis by (metis append_Cons)
  qed
qed simp

lemma mark_never_None:
  "mark_never table key never es = None \<longleftrightarrow> (\<forall>e\<in>set es. e_key e = never \<or> \<not> EQUAL table (e_key e) key)"
  by (induction es) auto

lemma mark_never_unlink:
  assumes "\<forall>e\<in>set es. e_key e \<noteq> never"
  shows "mark_never table key never es = None \<and> unlink_next table key es = None
    \<or> (\<exists>pre e post. es = pre @ e # post
        \<and> mark_never table key never es = Some (e, pre @ e\<lparr>e_key := never, e_record := never\<rparr> # post)
        \<and> unlink_next table key es = Some (e, pre @ post))"
  using assms
proof (induction es)
  case (Cons f fs)
  show ?case
  proof (cases "EQUAL table (e_key f) key")
    case True
    with Cons.prems show ?thesis
      by (intro disjI2 exI [of _ "[]"] exI [of _ f] exI [of _ fs]) simp
  next
    case False
    from Cons.prems have "\<forall>e\<in>set fs. e_key e \<noteq> never" by simp
    from Cons.IH [OF this] show ?thesis
    proof (elim disjE exE conjE)
      fix pre e post
      assume "fs = pre @ e # post"
        "mark_never table key never fs = Some (e, pre @ e\<lparr>e_key := never, e_record := never\<rparr> # post)"
        "unlink_next table key fs = Some (e, pre @ post)"
      with False show ?thesis
        by (intro disjI2 exI [of _ "f # pre"] exI [of _ e] exI [of _ post]) simp
    qed (use False in simp)
  qed
qed simp

text \<open>The callback that deletes the entries satisfying a condition.\<close>

lemma foreach_bins_delete:
  "foreach_bins (\<lambda>k v s. (if Q k v then ST_DELETE else ST_CONTINUE, s)) bs s
     = (map (filter (\<lambda>e. \<not> Q (e_key e) (e_record e))) bs, s, length (filter (\<lambda>e. Q (e_key e) (e_record e)) (concat bs)))"
proof -
  have "foreach_bin (\<lambda>k v s. (if Q k v then ST_DELETE else ST_CONTINUE, s)) es s
     = (filter (\<lambda>e. \<not> Q (e_key e) (e_record e)) es, s, length (filter (\<lambda>e. Q (e_key e) (e_record e)) es), False)" for es
    by (induction es) simp_all
  then show ?thesis by (induction bs) simp_all
qed

lemma st_cleanup_safe_filter:
  "st_cleanup_safe table never = table\<lparr>bins := map (filter (\<lambda>e. e_record e \<noteq> never)) (bins table)\<rparr>"
  using foreach_bins_delete [of "\<lambda>k v. v = never" "bins table" "()"]
  by (simp add: st_cleanup_safe_def st_foreach_def delete_never_def)

lemma subseq_set: "subseq es' es \<Longrightarrow> set es' \<subseteq> set es"
  by (induction rule: list_emb.induct) auto

lemma subseq_sorted: "subseq es' es \<Longrightarrow> sorted_wrt R es \<Longrightarrow> sorted_wrt R es'"
  by (induction rule: list_emb.induct) (auto dest: subseq_set)

lemma bin_ok_subseq: "subseq es' es \<Longrightarrow> bin_ok ty n i es \<Longrightarrow> bin_ok ty n i es'"
  using subseq_set [of es' es] subseq_sorted [of es' es] by (auto simp: bin_ok_def)

lemma foreach_bin_subseq:
  "foreach_bin func es s = (es', s', d, stop) \<Longrightarrow> subseq es' es \<and> length es' + d = length es"
  by (induction es arbitrary: s es' d) (auto simp: Let_def split: prod.splits if_splits)

lemma foreach_bins_subseq:
  "foreach_bins func bs s = (bs', s', d) \<Longrightarrow>
   list_all2 subseq bs' bs \<and> length (concat bs') + d = length (concat bs)"
proof (induction bs arbitrary: s bs' s' d)
  case (Cons b bs)
  obtain c s1 d1 stop where b: "foreach_bin func b s = (c, s1, d1, stop)" by (metis prod_cases4)
  show ?case
  proof (cases stop)
    case True
    with Cons.prems b foreach_bin_subseq [OF b] show ?thesis
      by (auto simp: list_all2_same)
  next
    case False
    obtain cs s2 d2 where bs: "foreach_bins func bs s1 = (cs, s2, d2)" by (metis prod_cases3)
    with Cons.prems b False foreach_bin_subseq [OF b] Cons.IH [OF bs] show ?thesis by auto
  qed
qed auto

text \<open>A callback that always continues sees every entry once, bin after bin.\<close>

lemma foreach_bin_continue:
  assumes "\<And>k v s. fst (func k v s) = ST_CONTINUE"
  shows "foreach_bin func es s = (es, foldl (\<lambda>s e. snd (func (e_key e) (e_record e) s)) s es, 0, False)"
proof (induction es arbitrary: s)
  case (Cons e es)
  obtain s1 where "func (e_key e) (e_record e) s = (ST_CONTINUE, s1)"
    using assms by (metis prod.collapse)
  then show ?case by (simp add: Cons.IH)
qed simp

lemma foreach_bins_continue:
  assumes "\<And>k v s. fst (func k v s) = ST_CONTINUE"
  shows "foreach_bins func bs s = (bs, foldl (\<lambda>s e. snd (func (e_key e) (e_record e) s)) s (concat bs), 0)"
  by (induction bs arbitrary: s) (simp_all add: foreach_bin_continue [OF assms])

lemma copy_bin: "foldl (\<lambda>new ptr. ptr # new) acc es = rev es @ acc"
  by (induction es arbitrary: acc) simp_all

section \<open>Rehashing\<close>

lemma length_rehash_fold:
  "length (foldl (\<lambda>nb ptr. let i = f ptr in nb[i := ptr # nb ! i]) nb es) = length nb"
  by (induction es arbitrary: nb) (simp_all add: Let_def)

lemma nth_rehash_fold:
  assumes "i < length nb"
  shows "foldl (\<lambda>nb ptr. let i = f ptr in nb[i := ptr # nb ! i]) nb es ! i
     = rev (filter (\<lambda>e. f e = i) es) @ nb ! i"
  using assms
proof (induction es arbitrary: nb)
  case (Cons e es)
  then show ?case by (cases "f e = i") (simp_all add: Let_def)
qed simp

lemma mset_rehash_fold:
  assumes "\<And>e. f e < length nb"
  shows "mset (concat (foldl (\<lambda>nb ptr. let i = f ptr in nb[i := ptr # nb ! i]) nb es))
     = mset es + mset (concat nb)"
  using assms
proof (induction es arbitrary: nb)
  case (Cons e es)
  have "mset (concat (foldl (\<lambda>nb ptr. let i = f ptr in nb[i := ptr # nb ! i]) (nb[f e := e # nb ! f e]) es))
     = mset es + mset (concat (nb[f e := e # nb ! f e]))"
    using Cons.prems by (intro Cons.IH) simp
  then show ?case using Cons.prems mset_push [of "f e" nb e] by (simp add: Let_def)
qed simp

lemma sorted_wrt_concatI:
  assumes "\<And>b. b \<in> set bs \<Longrightarrow> sorted_wrt R b"
    and "\<And>i j a b. i < j \<Longrightarrow> j < length bs \<Longrightarrow> a \<in> set (bs ! i) \<Longrightarrow> b \<in> set (bs ! j) \<Longrightarrow> R a b"
  shows "sorted_wrt R (concat bs)"
  using assms
proof (induction bs)
  case (Cons c bs)
  have "R a b" if "a \<in> set c" and "b \<in> set (concat bs)" for a b
  proof -
    from that(2) obtain j where "j < length bs" and "b \<in> set (bs ! j)" by (auto simp only: in_concat_nth)
    then show ?thesis using Cons.prems(2) [of 0 "Suc j" a b] that(1) by simp
  qed
  moreover have "sorted_wrt R (concat bs)"
    using Cons.prems(1) Cons.prems(2) [of "Suc i" "Suc j" for i j] by (intro Cons.IH) auto
  ultimately show ?case using Cons.prems(1) by (simp add: sorted_wrt_append)
qed simp

text \<open>Being pairwise related does not depend on the order when the relation is symmetric.\<close>

lemma sorted_wrt_mset_sym:
  assumes "sorted_wrt R es" and "\<And>a b. R a b \<Longrightarrow> R b a" and "mset es = mset fs"
  shows "sorted_wrt R fs"
  using assms(1,3)
proof (induction fs arbitrary: es)
  case (Cons f fs)
  then have "f \<in> set es" by (metis list.set_intros(1) mset_eq_setD)
  then obtain pre post where es: "es = pre @ f # post" by (meson split_list)
  with Cons.prems have *: "mset (pre @ post) = mset fs" "sorted_wrt R (pre @ post)"
    "\<forall>a\<in>set pre. R a f" "\<forall>a\<in>set post. R f a"
    by (auto simp: sorted_wrt_append)
  with Cons.IH [of "pre @ post"] have "sorted_wrt R fs" by simp
  moreover have "set fs = set (pre @ post)" using *(1) by (metis mset_eq_setD)
  ultimately show ?case using *(3,4) assms(2) by auto
qed simp

section \<open>The operations under the contract\<close>

context st_keys begin

lemma other_key_sym: "other_key ty a b \<Longrightarrow> other_key ty b a"
  using compare_sym by (auto simp: other_key_def)

lemma EQUAL_compare: "st_type table = ty \<Longrightarrow> EQUAL table k l \<longleftrightarrow> compare ty k l = 0"
  using compare_refl by (auto simp: EQUAL_def)

lemma bins_ok_sorted:
  assumes "bins_ok ty n bs"
  shows "sorted_wrt (other_key ty) (concat bs)"
proof (rule sorted_wrt_concatI)
  show "sorted_wrt (other_key ty) b" if "b \<in> set bs" for b
    using assms that by (auto simp: bins_ok_def bin_ok_def in_set_conv_nth)
  show "other_key ty a b" if "i < j" "j < length bs" "a \<in> set (bs ! i)" "b \<in> set (bs ! j)" for i j a b
  proof -
    have "entry_ok ty n i a" "entry_ok ty n j b"
      using assms that by (auto simp: bins_ok_def bin_ok_def)
    with \<open>i < j\<close> show ?thesis using compare_hash by (fastforce simp: entry_ok_def other_key_def)
  qed
qed

lemma rehash_bins_ok:
  assumes "bins_ok ty n bs" and "0 < m"
  shows "bins_ok ty m (rehash_bins m bs (replicate m []))"
    and "mset (concat (rehash_bins m bs (replicate m []))) = mset (concat bs)"
proof -
  let ?f = "\<lambda>e :: ('k, 'a) st_table_entry. unat (e_hash e) mod m"
  have nth: "rehash_bins m bs (replicate m []) ! i = rev (filter (\<lambda>e. ?f e = i) (concat bs))" if "i < m" for i
    using that nth_rehash_fold [of i "replicate m []" ?f "concat bs"] by (simp add: rehash_bins_def)
  have "bin_ok ty m i (rev (filter (\<lambda>e. ?f e = i) (concat bs)))" for i
    using assms(1) bins_ok_sorted [OF assms(1)] other_key_sym
    by (auto simp: bin_ok_def in_concat_nth entry_ok_def bins_ok_def simp del: set_concat
        intro!: sorted_wrt_filter_rev)
  with nth \<open>0 < m\<close> show "bins_ok ty m (rehash_bins m bs (replicate m []))"
    by (auto simp: bins_ok_def rehash_bins_def length_rehash_fold)
  show "mset (concat (rehash_bins m bs (replicate m []))) = mset (concat bs)"
    using mset_rehash_fold [of ?f "replicate m []" "concat bs"] \<open>0 < m\<close> by (simp add: rehash_bins_def)
qed

lemma rehash_ok:
  assumes "st_wf table" and "st_type table = ty" and "num_bins table < 1073741823"
  obtains table' where "rehash table = Some table'" and "st_wf table'" and "st_type table' = ty"
    and "mset (st_entries table') = mset (st_entries table)"
    and "num_entries table' = num_entries table" and "num_bins table < num_bins table'"
proof -
  let ?sz = "of_nat (num_bins table + 1) :: u32"
  have "sint ?sz = int (num_bins table + 1)"
    using assms(3) by (intro sint_of_nat_small) simp
  then have "0 \<le>s ?sz" "?sz <s 1073741824" and *: "sint ?sz = int (num_bins table + 1)"
    using assms(3) by (simp_all add: word_sle_eq word_sless_alt del: of_nat_add of_nat_Suc)
  then have sz: "int (num_bins table) + 1 < new_size ?sz"
    using new_size_ok [of ?sz] by simp
  then have ok: "rehash table = Some (table\<lparr>num_bins := nat (new_size ?sz),
      bins := rehash_bins (nat (new_size ?sz)) (bins table) (replicate (nat (new_size ?sz)) [])\<rparr>)"
    by (simp add: rehash_def calloc_bins_def Let_def)
  have "0 < nat (new_size ?sz)" using sz by simp
  with assms rehash_bins_ok [of "num_bins table" "bins table" "nat (new_size ?sz)"]
  have "bins_ok ty (nat (new_size ?sz)) (rehash_bins (nat (new_size ?sz)) (bins table) (replicate (nat (new_size ?sz)) []))"
    and ms: "mset (concat (rehash_bins (nat (new_size ?sz)) (bins table) (replicate (nat (new_size ?sz)) []))) = mset (concat (bins table))"
    by (simp_all add: st_wf_def)
  moreover from ms have "length (concat (rehash_bins (nat (new_size ?sz)) (bins table) (replicate (nat (new_size ?sz)) []))) = length (concat (bins table))"
    by (rule mset_eq_length)
  ultimately show thesis
    using assms sz ms by (intro that [OF ok]) (simp_all add: st_wf_def st_entries_def)
qed

lemma find_entry_Some:
  assumes "st_wf table" and "st_type table = ty"
    and "FIND_ENTRY table (do_hash key table) key = e # es"
  shows "e \<in> set (st_entries table) \<and> compare ty key (e_key e) = 0"
proof -
  let ?i = "bin_pos (do_hash key table) table"
  have "find (\<lambda>e. \<not> PTR_NOT_EQUAL table (do_hash key table) key e) (bins table ! ?i) = Some e"
    using assms(3) by (simp add: FIND_ENTRY_find [symmetric])
  then have "e \<in> set (bins table ! ?i)" "compare ty key (e_key e) = 0"
    using assms(2) by (auto simp: find_Some_iff PTR_NOT_EQUAL_def EQUAL_compare)
  moreover have "?i < length (bins table)"
    using assms(1) by (simp add: bin_pos_def st_wf_defs)
  ultimately show ?thesis by (auto simp: st_entries_def in_concat_nth simp del: set_concat)
qed

lemma find_entry_None:
  assumes "st_wf table" and "st_type table = ty"
    and "FIND_ENTRY table (do_hash key table) key = []" and "e \<in> set (st_entries table)"
  shows "compare ty key (e_key e) \<noteq> 0"
proof
  assume eq: "compare ty key (e_key e) = 0"
  from assms(4) obtain i where i: "i < num_bins table" "e \<in> set (bins table ! i)"
    using assms(1) by (auto simp: st_entries_def in_concat_nth st_wf_defs simp del: set_concat)
  with assms(1,2) have "entry_ok ty (num_bins table) i e" by (auto simp: st_wf_defs)
  with compare_hash [OF eq] have "e_hash e = do_hash key table" "i = bin_pos (do_hash key table) table"
    using assms(2) by (auto simp: entry_ok_def do_hash_def bin_pos_def)
  moreover have "find (\<lambda>e. \<not> PTR_NOT_EQUAL table (do_hash key table) key e)
      (bins table ! bin_pos (do_hash key table) table) = None"
    using assms(3) by (simp add: FIND_ENTRY_find [symmetric])
  ultimately show False
    using i(2) eq assms(2) by (auto simp: find_None_iff PTR_NOT_EQUAL_def EQUAL_compare)
qed

lemma st_lookup_Some:
  assumes "st_wf table" and "st_type table = ty" and "e \<in> set (st_entries table)"
    and "compare ty key (e_key e) = 0"
  shows "st_lookup table key = Some (e_record e)"
proof (cases "FIND_ENTRY table (do_hash key table) key")
  case Nil
  with assms find_entry_None show ?thesis by blast
next
  case (Cons f fs)
  with assms find_entry_Some have f: "f \<in> set (st_entries table)" "compare ty key (e_key f) = 0" by blast+
  have "compare ty (e_key e) (e_key f) = 0" using assms(4) f(2) compare_sym compare_trans by blast
  moreover have "sorted_wrt (other_key ty) (st_entries table)"
    using assms(1,2) bins_ok_sorted [of "num_bins table" "bins table"]
    by (simp add: st_wf_def st_entries_def)
  ultimately have "e = f"
    using assms(3) f(1) other_key_sym
    by (metis (no_types, lifting) in_set_conv_nth linorder_neqE_nat other_key_def sorted_wrt_iff_nth_less)
  with Cons show ?thesis by (simp add: st_lookup_def)
qed

lemma st_lookup_None:
  assumes "st_wf table" and "st_type table = ty"
    and "\<And>e. e \<in> set (st_entries table) \<Longrightarrow> compare ty key (e_key e) \<noteq> 0"
  shows "st_lookup table key = None"
  using assms find_entry_Some by (fastforce simp: st_lookup_def split: list.split)

lemma st_lookup_iff:
  assumes "st_wf table" and "st_type table = ty"
  shows "st_lookup table key = Some r
     \<longleftrightarrow> (\<exists>e\<in>set (st_entries table). compare ty key (e_key e) = 0 \<and> e_record e = r)"
  using st_lookup_Some [OF assms] st_lookup_None [OF assms, of key] by force

lemma st_lookup_cong:
  assumes "st_wf t" "st_type t = ty" "st_wf u" "st_type u = ty"
    and "set (st_entries t) = set (st_entries u)"
  shows "st_lookup t = st_lookup u"
proof
  fix key
  show "st_lookup t key = st_lookup u key"
    by (rule option_eqI) (use assms in \<open>simp add: st_lookup_iff\<close>)
qed

lemma push_wf:
  assumes "st_wf table" and "st_type table = ty"
    and "\<And>e. e \<in> set (st_entries table) \<Longrightarrow> compare ty key (e_key e) \<noteq> 0"
    and "h = do_hash key table" and "entry = \<lparr>e_hash = h, e_key = key, e_record = value\<rparr>"
    and "i = bin_pos h table"
    and "table' = table\<lparr>bins := (bins table)[i := entry # bins table ! i], num_entries := num_entries table + 1\<rparr>"
  shows "st_wf table' \<and> st_type table' = ty \<and> num_entries table' = num_entries table + 1
    \<and> mset (st_entries table') = add_mset entry (mset (st_entries table))"
proof -
  have i: "i < length (bins table)" "length (bins table) = num_bins table"
    using assms(1,6) by (simp_all add: bin_pos_def st_wf_defs)
  have ms: "mset (st_entries table') = add_mset entry (mset (st_entries table))"
    using mset_push [OF i(1)] assms(7) by (simp add: st_entries_def)
  have "entry_ok ty (num_bins table) i entry"
    using assms(2,4-6) by (simp add: entry_ok_def do_hash_def bin_pos_def)
  moreover have "\<forall>f\<in>set (bins table ! i). other_key ty entry f"
    using assms(3,5) nth_mem [OF i(1)] by (fastforce simp: other_key_def st_entries_def)
  ultimately have "bin_ok ty (num_bins table) i (entry # bins table ! i)"
    using bins_ok_bin [of ty "num_bins table" "bins table" i] assms(1,2) i by (simp add: bin_ok_def st_wf_def)
  then have "bins_ok ty (num_bins table) ((bins table)[i := entry # bins table ! i])"
    using assms(1,2) i by (intro bins_ok_update) (simp_all add: st_wf_def)
  moreover have "length (st_entries table') = Suc (length (st_entries table))"
    using ms [THEN arg_cong [where f = size]] by simp
  ultimately show ?thesis using ms assms(1,2,7) by (simp add: st_wf_def)
qed

lemma ADD_DIRECT_ok:
  assumes "st_wf table" and "st_type table = ty" and "num_entries table < 2 ^ 31"
    and "\<And>e. e \<in> set (st_entries table) \<Longrightarrow> compare ty key (e_key e) \<noteq> 0"
    and "h = do_hash key table" and "entry = \<lparr>e_hash = h, e_key = key, e_record = value\<rparr>"
  obtains table' where "ADD_DIRECT table key value h (bin_pos h table) = Some table'"
    and "st_wf table'" and "st_type table' = ty" and "num_entries table' = num_entries table + 1"
    and "mset (st_entries table') = add_mset entry (mset (st_entries table))"
proof (cases "num_entries table div int (num_bins table) > 5")
  case False
  define table' where "table' = table\<lparr>bins := (bins table)[bin_pos h table := entry # bins table ! bin_pos h table],
    num_entries := num_entries table + 1\<rparr>"
  have "ADD_DIRECT table key value h (bin_pos h table) = Some table'"
    using False unfolding ADD_DIRECT_def table'_def assms(6) by simp
  with push_wf [OF assms(1,2,4-6) refl table'_def] show thesis by (intro that) blast+
next
  case True
  have "0 < num_bins table" using assms(1) by (simp add: st_wf_defs)
  moreover have "num_entries table div int (num_bins table) * int (num_bins table)
      + num_entries table mod int (num_bins table) = num_entries table"
    by (rule div_mult_mod_eq)
  moreover have "6 * int (num_bins table) \<le> num_entries table div int (num_bins table) * int (num_bins table)"
    using True by (intro mult_right_mono) simp_all
  ultimately have "6 * int (num_bins table) \<le> num_entries table"
    using pos_mod_sign [of "int (num_bins table)" "num_entries table"] by linarith
  with assms(3) have "num_bins table < 1073741823" by simp
  from rehash_ok [OF assms(1,2) this] obtain t where t: "rehash table = Some t" "st_wf t" "st_type t = ty"
    "mset (st_entries t) = mset (st_entries table)" "num_entries t = num_entries table" by metis
  have "set (st_entries t) = set (st_entries table)" using t(4) by (rule mset_eq_setD)
  moreover have "h = do_hash key t" using assms(2,5) t(3) by (simp add: do_hash_def)
  moreover define table' where "table' = t\<lparr>bins := (bins t)[bin_pos h t := entry # bins t ! bin_pos h t],
    num_entries := num_entries t + 1\<rparr>"
  ultimately have "st_wf table' \<and> st_type table' = ty \<and> num_entries table' = num_entries t + 1
    \<and> mset (st_entries table') = add_mset entry (mset (st_entries t))"
    using assms(4,6) by (intro push_wf [OF t(2,3)]) auto
  moreover have "ADD_DIRECT table key value h (bin_pos h table) = Some table'"
    using True t(1) unfolding ADD_DIRECT_def table'_def assms(6) by simp
  ultimately show thesis unfolding t(4,5) by (intro that) blast+
qed

lemma replace_wf:
  assumes "st_wf table" and "st_type table = ty" and "i < num_bins table"
    and "bins table ! i = pre @ e # post" and "mid = [] \<or> (\<exists>v. mid = [e\<lparr>e_record := v\<rparr>])"
    and "table' = table\<lparr>bins := (bins table)[i := pre @ mid @ post],
      num_entries := num_entries table + int (length mid) - 1\<rparr>"
  shows "st_wf table' \<and> st_type table' = ty
    \<and> mset (st_entries table) + mset mid = add_mset e (mset (st_entries table'))"
proof -
  have i: "i < length (bins table)" "length (bins table) = num_bins table"
    using assms(1,3) by (simp_all add: st_wf_defs)
  have "mset (st_entries table') + mset (bins table ! i) = mset (st_entries table) + mset (pre @ mid @ post)"
    using mset_concat_update [OF i(1)] assms(6) by (simp add: st_entries_def)
  then have ms: "mset (st_entries table) + mset mid = add_mset e (mset (st_entries table'))"
    by (simp add: assms(4))
  then have "size (mset (st_entries table) + mset mid) = size (add_mset e (mset (st_entries table')))"
    by simp
  then have "length (st_entries table) + length mid = Suc (length (st_entries table'))" by simp
  moreover have "bin_ok ty (num_bins table) i (pre @ e # post)"
    using bins_ok_bin [of ty "num_bins table" "bins table" i] assms(1-4) by (simp add: st_wf_def)
  then have "bin_ok ty (num_bins table) i (pre @ mid @ post)"
    using assms(5) by (auto simp: bin_ok_def sorted_wrt_append entry_ok_def other_key_def)
  then have "bins_ok ty (num_bins table) ((bins table)[i := pre @ mid @ post])"
    using assms(1-3) by (intro bins_ok_update) (simp_all add: st_wf_def)
  ultimately show ?thesis using ms assms(1,2,6) by (simp add: st_wf_def)
qed

lemma lookup_after_insert:
  assumes "st_wf t" "st_type t = ty" "st_wf t'" "st_type t' = ty"
    and "mset (st_entries t') = add_mset e' M"
    and "mset (st_entries t) = M \<or> mset (st_entries t) = add_mset e M"
    and "compare ty key (e_key e) = 0" "compare ty key (e_key e') = 0" "e_record e' = v"
  shows "st_lookup t' k = (if compare ty key k = 0 then Some v else st_lookup t k)"
proof -
  have set': "set (st_entries t') = insert e' (set_mset M)"
    using assms(5) [THEN arg_cong [where f = set_mset]] by simp
  show ?thesis
  proof (cases "compare ty key k = 0")
    case True
    then have "compare ty k (e_key e') = 0" using assms(8) compare_sym compare_trans by blast
    then show ?thesis using True st_lookup_Some [OF assms(3,4), of e' k] set' assms(9) by simp
  next
    case False
    then have "compare ty k (e_key e) \<noteq> 0" "compare ty k (e_key e') \<noteq> 0"
      using assms(7,8) compare_sym compare_trans by blast+
    moreover have "set (st_entries t) = set_mset M \<or> set (st_entries t) = insert e (set_mset M)"
      using assms(6) by (metis set_mset_add_mset_insert set_mset_mset)
    ultimately have "st_lookup t' k = st_lookup t k"
      using assms(1-4) set' by (intro option_eqI) (auto simp: st_lookup_iff)
    then show ?thesis using False by simp
  qed
qed

lemma lookup_after_delete:
  assumes "st_wf t" "st_type t = ty" "st_wf t'" "st_type t' = ty"
    and "mset (st_entries t) = add_mset e (mset (st_entries t'))" and "compare ty key (e_key e) = 0"
  shows "st_lookup t' k = (if compare ty key k = 0 then None else st_lookup t k)"
proof -
  have set': "set (st_entries t) = insert e (set (st_entries t'))"
    using assms(5) [THEN arg_cong [where f = set_mset]] by simp
  have "sorted_wrt (other_key ty) (st_entries t)"
    using assms(1,2) bins_ok_sorted [of "num_bins t" "bins t"] by (simp add: st_wf_def st_entries_def)
  then have "sorted_wrt (other_key ty) (e # st_entries t')"
    by (rule sorted_wrt_mset_sym) (use assms(5) other_key_sym in auto)
  then have other: "compare ty (e_key e) (e_key f) \<noteq> 0" if "f \<in> set (st_entries t')" for f
    using that by (simp add: other_key_def)
  show ?thesis
  proof (cases "compare ty key k = 0")
    case True
    then have "compare ty (e_key e) k = 0" using assms(6) compare_sym compare_trans by blast
    with other have "compare ty k (e_key f) \<noteq> 0" if "f \<in> set (st_entries t')" for f
      using that compare_trans by blast
    then show ?thesis using True st_lookup_None [OF assms(3,4)] by simp
  next
    case False
    then have "compare ty k (e_key e) \<noteq> 0" using assms(6) compare_sym compare_trans by blast
    then have "st_lookup t' k = st_lookup t k"
      using assms(1-4) set' by (intro option_eqI) (auto simp: st_lookup_iff)
    then show ?thesis using False by simp
  qed
qed

lemma st_insert_ok:
  assumes "st_wf t" "st_type t = ty" "num_entries t < 2 ^ 31"
  obtains t' where "st_insert t key v = Some (t', st_lookup t key \<noteq> None)" and "st_wf t'" and "st_type t' = ty"
    and "st_lookup t' = (\<lambda>k. if compare ty key k = 0 then Some v else st_lookup t k)"
    and "num_entries t' = num_entries t + (if st_lookup t key = None then 1 else 0)"
proof -
  let ?h = "do_hash key t" and ?i = "bin_pos (do_hash key t) t"
  have i: "?i < num_bins t" using assms(1) by (simp add: bin_pos_def st_wf_defs)
  show thesis
  proof (cases "FIND_ENTRY t ?h key")
    case Nil
    then have none: "st_lookup t key = None" by (simp add: st_lookup_def)
    define entry where "entry = \<lparr>e_hash = ?h, e_key = key, e_record = v\<rparr>"
    from ADD_DIRECT_ok [OF assms find_entry_None [OF assms(1,2) Nil] refl entry_def]
    obtain t' where t': "ADD_DIRECT t key v ?h ?i = Some t'" "st_wf t'" "st_type t' = ty"
      "num_entries t' = num_entries t + 1" "mset (st_entries t') = add_mset entry (mset (st_entries t))" by blast
    have "st_lookup t' k = (if compare ty key k = 0 then Some v else st_lookup t k)" for k
      using lookup_after_insert [OF assms(1,2) t'(2,3,5), of entry key v k] compare_refl
      by (simp add: entry_def)
    then show thesis using t' none Nil by (intro that [of t']) (auto simp: st_insert_def Let_def)
  next
    case (Cons e post)
    then obtain r where some: "st_lookup t key = Some r" by (simp add: st_lookup_def)
    have e: "compare ty key (e_key e) = 0" using find_entry_Some [OF assms(1,2) Cons] by simp
    from set_record_split [OF Cons [unfolded FIND_ENTRY_def], of v] obtain pre where pre: "bins t ! ?i = pre @ e # post"
      "set_record t ?h key v (bins t ! ?i) = pre @ e\<lparr>e_record := v\<rparr> # post"
      by blast
    define t' where "t' = t\<lparr>bins := (bins t)[?i := pre @ [e\<lparr>e_record := v\<rparr>] @ post],
      num_entries := num_entries t + int (length [e\<lparr>e_record := v\<rparr>]) - 1\<rparr>"
    have r: "st_wf t' \<and> st_type t' = ty
      \<and> mset (st_entries t) + mset [e\<lparr>e_record := v\<rparr>] = add_mset e (mset (st_entries t'))"
      by (rule replace_wf [OF assms(1,2) i pre(1) _ t'_def]) blast
    have "t' = t\<lparr>bins := (bins t)[?i := set_record t ?h key v (bins t ! ?i)]\<rparr>"
      unfolding pre(2) by (simp add: t'_def)
    with Cons some have ins: "st_insert t key v = Some (t', st_lookup t key \<noteq> None)"
      by (simp add: st_insert_def Let_def)
    have "e \<in># mset (st_entries t)" using find_entry_Some [OF assms(1,2) Cons] by simp
    then obtain M where M: "mset (st_entries t) = add_mset e M" by (meson multi_member_split)
    with r have "mset (st_entries t') = add_mset (e\<lparr>e_record := v\<rparr>) M" by simp
    then have "st_lookup t' k = (if compare ty key k = 0 then Some v else st_lookup t k)" for k
      using r e by (intro lookup_after_insert [where e' = "e\<lparr>e_record := v\<rparr>", OF assms(1,2) _ _ _ disjI2 [OF M]]) simp_all
    then show thesis using r some by (intro that [OF ins]) (auto simp: t'_def)
  qed
qed

lemma st_delete_absent:
  assumes "st_wf t" "st_type t = ty" "st_lookup t key = None"
  shows "st_delete t key v = (t, False, key,
    if bins t ! bin_pos (do_hash key t) t = [] then map_option (\<lambda>_. 0) v else v)"
proof -
  let ?es = "bins t ! bin_pos (do_hash key t) t"
  have i: "bin_pos (do_hash key t) t < length (bins t)"
    using assms(1) by (simp add: bin_pos_def st_wf_defs)
  have "compare ty key (e_key e) \<noteq> 0" if "e \<in> set ?es" for e
    using st_lookup_Some [OF assms(1,2), of e key] assms(3) that nth_mem [OF i]
    by (force simp: st_entries_def)
  then have "\<not> EQUAL t key (e_key e) \<and> \<not> EQUAL t (e_key e) key" if "e \<in> set ?es" for e
    using that compare_sym by (simp add: EQUAL_compare [OF assms(2)]) blast
  then show ?thesis
    by (auto simp: st_delete_def Let_def unlink_next_None [THEN iffD2] split: list.split)
qed

lemma st_delete_found:
  assumes "st_wf t" "st_type t = ty" "st_lookup t key = Some r"
  obtains t' k' where "st_delete t key v = (t', True, k', map_option (\<lambda>_. r) v)"
    and "compare ty key k' = 0" and "st_wf t'" and "st_type t' = ty"
    and "st_lookup t' = (\<lambda>k. if compare ty key k = 0 then None else st_lookup t k)"
    and "num_entries t' = num_entries t - 1"
proof -
  let ?i = "bin_pos (do_hash key t) t"
  have i: "?i < num_bins t" "?i < length (bins t)"
    using assms(1) by (simp_all add: bin_pos_def st_wf_defs)
  have "\<exists>pre e post. bins t ! ?i = pre @ e # post \<and> compare ty key (e_key e) = 0 \<and>
    st_delete t key v = (t\<lparr>bins := (bins t)[?i := pre @ post], num_entries := num_entries t - 1\<rparr>,
      True, e_key e, map_option (\<lambda>_. e_record e) v)"
  proof (cases "bins t ! ?i")
    case Nil
    then show ?thesis using assms(3) by (simp add: st_lookup_def FIND_ENTRY_def)
  next
    case (Cons p es)
    show ?thesis
    proof (cases "EQUAL t key (e_key p)")
      case True
      with Cons show ?thesis
        by (intro exI [of _ "[]"] exI [of _ p] exI [of _ es])
           (simp add: st_delete_def Let_def EQUAL_compare [OF assms(2)])
    next
      case False
      have "\<exists>e\<in>set (bins t ! ?i). EQUAL t key (e_key e)"
        using assms(3) by (auto simp: st_lookup_find find_Some_iff PTR_NOT_EQUAL_def)
      with Cons False have "\<exists>e\<in>set es. EQUAL t (e_key e) key"
        using compare_sym by (auto simp: EQUAL_compare [OF assms(2)])
      then obtain e es' where u: "unlink_next t key es = Some (e, es')"
        using unlink_next_None [of t key es] by (cases "unlink_next t key es") auto
      from unlink_next_Some [OF this] obtain pre post where
        "es = pre @ e # post" "es' = pre @ post" "EQUAL t (e_key e) key" by blast
      with Cons False u show ?thesis
        by (intro exI [of _ "p # pre"] exI [of _ e] exI [of _ post])
           (auto simp: st_delete_def Let_def EQUAL_compare [OF assms(2)] dest: compare_sym)
    qed
  qed
  then obtain pre e post where e: "bins t ! ?i = pre @ e # post" "compare ty key (e_key e) = 0"
    and del: "st_delete t key v = (t\<lparr>bins := (bins t)[?i := pre @ post], num_entries := num_entries t - 1\<rparr>,
      True, e_key e, map_option (\<lambda>_. e_record e) v)" by blast
  define t' where "t' = t\<lparr>bins := (bins t)[?i := pre @ [] @ post],
    num_entries := num_entries t + int (length ([] :: ('k, 'a) st_table_entry list)) - 1\<rparr>"
  have r: "st_wf t' \<and> st_type t' = ty
    \<and> mset (st_entries t) + mset [] = add_mset e (mset (st_entries t'))"
    by (rule replace_wf [OF assms(1,2) i(1) e(1) _ t'_def]) simp
  have "e \<in> set (st_entries t)" using e(1) nth_mem [OF i(2)] by (force simp: st_entries_def)
  from st_lookup_Some [OF assms(1,2) this e(2)] assms(3) have "e_record e = r" by simp
  with del have "st_delete t key v = (t', True, e_key e, map_option (\<lambda>_. r) v)" by (simp add: t'_def)
  moreover have "st_lookup t' k = (if compare ty key k = 0 then None else st_lookup t k)" for k
    using r e(2) by (intro lookup_after_delete [OF assms(1,2)]) auto
  ultimately show thesis using r e(2) by (intro that) (auto simp: t'_def)
qed

lemma st_init_ok:
  assumes "sz <s 1073741824"
  obtains t where "st_init_table_with_size ty sz = Some t" and "st_wf t" and "st_type t = ty"
    and "st_lookup t = (\<lambda>k. None)" and "num_entries t = 0"
proof -
  define t :: "('k, 'a) st_table" where "t = \<lparr>st_type = ty, num_bins = nat (new_size sz), num_entries = 0,
    bins = replicate (nat (new_size sz)) []\<rparr>"
  have "st_init_table_with_size ty sz = Some t"
    using new_size_pos [OF assms] by (simp add: st_init_table_with_size_def calloc_bins_def t_def Let_def)
  moreover have "st_wf t" "st_type t = ty" and e: "st_entries t = []"
    using new_size_pos [OF assms] by (auto simp: t_def st_wf_defs st_entries_def)
  moreover have "st_lookup t = (\<lambda>k. None)"
    using st_lookup_None [OF \<open>st_wf t\<close> \<open>st_type t = ty\<close>] e by (intro ext) simp
  ultimately show thesis by (intro that) (auto simp: t_def)
qed

lemma st_copy_ok:
  assumes "st_wf t" "st_type t = ty"
  shows "st_wf (st_copy t) \<and> st_type (st_copy t) = ty \<and> st_lookup (st_copy t) = st_lookup t
    \<and> num_entries (st_copy t) = num_entries t"
proof -
  have [simp]: "bins (st_copy t) = map rev (bins t)" "num_bins (st_copy t) = num_bins t"
    "st_type (st_copy t) = st_type t" "num_entries (st_copy t) = num_entries t"
    by (simp_all add: st_copy_def copy_bin [where acc = "[]", simplified] cong: map_cong)
  have "sorted_wrt (other_key ty) (rev es)" if "sorted_wrt (other_key ty) es" for es :: "('k, 'a) st_table_entry list"
    using sorted_wrt_filter_rev [OF that other_key_sym, of "\<lambda>_. True"] by simp
  then have "bins_ok ty (num_bins t) (map rev (bins t))"
    using assms by (auto simp: st_wf_defs)
  moreover have "length (concat (map rev bs)) = length (concat bs)" for bs :: "('k, 'a) st_table_entry list list"
    by (induction bs) simp_all
  ultimately have "st_wf (st_copy t)" using assms by (simp add: st_wf_def st_entries_def)
  moreover have "set (st_entries (st_copy t)) = set (st_entries t)" by (simp add: st_entries_def)
  ultimately show ?thesis using assms st_lookup_cong [of "st_copy t" t] by simp
qed

lemma st_foreach_ok:
  assumes "st_wf t" "st_type t = ty" "st_foreach t func s = (t', s')"
  shows "st_wf t' \<and> st_type t' = ty \<and> st_lookup t' \<subseteq>\<^sub>m st_lookup t"
proof -
  obtain bs d where f: "foreach_bins func (bins t) s = (bs, s', d)"
    and t': "t' = t\<lparr>bins := bs, num_entries := num_entries t - int d\<rparr>"
    using assms(3) by (auto simp: st_foreach_def split: prod.splits)
  have sub: "list_all2 subseq bs (bins t)" and len: "length (concat bs) + d = length (concat (bins t))"
    using foreach_bins_subseq [OF f] by simp_all
  have "bins_ok ty (num_bins t) bs"
    using assms(1,2) sub by (simp add: st_wf_def bins_ok_def list_all2_conv_all_nth) (metis bin_ok_subseq)
  then have wf: "st_wf t'" using assms(1,2) len t' by (simp add: st_wf_def st_entries_def)
  have "set (st_entries t') \<subseteq> set (st_entries t)"
    using sub t' by (fastforce simp: st_entries_def list_all2_conv_all_nth in_set_conv_nth dest: subseq_set)
  moreover have ty': "st_type t' = ty" using assms(2) t' by simp
  ultimately have "st_lookup t k = Some r" if "st_lookup t' k = Some r" for k r
    using that st_lookup_iff [OF wf ty'] st_lookup_iff [OF assms(1,2)] by blast
  then show ?thesis using wf ty' by (auto simp: map_le_def)
qed

end

text \<open>With keys that are machine words, an entry can be marked instead of unlinked.\<close>

locale st_word_keys = st_keys ty for ty :: "'k::zero st_hash_type"

context st_word_keys begin

lemma st_delete_safe_cleanup:
  assumes "st_wf t" "st_type t = ty"
    and "\<And>e. e \<in> set (st_entries t) \<Longrightarrow> e_key e \<noteq> never \<and> e_record e \<noteq> never"
    and "st_delete_safe t key v never = (t', found, key', v')"
  shows "st_delete t key v = (if found then st_cleanup_safe t' never else t', found, key', v')"
proof -
  let ?i = "bin_pos (do_hash key t) t"
  have i: "?i < length (bins t)" using assms(1) by (simp add: bin_pos_def st_wf_defs)
  then have keys: "\<forall>e\<in>set (bins t ! ?i). e_key e \<noteq> never"
    using assms(3) nth_mem [OF i] by (fastforce simp: st_entries_def)
  have del: "st_delete t key v = (case unlink_next t key (bins t ! ?i) of
      None \<Rightarrow> (t, False, key, if bins t ! ?i = [] then map_option (\<lambda>_. 0) v else v)
    | Some (e, es) \<Rightarrow> (t\<lparr>bins := (bins t)[?i := es], num_entries := num_entries t - 1\<rparr>, True,
        e_key e, map_option (\<lambda>_. e_record e) v))"
    using compare_sym by (auto simp: st_delete_def Let_def EQUAL_compare [OF assms(2)] split: list.split option.split)
  consider (none) "mark_never t key never (bins t ! ?i) = None" "unlink_next t key (bins t ! ?i) = None"
    | (some) pre e post where "bins t ! ?i = pre @ e # post"
        "mark_never t key never (bins t ! ?i) = Some (e, pre @ e\<lparr>e_key := never, e_record := never\<rparr> # post)"
        "unlink_next t key (bins t ! ?i) = Some (e, pre @ post)"
    using mark_never_unlink [OF keys, of t key] by (elim disjE exE conjE) simp_all
  then show ?thesis
  proof cases
    case none
    with assms(4) del show ?thesis by (auto simp: st_delete_safe_def Let_def split: if_splits)
  next
    case some
    let ?bs = "(bins t)[?i := pre @ e\<lparr>e_key := never, e_record := never\<rparr> # post]"
    have live: "filter (\<lambda>e. e_record e \<noteq> never) b = b" if "b \<in> set (bins t)" for b
      using assms(3) that by (auto simp: filter_id_conv st_entries_def)
    then have "map (filter (\<lambda>e. e_record e \<noteq> never)) (bins t) = bins t" by (simp add: map_idI)
    moreover have "\<forall>f\<in>set (pre @ e # post). e_record f \<noteq> never"
      using live [OF nth_mem [OF i]] some(1) by (simp only: filter_id_conv)
    then have "filter (\<lambda>e. e_record e \<noteq> never) (pre @ post) = pre @ post"
      by (simp only: filter_id_conv) simp
    ultimately have "map (filter (\<lambda>e. e_record e \<noteq> never)) ?bs = (bins t)[?i := pre @ post]"
      by (simp add: map_update)
    moreover have "t' = t\<lparr>bins := ?bs, num_entries := num_entries t - 1\<rparr>" "found" "key' = e_key e"
      "v' = map_option (\<lambda>_. e_record e) v"
      using assms(4) some by (auto simp: st_delete_safe_def Let_def split: if_splits)
    ultimately show ?thesis
      using del some by (simp add: st_cleanup_safe_filter)
  qed
qed

end

section \<open>Sequences of calls\<close>

datatype ('k, 'v) st_call = Insert 'k 'v | Delete 'k | Lookup 'k | Copy

text \<open>One call on a table: the new table, the number the code returns as a truth value, and the
  record it hands out. \<open>st_delete\<close> gets the address of a cell that holds 0.\<close>

fun st_exec :: "('k, 'v::zero) st_call \<Rightarrow> ('k, 'v) st_table \<Rightarrow> (('k, 'v) st_table \<times> bool \<times> 'v option) option" where
  "st_exec (Insert k v) t = map_option (\<lambda>(t, found). (t, found, None)) (st_insert t k v)"
| "st_exec (Delete k) t = (case st_delete t k (Some 0) of (t, found, _, v) \<Rightarrow> Some (t, found, v))"
| "st_exec (Lookup k) t = Some (t, st_lookup t k \<noteq> None, st_lookup t k)"
| "st_exec Copy t = Some (st_copy t, True, None)"

fun st_run :: "('k, 'v::zero) st_call list \<Rightarrow> ('k, 'v) st_table \<Rightarrow>
    (('k, 'v) st_table \<times> (bool \<times> 'v option) list) option" where
  "st_run [] t = Some (t, [])"
| "st_run (c # cs) t =
     Option.bind (st_exec c t) (\<lambda>(t, reply). map_option (\<lambda>(t, replies). (t, reply # replies)) (st_run cs t))"

text \<open>The same call on the map that the table stands for.\<close>

fun map_exec :: "('k, 'v::zero) st_call \<Rightarrow> ('k \<rightharpoonup> 'v) \<Rightarrow> ('k \<rightharpoonup> 'v) \<times> bool \<times> 'v option" where
  "map_exec (Insert k v) m = (m(k \<mapsto> v), m k \<noteq> None, None)"
| "map_exec (Delete k) m = (m(k := None), m k \<noteq> None, Some (case m k of None \<Rightarrow> 0 | Some v \<Rightarrow> v))"
| "map_exec (Lookup k) m = (m, m k \<noteq> None, m k)"
| "map_exec Copy m = (m, True, None)"

fun map_run :: "('k, 'v::zero) st_call list \<Rightarrow> ('k \<rightharpoonup> 'v) \<Rightarrow> ('k \<rightharpoonup> 'v) \<times> (bool \<times> 'v option) list" where
  "map_run [] m = (m, [])"
| "map_run (c # cs) m =
     (let (m, reply) = map_exec c m; (m, replies) = map_run cs m in (m, reply # replies))"

locale st_exact_keys = st_keys +
  assumes compare_eq: "compare ty k l = 0 \<Longrightarrow> k = l"

context st_exact_keys begin

lemma compare_iff [simp]: "compare ty k l = 0 \<longleftrightarrow> k = l"
  using compare_eq compare_refl by auto

lemma st_exec_refines:
  assumes "st_wf t" "st_type t = ty" "num_entries t < 2 ^ 31" "map_exec c (st_lookup t) = (m, reply)"
  obtains t' where "st_exec c t = Some (t', reply)" and "st_wf t'" and "st_type t' = ty"
    and "st_lookup t' = m" and "num_entries t' \<le> num_entries t + 1"
proof (cases c)
  case (Insert k v)
  from st_insert_ok [OF assms(1-3), of k v] obtain t' where t': "st_insert t k v = Some (t', st_lookup t k \<noteq> None)"
    "st_wf t'" "st_type t' = ty" "num_entries t' = num_entries t + (if st_lookup t k = None then 1 else 0)"
    and "st_lookup t' = (\<lambda>l. if compare ty k l = 0 then Some v else st_lookup t l)" by blast
  then have "st_lookup t' = (st_lookup t)(k \<mapsto> v)" by auto
  then show thesis using t' assms(4) Insert by (intro that [of t']) auto
next
  case (Delete k)
  show thesis
  proof (cases "st_lookup t k")
    case None
    then have "(st_lookup t)(k := None) = st_lookup t" by auto
    then show thesis
      using st_delete_absent [OF assms(1,2) None, of "Some 0"] assms Delete None by (intro that [of t]) auto
  next
    case (Some r)
    obtain t' k' where
      t': "st_delete t k (Some 0) = (t', True, k', Some r)" "st_wf t'" "st_type t' = ty"
        "num_entries t' = num_entries t - 1"
      and lk: "st_lookup t' = (\<lambda>l. if compare ty k l = 0 then None else st_lookup t l)"
      using st_delete_found [OF assms(1,2) Some, of "Some 0", unfolded option.map] by blast
    have "st_lookup t' = (st_lookup t)(k := None)" unfolding lk by auto
    moreover have "m = (st_lookup t)(k := None)" "reply = (True, Some r)" using assms(4) Delete Some by auto
    moreover have "st_exec c t = Some (t', True, Some r)" using Delete t'(1) by simp
    ultimately show thesis using that [of t'] t'(2-4) by simp
  qed
next
  case (Lookup k)
  then show thesis using assms by (intro that [of t]) auto
next
  case Copy
  then show thesis using assms st_copy_ok [OF assms(1,2)] by (intro that [of "st_copy t"]) auto
qed

lemma st_run_refines:
  assumes "st_wf t" "st_type t = ty" "num_entries t + int (length cs) \<le> 2 ^ 31"
    and "map_run cs (st_lookup t) = (m, replies)"
  shows "\<exists>t'. st_run cs t = Some (t', replies) \<and> st_wf t' \<and> st_lookup t' = m"
  using assms
proof (induction cs arbitrary: t m replies)
  case (Cons c cs)
  obtain m1 reply where c: "map_exec c (st_lookup t) = (m1, reply)" by (metis prod.collapse)
  from st_exec_refines [OF Cons.prems(1,2) _ c] Cons.prems(3) obtain t1 where
    t1: "st_exec c t = Some (t1, reply)" "st_wf t1" "st_type t1 = ty" "st_lookup t1 = m1"
      "num_entries t1 \<le> num_entries t + 1" by auto
  obtain rs where "map_run cs (st_lookup t1) = (m, rs)" "replies = reply # rs"
    using Cons.prems(4) c t1(4) by (auto split: prod.splits)
  with Cons.IH [OF t1(2,3) _ this(1)] Cons.prems(3) t1 show ?case by auto
qed simp

end

section \<open>The hash types keep the contract\<close>

lemma strcmp_eq: "strcmp x y = 0 \<longleftrightarrow> x = y"
  by (induction x y rule: strcmp.induct) auto

interpretation strtab: st_exact_keys type_strhash
  by unfold_locales (auto simp: type_strhash_def strcmp_eq)

interpretation numtab: st_exact_keys type_numhash
  by unfold_locales (auto simp: type_numhash_def numcmp_def split: if_splits)

interpretation wordtab: st_word_keys type_numhash
  by unfold_locales

section \<open>Properties\<close>

lemma st_init_strtable_ok:
  obtains t where "st_init_strtable = Some t" and "st_wf t" and "st_type t = type_strhash"
    and "st_lookup t = Map.empty" and "num_entries t = 0"
  by (rule strtab.st_init_ok [of 0]) (simp_all add: st_init_strtable_def st_init_table_def word_sless_alt)

lemma st_init_numtable_ok:
  obtains t where "st_init_numtable = Some t" and "st_wf t" and "st_type t = type_numhash"
    and "st_lookup t = Map.empty" and "num_entries t = 0"
  by (rule numtab.st_init_ok [of 0]) (simp_all add: st_init_numtable_def st_init_table_def word_sless_alt)

text \<open>C27. A table of strings behaves as a finite map: any sequence of fewer than \<open>2 ^ 31\<close> calls of
  \<open>st_insert\<close>, \<open>st_delete\<close>, \<open>st_lookup\<close> and \<open>st_copy\<close> on a new table, with the rehashing
  they cause, runs through without the missing bins of a failed \<open>new_size\<close>, gives the answers that
  the same calls on a map give, and ends in a well-formed table whose lookups are that map.\<close>

theorem st_strtable_is_map:
  fixes cs :: "(u8 list, 'v::zero) st_call list"
  assumes "length cs < 2 ^ 31"
  shows "\<exists>t t'. st_init_strtable = Some t \<and> st_run cs t = Some (t', snd (map_run cs Map.empty))
    \<and> st_wf t' \<and> st_lookup t' = fst (map_run cs Map.empty)"
proof -
  obtain t :: "(u8 list, 'v) st_table" where t: "st_init_strtable = Some t" "st_wf t" "st_type t = type_strhash"
    "st_lookup t = Map.empty" "num_entries t = 0" by (rule st_init_strtable_ok)
  with strtab.st_run_refines [OF t(2,3), of cs] assms show ?thesis by auto
qed

theorem st_strtable_is_map_witness:
  "\<exists>t t' :: (u8 list, u64) st_table. st_init_strtable = Some t
    \<and> st_run [Insert [97] 5, Insert [98] 6, Insert [97] 7, Lookup [97], Delete [98], Lookup [98]] t
      = Some (t', [(False, None), (False, None), (True, None), (True, Some 7), (True, Some 6), (False, None)])
    \<and> st_wf t' \<and> st_lookup t' = [[97] \<mapsto> 7]"
  using st_strtable_is_map [of "[Insert [97] 5, Insert [98] 6, Insert [97] 7, Lookup [97], Delete [98],
    Lookup [98]] :: (u8 list, u64) st_call list"]
  by (simp add: fun_upd_twist)

text \<open>A table of machine words behaves as a finite map in the same sense; its hash function cuts
  the key to 32 bits, so that different keys do meet in a bin.\<close>

theorem st_numtable_is_map:
  fixes cs :: "(u64, 'v::zero) st_call list"
  assumes "length cs < 2 ^ 31"
  shows "\<exists>t t'. st_init_numtable = Some t \<and> st_run cs t = Some (t', snd (map_run cs Map.empty))
    \<and> st_wf t' \<and> st_lookup t' = fst (map_run cs Map.empty)"
proof -
  obtain t :: "(u64, 'v) st_table" where t: "st_init_numtable = Some t" "st_wf t" "st_type t = type_numhash"
    "st_lookup t = Map.empty" "num_entries t = 0" by (rule st_init_numtable_ok)
  with numtab.st_run_refines [OF t(2,3), of cs] assms show ?thesis by auto
qed

theorem st_numtable_is_map_witness:
  "\<exists>t t' :: (u64, u64) st_table. st_init_numtable = Some t
    \<and> st_run [Insert 1 5, Insert 0x100000001 6, Copy, Delete 1, Lookup 0x100000001] t
      = Some (t', [(False, None), (False, None), (True, None), (True, Some 5), (True, Some 6)])
    \<and> st_wf t' \<and> st_lookup t' = [0x100000001 \<mapsto> 6]"
  using st_numtable_is_map [of "[Insert 1 5, Insert 0x100000001 6, Copy, Delete 1,
    Lookup 0x100000001] :: (u64, u64) st_call list"]
  by (simp add: fun_upd_twist)

text \<open>Deleting an entry during an iteration with \<open>st_delete_safe\<close>, which only marks it, and
  sweeping the marks with \<open>st_cleanup_safe\<close> afterwards leaves exactly the table, the answer, the
  key and the value that \<open>st_delete\<close> gives, as long as the mark is no key or record of the table.\<close>

theorem st_delete_safe_then_cleanup:
  assumes "st_wf t" and "st_type t = type_numhash"
    and "\<forall>e\<in>set (st_entries t). e_key e \<noteq> never \<and> e_record e \<noteq> never"
    and "st_delete_safe t key v never = (t', found, key', v')"
  shows "st_delete t key v = (if found then st_cleanup_safe t' never else t', found, key', v')"
  using wordtab.st_delete_safe_cleanup [OF assms(1,2) _ assms(4)] assms(3) by simp

theorem st_delete_safe_then_cleanup_witness:
  "let t = \<lparr>st_type = type_numhash, num_bins = 2, num_entries = 2,
      bins = [[], [\<lparr>e_hash = 3, e_key = 3, e_record = 8\<rparr>, \<lparr>e_hash = 1, e_key = 1, e_record = 9\<rparr>]]\<rparr>
    in st_delete t 1 (Some 0) = (st_cleanup_safe (fst (st_delete_safe t 1 (Some 0) 77)) 77, True, 1, Some 9)"
  using st_delete_safe_then_cleanup [of "\<lparr>st_type = type_numhash, num_bins = 2, num_entries = 2,
      bins = [[], [\<lparr>e_hash = 3, e_key = 3, e_record = 8\<rparr>, \<lparr>e_hash = 1, e_key = 1, e_record = 9\<rparr>]]\<rparr>"
      77 1 "Some 0"]
  by (simp add: st_wf_defs st_entries_def entry_ok_def other_key_def type_numhash_def numcmp_def numhash_def
      st_delete_safe_def bin_pos_def do_hash_def EQUAL_def nth_Cons' all_less_two)

text \<open>An iteration keeps the invariant of a string table whatever its callback does: deleting,
  stopping and asking for the check leave a well-formed table with an exact number of entries, in
  which every key that is still found has its old record.\<close>

theorem st_foreach_keeps_table:
  assumes "st_wf t" and "st_type t = type_strhash" and "st_foreach t func s = (t', s')"
  shows "st_wf t' \<and> st_lookup t' \<subseteq>\<^sub>m st_lookup t"
  using strtab.st_foreach_ok [OF assms] by (elim conjE) (intro conjI)

theorem st_foreach_keeps_table_witness:
  "let t = \<lparr>st_type = type_strhash, num_bins = 1, num_entries = 2,
        bins = [[\<lparr>e_hash = strhash [97], e_key = [97], e_record = 1 :: u64\<rparr>, \<lparr>e_hash = strhash [98], e_key = [98], e_record = 2\<rparr>]]\<rparr>;
      t' = fst (st_foreach t (\<lambda>k v s. (if v = 1 then ST_DELETE else ST_CONTINUE, s + v)) (0 :: u64))
    in st_wf t' \<and> st_lookup t' \<subseteq>\<^sub>m st_lookup t"
proof -
  let ?t = "\<lparr>st_type = type_strhash, num_bins = 1, num_entries = 2,
      bins = [[\<lparr>e_hash = strhash [97], e_key = [97], e_record = 1 :: u64\<rparr>, \<lparr>e_hash = strhash [98], e_key = [98], e_record = 2\<rparr>]]\<rparr>"
  have "st_wf ?t"
    by (simp add: st_wf_defs st_entries_def entry_ok_def other_key_def type_strhash_def)
  from st_foreach_keeps_table [OF this _ surjective_pairing] show ?thesis by (simp add: Let_def)
qed

text \<open>\<open>new_size\<close> gives a positive prime-table entry above the size asked for exactly below
  \<open>2 ^ 30\<close>; from there on it gives -1, for which the comment in the code wants an exception but
  \<open>st_init_table_with_size\<close> builds a table without bins.\<close>

theorem new_size_range:
  "(0 \<le>s sz \<and> sz <s 2 ^ 30 \<longrightarrow> sint sz < new_size sz \<and> new_size sz \<in> set primes)
    \<and> (2 ^ 30 \<le>s sz \<longrightarrow> new_size sz = - 1 \<and> st_init_table_with_size ty sz = None)"
  using new_size_none [of sz]
  by (auto simp: st_init_table_with_size_def calloc_bins_def new_size_def primes_def word_sless_alt word_sle_eq)

theorem new_size_range_witness:
  "100 < new_size 100 \<and> new_size 100 \<in> set primes \<and> new_size 0x40000000 = - 1"
proof (intro conjI)
  show "100 < new_size 100" "new_size 100 \<in> set primes"
    using new_size_range [of 100 type_strhash] by (auto simp: word_sless_alt word_sle_eq)
  show "new_size 0x40000000 = - 1"
    using new_size_range [of "0x40000000" type_strhash] by (auto simp: word_sle_eq)
qed

end
