(* ===== verification/Sdbm_Page.thy ===== *)
theory Sdbm_Page
  imports Prelude
begin

text \<open>
  The page level of the hashed database sdbm (\<open>stdlib/ext/sdbm/_sdbm.c\<close>, the part headed
  \<open>pair.c\<close>, and its hash function). A page is the byte array the code works on: an index of
  16-bit integers from the front, the bytes of keys and values from the back. The machine is
  little-endian (\<open>BIG_E\<close> is not defined), and neither \<open>DUFF\<close> nor \<open>MEMMOVE\<close> is defined, so that the
  byte loops are the ones translated. A \<open>datum\<close> is a byte string, the null datum is \<open>None\<close>. What a
  well-formed page holds is a list of pairs; the operations are proved against that list, and the
  database above relies on them through the laws of a bucket only.
\<close>

type_synonym page = "u8 list"
type_synonym datum = "u8 list option"
type_synonym pair = "u8 list \<times> u8 list"

abbreviation PBLKSIZ :: nat where "PBLKSIZ \<equiv> 1024"

section \<open>The hash function\<close>

definition sdbm_hash :: "u8 list \<Rightarrow> u64" where
  "sdbm_hash str = foldl (\<lambda>n c. (ucast c AND 255) + 65587 * n) 0 str"

section \<open>The page as an array of shorts\<close>

definition GET_SHORT :: "page \<Rightarrow> nat \<Rightarrow> int" where
  "GET_SHORT p i = sint (ucast (p ! (2 * i)) OR push_bit 8 (ucast (p ! (2 * i + 1))) :: 16 word)"

definition PUT_SHORT :: "page \<Rightarrow> nat \<Rightarrow> int \<Rightarrow> page" where
  "PUT_SHORT p i s =
     (let w = word_of_int s :: 16 word in p[2 * i := ucast w, 2 * i + 1 := ucast (drop_bit 8 w)])"

text \<open>The bytes \<open>pag + off\<close> up to \<open>pag + off + siz\<close>.\<close>

definition bytes_at :: "page \<Rightarrow> int \<Rightarrow> int \<Rightarrow> u8 list" where
  "bytes_at pag off siz = take (nat siz) (drop (nat off) pag)"

section \<open>The operations\<close>

definition fitpair :: "page \<Rightarrow> int \<Rightarrow> bool" where
  "fitpair pag need =
     (let n = GET_SHORT pag 0;
          off = (if n > 0 then GET_SHORT pag (nat n) else 1024);
          free = off - (n + 1) * 2
      in need + 2 * 2 \<le> free)"

definition putpair :: "page \<Rightarrow> u8 list \<Rightarrow> u8 list \<Rightarrow> page" where
  "putpair pag key val =
     (let n = GET_SHORT pag 0;
          off = (if n > 0 then GET_SHORT pag (nat n) else 1024);
          off = off - int (length key);
          pag = put_at pag (nat off) key;
          pag = PUT_SHORT pag (nat (n + 1)) off;
          off = off - int (length val);
          pag = put_at pag (nat off) val;
          pag = PUT_SHORT pag (nat (n + 2)) off
      in PUT_SHORT pag 0 (GET_SHORT pag 0 + 2))"

function seepair_from :: "page \<Rightarrow> int \<Rightarrow> u8 list \<Rightarrow> nat \<Rightarrow> int \<Rightarrow> nat" where
  "seepair_from pag n key i off =
     (if int i < n then
        if int (length key) = off - GET_SHORT pag i \<and> key = bytes_at pag (GET_SHORT pag i) (int (length key))
        then i
        else seepair_from pag n key (i + 2) (GET_SHORT pag (i + 1))
      else 0)"
  by pat_completeness auto
termination by (relation "measure (\<lambda>(pag, n, key, i, off). nat (n - int i))") auto

definition seepair :: "page \<Rightarrow> int \<Rightarrow> u8 list \<Rightarrow> nat" where
  "seepair pag n key = seepair_from pag n key 1 1024"

definition getpair :: "page \<Rightarrow> u8 list \<Rightarrow> datum" where
  "getpair pag key =
     (let n = GET_SHORT pag 0
      in if n = 0 then None
         else let i = seepair pag n key
           in if i = 0 then None
              else Some (bytes_at pag (GET_SHORT pag (i + 1)) (GET_SHORT pag i - GET_SHORT pag (i + 1))))"

definition duppair :: "page \<Rightarrow> u8 list \<Rightarrow> bool" where
  "duppair pag key \<longleftrightarrow> GET_SHORT pag 0 > 0 \<and> seepair pag (GET_SHORT pag 0) key > 0"

definition getnkey :: "page \<Rightarrow> int \<Rightarrow> datum" where
  "getnkey pag num =
     (let num = num * 2 - 1
      in if GET_SHORT pag 0 = 0 \<or> num > GET_SHORT pag 0 then None
         else let off = (if num > 1 then GET_SHORT pag (nat (num - 1)) else 1024)
           in Some (bytes_at pag (GET_SHORT pag (nat num)) (off - GET_SHORT pag (nat num))))"

text \<open>\<open>while (m--) *--dst = *--src\<close>\<close>

fun move_down :: "page \<Rightarrow> nat \<Rightarrow> nat \<Rightarrow> nat \<Rightarrow> page" where
  "move_down pag dst src 0 = pag"
| "move_down pag dst src (Suc m) = move_down (pag[dst - 1 := pag ! (src - 1)]) (dst - 1) (src - 1) m"

function shift_index :: "page \<Rightarrow> int \<Rightarrow> int \<Rightarrow> nat \<Rightarrow> page" where
  "shift_index pag n zoo i =
     (if int i < n - 1 then shift_index (PUT_SHORT pag i (GET_SHORT pag (i + 2) + zoo)) n zoo (i + 1) else pag)"
  by pat_completeness auto
termination by (relation "measure (\<lambda>(pag, n, zoo, i). nat (n - int i))") auto

definition delpair :: "page \<Rightarrow> u8 list \<Rightarrow> bool \<times> page" where
  "delpair pag key =
     (let n = GET_SHORT pag 0
      in if n = 0 then (False, pag)
         else let i = seepair pag n key
           in if i = 0 then (False, pag)
              else
                let pag =
                  (if int i < n - 1 then
                     let dst = (if i = 1 then 1024 else GET_SHORT pag (i - 1));
                         src = GET_SHORT pag (i + 1);
                         zoo = dst - src;
                         m = GET_SHORT pag (i + 1) - GET_SHORT pag (nat n)
                     in shift_index (move_down pag (nat dst) (nat src) (nat m)) n zoo i
                   else pag)
                in (True, PUT_SHORT pag 0 (GET_SHORT pag 0 - 2)))"

text \<open>The loop of \<open>splpage\<close>: \<open>i\<close> is the position of the pointer \<open>ino\<close>.\<close>

function split_from :: "page \<Rightarrow> u64 \<Rightarrow> page \<Rightarrow> page \<Rightarrow> nat \<Rightarrow> int \<Rightarrow> int \<Rightarrow> page \<times> page" where
  "split_from cur sbit pag new i off n =
     (if n > 0 then
        let key = bytes_at cur (GET_SHORT cur i) (off - GET_SHORT cur i);
            val = bytes_at cur (GET_SHORT cur (i + 1)) (GET_SHORT cur i - GET_SHORT cur (i + 1))
        in if sdbm_hash key AND sbit \<noteq> 0
           then split_from cur sbit pag (putpair new key val) (i + 2) (GET_SHORT cur (i + 1)) (n - 2)
           else split_from cur sbit (putpair pag key val) new (i + 2) (GET_SHORT cur (i + 1)) (n - 2)
      else (pag, new))"
  by pat_completeness auto
termination by (relation "measure (\<lambda>(cur, sbit, pag, new, i, off, n). nat n)") auto

definition splpage :: "page \<Rightarrow> u64 \<Rightarrow> page \<times> page" where
  "splpage pag sbit =
     split_from pag sbit (replicate PBLKSIZ 0) (replicate PBLKSIZ 0) 1 1024 (GET_SHORT pag 0)"

function chk_from :: "page \<Rightarrow> nat \<Rightarrow> int \<Rightarrow> int \<Rightarrow> bool" where
  "chk_from pag i off n =
     (if n > 0 then
        if GET_SHORT pag i > off \<or> GET_SHORT pag (i + 1) > off \<or> GET_SHORT pag (i + 1) > GET_SHORT pag i
        then False
        else chk_from pag (i + 2) (GET_SHORT pag (i + 1)) (n - 2)
      else True)"
  by pat_completeness auto
termination by (relation "measure (\<lambda>(pag, i, off, n). nat n)") auto

definition chkpage :: "page \<Rightarrow> bool" where
  "chkpage pag =
     (let n = GET_SHORT pag 0
      in if n < 0 \<or> n > 512 then False else chk_from pag 1 1024 n)"

declare seepair_from.simps [simp del] shift_index.simps [simp del] split_from.simps [simp del] chk_from.simps [simp del]

section \<open>Shorts and bytes\<close>

named_theorems page_simps "reading a page after a write"

lemma length_PUT_SHORT [simp]: "length (PUT_SHORT p i s) = length p"
  by (simp add: PUT_SHORT_def Let_def)

lemma short_bytes: "ucast (ucast w :: u8) OR push_bit 8 (ucast (ucast (drop_bit 8 w) :: u8)) = w"
  for w :: "16 word"
  by (rule bit_word_eqI) (auto simp: bit_simps)

lemma GET_PUT_same:
  assumes "2 * i + 1 < length p" and "- 32768 \<le> s" and "s < 32768"
  shows "GET_SHORT (PUT_SHORT p i s) i = s"
proof -
  have "sint (word_of_int s :: 16 word) = s"
    using assms(2,3) by (simp add: int_word_sint signed_take_bit_int_eq_self sint_sbintrunc')
  then show ?thesis
    using assms(1) by (simp add: GET_SHORT_def PUT_SHORT_def Let_def short_bytes)
qed

lemma GET_PUT_other [page_simps]: "i \<noteq> j \<Longrightarrow> GET_SHORT (PUT_SHORT p i s) j = GET_SHORT p j"
  by (simp add: GET_SHORT_def PUT_SHORT_def Let_def nth_list_update)

lemma GET_put_at [page_simps]:
  "2 * i + 2 \<le> off \<Longrightarrow> off \<le> length p \<Longrightarrow> GET_SHORT (put_at p off d) i = GET_SHORT p i"
  by (simp add: GET_SHORT_def put_at_def nth_append)

lemma drop_PUT_SHORT [page_simps]: "2 * i + 2 \<le> k \<Longrightarrow> drop k (PUT_SHORT p i s) = drop k p"
  by (simp add: PUT_SHORT_def Let_def)

lemma GET_SHORT_zero [simp]: "i < 512 \<Longrightarrow> GET_SHORT (replicate PBLKSIZ 0) i = 0"
  by (simp add: GET_SHORT_def)

section \<open>The pairs a page holds\<close>

text \<open>The byte strings in the order in which they were put, from the back of the page.\<close>

definition segs :: "pair list \<Rightarrow> u8 list list" where
  "segs ps = concat (map (\<lambda>(k, v). [k, v]) ps)"

definition used :: "pair list \<Rightarrow> nat" where
  "used ps = length (concat (segs ps))"

definition seg_off :: "pair list \<Rightarrow> nat \<Rightarrow> int" where
  "seg_off ps j = 1024 - int (length (concat (take j (segs ps))))"

definition page_rep :: "page \<Rightarrow> pair list \<Rightarrow> bool" where
  "page_rep pag ps \<longleftrightarrow> length pag = 1024 \<and> GET_SHORT pag 0 = 2 * int (length ps)
     \<and> (\<forall>j<2 * length ps. GET_SHORT pag (Suc j) = seg_off ps (Suc j))
     \<and> drop (1024 - used ps) pag = concat (rev (segs ps))
     \<and> used ps + 2 * (2 * length ps + 1) \<le> 1024"

lemma segs_simps [simp]:
  "segs [] = []" "segs ((k, v) # ps) = k # v # segs ps" "segs (ps @ qs) = segs ps @ segs qs"
  by (simp_all add: segs_def)

lemma length_segs [simp]: "length (segs ps) = 2 * length ps"
  by (induction ps) auto

lemma used_simps [simp]:
  "used [] = 0" "used ((k, v) # ps) = length k + length v + used ps" "used (ps @ qs) = used ps + used qs"
  by (simp_all add: used_def)

lemma used_segs: "length (concat (segs ps)) = used ps"
  by (simp add: used_def)

lemma segs_nth:
  "j < length ps \<Longrightarrow> segs ps ! (2 * j) = fst (ps ! j) \<and> segs ps ! (2 * j + 1) = snd (ps ! j)"
proof (induction ps arbitrary: j)
  case (Cons p ps)
  then show ?case by (cases j; cases p) auto
qed simp

lemma page_repD:
  assumes "page_rep pag ps"
  shows "length pag = 1024" "GET_SHORT pag 0 = 2 * int (length ps)"
    and "drop (1024 - used ps) pag = concat (rev (segs ps))"
    and "used ps + 2 * (2 * length ps + 1) \<le> 1024"
  using assms by (simp_all add: page_rep_def)

lemma seg_off_0 [simp]: "seg_off ps 0 = 1024"
  by (simp add: seg_off_def)

lemma seg_off_end [simp]: "seg_off ps (2 * length ps) = 1024 - int (used ps)"
  by (simp add: seg_off_def used_def)

lemma seg_off_Suc: "j < 2 * length ps \<Longrightarrow> seg_off ps (Suc j) = seg_off ps j - int (length (segs ps ! j))"
  by (simp add: seg_off_def take_Suc_conv_app_nth)

lemma seg_off_append: "j \<le> 2 * length ps \<Longrightarrow> seg_off (ps @ qs) j = seg_off ps j"
  by (simp add: seg_off_def)

lemma take_used: "length (concat (take j (segs ps))) \<le> used ps"
  unfolding used_def by (metis append_take_drop_id concat_append length_append le_add1)

lemma GET_index:
  assumes "page_rep pag ps" and "0 < j" and "j \<le> 2 * length ps"
  shows "GET_SHORT pag j = seg_off ps j"
  using assms by (cases j) (auto simp: page_rep_def)

lemma seg_off_bounds:
  assumes "page_rep pag ps"
  shows "2 * (2 * int (length ps) + 1) \<le> seg_off ps j" "seg_off ps j \<le> 1024"
  using take_used [of j ps] page_repD(4) [OF assms] by (simp_all add: seg_off_def)

lemma bytes_at_seg:
  assumes "page_rep pag ps" and "j < 2 * length ps"
  shows "bytes_at pag (seg_off ps (Suc j)) (seg_off ps j - seg_off ps (Suc j)) = segs ps ! j"
proof -
  let ?a = "length (concat (take (Suc j) (segs ps)))"
  have split: "segs ps = take (Suc j) (segs ps) @ drop (Suc j) (segs ps)" by simp
  then have u: "used ps = ?a + length (concat (drop (Suc j) (segs ps)))"
    unfolding used_def by (metis concat_append length_append)
  have "rev (segs ps) = rev (drop (Suc j) (segs ps)) @ segs ps ! j # rev (take j (segs ps))"
    using split assms(2) by (metis rev_append take_Suc_conv_app_nth length_segs rev.simps(2) rev_rev_ident append.assoc append_Cons append_Nil)
  then have c: "concat (rev (segs ps)) = concat (rev (drop (Suc j) (segs ps))) @ segs ps ! j @ concat (rev (take j (segs ps)))"
    by simp
  have len: "length (concat (rev xss)) = length (concat xss)" for xss :: "u8 list list"
    by (induction xss) auto
  have "drop (1024 - ?a) pag = drop (length (concat (drop (Suc j) (segs ps)))) (drop (1024 - used ps) pag)"
    using u page_repD(4) [OF assms(1)] by (simp add: algebra_simps)
  also have "\<dots> = segs ps ! j @ concat (rev (take j (segs ps)))"
    unfolding page_repD(3) [OF assms(1)] c by (simp add: len)
  finally have "take (length (segs ps ! j)) (drop (1024 - ?a) pag) = segs ps ! j" by simp
  moreover have "nat (seg_off ps (Suc j)) = 1024 - ?a" by (simp add: seg_off_def nat_diff_distrib)
  moreover have "nat (seg_off ps j - seg_off ps (Suc j)) = length (segs ps ! j)"
    using seg_off_Suc [OF assms(2)] by simp
  ultimately show ?thesis by (simp add: bytes_at_def)
qed

lemma page_rep_zero: "page_rep (replicate PBLKSIZ 0) []"
  by (simp add: page_rep_def)

lemma last_off:
  assumes "page_rep pag ps"
  shows "(if GET_SHORT pag 0 > 0 then GET_SHORT pag (nat (GET_SHORT pag 0)) else 1024) = 1024 - int (used ps)"
proof (cases ps)
  case Nil
  then show ?thesis using page_repD(2) [OF assms] by simp
next
  case (Cons p qs)
  then have "0 < length ps" by simp
  then have "GET_SHORT pag (2 * length ps) = 1024 - int (used ps)" "0 < GET_SHORT pag 0"
    "nat (GET_SHORT pag 0) = 2 * length ps"
    using GET_index [OF assms, of "2 * length ps"] page_repD(2) [OF assms] by simp_all
  then show ?thesis by simp
qed

section \<open>Making room and adding a pair\<close>

definition room :: "pair list \<Rightarrow> int \<Rightarrow> bool" where
  "room ps need \<longleftrightarrow> int (used ps) + need + 2 * (2 * int (length ps) + 3) \<le> 1024"

lemma fitpair_room: "page_rep pag ps \<Longrightarrow> fitpair pag need \<longleftrightarrow> room ps need"
  unfolding fitpair_def Let_def last_off
  by (simp add: page_repD(2) room_def algebra_simps)

lemma drop_put_at: "off + length d \<le> length p \<Longrightarrow> drop off (put_at p off d) = d @ drop (off + length d) p"
  by (simp add: put_at_def)

lemma putpair_rep:
  assumes rep: "page_rep pag ps" and room: "room ps (int (length key) + int (length val))"
  shows "page_rep (putpair pag key val) (ps @ [(key, val)])"
proof -
  let ?n = "2 * length ps" and ?o = "1024 - used ps"
  let ?o1 = "?o - length key" and ?o2 = "?o - length key - length val"
  have fit: "used ps + length key + length val + 2 * (?n + 3) \<le> 1024" using room by (simp add: room_def)
  note D = page_repD [OF rep]
  define p1 where "p1 = put_at pag ?o1 key"
  define p2 where "p2 = PUT_SHORT p1 (?n + 1) (int ?o1)"
  define p3 where "p3 = put_at p2 ?o2 val"
  define p4 where "p4 = PUT_SHORT p3 (?n + 2) (int ?o2)"
  define p5 where "p5 = PUT_SHORT p4 0 (2 * int (length ps) + 2)"
  have len: "length p1 = 1024" "length p2 = 1024" "length p3 = 1024" "length p4 = 1024"
    using D(1) fit by (simp_all add: p1_def p2_def p3_def p4_def length_put_at)
  have keep: "GET_SHORT p4 i = GET_SHORT pag i" if "i \<le> ?n" for i
    using that fit D(1) len by (simp add: p1_def p2_def p3_def p4_def page_simps)
  have "putpair pag key val = p5"
    unfolding putpair_def Let_def last_off [OF rep]
    unfolding D(2) p5_def
    using fit keep [of 0] D(2)
    by (simp add: p1_def p2_def p3_def p4_def nat_diff_distrib' nat_add_distrib of_nat_diff nat_mult_distrib algebra_simps)
  moreover have "GET_SHORT p5 0 = 2 * int (length ps) + 2"
    using fit len unfolding p5_def by (intro GET_PUT_same) auto
  moreover have "GET_SHORT p5 (Suc j) = seg_off (ps @ [(key, val)]) (Suc j)" if "j < ?n + 2" for j
  proof -
    consider "j < ?n" | "j = ?n" | "j = ?n + 1" using \<open>j < ?n + 2\<close> by linarith
    then show ?thesis
    proof cases
      case 1
      then have "GET_SHORT p5 (Suc j) = GET_SHORT pag (Suc j)" using keep [of "Suc j"] by (simp add: p5_def page_simps)
      then show ?thesis using 1 GET_index [OF rep, of "Suc j"] by (simp add: seg_off_append)
    next
      case 2
      have "GET_SHORT p5 (Suc j) = GET_SHORT p2 (Suc j)"
        using 2 fit len by (simp add: p5_def p4_def p3_def page_simps)
      also have "\<dots> = int ?o1" using 2 fit len unfolding p2_def by (simp add: GET_PUT_same)
      finally show ?thesis using 2 fit by (simp add: seg_off_def used_segs)
    next
      case 3
      have "GET_SHORT p5 (Suc j) = GET_SHORT p4 (Suc j)" using 3 by (simp add: p5_def page_simps)
      also have "\<dots> = int ?o2" using 3 fit len unfolding p4_def by (simp add: GET_PUT_same)
      finally show ?thesis using 3 fit by (simp add: seg_off_def used_segs)
    qed
  qed
  moreover have "drop ?o2 p5 = concat (rev (segs (ps @ [(key, val)])))"
  proof -
    have "drop ?o2 p5 = drop ?o2 p3" using fit by (simp add: p5_def p4_def page_simps)
    also have "\<dots> = val @ drop ?o1 p2" using fit len by (simp add: p3_def drop_put_at)
    also have "drop ?o1 p2 = drop ?o1 p1" using fit by (simp add: p2_def page_simps)
    also have "drop ?o1 p1 = key @ drop ?o pag" using fit D(1) by (simp add: p1_def drop_put_at)
    finally show ?thesis using D(3) by simp
  qed
  ultimately show ?thesis
    using fit len(4) by (simp add: page_rep_def p5_def add.assoc)
qed

section \<open>Searching\<close>

definition pair_index :: "u8 list \<Rightarrow> pair list \<Rightarrow> nat" where
  "pair_index key ps = length (takeWhile (\<lambda>p. fst p \<noteq> key) ps)"

lemma GET_segs:
  assumes "page_rep pag ps" and "j < length ps"
  shows "GET_SHORT pag (2 * j + 1) = seg_off ps (2 * j + 1)"
    and "GET_SHORT pag (2 * j + 2) = seg_off ps (2 * j + 2)"
    and "seg_off ps (2 * j) - seg_off ps (2 * j + 1) = int (length (fst (ps ! j)))"
    and "seg_off ps (2 * j + 1) - seg_off ps (2 * j + 2) = int (length (snd (ps ! j)))"
    and "bytes_at pag (seg_off ps (2 * j + 1)) (int (length (fst (ps ! j)))) = fst (ps ! j)"
    and "bytes_at pag (seg_off ps (2 * j + 2)) (int (length (snd (ps ! j)))) = snd (ps ! j)"
proof -
  show "GET_SHORT pag (2 * j + 1) = seg_off ps (2 * j + 1)"
    and "GET_SHORT pag (2 * j + 2) = seg_off ps (2 * j + 2)"
    using assms by (auto intro: GET_index)
  note nth = segs_nth [OF assms(2)]
  show d1: "seg_off ps (2 * j) - seg_off ps (2 * j + 1) = int (length (fst (ps ! j)))"
    using seg_off_Suc [of "2 * j" ps] assms(2) nth by simp
  show d2: "seg_off ps (2 * j + 1) - seg_off ps (2 * j + 2) = int (length (snd (ps ! j)))"
    using seg_off_Suc [of "2 * j + 1" ps] assms(2) nth by simp
  show "bytes_at pag (seg_off ps (2 * j + 1)) (int (length (fst (ps ! j)))) = fst (ps ! j)"
    using bytes_at_seg [OF assms(1), of "2 * j"] assms(2) nth d1 by simp
  show "bytes_at pag (seg_off ps (2 * j + 2)) (int (length (snd (ps ! j)))) = snd (ps ! j)"
    using bytes_at_seg [OF assms(1), of "2 * j + 1"] assms(2) nth d2 by simp
qed

lemma seepair_from_spec:
  assumes "page_rep pag ps" and "j \<le> length ps"
  shows "seepair_from pag (2 * int (length ps)) key (2 * j + 1) (seg_off ps (2 * j))
    = (if key \<in> fst ` set (drop j ps) then 2 * (j + pair_index key (drop j ps)) + 1 else 0)"
  using assms(2)
proof (induction "length ps - j" arbitrary: j)
  case 0
  then show ?case by (subst seepair_from.simps) simp
next
  case (Suc d)
  then have j: "j < length ps" by simp
  note G = GET_segs [OF assms(1) j]
  have test: "int (length key) = seg_off ps (2 * j) - GET_SHORT pag (2 * j + 1)
      \<and> key = bytes_at pag (GET_SHORT pag (2 * j + 1)) (int (length key)) \<longleftrightarrow> fst (ps ! j) = key"
    using G(5) unfolding G(1,3) by auto
  have dr: "drop j ps = ps ! j # drop (Suc j) ps" using j by (rule Cons_nth_drop_Suc [symmetric])
  have "seepair_from pag (2 * int (length ps)) key (2 * j + 1) (seg_off ps (2 * j))
    = (if fst (ps ! j) = key then 2 * j + 1
       else seepair_from pag (2 * int (length ps)) key (2 * Suc j + 1) (seg_off ps (2 * Suc j)))"
    using j by (subst seepair_from.simps) (simp add: test [simplified] G(2) [simplified])
  also have "\<dots> = (if key \<in> fst ` set (drop j ps) then 2 * (j + pair_index key (drop j ps)) + 1 else 0)"
    using Suc.hyps(1) [of "Suc j"] Suc.hyps(2) j by (simp add: dr pair_index_def)
  finally show ?case .
qed

lemma seepair_spec:
  assumes "page_rep pag ps"
  shows "seepair pag (GET_SHORT pag 0) key = (if key \<in> fst ` set ps then 2 * pair_index key ps + 1 else 0)"
  using seepair_from_spec [OF assms, of 0 key] page_repD(2) [OF assms] by (simp add: seepair_def)

lemma pair_index_split:
  assumes "key \<in> fst ` set ps"
  obtains A v B where "ps = A @ (key, v) # B" and "key \<notin> fst ` set A" and "pair_index key ps = length A"
    and "map_of ps key = Some v"
proof -
  from assms have "\<exists>p\<in>set ps. fst p = key" by auto
  from split_list_first_prop [OF this] obtain A v B
    where ps: "ps = A @ (key, v) # B" "\<forall>p\<in>set A. fst p \<noteq> key" by (metis prod.collapse)
  then have "takeWhile (\<lambda>p. fst p \<noteq> key) ps = A" by (simp add: takeWhile_append2)
  moreover have "key \<notin> fst ` set A" using ps(2) by auto
  then have "map_of ps key = Some v" by (simp add: ps(1) map_add_def map_of_eq_None_iff [THEN iffD2])
  ultimately show thesis using ps \<open>key \<notin> fst ` set A\<close> by (intro that) (auto simp: pair_index_def)
qed

lemma getpair_spec:
  assumes "page_rep pag ps"
  shows "getpair pag key = map_of ps key"
proof (cases "key \<in> fst ` set ps")
  case True
  then obtain A v B where ps: "ps = A @ (key, v) # B" "pair_index key ps = length A" "map_of ps key = Some v"
    by (rule pair_index_split)
  then have "length A < length ps" by simp
  note G = GET_segs [OF assms this]
  have "GET_SHORT pag 0 \<noteq> 0" using page_repD(2) [OF assms] ps(1) by simp
  then have "getpair pag key = Some (bytes_at pag (GET_SHORT pag (2 * length A + 2))
      (GET_SHORT pag (2 * length A + 1) - GET_SHORT pag (2 * length A + 2)))"
    using seepair_spec [OF assms, of key] True by (simp add: getpair_def Let_def ps(2))
  also have "\<dots> = Some v" unfolding G(1,2,4,6) using ps(1) by simp
  finally show ?thesis using ps(3) by simp
next
  case False
  then have "map_of ps key = None" by (simp add: map_of_eq_None_iff)
  with False show ?thesis
    using seepair_spec [OF assms, of key] by (simp add: getpair_def Let_def)
qed

lemma duppair_spec: "page_rep pag ps \<Longrightarrow> duppair pag key \<longleftrightarrow> key \<in> fst ` set ps"
  using seepair_spec [of pag ps key] page_repD(2) [of pag ps] by (cases ps) (auto simp: duppair_def)

lemma getnkey_spec:
  assumes "page_rep pag ps" and "0 < num"
  shows "getnkey pag (int num) = (if num \<le> length ps then Some (fst (ps ! (num - 1))) else None)"
proof (cases "num \<le> length ps")
  case True
  obtain j where j: "num = Suc j" using assms(2) by (cases num) auto
  with True have "j < length ps" by simp
  note G = GET_segs [OF assms(1) this]
  have off: "(if int num * 2 - 1 > 1 then GET_SHORT pag (nat (int num * 2 - 1 - 1)) else 1024) = seg_off ps (2 * j)"
    using GET_index [OF assms(1), of "2 * j"] True j by (cases j) (auto simp: nat_mult_distrib nat_add_distrib algebra_simps)
  have "nat (int num * 2 - 1) = 2 * j + 1" using j by simp
  then have "getnkey pag (int num) = Some (bytes_at pag (GET_SHORT pag (2 * j + 1))
      (seg_off ps (2 * j) - GET_SHORT pag (2 * j + 1)))"
    unfolding getnkey_def Let_def off using True j page_repD(2) [OF assms(1)] by auto
  also have "\<dots> = Some (fst (ps ! j))" unfolding G(1,3,5) ..
  finally show ?thesis using True j by simp
next
  case False
  then show ?thesis using page_repD(2) [OF assms(1)] by (simp add: getnkey_def Let_def)
qed

section \<open>Deleting\<close>

lemma length_move_down [simp]: "length (move_down pag dst src m) = length pag"
  by (induction pag dst src m rule: move_down.induct) simp_all

text \<open>The byte loop from the back is the overlapping move that \<open>memmove\<close> makes.\<close>

lemma move_down_eq:
  assumes "m \<le> src" "src \<le> dst" "dst \<le> length pag"
  shows "move_down pag dst src m = take (dst - m) pag @ take m (drop (src - m) pag) @ drop dst pag"
  using assms
proof (induction pag dst src m rule: move_down.induct)
  case (1 pag dst src)
  then show ?case by simp
next
  case (2 pag dst src m)
  let ?p = "pag[dst - 1 := pag ! (src - 1)]"
  have "move_down pag dst src (Suc m)
    = take (dst - Suc m) ?p @ take m (drop (src - Suc m) ?p) @ drop (dst - 1) ?p"
    using 2 by simp
  moreover have "take (dst - Suc m) ?p = take (dst - Suc m) pag" using 2 by simp
  moreover have "take m (drop (src - Suc m) ?p) = take m (drop (src - Suc m) pag)"
    using "2.prems" by (intro nth_equalityI) (auto simp: nth_list_update)
  moreover have "drop (dst - 1) ?p = pag ! (src - 1) # drop dst pag"
    using "2.prems" Cons_nth_drop_Suc [of "dst - 1" ?p] by simp
  moreover have "take (Suc m) (drop (src - Suc m) pag) = take m (drop (src - Suc m) pag) @ [pag ! (src - 1)]"
    using "2.prems" by (simp add: take_Suc_conv_app_nth)
  ultimately show ?case by simp
qed

lemma GET_take: "2 * i + 2 \<le> k \<Longrightarrow> take k p = take k q \<Longrightarrow> GET_SHORT p i = GET_SHORT q i"
proof -
  assume k: "2 * i + 2 \<le> k" and eq: "take k p = take k q"
  have "p ! a = q ! a" if "a < k" for a
    using that eq by (metis nth_take)
  then show ?thesis using k by (simp add: GET_SHORT_def)
qed

lemma shift_index_spec:
  assumes "n \<le> 512" "length pag = 1024"
    and "\<And>j. i \<le> j \<Longrightarrow> j + 1 < n \<Longrightarrow> - 32768 \<le> GET_SHORT pag (j + 2) + zoo \<and> GET_SHORT pag (j + 2) + zoo < 32768"
  shows "length (shift_index pag (int n) zoo i) = 1024
    \<and> (\<forall>j. GET_SHORT (shift_index pag (int n) zoo i) j
          = (if i \<le> j \<and> j + 1 < n then GET_SHORT pag (j + 2) + zoo else GET_SHORT pag j))
    \<and> (\<forall>k. 2 * n \<le> k \<longrightarrow> drop k (shift_index pag (int n) zoo i) = drop k pag)"
  using assms
proof (induction "n - i" arbitrary: i pag)
  case 0
  then have "shift_index pag (int n) zoo i = pag" by (subst shift_index.simps) simp
  then show ?case using 0 by auto
next
  case (Suc d)
  show ?case
  proof (cases "i + 1 < n")
    case False
    then have "shift_index pag (int n) zoo i = pag" by (subst shift_index.simps) simp
    then show ?thesis using False Suc.prems by auto
  next
    case True
    let ?p = "PUT_SHORT pag i (GET_SHORT pag (i + 2) + zoo)"
    have step: "shift_index pag (int n) zoo i = shift_index ?p (int n) zoo (i + 1)"
      using True by (subst shift_index.simps) simp
    have get: "GET_SHORT ?p j = (if j = i then GET_SHORT pag (i + 2) + zoo else GET_SHORT pag j)" for j
      using Suc.prems(3) [of i] True Suc.prems(1,2) by (auto simp: page_simps GET_PUT_same)
    have "d = n - (i + 1)" using Suc.hyps(2) by simp
    from Suc.hyps(1) [OF this Suc.prems(1)] Suc.prems(2,3) get
    have IH: "length (shift_index ?p (int n) zoo (i + 1)) = 1024
      \<and> (\<forall>j. GET_SHORT (shift_index ?p (int n) zoo (i + 1)) j
          = (if i + 1 \<le> j \<and> j + 1 < n then GET_SHORT ?p (j + 2) + zoo else GET_SHORT ?p j))
      \<and> (\<forall>k. 2 * n \<le> k \<longrightarrow> drop k (shift_index ?p (int n) zoo (i + 1)) = drop k ?p)" by simp
    show ?thesis unfolding step
    proof (intro conjI allI impI)
      fix j show "GET_SHORT (shift_index ?p (int n) zoo (i + 1)) j
          = (if i \<le> j \<and> j + 1 < n then GET_SHORT pag (j + 2) + zoo else GET_SHORT pag j)"
        using IH get True by (cases "j = i") auto
    next
      fix k assume "2 * n \<le> k"
      then show "drop k (shift_index ?p (int n) zoo (i + 1)) = drop k pag"
        using IH True by (simp add: page_simps)
    qed (use IH in simp)
  qed
qed

lemma seg_off_cut:
  assumes "2 * length A \<le> j"
  shows "seg_off (A @ (key, v) # B) (j + 2) = seg_off (A @ B) j - int (length key) - int (length v)"
proof -
  obtain d where "j = 2 * length A + d" using assms le_Suc_ex by blast
  then show ?thesis by (simp add: seg_off_def used_segs)
qed

lemma delpair_rep:
  assumes rep: "page_rep pag ps" and "ps = A @ (key, v) # B" and "key \<notin> fst ` set A"
  shows "fst (delpair pag key)" and "page_rep (snd (delpair pag key)) (A @ B)"
proof -
  let ?n = "2 * length ps" and ?i = "2 * length A + 1"
  note D = page_repD [OF rep]
  have idx: "pair_index key ps = length A"
    using assms(3) unfolding pair_index_def assms(2) by (subst takeWhile_append2) auto
  have see: "seepair pag (GET_SHORT pag 0) key = ?i"
    using seepair_spec [OF rep, of key] assms(2) idx by simp
  have usd: "used ps = used A + (length key + length v + used B)" using assms(2) by simp
  have len: "length ps = length A + 1 + length B" using assms(2) by simp
  have segs: "concat (rev (segs ps)) = concat (rev (segs B)) @ v @ key @ concat (rev (segs A))"
    using assms(2) by simp
  define pag2 where "pag2 = (if int ?i < GET_SHORT pag 0 - 1 then
      shift_index (move_down pag (nat (if ?i = 1 then 1024 else GET_SHORT pag (?i - 1))) (nat (GET_SHORT pag (?i + 1)))
        (nat (GET_SHORT pag (?i + 1) - GET_SHORT pag (nat (GET_SHORT pag 0)))))
        (GET_SHORT pag 0) ((if ?i = 1 then 1024 else GET_SHORT pag (?i - 1)) - GET_SHORT pag (?i + 1)) ?i
    else pag)"
  have nz: "GET_SHORT pag 0 \<noteq> 0" using D(2) len by simp
  have del: "delpair pag key = (True, PUT_SHORT pag2 0 (GET_SHORT pag2 0 - 2))"
    using nz by (simp add: delpair_def Let_def see pag2_def)
  then show "fst (delpair pag key)" by simp
  have pag2: "length pag2 = 1024 \<and> GET_SHORT pag2 0 = int ?n
    \<and> (\<forall>j<?n - 2. GET_SHORT pag2 (Suc j) = seg_off (A @ B) (Suc j))
    \<and> drop (1024 - used (A @ B)) pag2 = concat (rev (segs (A @ B)))"
  proof (cases "B = []")
    case True
    then have "pag2 = pag" using D(2) len by (simp add: pag2_def)
    moreover have "GET_SHORT pag (Suc j) = seg_off (A @ B) (Suc j)" if "j < ?n - 2" for j
      using that GET_index [OF rep, of "Suc j"] True assms(2) seg_off_append [of "Suc j" A "(key, v) # B"] len by simp
    moreover have "drop (1024 - used A) pag = drop (length key + length v) (drop (1024 - used ps) pag)"
      using usd True D(4) by simp
    ultimately show ?thesis using D True segs by simp
  next
    case False
    let ?dst = "1024 - used A" and ?src = "1024 - used A - length key - length v" and ?m = "used B"
    let ?zoo = "int (length key) + int (length v)"
    define mv' where "mv' = move_down pag ?dst ?src ?m"
    have fit: "used A + (length key + length v + used B) + 2 * (?n + 1) \<le> 1024" using D(4) usd by simp
    have i: "length A < length ps" using len by simp
    have nth: "ps ! length A = (key, v)" using assms(2) by simp
    note G = GET_segs [OF rep i, unfolded nth fst_conv snd_conv]
    have offA: "seg_off ps (2 * length A) = 1024 - int (used A)"
      using assms(2) seg_off_append [of "2 * length A" A "(key, v) # B"] by simp
    have dst: "(if ?i = 1 then 1024 else GET_SHORT pag (?i - 1)) = int ?dst"
      using GET_index [OF rep, of "2 * length A"] offA len fit by auto
    have src: "GET_SHORT pag (?i + 1) = int ?src" using G(2-4) offA fit by simp
    have fin: "GET_SHORT pag (nat (GET_SHORT pag 0)) = int (1024 - used ps)"
      using last_off [OF rep] nz D(2,4) by auto
    have m: "nat (GET_SHORT pag (?i + 1) - GET_SHORT pag (nat (GET_SHORT pag 0))) = ?m"
      unfolding src fin using usd fit by simp
    have zoo: "int ?dst - int ?src = ?zoo" using fit by simp
    have more: "int ?i < GET_SHORT pag 0 - 1" using False len D(2) by (cases B) auto
    have p2: "pag2 = shift_index mv' (int ?n) ?zoo ?i"
      using more unfolding pag2_def dst m unfolding src zoo D(2) mv'_def by simp
    have mv: "mv' = take (?dst - ?m) pag @ take ?m (drop (?src - ?m) pag) @ drop ?dst pag"
      using fit D(1) unfolding mv'_def by (intro move_down_eq) auto
    have "drop (?src - ?m) pag = concat (rev (segs ps))" using D(3) usd fit by (simp add: algebra_simps)
    then have B: "take ?m (drop (?src - ?m) pag) = concat (rev (segs B))" by (simp add: segs used_segs)
    have "drop ?dst pag = drop (used B + length key + length v) (drop (1024 - used ps) pag)"
      using usd fit by (simp add: algebra_simps)
    then have A: "drop ?dst pag = concat (rev (segs A))" unfolding D(3) segs by (simp add: used_segs)
    have lenmv: "length mv' = 1024" using D(1) by (simp add: mv'_def)
    have getmv: "GET_SHORT mv' j = GET_SHORT pag j" if "j \<le> ?n" for j
    proof (rule GET_take)
      show "2 * j + 2 \<le> ?dst - ?m" using that fit by simp
      show "take (?dst - ?m) mv' = take (?dst - ?m) pag" using D(1) fit unfolding mv by simp
    qed
    have "GET_SHORT mv' (j + 2) = seg_off ps (j + 2)" if "j + 1 < ?n" for j
      using that getmv [of "j + 2"] GET_index [OF rep, of "j + 2"] by simp
    moreover have "- 32768 \<le> seg_off ps j + ?zoo \<and> seg_off ps j + ?zoo < 32768" for j
      using seg_off_bounds [OF rep, of j] fit by simp
    ultimately have sh: "length pag2 = 1024
      \<and> (\<forall>j. GET_SHORT pag2 j = (if ?i \<le> j \<and> j + 1 < ?n then GET_SHORT mv' (j + 2) + ?zoo else GET_SHORT mv' j))
      \<and> (\<forall>k. 2 * ?n \<le> k \<longrightarrow> drop k pag2 = drop k mv')"
      unfolding p2 using lenmv fit by (intro shift_index_spec) auto
    have "GET_SHORT pag2 (Suc j) = seg_off (A @ B) (Suc j)" if "j < ?n - 2" for j
    proof (cases "?i \<le> Suc j")
      case True
      then have "GET_SHORT pag2 (Suc j) = seg_off ps (Suc j + 2) + ?zoo"
        using sh [THEN conjunct2, THEN conjunct1, rule_format, of "Suc j"] that
          getmv [of "Suc j + 2"] GET_index [OF rep, of "Suc j + 2"] by auto
      then show ?thesis using seg_off_cut [of A "Suc j" key v B] True assms(2) by simp
    next
      case False
      then have "GET_SHORT pag2 (Suc j) = seg_off ps (Suc j)"
        using sh [THEN conjunct2, THEN conjunct1, rule_format, of "Suc j"] that
          getmv [of "Suc j"] GET_index [OF rep, of "Suc j"] by auto
      then show ?thesis using False assms(2) by (simp add: seg_off_append)
    qed
    moreover have "GET_SHORT pag2 0 = int ?n" using sh getmv [of 0] D(2) by simp
    moreover have "drop (1024 - used (A @ B)) pag2 = concat (rev (segs (A @ B)))"
    proof -
      have "drop (1024 - used (A @ B)) pag2 = drop (1024 - used (A @ B)) mv'"
        using sh fit by simp
      also have "\<dots> = take ?m (drop (?src - ?m) pag) @ drop ?dst pag"
        using fit D(1) unfolding mv by simp
      finally show ?thesis by (simp only: A B) simp
    qed
    ultimately show ?thesis using sh by blast
  qed
  define p3 where "p3 = PUT_SHORT pag2 0 (GET_SHORT pag2 0 - 2)"
  have "GET_SHORT p3 0 = int ?n - 2"
    using pag2 D(4) unfolding p3_def by (subst GET_PUT_same) auto
  then show "page_rep (snd (delpair pag key)) (A @ B)"
    using pag2 D(4) usd len unfolding del by (auto simp: page_rep_def p3_def page_simps)
qed

lemma delpair_none:
  assumes "page_rep pag ps" and "key \<notin> fst ` set ps"
  shows "delpair pag key = (False, pag)"
  using seepair_spec [OF assms(1), of key] assms(2) by (simp add: delpair_def Let_def)

section \<open>Splitting and checking\<close>

definition to_new :: "u64 \<Rightarrow> pair \<Rightarrow> bool" where
  "to_new sbit p \<longleftrightarrow> sdbm_hash (fst p) AND sbit \<noteq> 0"

lemma used_filter: "used (filter P ps) \<le> used ps"
  by (induction ps) auto

lemma room_filter_take:
  assumes "page_rep cur ps" and "j < length ps"
  shows "room (filter P (take j ps)) (int (length (fst (ps ! j))) + int (length (snd (ps ! j))))"
proof -
  have "ps = take j ps @ ps ! j # drop (Suc j) ps" using assms(2) by (rule id_take_nth_drop)
  then have "used ps = used (take j ps) + (length (fst (ps ! j)) + length (snd (ps ! j)) + used (drop (Suc j) ps))"
    by (metis used_simps(2,3) prod.collapse)
  moreover have "length (filter P (take j ps)) \<le> j"
    by (rule order_trans [OF length_filter_le]) simp
  ultimately show ?thesis
    using used_filter [of P "take j ps"] page_repD(4) [OF assms(1)] assms(2) by (simp add: room_def)
qed

lemma split_from_spec:
  assumes "page_rep cur ps" and "j \<le> length ps"
    and "page_rep pag (filter (\<lambda>p. \<not> to_new sbit p) (take j ps))"
    and "page_rep new (filter (to_new sbit) (take j ps))"
    and "split_from cur sbit pag new (2 * j + 1) (seg_off ps (2 * j)) (2 * int (length ps) - 2 * int j) = (p, q)"
  shows "page_rep p (filter (\<lambda>p. \<not> to_new sbit p) ps) \<and> page_rep q (filter (to_new sbit) ps)"
  using assms(2-5)
proof (induction "length ps - j" arbitrary: j pag new)
  case 0
  then show ?case by (simp add: split_from.simps [of cur])
next
  case (Suc d)
  then have j: "j < length ps" by simp
  note G = GET_segs [OF assms(1) j]
  have key: "bytes_at cur (GET_SHORT cur (2 * j + 1)) (seg_off ps (2 * j) - GET_SHORT cur (2 * j + 1)) = fst (ps ! j)"
    unfolding G(1,3) by (rule G(5))
  have val: "bytes_at cur (GET_SHORT cur (2 * j + 2)) (GET_SHORT cur (2 * j + 1) - GET_SHORT cur (2 * j + 2)) = snd (ps ! j)"
    unfolding G(1,2,4) by (rule G(6))
  have tk: "take (Suc j) ps = take j ps @ [ps ! j]" using j by (rule take_Suc_conv_app_nth)
  have arith: "2 * int (length ps) - 2 * int j > 0" "2 * int (length ps) - 2 * int j - 2 = 2 * int (length ps) - 2 * int (Suc j)"
    "2 * j + 1 + 2 = 2 * Suc j + 1" "2 * j + 1 + 1 = 2 * j + 2" "2 * j + 2 = 2 * Suc j" using j by simp_all
  have step: "split_from cur sbit pag new (2 * j + 1) (seg_off ps (2 * j)) (2 * int (length ps) - 2 * int j)
    = (if to_new sbit (ps ! j)
       then split_from cur sbit pag (putpair new (fst (ps ! j)) (snd (ps ! j)))
         (2 * Suc j + 1) (seg_off ps (2 * Suc j)) (2 * int (length ps) - 2 * int (Suc j))
       else split_from cur sbit (putpair pag (fst (ps ! j)) (snd (ps ! j))) new
         (2 * Suc j + 1) (seg_off ps (2 * Suc j)) (2 * int (length ps) - 2 * int (Suc j)))"
    using arith(1) unfolding split_from.simps [of cur sbit pag new] Let_def arith(2-4) key val
    by (simp add: to_new_def G(2) [simplified])
  have put: "page_rep (putpair pg (fst (ps ! j)) (snd (ps ! j))) (filter P (take j ps) @ [ps ! j])"
    if "page_rep pg (filter P (take j ps))" for pg P
    using putpair_rep [OF that room_filter_take [OF assms(1) j]] by simp
  show ?case
  proof (cases "to_new sbit (ps ! j)")
    case True
    with Suc.hyps(1) [of "Suc j" pag "putpair new (fst (ps ! j)) (snd (ps ! j))"] Suc.hyps(2) Suc.prems j put step
    show ?thesis by (simp add: tk)
  next
    case False
    with Suc.hyps(1) [of "Suc j" "putpair pag (fst (ps ! j)) (snd (ps ! j))" new] Suc.hyps(2) Suc.prems j put step
    show ?thesis by (simp add: tk)
  qed
qed

lemma splpage_rep:
  assumes "page_rep pag ps"
  shows "page_rep (fst (splpage pag sbit)) (filter (\<lambda>p. \<not> to_new sbit p) ps)"
    and "page_rep (snd (splpage pag sbit)) (filter (to_new sbit) ps)"
  using split_from_spec [OF assms, of 0 "replicate PBLKSIZ 0" sbit "replicate PBLKSIZ 0"
      "fst (splpage pag sbit)" "snd (splpage pag sbit)"] page_rep_zero
  by (simp_all add: splpage_def page_repD(2) [OF assms])

lemma chk_from_spec:
  assumes "page_rep pag ps" and "j \<le> length ps"
  shows "chk_from pag (2 * j + 1) (seg_off ps (2 * j)) (2 * int (length ps) - 2 * int j)"
  using assms(2)
proof (induction "length ps - j" arbitrary: j)
  case 0
  then show ?case by (simp add: chk_from.simps [of pag])
next
  case (Suc d)
  then have j: "j < length ps" by simp
  note G = GET_segs [OF assms(1) j]
  have "2 * j + 1 + 2 = 2 * Suc j + 1" "2 * j + 1 + 1 = 2 * j + 2" "2 * j + 2 = 2 * Suc j"
    "2 * int (length ps) - 2 * int j - 2 = 2 * int (length ps) - 2 * int (Suc j)" by simp_all
  note arith = this
  have "chk_from pag (2 * Suc j + 1) (seg_off ps (2 * Suc j)) (2 * int (length ps) - 2 * int (Suc j))"
    using Suc.hyps(1) [of "Suc j"] Suc.hyps(2) j by simp
  then show ?case
    using j G(3,4) unfolding chk_from.simps [of pag "2 * j + 1"] arith(1,2,4) G(1)
    by (simp add: G(2) [simplified])
qed

lemma chkpage_rep: "page_rep pag ps \<Longrightarrow> chkpage pag"
  using chk_from_spec [of pag ps 0] page_repD(2,4) [of pag ps] by (simp add: chkpage_def Let_def)

section \<open>The contract of a page\<close>

text \<open>What the database relies on: a page is a bucket of pairs, searched from the oldest pair on.\<close>

locale bucket =
  fixes rep :: "page \<Rightarrow> pair list \<Rightarrow> bool"
    and fit :: "page \<Rightarrow> int \<Rightarrow> bool" and put :: "page \<Rightarrow> u8 list \<Rightarrow> u8 list \<Rightarrow> page"
    and get :: "page \<Rightarrow> u8 list \<Rightarrow> datum" and dup :: "page \<Rightarrow> u8 list \<Rightarrow> bool"
    and del :: "page \<Rightarrow> u8 list \<Rightarrow> bool \<times> page"
  assumes get_rep: "rep pag ps \<Longrightarrow> get pag key = map_of ps key"
    and dup_rep: "rep pag ps \<Longrightarrow> dup pag key \<longleftrightarrow> key \<in> fst ` set ps"
    and put_rep: "rep pag ps \<Longrightarrow> fit pag (int (length key) + int (length val)) \<Longrightarrow> rep (put pag key val) (ps @ [(key, val)])"
    and del_rep: "rep pag (A @ (key, v) # B) \<Longrightarrow> key \<notin> fst ` set A \<Longrightarrow> fst (del pag key) \<and> rep (snd (del pag key)) (A @ B)"
    and del_none: "rep pag ps \<Longrightarrow> key \<notin> fst ` set ps \<Longrightarrow> del pag key = (False, pag)"

context bucket begin

lemma del_map:
  assumes "rep pag ps" and "distinct (map fst ps)"
  obtains qs where "rep (snd (del pag key)) qs" and "distinct (map fst qs)" and "set qs \<subseteq> set ps"
    and "map_of qs = (map_of ps)(key := None)" and "fst (del pag key) \<longleftrightarrow> map_of ps key \<noteq> None"
proof (cases "key \<in> fst ` set ps")
  case False
  then have "map_of ps key = None" by (simp add: map_of_eq_None_iff)
  then have "(map_of ps)(key := None) = map_of ps" by auto
  with assms False del_none show thesis by (intro that [of ps]) (auto simp: \<open>map_of ps key = None\<close>)
next
  case True
  then obtain A v B where ps: "ps = A @ (key, v) # B" "key \<notin> fst ` set A"
    "map_of ps key = Some v" by (rule pair_index_split)
  have "key \<notin> fst ` set B" using assms(2) ps(1) by (auto simp: image_iff)
  with ps(2) have none: "map_of A key = None" "map_of B key = None" by (simp_all add: map_of_eq_None_iff)
  have "map_of (A @ B) = (map_of ps)(key := None)"
  proof
    fix l show "map_of (A @ B) l = ((map_of ps)(key := None)) l"
      using none unfolding ps(1) by (cases "l = key") (simp_all add: map_add_def split: option.split)
  qed
  with assms ps del_rep [of pag A key v B] show thesis by (intro that [of "A @ B"]) auto
qed

lemma put_map:
  assumes "rep pag ps" and "fit pag (int (length key) + int (length val))" and "key \<notin> fst ` set ps"
    and "distinct (map fst ps)"
  shows "rep (put pag key val) (ps @ [(key, val)]) \<and> distinct (map fst (ps @ [(key, val)]))
    \<and> map_of (ps @ [(key, val)]) = (map_of ps)(key \<mapsto> val)"
proof -
  have "map_of ps key = None" using assms(3) by (simp add: map_of_eq_None_iff)
  then have "map_of (ps @ [(key, val)]) = (map_of ps)(key \<mapsto> val)"
    by (auto simp: map_add_def fun_eq_iff split: option.split)
  with assms put_rep show ?thesis by auto
qed

end

interpretation pagebucket: bucket page_rep fitpair putpair getpair duppair delpair
  by unfold_locales
    (auto simp: getpair_spec duppair_spec fitpair_room delpair_none intro: putpair_rep dest: delpair_rep [OF _ refl])

section \<open>Properties\<close>

text \<open>Putting a pair on a page and deleting it again gives the bucket back. After \<open>putpair\<close> of a new key that fits,
  \<open>getpair\<close> finds the value, the other keys are found as before, and \<open>delpair\<close> of the key succeeds
  and leaves a well-formed page with exactly the pairs of the beginning, in their order.\<close>

theorem page_put_get_delete:
  assumes "page_rep pag ps" and "fitpair pag (int (length key) + int (length val))" and "key \<notin> fst ` set ps"
  shows "getpair (putpair pag key val) key = Some val
    \<and> (\<forall>l. l \<noteq> key \<longrightarrow> getpair (putpair pag key val) l = getpair pag l)
    \<and> fst (delpair (putpair pag key val) key) \<and> page_rep (snd (delpair (putpair pag key val) key)) ps"
proof -
  have rep: "page_rep (putpair pag key val) (ps @ [(key, val)])" using assms(1,2) by (rule pagebucket.put_rep)
  have "map_of ps key = None" using assms(3) by (simp add: map_of_eq_None_iff)
  then have "getpair (putpair pag key val) l = (if l = key then Some val else getpair pag l)" for l
    by (simp add: pagebucket.get_rep [OF rep] pagebucket.get_rep [OF assms(1)] map_add_def split: option.split)
  then show ?thesis using pagebucket.del_rep [OF rep assms(3)] by simp
qed

theorem page_put_get_delete_witness:
  "fst (delpair (putpair (replicate PBLKSIZ 0) [1, 2] [3]) [1, 2])
    \<and> page_rep (snd (delpair (putpair (replicate PBLKSIZ 0) [1, 2] [3]) [1, 2])) []"
  using page_put_get_delete [OF page_rep_zero, of "[1, 2]" "[3]"]
  by (simp add: fitpair_room [OF page_rep_zero] room_def)

lemma map_of_filter_key:
  "map_of (filter (\<lambda>p. Q (fst p)) ps) key = (if Q key then map_of ps key else None)"
  by (induction ps) auto

text \<open>Splitting a page loses and duplicates nothing. After \<open>splpage\<close> a key is found in the new page
  exactly if the split bit of its hash is set, in the old page otherwise, in both cases with the
  value it had before the split, and both pages pass the sanity check.\<close>

theorem splpage_partitions:
  assumes "page_rep pag ps" and "splpage pag sbit = (old, new)"
  shows "(\<forall>key. getpair new key = (if sdbm_hash key AND sbit \<noteq> 0 then getpair pag key else None))
    \<and> (\<forall>key. getpair old key = (if sdbm_hash key AND sbit \<noteq> 0 then None else getpair pag key))
    \<and> chkpage old \<and> chkpage new"
proof -
  have "page_rep old (filter (\<lambda>p. \<not> to_new sbit p) ps)" "page_rep new (filter (to_new sbit) ps)"
    using splpage_rep [OF assms(1), of sbit] assms(2) by simp_all
  moreover have "to_new sbit = (\<lambda>p. sdbm_hash (fst p) AND sbit \<noteq> 0)" by (simp add: fun_eq_iff to_new_def)
  moreover note chkpage_rep
  ultimately show ?thesis
    using assms(1) map_of_filter_key [of "\<lambda>k. sdbm_hash k AND sbit \<noteq> 0" ps]
      map_of_filter_key [of "\<lambda>k. sdbm_hash k AND sbit = 0" ps]
    by (simp add: pagebucket.get_rep)
qed

theorem splpage_partitions_witness:
  "getpair (snd (splpage (putpair (replicate PBLKSIZ 0) [1] [2]) 1)) [1] = Some [2]
    \<and> getpair (fst (splpage (putpair (replicate PBLKSIZ 0) [1] [2]) 1)) [1] = None"
proof -
  have rep: "page_rep (putpair (replicate PBLKSIZ 0) [1] [2]) [([1], [2])]"
    using putpair_rep [OF page_rep_zero, of "[1]" "[2]"] by (simp add: room_def)
  have "sdbm_hash [1] = 1" by code_simp
  with splpage_partitions [OF rep, of 1] pagebucket.get_rep [OF rep] show ?thesis
    by (cases "splpage (putpair (replicate PBLKSIZ 0) [1] [2]) 1") simp
qed

end
