(* ===== verification/Sdbm.thy ===== *)
theory Sdbm
  imports Sdbm_Page
begin

text \<open>
  The database level of sdbm (\<open>stdlib/ext/sdbm/_sdbm.c\<close>, the core routines): a directory file
  whose bits are the inner nodes of a binary trie over the bits of the hash value, a page file with
  one page per leaf, and a handle that caches one block of each. A file is its bytes and the
  position of its descriptor; a hole reads as zeros. Every \<open>lseek\<close>, \<open>read\<close> and \<open>write\<close> takes its outcome
  from the list \<open>sys\<close> of the handle, so that each error path of the code can be taken; with
  \<open>sys\<close> empty every call succeeds. Reads and writes of a regular file are not cut short except
  at its end. \<open>malloc\<close> does not fail.
\<close>

abbreviation DBLKSIZ :: nat where "DBLKSIZ \<equiv> 4096"

section \<open>Files\<close>

record os_file =
  fcontent :: "u8 list"
  fpos :: nat

definition seek_file :: "os_file \<Rightarrow> nat \<Rightarrow> os_file" where
  "seek_file f off = f\<lparr>fpos := off\<rparr>"

definition file_bytes :: "os_file \<Rightarrow> nat \<Rightarrow> u8 list" where
  "file_bytes f n = take n (drop (fpos f) (fcontent f))"

definition write_bytes :: "os_file \<Rightarrow> u8 list \<Rightarrow> os_file" where
  "write_bytes f data =
     \<lparr>fcontent = put_at (fcontent f @ replicate (fpos f - length (fcontent f)) 0) (fpos f) data,
      fpos = fpos f + length data\<rparr>"

section \<open>The handle\<close>

datatype errno = EINVAL | EPERM

record DBM =
  dirf :: os_file
  pagf :: os_file
  db_flags :: u32
  maxbno :: nat
  curbit :: nat
  hmask :: u64
  blkptr :: nat
  keyptr :: int
  pagbno :: int
  pagbuf :: page
  dirbno :: int
  dirbuf :: "u8 list"
  sys :: "bool list"

definition DBM_RDONLY :: u32 where "DBM_RDONLY = 1"
definition DBM_IOERR :: u32 where "DBM_IOERR = 2"
definition DBM_REPLACE :: int where "DBM_REPLACE = 1"
definition PAIRMAX :: int where "PAIRMAX = 1008"
definition SPLTMAX :: nat where "SPLTMAX = 10"

definition sdbm_rdonly :: "DBM \<Rightarrow> bool" where
  "sdbm_rdonly db \<longleftrightarrow> db_flags db AND DBM_RDONLY \<noteq> 0"

definition ioerr :: "DBM \<Rightarrow> DBM" where
  "ioerr db = db\<lparr>db_flags := db_flags db OR DBM_IOERR\<rparr>"

definition bad :: "datum \<Rightarrow> bool" where
  "bad d \<longleftrightarrow> (case d of None \<Rightarrow> True | Some bs \<Rightarrow> (of_nat (length bs) :: u32) <s 0)"

section \<open>System calls\<close>

definition syscall :: "DBM \<Rightarrow> bool \<times> DBM" where
  "syscall db = (case sys db of [] \<Rightarrow> (True, db) | ok # oks \<Rightarrow> (ok, db\<lparr>sys := oks\<rparr>))"

definition pag_lseek :: "nat \<Rightarrow> DBM \<Rightarrow> bool \<times> DBM" where
  "pag_lseek bno db =
     (let (ok, db) = syscall db
      in if ok then (True, db\<lparr>pagf := seek_file (pagf db) (bno * PBLKSIZ)\<rparr>) else (False, db))"

text \<open>\<open>read (db->pagf, db->pagbuf, PBLKSIZ)\<close>: the number of bytes, \<open>None\<close> for -1.\<close>

definition pag_read :: "DBM \<Rightarrow> nat option \<times> DBM" where
  "pag_read db =
     (let (ok, db) = syscall db; got = file_bytes (pagf db) PBLKSIZ
      in if ok then (Some (length got), db\<lparr>pagf := seek_file (pagf db) (fpos (pagf db) + length got),
           pagbuf := put_at (pagbuf db) 0 got\<rparr>)
         else (None, db))"

definition pag_read_at :: "nat \<Rightarrow> DBM \<Rightarrow> nat option \<times> DBM" where
  "pag_read_at bno db = (let (ok, db) = pag_lseek bno db in if ok then pag_read db else (None, db))"

definition pag_write_at :: "nat \<Rightarrow> page \<Rightarrow> DBM \<Rightarrow> bool \<times> DBM" where
  "pag_write_at bno page db =
     (let (ok, db) = pag_lseek bno db
      in if ok then
           let (ok, db) = syscall db
           in if ok then (True, db\<lparr>pagf := write_bytes (pagf db) page\<rparr>) else (False, db)
         else (False, db))"

definition dir_lseek :: "nat \<Rightarrow> DBM \<Rightarrow> bool \<times> DBM" where
  "dir_lseek bno db =
     (let (ok, db) = syscall db
      in if ok then (True, db\<lparr>dirf := seek_file (dirf db) (bno * DBLKSIZ)\<rparr>) else (False, db))"

definition dir_read_at :: "nat \<Rightarrow> DBM \<Rightarrow> bool \<times> DBM" where
  "dir_read_at bno db =
     (let (ok, db) = dir_lseek bno db
      in if ok then
           let (ok, db) = syscall db; got = file_bytes (dirf db) DBLKSIZ
           in if ok then (True, db\<lparr>dirf := seek_file (dirf db) (fpos (dirf db) + length got),
                dirbuf := put_at (dirbuf db) 0 got\<rparr>)
              else (False, db)
         else (False, db))"

definition dir_write_at :: "nat \<Rightarrow> DBM \<Rightarrow> bool \<times> DBM" where
  "dir_write_at bno db =
     (let (ok, db) = dir_lseek bno db
      in if ok then
           let (ok, db) = syscall db
           in if ok then (True, db\<lparr>dirf := write_bytes (dirf db) (dirbuf db)\<rparr>) else (False, db)
         else (False, db))"

section \<open>The directory\<close>

definition dir_fetch :: "DBM \<Rightarrow> nat \<Rightarrow> bool \<times> DBM" where
  "dir_fetch db dirb =
     (if int dirb \<noteq> dirbno db then
        let (ok, db) = dir_read_at dirb db in if ok then (True, db\<lparr>dirbno := int dirb\<rparr>) else (False, db)
      else (True, db))"

definition getdbit :: "DBM \<Rightarrow> nat \<Rightarrow> bool \<times> DBM" where
  "getdbit db dbit =
     (let c = dbit div 8; dirb = c div DBLKSIZ; (ok, db) = dir_fetch db dirb
      in (ok \<and> bit (dirbuf db ! (c mod DBLKSIZ)) (dbit mod 8), db))"

definition setdbit :: "DBM \<Rightarrow> nat \<Rightarrow> bool \<times> DBM" where
  "setdbit db dbit =
     (let c = dbit div 8; dirb = c div DBLKSIZ; (ok, db) = dir_fetch db dirb
      in if \<not> ok then (False, db)
         else
           let i = c mod DBLKSIZ;
               db = db\<lparr>dirbuf := (dirbuf db)[i := dirbuf db ! i OR push_bit (dbit mod 8) 1]\<rparr>;
               db = (if dbit \<ge> maxbno db then db\<lparr>maxbno := maxbno db + DBLKSIZ * 8\<rparr> else db)
           in dir_write_at dirb db)"

definition masks :: "u64 list" where
  "masks = [0, 1, 3, 7, 15, 31, 63, 127, 255, 511, 1023, 2047, 4095, 8191, 16383, 32767, 65535, 131071,
     262143, 524287, 1048575, 2097151, 4194303, 8388607, 16777215, 33554431, 67108863, 134217727,
     268435455, 536870911, 1073741823, 2147483647]"

text \<open>What the directory operations leave alone.\<close>

definition pag_part :: "DBM \<Rightarrow> os_file \<times> page \<times> int \<times> u32 \<times> nat \<times> u64 \<times> nat \<times> int" where
  "pag_part db = (pagf db, pagbuf db, pagbno db, db_flags db, curbit db, hmask db, blkptr db, keyptr db)"

definition dir_frame :: "DBM \<Rightarrow> DBM \<Rightarrow> bool" where
  "dir_frame db db' \<longleftrightarrow> pag_part db' = pag_part db \<and> maxbno db' = maxbno db"

named_theorems frame_simps "parts of the handle that an operation leaves alone"

lemma dir_frame_refl [frame_simps]: "dir_frame db db"
  by (simp add: dir_frame_def)

lemma dir_frame_trans: "dir_frame a b \<Longrightarrow> dir_frame b c \<Longrightarrow> dir_frame a c"
  by (simp add: dir_frame_def)

lemma dir_frame_update [frame_simps]:
  "dir_frame a (db\<lparr>dirf := f\<rparr>) = dir_frame a db" "dir_frame a (db\<lparr>dirbuf := b\<rparr>) = dir_frame a db"
  "dir_frame a (db\<lparr>dirbno := n\<rparr>) = dir_frame a db" "dir_frame a (db\<lparr>sys := oks\<rparr>) = dir_frame a db"
  by (simp_all add: dir_frame_def pag_part_def)

lemma syscall_frame [frame_simps]: "dir_frame db (snd (syscall db))"
  by (simp add: syscall_def frame_simps split: list.split)

lemma dir_lseek_frame [frame_simps]: "dir_frame db (snd (dir_lseek b db))"
proof -
  obtain ok db1 where "syscall db = (ok, db1)" by (rule prod.exhaust)
  then show ?thesis using syscall_frame [of db] by (simp add: dir_lseek_def frame_simps)
qed

lemma dir_read_frame [frame_simps]: "dir_frame db (snd (dir_read_at b db))"
proof -
  obtain ok db1 where 1: "dir_lseek b db = (ok, db1)" by (rule prod.exhaust)
  obtain ok2 db2 where 2: "syscall db1 = (ok2, db2)" by (rule prod.exhaust)
  have "dir_frame db db1" "dir_frame db1 db2"
    using dir_lseek_frame [of db b] syscall_frame [of db1] 1 2 by simp_all
  then show ?thesis
    using 1 2 by (auto simp: dir_read_at_def Let_def frame_simps intro: dir_frame_trans)
qed

lemma dir_fetch_frame [frame_simps]: "dir_frame db (snd (dir_fetch db b))"
proof -
  obtain ok db1 where "dir_read_at b db = (ok, db1)" by (rule prod.exhaust)
  then show ?thesis using dir_read_frame [of db b] by (simp add: dir_fetch_def frame_simps)
qed

lemma getdbit_frame [frame_simps]: "dir_frame db (snd (getdbit db b))"
proof -
  obtain ok db1 where 1: "dir_fetch db (b div 8 div DBLKSIZ) = (ok, db1)" by (rule prod.exhaust)
  show ?thesis
    using dir_fetch_frame [of db "b div 8 div DBLKSIZ"] unfolding getdbit_def Let_def 1 by simp
qed

lemma getdbit_maxbno: "maxbno (snd (getdbit db b)) = maxbno db"
  using getdbit_frame [of db b] by (simp add: dir_frame_def)

text \<open>The loop of \<open>getpage\<close>; \<open>dbit\<close> and \<open>hbit\<close> are its variables.\<close>

function trie_walk :: "DBM \<Rightarrow> u64 \<Rightarrow> nat \<Rightarrow> nat \<Rightarrow> DBM \<times> nat \<times> nat" where
  "trie_walk db hash dbit hbit =
     (if dbit < maxbno db then
        let (b, db') = getdbit db dbit
        in if b then trie_walk db' hash (2 * dbit + (if bit hash hbit then 2 else 1)) (hbit + 1)
           else (db', dbit, hbit)
      else (db, dbit, hbit))"
  by pat_completeness auto
termination
proof (relation "measure (\<lambda>(db, hash, dbit, hbit). maxbno db - dbit)")
  fix db hash dbit hbit x b db'
  assume "dbit < maxbno db" "x = getdbit db dbit" "(b, db') = x"
  then have "maxbno db' = maxbno db" by (metis getdbit_maxbno snd_conv)
  with \<open>dbit < maxbno db\<close>
  show "((db', hash, 2 * dbit + (if bit hash hbit then 2 else 1), hbit + 1), (db, hash, dbit, hbit))
      \<in> measure (\<lambda>(db, hash, dbit, hbit). maxbno db - dbit)" by auto
qed simp

declare trie_walk.simps [simp del]

definition getpage :: "DBM \<Rightarrow> u64 \<Rightarrow> bool \<times> DBM" where
  "getpage db hash =
     (let (db, dbit, hbit) = trie_walk db hash 0 0;
          db = db\<lparr>curbit := dbit, hmask := masks ! hbit\<rparr>;
          pagb = unat (hash AND hmask db)
      in if int pagb \<noteq> pagbno db then
           case pag_read_at pagb (db\<lparr>pagbuf := replicate PBLKSIZ 0\<rparr>) of
             (None, db) \<Rightarrow> (False, db)
           | (Some _, db) \<Rightarrow> if chkpage (pagbuf db) then (True, db\<lparr>pagbno := int pagb\<rparr>) else (False, db)
         else (True, db))"

section \<open>Making room\<close>

fun makroom_loop :: "nat \<Rightarrow> DBM \<Rightarrow> u64 \<Rightarrow> int \<Rightarrow> bool \<times> DBM" where
  "makroom_loop 0 db hash need = (False, db)"
| "makroom_loop (Suc smax) db hash need =
     (let (pag, new) = splpage (pagbuf db) (hmask db + 1);
          db = db\<lparr>pagbuf := pag\<rparr>;
          newp = unat ((hash AND hmask db) OR (hmask db + 1));
          (ok, db) =
            (if hash AND (hmask db + 1) \<noteq> 0 then
               let (ok, db) = pag_write_at (nat (pagbno db)) (pagbuf db) db
               in if ok then (True, db\<lparr>pagbno := int newp, pagbuf := new\<rparr>) else (False, db)
             else pag_write_at newp new db)
      in if \<not> ok then (False, db)
         else
           let (ok, db) = setdbit db (curbit db)
           in if \<not> ok then (False, db)
              else if fitpair (pagbuf db) need then (True, db)
              else
                let db = db\<lparr>curbit := 2 * curbit db + (if hash AND (hmask db + 1) \<noteq> 0 then 2 else 1),
                           hmask := hmask db OR (hmask db + 1)\<rparr>;
                    (ok, db) = pag_write_at (nat (pagbno db)) (pagbuf db) db
                in if \<not> ok then (False, db) else makroom_loop smax db hash need)"

definition makroom :: "DBM \<Rightarrow> u64 \<Rightarrow> int \<Rightarrow> bool \<times> DBM" where
  "makroom db hash need = makroom_loop SPLTMAX db hash need"

section \<open>The interface\<close>

fun sdbm_fetch :: "DBM option \<Rightarrow> datum \<Rightarrow> DBM option \<times> errno option \<times> datum" where
  "sdbm_fetch None key = (None, Some EINVAL, None)"
| "sdbm_fetch (Some db) key =
     (if bad key then (Some db, Some EINVAL, None)
      else
        let (ok, db) = getpage db (sdbm_hash (the key))
        in if ok then (Some db, None, getpair (pagbuf db) (the key)) else (Some (ioerr db), None, None))"

text \<open>Writing the current page back, the way \<open>sdbm_delete\<close> and \<open>sdbm_store\<close> end.\<close>

definition write_back :: "DBM \<Rightarrow> DBM \<times> errno option \<times> int" where
  "write_back db =
     (let (ok, db) = pag_write_at (nat (pagbno db)) (pagbuf db) db
      in if ok then (db, None, 0) else (ioerr db, None, - 1))"

fun sdbm_delete :: "DBM option \<Rightarrow> datum \<Rightarrow> DBM option \<times> errno option \<times> int" where
  "sdbm_delete None key = (None, Some EINVAL, - 1)"
| "sdbm_delete (Some db) key =
     (if bad key then (Some db, Some EINVAL, - 1)
      else if sdbm_rdonly db then (Some db, Some EPERM, - 1)
      else
        let (ok, db) = getpage db (sdbm_hash (the key))
        in if ok then
             let (found, pag) = delpair (pagbuf db) (the key)
             in if \<not> found then (Some db, None, - 1)
                else map_prod Some id (write_back (db\<lparr>pagbuf := pag\<rparr>))
           else (Some (ioerr db), None, - 1))"

text \<open>\<open>need\<close> is an \<open>int\<close> and wraps around.\<close>

fun sdbm_store :: "DBM option \<Rightarrow> datum \<Rightarrow> u8 list \<Rightarrow> int \<Rightarrow> DBM option \<times> errno option \<times> int" where
  "sdbm_store None key val flags = (None, Some EINVAL, - 1)"
| "sdbm_store (Some db) key val flags =
     (if bad key then (Some db, Some EINVAL, - 1)
      else if sdbm_rdonly db then (Some db, Some EPERM, - 1)
      else
        let need = sint (of_nat (length (the key)) + of_nat (length val) :: u32)
        in if need < 0 \<or> need > PAIRMAX then (Some db, Some EINVAL, - 1)
           else
             let hash = sdbm_hash (the key); (ok, db) = getpage db hash
             in if \<not> ok then (Some (ioerr db), None, - 1)
                else if flags \<noteq> DBM_REPLACE \<and> duppair (pagbuf db) (the key) then (Some db, None, 1)
                else
                  let db = (if flags = DBM_REPLACE
                            then db\<lparr>pagbuf := snd (delpair (pagbuf db) (the key))\<rparr> else db);
                      (ok, db) = (if \<not> fitpair (pagbuf db) need then makroom db hash need else (True, db))
                  in if \<not> ok then (Some (ioerr db), None, - 1)
                     else map_prod Some id (write_back (db\<lparr>pagbuf := putpair (pagbuf db) (the key) val\<rparr>)))"

section \<open>Iteration\<close>

definition next_block :: "DBM \<Rightarrow> nat option \<times> DBM" where
  "next_block db =
     (let db1 = db\<lparr>keyptr := 0, blkptr := blkptr db + 1\<rparr>;
          (ok, db2) = (if pagbno db \<noteq> int (blkptr db) then pag_lseek (blkptr db1) db1 else (True, db1))
      in if ok then pag_read (db2\<lparr>pagbno := int (blkptr db2)\<rparr>) else (None, db2))"

lemma next_block_measure:
  assumes "next_block db = (Some n, db')" and "n \<noteq> 0"
  shows "pagbno db' = int (blkptr db')
    \<and> (pagbno db = int (blkptr db) \<longrightarrow> length (fcontent (pagf db')) - fpos (pagf db') < length (fcontent (pagf db)) - fpos (pagf db))"
  using assms
  by (auto simp: next_block_def pag_read_def pag_lseek_def syscall_def seek_file_def file_bytes_def Let_def
      split: if_splits list.splits prod.splits)

text \<open>The loop of \<open>getnext\<close>.\<close>

function getnext :: "DBM \<Rightarrow> DBM \<times> datum" where
  "getnext db =
     (let db1 = db\<lparr>keyptr := keyptr db + 1\<rparr>; key = getnkey (pagbuf db1) (keyptr db1)
      in if key \<noteq> None then (db1, key)
         else
           case next_block db1 of
             (None, db2) \<Rightarrow> (ioerr db2, None)
           | (Some n, db2) \<Rightarrow>
               if n = 0 \<or> \<not> chkpage (pagbuf db2) then (ioerr db2, None) else getnext db2)"
  by pat_completeness auto
termination
proof (relation "measures [\<lambda>db. if pagbno db = int (blkptr db) then 0 else 1,
    \<lambda>db. length (fcontent (pagf db)) - fpos (pagf db)]")
  fix db db1 key z db2 n
  assume db1: "db1 = db\<lparr>keyptr := keyptr db + 1\<rparr>"
    and "(z, db2) = next_block db1" "z = Some n" "\<not> (n = 0 \<or> \<not> chkpage (pagbuf db2))"
  then have "next_block db1 = (Some n, db2)" "n \<noteq> 0" by auto
  from next_block_measure [OF this]
  show "(db2, db) \<in> measures [\<lambda>db. if pagbno db = int (blkptr db) then 0 else 1,
      \<lambda>db. length (fcontent (pagf db)) - fpos (pagf db)]"
    by (auto simp: db1)
qed simp

declare getnext.simps [simp del]

fun sdbm_firstkey :: "DBM option \<Rightarrow> DBM option \<times> errno option \<times> datum" where
  "sdbm_firstkey None = (None, Some EINVAL, None)"
| "sdbm_firstkey (Some db) =
     (case pag_read_at 0 (db\<lparr>pagbuf := replicate PBLKSIZ 0\<rparr>) of
        (None, db) \<Rightarrow> (Some (ioerr db), None, None)
      | (Some _, db) \<Rightarrow>
          let (db, key) = getnext (db\<lparr>pagbno := 0, blkptr := 0, keyptr := 0\<rparr>) in (Some db, None, key))"

fun sdbm_nextkey :: "DBM option \<Rightarrow> DBM option \<times> errno option \<times> datum" where
  "sdbm_nextkey None = (None, Some EINVAL, None)"
| "sdbm_nextkey (Some db) = (let (db, key) = getnext db in (Some db, None, key))"

section \<open>Opening and closing\<close>

definition O_RDONLY :: u32 where "O_RDONLY = 0"
definition O_WRONLY :: u32 where "O_WRONLY = 1"
definition O_RDWR :: u32 where "O_RDWR = 2"
definition O_BINARY :: u32 where "O_BINARY = 0"

text \<open>\<open>open_file\<close> stands for the system call \<open>open\<close>: the bytes of the file it opens, \<open>None\<close> for a
  failure; \<open>fstat_ok\<close> for the success of \<open>fstat\<close>. The fields that the code leaves uninitialised
  are 0 here; they are set before they are read.\<close>

definition sdbm_prep :: "(u8 list \<Rightarrow> u32 \<Rightarrow> u32 \<Rightarrow> u8 list option) \<Rightarrow> bool \<Rightarrow> u8 list \<Rightarrow> u8 list \<Rightarrow> u32 \<Rightarrow> u32 \<Rightarrow>
    DBM option" where
  "sdbm_prep open_file fstat_ok dirname pagname flags mode =
     (let flags = (if flags AND O_WRONLY \<noteq> 0 then (flags AND NOT O_WRONLY) OR O_RDWR else flags);
          own = (if flags AND O_RDONLY \<noteq> 0 then DBM_RDONLY else 0);
          flags = flags OR O_BINARY
      in case open_file pagname flags mode of
           None \<Rightarrow> None
         | Some pag \<Rightarrow>
             (case open_file dirname flags mode of
                None \<Rightarrow> None
              | Some dir \<Rightarrow>
                  if fstat_ok then
                    Some \<lparr>dirf = \<lparr>fcontent = dir, fpos = 0\<rparr>, pagf = \<lparr>fcontent = pag, fpos = 0\<rparr>,
                      db_flags = own, maxbno = length dir * 8, curbit = 0, hmask = 0, blkptr = 0, keyptr = 0,
                      pagbno = - 1, pagbuf = replicate PBLKSIZ 0,
                      dirbno = (if dir = [] then 0 else - 1), dirbuf = replicate DBLKSIZ 0, sys = []\<rparr>
                  else None))"

definition DIRFEXT :: "u8 list" where "DIRFEXT = [46, 100, 105, 114]"
definition PAGFEXT :: "u8 list" where "PAGFEXT = [46, 112, 97, 103]"

definition sdbm_open :: "(u8 list \<Rightarrow> u32 \<Rightarrow> u32 \<Rightarrow> u8 list option) \<Rightarrow> bool \<Rightarrow> u8 list option \<Rightarrow> u32 \<Rightarrow> u32 \<Rightarrow>
    errno option \<times> DBM option" where
  "sdbm_open open_file fstat_ok file_name flags mode =
     (case file_name of
        None \<Rightarrow> (Some EINVAL, None)
      | Some name \<Rightarrow>
          if name = [] then (Some EINVAL, None)
          else (None, sdbm_prep open_file fstat_ok (name @ DIRFEXT) (name @ PAGFEXT) flags mode))"

fun sdbm_close :: "DBM option \<Rightarrow> errno option" where
  "sdbm_close None = Some EINVAL"
| "sdbm_close (Some db) = None"

end
