(* ===== verification/Sdbm_Trie.thy ===== *)
theory Sdbm_Trie
  imports Sdbm_Page
begin

text \<open>
  What the directory of sdbm means: the set of the bits that are set is the set of inner nodes of
  a binary trie, numbered as in a heap. A hash value walks from the root, bit 0 first, to the
  first node that is not set; the bits it has used by then are the number of its page. The
  lemmas say how splitting one leaf changes the pages of all hash values.
\<close>

fun node :: "u64 \<Rightarrow> nat \<Rightarrow> nat" where
  "node h 0 = 0"
| "node h (Suc j) = 2 * node h j + (if bit h j then 2 else 1)"

definition depth :: "nat set \<Rightarrow> u64 \<Rightarrow> nat" where
  "depth D h = (LEAST j. node h j \<notin> D)"

definition leaf :: "nat set \<Rightarrow> u64 \<Rightarrow> nat" where
  "leaf D h = unat h mod 2 ^ depth D h"

definition trie_closed :: "nat set \<Rightarrow> bool" where
  "trie_closed D \<longleftrightarrow> D \<subseteq> {..<32768} \<and> (\<forall>n. 2 * n + 1 \<in> D \<or> 2 * n + 2 \<in> D \<longrightarrow> n \<in> D)"

lemma Suc_double_ne [simp]: "Suc (2 * a) \<noteq> 2 * b" "2 * b \<noteq> Suc (2 * a)"
  by presburger+

lemma closed_bound: "trie_closed D \<Longrightarrow> n \<in> D \<Longrightarrow> n < 32768"
  unfolding trie_closed_def by blast

lemma closed_parent: "trie_closed D \<Longrightarrow> 2 * n + 1 \<in> D \<or> 2 * n + 2 \<in> D \<Longrightarrow> n \<in> D"
  unfolding trie_closed_def by blast

lemma node_bounds: "2 ^ j \<le> node h j + 1 \<and> node h j + 1 < 2 ^ Suc j"
  by (induction j) auto

lemma node_ge: "j \<le> node h j"
  using node_bounds [of j h] less_exp [of j] by linarith

lemma node_less: "node h j < 32768 \<Longrightarrow> j < 16"
proof (rule ccontr)
  assume "node h j < 32768" "\<not> j < 16"
  then have "(2 :: nat) ^ 16 \<le> 2 ^ j" by (intro power_increasing) auto
  with node_bounds [of j h] \<open>node h j < 32768\<close> show False by simp
qed

lemma node_eq_iff: "node h j = node g j \<longleftrightarrow> (\<forall>i<j. bit h i = bit g i)"
proof (induction j)
  case (Suc j)
  have "node h (Suc j) = node g (Suc j) \<longleftrightarrow> node h j = node g j \<and> bit h j = bit g j"
    by (cases "bit h j"; cases "bit g j") simp_all
  with Suc show ?case by (auto simp: less_Suc_eq)
qed simp

lemma node_level: "node h j = node g k \<Longrightarrow> j = k"
proof -
  assume eq: "node h j = node g k"
  have "\<not> j < k" if "node h j = node g k" for h g :: u64 and j k
  proof
    assume "j < k"
    then have "(2 :: nat) ^ Suc j \<le> 2 ^ k" by (intro power_increasing) auto
    with node_bounds [of j h] node_bounds [of k g] that show False by simp
  qed
  from this [OF eq] this [OF eq [symmetric]] show ?thesis by simp
qed

lemma mod_eq_bits: "unat h mod 2 ^ j = unat g mod 2 ^ j \<longleftrightarrow> (\<forall>i<j. bit h i = bit g i)"
  for h g :: u64
proof -
  have unat_take: "unat (take_bit j x) = unat x mod 2 ^ j" for x :: u64
    by (simp only: take_bit_eq_mask unat_and_mask)
  have "unat h mod 2 ^ j = unat g mod 2 ^ j \<longleftrightarrow> take_bit j h = take_bit j g"
    by (simp only: word_unat_eq_iff unat_take)
  also have "\<dots> \<longleftrightarrow> (\<forall>i<j. bit h i = bit g i)"
  proof
    assume eq: "take_bit j h = take_bit j g"
    have "bit (take_bit j h) i = bit (take_bit j g) i" for i using eq by simp
    then show "\<forall>i<j. bit h i = bit g i" by (metis bit_take_bit_iff)
  next
    assume "\<forall>i<j. bit h i = bit g i"
    then show "take_bit j h = take_bit j g"
      by (intro bit_word_eqI) (auto simp: bit_take_bit_iff)
  qed
  finally show ?thesis .
qed

lemma node_same: "node h j = node g j \<longleftrightarrow> unat h mod 2 ^ j = unat g mod 2 ^ j"
  by (simp add: node_eq_iff mod_eq_bits)

lemma unat_mod_Suc: "unat h mod 2 ^ Suc t = unat h mod 2 ^ t + (if bit h t then 2 ^ t else 0)"
  for h :: u64
proof -
  have "unat h mod 2 ^ Suc t = take_bit (Suc t) (unat h)" by (simp add: take_bit_eq_mod)
  also have "\<dots> = take_bit t (unat h) + (if bit (unat h) t then 2 ^ t else 0)"
    by (simp add: take_bit_Suc_from_most of_bool_def)
  finally show ?thesis by (simp add: take_bit_eq_mod bit_unsigned_iff)
qed

section \<open>Depth\<close>

lemma depth_exists:
  assumes "trie_closed D"
  shows "\<exists>j. node h j \<notin> D"
proof
  show "node h 32768 \<notin> D" using closed_bound [OF assms, of "node h 32768"] node_ge [of 32768 h] by linarith
qed

lemma depth_not: "trie_closed D \<Longrightarrow> node h (depth D h) \<notin> D"
  unfolding depth_def by (rule LeastI_ex) (rule depth_exists)

lemma depth_below: "j < depth D h \<Longrightarrow> node h j \<in> D"
  unfolding depth_def using not_less_Least by blast

lemma depthI: "node h d \<notin> D \<Longrightarrow> (\<And>j. j < d \<Longrightarrow> node h j \<in> D) \<Longrightarrow> depth D h = d"
  unfolding depth_def by (rule Least_equality) (auto simp: not_less [symmetric])

lemma depth_bound:
  assumes "trie_closed D"
  shows "depth D h \<le> 16"
proof (rule ccontr)
  assume "\<not> depth D h \<le> 16"
  then have "node h 16 \<in> D" by (intro depth_below) simp
  then have "node h 16 < 32768" by (rule closed_bound [OF assms])
  then show False using node_less [of h 16] by simp
qed

lemma closed_child: "trie_closed D \<Longrightarrow> node h j \<notin> D \<Longrightarrow> node h (Suc j) \<notin> D"
  using closed_parent [of D "node h j"] by (auto split: if_splits)

section \<open>Splitting a leaf\<close>

lemma leaf_cong:
  assumes "trie_closed D" and "leaf D g mod 2 ^ depth D h = leaf D h" and "depth D h \<le> depth D g"
  shows "depth D g = depth D h" and "leaf D g = leaf D h"
proof -
  have "unat g mod 2 ^ depth D h = unat h mod 2 ^ depth D h"
    using assms(2,3) by (simp add: leaf_def mod_mod_cancel le_imp_power_dvd)
  then have "node g (depth D h) = node h (depth D h)" by (simp add: node_same)
  then have "node g (depth D h) \<notin> D" using depth_not [OF assms(1)] by simp
  then have "\<not> depth D h < depth D g" using depth_below by blast
  then show d: "depth D g = depth D h" using assms(3) by simp
  then show "leaf D g = leaf D h" using assms(2) by (simp add: leaf_def mod_mod_trivial)
qed

text \<open>The page a split adds had no hash value before.\<close>

lemma new_page_unused:
  assumes "trie_closed D"
  shows "leaf D g \<noteq> leaf D h + 2 ^ depth D h"
proof
  let ?t = "depth D h"
  assume eq: "leaf D g = leaf D h + 2 ^ ?t"
  have "leaf D g < 2 ^ depth D g" by (simp add: leaf_def)
  with eq have "(2 :: nat) ^ ?t < 2 ^ depth D g" by linarith
  then have "?t < depth D g" by (simp add: power_strict_increasing_iff)
  moreover have "leaf D g mod 2 ^ ?t = leaf D h" using eq by (simp add: leaf_def)
  ultimately have "depth D g = ?t" using leaf_cong(1) [OF assms] by simp
  with \<open>?t < depth D g\<close> show False by simp
qed

lemma closed_split:
  assumes "trie_closed D" and "node h (depth D h) < 32768"
  shows "trie_closed (insert (node h (depth D h)) D)"
proof -
  have "n \<in> insert (node h (depth D h)) D"
    if "2 * n + 1 = node h (depth D h) \<or> 2 * n + 2 = node h (depth D h)" for n
  proof (cases "depth D h")
    case (Suc j)
    then have "node h j \<in> D" by (intro depth_below) simp
    moreover have "n = node h j" using that unfolding Suc by (cases "bit h j") auto
    ultimately show ?thesis by simp
  qed (use that in simp)
  then show ?thesis using assms unfolding trie_closed_def by blast
qed

lemma depth_split:
  assumes "trie_closed D"
  shows "depth (insert (node h (depth D h)) D) g
    = (if leaf D g = leaf D h \<and> depth D g = depth D h then Suc (depth D h) else depth D g)"
proof (cases "node g (depth D h) = node h (depth D h)")
  case True
  then have same: "unat g mod 2 ^ depth D h = unat h mod 2 ^ depth D h" by (simp add: node_same)
  have below: "node g j = node h j" if "j < depth D h" for j
    using True that by (auto simp: node_eq_iff)
  have "depth D g = depth D h"
    using True depth_not [OF assms, of h] below depth_below by (intro depthI) auto
  moreover have "leaf D g = leaf D h" using same calculation by (simp add: leaf_def)
  moreover have "depth (insert (node h (depth D h)) D) g = Suc (depth D h)"
  proof (rule depthI)
    have "node g (Suc (depth D h)) \<noteq> node h (depth D h)" using node_level n_not_Suc_n by metis
    then show "node g (Suc (depth D h)) \<notin> insert (node h (depth D h)) D"
      using closed_child [OF assms, of g "depth D h"] True depth_not [OF assms, of h] by auto
  next
    fix j assume "j < Suc (depth D h)"
    then show "node g j \<in> insert (node h (depth D h)) D"
      using True below depth_below by (auto simp: less_Suc_eq)
  qed
  ultimately show ?thesis by simp
next
  case False
  then have "unat g mod 2 ^ depth D h \<noteq> unat h mod 2 ^ depth D h" by (simp add: node_same)
  then have "\<not> (leaf D g = leaf D h \<and> depth D g = depth D h)" by (auto simp: leaf_def)
  moreover have "depth (insert (node h (depth D h)) D) g = depth D g"
  proof (rule depthI)
    have "node g (depth D g) \<noteq> node h (depth D h)" using False node_level by metis
    then show "node g (depth D g) \<notin> insert (node h (depth D h)) D" using depth_not [OF assms] by auto
  qed (use depth_below in blast)
  ultimately show ?thesis by auto
qed

lemma leaf_depth: "trie_closed D \<Longrightarrow> leaf D g = leaf D h \<Longrightarrow> depth D g = depth D h"
proof -
  assume c: "trie_closed D" and eq: "leaf D g = leaf D h"
  have "leaf D g mod 2 ^ depth D g = leaf D g" "leaf D h mod 2 ^ depth D h = leaf D h"
    by (simp_all add: leaf_def)
  then show ?thesis
    using leaf_cong(1) [OF c, of g h] leaf_cong(1) [OF c, of h g] eq
    by (cases "depth D h \<le> depth D g") simp_all
qed

lemma leaf_split:
  assumes "trie_closed D"
  shows "leaf (insert (node h (depth D h)) D) g
    = (if leaf D g = leaf D h then leaf D h + (if bit g (depth D h) then 2 ^ depth D h else 0) else leaf D g)"
proof (cases "leaf D g = leaf D h")
  case True
  then have d: "depth D g = depth D h" by (rule leaf_depth [OF assms])
  then have "leaf (insert (node h (depth D h)) D) g = unat g mod 2 ^ Suc (depth D h)"
    using True by (simp add: leaf_def depth_split [OF assms] del: power_Suc)
  then show ?thesis using True d by (simp add: unat_mod_Suc leaf_def del: power_Suc)
next
  case False
  then show ?thesis by (simp add: leaf_def depth_split [OF assms])
qed

section \<open>The map of a trie of pages\<close>

definition placed :: "nat set \<Rightarrow> (nat \<Rightarrow> pair list) \<Rightarrow> bool" where
  "placed D P \<longleftrightarrow> (\<forall>p. distinct (map fst (P p)) \<and> (\<forall>(k, v)\<in>set (P p). leaf D (sdbm_hash k) = p))"

definition trie_map :: "nat set \<Rightarrow> (nat \<Rightarrow> pair list) \<Rightarrow> u8 list \<rightharpoonup> u8 list" where
  "trie_map D P key = map_of (P (leaf D (sdbm_hash key))) key"

definition split_pages :: "nat set \<Rightarrow> u64 \<Rightarrow> (nat \<Rightarrow> pair list) \<Rightarrow> nat \<Rightarrow> pair list" where
  "split_pages D h P =
     P(leaf D h := filter (\<lambda>p. \<not> to_new (2 ^ depth D h) p) (P (leaf D h)),
       leaf D h + 2 ^ depth D h := filter (to_new (2 ^ depth D h)) (P (leaf D h)))"

lemma to_new_bit: "to_new (2 ^ t) p \<longleftrightarrow> bit (sdbm_hash (fst p)) t"
proof -
  have "w AND 2 ^ t \<noteq> 0 \<longleftrightarrow> bit w t" for w :: u64
    by (metis and_exp_eq_0_iff_not_bit)
  then show ?thesis by (simp add: to_new_def)
qed

lemma split_placed:
  assumes "trie_closed D" and "placed D P"
  shows "placed (insert (node h (depth D h)) D) (split_pages D h P)"
  unfolding placed_def
proof (intro allI conjI ballI)
  fix p show "distinct (map fst (split_pages D h P p))"
    using assms(2) by (simp add: split_pages_def placed_def distinct_map_filter)
next
  fix p x assume x: "x \<in> set (split_pages D h P p)"
  obtain k v where kv: "x = (k, v)" by (cases x)
  have pl: "leaf D (sdbm_hash k) = q" if "(k, v) \<in> set (P q)" for q
    using assms(2) that unfolding placed_def by blast
  have ls: "leaf (insert (node h (depth D h)) D) (sdbm_hash k)
    = (if leaf D (sdbm_hash k) = leaf D h
       then leaf D h + (if bit (sdbm_hash k) (depth D h) then 2 ^ depth D h else 0) else leaf D (sdbm_hash k))"
    by (rule leaf_split [OF assms(1)])
  consider "p = leaf D h" | "p = leaf D h + 2 ^ depth D h" | "p \<noteq> leaf D h" "p \<noteq> leaf D h + 2 ^ depth D h" by blast
  then show "case x of (k, v) \<Rightarrow> leaf (insert (node h (depth D h)) D) (sdbm_hash k) = p"
  proof cases
    case 1
    with x kv have "(k, v) \<in> set (P (leaf D h))" "\<not> bit (sdbm_hash k) (depth D h)"
      by (auto simp: split_pages_def to_new_bit)
    then show ?thesis using pl 1 ls kv by auto
  next
    case 2
    with x kv have "(k, v) \<in> set (P (leaf D h))" "bit (sdbm_hash k) (depth D h)"
      by (auto simp: split_pages_def to_new_bit)
    then show ?thesis using pl 2 ls kv by auto
  next
    case 3
    with x kv have "(k, v) \<in> set (P p)" by (auto simp: split_pages_def)
    then show ?thesis using pl 3 ls kv by auto
  qed
qed

lemma map_of_filter_kept: "(\<And>v. Q (key, v)) \<Longrightarrow> map_of (filter Q ps) key = map_of ps key"
  by (induction ps) auto

lemma split_map:
  assumes "trie_closed D"
  shows "trie_map (insert (node h (depth D h)) D) (split_pages D h P) = trie_map D P"
proof
  fix key
  show "trie_map (insert (node h (depth D h)) D) (split_pages D h P) key = trie_map D P key"
    using new_page_unused [OF assms, of "sdbm_hash key" h]
    by (auto simp: trie_map_def leaf_split [OF assms] split_pages_def map_of_filter_kept to_new_bit)
qed

lemma placed_update:
  assumes "placed D P" and "p = leaf D (sdbm_hash key)" and "distinct (map fst qs)"
    and "set qs \<subseteq> insert (key, v) (set (P p))"
  shows "placed D (P(p := qs))"
  using assms unfolding placed_def by (auto simp: subset_iff)

lemma trie_map_update:
  assumes "p = leaf D (sdbm_hash key)" and "map_of qs = (map_of (P p))(key := x)"
  shows "trie_map D (P(p := qs)) = (trie_map D P)(key := x)"
  using assms by (auto simp: trie_map_def fun_eq_iff)

end
