(* ===== verification/Sdbm_Refine.thy ===== *)
theory Sdbm_Refine
  imports Sdbm Sdbm_Trie
begin

text \<open>
  The database of sdbm refines a finite map, as long as its system calls succeed and its directory
  fits in one block. A handle stands for the set of the directory bits and a list of pairs for
  each page; the trie of \<open>Sdbm_Trie\<close> turns these into the map.
\<close>

section \<open>Blocks of a file\<close>

definition page_of :: "u8 list \<Rightarrow> nat \<Rightarrow> page" where
  "page_of c p = put_at (replicate PBLKSIZ 0) 0 (take PBLKSIZ (drop (p * PBLKSIZ) c))"

lemma length_page_of [simp]: "length (page_of c p) = 1024"
  by (simp add: page_of_def put_at_def)

lemma nth_page_of:
  "i < 1024 \<Longrightarrow> page_of c p ! i = (if p * 1024 + i < length c then c ! (p * 1024 + i) else 0)"
  by (auto simp: page_of_def put_at_def nth_append)

lemma nth_write_bytes:
  assumes "length data = 1024"
  shows "n < length (fcontent (write_bytes (seek_file f (p * 1024)) data)) \<longleftrightarrow> n < max (length (fcontent f)) ((p + 1) * 1024)"
    and "n < max (length (fcontent f)) ((p + 1) * 1024) \<Longrightarrow> fcontent (write_bytes (seek_file f (p * 1024)) data) ! n
      = (if p * 1024 \<le> n \<and> n < (p + 1) * 1024 then data ! (n - p * 1024)
         else if n < length (fcontent f) then fcontent f ! n else 0)"
proof -
  have "min l a + (a - l) = a" for l a :: nat by simp
  then show "n < length (fcontent (write_bytes (seek_file f (p * 1024)) data)) \<longleftrightarrow> n < max (length (fcontent f)) ((p + 1) * 1024)"
    and "n < max (length (fcontent f)) ((p + 1) * 1024) \<Longrightarrow> fcontent (write_bytes (seek_file f (p * 1024)) data) ! n
      = (if p * 1024 \<le> n \<and> n < (p + 1) * 1024 then data ! (n - p * 1024)
         else if n < length (fcontent f) then fcontent f ! n else 0)"
    using assms by (auto simp: write_bytes_def seek_file_def put_at_def nth_append)
qed

lemma page_of_write:
  assumes "length data = 1024"
  shows "page_of (fcontent (write_bytes (seek_file f (p * 1024)) data)) q
    = (if q = p then data else page_of (fcontent f) q)"
proof (rule nth_equalityI)
  let ?c = "fcontent (write_bytes (seek_file f (p * 1024)) data)"
  show "length (page_of ?c q) = length (if q = p then data else page_of (fcontent f) q)"
    using assms by simp
  fix i assume "i < length (page_of ?c q)"
  then have i: "i < 1024" by simp
  note W = nth_write_bytes [OF assms, of "q * 1024 + i" f p]
  show "page_of ?c q ! i = (if q = p then data else page_of (fcontent f) q) ! i"
  proof (cases "q = p")
    case True
    then have "q * 1024 + i < max (length (fcontent f)) ((p + 1) * 1024)" using i by simp
    with W True i show ?thesis by (simp add: nth_page_of)
  next
    case False
    then have "\<not> (p * 1024 \<le> q * 1024 + i \<and> q * 1024 + i < (p + 1) * 1024)"
      using i by auto
    with W False i show ?thesis by (auto simp: nth_page_of)
  qed
qed

lemma whole_write:
  assumes "length (fcontent f) mod 1024 = 0" and "length data = 1024"
  shows "length (fcontent (write_bytes (seek_file f (p * 1024)) data)) mod 1024 = 0"
proof -
  have "length (fcontent (write_bytes (seek_file f (p * 1024)) data)) = max (length (fcontent f)) ((p + 1) * 1024)"
    using assms(2) by (auto simp: write_bytes_def seek_file_def put_at_def max_def min_def)
  then show ?thesis using assms(1) by (simp add: max_def)
qed

section \<open>System calls that succeed\<close>

lemma syscall_ok: "sys db = [] \<Longrightarrow> syscall db = (True, db)"
  by (simp add: syscall_def)

lemma pag_write_ok:
  assumes "sys db = []"
  shows "pag_write_at p page db
    = (True, db\<lparr>pagf := write_bytes (seek_file (pagf db) (p * PBLKSIZ)) page\<rparr>)"
  using assms by (simp add: pag_write_at_def pag_lseek_def syscall_ok)

lemma pag_read_ok:
  assumes "sys db = []"
  shows "pag_read_at p (db\<lparr>pagbuf := replicate PBLKSIZ 0\<rparr>)
    = (Some (length (file_bytes (seek_file (pagf db) (p * PBLKSIZ)) PBLKSIZ)),
       db\<lparr>pagbuf := page_of (fcontent (pagf db)) p,
          pagf := seek_file (pagf db) (p * PBLKSIZ + length (file_bytes (seek_file (pagf db) (p * PBLKSIZ)) PBLKSIZ))\<rparr>)"
  using assms
  by (simp add: pag_read_at_def pag_read_def pag_lseek_def syscall_ok seek_file_def file_bytes_def page_of_def Let_def)

section \<open>The directory\<close>

definition padded :: "u8 list \<Rightarrow> u8 list" where
  "padded c = c @ replicate (4096 - length c) 0"

definition dir_bits :: "u8 list \<Rightarrow> nat set" where
  "dir_bits c = {n. n < 32768 \<and> bit (c ! (n div 8)) (n mod 8)}"

definition dir_ok :: "DBM \<Rightarrow> nat set \<Rightarrow> bool" where
  "dir_ok db D \<longleftrightarrow> maxbno db = 8 * length (fcontent (dirf db))
     \<and> (fcontent (dirf db) = [] \<and> dirbno db = 0 \<or> length (fcontent (dirf db)) = 4096)
     \<and> (dirbno db = 0 \<or> dirbno db = - 1) \<and> length (dirbuf db) = 4096
     \<and> (dirbno db = 0 \<longrightarrow> dirbuf db = padded (fcontent (dirf db)))
     \<and> D = dir_bits (padded (fcontent (dirf db)))"

lemma dir_ok_update [simp]:
  "dir_ok (db\<lparr>pagbuf := pag\<rparr>) D = dir_ok db D" "dir_ok (db\<lparr>pagf := f\<rparr>) D = dir_ok db D"
  "dir_ok (db\<lparr>pagbno := n\<rparr>) D = dir_ok db D" "dir_ok (db\<lparr>curbit := b\<rparr>) D = dir_ok db D"
  "dir_ok (db\<lparr>hmask := h\<rparr>) D = dir_ok db D" "dir_ok (db\<lparr>blkptr := b\<rparr>) D = dir_ok db D"
  "dir_ok (db\<lparr>keyptr := k\<rparr>) D = dir_ok db D" "dir_ok (db\<lparr>db_flags := fl\<rparr>) D = dir_ok db D"
  "dir_ok (db\<lparr>sys := oks\<rparr>) D = dir_ok db D"
  by (simp_all add: dir_ok_def)

lemma dir_fetch_ok:
  assumes "dir_ok db D" and "sys db = []"
  obtains db' where "dir_fetch db 0 = (True, db')" and "dir_ok db' D" and "sys db' = []"
    and "dir_frame db db'" and "dirbno db' = 0"
proof (cases "dirbno db = 0")
  case True
  then show thesis using assms by (intro that [of db]) (auto simp: dir_fetch_def frame_simps)
next
  case False
  with assms(1) have l: "length (fcontent (dirf db)) = 4096" "length (dirbuf db) = 4096"
    by (auto simp: dir_ok_def)
  define db' where "db' = db\<lparr>dirf := seek_file (dirf db) 4096, dirbuf := fcontent (dirf db), dirbno := 0\<rparr>"
  have "dir_fetch db 0 = (True, db')"
    using False assms l
    by (simp add: dir_fetch_def dir_read_at_def dir_lseek_def syscall_ok file_bytes_def seek_file_def put_at_def
        Let_def db'_def)
  moreover have "dir_frame db db'" by (simp add: db'_def frame_simps)
  ultimately show thesis
    using assms l False by (intro that [of db']) (auto simp: dir_ok_def db'_def seek_file_def padded_def)
qed

lemma getdbit_ok:
  assumes "dir_ok db D" and "sys db = []" and "n < 32768"
  obtains db' where "getdbit db n = (n \<in> D, db')" and "dir_ok db' D" and "sys db' = []" and "dir_frame db db'"
proof -
  obtain db' where f: "dir_fetch db 0 = (True, db')" "dir_ok db' D" "sys db' = []" "dir_frame db db'" "dirbno db' = 0"
    by (rule dir_fetch_ok [OF assms(1,2)])
  have "n div 8 div 4096 = 0" "n div 8 mod 4096 = n div 8" using assms(3) by simp_all
  moreover have "n \<in> D \<longleftrightarrow> bit (dirbuf db' ! (n div 8)) (n mod 8)"
    using f(2,5) assms(3) by (auto simp: dir_ok_def dir_bits_def)
  ultimately have "getdbit db n = (n \<in> D, db')" using f(1) unfolding getdbit_def Let_def by simp
  then show thesis using f by (intro that)
qed

lemma getdbit_cached:
  assumes "dir_ok db D" and "dirbno db = 0" and "n < 32768"
  shows "getdbit db n = (n \<in> D, db)"
proof -
  have "n div 8 div 4096 = 0" "n div 8 mod 4096 = n div 8" using assms(3) by simp_all
  then show ?thesis
    using assms unfolding getdbit_def Let_def by (auto simp: dir_fetch_def dir_ok_def dir_bits_def)
qed

lemma dir_ok_max:
  assumes "dir_ok db D" and "n \<in> D"
  shows "n < maxbno db"
proof -
  have "fcontent (dirf db) \<noteq> []"
  proof
    assume "fcontent (dirf db) = []"
    then have "D = {}" using assms(1) by (auto simp: dir_ok_def padded_def dir_bits_def)
    then show False using assms(2) by simp
  qed
  then show ?thesis using assms by (auto simp: dir_ok_def dir_bits_def)
qed

lemma setdbit_ok:
  assumes "dir_ok db D" and "sys db = []" and "n < 32768"
  obtains db' where "setdbit db n = (True, db')" and "dir_ok db' (insert n D)" and "sys db' = []"
    and "pag_part db' = pag_part db"
proof -
  obtain db1 where f: "dir_fetch db 0 = (True, db1)" "dir_ok db1 D" "sys db1 = []" "dir_frame db db1" "dirbno db1 = 0"
    by (rule dir_fetch_ok [OF assms(1,2)])
  have n: "n div 8 div 4096 = 0" "n div 8 mod 4096 = n div 8" "n div 8 < 4096" using assms(3) by simp_all
  define buf where "buf = (dirbuf db1)[n div 8 := dirbuf db1 ! (n div 8) OR push_bit (n mod 8) 1]"
  have len: "length (dirbuf db1) = 4096" "length buf = 4096" using f(2) by (simp_all add: dir_ok_def buf_def)
  have content: "length (fcontent (dirf db1)) \<le> 4096" "maxbno db1 = 0 \<or> maxbno db1 = 32768"
    "maxbno db1 = 0 \<longrightarrow> length (fcontent (dirf db1)) = 0"
    using f(2) by (auto simp: dir_ok_def)
  have D: "D = dir_bits (dirbuf db1)" using f(2,5) by (simp add: dir_ok_def)
  have ins: "insert n D = dir_bits buf"
  proof (rule set_eqI)
    fix m
    show "m \<in> insert n D \<longleftrightarrow> m \<in> dir_bits buf"
    proof (cases "m div 8 = n div 8")
      case True
      have "bit (w OR push_bit (n mod 8) 1) (m mod 8) \<longleftrightarrow> bit w (m mod 8) \<or> m mod 8 = n mod 8" for w :: u8
        by (auto simp: bit_simps)
      note bit = this [unfolded push_bit_of_1]
      have "m = n \<longleftrightarrow> m mod 8 = n mod 8" using True by (metis div_mult_mod_eq)
      then show ?thesis
        using True assms(3) n(3) len unfolding D dir_bits_def buf_def by (auto simp: bit)
    next
      case False
      then show ?thesis using assms(3) unfolding D dir_bits_def buf_def by auto
    qed
  qed
  define db' where "db' = db1\<lparr>dirbuf := buf, maxbno := 32768, dirf := write_bytes (seek_file (dirf db1) 0) buf\<rparr>"
  have "setdbit db n = (True, db')"
    unfolding setdbit_def Let_def n(1,2)
    using f(1,3) content(2) assms(3)
    by (auto simp: dir_write_at_def dir_lseek_def syscall_ok db'_def buf_def)
  moreover have "fcontent (dirf db') = buf"
    using content(1) len by (simp add: db'_def write_bytes_def seek_file_def put_at_def)
  then have "dir_ok db' (insert n D)"
    using len f(5) by (simp add: dir_ok_def ins padded_def db'_def)
  moreover have "pag_part db' = pag_part db" using f(4) by (simp add: dir_frame_def pag_part_def db'_def)
  moreover have "sys db' = []" using f(3) by (simp add: db'_def)
  ultimately show thesis using that by blast
qed

section \<open>The relation between a handle and a map\<close>

definition pages_ok :: "DBM \<Rightarrow> (nat \<Rightarrow> pair list) \<Rightarrow> bool" where
  "pages_ok db P \<longleftrightarrow> length (fcontent (pagf db)) mod 1024 = 0
     \<and> (\<forall>p. page_rep (page_of (fcontent (pagf db)) p) (P p))
     \<and> (\<forall>p. pagbno db = int p \<longrightarrow> page_rep (pagbuf db) (P p))"

definition db_ok :: "DBM \<Rightarrow> nat set \<Rightarrow> (nat \<Rightarrow> pair list) \<Rightarrow> bool" where
  "db_ok db D P \<longleftrightarrow> sys db = [] \<and> dir_ok db D \<and> trie_closed D \<and> placed D P \<and> pages_ok db P"

definition sdbm_rel :: "DBM \<Rightarrow> (u8 list \<rightharpoonup> u8 list) \<Rightarrow> bool" where
  "sdbm_rel db m \<longleftrightarrow> (\<exists>D P. db_ok db D P \<and> m = trie_map D P)"

text \<open>The page of \<open>h\<close> is in the buffer; the file may be behind it.\<close>

definition on_page :: "DBM \<Rightarrow> nat set \<Rightarrow> (nat \<Rightarrow> pair list) \<Rightarrow> u64 \<Rightarrow> bool" where
  "on_page db D P h \<longleftrightarrow> sys db = [] \<and> dir_ok db D \<and> trie_closed D \<and> placed D P
     \<and> pagbno db = int (leaf D h) \<and> page_rep (pagbuf db) (P (leaf D h))
     \<and> length (fcontent (pagf db)) mod 1024 = 0
     \<and> (\<forall>q. q \<noteq> leaf D h \<longrightarrow> page_rep (page_of (fcontent (pagf db)) q) (P q))"

definition at_leaf :: "DBM \<Rightarrow> nat set \<Rightarrow> (nat \<Rightarrow> pair list) \<Rightarrow> u64 \<Rightarrow> bool" where
  "at_leaf db D P h \<longleftrightarrow> on_page db D P h \<and> curbit db = node h (depth D h) \<and> hmask db = mask (depth D h)"

lemmas at_leaf_defs = at_leaf_def on_page_def

lemma masks_eq: "masks = map mask [0..<32]"
  by code_simp

lemma nth_masks: "n < 32 \<Longrightarrow> masks ! n = mask n"
  by (simp add: masks_eq)

lemma dir_ok_frame: "dir_frame db db' \<Longrightarrow> dir_ok db' D \<Longrightarrow> pagf db' = pagf db \<and> pagbuf db' = pagbuf db
    \<and> pagbno db' = pagbno db \<and> db_flags db' = db_flags db \<and> blkptr db' = blkptr db \<and> keyptr db' = keyptr db"
  by (simp add: dir_frame_def pag_part_def)

lemma trie_walk_ok:
  assumes "dir_ok db D" and "sys db = []" and "trie_closed D" and "j \<le> depth D h"
  obtains db' where "trie_walk db h (node h j) j = (db', node h (depth D h), depth D h)"
    and "dir_ok db' D" and "sys db' = []" and "dir_frame db db'"
  using assms
proof (induction "depth D h - j" arbitrary: j db thesis)
  case 0
  then have j: "j = depth D h" by simp
  then have not: "node h j \<notin> D" using depth_not "0.prems"(4) by simp
  show ?case
  proof (cases "node h j < maxbno db")
    case False
    then show ?thesis using 0 j by (intro "0.prems"(1) [of db]) (simp_all add: trie_walk.simps [of db] frame_simps)
  next
    case True
    then have "node h j < 32768" using "0.prems"(2) by (auto simp: dir_ok_def)
    from getdbit_ok [OF "0.prems"(2,3) this] not obtain db' where
      "getdbit db (node h j) = (False, db')" "dir_ok db' D" "sys db' = []" "dir_frame db db'" by metis
    then show ?thesis using True j by (intro "0.prems"(1) [of db']) (simp_all add: trie_walk.simps [of db])
  qed
next
  case (Suc d)
  then have "node h j \<in> D" by (intro depth_below) simp
  have lt: "node h j < 32768" by (rule closed_bound [OF Suc.prems(4) \<open>node h j \<in> D\<close>])
  have max: "node h j < maxbno db" by (rule dir_ok_max [OF Suc.prems(2) \<open>node h j \<in> D\<close>])
  from getdbit_ok [OF Suc.prems(2,3) lt] \<open>node h j \<in> D\<close> obtain db1 where
    g: "getdbit db (node h j) = (True, db1)" "dir_ok db1 D" "sys db1 = []" "dir_frame db db1" by metis
  have "d = depth D h - Suc j" "Suc j \<le> depth D h" using Suc.hyps(2) by simp_all
  from Suc.hyps(1) [OF this(1) _ g(2,3) Suc.prems(4) this(2)] obtain db' where
    w: "trie_walk db1 h (node h (Suc j)) (Suc j) = (db', node h (depth D h), depth D h)"
    "dir_ok db' D" "sys db' = []" "dir_frame db1 db'" by metis
  have "trie_walk db h (node h j) j = trie_walk db1 h (node h (Suc j)) (Suc j)"
    using max g(1) by (simp add: trie_walk.simps [of db])
  then show ?case using w g(4) dir_frame_trans by (intro Suc.prems(1) [of db']) auto
qed

lemma getpage_ok:
  assumes "db_ok db D P"
  obtains db' where "getpage db h = (True, db')" and "at_leaf db' D P h" and "db_ok db' D P"
    and "db_flags db' = db_flags db"
proof -
  have ok: "dir_ok db D" "sys db = []" "trie_closed D" "placed D P" "pages_ok db P"
    using assms by (simp_all add: db_ok_def)
  obtain db1 where w: "trie_walk db h 0 0 = (db1, node h (depth D h), depth D h)"
    "dir_ok db1 D" "sys db1 = []" "dir_frame db db1"
    using trie_walk_ok [OF ok(1-3), of 0 h] by auto
  note frame = dir_ok_frame [OF w(4,2)]
  define db2 where "db2 = db1\<lparr>curbit := node h (depth D h), hmask := mask (depth D h)\<rparr>"
  have d: "depth D h < 32" using depth_bound [OF ok(3), of h] by simp
  have pagb: "unat (h AND hmask db2) = leaf D h" by (simp add: leaf_def unat_and_mask db2_def)
  have get: "getpage db h = (if int (leaf D h) \<noteq> pagbno db2 then
         case pag_read_at (leaf D h) (db2\<lparr>pagbuf := replicate PBLKSIZ 0\<rparr>) of
           (None, db) \<Rightarrow> (False, db)
         | (Some _, db) \<Rightarrow> if chkpage (pagbuf db) then (True, db\<lparr>pagbno := int (leaf D h)\<rparr>) else (False, db)
       else (True, db2))"
    unfolding getpage_def w(1) Let_def prod.case nth_masks [OF d] db2_def [symmetric] pagb ..
  have dir2: "dir_ok db2 D" "sys db2 = []" "pagf db2 = pagf db" "pagbuf db2 = pagbuf db" "pagbno db2 = pagbno db"
    "db_flags db2 = db_flags db" using w frame by (simp_all add: db2_def dir_ok_def)
  show thesis
  proof (cases "pagbno db = int (leaf D h)")
    case True
    then have "getpage db h = (True, db2)"
      using dir2 by (simp add: get)
    moreover have "at_leaf db2 D P h" "db_ok db2 D P"
      using dir2 ok(3-5) True by (auto simp: at_leaf_defs db_ok_def pages_ok_def) (simp_all add: db2_def)
    ultimately show thesis using dir2(6) that by blast
  next
    case False
    let ?n = "length (file_bytes (seek_file (pagf db2) (leaf D h * PBLKSIZ)) PBLKSIZ)"
    define db3 where "db3 = db2\<lparr>pagbuf := page_of (fcontent (pagf db2)) (leaf D h),
      pagf := seek_file (pagf db2) (leaf D h * PBLKSIZ + ?n), pagbno := int (leaf D h)\<rparr>"
    have rep: "page_rep (page_of (fcontent (pagf db2)) (leaf D h)) (P (leaf D h))"
      using ok(5) dir2(3) by (simp add: pages_ok_def)
    have "getpage db h = (True, db3)"
      using False dir2(5) chkpage_rep [OF rep] unfolding get pag_read_ok [OF dir2(2), of "leaf D h"]
      by (simp add: db3_def)
    moreover have "dir_ok db3 D" using dir2(1) by (simp add: db3_def dir_ok_def)
    moreover have "db_ok db3 D P" "at_leaf db3 D P h"
      using dir2 ok(3-5) rep calculation(2)
      by (auto simp: at_leaf_defs db_ok_def pages_ok_def db3_def seek_file_def) (simp_all add: db2_def)
    moreover have "db_flags db3 = db_flags db" using dir2(6) by (simp add: db3_def)
    ultimately show thesis using that by blast
  qed
qed

section \<open>Writing the page back\<close>

lemma write_back_ok:
  assumes "on_page db D P h"
  obtains db' where "write_back db = (db', None, 0)" and "db_ok db' D P" and "curbit db' = curbit db"
    and "db_flags db' = db_flags db"
proof -
  let ?p = "leaf D h"
  have a: "sys db = []" "dir_ok db D" "pagbno db = int ?p" "page_rep (pagbuf db) (P ?p)"
    "\<And>q. q \<noteq> ?p \<Longrightarrow> page_rep (page_of (fcontent (pagf db)) q) (P q)"
    using assms by (simp_all add: on_page_def)
  have whole: "length (fcontent (pagf db)) mod 1024 = 0" using assms by (simp add: on_page_def)
  define db' where "db' = db\<lparr>pagf := write_bytes (seek_file (pagf db) (?p * PBLKSIZ)) (pagbuf db)\<rparr>"
  have "write_back db = (db', None, 0)"
    using a(1,3) by (simp add: write_back_def pag_write_ok db'_def)
  moreover have "pages_ok db' P"
    using a(3-5) page_repD(1) [OF a(4)] whole_write [OF whole page_repD(1) [OF a(4)]]
    by (auto simp: pages_ok_def db'_def page_of_write)
  then have "db_ok db' D P"
    using assms by (simp add: db_ok_def on_page_def db'_def)
  moreover have "curbit db' = curbit db" "db_flags db' = db_flags db" by (simp_all add: db'_def)
  ultimately show thesis using that by blast
qed

lemma on_page_buffer:
  assumes "on_page db D P h" and "page_rep pag qs" and "placed D (P(leaf D h := qs))"
  shows "on_page (db\<lparr>pagbuf := pag\<rparr>) D (P(leaf D h := qs)) h"
  using assms by (simp add: on_page_def)

section \<open>Splitting\<close>

lemma mask_plus_one: "mask t + 1 = (2 ^ t :: u64)"
  by (simp add: mask_eq_exp_minus_1)

lemma mask_or_exp: "mask t OR 2 ^ t = (mask (Suc t) :: u64)"
  by (simp add: mask_Suc_exp or.commute)

lemma new_page_number:
  fixes h :: u64
  assumes "t < 64"
  shows "unat ((h AND mask t) OR 2 ^ t) = unat h mod 2 ^ t + (2 ^ t :: nat)"
proof -
  define w where "w = (h AND mask t) OR 2 ^ t"
  have "w AND mask (Suc t) = w"
    unfolding w_def by (rule bit_word_eqI) (auto simp: bit_simps)
  then have "unat w = unat w mod 2 ^ Suc t" using unat_and_mask [of w "Suc t"] by simp
  also have "\<dots> = unat w mod 2 ^ t + (if bit w t then 2 ^ t else 0)" by (rule unat_mod_Suc)
  also have "unat w mod 2 ^ t = unat h mod 2 ^ t"
    using assms unfolding mod_eq_bits w_def by (auto simp: bit_simps)
  finally show ?thesis using assms by (simp add: w_def bit_simps)
qed

lemma and_exp_bit: "h AND 2 ^ t \<noteq> 0 \<longleftrightarrow> bit h t" for h :: u64
  by (metis and_exp_eq_0_iff_not_bit)

text \<open>One round of the loop: the split on disk and in the directory, then the test for room.\<close>

lemma split_step:
  assumes "at_leaf db D P h" and "curbit db < 32768"
  defines "D' \<equiv> insert (node h (depth D h)) D" and "P' \<equiv> split_pages D h P"
  obtains db1 db2 where
    "makroom_loop (Suc smax) db h need = (if fitpair (pagbuf db1) need then (True, db1) else makroom_loop smax db2 h need)"
    and "on_page db1 D' P' h" and "at_leaf db2 D' P' h" and "curbit db1 = curbit db"
    and "db_flags db1 = db_flags db" and "db_flags db2 = db_flags db"
proof -
  let ?t = "depth D h" and ?p = "leaf D h"
  have op: "on_page db D P h" and cur: "curbit db = node h ?t" and hm: "hmask db = mask ?t"
    using assms(1) by (simp_all add: at_leaf_def)
  then have ok: "sys db = []" "dir_ok db D" "trie_closed D" "placed D P" "pagbno db = int ?p"
    "page_rep (pagbuf db) (P ?p)" "\<And>q. q \<noteq> ?p \<Longrightarrow> page_rep (page_of (fcontent (pagf db)) q) (P q)"
    by (simp_all add: on_page_def)
  have node: "node h ?t < 32768" using assms(2) cur by simp
  have t: "?t < 16" by (rule node_less [OF node])
  have sbit: "hmask db + 1 = 2 ^ ?t" by (simp add: hm mask_plus_one)
  obtain pag new where spl: "splpage (pagbuf db) (2 ^ ?t) = (pag, new)" by (rule prod.exhaust)
  have pag: "page_rep pag (P' ?p)" and new: "page_rep new (P' (?p + 2 ^ ?t))"
    using splpage_rep [OF ok(6), of "2 ^ ?t"] spl by (simp_all add: P'_def split_pages_def)
  have other: "P' q = P q" if "q \<noteq> ?p" "q \<noteq> ?p + 2 ^ ?t" for q
    using that by (simp add: P'_def split_pages_def)
  have newp: "unat ((h AND hmask db) OR (hmask db + 1)) = ?p + 2 ^ ?t"
    using new_page_number [of ?t h] t unfolding sbit by (simp add: hm leaf_def)
  have side: "h AND (hmask db + 1) \<noteq> 0 \<longleftrightarrow> bit h ?t" unfolding sbit by (rule and_exp_bit)
  have leaf': "leaf D' h = ?p + (if bit h ?t then 2 ^ ?t else 0)"
    using leaf_split [OF ok(3), of h h] by (simp add: D'_def)
  define dbC where "dbC = (if bit h ?t
      then db\<lparr>pagbuf := pag, pagf := write_bytes (seek_file (pagf db) (?p * PBLKSIZ)) pag,
        pagbno := int (?p + 2 ^ ?t), pagbuf := new\<rparr>
      else db\<lparr>pagbuf := pag, pagf := write_bytes (seek_file (pagf db) ((?p + 2 ^ ?t) * PBLKSIZ)) new\<rparr>)"
  have C: "sys dbC = []" "dir_ok dbC D" "curbit dbC = curbit db" "hmask dbC = hmask db" "db_flags dbC = db_flags db"
    "pagbno dbC = int (leaf D' h)" "page_rep (pagbuf dbC) (P' (leaf D' h))"
    using ok pag new by (auto simp: dbC_def leaf')
  have Cpages: "page_rep (page_of (fcontent (pagf dbC)) q) (P' q)" if "q \<noteq> leaf D' h" for q
    using that ok(7) pag new other page_repD(1) [OF pag] page_repD(1) [OF new]
      page_of_write [of new "pagf db" "?p + 2 ^ ?t", unfolded add_mult_distrib]
    by (cases "bit h ?t") (auto simp: dbC_def leaf' page_of_write add_mult_distrib)
  have whole: "length (fcontent (pagf dbC)) mod 1024 = 0"
    using op whole_write [OF _ page_repD(1) [OF pag], of "pagf db" ?p]
      whole_write [OF _ page_repD(1) [OF new], of "pagf db" "?p + 2 ^ ?t"]
    by (auto simp: dbC_def on_page_def)
  obtain db1 where set: "setdbit dbC (node h ?t) = (True, db1)" "dir_ok db1 D'" "sys db1 = []" "pag_part db1 = pag_part dbC"
    unfolding D'_def by (rule setdbit_ok [OF C(2,1) node])
  have D1: "on_page db1 D' P' h"
    using set C Cpages whole closed_split [OF ok(3) node] split_placed [OF ok(3,4), of h]
    by (simp add: on_page_def D'_def P'_def pag_part_def)
  have same: "curbit db1 = curbit db" "hmask db1 = hmask db" "db_flags db1 = db_flags db"
    using set(4) C by (simp_all add: pag_part_def)
  define dbE where "dbE = db1\<lparr>curbit := 2 * curbit db1 + (if h AND (hmask db1 + 1) \<noteq> 0 then 2 else 1),
      hmask := hmask db1 OR (hmask db1 + 1)\<rparr>"
  define db2 where "db2 = dbE\<lparr>pagf := write_bytes (seek_file (pagf dbE) (nat (pagbno dbE) * PBLKSIZ)) (pagbuf dbE)\<rparr>"
  have E: "sys dbE = []" "pagf dbE = pagf db1" "pagbno dbE = pagbno db1" "pagbuf dbE = pagbuf db1" "dirf dbE = dirf db1"
    using set(3) by (simp_all add: dbE_def)
  have depth': "depth D' h = Suc ?t" using depth_split [OF ok(3), of h h] by (simp add: D'_def)
  have "curbit db2 = node h (Suc ?t)" "hmask db2 = mask (Suc ?t)"
    using side same cur by (simp_all add: db2_def dbE_def hm mask_plus_one mask_or_exp)
  moreover have "on_page db2 D' P' h"
    using D1 E page_repD(1) [of "pagbuf db1" "P' (leaf D' h)"]
      whole_write [of "pagf db1" "pagbuf db1" "leaf D' h"]
    by (auto simp: on_page_def db2_def dbE_def page_of_write)
  ultimately have D2: "at_leaf db2 D' P' h" by (simp add: at_leaf_def depth')
  have write1: "pag_write_at (nat (pagbno db)) pag (db\<lparr>pagbuf := pag\<rparr>)
      = (True, db\<lparr>pagbuf := pag, pagf := write_bytes (seek_file (pagf db) (?p * PBLKSIZ)) pag\<rparr>)"
    using ok(1,5) by (simp add: pag_write_ok)
  have write2: "pag_write_at (?p + 2 ^ ?t) new (db\<lparr>pagbuf := pag\<rparr>)
      = (True, db\<lparr>pagbuf := pag, pagf := write_bytes (seek_file (pagf db) ((?p + 2 ^ ?t) * PBLKSIZ)) new\<rparr>)"
    using ok(1) by (simp add: pag_write_ok)
  have write3: "pag_write_at (nat (pagbno dbE)) (pagbuf dbE) dbE = (True, db2)"
    using E(1) by (simp add: pag_write_ok db2_def)
  let ?A = "db\<lparr>pagbuf := pag\<rparr>"
  have phase: "(if h AND (hmask ?A + 1) \<noteq> 0 then
      let (ok, d) = pag_write_at (nat (pagbno ?A)) (pagbuf ?A) ?A
      in if ok then (True, d\<lparr>pagbno := int (unat ((h AND hmask ?A) OR (hmask ?A + 1))), pagbuf := new\<rparr>) else (False, d)
    else pag_write_at (unat ((h AND hmask ?A) OR (hmask ?A + 1))) new ?A) = (True, dbC)"
    using write1 write2 side newp by (simp add: dbC_def)
  have "makroom_loop (Suc smax) db h need
    = (let (ok, db1) = setdbit dbC (curbit dbC)
       in if \<not> ok then (False, db1)
          else if fitpair (pagbuf db1) need then (True, db1)
          else
            let db2 = db1\<lparr>curbit := 2 * curbit db1 + (if h AND (hmask db1 + 1) \<noteq> 0 then 2 else 1),
                  hmask := hmask db1 OR (hmask db1 + 1)\<rparr>;
                (ok, db3) = pag_write_at (nat (pagbno db2)) (pagbuf db2) db2
            in if \<not> ok then (False, db3) else makroom_loop smax db3 h need)"
    unfolding makroom_loop.simps sbit spl
    by (simp only: Let_def prod.case phase [unfolded Let_def] not_True_eq_False if_False)
  also have "\<dots> = (if fitpair (pagbuf db1) need then (True, db1) else makroom_loop smax db2 h need)"
    unfolding C(3) cur set(1) Let_def prod.case dbE_def [symmetric] write3 by simp
  finally have eq: "makroom_loop (Suc smax) db h need
    = (if fitpair (pagbuf db1) need then (True, db1) else makroom_loop smax db2 h need)" .
  have "db_flags db2 = db_flags db" using same by (simp add: db2_def dbE_def)
  with that [OF eq D1 D2 same(1,3)] show thesis .
qed

lemma pag_write_curbit: "curbit (snd (pag_write_at p page db)) = curbit db"
  by (auto simp: pag_write_at_def pag_lseek_def syscall_def Let_def split: list.split prod.split)

lemma setdbit_curbit: "curbit (snd (setdbit db n)) = curbit db"
proof -
  obtain ok db1 where 1: "dir_fetch db (n div 8 div DBLKSIZ) = (ok, db1)" by (rule prod.exhaust)
  have "curbit db1 = curbit db"
    using dir_fetch_frame [of db "n div 8 div DBLKSIZ"] 1 by (simp add: dir_frame_def pag_part_def)
  moreover have "curbit (snd (dir_write_at b d)) = curbit d" for b d
    by (auto simp: dir_write_at_def dir_lseek_def syscall_def Let_def split: list.split prod.split)
  ultimately show ?thesis unfolding setdbit_def Let_def 1 by simp
qed

text \<open>The current bit only grows, so that its last value bounds the nodes that were set.\<close>

lemma makroom_curbit: "makroom_loop smax db h need = (True, db') \<Longrightarrow> curbit db \<le> curbit db'"
proof (induction smax arbitrary: db)
  case (Suc smax)
  obtain pag new where 1: "splpage (pagbuf db) (hmask db + 1) = (pag, new)" by (rule prod.exhaust)
  let ?A = "db\<lparr>pagbuf := pag\<rparr>"
  let ?newp = "unat ((h AND hmask ?A) OR (hmask ?A + 1))"
  obtain ok2 db2 where 2: "(if h AND (hmask ?A + 1) \<noteq> 0 then
      let (ok, d) = pag_write_at (nat (pagbno ?A)) (pagbuf ?A) ?A
      in if ok then (True, d\<lparr>pagbno := int ?newp, pagbuf := new\<rparr>) else (False, d)
    else pag_write_at ?newp new ?A) = (ok2, db2)" by (rule prod.exhaust)
  obtain ok3 db3 where 3: "setdbit db2 (curbit db2) = (ok3, db3)" by (rule prod.exhaust)
  have "curbit db2 = curbit db"
    using 2 pag_write_curbit [of "nat (pagbno ?A)" "pagbuf ?A" ?A] pag_write_curbit [of ?newp new ?A]
    by (auto split: if_splits prod.splits)
  moreover have "curbit db3 = curbit db2" using 3 setdbit_curbit [of db2 "curbit db2"] by simp
  moreover define dbE where "dbE = db3\<lparr>curbit := 2 * curbit db3 + (if h AND (hmask db3 + 1) \<noteq> 0 then 2 else 1),
      hmask := hmask db3 OR (hmask db3 + 1)\<rparr>"
  obtain ok4 db4 where 4: "pag_write_at (nat (pagbno dbE)) (pagbuf dbE) dbE = (ok4, db4)" by (rule prod.exhaust)
  have "curbit db4 = curbit dbE" using 4 pag_write_curbit [of "nat (pagbno dbE)" "pagbuf dbE" dbE] by simp
  moreover have "curbit db3 \<le> curbit dbE" by (simp add: dbE_def)
  moreover have "makroom_loop (Suc smax) db h need
    = (if \<not> ok2 then (False, db2) else if \<not> ok3 then (False, db3)
       else if fitpair (pagbuf db3) need then (True, db3)
       else if \<not> ok4 then (False, db4) else makroom_loop smax db4 h need)"
    unfolding makroom_loop.simps 1 Let_def prod.case 2 [unfolded Let_def] 3 dbE_def [symmetric] 4 ..
  ultimately show ?case using Suc.IH [of db4] Suc.prems by (auto split: if_splits)
qed simp

lemma makroom_ok:
  assumes "at_leaf db D P h" and "makroom_loop smax db h need = (True, db')" and "curbit db' < 32768"
  obtains D' P' where "on_page db' D' P' h" and "fitpair (pagbuf db') need"
    and "trie_map D' P' = trie_map D P" and "db_flags db' = db_flags db"
  using assms
proof (induction smax arbitrary: db D P thesis)
  case (Suc smax)
  have cur: "curbit db < 32768" using makroom_curbit [OF Suc.prems(3)] Suc.prems(4) by simp
  let ?D = "insert (node h (depth D h)) D" and ?P = "split_pages D h P"
  obtain db1 db2 where step:
    "makroom_loop (Suc smax) db h need = (if fitpair (pagbuf db1) need then (True, db1) else makroom_loop smax db2 h need)"
    "on_page db1 ?D ?P h" "at_leaf db2 ?D ?P h" "db_flags db1 = db_flags db" "db_flags db2 = db_flags db"
    by (rule split_step [OF Suc.prems(2) cur])
  have closed: "trie_closed D" using Suc.prems(2) by (simp add: at_leaf_defs)
  show ?case
  proof (cases "fitpair (pagbuf db1) need")
    case True
    with step Suc.prems(3) have "db' = db1" by simp
    then show ?thesis using Suc.prems(1) [of ?D ?P] step True split_map [OF closed] by simp
  next
    case False
    with step Suc.prems(3) have "makroom_loop smax db2 h need = (True, db')" by simp
    from Suc.IH [OF _ step(3) this Suc.prems(4)] obtain D' P' where
      "on_page db' D' P' h" "fitpair (pagbuf db') need" "trie_map D' P' = trie_map ?D ?P" "db_flags db' = db_flags db2"
      by blast
    then show ?thesis using Suc.prems(1) [of D' P'] step split_map [OF closed] by simp
  qed
qed simp

section \<open>The operations\<close>

lemma on_page_key:
  assumes "on_page db D P (sdbm_hash key)"
  shows "distinct (map fst (P (leaf D (sdbm_hash key))))"
    and "trie_map D P key = map_of (P (leaf D (sdbm_hash key))) key"
    and "page_rep (pagbuf db) (P (leaf D (sdbm_hash key)))"
  using assms by (simp_all add: on_page_def placed_def trie_map_def)

lemma fetch_ok:
  assumes "db_ok db D P" and "\<not> bad (Some key)"
  obtains db' where "sdbm_fetch (Some db) (Some key) = (Some db', None, trie_map D P key)" and "db_ok db' D P"
    and "db_flags db' = db_flags db"
proof -
  obtain db' where g: "getpage db (sdbm_hash key) = (True, db')" "at_leaf db' D P (sdbm_hash key)" "db_ok db' D P"
    "db_flags db' = db_flags db"
    by (rule getpage_ok [OF assms(1)])
  have "getpair (pagbuf db') key = trie_map D P key"
    using g(2) on_page_key [of db' D P key] by (simp add: at_leaf_def pagebucket.get_rep)
  then show thesis using g assms(2) by (intro that [of db']) simp_all
qed

text \<open>Deleting the key from the page in the buffer.\<close>

lemma buffer_delete:
  assumes "on_page db D P h" and "h = sdbm_hash key"
  obtains P' where "on_page (db\<lparr>pagbuf := snd (delpair (pagbuf db) key)\<rparr>) D P' h"
    and "trie_map D P' = (trie_map D P)(key := None)" and "fst (delpair (pagbuf db) key) \<longleftrightarrow> trie_map D P key \<noteq> None"
    and "set (P' (leaf D h)) \<subseteq> set (P (leaf D h))"
proof -
  note k = on_page_key [OF assms(1) [unfolded assms(2)], folded assms(2)]
  obtain qs where qs: "page_rep (snd (delpair (pagbuf db) key)) qs" "distinct (map fst qs)"
    "set qs \<subseteq> set (P (leaf D h))" "map_of qs = (map_of (P (leaf D h)))(key := None)"
    "fst (delpair (pagbuf db) key) \<longleftrightarrow> map_of (P (leaf D h)) key \<noteq> None"
    by (rule pagebucket.del_map [OF k(3,1)])
  have "placed D (P(leaf D h := qs))"
    using assms qs by (intro placed_update [of D P "leaf D h" key qs undefined]) (auto simp: on_page_def)
  from on_page_buffer [OF assms(1) qs(1) this]
  have "on_page (db\<lparr>pagbuf := snd (delpair (pagbuf db) key)\<rparr>) D (P(leaf D h := qs)) h" .
  moreover have "trie_map D (P(leaf D h := qs)) = (trie_map D P)(key := None)"
    using qs(4) assms(2) by (intro trie_map_update) simp_all
  moreover have "set ((P(leaf D h := qs)) (leaf D h)) \<subseteq> set (P (leaf D h))" using qs(3) by simp
  ultimately show thesis using qs(5) k(2) that by simp
qed

lemma delete_ok:
  assumes "db_ok db D P" and "\<not> bad (Some key)" and "\<not> sdbm_rdonly db"
  obtains db' where "sdbm_delete (Some db) (Some key) = (Some db', None, if trie_map D P key = None then - 1 else 0)"
    and "sdbm_rel db' ((trie_map D P)(key := None))" and "db_flags db' = db_flags db"
proof -
  obtain db1 where g: "getpage db (sdbm_hash key) = (True, db1)" "at_leaf db1 D P (sdbm_hash key)" "db_ok db1 D P"
    "db_flags db1 = db_flags db"
    by (rule getpage_ok [OF assms(1)])
  have on: "on_page db1 D P (sdbm_hash key)" using g(2) by (simp add: at_leaf_def)
  obtain found pag where dp: "delpair (pagbuf db1) key = (found, pag)" by (rule prod.exhaust)
  obtain P' where P': "on_page (db1\<lparr>pagbuf := pag\<rparr>) D P' (sdbm_hash key)"
    "trie_map D P' = (trie_map D P)(key := None)" "found \<longleftrightarrow> trie_map D P key \<noteq> None"
    using buffer_delete [OF on refl] unfolding dp by auto
  show thesis
  proof (cases found)
    case False
    then have "(trie_map D P)(key := None) = trie_map D P" using P'(3) by auto
    then have "sdbm_rel db1 ((trie_map D P)(key := None))" using g(3) unfolding sdbm_rel_def by metis
    then show thesis using False P'(3) assms(2,3) g dp by (intro that [of db1]) simp_all
  next
    case True
    obtain db' where w: "write_back (db1\<lparr>pagbuf := pag\<rparr>) = (db', None, 0)" "db_ok db' D P'"
      "db_flags db' = db_flags (db1\<lparr>pagbuf := pag\<rparr>)"
      by (rule write_back_ok [OF P'(1)])
    then have "sdbm_rel db' ((trie_map D P)(key := None))" using P'(2) unfolding sdbm_rel_def by metis
    then show thesis using True P'(3) assms(2,3) g dp w by (intro that [of db']) simp_all
  qed
qed

lemma not_bad: "length key < 2 ^ 31 \<Longrightarrow> \<not> bad (Some key)"
  by (simp add: bad_def word_sless_alt sint_of_nat_small)

definition store_need :: "u8 list \<Rightarrow> u8 list \<Rightarrow> int" where
  "store_need key val = sint (of_nat (length key) + of_nat (length val) :: u32)"

lemma store_need_exact:
  assumes "length key < 2 ^ 31" "length val < 2 ^ 31" "0 \<le> store_need key val"
  shows "store_need key val = int (length key) + int (length val)"
proof (cases "length key + length val < 2 ^ 31")
  case True
  then show ?thesis using sint_of_nat_small [of "length key + length val"] by (simp add: store_need_def)
next
  case False
  then have "store_need key val = int (length key + length val) - 2 ^ 32"
    using assms(1,2) sint_of_nat_wrap [of "length key + length val"] by (simp add: store_need_def)
  then show ?thesis using assms by simp
qed

text \<open>The state in which \<open>sdbm_store\<close> looks for room: the page of the key without the key.\<close>

lemma store_page:
  assumes "db_ok db D P" and "length key < 2 ^ 31" and "\<not> sdbm_rdonly db"
    and "0 \<le> store_need key val" and "store_need key val \<le> PAIRMAX"
  obtains (present) db1 where "flags \<noteq> DBM_REPLACE" and "trie_map D P key \<noteq> None" and "db_ok db1 D P"
      and "sdbm_store (Some db) (Some key) val flags = (Some db1, None, 1)" and "db_flags db1 = db_flags db"
  | (absent) db2 P' where "flags = DBM_REPLACE \<or> trie_map D P key = None"
      and "at_leaf db2 D P' (sdbm_hash key)" and "trie_map D P' = (trie_map D P)(key := None)"
      and "db_flags db2 = db_flags db" and "flags \<noteq> DBM_REPLACE \<Longrightarrow> P' = P"
      and "sdbm_store (Some db) (Some key) val flags
        = (let (ok, db3) = (if \<not> fitpair (pagbuf db2) (store_need key val)
                            then makroom db2 (sdbm_hash key) (store_need key val) else (True, db2))
           in if \<not> ok then (Some (ioerr db3), None, - 1)
              else map_prod Some id (write_back (db3\<lparr>pagbuf := putpair (pagbuf db3) key val\<rparr>)))"
proof -
  let ?h = "sdbm_hash key"
  obtain db1 where g: "getpage db ?h = (True, db1)" "at_leaf db1 D P ?h" "db_ok db1 D P"
    "db_flags db1 = db_flags db"
    by (rule getpage_ok [OF assms(1)])
  have on: "on_page db1 D P ?h" using g(2) by (simp add: at_leaf_def)
  have dup: "duppair (pagbuf db1) key \<longleftrightarrow> trie_map D P key \<noteq> None"
    using on_page_key(2,3) [OF on] by (simp add: pagebucket.dup_rep map_of_eq_None_iff)
  have need: "\<not> (store_need key val < 0 \<or> store_need key val > PAIRMAX)" using assms(4,5) by simp
  define db2 where "db2 = (if flags = DBM_REPLACE then db1\<lparr>pagbuf := snd (delpair (pagbuf db1) key)\<rparr> else db1)"
  have unf: "sdbm_store (Some db) (Some key) val flags
      = (if flags \<noteq> DBM_REPLACE \<and> duppair (pagbuf db1) key then (Some db1, None, 1)
         else let (ok, db3) = (if \<not> fitpair (pagbuf db2) (store_need key val)
                            then makroom db2 ?h (store_need key val) else (True, db2))
           in if \<not> ok then (Some (ioerr db3), None, - 1)
              else map_prod Some id (write_back (db3\<lparr>pagbuf := putpair (pagbuf db3) key val\<rparr>)))"
    unfolding sdbm_store.simps Let_def store_need_def [symmetric] option.sel g(1) prod.case db2_def [symmetric]
    by (simp only: not_bad [OF assms(2)] assms(3) need if_False not_True_eq_False)
  show thesis
  proof (cases "flags \<noteq> DBM_REPLACE \<and> trie_map D P key \<noteq> None")
    case True
    then show thesis using unf dup g by (intro present [of db1]) simp_all
  next
    case False
    then have unf2: "sdbm_store (Some db) (Some key) val flags
      = (let (ok, db3) = (if \<not> fitpair (pagbuf db2) (store_need key val)
                            then makroom db2 ?h (store_need key val) else (True, db2))
           in if \<not> ok then (Some (ioerr db3), None, - 1)
              else map_prod Some id (write_back (db3\<lparr>pagbuf := putpair (pagbuf db3) key val\<rparr>)))"
      using unf dup by auto
    show thesis
    proof (cases "flags = DBM_REPLACE")
      case True
      obtain P' where P': "on_page (db1\<lparr>pagbuf := snd (delpair (pagbuf db1) key)\<rparr>) D P' ?h"
        "trie_map D P' = (trie_map D P)(key := None)"
        by (rule buffer_delete [OF on refl])
      have "at_leaf db2 D P' ?h" using P'(1) g(2) True by (simp add: at_leaf_def db2_def)
      moreover have "db_flags db2 = db_flags db" using g(4) by (simp add: db2_def)
      ultimately show thesis using absent [of db2 P'] P'(2) True unf2 by simp
    next
      case no: False
      with False have none: "trie_map D P key = None" by simp
      then have "(trie_map D P)(key := None) = trie_map D P" by auto
      then show thesis using absent [of db2 P] no none g unf2 by (simp add: db2_def)
    qed
  qed
qed

lemma put_ok:
  assumes "on_page db D P (sdbm_hash key)" and "trie_map D P key = None"
    and "fitpair (pagbuf db) (int (length key) + int (length val))"
  obtains db' where "write_back (db\<lparr>pagbuf := putpair (pagbuf db) key val\<rparr>) = (db', None, 0)"
    and "sdbm_rel db' ((trie_map D P)(key \<mapsto> val))" and "curbit db' = curbit db" and "db_flags db' = db_flags db"
proof -
  let ?p = "leaf D (sdbm_hash key)"
  let ?qs = "P ?p @ [(key, val)]"
  note k = on_page_key [OF assms(1)]
  have "key \<notin> fst ` set (P ?p)" using assms(2) k(2) by (simp add: map_of_eq_None_iff)
  with pagebucket.put_map [OF k(3) assms(3)] k(1)
  have put: "page_rep (putpair (pagbuf db) key val) ?qs" "distinct (map fst ?qs)"
    "map_of ?qs = (map_of (P ?p))(key \<mapsto> val)" by blast+
  have "placed D (P(?p := ?qs))"
    using assms(1) put(2) by (intro placed_update [of D P ?p key ?qs val]) (auto simp: on_page_def)
  from on_page_buffer [OF assms(1) put(1) this]
  obtain db' where w: "write_back (db\<lparr>pagbuf := putpair (pagbuf db) key val\<rparr>) = (db', None, 0)"
    "db_ok db' D (P(?p := ?qs))" "curbit db' = curbit (db\<lparr>pagbuf := putpair (pagbuf db) key val\<rparr>)"
    "db_flags db' = db_flags (db\<lparr>pagbuf := putpair (pagbuf db) key val\<rparr>)"
    by (rule write_back_ok)
  have "trie_map D (P(?p := ?qs)) = (trie_map D P)(key \<mapsto> val)"
    using put(3) by (intro trie_map_update) simp_all
  then have "sdbm_rel db' ((trie_map D P)(key \<mapsto> val))" using w(2) unfolding sdbm_rel_def by metis
  then show thesis using w by (intro that [of db']) simp_all
qed

lemma ioerr_result: "(let (ok, db) = x in if \<not> ok then (Some (ioerr db), None, - 1) else f db) = (Some db', e, r) \<Longrightarrow>
   r \<noteq> - 1 \<Longrightarrow> fst x"
  by (cases x) (auto split: if_splits)

lemma store_ok:
  assumes "db_ok db D P" and "length key < 2 ^ 31" and "length val < 2 ^ 31" and "\<not> sdbm_rdonly db"
    and "sdbm_store (Some db) (Some key) val flags = (Some db', e, r)" and "r \<noteq> - 1" and "curbit db' < 32768"
  shows "e = None \<and> db_flags db' = db_flags db \<and>
    (if flags \<noteq> DBM_REPLACE \<and> trie_map D P key \<noteq> None
     then r = 1 \<and> sdbm_rel db' (trie_map D P) else r = 0 \<and> sdbm_rel db' ((trie_map D P)(key \<mapsto> val)))"
proof -
  have need: "0 \<le> store_need key val \<and> store_need key val \<le> PAIRMAX"
    using assms(4-6) not_bad [OF assms(2)] by (auto simp: store_need_def Let_def split: if_splits)
  then have exact: "store_need key val = int (length key) + int (length val)"
    using store_need_exact [OF assms(2,3)] by simp
  show ?thesis
  proof (rule store_page [OF assms(1,2,4) need [THEN conjunct1] need [THEN conjunct2], of flags], goal_cases)
    case (1 db1)
    then have "sdbm_rel db1 (trie_map D P)" unfolding sdbm_rel_def by blast
    with 1 assms(5) show ?thesis by simp
  next
    case (2 db2 P')
    let ?x = "if \<not> fitpair (pagbuf db2) (store_need key val)
      then makroom db2 (sdbm_hash key) (store_need key val) else (True, db2)"
    have res: "(let (ok, db3) = ?x in if \<not> ok then (Some (ioerr db3), None, - 1)
        else map_prod Some id (write_back (db3\<lparr>pagbuf := putpair (pagbuf db3) key val\<rparr>))) = (Some db', e, r)"
      using 2(6) assms(5) by simp
    obtain db3 where x: "?x = (True, db3)" using ioerr_result [OF res assms(6)] by (cases ?x) simp
    with res have wb: "map_prod Some id (write_back (db3\<lparr>pagbuf := putpair (pagbuf db3) key val\<rparr>)) = (Some db', e, r)"
      by simp
    have "curbit db' = curbit (snd (pag_write_at p page d))"
      if "write_back d = (db', e, r)" "r \<noteq> - 1" "p = nat (pagbno d)" "page = pagbuf d" for d p page
      using that by (auto simp: write_back_def split: if_splits prod.splits)
    from this [OF _ assms(6) refl refl] wb have "curbit db' = curbit db3"
      by (cases "write_back (db3\<lparr>pagbuf := putpair (pagbuf db3) key val\<rparr>)") (auto simp: pag_write_curbit)
    with assms(7) have cur: "curbit db3 < 32768" by simp
    obtain D3 P3 where on: "on_page db3 D3 P3 (sdbm_hash key)" "fitpair (pagbuf db3) (store_need key val)"
      "trie_map D3 P3 = (trie_map D P)(key := None)" "db_flags db3 = db_flags db"
    proof (cases "fitpair (pagbuf db2) (store_need key val)")
      case True
      with x 2 show thesis by (intro that [of D P']) (auto simp: at_leaf_def)
    next
      case False
      with x have "makroom_loop SPLTMAX db2 (sdbm_hash key) (store_need key val) = (True, db3)" by (simp add: makroom_def)
      from makroom_ok [OF 2(2) this cur] 2(3,4) that show thesis by metis
    qed
    have "trie_map D3 P3 key = None" using on(3) by simp
    from put_ok [OF on(1) this on(2) [unfolded exact]] obtain d where
      d: "write_back (db3\<lparr>pagbuf := putpair (pagbuf db3) key val\<rparr>) = (d, None, 0)"
      "sdbm_rel d ((trie_map D3 P3)(key \<mapsto> val))" "db_flags d = db_flags db3" by metis
    with wb on(3,4) 2(1) show ?thesis by auto
  qed
qed

text \<open>A pair that the page of its key has room for is stored without a split.\<close>

lemma store_room:
  assumes "db_ok db D P" and "length key < 2 ^ 31" and "length val < 2 ^ 31" and "\<not> sdbm_rdonly db"
    and "int (length key) + int (length val) \<le> PAIRMAX" and "trie_map D P key = None" and "flags \<noteq> DBM_REPLACE"
    and "room (P (leaf D (sdbm_hash key))) (int (length key) + int (length val))"
  obtains db' where "sdbm_store (Some db) (Some key) val flags = (Some db', None, 0)"
    and "sdbm_rel db' ((trie_map D P)(key \<mapsto> val))" and "curbit db' = node (sdbm_hash key) (depth D (sdbm_hash key))"
    and "db_flags db' = db_flags db"
proof -
  have "length key + length val < 2 ^ 31" using assms(5) by (simp add: PAIRMAX_def)
  then have exact: "store_need key val = int (length key) + int (length val)"
    using sint_of_nat_small [of "length key + length val"] by (simp add: store_need_def)
  show thesis
  proof (rule store_page [OF assms(1,2,4), of val flags], goal_cases)
    case (4 db2 P')
    have "room (P' (leaf D (sdbm_hash key))) (int (length key) + int (length val))"
      using 4(5) assms(7,8) by simp
    moreover have on: "on_page db2 D P' (sdbm_hash key)" using 4(2) by (simp add: at_leaf_def)
    ultimately have fit: "fitpair (pagbuf db2) (int (length key) + int (length val))"
      using on_page_key(3) fitpair_room by blast
    have "trie_map D P' key = None" using 4(3) by simp
    from put_ok [OF on this fit] obtain d where d: "write_back (db2\<lparr>pagbuf := putpair (pagbuf db2) key val\<rparr>) = (d, None, 0)"
      "sdbm_rel d ((trie_map D P')(key \<mapsto> val))" "curbit d = curbit db2" "db_flags d = db_flags db2" by metis
    then show thesis
      using 4 fit exact by (intro that [of d]) (simp_all add: at_leaf_def)
  qed (use assms(5,6) exact in \<open>simp_all add: PAIRMAX_def\<close>)
qed

end
