(* ===== verification/Sdbm_Run.thy ===== *)
theory Sdbm_Run
  imports Sdbm_Refine
begin

text \<open>
  Runs of the sdbm interface: sequences of stores, fetches and deletes on a new database against
  the same sequence on a map, the iteration with \<open>sdbm_firstkey\<close> and \<open>sdbm_nextkey\<close>, and the
  behaviour after failures and at the limits of the directory.
\<close>

section \<open>Runs\<close>

datatype sdbm_call = Store "u8 list" "u8 list" int | Fetch "u8 list" | Remove "u8 list"

type_synonym sdbm_reply = "int \<times> datum"

fun sdbm_exec :: "sdbm_call \<Rightarrow> DBM \<Rightarrow> DBM \<times> sdbm_reply" where
  "sdbm_exec (Store key val flags) db =
     (case sdbm_store (Some db) (Some key) val flags of (db', _, r) \<Rightarrow> (the db', r, None))"
| "sdbm_exec (Fetch key) db = (case sdbm_fetch (Some db) (Some key) of (db', _, d) \<Rightarrow> (the db', 0, d))"
| "sdbm_exec (Remove key) db = (case sdbm_delete (Some db) (Some key) of (db', _, r) \<Rightarrow> (the db', r, None))"

fun call_key :: "sdbm_call \<Rightarrow> u8 list" where
  "call_key (Store key val flags) = key"
| "call_key (Fetch key) = key"
| "call_key (Remove key) = key"

text \<open>A call that did its work: its sizes are those of an \<open>int\<close>, a store did not report a failure,
  and the directory has not grown out of its first block.\<close>

fun accepted :: "sdbm_call \<Rightarrow> DBM \<Rightarrow> sdbm_reply \<Rightarrow> bool" where
  "accepted (Store key val flags) db reply \<longleftrightarrow>
     length key < 2 ^ 31 \<and> length val < 2 ^ 31 \<and> fst reply \<noteq> - 1 \<and> curbit db < 32768"
| "accepted (Fetch key) db reply \<longleftrightarrow> length key < 2 ^ 31"
| "accepted (Remove key) db reply \<longleftrightarrow> length key < 2 ^ 31"

inductive sdbm_run :: "DBM \<Rightarrow> sdbm_call list \<Rightarrow> sdbm_reply list \<Rightarrow> DBM \<Rightarrow> bool" where
  run_done: "sdbm_run db [] [] db"
| run_step: "sdbm_exec c db = (db1, reply) \<Longrightarrow> accepted c db1 reply \<Longrightarrow> sdbm_run db1 cs replies db'
     \<Longrightarrow> sdbm_run db (c # cs) (reply # replies) db'"

inductive_cases run_consE: "sdbm_run db (c # cs) replies db'"

text \<open>The same calls on a map.\<close>

fun dbmap_exec :: "sdbm_call \<Rightarrow> (u8 list \<rightharpoonup> u8 list) \<Rightarrow> (u8 list \<rightharpoonup> u8 list) \<times> sdbm_reply" where
  "dbmap_exec (Store key val flags) m =
     (if flags \<noteq> DBM_REPLACE \<and> m key \<noteq> None then (m, 1, None) else (m(key \<mapsto> val), 0, None))"
| "dbmap_exec (Fetch key) m = (m, 0, m key)"
| "dbmap_exec (Remove key) m = (m(key := None), if m key = None then - 1 else 0, None)"

fun dbmap_run :: "sdbm_call list \<Rightarrow> (u8 list \<rightharpoonup> u8 list) \<Rightarrow> (u8 list \<rightharpoonup> u8 list) \<times> sdbm_reply list" where
  "dbmap_run [] m = (m, [])"
| "dbmap_run (c # cs) m =
     (let (m, reply) = dbmap_exec c m; (m, replies) = dbmap_run cs m in (m, reply # replies))"

lemma exec_refines:
  assumes "sdbm_rel db m" and "\<not> sdbm_rdonly db" and "sdbm_exec c db = (db', reply)" and "accepted c db' reply"
  shows "reply = snd (dbmap_exec c m) \<and> sdbm_rel db' (fst (dbmap_exec c m)) \<and> \<not> sdbm_rdonly db'"
proof -
  obtain D P where ok: "db_ok db D P" and m: "m = trie_map D P" using assms(1) by (auto simp: sdbm_rel_def)
  show ?thesis
  proof (cases c)
    case (Store key val flags)
    obtain d e r where st: "sdbm_store (Some db) (Some key) val flags = (d, e, r)" by (rule prod_cases3)
    have "d \<noteq> None" using st by (auto simp: Let_def map_prod_def split: if_splits prod.splits)
    then obtain d' where d: "d = Some d'" by blast
    with assms(3,4) Store st have "length key < 2 ^ 31" "length val < 2 ^ 31" "r \<noteq> - 1" "curbit d' < 32768" "db' = d'" "reply = (r, None)"
      by auto
    with store_ok [OF ok this(1,2) assms(2) st [unfolded d] this(3,4)] Store m assms(2) show ?thesis
      by (auto simp: sdbm_rdonly_def)
  next
    case (Fetch key)
    with assms(4) have "\<not> bad (Some key)" by (simp add: not_bad)
    from fetch_ok [OF ok this] obtain d where f: "sdbm_fetch (Some db) (Some key) = (Some d, None, trie_map D P key)"
      "db_ok d D P" "db_flags d = db_flags db" by metis
    then have "sdbm_rel d m" using m by (auto simp: sdbm_rel_def)
    with f Fetch assms m show ?thesis by (auto simp: sdbm_rdonly_def)
  next
    case (Remove key)
    with assms(4) have "\<not> bad (Some key)" by (simp add: not_bad)
    from delete_ok [OF ok this assms(2)] obtain d where
      "sdbm_delete (Some db) (Some key) = (Some d, None, if trie_map D P key = None then - 1 else 0)"
      "sdbm_rel d ((trie_map D P)(key := None))" "db_flags d = db_flags db" by metis
    with Remove assms m show ?thesis by (auto simp: sdbm_rdonly_def)
  qed
qed

declare sdbm_store.simps [simp del] sdbm_fetch.simps [simp del] sdbm_delete.simps [simp del]

lemma run_refines:
  "sdbm_run db cs replies db' \<Longrightarrow> sdbm_rel db m \<Longrightarrow> \<not> sdbm_rdonly db \<Longrightarrow>
   replies = snd (dbmap_run cs m) \<and> sdbm_rel db' (fst (dbmap_run cs m)) \<and> \<not> sdbm_rdonly db'"
proof (induction arbitrary: m rule: sdbm_run.induct)
  case (run_step c db db1 reply cs replies db')
  note e = exec_refines [OF run_step.prems run_step.hyps(1,2)]
  from e run_step.IH [of "fst (dbmap_exec c m)"] show ?case by (simp add: case_prod_beta Let_def)
qed simp

section \<open>A new database\<close>

definition new_db :: "(u8 list \<Rightarrow> u32 \<Rightarrow> u32 \<Rightarrow> u8 list option) \<Rightarrow> bool" where
  "new_db open_file \<longleftrightarrow> (\<forall>name flags mode. open_file name flags mode = Some [])"

lemma prep_new:
  assumes "new_db open_file"
  obtains db where "sdbm_prep open_file True dirname pagname flags mode = Some db"
    and "db_ok db {} (\<lambda>p. [])" and "\<not> sdbm_rdonly db"
proof -
  define db where "db = \<lparr>dirf = \<lparr>fcontent = [], fpos = 0\<rparr>, pagf = \<lparr>fcontent = [], fpos = 0\<rparr>,
    db_flags = 0, maxbno = 0, curbit = 0, hmask = 0, blkptr = 0, keyptr = 0,
    pagbno = - 1, pagbuf = replicate PBLKSIZ 0, dirbno = 0, dirbuf = replicate DBLKSIZ 0, sys = []\<rparr>"
  have "sdbm_prep open_file True dirname pagname flags mode = Some db"
    using assms by (simp add: new_db_def sdbm_prep_def O_RDONLY_def Let_def db_def)
  moreover have "page_of [] p = replicate PBLKSIZ 0" for p by (simp add: page_of_def put_at_def)
  then have "pages_ok db (\<lambda>p. [])"
    using page_rep_zero by (simp add: pages_ok_def db_def)
  moreover have "dir_bits (padded []) = {}" by (auto simp: dir_bits_def padded_def)
  then have "dir_ok db {}" by (simp add: dir_ok_def db_def padded_def)
  ultimately show thesis
    by (intro that [of db]) (auto simp: db_ok_def trie_closed_def placed_def sdbm_rdonly_def db_def)
qed

lemma trie_map_empty [simp]: "trie_map D (\<lambda>p. []) = Map.empty"
  by (auto simp: trie_map_def)

lemma new_rel: "db_ok db D (\<lambda>p. []) \<Longrightarrow> sdbm_rel db Map.empty"
  unfolding sdbm_rel_def by (intro exI [of _ D] exI [of _ "\<lambda>p. []"]) simp

section \<open>Iteration\<close>

fun next_keys :: "nat \<Rightarrow> DBM option \<Rightarrow> DBM option \<times> datum list" where
  "next_keys 0 db = (db, [])"
| "next_keys (Suc n) db =
     (let (db, _, key) = sdbm_nextkey db; (db, keys) = next_keys n db in (db, key # keys))"

text \<open>The keys from position \<open>j\<close> of page \<open>i\<close> to the end of the file.\<close>

definition page_count :: "DBM \<Rightarrow> nat" where
  "page_count db = length (fcontent (pagf db)) div 1024"

definition keys_from :: "(nat \<Rightarrow> pair list) \<Rightarrow> nat \<Rightarrow> nat \<Rightarrow> nat \<Rightarrow> u8 list list" where
  "keys_from P n i j = map fst (drop j (P i)) @ concat (map (\<lambda>p. map fst (P p)) [Suc i..<n])"

definition iter_at :: "DBM \<Rightarrow> (nat \<Rightarrow> pair list) \<Rightarrow> nat \<Rightarrow> nat \<Rightarrow> nat \<Rightarrow> bool" where
  "iter_at db P n i j \<longleftrightarrow> sys db = [] \<and> length (fcontent (pagf db)) = n * 1024
     \<and> (\<forall>p. page_rep (page_of (fcontent (pagf db)) p) (P p)) \<and> page_rep (pagbuf db) (P i)
     \<and> pagbno db = int i \<and> blkptr db = i \<and> keyptr db = int j \<and> fpos (pagf db) = min n (Suc i) * 1024"

lemma file_bytes_page:
  assumes "length c = n * 1024"
  shows "file_bytes \<lparr>fcontent = c, fpos = p * 1024\<rparr> 1024 = (if p < n then page_of c p else [])"
proof (cases "p < n")
  case True
  then have "Suc p * 1024 \<le> n * 1024" by (intro mult_le_mono1) simp
  then have "length (take 1024 (drop (p * 1024) c)) = 1024" using assms by simp
  then show ?thesis using True by (simp add: file_bytes_def page_of_def put_at_def)
next
  case False
  then have "n * 1024 \<le> p * 1024" by (intro mult_le_mono1) simp
  then show ?thesis using assms False by (simp add: file_bytes_def)
qed

lemma next_block_ok:
  assumes "iter_at db P n i j"
  shows "next_block (db\<lparr>keyptr := k\<rparr>) =
    (if Suc i < n
     then (Some 1024, db\<lparr>keyptr := 0, blkptr := Suc i, pagbno := int (Suc i),
        pagf := seek_file (pagf db) (Suc (Suc i) * 1024), pagbuf := page_of (fcontent (pagf db)) (Suc i)\<rparr>)
     else (Some 0, db\<lparr>keyptr := 0, blkptr := Suc i, pagbno := int (Suc i)\<rparr>))"
proof -
  have i: "sys db = []" "pagbno db = int i" "blkptr db = i" "length (fcontent (pagf db)) = n * 1024"
    "fpos (pagf db) = min n (Suc i) * 1024" "length (pagbuf db) = 1024"
    using assms page_repD(1) [of "pagbuf db" "P i"] by (simp_all add: iter_at_def)
  have pagf: "pagf db = \<lparr>fcontent = fcontent (pagf db), fpos = min n (Suc i) * 1024\<rparr>" using i(5) by simp
  have got: "file_bytes (pagf db) 1024 = (if Suc i < n then page_of (fcontent (pagf db)) (Suc i) else [])"
    using file_bytes_page [OF i(4), of "min n (Suc i)"] pagf by (simp add: min_def)
  show ?thesis
    using i got by (auto simp: next_block_def pag_read_def syscall_ok seek_file_def put_at_def)
qed

lemma getnext_key:
  assumes "iter_at db P n i j" and "j < length (P i)"
  shows "getnext db = (db\<lparr>keyptr := int (Suc j)\<rparr>, Some (fst (P i ! j)))"
proof -
  have "getnkey (pagbuf db) (int (Suc j)) = Some (fst (P i ! j))"
    using assms getnkey_spec [of "pagbuf db" "P i" "Suc j"] by (simp add: iter_at_def)
  then show ?thesis using assms(1) by (subst getnext.simps) (simp add: iter_at_def add.commute)
qed

lemma getnext_ok:
  assumes "iter_at db P n i j"
  shows "case keys_from P n i j of
      [] \<Rightarrow> snd (getnext db) = None \<and> db_flags (fst (getnext db)) = db_flags db OR DBM_IOERR
    | k # ks \<Rightarrow> snd (getnext db) = Some k
        \<and> (\<exists>i' j'. iter_at (fst (getnext db)) P n i' j' \<and> keys_from P n i' j' = ks) \<and> db_flags (fst (getnext db)) = db_flags db"
  using assms
proof (induction "n - i" arbitrary: db i j rule: less_induct)
  case less
  show ?case
  proof (cases "j < length (P i)")
    case True
    then have "drop j (P i) = P i ! j # drop (Suc j) (P i)" by (rule Cons_nth_drop_Suc [symmetric])
    then have "keys_from P n i j = fst (P i ! j) # keys_from P n i (Suc j)" by (simp add: keys_from_def)
    moreover have "iter_at (db\<lparr>keyptr := int (Suc j)\<rparr>) P n i (Suc j)" using less.prems by (simp add: iter_at_def)
    ultimately show ?thesis using getnext_key [OF less.prems True] by (simp del: of_nat_Suc) blast
  next
    case False
    then have none: "getnkey (pagbuf db) (keyptr db + 1) = None"
      using less.prems getnkey_spec [of "pagbuf db" "P i" "Suc j"] by (simp add: iter_at_def add.commute)
    note nb = next_block_ok [OF less.prems, of "keyptr db + 1"]
    show ?thesis
    proof (cases "Suc i < n")
      case True
      define db2 where "db2 = db\<lparr>keyptr := 0, blkptr := Suc i, pagbno := int (Suc i),
        pagf := seek_file (pagf db) (Suc (Suc i) * 1024), pagbuf := page_of (fcontent (pagf db)) (Suc i)\<rparr>"
      have rep: "page_rep (page_of (fcontent (pagf db)) (Suc i)) (P (Suc i))" using less.prems by (simp add: iter_at_def)
      have it: "iter_at db2 P n (Suc i) 0"
        using less.prems True rep by (simp add: iter_at_def db2_def seek_file_def min_def)
      have e1: "getnext db = getnext db2"
        using none nb True chkpage_rep [OF rep] by (subst getnext.simps) (simp add: db2_def [symmetric], simp add: db2_def)
      have e2: "keys_from P n i j = keys_from P n (Suc i) 0"
        using False True by (simp add: keys_from_def upt_conv_Cons)
      have e3: "db_flags db = db_flags db2" by (simp add: db2_def)
      have "n - Suc i < n - i" using True by simp
      from less.hyps [OF this it] show ?thesis unfolding e1 e2 e3 .
    next
      case last: False
      have "getnext db = (ioerr (db\<lparr>keyptr := 0, blkptr := Suc i, pagbno := int (Suc i)\<rparr>), None)"
        using none nb last by (subst getnext.simps) simp
      moreover have "keys_from P n i j = []" using False last by (simp add: keys_from_def)
      ultimately show ?thesis by (simp add: ioerr_def)
    qed
  qed
qed

lemma next_keys_ok:
  assumes "iter_at db P n i j"
  shows "snd (next_keys (Suc (length (keys_from P n i j))) (Some db)) = map Some (keys_from P n i j) @ [None]
    \<and> (\<exists>db'. fst (next_keys (Suc (length (keys_from P n i j))) (Some db)) = Some db'
        \<and> db_flags db' = db_flags db OR DBM_IOERR)"
  using assms
proof (induction "keys_from P n i j" arbitrary: db i j)
  case Nil
  obtain db1 d where g: "getnext db = (db1, d)" by (rule prod.exhaust)
  with getnext_ok [OF Nil.prems] Nil.hyps [symmetric] show ?case by simp
next
  case (Cons k ks)
  obtain db1 d where g: "getnext db = (db1, d)" by (rule prod.exhaust)
  with getnext_ok [OF Cons.prems] Cons.hyps(2) [symmetric] obtain i' j' where
    *: "d = Some k" "iter_at db1 P n i' j'" "keys_from P n i' j' = ks" "db_flags db1 = db_flags db" by auto
  from Cons.hyps(1) [OF *(3) [symmetric] *(2)] * g Cons.hyps(2) [symmetric] show ?case
    by (auto simp: case_prod_beta simp del: next_keys.simps(2)) (simp_all add: case_prod_beta)
qed

lemma page_beyond:
  assumes "\<forall>p. page_rep (page_of c p) (P p)" and "length c \<le> p * 1024"
  shows "P p = []"
proof -
  have "page_of c p = replicate PBLKSIZ 0" using assms(2) by (simp add: page_of_def)
  then have "page_rep (replicate PBLKSIZ 0) (P p)" using assms(1) by metis
  then show ?thesis using page_repD(2) by fastforce
qed

lemma distinct_pages:
  assumes "\<And>p. distinct (f p)" and "\<And>p q. p \<noteq> q \<Longrightarrow> set (f p) \<inter> set (f q) = {}"
  shows "distinct (concat (map f [a..<b]))"
proof (induction b)
  case (Suc b)
  have "x \<notin> set (f b)" if "x \<in> set (f p)" "p < b" for x p
    using assms(2) [of p b] that by auto
  with Suc assms(1) show ?case by (cases "a \<le> b") auto
qed simp

lemma keys_of_pages:
  assumes "placed D P" and "\<And>p. n \<le> p \<Longrightarrow> P p = []"
  shows "distinct (keys_from P n 0 0) \<and> set (keys_from P n 0 0) = dom (trie_map D P)"
proof -
  let ?f = "\<lambda>p. map fst (P p)"
  have keys: "keys_from P n 0 0 = concat (map ?f [0..<max 1 n])"
    by (cases n) (simp_all add: keys_from_def upt_conv_Cons del: upt_Suc)
  have leaf: "leaf D (sdbm_hash k) = p" if "k \<in> set (?f p)" for k p
    using assms(1) that unfolding placed_def by fastforce
  have "distinct (concat (map ?f [0..<max 1 n]))"
  proof (rule distinct_pages)
    show "distinct (?f p)" for p using assms(1) by (simp add: placed_def)
    show "set (?f p) \<inter> set (?f q) = {}" if "p \<noteq> q" for p q using leaf that by (metis disjoint_iff)
  qed
  moreover have "set (concat (map ?f [0..<max 1 n])) = dom (trie_map D P)"
  proof (intro set_eqI iffI)
    fix k assume "k \<in> set (concat (map ?f [0..<max 1 n]))"
    then obtain p where "k \<in> set (?f p)" by auto
    with leaf [OF this] show "k \<in> dom (trie_map D P)"
      by (auto simp: trie_map_def dom_map_of_conv_image_fst [symmetric] domIff)
  next
    fix k assume "k \<in> dom (trie_map D P)"
    then have k: "k \<in> fst ` set (P (leaf D (sdbm_hash k)))"
      by (auto simp: trie_map_def dom_map_of_conv_image_fst [symmetric] domIff)
    then have "P (leaf D (sdbm_hash k)) \<noteq> []" by auto
    then have "leaf D (sdbm_hash k) < n" using assms(2) not_less by blast
    with k show "k \<in> set (concat (map ?f [0..<max 1 n]))" by auto
  qed
  ultimately show ?thesis by (simp add: keys)
qed

lemma firstkey_ok:
  assumes "db_ok db D P"
  obtains db1 n where "sdbm_firstkey (Some db) = (let (db, key) = getnext db1 in (Some db, None, key))"
    and "iter_at db1 P n 0 0" and "distinct (keys_from P n 0 0)" and "set (keys_from P n 0 0) = dom (trie_map D P)"
    and "db_flags db1 = db_flags db"
proof -
  have ok: "sys db = []" "placed D P" "pages_ok db P" using assms by (simp_all add: db_ok_def)
  define n where "n = page_count db"
  have len: "length (fcontent (pagf db)) = n * 1024"
    using ok(3) unfolding n_def page_count_def pages_ok_def by (metis div_mult_mod_eq add.right_neutral)
  have rep: "\<forall>p. page_rep (page_of (fcontent (pagf db)) p) (P p)" using ok(3) by (simp add: pages_ok_def)
  have got: "file_bytes (seek_file (pagf db) (0 * PBLKSIZ)) PBLKSIZ = (if 0 < n then page_of (fcontent (pagf db)) 0 else [])"
    using file_bytes_page [OF len, of 0] by (simp add: seek_file_def file_bytes_def)
  define db1 where "db1 = db\<lparr>pagbuf := page_of (fcontent (pagf db)) 0,
      pagf := seek_file (pagf db) (0 * PBLKSIZ + length (file_bytes (seek_file (pagf db) (0 * PBLKSIZ)) PBLKSIZ)),
      pagbno := 0, blkptr := 0, keyptr := 0\<rparr>"
  have "sdbm_firstkey (Some db) = (let (db, key) = getnext db1 in (Some db, None, key))"
    unfolding sdbm_firstkey.simps pag_read_ok [OF ok(1)] db1_def by simp
  moreover have "iter_at db1 P n 0 0"
    using ok(1) len rep by (auto simp: iter_at_def db1_def got [simplified] min_def) (simp_all add: seek_file_def)
  moreover have "P p = []" if "n \<le> p" for p
    using page_beyond [OF rep, of p] len that by simp
  from keys_of_pages [OF ok(2) this]
  have "distinct (keys_from P n 0 0)" "set (keys_from P n 0 0) = dom (trie_map D P)" by blast+
  moreover have "db_flags db1 = db_flags db" by (simp add: db1_def)
  ultimately show thesis by (rule that)
qed

lemma iteration_ok:
  assumes "db_ok db D P"
  obtains ks db1 e k db' where "distinct ks" and "set ks = dom (trie_map D P)" and "sdbm_firstkey (Some db) = (db1, e, k)"
    and "k # snd (next_keys (length ks) db1) = map Some ks @ [None]"
    and "fst (next_keys (length ks) db1) = Some db'" and "db_flags db' = db_flags db OR DBM_IOERR"
proof -
  obtain d n where f: "sdbm_firstkey (Some db) = (let (db, key) = getnext d in (Some db, None, key))"
    "iter_at d P n 0 0" "distinct (keys_from P n 0 0)" "set (keys_from P n 0 0) = dom (trie_map D P)"
    "db_flags d = db_flags db"
    by (rule firstkey_ok [OF assms])
  obtain d1 k where g: "getnext d = (d1, k)" by (rule prod.exhaust)
  note n = getnext_ok [OF f(2)]
  have first: "sdbm_firstkey (Some db) = (Some d1, None, k)" using f(1) g by simp
  show thesis
  proof (cases "keys_from P n 0 0")
    case Nil
    with n g f first show thesis by (intro that [of "[]" "Some d1" None k d1]) auto
  next
    case (Cons x xs)
    with n g obtain i j where *: "k = Some x" "iter_at d1 P n i j" "keys_from P n i j = xs" "db_flags d1 = db_flags d"
      by auto
    with next_keys_ok [OF *(2)] obtain db' where
      "snd (next_keys (Suc (length xs)) (Some d1)) = map Some xs @ [None]"
      "fst (next_keys (Suc (length xs)) (Some d1)) = Some db'" "db_flags db' = db_flags d1 OR DBM_IOERR" by auto
    with Cons f first * show thesis
      by (intro that [of "x # xs" "Some d1" None k db']) (simp_all del: next_keys.simps)
  qed
qed

section \<open>Failures\<close>

lemma trie_walk_cached:
  assumes "dir_ok db D" and "dirbno db = 0" and "trie_closed D" and "j \<le> depth D h"
  shows "trie_walk db h (node h j) j = (db, node h (depth D h), depth D h)"
  using assms(4)
proof (induction "depth D h - j" arbitrary: j)
  case (Suc d)
  then have "node h j \<in> D" by (intro depth_below) simp
  have "getdbit db (node h j) = (True, db) \<and> node h j < maxbno db"
    using getdbit_cached [OF assms(1,2) closed_bound [OF assms(3)]] \<open>node h j \<in> D\<close> dir_ok_max [OF assms(1) \<open>node h j \<in> D\<close>]
    by simp
  moreover have "trie_walk db h (node h (Suc j)) (Suc j) = (db, node h (depth D h), depth D h)"
    using Suc.hyps by (intro Suc.hyps(1)) simp_all
  ultimately show ?case by (subst trie_walk.simps) simp
next
  case 0
  then have j: "j = depth D h" by simp
  then have "node h j \<notin> D" using depth_not [OF assms(3)] by simp
  then show ?case
    using j getdbit_cached [OF assms(1,2), of "node h j"] assms(1)
    by (subst trie_walk.simps) (auto simp: dir_ok_def)
qed

lemma getpage_cached:
  fixes h :: u64
  assumes "dir_ok db D" and "dirbno db = 0" and "trie_closed D"
  defines "db2 \<equiv> db\<lparr>curbit := node h (depth D h), hmask := mask (depth D h)\<rparr>"
  shows "getpage db h = (if int (leaf D h) \<noteq> pagbno db then
         case pag_read_at (leaf D h) (db2\<lparr>pagbuf := replicate PBLKSIZ 0\<rparr>) of
           (None, db) \<Rightarrow> (False, db)
         | (Some _, db) \<Rightarrow> if chkpage (pagbuf db) then (True, db\<lparr>pagbno := int (leaf D h)\<rparr>) else (False, db)
       else (True, db2))"
proof -
  have w: "trie_walk db h 0 0 = (db, node h (depth D h), depth D h)"
    using trie_walk_cached [OF assms(1-3), of 0 h] by simp
  have "depth D h < 32" using depth_bound [OF assms(3), of h] by simp
  then have m: "masks ! depth D h = mask (depth D h)" by (rule nth_masks)
  have pagb: "unat (h AND hmask db2) = leaf D h" by (simp add: leaf_def unat_and_mask db2_def)
  have "pagbno db2 = pagbno db" by (simp add: db2_def)
  then show ?thesis
    unfolding getpage_def w Let_def prod.case m db2_def [symmetric] pagb by simp
qed

text \<open>The page buffer after a read that failed.\<close>

lemma getpage_fails:
  assumes "dir_ok db D" and "dirbno db = 0" and "trie_closed D" and "sys db = [False]"
    and "int (leaf D h) \<noteq> pagbno db"
  obtains db' where "getpage db h = (False, db')" and "dir_ok db' D" and "dirbno db' = 0"
    and "pagbno db' = pagbno db" and "pagbuf db' = replicate PBLKSIZ 0"
proof -
  let ?db' = "db\<lparr>curbit := node h (depth D h), hmask := mask (depth D h), pagbuf := replicate PBLKSIZ 0, sys := []\<rparr>"
  have "getpage db h = (False, ?db')"
    using assms by (simp add: getpage_cached [OF assms(1-3)] pag_read_at_def pag_lseek_def syscall_def)
  then show thesis using assms(1,2) by (intro that [of ?db']) simp_all
qed

section \<open>Properties\<close>

text \<open>C28. The database refines a finite map. Any run of stores (with or without \<open>DBM_REPLACE\<close>), fetches
  and deletes on a newly created database, through all the page splits and directory updates it
  causes, gives the replies that the same calls on a map give and leaves a handle whose files and
  buffers represent that map, as long as all system calls on its two files succeed (the handle
  that \<open>sdbm_prep\<close> yields has no failures ahead in its field \<open>sys\<close>), no store reports a failure and
  the directory stays in its first block.\<close>

theorem sdbm_run_refines_map:
  assumes "new_db open_file" and "sdbm_prep open_file True dirname pagname flags mode = Some db"
    and "sdbm_run db cs replies db'"
  shows "replies = snd (dbmap_run cs Map.empty) \<and> sdbm_rel db' (fst (dbmap_run cs Map.empty))"
proof -
  obtain d where "sdbm_prep open_file True dirname pagname flags mode = Some d" "db_ok d {} (\<lambda>p. [])" "\<not> sdbm_rdonly d"
    by (rule prep_new [OF assms(1)])
  with assms(2) new_rel have "sdbm_rel db Map.empty" "\<not> sdbm_rdonly db" by auto
  with run_refines [OF assms(3)] show ?thesis by blast
qed

lemma new_db_run:
  obtains db db' where "sdbm_prep (\<lambda>_ _ _. Some []) True [] [] 2 0 = Some db"
    and "sdbm_run db [Store [97] [98] 0, Fetch [97]] [(0, None), (0, Some [98])] db'"
    and "db_ok db {} (\<lambda>p. [])"
proof -
  obtain db where db: "sdbm_prep (\<lambda>_ _ _. Some []) True [] [] 2 0 = Some db" "db_ok db {} (\<lambda>p. [])" "\<not> sdbm_rdonly db"
    by (rule prep_new [of "\<lambda>_ _ _. Some []"]) (auto simp: new_db_def)
  have "depth {} h = 0" for h by (rule depthI) auto
  then obtain d where st: "sdbm_store (Some db) (Some [97]) [98] 0 = (Some d, None, 0)" "sdbm_rel d [[97] \<mapsto> [98]]"
    "curbit d = 0"
    by (rule_tac store_room [OF db(2), of "[97]" "[98]" 0])
       (use db(3) in \<open>simp_all add: PAIRMAX_def DBM_REPLACE_def room_def\<close>)
  then obtain D P where "db_ok d D P" "trie_map D P = [[97] \<mapsto> [98]]" by (auto simp: sdbm_rel_def)
  from fetch_ok [OF this(1), of "[97]"] this(2) obtain d2 where
    "sdbm_fetch (Some d) (Some [97]) = (Some d2, None, Some [98])" by (auto simp: not_bad)
  with st have "sdbm_run db [Store [97] [98] 0, Fetch [97]] [(0, None), (0, Some [98])] d2"
    by (intro run_step [of _ _ d] run_step [of _ _ d2] run_done) simp_all
  with db show thesis by (intro that)
qed

theorem sdbm_run_refines_map_witness:
  "\<exists>db db'. sdbm_prep (\<lambda>_ _ _. Some []) True [] [] 2 0 = Some db
    \<and> sdbm_run db [Store [97] [98] 0, Fetch [97]] [(0, None), (0, Some [98])] db' \<and> sdbm_rel db' [[97] \<mapsto> [98]]"
proof -
  obtain db db' where r: "sdbm_prep (\<lambda>_ _ _. Some []) True [] [] 2 0 = Some db"
    "sdbm_run db [Store [97] [98] 0, Fetch [97]] [(0, None), (0, Some [98])] db'"
    by (rule new_db_run)
  from sdbm_run_refines_map [OF _ this] r show ?thesis by (auto simp: new_db_def)
qed

text \<open>C29. A store with room does its work. When the system calls succeed, the key is not in the database
  and its page has room for the pair, \<open>sdbm_store\<close> returns 0 without a split and the database is
  the old one with the pair added.\<close>

theorem sdbm_store_with_room:
  assumes "db_ok db D P" and "\<not> sdbm_rdonly db" and "trie_map D P key = None" and "flags \<noteq> DBM_REPLACE"
    and "int (length key) + int (length val) \<le> PAIRMAX"
    and "room (P (leaf D (sdbm_hash key))) (int (length key) + int (length val))"
  shows "\<exists>db'. sdbm_store (Some db) (Some key) val flags = (Some db', None, 0)
    \<and> sdbm_rel db' ((trie_map D P)(key \<mapsto> val))"
proof -
  have "length key < 2 ^ 31" "length val < 2 ^ 31" using assms(5) by (simp_all add: PAIRMAX_def)
  from store_room [OF assms(1) this assms(2,5,3,4,6)] show ?thesis by metis
qed

theorem sdbm_store_with_room_witness:
  "\<exists>db db'. sdbm_store (Some db) (Some [1, 2]) [] 0 = (Some db', None, 0) \<and> sdbm_rel db' [[1, 2] \<mapsto> []]"
proof -
  obtain db where db: "sdbm_prep (\<lambda>_ _ _. Some []) True [] [] 2 0 = Some db" "db_ok db {} (\<lambda>p. [])" "\<not> sdbm_rdonly db"
    by (rule prep_new [of "\<lambda>_ _ _. Some []"]) (auto simp: new_db_def)
  from sdbm_store_with_room [OF db(2,3), of "[1, 2]" 0 "[]"] show ?thesis
    by - (rule exI [of _ db], simp add: PAIRMAX_def DBM_REPLACE_def room_def)
qed

text \<open>C30. Iterating with \<open>sdbm_firstkey\<close> and \<open>sdbm_nextkey\<close> over a database that represents a map gives each
  key of the map exactly once and then the null datum, as long as all system calls on its files
  succeed, which is part of the representation \<open>sdbm_rel\<close>.\<close>

theorem sdbm_iteration_lists_keys:
  assumes "sdbm_rel db m"
  shows "\<exists>ks. distinct ks \<and> set ks = dom m \<and>
    (case sdbm_firstkey (Some db) of (db1, _, k) \<Rightarrow> k # snd (next_keys (length ks) db1) = map Some ks @ [None])"
proof -
  obtain D P where ok: "db_ok db D P" "m = trie_map D P" using assms by (auto simp: sdbm_rel_def)
  obtain ks db1 e k where "distinct ks" "set ks = dom (trie_map D P)" "sdbm_firstkey (Some db) = (db1, e, k)"
    "k # snd (next_keys (length ks) db1) = map Some ks @ [None]" by (rule iteration_ok [OF ok(1)])
  then show ?thesis using ok(2) by (intro exI [of _ ks]) auto
qed

theorem sdbm_iteration_lists_keys_witness:
  "\<exists>db db1 e. sdbm_rel db [[97] \<mapsto> [98]] \<and> sdbm_firstkey (Some db) = (db1, e, Some [97])
    \<and> snd (next_keys 1 db1) = [None]"
proof -
  obtain d db where r: "sdbm_prep (\<lambda>_ _ _. Some []) True [] [] 2 0 = Some d"
    "sdbm_run d [Store [97] [98] 0, Fetch [97]] [(0, None), (0, Some [98])] db" "db_ok d {} (\<lambda>p. [])"
    by (rule new_db_run)
  have "sdbm_rel d Map.empty" using r(3) by (rule new_rel)
  moreover have "\<not> sdbm_rdonly d"
    using r(1) prep_new [of "\<lambda>_ _ _. Some []" "[]" "[]" 2 0] by (auto simp: new_db_def)
  ultimately have rel: "sdbm_rel db [[97] \<mapsto> [98]]" using run_refines [OF r(2), of Map.empty] by (simp add: DBM_REPLACE_def)
  obtain db1 e k where f: "sdbm_firstkey (Some db) = (db1, e, k)" by (rule prod_cases3)
  from sdbm_iteration_lists_keys [OF rel] f obtain ks where
    ks: "distinct ks" "set ks = {[97]}" "k # snd (next_keys (length ks) db1) = map Some ks @ [None]" by auto
  then have "length ks = 1" using distinct_card [OF ks(1)] by simp
  then have "ks = [[97]]" using ks(2) by (cases ks) auto
  with rel f ks(3) show ?thesis by auto
qed

text \<open>Every complete iteration leaves the error flag set: no system call fails, yet the call that
  returns the null datum at the end of the page file sets \<open>DBM_IOERR\<close>, because the end of the file
  and a failed read take the same way out of \<open>getnext\<close>.\<close>

theorem sdbm_iteration_ends_in_error:
  assumes "sdbm_rel db m"
  shows "\<exists>db'. fst (next_keys (card (dom m)) (fst (sdbm_firstkey (Some db)))) = Some db'
    \<and> db_flags db' = db_flags db OR DBM_IOERR"
proof -
  obtain D P where ok: "db_ok db D P" "m = trie_map D P" using assms by (auto simp: sdbm_rel_def)
  obtain ks db1 e k db' where it: "distinct ks" "set ks = dom (trie_map D P)" "sdbm_firstkey (Some db) = (db1, e, k)"
    "fst (next_keys (length ks) db1) = Some db'" "db_flags db' = db_flags db OR DBM_IOERR"
    by (rule iteration_ok [OF ok(1)])
  then have "length ks = card (dom m)" using ok(2) distinct_card [OF it(1)] by simp
  then show ?thesis using it by auto
qed

theorem sdbm_iteration_ends_in_error_witness:
  "\<exists>db db'. sdbm_prep (\<lambda>_ _ _. Some []) True [] [] 2 0 = Some db
    \<and> fst (sdbm_firstkey (Some db)) = Some db' \<and> db_flags db' = db_flags db OR DBM_IOERR"
proof -
  obtain db where db: "sdbm_prep (\<lambda>_ _ _. Some []) True [] [] 2 0 = Some db" "db_ok db {} (\<lambda>p. [])" "\<not> sdbm_rdonly db"
    by (rule prep_new [of "\<lambda>_ _ _. Some []"]) (auto simp: new_db_def)
  from sdbm_iteration_ends_in_error [OF new_rel [OF db(2)]] db(1) show ?thesis by simp
qed

text \<open>A failed read makes another page unreachable. If the page of \<open>key\<close> is in the buffer and the read
  of another page fails, \<open>getpage\<close> has cleared the buffer but still takes it for the page of
  \<open>key\<close>: the next fetch of \<open>key\<close>, with no failure at all, finds nothing although the database
  holds it.\<close>

theorem sdbm_failed_read_hides_page:
  assumes "db_ok db D P" and "dirbno db = 0" and "pagbno db = int (leaf D (sdbm_hash key))"
    and "leaf D (sdbm_hash other) \<noteq> leaf D (sdbm_hash key)" and "\<not> bad (Some key)" and "\<not> bad (Some other)"
  shows "snd (snd (sdbm_fetch (Some db) (Some key))) = trie_map D P key
    \<and> snd (snd (sdbm_fetch (fst (sdbm_fetch (Some (db\<lparr>sys := [False]\<rparr>)) (Some other))) (Some key))) = None"
proof -
  have ok: "dir_ok (db\<lparr>sys := [False]\<rparr>) D" "trie_closed D" using assms(1) by (simp_all add: db_ok_def)
  obtain d where d: "getpage (db\<lparr>sys := [False]\<rparr>) (sdbm_hash other) = (False, d)" "dir_ok d D" "dirbno d = 0"
    "pagbno d = pagbno db" "pagbuf d = replicate PBLKSIZ 0"
    by (rule getpage_fails [OF ok(1) _ ok(2), of "sdbm_hash other"]) (use assms in simp_all)
  have fail: "fst (sdbm_fetch (Some (db\<lparr>sys := [False]\<rparr>)) (Some other)) = Some (ioerr d)"
    using d(1) assms(6) by (simp add: sdbm_fetch.simps)
  have "getpage (ioerr d) (sdbm_hash key)
      = (True, (ioerr d)\<lparr>curbit := node (sdbm_hash key) (depth D (sdbm_hash key)), hmask := mask (depth D (sdbm_hash key))\<rparr>)"
    using d assms(3) getpage_cached [of "ioerr d" D "sdbm_hash key"] ok(2) by (simp add: ioerr_def)
  then have "snd (snd (sdbm_fetch (Some (ioerr d)) (Some key))) = getpair (replicate PBLKSIZ 0) key"
    using d(5) assms(5) by (simp add: sdbm_fetch.simps ioerr_def)
  also have "\<dots> = None" using pagebucket.get_rep [OF page_rep_zero] by simp
  finally have "snd (snd (sdbm_fetch (Some (ioerr d)) (Some key))) = None" .
  moreover obtain d2 where "sdbm_fetch (Some db) (Some key) = (Some d2, None, trie_map D P key)"
    by (rule fetch_ok [OF assms(1,5)])
  ultimately show ?thesis using fail by simp
qed

text \<open>A database with two pages: one split, one pair.\<close>

lemma two_page_db:
  obtains db where "db_ok db {0} (\<lambda>p. if p = 0 then [([98], [1])] else [])" and "dirbno db = 0" and "pagbno db = 0"
    and "leaf {0} (sdbm_hash [98]) = 0" and "leaf {0} (sdbm_hash [97]) = 1"
proof -
  let ?P = "\<lambda>p. if p = 0 then [([98 :: u8], [1 :: u8])] else []"
  define dir :: "u8 list" where "dir = 1 # replicate 4095 0"
  define pag where "pag = putpair (replicate PBLKSIZ 0) [98] [1]"
  define db where "db = \<lparr>dirf = \<lparr>fcontent = dir, fpos = 0\<rparr>, pagf = \<lparr>fcontent = pag, fpos = 0\<rparr>,
    db_flags = 0, maxbno = 32768, curbit = 0, hmask = 0, blkptr = 0, keyptr = 0,
    pagbno = 0, pagbuf = pag, dirbno = 0, dirbuf = dir, sys = []\<rparr>"
  have depth: "depth {0} h = 1" for h by (rule depthI) auto
  have hash: "sdbm_hash [98] = 98" "sdbm_hash [97] = 97" by code_simp+
  have leafs: "leaf {0} (sdbm_hash [98]) = 0" "leaf {0} (sdbm_hash [97]) = 1" by (simp_all add: leaf_def depth hash)
  have pag: "page_rep pag [([98], [1])]"
    using putpair_rep [OF page_rep_zero, of "[98]" "[1]"] by (simp add: pag_def room_def)
  then have len: "length pag = 1024" by (rule page_repD)
  have "page_of pag p = (if p = 0 then pag else replicate PBLKSIZ 0)" for p
    using len by (simp add: page_of_def put_at_def)
  then have "pages_ok db ?P" using pag page_rep_zero len by (simp add: pages_ok_def db_def)
  moreover have "dir_bits (padded dir) = {0}"
    by (auto simp: dir_bits_def padded_def dir_def nth_Cons' bit_1_iff div_eq_0_iff split: if_splits)
  then have "dir_ok db {0}" by (simp add: dir_ok_def db_def padded_def dir_def)
  moreover have "trie_closed {0}" by (auto simp: trie_closed_def)
  moreover have "placed {0} ?P" using leafs by (simp add: placed_def)
  ultimately show thesis
    by (intro that [of db] leafs) (simp_all add: db_ok_def db_def)
qed

theorem sdbm_failed_read_hides_page_witness:
  "\<exists>db. snd (snd (sdbm_fetch (Some db) (Some [98]))) = Some [1]
    \<and> snd (snd (sdbm_fetch (fst (sdbm_fetch (Some (db\<lparr>sys := [False]\<rparr>)) (Some [97]))) (Some [98]))) = None"
proof -
  obtain db where db: "db_ok db {0} (\<lambda>p. if p = 0 then [([98], [1])] else [])" "dirbno db = 0" "pagbno db = 0"
    and leafs: "leaf {0} (sdbm_hash [98]) = 0" "leaf {0} (sdbm_hash [97]) = 1"
    by (rule two_page_db)
  show ?thesis
    using sdbm_failed_read_hides_page [OF db(1,2), of "[98]" "[97]"] db(3) leafs
    by (intro exI [of _ db]) (simp add: trie_map_def not_bad)
qed

text \<open>A directory that grows into its second block copies its first one. When a bit of the second
  block is set for the first time while the first block is in the buffer, the read past the end
  of the file gives no bytes and leaves the buffer alone, so that the new block starts as a copy of
  the old one with splits that never happened.\<close>

theorem setdbit_copies_first_block:
  assumes "sys db = []" and "dirbno db = 0" and "length (fcontent (dirf db)) = 4096" and "dirbuf db = fcontent (dirf db)"
    and "32768 \<le> n" and "n < 65536"
  shows "fst (setdbit db n) \<and> (\<forall>i<4096. i \<noteq> (n - 32768) div 8 \<longrightarrow>
    fcontent (dirf (snd (setdbit db n))) ! (4096 + i) = fcontent (dirf db) ! i)"
proof -
  let ?c = "fcontent (dirf db)" and ?i = "(n - 32768) div 8"
  obtain m where m: "n = 32768 + m" "m < 32768" using assms(5,6) by (intro that [of "n - 32768"]) simp_all
  then have n8: "n div 8 = 4096 + m div 8" "m div 8 < 4096" by simp_all
  then have n: "n div 8 div 4096 = 1" "n div 8 mod 4096 = ?i" using m by simp_all
  define db1 where "db1 = db\<lparr>dirf := seek_file (dirf db) 4096, dirbno := 1\<rparr>"
  have f: "dir_fetch db 1 = (True, db1)"
    using assms(1-4)
    by (simp add: dir_fetch_def dir_read_at_def dir_lseek_def syscall_ok file_bytes_def seek_file_def Let_def db1_def)
  define buf where "buf = ?c[?i := ?c ! ?i OR push_bit (n mod 8) 1]"
  have len: "length buf = 4096" using assms(3) by (simp add: buf_def)
  have "fst (setdbit db n) \<and> fcontent (dirf (snd (setdbit db n))) = ?c @ buf"
    unfolding setdbit_def Let_def n f using assms len
    by (simp add: dir_write_at_def dir_lseek_def syscall_ok write_bytes_def seek_file_def put_at_def db1_def buf_def)
  then show ?thesis using assms(3) by (simp add: nth_append buf_def)
qed

theorem setdbit_copies_first_block_witness:
  "\<exists>db. fst (setdbit db 40000) \<and> fcontent (dirf db) ! 0 = 1 \<and> fcontent (dirf (snd (setdbit db 40000))) ! 4096 = 1"
proof -
  let ?c = "1 # replicate 4095 0 :: u8 list"
  obtain db where db: "sdbm_prep (\<lambda>_ _ _. Some []) True [] [] 2 0 = Some db" "db_ok db {} (\<lambda>p. [])" "\<not> sdbm_rdonly db"
    by (rule prep_new [of "\<lambda>_ _ _. Some []"]) (auto simp: new_db_def)
  define d where "d = db\<lparr>dirf := \<lparr>fcontent = ?c, fpos = 0\<rparr>, dirbuf := ?c, dirbno := 0\<rparr>"
  have "sys d = []" "dirbno d = 0" "length (fcontent (dirf d)) = 4096" "dirbuf d = fcontent (dirf d)"
    "fcontent (dirf d) ! 0 = 1"
    using db(2) by (simp_all add: d_def db_ok_def)
  with setdbit_copies_first_block [of d 40000] show ?thesis
    by - (rule exI [of _ d], force)
qed

text \<open>A database is never read-only for the library: \<open>O_RDONLY\<close> is 0, so the test for it never sets
  \<open>DBM_RDONLY\<close>, and stores and deletes are not refused with \<open>EPERM\<close>.\<close>

theorem sdbm_prep_never_read_only:
  "sdbm_prep open_file fstat_ok dirname pagname flags mode = Some db \<Longrightarrow> \<not> sdbm_rdonly db"
  by (auto simp: sdbm_prep_def O_RDONLY_def sdbm_rdonly_def Let_def split: option.splits if_splits)

theorem sdbm_prep_never_read_only_witness:
  "\<exists>db. sdbm_prep (\<lambda>_ _ _. Some []) True [] [] O_RDONLY 0 = Some db \<and> \<not> sdbm_rdonly db"
proof -
  obtain db where db: "sdbm_prep (\<lambda>_ _ _. Some []) True [] [] O_RDONLY 0 = Some db"
    by (simp add: sdbm_prep_def Let_def)
  from sdbm_prep_never_read_only [OF db] db show ?thesis by blast
qed

end
