(* ===== verification/Syck_Base64.thy ===== *)
theory Syck_Base64
  imports Prelude
begin

text \<open>
  The base64 routines of the YAML library Syck (\<open>lib/ext/syck/emitter.c\<close>). A \<open>char\<close> is signed and
  promoted to a 32-bit \<open>int\<close> before it is shifted. Text that the decoder reads is followed by a NUL
  byte, as every string in the library is. The decoder indexes its table with a signed character;
  what lies in memory before the table, where a byte from 128 on leads, is the parameter \<open>below\<close>.
\<close>

section \<open>Characters\<close>

text \<open>\<open>s[i]\<close> of a NUL-terminated string.\<close>

definition char_at :: "u8 list \<Rightarrow> nat \<Rightarrow> u8" where
  "char_at s i = (if i < length s then s ! i else 0)"

definition char_int :: "u8 \<Rightarrow> u32" where
  "char_int c = scast c"

section \<open>Encoding\<close>

definition b64_table :: "u8 list" where
  "b64_table = map of_nat ([65..<91] @ [97..<123] @ [48..<58] @ [43, 47])"

definition b64_char :: "u32 \<Rightarrow> u8" where
  "b64_char w = b64_table ! unat (63 AND w)"

definition sextet1 :: "u8 \<Rightarrow> u32" where
  "sextet1 s0 = signed_drop_bit 2 (char_int s0)"

definition sextet2 :: "u8 \<Rightarrow> u8 \<Rightarrow> u32" where
  "sextet2 s0 s1 = (push_bit 4 (char_int s0) AND 48) OR (signed_drop_bit 4 (char_int s1) AND 15)"

definition sextet3 :: "u8 \<Rightarrow> u8 \<Rightarrow> u32" where
  "sextet3 s1 s2 = (push_bit 2 (char_int s1) AND 60) OR (signed_drop_bit 6 (char_int s2) AND 3)"

fun base64_groups :: "u8 list \<Rightarrow> u8 list" where
  "base64_groups (s0 # s1 # s2 # s) =
     [b64_char (sextet1 s0), b64_char (sextet2 s0 s1), b64_char (sextet3 s1 s2), b64_char (char_int s2)]
     @ base64_groups s"
| "base64_groups [s0, s1] = [b64_char (sextet1 s0), b64_char (sextet2 s0 s1), b64_char (sextet3 s1 0), 61]"
| "base64_groups [s0] = [b64_char (sextet1 s0), b64_char (sextet2 s0 0), 61, 61]"
| "base64_groups [] = []"

definition syck_base64enc :: "u8 list \<Rightarrow> u8 list" where
  "syck_base64enc s = base64_groups s @ [10]"

section \<open>Decoding\<close>

definition b64_xtable :: "int list" where
  "b64_xtable = foldl (\<lambda>t i. t[unat (b64_table ! i) := int i]) (replicate 256 (- 1)) [0..<64]"

definition b64_index :: "(u8 \<Rightarrow> int) \<Rightarrow> u8 \<Rightarrow> int" where
  "b64_index below c = (if 0 \<le> sint c then b64_xtable ! nat (sint c) else below c)"

function skip_newlines :: "u8 list \<Rightarrow> nat \<Rightarrow> nat" where
  "skip_newlines s i = (if char_at s i = 13 \<or> char_at s i = 10 then skip_newlines s (i + 1) else i)"
  by pat_completeness auto
termination
  by (relation "measure (\<lambda>(s, i). length s - i)") (auto simp: char_at_def split: if_splits)

declare skip_newlines.simps [simp del]

lemma skip_newlines_le: "i \<le> skip_newlines s i"
proof (induction s i rule: skip_newlines.induct)
  case (1 s i)
  then show ?case by (subst skip_newlines.simps) auto
qed

definition decoded1 :: "int \<Rightarrow> int \<Rightarrow> u8" where "decoded1 a b = word_of_int (push_bit 2 a OR drop_bit 4 b)"
definition decoded2 :: "int \<Rightarrow> int \<Rightarrow> u8" where "decoded2 b c = word_of_int (push_bit 4 b OR drop_bit 2 c)"
definition decoded3 :: "int \<Rightarrow> int \<Rightarrow> u8" where "decoded3 c d = word_of_int (push_bit 6 c OR d)"

text \<open>The loop: the position, the variables \<open>a\<close>, \<open>b\<close>, \<open>c\<close> and the bytes written so far.\<close>

function base64_decode :: "(u8 \<Rightarrow> int) \<Rightarrow> u8 list \<Rightarrow> nat \<Rightarrow> int \<Rightarrow> int \<Rightarrow> int \<Rightarrow> u8 list \<Rightarrow>
    nat \<times> int \<times> int \<times> int \<times> u8 list" where
  "base64_decode below s i a b c out =
     (if i < length s then
        let i = skip_newlines s i; a = b64_index below (char_at s i)
        in if a = - 1 then (i, a, b, c, out)
           else let b = b64_index below (char_at s (i + 1))
             in if b = - 1 then (i, a, b, c, out)
                else let c = b64_index below (char_at s (i + 2))
                  in if c = - 1 then (i, a, b, c, out)
                     else let d = b64_index below (char_at s (i + 3))
                       in if d = - 1 then (i, a, b, c, out)
                          else base64_decode below s (i + 4) a b c (out @ [decoded1 a b, decoded2 b c, decoded3 c d])
      else (i, a, b, c, out))"
  by pat_completeness auto
termination
proof (relation "measure (\<lambda>(below, s, i, a, b, c, out). length s - i)", goal_cases)
  case (2 below s i a b c out i' a' b' c' d')
  then show ?case using skip_newlines_le [of i s] by auto
qed simp

declare base64_decode.simps [simp del]

text \<open>What follows the loop: a group with padding.\<close>

definition base64_rest :: "u8 list \<Rightarrow> nat \<times> int \<times> int \<times> int \<times> u8 list \<Rightarrow> u8 list" where
  "base64_rest s = (\<lambda>(i, a, b, c, out).
     if a \<noteq> - 1 \<and> b \<noteq> - 1 then
       let out = (if i + 2 < length s \<and> char_at s (i + 2) = 61 then out @ [decoded1 a b] else out)
       in if c \<noteq> - 1 \<and> i + 3 < length s \<and> char_at s (i + 3) = 61 then out @ [decoded1 a b, decoded2 b c] else out
     else out)"

definition syck_base64dec :: "(u8 \<Rightarrow> int) \<Rightarrow> u8 list \<Rightarrow> u8 list" where
  "syck_base64dec below s = base64_rest s (base64_decode below s 0 (- 1) (- 1) 0 [])"

section \<open>The table\<close>

lemma length_xtable_loop [simp]: "length (foldl (\<lambda>t i. t[f i := g i]) t is) = length t"
  by (induction "is" arbitrary: t) auto

lemma nth_xtable_loop:
  assumes "inj_on f {..<n}" and "\<And>i. i < n \<Longrightarrow> f i < length t"
  shows "j < n \<Longrightarrow> foldl (\<lambda>t i. t[f i := g i]) t [0..<n] ! f j = g j"
  using assms
proof (induction n)
  case (Suc n)
  have inj: "inj_on f {..<n}" using Suc.prems(2) by (rule inj_on_subset) simp
  show ?case
  proof (cases "j = n")
    case True
    then show ?thesis using Suc.prems(3) [of n] by simp
  next
    case False
    then have "j < n" "f j \<noteq> f n" using Suc.prems(1,2) by (auto dest: inj_onD)
    then show ?thesis using Suc.IH [OF _ inj] Suc.prems(3) by simp
  qed
qed simp

lemma nth_xtable_other:
  "k \<notin> f ` {..<n} \<Longrightarrow> foldl (\<lambda>t i. t[f i := g i]) t [0..<n] ! k = t ! k"
  by (induction n) (auto simp: image_iff lessThan_Suc)

lemma b64_table_distinct: "distinct (map unat b64_table)"
  by code_simp

lemma b64_table_chars: "list_all (\<lambda>c. 0 \<le> sint c \<and> nat (sint c) = unat c \<and> c \<noteq> 13 \<and> c \<noteq> 10 \<and> c \<noteq> 0 \<and> c \<noteq> 61) b64_table"
  by code_simp

lemma length_b64_table: "length b64_table = 64"
  by (simp add: b64_table_def)

lemma b64_table_nth:
  assumes "i < 64"
  shows "0 \<le> sint (b64_table ! i)" "nat (sint (b64_table ! i)) = unat (b64_table ! i)"
    "b64_table ! i \<noteq> 13" "b64_table ! i \<noteq> 10" "b64_table ! i \<noteq> 61"
  using b64_table_chars assms by (auto simp: list_all_length length_b64_table)

lemma b64_table_inj: "inj_on (\<lambda>i. unat (b64_table ! i)) {..<64}"
  using b64_table_distinct by (auto simp: distinct_conv_nth inj_on_def length_b64_table)

lemma unat_byte: "unat (c :: u8) < 256"
  using unsigned_less [of c, where 'a = nat] by simp

lemma b64_xtable_nth: "i < 64 \<Longrightarrow> b64_xtable ! unat (b64_table ! i) = int i"
  unfolding b64_xtable_def by (rule nth_xtable_loop [OF b64_table_inj]) (simp_all add: unat_byte)

lemma b64_xtable_other:
  assumes "c \<notin> set b64_table"
  shows "b64_xtable ! unat c = - 1"
proof -
  have "unat c \<notin> (\<lambda>i. unat (b64_table ! i)) ` {..<64}"
    using assms by (auto simp: length_b64_table in_set_conv_nth word_unat_eq_iff)
  from nth_xtable_other [OF this, where t = "replicate 256 (- 1)" and g = int] show ?thesis
    by (simp add: unat_byte b64_xtable_def)
qed

lemma unat_63: "unat (63 AND (w :: u32)) < 64"
  using word_and_le1 [of w 63] by (simp add: and.commute word_le_nat_alt)

definition six :: "u32 \<Rightarrow> int" where
  "six w = int (unat (63 AND w))"

lemma six_not_minus [simp]: "six w \<noteq> - 1"
proof -
  have "0 \<le> six w" by (simp add: six_def)
  then show ?thesis by linarith
qed

lemma b64_char_index: "b64_index below (b64_char w) = six w"
  and b64_char_newline: "b64_char w \<noteq> 13" "b64_char w \<noteq> 10" "b64_char w \<noteq> 61"
  using unat_63 [of w] by (simp_all add: six_def b64_index_def b64_char_def b64_table_nth b64_xtable_nth)

lemma b64_index_others: "b64_index below 0 = - 1" "b64_index below 61 = - 1"
proof -
  have "0 \<notin> set b64_table" "61 \<notin> set b64_table" using b64_table_chars by (auto simp: list_all_iff)
  from this [THEN b64_xtable_other]
  show "b64_index below 0 = - 1" "b64_index below 61 = - 1" by (simp_all add: b64_index_def)
qed

section \<open>The bytes of a group\<close>

lemma bits_63: "bit (63 AND (w :: u32)) n \<longleftrightarrow> n < 6 \<and> bit w n"
proof -
  have "(63 :: u32) = mask 6" by (simp add: mask_eq_exp_minus_1)
  show ?thesis unfolding \<open>63 = mask 6\<close> by (auto simp: bit_simps)
qed

lemma bit_small_masks:
  "bit (48 :: u32) n \<longleftrightarrow> n = 4 \<or> n = 5" "bit (15 :: u32) n \<longleftrightarrow> n < 4"
  "bit (60 :: u32) n \<longleftrightarrow> 2 \<le> n \<and> n < 6" "bit (3 :: u32) n \<longleftrightarrow> n < 2"
proof -
  have m: "(48 :: u32) = push_bit 4 (mask 2)" "(15 :: u32) = mask 4" "(60 :: u32) = push_bit 2 (mask 4)" "(3 :: u32) = mask 2"
    by (simp_all add: mask_eq_exp_minus_1 push_bit_eq_mult)
  show "bit (48 :: u32) n \<longleftrightarrow> n = 4 \<or> n = 5" "bit (15 :: u32) n \<longleftrightarrow> n < 4"
    "bit (60 :: u32) n \<longleftrightarrow> 2 \<le> n \<and> n < 6" "bit (3 :: u32) n \<longleftrightarrow> n < 2"
    unfolding m by (auto simp: bit_simps)
qed

lemma less_8_cases: "n < 8 \<Longrightarrow> n = 0 \<or> n = 1 \<or> n = 2 \<or> n = 3 \<or> n = 4 \<or> n = 5 \<or> n = 6 \<or> n = (7 :: nat)"
  by linarith

lemmas group_defs = six_def decoded1_def decoded2_def decoded3_def sextet1_def sextet2_def sextet3_def char_int_def

lemma byte_eqI:
  fixes a b :: u8
  assumes "bit a 0 = bit b 0" "bit a 1 = bit b 1" "bit a 2 = bit b 2" "bit a 3 = bit b 3"
    "bit a 4 = bit b 4" "bit a 5 = bit b 5" "bit a 6 = bit b 6" "bit a 7 = bit b 7"
  shows "a = b"
  using assms by (intro bit_word_eqI) (auto dest!: less_8_cases)

lemma group_byte1: "decoded1 (six (sextet1 a)) (six (sextet2 a b)) = a"
  by (rule byte_eqI) (simp_all add: group_defs bit_simps bits_63 bit_small_masks)

lemma group_byte2: "decoded2 (six (sextet2 a b)) (six (sextet3 b c)) = b"
  by (rule byte_eqI) (simp_all add: group_defs bit_simps bits_63 bit_small_masks)

lemma group_byte3: "decoded3 (six (sextet3 b c)) (six (char_int c)) = c"
  by (rule byte_eqI) (simp_all add: group_defs bit_simps bits_63 bit_small_masks)

section \<open>Decoding what has been encoded\<close>

lemma char_at_append [simp]:
  "char_at (pre @ xs) (length pre) = char_at xs 0" "char_at (pre @ xs) (length pre + k) = char_at xs k"
  "char_at (pre @ xs) (Suc (length pre)) = char_at xs 1" "char_at (pre @ xs) (Suc (Suc (length pre))) = char_at xs 2"
  by (simp_all add: char_at_def nth_append)

lemma char_at_Cons [simp]:
  "char_at (x # xs) 0 = x" "char_at (x # xs) (Suc k) = char_at xs k" "char_at [] k = 0"
  "char_at (x # xs) (numeral n) = char_at xs (pred_numeral n)"
  by (simp_all add: char_at_def nth_Cons' numeral_eq_Suc)

lemma skip_no_newline: "char_at s i \<noteq> 13 \<Longrightarrow> char_at s i \<noteq> 10 \<Longrightarrow> skip_newlines s i = i"
  by (simp add: skip_newlines.simps)

lemma decode_step:
  assumes "char_at s i = b64_char w" and "i < length s"
  shows "base64_decode below s i a b c out =
    (let a = six w; b = b64_index below (char_at s (i + 1))
     in if b = - 1 then (i, a, b, c, out)
        else let c = b64_index below (char_at s (i + 2))
          in if c = - 1 then (i, a, b, c, out)
             else let d = b64_index below (char_at s (i + 3))
               in if d = - 1 then (i, a, b, c, out)
                  else base64_decode below s (i + 4) a b c (out @ [decoded1 a b, decoded2 b c, decoded3 c d]))"
  using assms by (subst base64_decode.simps) (simp add: skip_no_newline b64_char_newline b64_char_index Let_def)

lemma decode_groups:
  "base64_rest (pre @ base64_groups s @ [10]) (base64_decode below (pre @ base64_groups s @ [10]) (length pre) a b c out)
     = out @ s"
proof (induction s arbitrary: pre a b c out rule: base64_groups.induct)
  case (1 s0 s1 s2 s)
  let ?g = "[b64_char (sextet1 s0), b64_char (sextet2 s0 s1), b64_char (sextet3 s1 s2), b64_char (char_int s2)]"
  have t: "pre @ base64_groups (s0 # s1 # s2 # s) @ [10] = (pre @ ?g) @ base64_groups s @ [10]" by simp
  let ?t = "(pre @ ?g) @ base64_groups s @ [10]"
  have at: "char_at ?t (length pre) = b64_char (sextet1 s0)" "char_at ?t (length pre + 1) = b64_char (sextet2 s0 s1)"
    "char_at ?t (length pre + 2) = b64_char (sextet3 s1 s2)" "char_at ?t (length pre + 3) = b64_char (char_int s2)"
    by simp_all
  have l: "length pre + 4 = length (pre @ ?g)" by simp
  show ?case
    unfolding t decode_step [OF at(1)] Let_def at(2-4) b64_char_index
    by (subst decode_step [OF at(1)]) (simp_all only: Let_def at b64_char_index six_not_minus if_False
        group_byte1 group_byte2 group_byte3 l "1.IH", simp_all)
next
  case (2 s0 s1)
  let ?t = "pre @ [b64_char (sextet1 s0), b64_char (sextet2 s0 s1), b64_char (sextet3 s1 0), 61, 10]"
  have at: "char_at ?t (length pre) = b64_char (sextet1 s0)" by simp
  show ?case
    by (simp add: decode_step [OF at] Let_def b64_char_index b64_index_others base64_rest_def group_byte1 group_byte2
        b64_char_newline)
next
  case (3 s0)
  let ?t = "pre @ [b64_char (sextet1 s0), b64_char (sextet2 s0 0), 61, 61, 10]"
  have at: "char_at ?t (length pre) = b64_char (sextet1 s0)" by simp
  show ?case
    by (simp add: decode_step [OF at] Let_def b64_char_index b64_index_others base64_rest_def group_byte1)
next
  case 4
  have "skip_newlines (pre @ [10]) (length pre) = Suc (length pre)"
    by (subst skip_newlines.simps, simp, subst skip_newlines.simps, simp add: char_at_def)
  moreover have "char_at (pre @ [10]) (Suc (length pre)) = 0" by (simp add: char_at_def)
  ultimately show ?case
    by (subst base64_decode.simps) (simp add: b64_index_others base64_rest_def)
qed

section \<open>The output buffer\<close>

lemma skip_newlines_length: "i \<le> length s \<Longrightarrow> skip_newlines s i \<le> length s"
proof (induction s i rule: skip_newlines.induct)
  case (1 s i)
  have "i < length s" if "char_at s i = 13 \<or> char_at s i = 10" using that by (auto simp: char_at_def split: if_splits)
  with 1 show ?case by (subst skip_newlines.simps) auto
qed

lemma index_in_text: "b64_index below (char_at s i) \<noteq> - 1 \<Longrightarrow> i < length s"
  by (auto simp: char_at_def b64_index_others split: if_splits)

lemma decode_length:
  assumes "4 * length out \<le> 3 * i" and "i \<le> length s"
    and "base64_decode below s i a b c out = (i', a', b', c', out')"
  shows "4 * length out' \<le> 3 * i' \<and> i' \<le> length s"
  using assms
proof (induction below s i a b c out rule: base64_decode.induct)
  case (1 below s i a b c out)
  let ?j = "skip_newlines s i"
  have j: "i \<le> ?j" "?j \<le> length s" using skip_newlines_le [of i s] skip_newlines_length [OF 1(3)] by simp_all
  show ?case
    using 1 j index_in_text [of below s "?j + 3"]
    by (subst (asm) (2) base64_decode.simps) (auto simp: Let_def split: if_splits)
qed

lemma rest_length:
  assumes "4 * length out \<le> 3 * i"
  shows "length (base64_rest s (i, a, b, c, out)) \<le> max (length s) (length out)"
  using assms by (auto simp: base64_rest_def Let_def)

lemma length_groups: "length (base64_groups s) = 4 * ((length s + 2) div 3)"
  by (induction s rule: base64_groups.induct) (simp_all, presburger)

section \<open>Properties\<close>

text \<open>Base64 loses nothing: whatever bytes are encoded, NUL and bytes above 127 included, the text has four
  characters for every three bytes begun and a newline, which fits the buffer of \<open>len * 4 / 3 + 6\<close>
  characters, and decoding it gives the bytes back.\<close>

theorem base64_round_trip:
  "syck_base64dec below (syck_base64enc s) = s \<and> length (syck_base64enc s) = 4 * ((length s + 2) div 3) + 1
    \<and> length (syck_base64enc s) \<le> length s * 4 div 3 + 6"
proof (intro conjI)
  show "syck_base64dec below (syck_base64enc s) = s"
    using decode_groups [of "[]" s below "- 1" "- 1" 0 "[]"] by (simp add: syck_base64dec_def syck_base64enc_def)
  show l: "length (syck_base64enc s) = 4 * ((length s + 2) div 3) + 1" by (simp add: syck_base64enc_def length_groups)
  show "length (syck_base64enc s) \<le> length s * 4 div 3 + 6" unfolding l by presburger
qed

text \<open>Whatever the text and whatever lies in memory before the table, the decoder ends and writes no more bytes
  than the text has, so that it stays in its copy of the text.\<close>

theorem base64dec_in_buffer: "length (syck_base64dec below s) \<le> length s"
proof -
  obtain i a b c out where d: "base64_decode below s 0 (- 1) (- 1) 0 [] = (i, a, b, c, out)" by (rule prod_cases5)
  have "4 * length out \<le> 3 * i" "i \<le> length s" using decode_length [OF _ _ d] by simp_all
  then show ?thesis using rest_length [of out i s a b c] by (simp add: syck_base64dec_def d)
qed

text \<open>The decoder takes a byte above 127 for an index before the table: its result depends on what lies there.\<close>

lemma base64dec_reads_before_table:
  "syck_base64dec (\<lambda>_. 0) [200, 200, 200, 200] \<noteq> syck_base64dec (\<lambda>_. - 1) [200, 200, 200, 200]"
proof -
  have n: "b64_index below 200 = below 200" for below by (simp add: b64_index_def)
  have s: "skip_newlines [200, 200, 200, 200] 0 = 0" by (rule skip_no_newline) simp_all
  have "length (syck_base64dec (\<lambda>_. 0) [200, 200, 200, 200]) = 3"
    by (simp add: syck_base64dec_def base64_decode.simps [of _ _ 0] base64_decode.simps [of _ _ 4] s n base64_rest_def Let_def)
  moreover have "length (syck_base64dec (\<lambda>_. - 1) [200, 200, 200, 200]) = 0"
    by (simp add: syck_base64dec_def base64_decode.simps [of _ _ 0] s n base64_rest_def Let_def)
  ultimately show ?thesis by auto
qed

end
