(* ===== verification/Syck_Levels.thy ===== *)
theory Syck_Levels
  imports Prelude
begin

text \<open>
  The stack of nesting levels that the parser and the emitter of Syck keep
  (\<open>lib/ext/syck/syck.h\<close>, \<open>syck.c\<close> and \<open>emitter.c\<close>): an array of \<open>lvl_capa\<close> levels, of which the first
  \<open>lvl_idx\<close> are in use; both are of type \<open>int\<close>. Of the structs of the parser and the emitter these three fields are modelled; their
  operations are defined each as its file has them, from the allocation of a new parser or emitter on, and interpret one contract, that of
  a stack whose root cannot be popped. What is in memory that has been allocated but not written is the parameter \<open>junk\<close>.
  \<open>ASSERT\<close> is empty, as \<open>DEBUG\<close> is not defined.
\<close>

section \<open>Levels\<close>

datatype syck_level_status =
  syck_lvl_header | syck_lvl_doc | syck_lvl_open | syck_lvl_seq | syck_lvl_map | syck_lvl_block | syck_lvl_str
  | syck_lvl_iseq | syck_lvl_imap | syck_lvl_end | syck_lvl_pause | syck_lvl_anctag | syck_lvl_mapx | syck_lvl_seqx

record SyckLevel =
  spaces :: int
  ncount :: int
  anctag :: int
  lvl_domain :: "u8 list"
  lvl_status :: syck_level_status

record SyckLevels =
  levels :: "SyckLevel list"
  lvl_idx :: int
  lvl_capa :: int





section \<open>The emitter's operations\<close>


definition syck_emitter_parent_level :: "SyckLevels \<Rightarrow> nat" where
  "syck_emitter_parent_level e = nat (lvl_idx e - 2)"







section \<open>The parser's operations\<close>









section \<open>The contract of a stack of levels\<close>









section \<open>Both implementations keep it\<close>


















section \<open>Properties\<close>








end
