(* ===== verification/Vm_Oop.thy ===== *)
theory Vm_Oop
  imports Prelude
begin

text \<open>
  Object references of the virtual machine (\<open>vm/oop.hpp\<close>): a machine word whose low bits say what it
  is. Values of \<open>native_int\<close> (\<open>intptr_t\<close>, 64 bits) are integers here; where a C++ operation on them can
  leave their range, \<open>native\<close> writes the wrap-around out. \<open>size_t_of\<close> is the conversion to \<open>size_t\<close>, and
  \<open>int32\<close> and \<open>uint32\<close> those to \<open>int\<close> and \<open>unsigned\<close>. Exceptions raised by the machine are values of
  \<open>vm_error\<close>.
\<close>

section \<open>Machine integers\<close>

type_synonym oop = "64 word"

definition native :: "int \<Rightarrow> int" where "native n = signed_take_bit 63 n"
definition int32 :: "int \<Rightarrow> int" where "int32 n = signed_take_bit 31 n"
definition uint32 :: "int \<Rightarrow> int" where "uint32 n = take_bit 32 n"
definition size_t_of :: "int \<Rightarrow> int" where "size_t_of n = take_bit 64 n"

lemma native_id [simp]: "- (2 ^ 63) \<le> n \<Longrightarrow> n < 2 ^ 63 \<Longrightarrow> native n = n"
  by (simp add: native_def signed_take_bit_int_eq_self)

lemma int32_id [simp]: "- (2 ^ 31) \<le> n \<Longrightarrow> n < 2 ^ 31 \<Longrightarrow> int32 n = n"
  by (simp add: int32_def signed_take_bit_int_eq_self)

lemma uint32_id [simp]: "0 \<le> n \<Longrightarrow> n < 2 ^ 32 \<Longrightarrow> uint32 n = n"
  by (simp add: uint32_def take_bit_int_eq_self)

lemma size_t_id [simp]: "0 \<le> n \<Longrightarrow> n < 2 ^ 64 \<Longrightarrow> size_t_of n = n"
  by (simp add: size_t_of_def take_bit_int_eq_self)

lemma size_t_neg: "- (2 ^ 63) \<le> n \<Longrightarrow> n < 0 \<Longrightarrow> 2 ^ 63 \<le> size_t_of n"
proof -
  assume "- (2 ^ 63) \<le> n" "n < 0"
  moreover from this have "take_bit 64 n = take_bit 64 (n + 2 ^ 64)"
    by (simp add: take_bit_eq_mod)
  ultimately show ?thesis by (simp add: size_t_of_def take_bit_int_eq_self)
qed

datatype vm_error = ObjectBoundsExceeded | ZeroDivision | ArgumentError | PrimitiveFailure | TypeError

section \<open>Tags\<close>

definition APPLY_FIXNUM_TAG :: "int \<Rightarrow> oop" where
  "APPLY_FIXNUM_TAG v = push_bit 1 (word_of_int v) OR 1"

definition STRIP_FIXNUM_TAG :: "oop \<Rightarrow> int" where
  "STRIP_FIXNUM_TAG v = sint (signed_drop_bit 1 v)"

definition APPLY_SYMBOL_TAG :: "int \<Rightarrow> oop" where
  "APPLY_SYMBOL_TAG v = push_bit 3 (word_of_int v) OR 6"

definition STRIP_SYMBOL_TAG :: "oop \<Rightarrow> int" where
  "STRIP_SYMBOL_TAG v = sint (signed_drop_bit 3 v)"

definition REFERENCE_P :: "oop \<Rightarrow> bool" where "REFERENCE_P v \<longleftrightarrow> v AND 3 = 0"
definition FIXNUM_P :: "oop \<Rightarrow> bool" where "FIXNUM_P v \<longleftrightarrow> v AND 1 = 1"
definition SYMBOL_P :: "oop \<Rightarrow> bool" where "SYMBOL_P v \<longleftrightarrow> v AND 7 = 6"

definition Qfalse :: oop where "Qfalse = 0x0a"
definition Qnil :: oop where "Qnil = 0x1a"
definition Qtrue :: oop where "Qtrue = 0x12"
definition Qundef :: oop where "Qundef = 0x22"

definition RTEST :: "oop \<Rightarrow> bool" where "RTEST v \<longleftrightarrow> v AND 0xf \<noteq> Qfalse"

definition FIXNUM_WIDTH :: nat where "FIXNUM_WIDTH = 8 * 8 - 1 - 1"
definition FIXNUM_MAX :: int where "FIXNUM_MAX = push_bit FIXNUM_WIDTH 1 - 1"
definition FIXNUM_MIN :: int where "FIXNUM_MIN = - FIXNUM_MAX"

lemma fixnum_range: "FIXNUM_MAX = 2 ^ 62 - 1" "FIXNUM_MIN = - (2 ^ 62 - 1)"
  by (simp_all add: FIXNUM_MAX_def FIXNUM_MIN_def FIXNUM_WIDTH_def push_bit_eq_mult)

section \<open>The tags as remainders\<close>

lemma uint_and_mask: "uint (v AND mask n :: oop) = uint v mod 2 ^ n" if "n \<le> 64"
  unfolding take_bit_eq_mod [symmetric] by (rule bit_eqI) (use that in \<open>auto simp: bit_simps\<close>)

lemma FIXNUM_P_mod: "FIXNUM_P v \<longleftrightarrow> uint v mod 2 = 1"
  using uint_and_mask [of 1 v] by (simp add: FIXNUM_P_def word_uint_eq_iff)

lemma REFERENCE_P_mod: "REFERENCE_P v \<longleftrightarrow> uint v mod 4 = 0"
  using uint_and_mask [of 2 v] by (simp add: REFERENCE_P_def word_uint_eq_iff mask_eq_exp_minus_1)

lemma SYMBOL_P_mod: "SYMBOL_P v \<longleftrightarrow> uint v mod 8 = 6"
  using uint_and_mask [of 3 v] by (simp add: SYMBOL_P_def word_uint_eq_iff mask_eq_exp_minus_1)

lemma RTEST_mod: "RTEST v \<longleftrightarrow> uint v mod 16 \<noteq> 10"
  using uint_and_mask [of 4 v] by (simp add: RTEST_def Qfalse_def word_uint_eq_iff mask_eq_exp_minus_1)

lemmas tag_mods = FIXNUM_P_mod REFERENCE_P_mod SYMBOL_P_mod RTEST_mod

lemma bit_APPLY_FIXNUM_TAG: "bit (APPLY_FIXNUM_TAG v) n \<longleftrightarrow> n < 64 \<and> (n = 0 \<or> bit v (n - 1))"
  unfolding APPLY_FIXNUM_TAG_def bit_or_iff bit_push_bit_iff bit_word_of_int_iff bit_1_iff by auto

lemma six_bits: "(6 :: oop) = push_bit 1 (mask 2)"
  by (simp add: mask_eq_exp_minus_1)

lemma bit_APPLY_SYMBOL_TAG: "bit (APPLY_SYMBOL_TAG v) n \<longleftrightarrow> n < 64 \<and> (n = 1 \<or> n = 2 \<or> 3 \<le> n \<and> bit v (n - 3))"
  unfolding APPLY_SYMBOL_TAG_def six_bits bit_or_iff bit_push_bit_iff bit_word_of_int_iff bit_mask_iff by auto

lemma strip_apply_fixnum: "STRIP_FIXNUM_TAG (APPLY_FIXNUM_TAG n) = signed_take_bit 62 n"
proof (rule bit_eqI)
  fix k :: nat
  show "bit (STRIP_FIXNUM_TAG (APPLY_FIXNUM_TAG n)) k \<longleftrightarrow> bit (signed_take_bit 62 n) k"
    by (cases "k = 62") (auto simp: STRIP_FIXNUM_TAG_def bit_simps bit_APPLY_FIXNUM_TAG min_def)
qed

lemma strip_apply_symbol: "STRIP_SYMBOL_TAG (APPLY_SYMBOL_TAG n) = signed_take_bit 60 n"
proof (rule bit_eqI)
  fix k :: nat
  show "bit (STRIP_SYMBOL_TAG (APPLY_SYMBOL_TAG n)) k \<longleftrightarrow> bit (signed_take_bit 60 n) k"
    by (cases "k = 60") (auto simp: STRIP_SYMBOL_TAG_def bit_simps bit_APPLY_SYMBOL_TAG min_def)
qed

lemma bit_six: "bit (6 :: oop) n \<longleftrightarrow> n = 1 \<or> n = 2"
  unfolding six_bits bit_push_bit_iff bit_mask_iff by auto

lemma mask_bits: "(7 :: oop) = mask 3" "(1 :: oop) = mask 1"
  by (simp_all add: mask_eq_exp_minus_1)

lemma apply_fixnum_fixnum: "FIXNUM_P (APPLY_FIXNUM_TAG n)"
  unfolding FIXNUM_P_def by (rule bit_word_eqI) (auto simp: bit_and_iff bit_APPLY_FIXNUM_TAG bit_1_iff)

lemma apply_symbol_symbol: "SYMBOL_P (APPLY_SYMBOL_TAG n)"
  unfolding SYMBOL_P_def mask_bits
proof (rule bit_word_eqI)
  fix k :: nat
  show "bit (APPLY_SYMBOL_TAG n AND mask 3) k \<longleftrightarrow> bit (6 :: oop) k"
    unfolding bit_and_iff bit_six bit_mask_iff bit_APPLY_SYMBOL_TAG by auto
qed

lemma strip_fixnum_div: "STRIP_FIXNUM_TAG v = sint v div 2"
  by (simp add: STRIP_FIXNUM_TAG_def sint_signed_drop_bit_eq drop_bit_eq_div)

lemma strip_fixnum_range: "- (2 ^ 62) \<le> STRIP_FIXNUM_TAG v \<and> STRIP_FIXNUM_TAG v < 2 ^ 62"
  using sint_range_size [of v] unfolding strip_fixnum_div by (simp add: word_size) presburger

end
