(* ===== verification/Vm_Integer.thy ===== *)
theory Vm_Integer
  imports Vm_Oop
begin

text \<open>
  Integers of the virtual machine: \<open>vm/builtin/fixnum.hpp\<close>, \<open>fixnum.cpp\<close>, \<open>bignum.cpp\<close> and \<open>integer.cpp\<close>.
  A \<open>Fixnum\<close> is a tagged word, a \<open>Bignum\<close> an \<open>mp_int\<close> of the bundled libtommath, of which only the
  value is kept: \<open>mp_add\<close>, \<open>mp_mul\<close> and their single-digit forms are exact on values (a digit has 63 bits,
  so the magnitude of a fixnum is one digit), \<open>mp_div\<close> truncates. The operations with a \<open>Float\<close> operand
  are not modelled.
\<close>

section \<open>Numbers\<close>

datatype Integer = Fixnum oop | Bignum int

definition Fixnum_from :: "int \<Rightarrow> oop" where "Fixnum_from num = APPLY_FIXNUM_TAG num"
definition Fixnum_to_native :: "oop \<Rightarrow> int" where "Fixnum_to_native o1 = STRIP_FIXNUM_TAG o1"

definition DIGIT_BIT :: nat where "DIGIT_BIT = 63"

fun nat_bits :: "nat \<Rightarrow> nat" where
  "nat_bits n = (if n = 0 then 0 else Suc (nat_bits (n div 2)))"

declare nat_bits.simps [simp del]

definition mp_count_bits :: "int \<Rightarrow> nat" where "mp_count_bits a = nat_bits (nat \<bar>a\<bar>)"
definition mp_used :: "int \<Rightarrow> nat" where "mp_used a = (mp_count_bits a + DIGIT_BIT - 1) div DIGIT_BIT"

text \<open>Division of C and of libtommath: the quotient is rounded towards zero.\<close>

definition c_div :: "int \<Rightarrow> int \<Rightarrow> int" where "c_div a b = sgn a * sgn b * (\<bar>a\<bar> div \<bar>b\<bar>)"
definition mp_div :: "int \<Rightarrow> int \<Rightarrow> int \<times> int" where "mp_div a b = (c_div a b, a - c_div a b * b)"
definition mp_mul_2d :: "int \<Rightarrow> nat \<Rightarrow> int" where "mp_mul_2d a b = a * 2 ^ b"
definition mp_div_2d :: "int \<Rightarrow> nat \<Rightarrow> int" where "mp_div_2d a b = c_div a (2 ^ b)"

definition mp_get_long :: "int \<Rightarrow> int" where "mp_get_long a = take_bit 64 \<bar>a\<bar>"

definition Bignum_to_native :: "int \<Rightarrow> int" where
  "Bignum_to_native a = native (if a < 0 then - mp_get_long a else mp_get_long a)"

definition Bignum_normalize :: "int \<Rightarrow> Integer" where
  "Bignum_normalize b = (if mp_count_bits b \<le> FIXNUM_WIDTH then Fixnum (Fixnum_from (Bignum_to_native b)) else Bignum b)"

definition Bignum_from :: "int \<Rightarrow> int" where "Bignum_from num = num"

definition Integer_from :: "int \<Rightarrow> Integer" where
  "Integer_from num = (if num > FIXNUM_MAX \<or> num < FIXNUM_MIN then Bignum (Bignum_from num) else Fixnum (APPLY_FIXNUM_TAG num))"

section \<open>Bignum arithmetic\<close>

definition Bignum_add_fixnum :: "int \<Rightarrow> oop \<Rightarrow> Integer" where
  "Bignum_add_fixnum a b =
     (let bi = Fixnum_to_native b in Bignum_normalize (if bi > 0 then a + bi else a - (- bi)))"

definition Bignum_add :: "int \<Rightarrow> int \<Rightarrow> Integer" where "Bignum_add a b = Bignum_normalize (a + b)"

definition Bignum_sub_fixnum :: "int \<Rightarrow> oop \<Rightarrow> Integer" where
  "Bignum_sub_fixnum a b =
     (let bi = Fixnum_to_native b in Bignum_normalize (if bi > 0 then a - bi else a + - bi))"

definition Bignum_sub :: "int \<Rightarrow> int \<Rightarrow> Integer" where "Bignum_sub a b = Bignum_normalize (a - b)"

definition Bignum_mul_fixnum :: "int \<Rightarrow> oop \<Rightarrow> Integer" where
  "Bignum_mul_fixnum a b =
     (let bi = Fixnum_to_native b
      in Bignum_normalize (if bi = 2 then a * 2 else if bi > 0 then a * bi else - (a * - bi)))"

definition Bignum_mul :: "int \<Rightarrow> int \<Rightarrow> Integer" where "Bignum_mul a b = Bignum_normalize (a * b)"

definition Bignum_neg :: "int \<Rightarrow> Integer" where "Bignum_neg a = Bignum_normalize (- a)"
definition Bignum_invert :: "int \<Rightarrow> Integer" where "Bignum_invert a = Bignum_normalize (- a - 1)"

text \<open>\<open>divide\<close> returns the quotient and the remainder. \<open>mp_div_d\<close> leaves in \<open>r\<close> the remainder of the magnitudes.\<close>

definition Bignum_divide_fixnum :: "int \<Rightarrow> oop \<Rightarrow> vm_error + (Integer \<times> Integer)" where
  "Bignum_divide_fixnum a denominator =
     (if Fixnum_to_native denominator = 0 then Inl ZeroDivision
      else let bi = Fixnum_to_native denominator;
               r = \<bar>a\<bar> mod \<bar>bi\<bar>;
               n = (if bi < 0 then - c_div a (- bi) else c_div a bi);
               remainder = (if a < 0 then Fixnum_from (- r) else Fixnum_from r)
           in if r \<noteq> 0 \<and> n < 0
              then Inr (Bignum_normalize (n - 1), Fixnum (Fixnum_from (Fixnum_to_native remainder + bi)))
              else Inr (Bignum_normalize n, Fixnum remainder))"

definition Bignum_divide :: "int \<Rightarrow> int \<Rightarrow> vm_error + (Integer \<times> Integer)" where
  "Bignum_divide a b =
     (if b = 0 then Inl ZeroDivision
      else case mp_div a b of (n, m) \<Rightarrow>
        if n < 0 \<and> m \<noteq> 0
        then let n = n - 1; m = b * n; m = a - m in Inr (Bignum_normalize n, Bignum_normalize m)
        else Inr (Bignum_normalize n, Bignum_normalize m))"

definition Bignum_div :: "int \<Rightarrow> int \<Rightarrow> vm_error + Integer" where
  "Bignum_div a b = map_sum id fst (Bignum_divide a b)"

definition Bignum_mod :: "int \<Rightarrow> int \<Rightarrow> vm_error + Integer" where
  "Bignum_mod a b = map_sum id snd (Bignum_divide a b)"

definition Bignum_div_fixnum :: "int \<Rightarrow> oop \<Rightarrow> vm_error + Integer" where
  "Bignum_div_fixnum a b = map_sum id fst (Bignum_divide_fixnum a b)"

definition Bignum_mod_fixnum :: "int \<Rightarrow> oop \<Rightarrow> vm_error + Integer" where
  "Bignum_mod_fixnum a b = map_sum id snd (Bignum_divide_fixnum a b)"

text \<open>The shift counts are cut to 32 bits, and a negative one is passed on, negated, to the other shift. The
  direction is an argument here; \<open>None\<close> is the recursion that never ends.\<close>

definition Bignum_left_shift_by :: "int \<Rightarrow> nat \<Rightarrow> Integer" where
  "Bignum_left_shift_by a shift = Bignum_normalize (mp_mul_2d a shift)"

definition Bignum_right_shift_by :: "int \<Rightarrow> nat \<Rightarrow> Integer" where
  "Bignum_right_shift_by a shift =
     (if mp_used a \<le> shift div DIGIT_BIT then (if 0 \<le> a then Fixnum (Fixnum_from 0) else Fixnum (Fixnum_from (- 1)))
      else if shift = 0 then Bignum_normalize a
      else let n = mp_div_2d a shift
           in Bignum_normalize (if a < 0 \<and> odd \<bar>a\<bar> then n - 1 else n))"

partial_function (option) Bignum_shift :: "bool \<Rightarrow> int \<Rightarrow> oop \<Rightarrow> Integer option" where
  "Bignum_shift left a bits =
     (let shift = int32 (Fixnum_to_native bits)
      in if shift < 0 then Bignum_shift (\<not> left) a (Fixnum_from (native (- Fixnum_to_native bits)))
         else Some (if left then Bignum_left_shift_by a (nat shift) else Bignum_right_shift_by a (nat shift)))"

definition Bignum_left_shift :: "int \<Rightarrow> oop \<Rightarrow> Integer option" where "Bignum_left_shift = Bignum_shift True"
definition Bignum_right_shift :: "int \<Rightarrow> oop \<Rightarrow> Integer option" where "Bignum_right_shift = Bignum_shift False"

section \<open>Fixnum arithmetic\<close>

definition Fixnum_add :: "oop \<Rightarrow> oop \<Rightarrow> Integer" where
  "Fixnum_add a b =
     (let r = native (Fixnum_to_native a + Fixnum_to_native b)
      in if r > FIXNUM_MAX \<or> r < FIXNUM_MIN then Bignum (Bignum_from r) else Fixnum (Fixnum_from r))"

definition Fixnum_sub :: "oop \<Rightarrow> oop \<Rightarrow> Integer" where
  "Fixnum_sub a b =
     (let r = native (Fixnum_to_native a - Fixnum_to_native b)
      in if r > FIXNUM_MAX \<or> r < FIXNUM_MIN then Bignum (Bignum_from r) else Fixnum (Fixnum_from r))"

definition Fixnum_add_bignum :: "oop \<Rightarrow> int \<Rightarrow> Integer" where
  "Fixnum_add_bignum a other = Bignum_add_fixnum other a"

text \<open>\<open>as<Bignum>\<close> raises a type error when the negated number is a fixnum.\<close>

definition Fixnum_sub_bignum :: "oop \<Rightarrow> int \<Rightarrow> vm_error + Integer" where
  "Fixnum_sub_bignum self other =
     (case Bignum_neg other of Bignum n \<Rightarrow> Inr (Bignum_add_fixnum n self) | Fixnum _ \<Rightarrow> Inl TypeError)"

definition Fixnum_mul :: "oop \<Rightarrow> oop \<Rightarrow> Integer" where
  "Fixnum_mul self other =
     (let a = Fixnum_to_native self; b = Fixnum_to_native other;
          big = Bignum_mul_fixnum (Bignum_from a) other;
          small = Fixnum (Fixnum_from (native (a * b)))
      in if a = 0 \<or> b = 0 then Fixnum (Fixnum_from 0)
         else if a > 0
         then (if b > 0
               then (if a > c_div FIXNUM_MAX b then big else small)
               else (if b < c_div FIXNUM_MIN a then big else small))
         else (if b > 0
               then (if a < c_div FIXNUM_MIN b then big else small)
               else (if b < c_div FIXNUM_MAX a then big else small)))"

definition Fixnum_mul_bignum :: "oop \<Rightarrow> int \<Rightarrow> Integer" where
  "Fixnum_mul_bignum a other = Bignum_mul_fixnum other a"

definition Fixnum_quotient :: "int \<Rightarrow> int \<Rightarrow> int" where
  "Fixnum_quotient numerator denominator =
     (let quotient =
        (if denominator < 0
         then (if numerator < 0 then c_div (native (- numerator)) (native (- denominator))
               else native (- c_div numerator (native (- denominator))))
         else (if numerator < 0 then native (- c_div (native (- numerator)) denominator)
               else c_div numerator denominator));
        m = native (numerator - native (quotient * denominator))
      in if m < 0 \<and> denominator > 0 \<or> m > 0 \<and> denominator < 0 then native (quotient - 1) else quotient)"

definition Fixnum_div :: "oop \<Rightarrow> oop \<Rightarrow> vm_error + oop" where
  "Fixnum_div self other =
     (if Fixnum_to_native other = 0 then Inl ZeroDivision
      else Inr (Fixnum_from (Fixnum_quotient (Fixnum_to_native self) (Fixnum_to_native other))))"

definition Fixnum_div_bignum :: "oop \<Rightarrow> int \<Rightarrow> vm_error + Integer" where
  "Fixnum_div_bignum self other = Bignum_div (Bignum_from (Fixnum_to_native self)) other"

definition Fixnum_mod :: "oop \<Rightarrow> oop \<Rightarrow> vm_error + oop" where
  "Fixnum_mod self other =
     (case Fixnum_div self other of Inl e \<Rightarrow> Inl e
      | Inr q \<Rightarrow>
        let numerator = Fixnum_to_native self; denominator = Fixnum_to_native other; quotient = Fixnum_to_native q;
            modulo = native (numerator - native (denominator * quotient))
        in if modulo < 0 \<and> denominator > 0 \<or> modulo > 0 \<and> denominator < 0
           then Inr (Fixnum_from (native (modulo + denominator))) else Inr (Fixnum_from modulo))"

definition Fixnum_mod_bignum :: "oop \<Rightarrow> int \<Rightarrow> vm_error + Integer" where
  "Fixnum_mod_bignum self other = Bignum_mod (Bignum_from (Fixnum_to_native self)) other"

definition Fixnum_divmod :: "oop \<Rightarrow> oop \<Rightarrow> vm_error + (oop \<times> oop)" where
  "Fixnum_divmod self other =
     (if Fixnum_to_native other = 0 then Inl ZeroDivision
      else case Fixnum_div self other of Inl e \<Rightarrow> Inl e
      | Inr q \<Rightarrow>
        let fraction = Fixnum_to_native q
        in Inr (Fixnum_from fraction,
                Fixnum_from (native (Fixnum_to_native self - native (Fixnum_to_native other * fraction)))))"

definition Fixnum_neg :: "oop \<Rightarrow> oop" where "Fixnum_neg self = Fixnum_from (native (- Fixnum_to_native self))"

definition Fixnum_compare :: "oop \<Rightarrow> oop \<Rightarrow> oop" where
  "Fixnum_compare self other =
     (let left = Fixnum_to_native self; right = Fixnum_to_native other
      in if left = right then Fixnum_from 0 else if left < right then Fixnum_from (- 1) else Fixnum_from 1)"

definition Fixnum_equal :: "oop \<Rightarrow> oop \<Rightarrow> oop" where
  "Fixnum_equal self other = (if Fixnum_to_native self = Fixnum_to_native other then Qtrue else Qfalse)"

definition Fixnum_gt :: "oop \<Rightarrow> oop \<Rightarrow> oop" where
  "Fixnum_gt self other = (if Fixnum_to_native self > Fixnum_to_native other then Qtrue else Qfalse)"

definition Fixnum_ge :: "oop \<Rightarrow> oop \<Rightarrow> oop" where
  "Fixnum_ge self other = (if Fixnum_to_native self \<ge> Fixnum_to_native other then Qtrue else Qfalse)"

definition Fixnum_lt :: "oop \<Rightarrow> oop \<Rightarrow> oop" where
  "Fixnum_lt self other = (if Fixnum_to_native self < Fixnum_to_native other then Qtrue else Qfalse)"

definition Fixnum_le :: "oop \<Rightarrow> oop \<Rightarrow> oop" where
  "Fixnum_le self other = (if Fixnum_to_native self \<le> Fixnum_to_native other then Qtrue else Qfalse)"

definition Fixnum_left_shift_by :: "int \<Rightarrow> int \<Rightarrow> Integer option" where
  "Fixnum_left_shift_by self shift =
     (if shift \<ge> int FIXNUM_WIDTH \<or> drop_bit (FIXNUM_WIDTH - nat shift) self > 0
      then Bignum_left_shift (Bignum_from self) (Fixnum_from shift)
      else Some (Fixnum (Fixnum_from (native (push_bit (nat shift) self)))))"

definition Fixnum_right_shift_by :: "int \<Rightarrow> int \<Rightarrow> Integer" where
  "Fixnum_right_shift_by self shift =
     (if shift \<ge> 8 * 8 - 1 then Fixnum (Fixnum_from 0) else Fixnum (Fixnum_from (drop_bit (nat shift) self)))"

partial_function (option) Fixnum_shift :: "bool \<Rightarrow> oop \<Rightarrow> oop \<Rightarrow> Integer option" where
  "Fixnum_shift left self bits =
     (let shift = Fixnum_to_native bits
      in if shift < 0 then Fixnum_shift (\<not> left) self (Fixnum_from (native (- shift)))
         else if left then Fixnum_left_shift_by (Fixnum_to_native self) shift
         else Some (Fixnum_right_shift_by (Fixnum_to_native self) shift))"

definition Fixnum_left_shift :: "oop \<Rightarrow> oop \<Rightarrow> Integer option" where "Fixnum_left_shift = Fixnum_shift True"
definition Fixnum_right_shift :: "oop \<Rightarrow> oop \<Rightarrow> Integer option" where "Fixnum_right_shift = Fixnum_shift False"

definition Fixnum_bit_and :: "oop \<Rightarrow> oop \<Rightarrow> oop" where
  "Fixnum_bit_and self other = Fixnum_from (Fixnum_to_native self AND Fixnum_to_native other)"

definition Fixnum_bit_or :: "oop \<Rightarrow> oop \<Rightarrow> oop" where
  "Fixnum_bit_or self other = Fixnum_from (Fixnum_to_native self OR Fixnum_to_native other)"

definition Fixnum_bit_xor :: "oop \<Rightarrow> oop \<Rightarrow> oop" where
  "Fixnum_bit_xor self other = Fixnum_from (Fixnum_to_native self XOR Fixnum_to_native other)"

definition Fixnum_invert :: "oop \<Rightarrow> oop" where "Fixnum_invert self = Fixnum_from (NOT (Fixnum_to_native self))"

text \<open>\<open>to_s\<close> writes the digits from the end of its buffer of 100 bytes.\<close>

definition digitmap :: string where "digitmap = ''0123456789abcdefghijklmnopqrstuvwxyz''"

function to_s_digits :: "int \<Rightarrow> int \<Rightarrow> string \<Rightarrow> string" where
  "to_s_digits j k b =
     (let b = digitmap ! nat (k mod j) # b; k' = k div j
      in if k' \<noteq> 0 \<and> 0 \<le> k \<and> 2 \<le> j then to_s_digits j k' b else b)"
  by pat_completeness auto
termination
proof (relation "measure (\<lambda>(j, k, b). nat k)", simp)
  fix j k :: int and b x xa
  assume "xa = k div j" and "xa \<noteq> 0 \<and> 0 \<le> k \<and> 2 \<le> j"
  then have "k div j < k" by (intro int_div_less_self) (auto simp: pos_imp_zdiv_pos_iff le_less)
  then show "((j, xa, x), j, k, b) \<in> measure (\<lambda>(j, k, b). nat k)"
    using \<open>xa = k div j\<close> \<open>xa \<noteq> 0 \<and> 0 \<le> k \<and> 2 \<le> j\<close> by (cases "k = 0") auto
qed

declare to_s_digits.simps [simp del]

definition Fixnum_to_s :: "oop \<Rightarrow> oop \<Rightarrow> vm_error + string" where
  "Fixnum_to_s self base =
     (let j = Fixnum_to_native base; k = Fixnum_to_native self
      in if j < 2 \<or> j > 36 then Inl ArgumentError
         else if k = 0 then Inr ''0''
         else if k < 0 then Inr (CHR ''-'' # to_s_digits j (native (- k)) '''')
         else Inr (to_s_digits j k ''''))"

end
