(* ===== verification/Vm_Integer_Laws.thy ===== *)
theory Vm_Integer_Laws
  imports Vm_Integer
begin

text \<open>
  What the integer primitives compute: an \<open>Integer\<close> stands for \<open>int_of\<close>, and is \<open>normal\<close> when it is a
  fixnum exactly for the numbers from \<open>FIXNUM_MIN\<close> to \<open>FIXNUM_MAX\<close>. Sums, products, negations and
  quotients of normal integers are exact and normal; the shifts and the division by a \<open>Bignum\<close> are not
  in the cases shown.
\<close>

section \<open>Numbers and normal forms\<close>

definition fix_ok :: "oop \<Rightarrow> bool" where
  "fix_ok o1 \<longleftrightarrow> FIXNUM_P o1 \<and> FIXNUM_MIN \<le> Fixnum_to_native o1 \<and> Fixnum_to_native o1 \<le> FIXNUM_MAX"

fun int_of :: "Integer \<Rightarrow> int" where
  "int_of (Fixnum o1) = Fixnum_to_native o1"
| "int_of (Bignum a) = a"

fun normal :: "Integer \<Rightarrow> bool" where
  "normal (Fixnum o1) \<longleftrightarrow> fix_ok o1"
| "normal (Bignum a) \<longleftrightarrow> a < FIXNUM_MIN \<or> FIXNUM_MAX < a"

definition is_int :: "Integer \<Rightarrow> int \<Rightarrow> bool" where
  "is_int i n \<longleftrightarrow> int_of i = n \<and> normal i"

lemma to_native_from [simp]: "- (2 ^ 62) \<le> n \<Longrightarrow> n < 2 ^ 62 \<Longrightarrow> Fixnum_to_native (Fixnum_from n) = n"
  by (simp add: Fixnum_to_native_def Fixnum_from_def strip_apply_fixnum signed_take_bit_int_eq_self)

lemma fix_ok_from: "FIXNUM_MIN \<le> n \<Longrightarrow> n \<le> FIXNUM_MAX \<Longrightarrow> fix_ok (Fixnum_from n) \<and> Fixnum_to_native (Fixnum_from n) = n"
  by (simp add: fix_ok_def fixnum_range) (simp add: Fixnum_from_def apply_fixnum_fixnum)

lemma is_int_fixnum: "FIXNUM_MIN \<le> n \<Longrightarrow> n \<le> FIXNUM_MAX \<Longrightarrow> is_int (Fixnum (Fixnum_from n)) n"
  using fix_ok_from by (simp add: is_int_def)

lemma is_int_bignum: "n < FIXNUM_MIN \<or> FIXNUM_MAX < n \<Longrightarrow> is_int (Bignum n) n"
  by (simp add: is_int_def)

lemma fix_okD: "fix_ok o1 \<Longrightarrow> - (2 ^ 62) < Fixnum_to_native o1 \<and> Fixnum_to_native o1 < 2 ^ 62"
  by (auto simp: fix_ok_def fixnum_range)

lemma native_range: "- (2 ^ 62) \<le> Fixnum_to_native o1 \<and> Fixnum_to_native o1 < 2 ^ 62"
  unfolding Fixnum_to_native_def by (rule strip_fixnum_range)

lemma nat_bits_le: "nat_bits n \<le> w \<longleftrightarrow> n < 2 ^ w"
proof (induction w arbitrary: n)
  case (Suc w)
  have "n div 2 < 2 ^ w \<longleftrightarrow> n < 2 * 2 ^ w" by linarith
  with Suc show ?case by (simp add: nat_bits.simps [of n])
next
  case 0
  show ?case by (subst nat_bits.simps) simp
qed

lemma count_bits_fixnum: "mp_count_bits a \<le> FIXNUM_WIDTH \<longleftrightarrow> FIXNUM_MIN \<le> a \<and> a \<le> FIXNUM_MAX"
  unfolding mp_count_bits_def nat_bits_le by (auto simp: FIXNUM_WIDTH_def fixnum_range)

lemma Bignum_to_native_small: "- (2 ^ 63) < a \<Longrightarrow> a < 2 ^ 63 \<Longrightarrow> Bignum_to_native a = a"
  by (auto simp: Bignum_to_native_def mp_get_long_def take_bit_int_eq_self)

lemma normalize_is_int [simp]: "is_int (Bignum_normalize a) a"
  unfolding Bignum_normalize_def
  using is_int_fixnum [of a] is_int_bignum [of a] Bignum_to_native_small [of a]
  by (auto simp: count_bits_fixnum fixnum_range not_le)

lemma normalize_bignum: "a < FIXNUM_MIN \<or> FIXNUM_MAX < a \<Longrightarrow> Bignum_normalize a = Bignum a"
  by (auto simp: Bignum_normalize_def count_bits_fixnum)

section \<open>Truncating division\<close>

lemma c_div_rem: "a = c_div a b * b + sgn a * (\<bar>a\<bar> mod \<bar>b\<bar>)"
proof -
  have "\<bar>b\<bar> = sgn b * b" by (simp add: abs_sgn mult.commute)
  have "c_div a b * b = sgn a * (\<bar>a\<bar> div \<bar>b\<bar> * \<bar>b\<bar>)"
    by (simp add: c_div_def abs_sgn mult.commute mult.left_commute)
  then have "c_div a b * b + sgn a * (\<bar>a\<bar> mod \<bar>b\<bar>) = sgn a * (\<bar>a\<bar> div \<bar>b\<bar> * \<bar>b\<bar> + \<bar>a\<bar> mod \<bar>b\<bar>)"
    by (simp only: distrib_left)
  then show ?thesis by (simp only: div_mult_mod_eq) (simp add: sgn_mult_abs)
qed

lemma c_div_nonneg: "0 \<le> a \<Longrightarrow> 0 < b \<Longrightarrow> c_div a b = a div b"
  by (cases "a = 0") (simp_all add: c_div_def)

lemma c_div_minus: "c_div (- a) b = - c_div a b" "c_div a (- b) = - c_div a b"
  by (simp_all add: c_div_def)

lemma floor_from_c_div:
  fixes a b :: int
  assumes "b \<noteq> 0"
  defines "m \<equiv> a - c_div a b * b"
  shows "(if m < 0 \<and> b > 0 \<or> m > 0 \<and> b < 0 then c_div a b - 1 else c_div a b) = a div b"
proof -
  have m: "m = sgn a * (\<bar>a\<bar> mod \<bar>b\<bar>)" using c_div_rem [of a b] by (simp add: m_def)
  have bound: "0 \<le> \<bar>a\<bar> mod \<bar>b\<bar>" "\<bar>a\<bar> mod \<bar>b\<bar> < \<bar>b\<bar>" using assms(1) by simp_all
  have abs_m: "\<bar>m\<bar> < \<bar>b\<bar>" using bound assms(1) by (simp add: m abs_mult sgn_if)
  have a: "a = b * c_div a b + m" "a = b * (c_div a b - 1) + (m + b)" by (simp_all add: m_def algebra_simps)
  show ?thesis
  proof (cases "b > 0")
    case True
    show ?thesis
    proof (cases "m < 0")
      case neg: True
      with True abs_m show ?thesis using int_div_pos_eq [OF a(2)] by simp
    next
      case False
      with True abs_m show ?thesis using int_div_pos_eq [OF a(1)] by simp
    qed
  next
    case False
    with assms(1) have b: "b < 0" by simp
    show ?thesis
    proof (cases "m > 0")
      case pos: True
      with b abs_m show ?thesis using int_div_neg_eq [OF a(2)] by simp
    next
      case False
      with b abs_m show ?thesis using int_div_neg_eq [OF a(1)] by simp
    qed
  qed
qed

lemma le_div_iff: "a \<le> m div b \<longleftrightarrow> a * b \<le> m" if "0 < (b :: int)"
proof
  assume "a \<le> m div b"
  then have "a * b \<le> m div b * b" using that by (simp add: mult_right_mono)
  also have "\<dots> \<le> m" using that div_mult_mod_eq [of m b] pos_mod_sign [of b m] by linarith
  finally show "a * b \<le> m" .
next
  assume "a * b \<le> m"
  with zdiv_mono1 [of "a * b" m b] that show "a \<le> m div b" by simp
qed

lemma c_div_MAX: "0 < b \<Longrightarrow> c_div FIXNUM_MAX b = FIXNUM_MAX div b"
  by (rule c_div_nonneg) (simp_all add: fixnum_range)

lemma c_div_MIN: "c_div FIXNUM_MIN b = - c_div FIXNUM_MAX b"
  by (simp add: FIXNUM_MIN_def c_div_minus)

section \<open>Sums, differences, products\<close>

lemma Fixnum_add_int: "is_int (Fixnum_add a b) (Fixnum_to_native a + Fixnum_to_native b)"
  using native_range [of a] native_range [of b]
    is_int_fixnum [of "Fixnum_to_native a + Fixnum_to_native b"] is_int_bignum [of "Fixnum_to_native a + Fixnum_to_native b"]
  by (auto simp: Fixnum_add_def Let_def Bignum_from_def)

lemma Fixnum_sub_int: "is_int (Fixnum_sub a b) (Fixnum_to_native a - Fixnum_to_native b)"
  using native_range [of a] native_range [of b]
    is_int_fixnum [of "Fixnum_to_native a - Fixnum_to_native b"] is_int_bignum [of "Fixnum_to_native a - Fixnum_to_native b"]
  by (auto simp: Fixnum_sub_def Let_def Bignum_from_def)

lemma Bignum_mul_fixnum_int [simp]: "is_int (Bignum_mul_fixnum a b) (a * Fixnum_to_native b)"
  using normalize_is_int [of "a * Fixnum_to_native b"]
  by (auto simp: Bignum_mul_fixnum_def Let_def)

lemma mul_check:
  assumes "a \<noteq> 0" and "b \<noteq> 0"
  shows "(if a > 0 then if b > 0 then a > c_div FIXNUM_MAX b else b < c_div FIXNUM_MIN a
          else if b > 0 then a < c_div FIXNUM_MIN b else b < c_div FIXNUM_MAX a)
     \<longleftrightarrow> a * b > FIXNUM_MAX \<or> a * b < FIXNUM_MIN"
proof -
  have pos: "a' > FIXNUM_MAX div b' \<longleftrightarrow> a' * b' > FIXNUM_MAX" if "0 < b'" for a' b' :: int
    using le_div_iff [OF that, of a' FIXNUM_MAX] by linarith
  have MAX: "0 \<le> FIXNUM_MAX" by (simp add: fixnum_range)
  consider "0 < a" "0 < b" | "0 < a" "b < 0" | "a < 0" "0 < b" | "a < 0" "b < 0" using assms by linarith
  then show ?thesis
  proof cases
    case 1
    then have "0 < a * b" by simp
    then have "\<not> a * b < - FIXNUM_MAX" using MAX by linarith
    with 1 pos [of b a] show ?thesis by (simp add: c_div_MAX FIXNUM_MIN_def)
  next
    case 2
    then have "a * b < 0" by (simp add: mult_pos_neg)
    with 2 pos [of a "- b"] MAX show ?thesis
      unfolding c_div_MIN by (simp add: c_div_MAX FIXNUM_MIN_def mult.commute) linarith
  next
    case 3
    then have "a * b < 0" by (simp add: mult_neg_pos)
    with 3 pos [of b "- a"] MAX show ?thesis
      unfolding c_div_MIN by (simp add: c_div_MAX FIXNUM_MIN_def) linarith
  next
    case 4
    then have "0 < a * b" by (simp add: mult_neg_neg)
    moreover have "c_div FIXNUM_MAX a = - (FIXNUM_MAX div (- a))"
      using c_div_minus(2) [of FIXNUM_MAX "- a"] 4 by (simp add: c_div_MAX)
    ultimately show ?thesis using 4 pos [of "- a" "- b"] MAX
      by (simp add: FIXNUM_MIN_def mult.commute) linarith
  qed
qed

lemma Fixnum_mul_int: "is_int (Fixnum_mul a b) (Fixnum_to_native a * Fixnum_to_native b)"
proof -
  define x y where "x = Fixnum_to_native a" and "y = Fixnum_to_native b"
  let ?big = "Bignum_mul_fixnum x b" and ?small = "Fixnum (Fixnum_from (native (x * y)))"
  have big: "is_int ?big (x * y)" using Bignum_mul_fixnum_int [of x b] by (simp add: y_def)
  have zero: "is_int (Fixnum (Fixnum_from 0)) 0" by (rule is_int_fixnum) (simp_all add: fixnum_range)
  have small: "is_int ?small (x * y)" if "\<not> (x * y > FIXNUM_MAX \<or> x * y < FIXNUM_MIN)"
    using that is_int_fixnum [of "x * y"] by (simp add: fixnum_range)
  have "Fixnum_mul a b =
      (if x = 0 \<or> y = 0 then Fixnum (Fixnum_from 0)
       else if (if x > 0 then if y > 0 then x > c_div FIXNUM_MAX y else y < c_div FIXNUM_MIN x
          else if y > 0 then x < c_div FIXNUM_MIN y else y < c_div FIXNUM_MAX x) then ?big else ?small)"
    by (simp add: Fixnum_mul_def Let_def x_def y_def Bignum_from_def)
  then show ?thesis
    using mul_check [of x y] big small zero unfolding x_def [symmetric] y_def [symmetric] by auto
qed

lemma Bignum_fixnum_int [simp]:
  "is_int (Bignum_add_fixnum a b) (a + Fixnum_to_native b)" "is_int (Bignum_sub_fixnum a b) (a - Fixnum_to_native b)"
  using normalize_is_int [of "a + Fixnum_to_native b"] normalize_is_int [of "a - Fixnum_to_native b"]
  by (auto simp: Bignum_add_fixnum_def Bignum_sub_fixnum_def Let_def)

lemma Fixnum_sub_bignum_int:
  assumes "normal (Bignum b)"
  shows "\<exists>z. Fixnum_sub_bignum a b = Inr z \<and> is_int z (Fixnum_to_native a - b)"
  using assms normalize_bignum [of "- b"] Bignum_fixnum_int(1) [of "- b" a]
  by (auto simp: Fixnum_sub_bignum_def Bignum_neg_def FIXNUM_MIN_def)

section \<open>Quotients and remainders\<close>

lemma zdiv_le_self: "a div b \<le> a" if "0 \<le> a" "0 \<le> b" for a b :: int
proof (cases "b = 0")
  case False
  with that have "a div b * 1 \<le> a div b * b" by (intro mult_left_mono) (simp_all add: pos_imp_zdiv_nonneg_iff)
  also have "\<dots> \<le> a" using le_div_iff [of b "a div b" a] that False by simp
  finally show ?thesis by simp
qed (use that in simp)

lemma c_div_bounds: "\<bar>c_div a b\<bar> \<le> \<bar>a\<bar>" "\<bar>c_div a b * b\<bar> \<le> \<bar>a\<bar>"
proof -
  have q: "\<bar>c_div a b\<bar> \<le> \<bar>a\<bar> div \<bar>b\<bar>"
    by (cases "b = 0") (auto simp: c_div_def abs_mult sgn_if pos_imp_zdiv_nonneg_iff)
  then show "\<bar>c_div a b\<bar> \<le> \<bar>a\<bar>" using zdiv_le_self [of "\<bar>a\<bar>" "\<bar>b\<bar>"] by simp
  have "\<bar>a\<bar> div \<bar>b\<bar> * \<bar>b\<bar> \<le> \<bar>a\<bar>"
    using le_div_iff [of "\<bar>b\<bar>" "\<bar>a\<bar> div \<bar>b\<bar>" "\<bar>a\<bar>"] by (cases "b = 0") auto
  with mult_right_mono [OF q, of "\<bar>b\<bar>"] show "\<bar>c_div a b * b\<bar> \<le> \<bar>a\<bar>" by (simp add: abs_mult)
qed

lemma div_abs_le: "b \<noteq> 0 \<Longrightarrow> \<bar>a div b\<bar> \<le> \<bar>a\<bar>" for a b :: int
proof -
  have pos: "\<bar>a div b\<bar> \<le> \<bar>a\<bar>" if "0 < b" for a b :: int
  proof (cases "0 \<le> a")
    case True
    with that show ?thesis by (simp add: pos_imp_zdiv_nonneg_iff zdiv_le_self)
  next
    case False
    with that have "a div b < 0" by (simp add: neg_imp_zdiv_neg_iff pos_imp_zdiv_neg_iff)
    moreover have "a \<le> a div b" using that False le_div_iff [of b a a] mult_left_mono_neg [of 1 b a] by simp
    ultimately show ?thesis by simp
  qed
  assume "b \<noteq> 0"
  with pos [of b a] pos [of "- b" "- a"] show ?thesis by (cases "0 < b") auto
qed

lemma Fixnum_quotient_floor:
  assumes n: "- (2 ^ 62) < n" "n < 2 ^ 62" and d: "- (2 ^ 62) < d" "d < 2 ^ 62" "d \<noteq> 0"
  shows "Fixnum_quotient n d = n div d"
proof -
  have "\<bar>c_div n d\<bar> < 2 ^ 62" "\<bar>c_div n d * d\<bar> < 2 ^ 62" using c_div_bounds [of n d] n by linarith+
  then have small: "native (n - native (c_div n d * d)) = n - c_div n d * d" "native (c_div n d - 1) = c_div n d - 1"
    "native (c_div n d) = c_div n d" "native (- c_div n d) = - c_div n d"
    using n by (simp_all add: abs_less_iff)
  have "(if d < 0 then if n < 0 then c_div (native (- n)) (native (- d)) else native (- c_div n (native (- d)))
       else if n < 0 then native (- c_div (native (- n)) d) else c_div n d) = c_div n d"
    using n d small by (simp add: c_div_minus)
  then show ?thesis
    unfolding Fixnum_quotient_def Let_def using floor_from_c_div [OF d(3), of n] small by (simp split: if_splits)
qed

lemma Fixnum_div_floor:
  assumes a: "fix_ok a" and b: "fix_ok b" and nz: "Fixnum_to_native b \<noteq> 0"
  shows "\<exists>q. Fixnum_div a b = Inr q \<and> is_int (Fixnum q) (Fixnum_to_native a div Fixnum_to_native b)"
proof -
  have "\<bar>Fixnum_to_native a div Fixnum_to_native b\<bar> \<le> FIXNUM_MAX"
    using div_abs_le [OF nz, of "Fixnum_to_native a"] a by (simp add: fix_ok_def FIXNUM_MIN_def) linarith
  then have "is_int (Fixnum (Fixnum_from (Fixnum_to_native a div Fixnum_to_native b))) (Fixnum_to_native a div Fixnum_to_native b)"
    by (intro is_int_fixnum) (simp_all add: FIXNUM_MIN_def abs_le_iff)
  then show ?thesis using nz fix_okD [OF a] fix_okD [OF b] by (simp add: Fixnum_div_def Fixnum_quotient_floor)
qed

end
