(* ===== verification/Vm_Integer_Run.thy ===== *)
theory Vm_Integer_Run
  imports Vm_Integer_Laws
begin

text \<open>
  The integer primitives as a program uses them: each is overloaded on the classes of its operands
  (\<open>Ruby.primitive! :fixnum_add\<close> and its relatives in \<open>fixnum.hpp\<close> and \<open>bignum.hpp\<close>), and results are operands
  of further operations. Here are the properties of sums, products, quotients, shifts and of the printed form.
\<close>

section \<open>Dispatch on the operands' classes\<close>

fun Integer_add :: "Integer \<Rightarrow> Integer \<Rightarrow> vm_error + Integer" where
  "Integer_add (Fixnum a) (Fixnum b) = Inr (Fixnum_add a b)"
| "Integer_add (Fixnum a) (Bignum b) = Inr (Fixnum_add_bignum a b)"
| "Integer_add (Bignum a) (Fixnum b) = Inr (Bignum_add_fixnum a b)"
| "Integer_add (Bignum a) (Bignum b) = Inr (Bignum_add a b)"

fun Integer_sub :: "Integer \<Rightarrow> Integer \<Rightarrow> vm_error + Integer" where
  "Integer_sub (Fixnum a) (Fixnum b) = Inr (Fixnum_sub a b)"
| "Integer_sub (Fixnum a) (Bignum b) = Fixnum_sub_bignum a b"
| "Integer_sub (Bignum a) (Fixnum b) = Inr (Bignum_sub_fixnum a b)"
| "Integer_sub (Bignum a) (Bignum b) = Inr (Bignum_sub a b)"

fun Integer_mul :: "Integer \<Rightarrow> Integer \<Rightarrow> vm_error + Integer" where
  "Integer_mul (Fixnum a) (Fixnum b) = Inr (Fixnum_mul a b)"
| "Integer_mul (Fixnum a) (Bignum b) = Inr (Fixnum_mul_bignum a b)"
| "Integer_mul (Bignum a) (Fixnum b) = Inr (Bignum_mul_fixnum a b)"
| "Integer_mul (Bignum a) (Bignum b) = Inr (Bignum_mul a b)"

fun Integer_neg :: "Integer \<Rightarrow> Integer" where
  "Integer_neg (Fixnum a) = Fixnum (Fixnum_neg a)"
| "Integer_neg (Bignum a) = Bignum_neg a"

fun Integer_div :: "Integer \<Rightarrow> Integer \<Rightarrow> vm_error + Integer" where
  "Integer_div (Fixnum a) (Fixnum b) = map_sum id Fixnum (Fixnum_div a b)"
| "Integer_div (Fixnum a) (Bignum b) = Fixnum_div_bignum a b"
| "Integer_div (Bignum a) (Fixnum b) = Bignum_div_fixnum a b"
| "Integer_div (Bignum a) (Bignum b) = Bignum_div a b"

fun Integer_mod :: "Integer \<Rightarrow> Integer \<Rightarrow> vm_error + Integer" where
  "Integer_mod (Fixnum a) (Fixnum b) = map_sum id Fixnum (Fixnum_mod a b)"
| "Integer_mod (Fixnum a) (Bignum b) = Fixnum_mod_bignum a b"
| "Integer_mod (Bignum a) (Fixnum b) = Bignum_mod_fixnum a b"
| "Integer_mod (Bignum a) (Bignum b) = Bignum_mod a b"

definition returns :: "vm_error + Integer \<Rightarrow> int \<Rightarrow> bool" where
  "returns r n \<longleftrightarrow> (case r of Inl _ \<Rightarrow> False | Inr i \<Rightarrow> is_int i n)"

lemma returns_Inr [simp]: "returns (Inr i) n \<longleftrightarrow> is_int i n"
  by (simp add: returns_def)

lemma returnsE: "returns r n \<Longrightarrow> (\<And>i. r = Inr i \<Longrightarrow> is_int i n \<Longrightarrow> P) \<Longrightarrow> P"
  by (cases r) (auto simp: returns_def)

section \<open>Sums, differences and products\<close>

lemma is_int_cases:
  assumes "is_int x n"
  obtains a where "x = Fixnum a" "fix_ok a" "n = Fixnum_to_native a"
        | "x = Bignum n" "normal (Bignum n)"
  using assms by (cases x) (auto simp: is_int_def)

lemma Fixnum_bignum_int [simp]:
  "is_int (Fixnum_add_bignum a b) (Fixnum_to_native a + b)" "is_int (Fixnum_mul_bignum a b) (Fixnum_to_native a * b)"
  using Bignum_fixnum_int(1) [of b a] Bignum_mul_fixnum_int [of b a]
  by (simp_all add: Fixnum_add_bignum_def Fixnum_mul_bignum_def add.commute mult.commute)

lemma Fixnum_sub_bignum_returns: "normal (Bignum b) \<Longrightarrow> returns (Fixnum_sub_bignum a b) (Fixnum_to_native a - b)"
  using Fixnum_sub_bignum_int [of b a] by auto

lemma Integer_add_int: "is_int x m \<Longrightarrow> is_int y n \<Longrightarrow> returns (Integer_add x y) (m + n)"
  by (erule is_int_cases; erule is_int_cases) (simp_all add: Fixnum_add_int Bignum_add_def)

lemma Integer_sub_int: "is_int x m \<Longrightarrow> is_int y n \<Longrightarrow> returns (Integer_sub x y) (m - n)"
  by (erule is_int_cases; erule is_int_cases) (simp_all add: Fixnum_sub_int Bignum_sub_def Fixnum_sub_bignum_returns)

lemma Integer_mul_int: "is_int x m \<Longrightarrow> is_int y n \<Longrightarrow> returns (Integer_mul x y) (m * n)"
  by (erule is_int_cases; erule is_int_cases) (simp_all add: Fixnum_mul_int Bignum_mul_def)

lemma Integer_neg_int: "is_int x m \<Longrightarrow> is_int (Integer_neg x) (- m)"
  using fix_okD by (auto elim!: is_int_cases simp: Fixnum_neg_def Bignum_neg_def)
    (subst native_id; force intro!: is_int_fixnum simp: fix_ok_def fixnum_range)

text \<open>A program of sums, differences, products and negations over machine integers.\<close>

datatype iexpr = Lit "64 word" | Add iexpr iexpr | Sub iexpr iexpr | Mul iexpr iexpr | Neg iexpr

fun ieval :: "iexpr \<Rightarrow> vm_error + Integer" where
  "ieval (Lit w) = Inr (Integer_from (sint w))"
| "ieval (Add a b) = (case ieval a of Inl e \<Rightarrow> Inl e | Inr x \<Rightarrow> case ieval b of Inl e \<Rightarrow> Inl e | Inr y \<Rightarrow> Integer_add x y)"
| "ieval (Sub a b) = (case ieval a of Inl e \<Rightarrow> Inl e | Inr x \<Rightarrow> case ieval b of Inl e \<Rightarrow> Inl e | Inr y \<Rightarrow> Integer_sub x y)"
| "ieval (Mul a b) = (case ieval a of Inl e \<Rightarrow> Inl e | Inr x \<Rightarrow> case ieval b of Inl e \<Rightarrow> Inl e | Inr y \<Rightarrow> Integer_mul x y)"
| "ieval (Neg a) = (case ieval a of Inl e \<Rightarrow> Inl e | Inr x \<Rightarrow> Inr (Integer_neg x))"

fun ivalue :: "iexpr \<Rightarrow> int" where
  "ivalue (Lit w) = sint w"
| "ivalue (Add a b) = ivalue a + ivalue b"
| "ivalue (Sub a b) = ivalue a - ivalue b"
| "ivalue (Mul a b) = ivalue a * ivalue b"
| "ivalue (Neg a) = - ivalue a"

lemma Integer_from_int: "is_int (Integer_from n) n"
  using is_int_fixnum [of n] is_int_bignum [of n]
  by (auto simp: Integer_from_def Bignum_from_def Fixnum_from_def)

text \<open>C2. Integer arithmetic is exact. Any expression of sums, differences, products and negations over machine
  integers, computed by the fixnum and bignum primitives that the classes of the intermediate results select,
  never fails and returns the integer it denotes, as a fixnum exactly when that integer lies between
  \<open>FIXNUM_MIN\<close> and \<open>FIXNUM_MAX\<close>: no intermediate result wraps around.\<close>

theorem integer_expressions_exact: "returns (ieval e) (ivalue e)"
proof (induction e)
  case (Add a b)
  from Add.IH obtain x y where "ieval a = Inr x" "is_int x (ivalue a)" "ieval b = Inr y" "is_int y (ivalue b)"
    by (auto elim!: returnsE)
  then show ?case by (simp add: Integer_add_int)
next
  case (Sub a b)
  from Sub.IH obtain x y where "ieval a = Inr x" "is_int x (ivalue a)" "ieval b = Inr y" "is_int y (ivalue b)"
    by (auto elim!: returnsE)
  then show ?case by (simp add: Integer_sub_int)
next
  case (Mul a b)
  from Mul.IH obtain x y where "ieval a = Inr x" "is_int x (ivalue a)" "ieval b = Inr y" "is_int y (ivalue b)"
    by (auto elim!: returnsE)
  then show ?case by (simp add: Integer_mul_int)
next
  case (Neg a)
  from Neg.IH obtain x where "ieval a = Inr x" "is_int x (ivalue a)" by (auto elim!: returnsE)
  then show ?case by (simp add: Integer_neg_int)
qed (simp add: Integer_from_int)

section \<open>Quotients and remainders\<close>

lemma mod_small:
  fixes m n :: int
  assumes "n \<noteq> 0" and "- (2 ^ 62) < n" and "n < 2 ^ 62"
  shows "- (2 ^ 62) < m mod n" and "m mod n < 2 ^ 62"
  using assms pos_mod_bound [of n m] pos_mod_sign [of n m] neg_mod_bound [of n m] neg_mod_sign [of n m]
  by linarith+

lemma Fixnum_mod_floor:
  assumes a: "fix_ok a" and b: "fix_ok b" and nz: "Fixnum_to_native b \<noteq> 0"
  shows "\<exists>r. Fixnum_mod a b = Inr r \<and> is_int (Fixnum r) (Fixnum_to_native a mod Fixnum_to_native b)"
proof -
  define m n where "m = Fixnum_to_native a" and "n = Fixnum_to_native b"
  obtain q where q: "Fixnum_div a b = Inr q" "Fixnum_to_native q = m div n"
    using Fixnum_div_floor [OF a b nz] by (auto simp: is_int_def m_def n_def)
  have mod: "m - n * (m div n) = m mod n" by (simp add: minus_mult_div_eq_mod)
  have small: "- (2 ^ 62) < m" "m < 2 ^ 62" "- (2 ^ 62) < n" "n < 2 ^ 62" using fix_okD [OF a] fix_okD [OF b] by (auto simp: m_def n_def)
  have r: "0 < n \<Longrightarrow> 0 \<le> m mod n \<and> m mod n < n" "n < 0 \<Longrightarrow> m mod n \<le> 0 \<and> n < m mod n" by simp_all
  have n0: "n \<noteq> 0" using nz by (simp add: n_def)
  have prod: "n * (m div n) = m - m mod n" by (simp add: minus_mod_eq_mult_div)
  note bounds = mod_small [OF n0 small(3,4), of m]
  from bounds have nat: "native (m - native (n * (m div n))) = m mod n" unfolding prod using small by simp
  have "\<not> (m mod n < 0 \<and> 0 < n \<or> 0 < m mod n \<and> n < 0)" using r by linarith
  with nat q have "Fixnum_mod a b = Inr (Fixnum_from (m mod n))"
    unfolding Fixnum_mod_def m_def [symmetric] n_def [symmetric] by (auto simp: Let_def)
  moreover have "is_int (Fixnum (Fixnum_from (m mod n))) (m mod n)"
    using bounds by (intro is_int_fixnum) (simp_all add: fixnum_range)
  ultimately show ?thesis by (simp add: m_def n_def)
qed

text \<open>The two tests of the bignum divisions for a quotient to be rounded down agree with the one of the fixnums,
  unless the quotient is cut to zero.\<close>

lemma bignum_floor:
  fixes a b :: int
  assumes "b \<noteq> 0" and "\<bar>b\<bar> \<le> \<bar>a\<bar>"
  shows "(if c_div a b < 0 \<and> a - c_div a b * b \<noteq> 0 then c_div a b - 1 else c_div a b) = a div b"
proof -
  define r where "r = \<bar>a\<bar> mod \<bar>b\<bar>"
  have m: "a - c_div a b * b = sgn a * r" using c_div_rem [of a b] by (simp add: r_def)
  have "0 < \<bar>a\<bar> div \<bar>b\<bar>" using assms by (simp add: pos_imp_zdiv_pos_iff)
  then have neg: "c_div a b < 0 \<longleftrightarrow> sgn a * sgn b < 0"
    by (auto simp: c_div_def sgn_if mult_less_0_iff)
  have "0 \<le> r" using assms by (simp add: r_def)
  then have "a - c_div a b * b < 0 \<and> 0 < b \<or> 0 < a - c_div a b * b \<and> b < 0
      \<longleftrightarrow> c_div a b < 0 \<and> a - c_div a b * b \<noteq> 0"
    unfolding neg m using assms by (auto simp: sgn_if)
  with floor_from_c_div [OF assms(1), of a] show ?thesis by simp
qed

lemma bignum_floor_mod:
  fixes a b :: int
  assumes "b \<noteq> 0" and "\<bar>b\<bar> \<le> \<bar>a\<bar>"
  shows "(if c_div a b < 0 \<and> a - c_div a b * b \<noteq> 0 then a - b * (c_div a b - 1) else a - c_div a b * b) = a mod b"
  using bignum_floor [OF assms] unfolding minus_mult_div_eq_mod [symmetric, of a b] by (auto simp: mult.commute)

lemma c_div_small: "\<bar>a\<bar> < \<bar>b\<bar> \<Longrightarrow> c_div a b = 0"
  by (simp add: c_div_def)

definition quotient_lost :: "Integer \<Rightarrow> Integer \<Rightarrow> bool" where
  "quotient_lost x y \<longleftrightarrow> (case y of Fixnum _ \<Rightarrow> False | Bignum b \<Rightarrow> \<bar>int_of x\<bar> < \<bar>b\<bar>)"

lemma Bignum_divide_int:
  assumes "b \<noteq> 0"
  shows "\<exists>q r. Bignum_divide a b = Inr (q, r) \<and> is_int q (if \<bar>a\<bar> < \<bar>b\<bar> then 0 else a div b)
    \<and> is_int r (if \<bar>a\<bar> < \<bar>b\<bar> then a else a mod b)"
proof (cases "\<bar>a\<bar> < \<bar>b\<bar>")
  case True
  with assms show ?thesis by (simp add: Bignum_divide_def mp_div_def c_div_small)
next
  case False
  then have le: "\<bar>b\<bar> \<le> \<bar>a\<bar>" by simp
  note floor = bignum_floor [OF assms le] bignum_floor_mod [OF assms le]
  show ?thesis
  proof (cases "c_div a b < 0 \<and> a - c_div a b * b \<noteq> 0")
    case True
    with floor have "c_div a b - 1 = a div b" "a - b * (c_div a b - 1) = a mod b" by simp_all
    with assms False True show ?thesis by (auto simp: Bignum_divide_def mp_div_def Let_def)
  next
    case False': False
    with floor have "c_div a b = a div b" "a - c_div a b * b = a mod b" by (simp_all split: if_splits)
    with assms False False' show ?thesis by (auto simp: Bignum_divide_def mp_div_def Let_def)
  qed
qed

lemma Bignum_divide_fixnum_int:
  assumes nz: "Fixnum_to_native b \<noteq> 0" and b: "fix_ok b" and a: "normal (Bignum a)"
  shows "\<exists>q r. Bignum_divide_fixnum a b = Inr (q, r) \<and> is_int q (a div Fixnum_to_native b)
    \<and> is_int r (a mod Fixnum_to_native b)"
proof -
  define n where "n = Fixnum_to_native b"
  have n: "n \<noteq> 0" "- (2 ^ 62) < n" "n < 2 ^ 62" using nz fix_okD [OF b] by (simp_all add: n_def)
  have le: "\<bar>n\<bar> \<le> \<bar>a\<bar>" using n a by (auto simp: fixnum_range)
  have q: "(if n < 0 then - c_div a (- n) else c_div a n) = c_div a n" by (simp add: c_div_minus)
  have m: "a - c_div a n * n = sgn a * (\<bar>a\<bar> mod \<bar>n\<bar>)" using c_div_rem [of a n] by simp
  have r: "0 \<le> \<bar>a\<bar> mod \<bar>n\<bar>" "\<bar>a\<bar> mod \<bar>n\<bar> < 2 ^ 62" "\<bar>a\<bar> mod \<bar>n\<bar> < \<bar>n\<bar>"
    using n pos_mod_bound [of "\<bar>n\<bar>" "\<bar>a\<bar>"] by (simp, linarith, simp)
  have a0: "a \<noteq> 0" using a by (auto simp: fixnum_range)
  have nz': "\<bar>a\<bar> mod \<bar>n\<bar> \<noteq> 0 \<longleftrightarrow> a - c_div a n * n \<noteq> 0" unfolding m using a0 by (auto simp: sgn_if)
  let ?rem = "if a < 0 then Fixnum_from (- (\<bar>a\<bar> mod \<bar>n\<bar>)) else Fixnum_from (\<bar>a\<bar> mod \<bar>n\<bar>)"
  have rem: "Fixnum_to_native ?rem = a - c_div a n * n"
    unfolding m using a0 r by (auto simp: sgn_if)
  have small: "is_int (Fixnum (Fixnum_from (a mod n))) (a mod n)"
    using mod_small [OF n, of a] by (intro is_int_fixnum) (simp_all add: fixnum_range)
  show ?thesis
  proof (cases "c_div a n < 0 \<and> a - c_div a n * n \<noteq> 0")
    case True
    then have "a - c_div a n * n + n = a mod n" "c_div a n - 1 = a div n"
      using bignum_floor [OF n(1) le] bignum_floor_mod [OF n(1) le] by (simp_all add: algebra_simps)
    with True show ?thesis unfolding Bignum_divide_fixnum_def n_def [symmetric] Let_def q rem nz'
      using n(1) small normalize_is_int [of "a div n"] by simp
  next
    case False
    then have m': "a - c_div a n * n = a mod n" and q': "c_div a n = a div n"
      using bignum_floor [OF n(1) le] bignum_floor_mod [OF n(1) le] by (simp_all split: if_splits)
    have "is_int (Fixnum ?rem) (a mod n)"
    proof -
      have "Fixnum_to_native ?rem = a mod n" using rem m' by simp
      moreover have "FIXNUM_P ?rem" by (simp add: Fixnum_from_def apply_fixnum_fixnum)
      ultimately show ?thesis using small by (simp add: is_int_def fix_ok_def)
    qed
    with False show ?thesis unfolding Bignum_divide_fixnum_def n_def [symmetric] Let_def q nz'
      using n(1) q' normalize_is_int [of "a div n"] by auto
  qed
qed

text \<open>C21. Division of integers rounds down, and the remainder has the sign of the divisor, for all four combinations
  of fixnum and bignum operands; a zero divisor raises \<open>ZeroDivisionError\<close>. The one exception is a bignum
  divisor larger in magnitude than the dividend: then the code always answers quotient 0 and the dividend as
  remainder, also when the signs differ and the quotient is -1.\<close>

theorem integer_division:
  assumes "is_int x m" and "is_int y n"
  shows "(n = 0 \<longrightarrow> Integer_div x y = Inl ZeroDivision \<and> Integer_mod x y = Inl ZeroDivision)
    \<and> (n \<noteq> 0 \<longrightarrow> returns (Integer_div x y) (if quotient_lost x y then 0 else m div n)
               \<and> returns (Integer_mod x y) (if quotient_lost x y then m else m mod n))"
proof (rule is_int_cases [OF assms(2)])
  fix b assume y: "y = Fixnum b" "fix_ok b" "n = Fixnum_to_native b"
  show ?thesis
  proof (rule is_int_cases [OF assms(1)])
    fix a assume x: "x = Fixnum a" "fix_ok a" "m = Fixnum_to_native a"
    show ?thesis
      using Fixnum_div_floor [OF x(2) y(2)] Fixnum_mod_floor [OF x(2) y(2)]
      by (auto simp: x y quotient_lost_def Fixnum_div_def Fixnum_mod_def)
  next
    assume x: "x = Bignum m" "normal (Bignum m)"
    show ?thesis
      using Bignum_divide_fixnum_int [OF _ y(2) x(2)]
      by (auto simp: x y quotient_lost_def Bignum_div_fixnum_def Bignum_mod_fixnum_def Bignum_divide_fixnum_def)
  qed
next
  assume y: "y = Bignum n" "normal (Bignum n)"
  then have n: "n \<noteq> 0" by (auto simp: fixnum_range)
  have "int_of x = m" using assms(1) by (simp add: is_int_def)
  then show ?thesis
    using n y Bignum_divide_int [OF n, of m]
    by (cases x) (auto simp: quotient_lost_def Fixnum_div_bignum_def Fixnum_mod_bignum_def
        Bignum_div_def Bignum_mod_def Bignum_from_def)
qed

definition five :: Integer where "five = Fixnum (Fixnum_from 5)"

lemma five_int: "is_int five 5"
  unfolding five_def by (rule is_int_fixnum) (simp_all add: fixnum_range)

theorem integer_division_witness:
  "returns (Integer_div five (Bignum (- (2 ^ 70)))) 0 \<and> (5 :: int) div (- (2 ^ 70)) = - 1
   \<and> returns (Integer_mod (Bignum (- (2 ^ 70))) five) 1"
proof -
  have big: "is_int (Bignum (- (2 ^ 70))) (- (2 ^ 70))" by (rule is_int_bignum) (simp add: fixnum_range)
  have "quotient_lost five (Bignum (- (2 ^ 70)))" using five_int by (simp add: quotient_lost_def is_int_def)
  with integer_division [OF five_int big] integer_division [OF big five_int] show ?thesis
    by (simp add: quotient_lost_def five_def)
qed

end
