(* ===== verification/Vm_Compare.thy ===== *)
theory Vm_Compare
  imports Vm_Integer_Run
begin

text \<open>
  The comparisons of \<open>Fixnum\<close> and \<open>Bignum\<close> (\<open>vm/builtin/fixnum.cpp\<close>, \<open>bignum.cpp\<close>), whose results are the
  Ruby values true and false or the fixnums -1, 0 and 1. \<open>mp_cmp\<close> compares two numbers of libtommath,
  \<open>mp_cmp_d\<close> one with a digit; a negative fixnum is compared, negated, with a negated copy of the bignum.
\<close>

datatype mp_order = MP_LT | MP_EQ | MP_GT

definition mp_cmp :: "int \<Rightarrow> int \<Rightarrow> mp_order" where
  "mp_cmp a b = (if a < b then MP_LT else if a = b then MP_EQ else MP_GT)"

definition mp_cmp_d :: "int \<Rightarrow> int \<Rightarrow> mp_order" where "mp_cmp_d a d = mp_cmp a d"

definition Bignum_equal_fixnum :: "int \<Rightarrow> oop \<Rightarrow> oop" where
  "Bignum_equal_fixnum a b =
     (let bi = Fixnum_to_native b; r = (if bi < 0 then mp_cmp_d (- a) (- bi) else mp_cmp_d a bi)
      in if r = MP_EQ then Qtrue else Qfalse)"

definition Bignum_equal :: "int \<Rightarrow> int \<Rightarrow> oop" where
  "Bignum_equal a b = (if mp_cmp a b = MP_EQ then Qtrue else Qfalse)"

definition Bignum_compare_fixnum :: "int \<Rightarrow> oop \<Rightarrow> oop" where
  "Bignum_compare_fixnum a b =
     (let bi = Fixnum_to_native b
      in if bi < 0
         then (case mp_cmp_d (- a) (- bi) of MP_LT \<Rightarrow> Fixnum_from 1 | MP_GT \<Rightarrow> Fixnum_from (- 1) | MP_EQ \<Rightarrow> Fixnum_from 0)
         else (case mp_cmp_d a bi of MP_LT \<Rightarrow> Fixnum_from (- 1) | MP_GT \<Rightarrow> Fixnum_from 1 | MP_EQ \<Rightarrow> Fixnum_from 0))"

definition Bignum_compare :: "int \<Rightarrow> int \<Rightarrow> oop" where
  "Bignum_compare a b =
     (case mp_cmp a b of MP_LT \<Rightarrow> Fixnum_from (- 1) | MP_GT \<Rightarrow> Fixnum_from 1 | MP_EQ \<Rightarrow> Fixnum_from 0)"

definition Bignum_gt_fixnum :: "int \<Rightarrow> oop \<Rightarrow> oop" where
  "Bignum_gt_fixnum a b =
     (let bi = Fixnum_to_native b
      in if bi < 0 then (if mp_cmp_d (- a) (- bi) = MP_LT then Qtrue else Qfalse)
         else (if mp_cmp_d a bi = MP_GT then Qtrue else Qfalse))"

definition Bignum_gt :: "int \<Rightarrow> int \<Rightarrow> oop" where
  "Bignum_gt a b = (if mp_cmp a b = MP_GT then Qtrue else Qfalse)"

definition Bignum_ge_fixnum :: "int \<Rightarrow> oop \<Rightarrow> oop" where
  "Bignum_ge_fixnum a b =
     (let bi = Fixnum_to_native b
      in if bi < 0 then (let r = mp_cmp_d (- a) (- bi) in if r = MP_EQ \<or> r = MP_LT then Qtrue else Qfalse)
         else (let r = mp_cmp_d a bi in if r = MP_EQ \<or> r = MP_GT then Qtrue else Qfalse))"

definition Bignum_ge :: "int \<Rightarrow> int \<Rightarrow> oop" where
  "Bignum_ge a b = (let r = mp_cmp a b in if r = MP_GT \<or> r = MP_EQ then Qtrue else Qfalse)"

definition Bignum_lt_fixnum :: "int \<Rightarrow> oop \<Rightarrow> oop" where
  "Bignum_lt_fixnum a b =
     (let bi = Fixnum_to_native b
      in if bi < 0 then (if mp_cmp_d (- a) (- bi) = MP_GT then Qtrue else Qfalse)
         else (if mp_cmp_d a bi = MP_LT then Qtrue else Qfalse))"

definition Bignum_lt :: "int \<Rightarrow> int \<Rightarrow> oop" where
  "Bignum_lt a b = (if mp_cmp a b = MP_LT then Qtrue else Qfalse)"

definition Bignum_le_fixnum :: "int \<Rightarrow> oop \<Rightarrow> oop" where
  "Bignum_le_fixnum a b =
     (let bi = Fixnum_to_native b
      in if bi < 0 then (let r = mp_cmp_d (- a) (- bi) in if r = MP_EQ \<or> r = MP_GT then Qtrue else Qfalse)
         else (let r = mp_cmp_d a bi in if r = MP_EQ \<or> r = MP_LT then Qtrue else Qfalse))"

definition Bignum_le :: "int \<Rightarrow> int \<Rightarrow> oop" where
  "Bignum_le a b = (let r = mp_cmp a b in if r = MP_LT \<or> r = MP_EQ then Qtrue else Qfalse)"

definition Fixnum_equal_bignum :: "oop \<Rightarrow> int \<Rightarrow> oop" where "Fixnum_equal_bignum a b = Bignum_equal_fixnum b a"

definition Fixnum_compare_bignum :: "oop \<Rightarrow> int \<Rightarrow> oop" where
  "Fixnum_compare_bignum a b =
     (let res = Fixnum_to_native (Bignum_compare_fixnum b a)
      in if res = 0 then Fixnum_from 0 else if res < 0 then Fixnum_from 1 else Fixnum_from (- 1))"

definition Fixnum_gt_bignum :: "oop \<Rightarrow> int \<Rightarrow> oop" where "Fixnum_gt_bignum a b = Bignum_lt_fixnum b a"
definition Fixnum_ge_bignum :: "oop \<Rightarrow> int \<Rightarrow> oop" where "Fixnum_ge_bignum a b = Bignum_le_fixnum b a"
definition Fixnum_lt_bignum :: "oop \<Rightarrow> int \<Rightarrow> oop" where "Fixnum_lt_bignum a b = Bignum_gt_fixnum b a"
definition Fixnum_le_bignum :: "oop \<Rightarrow> int \<Rightarrow> oop" where "Fixnum_le_bignum a b = Bignum_ge_fixnum b a"

section \<open>Dispatch\<close>

fun on_classes :: "(oop \<Rightarrow> oop \<Rightarrow> 'r) \<Rightarrow> (oop \<Rightarrow> int \<Rightarrow> 'r) \<Rightarrow> (int \<Rightarrow> oop \<Rightarrow> 'r) \<Rightarrow> (int \<Rightarrow> int \<Rightarrow> 'r) \<Rightarrow> Integer \<Rightarrow> Integer \<Rightarrow> 'r" where
  "on_classes ff fb bf bb (Fixnum a) (Fixnum b) = ff a b"
| "on_classes ff fb bf bb (Fixnum a) (Bignum b) = fb a b"
| "on_classes ff fb bf bb (Bignum a) (Fixnum b) = bf a b"
| "on_classes ff fb bf bb (Bignum a) (Bignum b) = bb a b"

definition Integer_equal :: "Integer \<Rightarrow> Integer \<Rightarrow> oop" where
  "Integer_equal = on_classes Fixnum_equal Fixnum_equal_bignum Bignum_equal_fixnum Bignum_equal"
definition Integer_compare :: "Integer \<Rightarrow> Integer \<Rightarrow> oop" where
  "Integer_compare = on_classes Fixnum_compare Fixnum_compare_bignum Bignum_compare_fixnum Bignum_compare"
definition Integer_gt :: "Integer \<Rightarrow> Integer \<Rightarrow> oop" where
  "Integer_gt = on_classes Fixnum_gt Fixnum_gt_bignum Bignum_gt_fixnum Bignum_gt"
definition Integer_ge :: "Integer \<Rightarrow> Integer \<Rightarrow> oop" where
  "Integer_ge = on_classes Fixnum_ge Fixnum_ge_bignum Bignum_ge_fixnum Bignum_ge"
definition Integer_lt :: "Integer \<Rightarrow> Integer \<Rightarrow> oop" where
  "Integer_lt = on_classes Fixnum_lt Fixnum_lt_bignum Bignum_lt_fixnum Bignum_lt"
definition Integer_le :: "Integer \<Rightarrow> Integer \<Rightarrow> oop" where
  "Integer_le = on_classes Fixnum_le Fixnum_le_bignum Bignum_le_fixnum Bignum_le"

lemmas comparison_defs =
  Integer_equal_def Integer_compare_def Integer_gt_def Integer_ge_def Integer_lt_def Integer_le_def
  Fixnum_equal_def Fixnum_compare_def Fixnum_gt_def Fixnum_ge_def Fixnum_lt_def Fixnum_le_def
  Fixnum_equal_bignum_def Fixnum_compare_bignum_def Fixnum_gt_bignum_def Fixnum_ge_bignum_def Fixnum_lt_bignum_def Fixnum_le_bignum_def
  Bignum_equal_fixnum_def Bignum_compare_fixnum_def Bignum_gt_fixnum_def Bignum_ge_fixnum_def Bignum_lt_fixnum_def Bignum_le_fixnum_def
  Bignum_equal_def Bignum_compare_def Bignum_gt_def Bignum_ge_def Bignum_lt_def Bignum_le_def
  mp_cmp_d_def mp_cmp_def Let_def

definition ruby_bool :: "bool \<Rightarrow> oop" where "ruby_bool b = (if b then Qtrue else Qfalse)"

lemma compare_value: "Integer_compare x y = Fixnum_from (sgn (int_of x - int_of y))"
  by (cases x; cases y) (simp_all add: comparison_defs)

lemma comparison_values:
  "Integer_equal x y = ruby_bool (int_of x = int_of y)" "Integer_lt x y = ruby_bool (int_of x < int_of y)"
  "Integer_le x y = ruby_bool (int_of x \<le> int_of y)" "Integer_gt x y = ruby_bool (int_of y < int_of x)"
  "Integer_ge x y = ruby_bool (int_of y \<le> int_of x)"
  by (cases x; cases y; auto simp: comparison_defs ruby_bool_def)+

lemma ruby_bool_RTEST: "RTEST (ruby_bool b) = b"
  by (simp add: ruby_bool_def RTEST_mod Qtrue_def Qfalse_def)

text \<open>Integers are compared by value: for fixnum and bignum operands in any combination, the five predicates
  answer true exactly when the relation holds of the integers denoted, the test \<open>RTEST\<close> of a conditional reads
  that answer back, and \<open><=>\<close> is the fixnum -1, 0 or 1, the sign of their difference.\<close>

theorem integer_comparisons:
  "RTEST (Integer_equal x y) = (int_of x = int_of y) \<and> RTEST (Integer_lt x y) = (int_of x < int_of y)
   \<and> RTEST (Integer_le x y) = (int_of x \<le> int_of y) \<and> RTEST (Integer_gt x y) = (int_of x > int_of y)
   \<and> RTEST (Integer_ge x y) = (int_of x \<ge> int_of y)
   \<and> fix_ok (Integer_compare x y) \<and> Fixnum_to_native (Integer_compare x y) = sgn (int_of x - int_of y)"
  using fix_ok_from [of "sgn (int_of x - int_of y)"]
  by (simp add: compare_value comparison_values ruby_bool_RTEST fixnum_range sgn_if)

text \<open>C39. Every word is of at most one of the kinds fixnum, symbol and object reference, and the four literals
  true, false, nil and undef are of none. A number that fits in 63 bits and a symbol index that fits in 61 are
  read back from their tagged words, and \<open>RTEST\<close> is false of nil and false and of no other value.\<close>

theorem oop_kinds:
  "\<not> (FIXNUM_P v \<and> SYMBOL_P v) \<and> \<not> (FIXNUM_P v \<and> REFERENCE_P v) \<and> \<not> (SYMBOL_P v \<and> REFERENCE_P v)
   \<and> (v \<in> {Qtrue, Qfalse, Qnil, Qundef} \<longrightarrow> \<not> FIXNUM_P v \<and> \<not> SYMBOL_P v \<and> \<not> REFERENCE_P v)
   \<and> (FIXNUM_P v \<or> SYMBOL_P v \<or> REFERENCE_P v \<or> v \<in> {Qtrue, Qfalse, Qnil, Qundef} \<longrightarrow> RTEST v = (v \<noteq> Qnil \<and> v \<noteq> Qfalse))
   \<and> FIXNUM_P (APPLY_FIXNUM_TAG n) \<and> (- (2 ^ 62) \<le> n \<and> n < 2 ^ 62 \<longrightarrow> STRIP_FIXNUM_TAG (APPLY_FIXNUM_TAG n) = n)
   \<and> SYMBOL_P (APPLY_SYMBOL_TAG n) \<and> (- (2 ^ 60) \<le> n \<and> n < 2 ^ 60 \<longrightarrow> STRIP_SYMBOL_TAG (APPLY_SYMBOL_TAG n) = n)"
proof -
  have excl: "\<not> (FIXNUM_P v \<and> SYMBOL_P v)" "\<not> (FIXNUM_P v \<and> REFERENCE_P v)" "\<not> (SYMBOL_P v \<and> REFERENCE_P v)"
    unfolding tag_mods by presburger+
  have lits: "v \<in> {Qtrue, Qfalse, Qnil, Qundef} \<longrightarrow> \<not> FIXNUM_P v \<and> \<not> SYMBOL_P v \<and> \<not> REFERENCE_P v \<and> RTEST v = (v \<noteq> Qnil \<and> v \<noteq> Qfalse)"
    by (auto simp: tag_mods Qtrue_def Qfalse_def Qnil_def Qundef_def)
  have refs: "RTEST v \<and> v \<noteq> Qnil \<and> v \<noteq> Qfalse" if "FIXNUM_P v \<or> SYMBOL_P v \<or> REFERENCE_P v"
  proof -
    have "RTEST v" using that unfolding tag_mods by presburger
    moreover have "v \<noteq> Qnil \<and> v \<noteq> Qfalse" using that lits by blast
    ultimately show ?thesis by simp
  qed
  have num: "- (2 ^ 62) \<le> n \<and> n < 2 ^ 62 \<longrightarrow> STRIP_FIXNUM_TAG (APPLY_FIXNUM_TAG n) = n"
    unfolding strip_apply_fixnum by (simp add: signed_take_bit_int_eq_self)
  have sym: "- (2 ^ 60) \<le> n \<and> n < 2 ^ 60 \<longrightarrow> STRIP_SYMBOL_TAG (APPLY_SYMBOL_TAG n) = n"
    unfolding strip_apply_symbol by (simp add: signed_take_bit_int_eq_self)
  show ?thesis using excl lits refs num sym apply_fixnum_fixnum [of n] apply_symbol_symbol [of n] by blast
qed

theorem oop_kinds_witness: "\<not> RTEST Qnil \<and> STRIP_FIXNUM_TAG (APPLY_FIXNUM_TAG (- 3)) = - 3"
proof -
  have "- (2 ^ 62) \<le> (- 3 :: int) \<and> (- 3 :: int) < 2 ^ 62" by simp
  with oop_kinds [of Qnil "- 3"] show ?thesis by blast
qed

end
