(* ===== verification/Vm_Integer_Bits.thy ===== *)
theory Vm_Integer_Bits
  imports Vm_Integer_Laws
begin

text \<open>
  The shifts and bit operations of \<open>Fixnum\<close> and \<open>Bignum\<close> and the printed form of a fixnum.
\<close>

section \<open>Bit operations\<close>

lemma signed_bit_ops:
  "signed_take_bit n (x AND y) = signed_take_bit n x AND signed_take_bit n y"
  "signed_take_bit n (x OR y) = signed_take_bit n x OR signed_take_bit n y"
  "signed_take_bit n (x XOR y) = signed_take_bit n x XOR signed_take_bit n y" for x y :: int
  by (rule bit_eqI, simp add: bit_simps)+

lemma bit_ops_range:
  fixes x y :: int
  assumes "- (2 ^ 62) \<le> x" "x < 2 ^ 62" "- (2 ^ 62) \<le> y" "y < 2 ^ 62"
  shows "- (2 ^ 62) \<le> x AND y \<and> x AND y < 2 ^ 62" "- (2 ^ 62) \<le> x OR y \<and> x OR y < 2 ^ 62"
    "- (2 ^ 62) \<le> x XOR y \<and> x XOR y < 2 ^ 62" "- (2 ^ 62) \<le> NOT x \<and> NOT x < 2 ^ 62"
proof -
  have *: "- (2 ^ 62) \<le> z \<and> z < 2 ^ 62 \<longleftrightarrow> signed_take_bit 62 z = z" for z :: int
    by (auto simp: signed_take_bit_int_eq_self_iff)
  from assms * [of x] * [of y] have "signed_take_bit 62 x = x" "signed_take_bit 62 y = y" by auto
  then show "- (2 ^ 62) \<le> x AND y \<and> x AND y < 2 ^ 62" "- (2 ^ 62) \<le> x OR y \<and> x OR y < 2 ^ 62"
    "- (2 ^ 62) \<le> x XOR y \<and> x XOR y < 2 ^ 62"
    unfolding * signed_bit_ops by simp_all
  show "- (2 ^ 62) \<le> NOT x \<and> NOT x < 2 ^ 62" using assms by (simp add: not_int_def)
qed

lemma FIXNUM_P_from [simp]: "FIXNUM_P (Fixnum_from n)"
  by (simp add: Fixnum_from_def apply_fixnum_fixnum)

text \<open>And, or, exclusive or and complement of fixnums are those of the integers, without any loss: every
  operation is applied to the tagged words' values, which have 63 bits, and returns a tagged word whose value is
  the exact result.\<close>

theorem fixnum_bitwise_exact:
  "FIXNUM_P (Fixnum_bit_and a b) \<and> Fixnum_to_native (Fixnum_bit_and a b) = Fixnum_to_native a AND Fixnum_to_native b
   \<and> FIXNUM_P (Fixnum_bit_or a b) \<and> Fixnum_to_native (Fixnum_bit_or a b) = Fixnum_to_native a OR Fixnum_to_native b
   \<and> FIXNUM_P (Fixnum_bit_xor a b) \<and> Fixnum_to_native (Fixnum_bit_xor a b) = Fixnum_to_native a XOR Fixnum_to_native b
   \<and> FIXNUM_P (Fixnum_invert a) \<and> Fixnum_to_native (Fixnum_invert a) = - Fixnum_to_native a - 1"
  using bit_ops_range [of "Fixnum_to_native a" "Fixnum_to_native b"] native_range [of a] native_range [of b]
  by (simp add: Fixnum_bit_and_def Fixnum_bit_or_def Fixnum_bit_xor_def Fixnum_invert_def not_int_def)

section \<open>Shifts\<close>

lemma Fixnum_shift_nonneg:
  "0 \<le> Fixnum_to_native bits \<Longrightarrow> Fixnum_left_shift a bits = Fixnum_left_shift_by (Fixnum_to_native a) (Fixnum_to_native bits)"
  "0 \<le> Fixnum_to_native bits \<Longrightarrow> Fixnum_right_shift a bits = Some (Fixnum_right_shift_by (Fixnum_to_native a) (Fixnum_to_native bits))"
  by (simp_all add: Fixnum_left_shift_def Fixnum_right_shift_def Fixnum_shift.simps [of _ a bits] Let_def)

lemma Fixnum_shift_neg:
  assumes "Fixnum_to_native bits < 0"
  shows "Fixnum_left_shift a bits = Fixnum_right_shift a (Fixnum_neg bits)"
    and "Fixnum_right_shift a bits = Fixnum_left_shift a (Fixnum_neg bits)"
  using assms
  by (simp_all add: Fixnum_left_shift_def Fixnum_right_shift_def Fixnum_shift.simps [of _ a bits] Let_def Fixnum_neg_def)

lemma Bignum_left_shift_count:
  "0 \<le> Fixnum_to_native bits \<Longrightarrow> Fixnum_to_native bits < 2 ^ 31 \<Longrightarrow>
   Bignum_left_shift a bits = Some (Bignum_left_shift_by a (nat (Fixnum_to_native bits)))"
  "0 \<le> Fixnum_to_native bits \<Longrightarrow> Fixnum_to_native bits < 2 ^ 31 \<Longrightarrow>
   Bignum_right_shift a bits = Some (Bignum_right_shift_by a (nat (Fixnum_to_native bits)))"
  by (simp_all add: Bignum_left_shift_def Bignum_right_shift_def Bignum_shift.simps [of _ a bits] Let_def)

lemma left_shift_fits:
  assumes "s < 62" and "drop_bit (62 - s) x \<le> (0 :: int)" and "0 \<le> x"
  shows "x * 2 ^ s < 2 ^ 62"
proof -
  have "x div 2 ^ (62 - s) \<le> 0" using assms(2) by (simp add: drop_bit_eq_div)
  then have "x < 2 ^ (62 - s)" using assms(3) le_div_iff [of "2 ^ (62 - s)" 1 x] by simp
  then have "x * 2 ^ s < 2 ^ (62 - s) * 2 ^ s" by simp
  also have "\<dots> = 2 ^ 62" using assms(1) by (simp add: power_add [symmetric])
  finally show ?thesis .
qed

lemma Fixnum_left_shift_by_int:
  assumes s: "0 \<le> s" "s < 2 ^ 31" and x: "- (2 ^ 62) \<le> x" "x < 2 ^ 62"
  shows "\<exists>r. Fixnum_left_shift_by x s = Some r
    \<and> (0 \<le> x \<or> 62 \<le> s \<longrightarrow> is_int r (x * 2 ^ nat s))
    \<and> (x < 0 \<and> s < 62 \<longrightarrow> int_of r = signed_take_bit 62 (x * 2 ^ nat s))"
proof -
  have big: "Bignum_left_shift (Bignum_from x) (Fixnum_from s) = Some (Bignum_normalize (x * 2 ^ nat s))"
    using s by (simp add: Bignum_left_shift_count Bignum_left_shift_by_def mp_mul_2d_def Bignum_from_def)
  have W: "int FIXNUM_WIDTH = 62" "FIXNUM_WIDTH = 62" by (simp_all add: FIXNUM_WIDTH_def)
  have neg: "\<not> drop_bit k x > 0" if "x < 0" for k
    using that div_neg_pos_less0 [of x "2 ^ k"] by (simp add: drop_bit_eq_div)
  show ?thesis
  proof (cases "62 \<le> s \<or> drop_bit (62 - nat s) x > 0")
    case True
    with neg have "\<not> (x < 0 \<and> s < 62)" by auto
    with True big show ?thesis by (auto simp: Fixnum_left_shift_by_def W)
  next
    case False
    then have eq: "Fixnum_left_shift_by x s = Some (Fixnum (Fixnum_from (native (x * 2 ^ nat s))))"
      by (simp add: Fixnum_left_shift_by_def W push_bit_eq_mult)
    have "is_int (Fixnum (Fixnum_from (native (x * 2 ^ nat s)))) (x * 2 ^ nat s)" if "0 \<le> x"
    proof -
      have "nat s < 62" using False s by linarith
      then have "x * 2 ^ nat s < 2 ^ 62" using left_shift_fits [of "nat s" x] False that s by simp
      moreover have "0 \<le> x * 2 ^ nat s" using that by simp
      ultimately show ?thesis using is_int_fixnum [of "x * 2 ^ nat s"] by (simp add: fixnum_range)
    qed
    moreover have "int_of (Fixnum (Fixnum_from (native v))) = signed_take_bit 62 v" for v
      by (simp add: Fixnum_from_def Fixnum_to_native_def strip_apply_fixnum native_def)
    ultimately show ?thesis using eq False by auto
  qed
qed

lemma Fixnum_right_shift_by_int:
  assumes s: "0 \<le> s" and x: "FIXNUM_MIN \<le> x" "x \<le> FIXNUM_MAX"
  shows "is_int (Fixnum_right_shift_by x s) (if 63 \<le> s then 0 else x div 2 ^ nat s)"
proof -
  have "\<bar>x div 2 ^ nat s\<bar> \<le> \<bar>x\<bar>" by (rule div_abs_le) simp
  then have "FIXNUM_MIN \<le> x div 2 ^ nat s \<and> x div 2 ^ nat s \<le> FIXNUM_MAX"
    using x by (auto simp: FIXNUM_MIN_def abs_le_iff)
  moreover have "FIXNUM_MIN \<le> 0 \<and> 0 \<le> FIXNUM_MAX" by (simp add: fixnum_range)
  ultimately show ?thesis
    using is_int_fixnum [of "x div 2 ^ nat s"] is_int_fixnum [of 0]
    by (auto simp: Fixnum_right_shift_by_def drop_bit_eq_div)
qed

text \<open>Shifting a fixnum. A right shift by less than 63 places is the division by the power of two, rounded
  down; by 63 or more it gives 0 (also for negative numbers, where Ruby's answer is -1). A left shift is the
  product with the power of two, as a bignum when it is too large, for every number that is not negative and for
  counts from 62 on; a negative number shifted by less is cut to the 63 bits of the tagged word. A negative count
  shifts the other way.\<close>

theorem fixnum_shifts:
  assumes a: "fix_ok a" and b: "fix_ok bits" and small: "\<bar>Fixnum_to_native bits\<bar> < 2 ^ 31"
  defines "x \<equiv> Fixnum_to_native a" and "s \<equiv> Fixnum_to_native bits"
  shows "(0 \<le> s \<longrightarrow> (\<exists>r. Fixnum_right_shift a bits = Some r \<and> is_int r (if 63 \<le> s then 0 else x div 2 ^ nat s)))
    \<and> (0 \<le> s \<longrightarrow> (\<exists>r. Fixnum_left_shift a bits = Some r
        \<and> (0 \<le> x \<or> 62 \<le> s \<longrightarrow> is_int r (x * 2 ^ nat s))
        \<and> (x < 0 \<and> s < 62 \<longrightarrow> int_of r = signed_take_bit 62 (x * 2 ^ nat s))))
    \<and> (s < 0 \<longrightarrow> Fixnum_left_shift a bits = Fixnum_right_shift a (Fixnum_neg bits)
              \<and> Fixnum_right_shift a bits = Fixnum_left_shift a (Fixnum_neg bits))"
  using Fixnum_right_shift_by_int [of s x] Fixnum_left_shift_by_int [of s x] Fixnum_shift_neg [of bits a] a small fix_okD [OF a]
  by (auto simp: Fixnum_shift_nonneg x_def s_def fix_ok_def)

theorem fixnum_shifts_witness:
  "\<exists>r. Fixnum_left_shift (Fixnum_from (- (2 ^ 61))) (Fixnum_from 2) = Some r \<and> int_of r = 0"
proof -
  let ?a = "Fixnum_from (- (2 ^ 61))"
  have a: "fix_ok ?a" and b: "fix_ok (Fixnum_from 2)" using fix_ok_from [of "- (2 ^ 61)"] fix_ok_from [of 2]
    by (simp_all add: fixnum_range)
  have "signed_take_bit 62 (- (2 ^ 63) :: int) = 0" by (simp add: signed_take_bit_eq_if_positive)
  then show ?thesis using fixnum_shifts [OF a b] by simp
qed

text \<open>The complement of \<open>FIXNUM_MAX\<close> is a fixnum below \<open>FIXNUM_MIN\<close>, whose negation is itself.\<close>

lemma invert_max: "Fixnum_to_native (Fixnum_invert (Fixnum_from FIXNUM_MAX)) = - (2 ^ 62)"
  by (simp add: Fixnum_invert_def fixnum_range not_int_def)

lemma from_beyond: "Fixnum_to_native (Fixnum_from (2 ^ 62)) = - (2 ^ 62)"
  by (simp add: Fixnum_to_native_def Fixnum_from_def strip_apply_fixnum signed_take_bit_eq_if_negative bit_iff_odd take_bit_int_eq_self)

lemma Fixnum_shift_Some:
  assumes "Fixnum_shift left self bits = Some r"
  shows "Fixnum_to_native bits \<noteq> - (2 ^ 62)"
proof (rule Fixnum_shift.raw_induct [OF _ assms, of "\<lambda>_ _ b _. Fixnum_to_native b \<noteq> - (2 ^ 62)"])
  fix shift left self bits and r :: Integer
  assume IH: "\<And>l a b r. shift l a b = Some r \<Longrightarrow> Fixnum_to_native b \<noteq> - (2 ^ 62)"
    and body: "(let n = Fixnum_to_native bits
       in if n < 0 then shift (\<not> left) self (Fixnum_from (native (- n)))
          else if left then Fixnum_left_shift_by (Fixnum_to_native self) n
          else Some (Fixnum_right_shift_by (Fixnum_to_native self) n)) = Some r"
  show "Fixnum_to_native bits \<noteq> - (2 ^ 62)"
  proof
    assume "Fixnum_to_native bits = - (2 ^ 62)"
    with body have "shift (\<not> left) self (Fixnum_from (2 ^ 62)) = Some r" by (simp add: Let_def)
    from IH [OF this] from_beyond show False by simp
  qed
qed

text \<open>Complement leads out of the range of the fixnums. The complement of \<open>FIXNUM_MAX\<close> is still a tagged word,
  but its value lies below \<open>FIXNUM_MIN\<close>; its negation wraps around to itself, and a shift by it never returns,
  because each shift passes the negated count on to the other one.\<close>

theorem fixnum_below_min:
  "Fixnum_to_native (Fixnum_invert (Fixnum_from FIXNUM_MAX)) = FIXNUM_MIN - 1
   \<and> Fixnum_neg (Fixnum_invert (Fixnum_from FIXNUM_MAX)) = Fixnum_invert (Fixnum_from FIXNUM_MAX)
   \<and> Fixnum_left_shift a (Fixnum_invert (Fixnum_from FIXNUM_MAX)) = None
   \<and> Fixnum_right_shift a (Fixnum_invert (Fixnum_from FIXNUM_MAX)) = None"
proof (intro conjI)
  show "Fixnum_to_native (Fixnum_invert (Fixnum_from FIXNUM_MAX)) = FIXNUM_MIN - 1"
    unfolding invert_max by (simp add: fixnum_range)
  have "Fixnum_invert (Fixnum_from FIXNUM_MAX) = APPLY_FIXNUM_TAG (- (2 ^ 62))"
    by (simp add: Fixnum_invert_def fixnum_range not_int_def) (simp add: Fixnum_from_def)
  moreover have "APPLY_FIXNUM_TAG (2 ^ 62) = APPLY_FIXNUM_TAG (- (2 ^ 62))" by (simp add: APPLY_FIXNUM_TAG_def)
  ultimately show "Fixnum_neg (Fixnum_invert (Fixnum_from FIXNUM_MAX)) = Fixnum_invert (Fixnum_from FIXNUM_MAX)"
    unfolding Fixnum_neg_def invert_max by (simp add: Fixnum_from_def)
  show "Fixnum_left_shift a (Fixnum_invert (Fixnum_from FIXNUM_MAX)) = None"
    "Fixnum_right_shift a (Fixnum_invert (Fixnum_from FIXNUM_MAX)) = None"
    using Fixnum_shift_Some invert_max unfolding Fixnum_left_shift_def Fixnum_right_shift_def by (metis not_None_eq)+
qed

section \<open>Right shifts of a bignum\<close>

lemma mp_used_bound: "mp_used a \<le> s div DIGIT_BIT \<Longrightarrow> \<bar>a\<bar> < 2 ^ s"
proof -
  assume "mp_used a \<le> s div DIGIT_BIT"
  then have "mp_used a * DIGIT_BIT \<le> s"
    by (simp add: DIGIT_BIT_def less_eq_div_iff_mult_less_eq)
  moreover have "mp_count_bits a \<le> mp_used a * DIGIT_BIT"
    unfolding mp_used_def DIGIT_BIT_def
    using div_mult_mod_eq [of "mp_count_bits a + 62" 63] mod_less_divisor [of 63 "mp_count_bits a + 62"] by simp
  ultimately have "nat_bits (nat \<bar>a\<bar>) \<le> s" by (simp add: mp_count_bits_def)
  then show ?thesis by (simp add: nat_bits_le nat_less_iff)
qed

lemma div_pow_neg: "\<bar>a\<bar> < 2 ^ s \<Longrightarrow> a div 2 ^ s = (if a < 0 then - 1 else 0)" for a :: int
  using int_div_pos_eq [of a "2 ^ s" "- 1" "a + 2 ^ s"] by (auto simp: div_pos_pos_trivial)

text \<open>A right shift of a bignum rounds down, as Ruby's does, when the number is not negative, when it is odd, or
  when no one is shifted out. In the remaining case, an even negative number that loses ones, the code tests
  the lowest bit instead of the bits it drops, and the result is one too large.\<close>

theorem bignum_right_shift_rounding:
  assumes "0 \<le> Fixnum_to_native bits" and "Fixnum_to_native bits < 2 ^ 31"
  defines "s \<equiv> nat (Fixnum_to_native bits)"
  shows "\<exists>r. Bignum_right_shift a bits = Some r \<and>
    is_int r (if a < 0 \<and> even a \<and> \<not> 2 ^ s dvd a \<and> s div DIGIT_BIT < mp_used a then a div 2 ^ s + 1 else a div 2 ^ s)"
proof -
  have run: "Bignum_right_shift a bits = Some (Bignum_right_shift_by a s)"
    using assms Bignum_left_shift_count(2) by simp
  have ints: "is_int (Fixnum (Fixnum_from 0)) 0" "is_int (Fixnum (Fixnum_from (- 1))) (- 1)"
    by (rule is_int_fixnum; simp add: fixnum_range)+
  show ?thesis
  proof (cases "mp_used a \<le> s div DIGIT_BIT")
    case True
    with ints div_pow_neg [OF mp_used_bound [OF True]] run show ?thesis
      by (auto simp: Bignum_right_shift_by_def)
  next
    case False
    have floor: "a div 2 ^ s = (if a < 0 \<and> \<not> 2 ^ s dvd a then mp_div_2d a s - 1 else mp_div_2d a s)"
    proof -
      define r where "r = \<bar>a\<bar> mod 2 ^ s"
      have m: "a - c_div a (2 ^ s) * 2 ^ s = sgn a * r" using c_div_rem [of a "2 ^ s"] by (simp add: r_def)
      have "0 \<le> r" "r = 0 \<longleftrightarrow> 2 ^ s dvd a" by (simp_all add: r_def mod_eq_0_iff_dvd)
      then have "a - c_div a (2 ^ s) * 2 ^ s < 0 \<longleftrightarrow> a < 0 \<and> \<not> 2 ^ s dvd a"
        unfolding m by (auto simp: sgn_if)
      with floor_from_c_div [of "2 ^ s" a] show ?thesis by (auto simp: mp_div_2d_def split: if_splits)
    qed
    have odd: "odd a \<Longrightarrow> s \<noteq> 0 \<Longrightarrow> \<not> 2 ^ s dvd a" by (meson dvd_power dvd_trans neq0_conv)
    show ?thesis
    proof (cases "s = 0")
      case True
      with False run show ?thesis by (simp add: Bignum_right_shift_by_def)
    next
      case s: False
      have "Bignum_right_shift_by a s = Bignum_normalize (if a < 0 \<and> odd a then mp_div_2d a s - 1 else mp_div_2d a s)"
        using False s by (simp add: Bignum_right_shift_by_def Let_def)
      moreover have "(if a < 0 \<and> odd a then mp_div_2d a s - 1 else mp_div_2d a s)
          = (if a < 0 \<and> even a \<and> \<not> 2 ^ s dvd a \<and> s div DIGIT_BIT < mp_used a then a div 2 ^ s + 1 else a div 2 ^ s)"
        using floor odd s False by auto
      ultimately show ?thesis using run normalize_is_int by simp
    qed
  qed
qed

theorem bignum_right_shift_rounding_witness:
  "\<exists>r. Bignum_right_shift (- (2 ^ 62 + 2)) (Fixnum_from 2) = Some r \<and> int_of r = (- (2 ^ 62 + 2)) div 4 + 1"
proof -
  have "mp_count_bits (- (2 ^ 62 + 2)) > FIXNUM_WIDTH"
    using count_bits_fixnum [of "- (2 ^ 62 + 2)"] by (simp add: fixnum_range not_le)
  then have "0 < mp_used (- (2 ^ 62 + 2))" by (simp add: mp_used_def DIGIT_BIT_def FIXNUM_WIDTH_def div_greater_zero_iff)
  then show ?thesis
    using bignum_right_shift_rounding [of "Fixnum_from 2" "- (2 ^ 62 + 2)"] by (auto simp: is_int_def DIGIT_BIT_def)
qed

section \<open>The printed form\<close>

definition digit_value :: "char \<Rightarrow> int" where
  "digit_value c = int (length (takeWhile (\<lambda>d. d \<noteq> c) digitmap))"

definition parse_digits :: "int \<Rightarrow> string \<Rightarrow> int" where
  "parse_digits j s = foldl (\<lambda>v c. v * j + digit_value c) 0 s"

definition parse_int :: "int \<Rightarrow> string \<Rightarrow> int" where
  "parse_int j s = (if s \<noteq> [] \<and> hd s = CHR ''-'' then - parse_digits j (tl s) else parse_digits j s)"

lemma digitmap_values: "\<forall>n\<in>set [0..<36]. digit_value (digitmap ! n) = int n \<and> digitmap ! n \<noteq> CHR ''-''"
  by code_simp

lemma digitmap_value: "0 \<le> i \<Longrightarrow> i < 36 \<Longrightarrow> digit_value (digitmap ! nat i) = i \<and> digitmap ! nat i \<noteq> CHR ''-''"
  using digitmap_values by (auto simp: nat_less_iff)

lemma to_s_digits_parse:
  assumes "2 \<le> j" and "j \<le> 36" and "0 \<le> k"
  shows "\<exists>ds. to_s_digits j k b = ds @ b \<and> parse_digits j ds = k \<and> ds \<noteq> [] \<and> hd ds \<noteq> CHR ''-''
    \<and> (\<forall>n. k < 2 ^ Suc n \<longrightarrow> length ds \<le> Suc n)"
  using assms
proof (induction j k b rule: to_s_digits.induct)
  case (1 j k b)
  let ?d = "digitmap ! nat (k mod j)"
  have "k mod j < 36" using pos_mod_bound [of j k] "1.prems" by linarith
  then have d: "digit_value ?d = k mod j" "?d \<noteq> CHR ''-''" using digitmap_value [of "k mod j"] "1.prems" by simp_all
  show ?case
  proof (cases "k div j = 0")
    case True
    then have "to_s_digits j k b = [?d] @ b" by (simp add: to_s_digits.simps [of j k b] Let_def)
    moreover have "parse_digits j [?d] = k" using d True div_mult_mod_eq [of k j] by (simp add: parse_digits_def)
    ultimately show ?thesis using d by (intro exI [of _ "[?d]"]) simp
  next
    case False
    have pos: "0 \<le> k div j" using "1.prems" by (simp add: pos_imp_zdiv_nonneg_iff)
    from "1.IH" [OF refl refl] False "1.prems" pos obtain ds where
      ds: "to_s_digits j (k div j) (?d # b) = ds @ ?d # b" "parse_digits j ds = k div j" "ds \<noteq> []" "hd ds \<noteq> CHR ''-''"
        "\<And>n. k div j < 2 ^ Suc n \<Longrightarrow> length ds \<le> Suc n" by auto
    have "to_s_digits j k b = (ds @ [?d]) @ b"
      using ds(1) False "1.prems" by (simp add: to_s_digits.simps [of j k b] Let_def)
    moreover have "parse_digits j (ds @ [?d]) = k"
      using ds(2) d(1) div_mult_mod_eq [of k j] by (simp add: parse_digits_def)
    moreover have "length (ds @ [?d]) \<le> Suc n" if "k < 2 ^ Suc n" for n
    proof (cases n)
      case 0
      with that "1.prems" have "k div j = 0" by (simp add: div_pos_pos_trivial)
      with False show ?thesis by simp
    next
      case (Suc m)
      have "k div j * 2 \<le> k div j * j" using pos "1.prems" by (simp add: mult_left_mono)
      also have "\<dots> \<le> k" using le_div_iff [of j "k div j" k] "1.prems" by simp
      finally have "k div j < 2 ^ Suc m" using that Suc by simp
      with ds(5) Suc show ?thesis by simp
    qed
    ultimately show ?thesis using ds(3,4) by (intro exI [of _ "ds @ [?d]"]) simp
  qed
qed

text \<open>\<open>Fixnum#to_s\<close>: for a base from 2 to 36 the string returned, read back in that base, is the number, and with
  the terminating zero it fits in the buffer of 100 bytes; every other base raises an \<open>ArgumentError\<close>.\<close>

theorem fixnum_to_s_round_trip:
  assumes a: "fix_ok a" and base: "fix_ok base"
  shows "if 2 \<le> Fixnum_to_native base \<and> Fixnum_to_native base \<le> 36
     then \<exists>s. Fixnum_to_s a base = Inr s \<and> parse_int (Fixnum_to_native base) s = Fixnum_to_native a \<and> length s + 1 \<le> 100
     else Fixnum_to_s a base = Inl ArgumentError"
proof -
  define j k where "j = Fixnum_to_native base" and "k = Fixnum_to_native a"
  have k: "- (2 ^ 62) < k" "k < 2 ^ 62" using fix_okD [OF a] by (simp_all add: k_def)
  show ?thesis
  proof (cases "2 \<le> j \<and> j \<le> 36")
    case True
    have "\<exists>s. Fixnum_to_s a base = Inr s \<and> parse_int j s = k \<and> length s + 1 \<le> 100"
    proof (cases "k = 0")
      case zero: True
      have "parse_int j ''0'' = 0" by (simp add: parse_int_def parse_digits_def digit_value_def digitmap_def)
      with True zero show ?thesis by (simp add: Fixnum_to_s_def j_def [symmetric] k_def [symmetric])
    next
      case False
      from True to_s_digits_parse [of j "\<bar>k\<bar>" "[]"] obtain ds where ds: "to_s_digits j (\<bar>k\<bar>) [] = ds"
        "parse_digits j ds = \<bar>k\<bar>" "ds \<noteq> []" "hd ds \<noteq> CHR ''-''" "\<And>n. \<bar>k\<bar> < 2 ^ Suc n \<Longrightarrow> length ds \<le> Suc n"
        by auto
      have len: "length ds \<le> 62" using ds(5) [of 61] k by simp
      show ?thesis
      proof (cases "k < 0")
        case neg: True
        with True k ds len show ?thesis
          by (simp add: Fixnum_to_s_def j_def [symmetric] k_def [symmetric] Let_def parse_int_def)
      next
        case pos: False
        with True False ds len show ?thesis
          by (simp add: Fixnum_to_s_def j_def [symmetric] k_def [symmetric] Let_def parse_int_def)
      qed
    qed
    with True show ?thesis by (simp add: j_def k_def)
  next
    case False
    then show ?thesis by (auto simp: Fixnum_to_s_def Let_def j_def not_le)
  qed
qed

theorem fixnum_to_s_round_trip_witness:
  "\<exists>s. Fixnum_to_s (Fixnum_from (- 255)) (Fixnum_from 16) = Inr s \<and> parse_int 16 s = - 255"
proof -
  have "fix_ok (Fixnum_from (- 255))" "fix_ok (Fixnum_from 16)"
    using fix_ok_from [of "- 255"] fix_ok_from [of 16] by (simp_all add: fixnum_range)
  from fixnum_to_s_round_trip [OF this] show ?thesis by auto
qed

end
