(* ===== verification/Vm_Bignum_Bits.thy ===== *)
theory Vm_Bignum_Bits
  imports Vm_Integer_Laws
begin

text \<open>
  The bit operations of \<open>Bignum\<close> (\<open>twos_complement\<close>, \<open>bignum_bitwise_op\<close> and \<open>bit_and\<close>, \<open>bit_or\<close>, \<open>bit_xor\<close> in
  \<open>vm/builtin/bignum.cpp\<close>), on the digits of libtommath: a number is a sign and a list of words, the least
  significant first, each below \<open>DIGIT_RADIX\<close> = 2^63.
\<close>

section \<open>Digits\<close>

record mp_int =
  mp_sign :: bool
  dp :: "u64 list"

definition MP_NEG :: bool where "MP_NEG = True"
definition MP_ZPOS :: bool where "MP_ZPOS = False"
definition DIGIT_RADIX :: u64 where "DIGIT_RADIX = push_bit DIGIT_BIT 1"

fun mp_mag :: "u64 list \<Rightarrow> int" where
  "mp_mag [] = 0"
| "mp_mag (d # ds) = uint d + 2 ^ 63 * mp_mag ds"

definition mp_value :: "mp_int \<Rightarrow> int" where
  "mp_value a = (if mp_sign a = MP_NEG then - mp_mag (dp a) else mp_mag (dp a))"

definition mp_ok :: "mp_int \<Rightarrow> bool" where
  "mp_ok a \<longleftrightarrow> (\<forall>d\<in>set (dp a). d < DIGIT_RADIX)"

section \<open>The code\<close>

text \<open>The carry is a \<open>long long\<close>, shifted arithmetically.\<close>

fun complement_carry :: "u64 \<Rightarrow> u64 list \<Rightarrow> u64 list" where
  "complement_carry num [] = []"
| "complement_carry num (d # ds) =
     (let num = num + d in (num AND (DIGIT_RADIX - 1)) # complement_carry (signed_drop_bit DIGIT_BIT num) ds)"

definition twos_complement :: "mp_int \<Rightarrow> mp_int" where
  "twos_complement a = a\<lparr>dp := complement_carry 1 (map (\<lambda>d. NOT d AND (DIGIT_RADIX - 1)) (dp a))\<rparr>"

datatype bitwise_op = BITWISE_OP_AND | BITWISE_OP_OR | BITWISE_OP_XOR

fun digit_op :: "bitwise_op \<Rightarrow> u64 \<Rightarrow> u64 \<Rightarrow> u64" where
  "digit_op BITWISE_OP_AND a b = a AND b"
| "digit_op BITWISE_OP_OR a b = a OR b"
| "digit_op BITWISE_OP_XOR a b = a XOR b"

fun rest_op :: "bitwise_op \<Rightarrow> bool \<Rightarrow> u64 \<Rightarrow> u64" where
  "rest_op BITWISE_OP_AND sign d = (if sign = MP_ZPOS then 0 else d)"
| "rest_op BITWISE_OP_OR sign d = (if sign = MP_ZPOS then d else DIGIT_RADIX - 1)"
| "rest_op BITWISE_OP_XOR sign d = (if sign = MP_ZPOS then d else NOT d)"

fun result_sign :: "bitwise_op \<Rightarrow> bool \<Rightarrow> bool \<Rightarrow> bool" where
  "result_sign BITWISE_OP_AND x y = (if x = MP_NEG \<and> y = MP_NEG then MP_NEG else MP_ZPOS)"
| "result_sign BITWISE_OP_OR x y = (if x = MP_NEG \<or> y = MP_NEG then MP_NEG else MP_ZPOS)"
| "result_sign BITWISE_OP_XOR x y = (if x \<noteq> y then MP_NEG else MP_ZPOS)"

definition bignum_bitwise_op :: "bitwise_op \<Rightarrow> mp_int \<Rightarrow> mp_int \<Rightarrow> mp_int" where
  "bignum_bitwise_op op x y =
     (let y = (if mp_sign y = MP_NEG then twos_complement y else y);
          x = (if mp_sign x = MP_NEG then twos_complement x else x);
          (d1, d2, sign) = (if length (dp x) > length (dp y) then (dp y, dp x, mp_sign y) else (dp x, dp y, mp_sign x));
          n = \<lparr>mp_sign = result_sign op (mp_sign x) (mp_sign y),
               dp = map2 (digit_op op) d1 d2 @ map (rest_op op sign) (drop (length d1) d2)\<rparr>
      in if mp_sign n = MP_NEG then twos_complement n else n)"

text \<open>The digits of a native integer, as \<open>Bignum::from\<close> stores them.\<close>

definition mp_from :: "int \<Rightarrow> mp_int" where
  "mp_from num = \<lparr>mp_sign = (if num < 0 then MP_NEG else MP_ZPOS), dp = (if num = 0 then [] else [word_of_int \<bar>num\<bar>])\<rparr>"

datatype digits_integer = Small oop | Large mp_int

definition as_bignum :: "digits_integer \<Rightarrow> mp_int" where
  "as_bignum b = (case b of Small o1 \<Rightarrow> mp_from (Fixnum_to_native o1) | Large a \<Rightarrow> a)"

text \<open>\<open>Bignum::normalize\<close> on digits: \<open>mp_clamp\<close> drops zeros at the top, \<open>mp_count_bits\<close> looks at the highest digit,
  \<open>mp_get_long\<close> reads at most two digits.\<close>

definition mp_clamp :: "mp_int \<Rightarrow> mp_int" where
  "mp_clamp a = (let ds = rev (dropWhile (\<lambda>d. d = 0) (rev (dp a)))
     in \<lparr>mp_sign = (if ds = [] then MP_ZPOS else mp_sign a), dp = ds\<rparr>)"

definition digits_bits :: "u64 list \<Rightarrow> nat" where
  "digits_bits ds = (if ds = [] then 0 else (length ds - 1) * DIGIT_BIT + nat_bits (unat (last ds)))"

fun digits_long :: "u64 list \<Rightarrow> u64" where
  "digits_long [] = 0"
| "digits_long [d] = d"
| "digits_long (d0 # d1 # _) = push_bit DIGIT_BIT d1 OR d0"

definition digits_normalize :: "mp_int \<Rightarrow> digits_integer" where
  "digits_normalize b =
     (let b = mp_clamp b
      in if digits_bits (dp b) \<le> FIXNUM_WIDTH
         then Small (Fixnum_from (native (if mp_sign b = MP_NEG then - uint (digits_long (dp b)) else uint (digits_long (dp b)))))
         else Large b)"

definition Bignum_bit_and :: "mp_int \<Rightarrow> digits_integer \<Rightarrow> digits_integer" where
  "Bignum_bit_and a b = digits_normalize (bignum_bitwise_op BITWISE_OP_AND a (as_bignum b))"

definition Bignum_bit_or :: "mp_int \<Rightarrow> digits_integer \<Rightarrow> digits_integer" where
  "Bignum_bit_or a b = digits_normalize (bignum_bitwise_op BITWISE_OP_OR a (as_bignum b))"

definition Bignum_bit_xor :: "mp_int \<Rightarrow> digits_integer \<Rightarrow> digits_integer" where
  "Bignum_bit_xor a b = digits_normalize (bignum_bitwise_op BITWISE_OP_XOR a (as_bignum b))"

definition digits_value :: "digits_integer \<Rightarrow> int" where
  "digits_value b = (case b of Small o1 \<Rightarrow> Fixnum_to_native o1 | Large a \<Rightarrow> mp_value a)"

section \<open>Digit lists as numbers\<close>

fun int_op :: "bitwise_op \<Rightarrow> int \<Rightarrow> int \<Rightarrow> int" where
  "int_op BITWISE_OP_AND a b = a AND b"
| "int_op BITWISE_OP_OR a b = a OR b"
| "int_op BITWISE_OP_XOR a b = a XOR b"

lemma small_digit: "d < DIGIT_RADIX \<longleftrightarrow> uint d < 2 ^ 63"
  by (simp add: DIGIT_RADIX_def DIGIT_BIT_def word_less_def)

lemma cons_concat: "uint d < 2 ^ 63 \<Longrightarrow> uint d + 2 ^ 63 * m = concat_bit 63 (uint d) m"
  by (simp add: concat_bit_eq take_bit_int_eq_self push_bit_eq_mult mult.commute)

lemma mp_mag_nonneg: "0 \<le> mp_mag ds"
  by (induction ds) auto

lemma digit_op_uint: "uint (digit_op op a b) = int_op op (uint a) (uint b)"
  by (cases op) (simp_all add: uint_and uint_or uint_xor)

lemma int_op_less: "0 \<le> a \<Longrightarrow> a < 2 ^ 63 \<Longrightarrow> 0 \<le> b \<Longrightarrow> b < 2 ^ 63 \<Longrightarrow> int_op op a b < 2 ^ 63"
  using OR_upper [of a 63 b] XOR_upper [of a 63 b] by (cases op) (simp_all add: order.strict_trans1 [OF AND_upper1])

lemma int_op_concat: "int_op op (concat_bit n a m) (concat_bit n b k) = concat_bit n (int_op op a b) (int_op op m k)"
  by (cases op; rule bit_eqI) (auto simp: bit_simps bit_concat_bit_iff)

lemma mag_Cons: "d < DIGIT_RADIX \<Longrightarrow> mp_mag (d # ds) = concat_bit 63 (uint d) (mp_mag ds)"
  using cons_concat [of d "mp_mag ds"] by (simp add: small_digit)

lemma digit_op_small: "x < DIGIT_RADIX \<Longrightarrow> y < DIGIT_RADIX \<Longrightarrow> digit_op op x y < DIGIT_RADIX"
  unfolding small_digit digit_op_uint by (rule int_op_less) simp_all

lemma mag_same_length:
  "length xs = length ys \<Longrightarrow> \<forall>d\<in>set xs. d < DIGIT_RADIX \<Longrightarrow> \<forall>d\<in>set ys. d < DIGIT_RADIX \<Longrightarrow>
   mp_mag (map2 (digit_op op) xs ys) = int_op op (mp_mag xs) (mp_mag ys)"
proof (induction xs ys rule: list_induct2)
  case Nil
  then show ?case by (cases op) simp_all
next
  case (Cons x xs y ys)
  then have small: "x < DIGIT_RADIX" "y < DIGIT_RADIX" by auto
  have "mp_mag (map2 (digit_op op) (x # xs) (y # ys)) = concat_bit 63 (uint (digit_op op x y)) (mp_mag (map2 (digit_op op) xs ys))"
    using mag_Cons [OF digit_op_small [OF small]] by simp
  also have "\<dots> = int_op op (mp_mag (x # xs)) (mp_mag (y # ys))"
    unfolding mag_Cons [OF small(1)] mag_Cons [OF small(2)] int_op_concat digit_op_uint using Cons by simp
  finally show ?case .
qed

lemma mag_append_zeros: "mp_mag (xs @ replicate n 0) = mp_mag xs"
proof (induction xs)
  case Nil
  show ?case by (induction n) simp_all
qed simp

text \<open>With a sign that is not negative the digits beyond the shorter number behave as if it were filled up with zeros.\<close>

lemma bitwise_digits_nonneg:
  assumes "length d1 \<le> length d2" and "\<forall>d\<in>set d1. d < DIGIT_RADIX" and "\<forall>d\<in>set d2. d < DIGIT_RADIX"
  shows "mp_mag (map2 (digit_op op) d1 d2 @ map (rest_op op MP_ZPOS) (drop (length d1) d2)) = int_op op (mp_mag d1) (mp_mag d2)"
proof -
  let ?z = "replicate (length d2 - length d1) 0"
  have "rest_op op MP_ZPOS = digit_op op 0" by (cases op) auto
  then have "map (rest_op op MP_ZPOS) (drop (length d1) d2) = map2 (digit_op op) ?z (drop (length d1) d2)"
    by (intro nth_equalityI) simp_all
  moreover have zip: "zip d1 (take (length d1) d2) = zip d1 d2" using assms(1) by (intro nth_equalityI) simp_all
  ultimately have "map2 (digit_op op) d1 d2 @ map (rest_op op MP_ZPOS) (drop (length d1) d2) = map2 (digit_op op) (d1 @ ?z) d2"
    unfolding zip_append1 map_append zip by simp
  moreover have "mp_mag (map2 (digit_op op) (d1 @ ?z) d2) = int_op op (mp_mag (d1 @ ?z)) (mp_mag d2)"
    using assms by (intro mag_same_length) (auto simp: small_digit)
  ultimately show ?thesis by (simp add: mag_append_zeros)
qed

lemma int_op_commute: "int_op op a b = int_op op b a"
  by (cases op) (simp_all add: and.commute or.commute xor.commute)

lemma bitwise_op_nonneg:
  assumes ok: "mp_ok x" "mp_ok y" and sign: "mp_sign x = MP_ZPOS" "mp_sign y = MP_ZPOS"
  shows "mp_value (bignum_bitwise_op op x y) = int_op op (mp_value x) (mp_value y)"
proof -
  have s: "\<not> mp_sign x" "\<not> mp_sign y" "\<not> result_sign op False False"
    using sign by (cases op; simp add: MP_ZPOS_def MP_NEG_def)+
  note digits = bitwise_digits_nonneg [unfolded MP_ZPOS_def, of _ _ op]
  show ?thesis
  proof (cases "length (dp x) > length (dp y)")
    case True
    with digits [of "dp y" "dp x"] ok s show ?thesis
      by (simp add: bignum_bitwise_op_def Let_def mp_value_def mp_ok_def MP_NEG_def int_op_commute [of op "mp_mag (dp x)"])
  next
    case False
    with digits [of "dp x" "dp y"] ok s show ?thesis
      by (simp add: bignum_bitwise_op_def Let_def mp_value_def mp_ok_def MP_NEG_def)
  qed
qed

lemma mp_mag_snoc_zeros: "mp_mag (rev (dropWhile (\<lambda>d. d = 0) (rev ds))) = mp_mag ds"
proof (induction ds rule: rev_induct)
  case (snoc d ds)
  then show ?case using mag_append_zeros [of ds 1] by simp
qed simp

lemma mp_value_clamp: "mp_value (mp_clamp a) = mp_value a"
proof (cases "rev (dropWhile (\<lambda>d. d = 0) (rev (dp a))) = []")
  case True
  with mp_mag_snoc_zeros [of "dp a"] have "mp_mag (dp a) = 0" by simp
  with True show ?thesis unfolding mp_value_def mp_clamp_def Let_def by (simp add: mp_mag_snoc_zeros)
next
  case False
  then show ?thesis by (auto simp: mp_value_def mp_clamp_def Let_def mp_mag_snoc_zeros)
qed

lemma clamp_last: "dp (mp_clamp a) \<noteq> [] \<Longrightarrow> last (dp (mp_clamp a)) \<noteq> 0"
  using hd_dropWhile [of "\<lambda>d. d = 0" "rev (dp a)"] by (simp add: mp_clamp_def Let_def last_rev)

lemma digits_small:
  assumes "digits_bits ds \<le> FIXNUM_WIDTH"
  shows "uint (digits_long ds) = mp_mag ds \<and> mp_mag ds < 2 ^ 62"
proof -
  consider "ds = []" | d where "ds = [d]" | d0 d1 es where "ds = d0 # d1 # es"
    by (cases ds rule: digits_long.cases) auto
  then show ?thesis
  proof cases
    case (2 d)
    with assms have "nat_bits (unat d) \<le> 62" by (simp add: digits_bits_def FIXNUM_WIDTH_def)
    then have "unat d < 2 ^ 62" unfolding nat_bits_le .
    then have "int (unat d) < int (2 ^ 62)" by (rule iffD2 [OF of_nat_less_iff])
    with 2 show ?thesis by simp
  next
    case (3 d0 d1 es)
    with assms show ?thesis by (simp add: digits_bits_def FIXNUM_WIDTH_def DIGIT_BIT_def)
  qed simp
qed

lemma Fixnum_native_small: "0 \<le> v \<Longrightarrow> v < 2 ^ 62 \<Longrightarrow> Fixnum_to_native (Fixnum_from (native v)) = v
   \<and> Fixnum_to_native (Fixnum_from (native (- v))) = - v"
  by simp

lemma digits_normalize_value: "digits_value (digits_normalize a) = mp_value a"
proof (cases "digits_bits (dp (mp_clamp a)) \<le> FIXNUM_WIDTH")
  case True
  from digits_small [OF True] Fixnum_native_small [OF mp_mag_nonneg]
  have "digits_value (digits_normalize a) = mp_value (mp_clamp a)"
    unfolding digits_normalize_def Let_def digits_value_def mp_value_def if_P [OF True] by simp
  then show ?thesis by (simp add: mp_value_clamp)
next
  case False
  then show ?thesis
    unfolding digits_normalize_def Let_def digits_value_def if_not_P [OF False] by (simp add: mp_value_clamp)
qed

text \<open>And, or and exclusive or of a bignum with a fixnum or another bignum are those of the integers when neither
  operand is negative, whatever their numbers of digits.\<close>

theorem bignum_bitwise_nonneg:
  assumes "mp_ok x" and "mp_sign x = MP_ZPOS"
    and "mp_ok (as_bignum b)" and "mp_sign (as_bignum b) = MP_ZPOS"
  shows "digits_value (Bignum_bit_and x b) = mp_value x AND mp_value (as_bignum b)
     \<and> digits_value (Bignum_bit_or x b) = mp_value x OR mp_value (as_bignum b)
     \<and> digits_value (Bignum_bit_xor x b) = mp_value x XOR mp_value (as_bignum b)"
  using bitwise_op_nonneg [OF assms(1,3,2,4)]
  by (simp add: digits_normalize_value Bignum_bit_and_def Bignum_bit_or_def Bignum_bit_xor_def)

definition two_digits :: mp_int where "two_digits = \<lparr>mp_sign = MP_ZPOS, dp = [1, 1]\<rparr>"

theorem bignum_bitwise_nonneg_witness: "digits_value (Bignum_bit_and two_digits (Small (Fixnum_from 3))) = (2 ^ 63 + 1) AND 3"
proof -
  have "mp_ok two_digits" "mp_sign two_digits = MP_ZPOS" "mp_value two_digits = 2 ^ 63 + 1"
    by (simp_all add: mp_ok_def two_digits_def small_digit mp_value_def MP_ZPOS_def MP_NEG_def)
  moreover have "mp_ok (as_bignum (Small (Fixnum_from 3)))" "mp_sign (as_bignum (Small (Fixnum_from 3))) = MP_ZPOS"
    "mp_value (as_bignum (Small (Fixnum_from 3))) = 3"
    by (simp_all add: as_bignum_def mp_from_def mp_ok_def small_digit mp_value_def MP_ZPOS_def MP_NEG_def)
  ultimately show ?thesis using bignum_bitwise_nonneg [of two_digits "Small (Fixnum_from 3)"] by simp
qed

text \<open>With negative operands they are not. The carry of the complement is a signed 64-bit number that is shifted
  arithmetically, so a carry out of a zero digit enters the next one as -1: -2^64 and 2^126 - 1 give
  2^126 - 2^64 - 2^64 instead of 2^126 - 2^64. And the result of two negative numbers is complemented in as many digits as it has:
  -(2^63 - 1) and -2 give 0 instead of -2^63.\<close>

theorem bignum_bitwise_negative:
  "digits_value (Bignum_bit_and \<lparr>mp_sign = MP_NEG, dp = [0, 2]\<rparr> (Large \<lparr>mp_sign = MP_ZPOS, dp = [2 ^ 63 - 1, 2 ^ 63 - 1]\<rparr>))
     = 2 ^ 126 - 2 ^ 64 - 2 ^ 64
   \<and> - (2 ^ 64) AND (2 ^ 126 - 1 :: int) = 2 ^ 126 - 2 ^ 64
   \<and> digits_value (Bignum_bit_and \<lparr>mp_sign = MP_NEG, dp = [2 ^ 63 - 1]\<rparr> (Small (Fixnum_from (- 2)))) = 0
   \<and> - (2 ^ 63 - 1) AND (- 2 :: int) = - (2 ^ 63)"
  unfolding Bignum_bit_and_def digits_normalize_value by (intro conjI; code_simp)

end
