(* ===== verification/Vm_Array.thy ===== *)
theory Vm_Array
  imports Vm_Oop
begin

text \<open>
  \<open>Tuple\<close> and \<open>Array\<close> (\<open>vm/builtin/tuple.hpp\<close>, \<open>tuple.cpp\<close>, \<open>array.cpp\<close>). A tuple is the list of its fields, new
  ones hold nil. An array is a tuple with a window of \<open>total\<close> fields from \<open>start\<close>; it owns its tuple, and the
  fixnums in its slots are kept as numbers. Arguments of type \<open>size_t\<close> and \<open>native_int\<close> are integers; the
  conversions between them are written out. An exception is a value of \<open>vm_error\<close>.
\<close>

section \<open>Tuple\<close>

type_synonym Tuple = "oop list"

definition vbind :: "'e + 'a \<Rightarrow> ('a \<Rightarrow> 'e + 'b) \<Rightarrow> 'e + 'b" where
  "vbind m f = (case m of Inl e \<Rightarrow> Inl e | Inr a \<Rightarrow> f a)"

lemma vbind_simps [simp]: "vbind (Inl e) f = Inl e" "vbind (Inr a) f = f a"
  by (simp_all add: vbind_def)

definition num_fields :: "Tuple \<Rightarrow> int" where "num_fields t = int (length t)"

definition Tuple_create :: "int \<Rightarrow> Tuple" where "Tuple_create fields = replicate (nat fields) Qnil"

definition Tuple_at :: "Tuple \<Rightarrow> int \<Rightarrow> vm_error + oop" where
  "Tuple_at t index = (if num_fields t \<le> index then Inl ObjectBoundsExceeded else Inr (t ! nat index))"

definition Tuple_at_prim :: "Tuple \<Rightarrow> oop \<Rightarrow> vm_error + oop" where
  "Tuple_at_prim t index_obj = Tuple_at t (size_t_of (STRIP_FIXNUM_TAG index_obj))"

definition Tuple_put :: "Tuple \<Rightarrow> int \<Rightarrow> oop \<Rightarrow> vm_error + Tuple" where
  "Tuple_put t idx val = (if num_fields t \<le> idx then Inl ObjectBoundsExceeded else Inr (t[nat idx := val]))"

definition Tuple_put_prim :: "Tuple \<Rightarrow> oop \<Rightarrow> oop \<Rightarrow> vm_error + Tuple" where
  "Tuple_put_prim t index val = Tuple_put t (size_t_of (STRIP_FIXNUM_TAG index)) val"

text \<open>The loop of \<open>copy_from\<close>; the source is \<open>None\<close> when it is the tuple itself.\<close>

fun copy_fields :: "Tuple \<Rightarrow> Tuple option \<Rightarrow> nat \<Rightarrow> nat \<Rightarrow> nat \<Rightarrow> Tuple" where
  "copy_fields t other src dst 0 = t"
| "copy_fields t other src dst (Suc n) =
     (let obj = (case other of None \<Rightarrow> t | Some o1 \<Rightarrow> o1) ! src
      in copy_fields (t[dst := obj]) other (Suc src) (Suc dst) n)"

definition Tuple_copy_from :: "Tuple \<Rightarrow> Tuple option \<Rightarrow> int \<Rightarrow> int \<Rightarrow> int \<Rightarrow> vm_error + Tuple" where
  "Tuple_copy_from t other start len dest =
     (let osize = num_fields (case other of None \<Rightarrow> t | Some o1 \<Rightarrow> o1); size = num_fields t;
          olend = int32 start; lend = int32 dest; olength = int32 len
      in if olend < 0 \<or> size_t_of olend > osize then Inl ObjectBoundsExceeded
         else if lend < 0 \<or> size_t_of lend > size then Inl ObjectBoundsExceeded
         else if olength < 0 then Inl ObjectBoundsExceeded
         else if size_t_of (int32 (olend + olength)) > osize then Inl ObjectBoundsExceeded
         else if size_t_of olength > size - lend then Inl ObjectBoundsExceeded
         else Inr (copy_fields t other (nat olend) (nat lend) (nat olength)))"

text \<open>\<open>delete_inplace\<close>: the outer loop looks for the first occurrence, the inner one moves the fields to keep down,
  the last one clears the fields left over.\<close>

function compact_from :: "Tuple \<Rightarrow> nat \<Rightarrow> nat \<Rightarrow> nat \<Rightarrow> oop \<Rightarrow> Tuple \<times> nat" where
  "compact_from t i j rend obj =
     (if i < rend
      then let val = t ! i in if val \<noteq> obj then compact_from (t[j := val]) (Suc i) (Suc j) rend obj
                              else compact_from t (Suc i) j rend obj
      else (t, j))"
  by pat_completeness auto
termination by (relation "measure (\<lambda>(t, i, j, rend, obj). rend - i)") auto

function clear_from :: "Tuple \<Rightarrow> nat \<Rightarrow> nat \<Rightarrow> Tuple" where
  "clear_from t i rend = (if i < rend then clear_from (t[i := Qnil]) (Suc i) rend else t)"
  by pat_completeness auto
termination by (relation "measure (\<lambda>(t, i, rend). rend - i)") auto

function delete_from :: "Tuple \<Rightarrow> nat \<Rightarrow> nat \<Rightarrow> oop \<Rightarrow> Tuple \<times> nat" where
  "delete_from t i rend obj =
     (if i < rend
      then if t ! i = obj
           then (case compact_from t (Suc i) i rend obj of (t, j) \<Rightarrow> (clear_from t j rend, rend - j))
           else delete_from t (Suc i) rend obj
      else (t, 0))"
  by pat_completeness auto
termination by (relation "measure (\<lambda>(t, i, rend, obj). rend - i)") auto

declare compact_from.simps [simp del] clear_from.simps [simp del] delete_from.simps [simp del]

definition Tuple_delete_inplace :: "Tuple \<Rightarrow> int \<Rightarrow> int \<Rightarrow> oop \<Rightarrow> vm_error + (Tuple \<times> nat)" where
  "Tuple_delete_inplace t start len obj =
     (let size = num_fields t; lend = int32 start; rend = int32 (lend + int32 len)
      in if size = 0 then Inr (t, 0)
         else if lend < 0 \<or> lend \<ge> size then Inl ObjectBoundsExceeded
         else if rend < 0 \<or> rend > size then Inl ObjectBoundsExceeded
         else Inr (delete_from t (nat lend) (nat rend) obj))"

definition Tuple_pattern :: "int \<Rightarrow> oop \<Rightarrow> Tuple" where
  "Tuple_pattern cnt val = replicate (nat cnt) val"

section \<open>Array\<close>

record Array =
  a_tuple :: Tuple
  a_start :: int
  a_total :: int

definition Array_create :: "int \<Rightarrow> Array" where
  "Array_create idx = \<lparr>a_tuple = Tuple_create idx, a_start = 0, a_total = 0\<rparr>"

definition Array_from_tuple :: "Tuple \<Rightarrow> vm_error + Array" where
  "Array_from_tuple tup =
     (let len = num_fields tup; ary = Array_create len
      in vbind (Tuple_copy_from (a_tuple ary) (Some tup) 0 len 0) (\<lambda>t. Inr (ary\<lparr>a_tuple := t, a_total := len\<rparr>)))"

definition Array_aref :: "Array \<Rightarrow> oop \<Rightarrow> vm_error + oop" where
  "Array_aref a idx =
     (let index = STRIP_FIXNUM_TAG idx; start = a_start a; total = start + a_total a;
          index = (if index < 0 then index + total else index + start)
      in if index \<ge> total \<or> index < start then Inr Qnil else Tuple_at (a_tuple a) (size_t_of index))"

definition Array_get :: "Array \<Rightarrow> int \<Rightarrow> vm_error + oop" where
  "Array_get a idx = (if idx \<ge> a_total a then Inr Qnil else Tuple_at (a_tuple a) (idx + a_start a))"

definition Array_set :: "Array \<Rightarrow> int \<Rightarrow> oop \<Rightarrow> vm_error + Array" where
  "Array_set a idx val =
     (let tuple_size = num_fields (a_tuple a); oidx = idx; idx = idx + a_start a
      in vbind
           (if idx \<ge> tuple_size
            then let new_size = tuple_size div 2; new_size = (if new_size < 3 then 3 else new_size)
                 in vbind (Tuple_copy_from (Tuple_create (new_size + idx)) (Some (a_tuple a)) (a_start a) (a_total a) 0)
                      (\<lambda>nt. Inr (a\<lparr>a_tuple := nt, a_start := 0\<rparr>, oidx))
            else Inr (a, idx))
           (\<lambda>(a, idx). vbind (Tuple_put (a_tuple a) idx val)
              (\<lambda>t. Inr (if a_total a \<le> oidx then a\<lparr>a_tuple := t, a_total := oidx + 1\<rparr> else a\<lparr>a_tuple := t\<rparr>))))"

definition Array_aset :: "Array \<Rightarrow> oop \<Rightarrow> oop \<Rightarrow> vm_error + Array" where
  "Array_aset a idx val =
     (let index = STRIP_FIXNUM_TAG idx in if index < 0 then Inl PrimitiveFailure else Array_set a index val)"

definition Array_concat :: "Array \<Rightarrow> Array \<Rightarrow> vm_error + Array" where
  "Array_concat a other =
     (let osize = a_total other
      in if osize = 1 then vbind (Array_get other 0) (\<lambda>v. Array_set a (a_total a) v)
         else if osize = 0 then Inr a
         else let new_size = a_total a + osize; nt = Tuple_create new_size
              in vbind (Tuple_copy_from nt (Some (a_tuple a)) (a_start a) (a_total a) 0)
                   (\<lambda>nt. vbind (Tuple_copy_from nt (Some (a_tuple other)) (a_start other) (a_total other) (a_total a))
                      (\<lambda>nt. Inr (a\<lparr>a_tuple := nt, a_start := 0, a_total := new_size\<rparr>))))"

definition Array_unshift :: "Array \<Rightarrow> oop \<Rightarrow> vm_error + Array" where
  "Array_unshift a val =
     (let new_size = a_total a + 1; lend = a_start a
      in if lend > 0
         then vbind (Tuple_put (a_tuple a) (lend - 1) val)
                (\<lambda>t. Inr (a\<lparr>a_tuple := t, a_start := lend - 1, a_total := new_size\<rparr>))
         else vbind (Tuple_copy_from (Tuple_create new_size) (Some (a_tuple a)) (a_start a) (a_total a) 1)
                (\<lambda>nt. vbind (Tuple_put nt 0 val)
                   (\<lambda>nt. Inr (a\<lparr>a_total := new_size, a_start := 0, a_tuple := nt\<rparr>))))"

definition Array_shift :: "Array \<Rightarrow> vm_error + (oop \<times> Array)" where
  "Array_shift a =
     (let cnt = a_total a
      in if cnt = 0 then Inr (Qnil, a)
         else vbind (Array_get a 0) (\<lambda>obj. vbind (Array_set a 0 Qnil)
                (\<lambda>a. Inr (obj, a\<lparr>a_start := a_start a + 1, a_total := cnt - 1\<rparr>))))"

definition Array_append :: "Array \<Rightarrow> oop \<Rightarrow> vm_error + Array" where
  "Array_append a val = Array_set a (a_total a) val"

fun includes_from :: "Array \<Rightarrow> nat \<Rightarrow> nat \<Rightarrow> oop \<Rightarrow> bool" where
  "includes_from a i 0 val = False"
| "includes_from a i (Suc n) val = (Array_get a (int i) = Inr val \<or> includes_from a (Suc i) n val)"

definition Array_includes_p :: "Array \<Rightarrow> oop \<Rightarrow> bool" where
  "Array_includes_p a val = includes_from a 0 (nat (a_total a)) val"

definition Array_pop :: "Array \<Rightarrow> vm_error + (oop \<times> Array)" where
  "Array_pop a =
     (let cnt = a_total a
      in if cnt = 0 then Inr (Qnil, a)
         else vbind (Array_get a (cnt - 1)) (\<lambda>obj. vbind (Array_set a (cnt - 1) Qnil)
                (\<lambda>a. Inr (obj, a\<lparr>a_total := cnt - 1\<rparr>))))"

section \<open>Copying between tuples\<close>

lemma copy_fields_other:
  "dst + n \<le> length t \<Longrightarrow> src + n \<le> length o1 \<Longrightarrow> copy_fields t (Some o1) src dst n = put_at t dst (take n (drop src o1))"
proof (induction n arbitrary: t src dst)
  case (Suc n)
  have "take (Suc n) (drop src o1) = o1 ! src # take n (drop (Suc src) o1)"
    using Suc.prems by (simp add: Cons_nth_drop_Suc [symmetric])
  with Suc show ?case
    by (simp add: put_at_def take_Suc_conv_app_nth drop_update_swap)
qed simp

lemma copy_fields_down:
  "dst \<le> src \<Longrightarrow> src + n \<le> length t \<Longrightarrow> copy_fields t None src dst n = put_at t dst (take n (drop src t))"
proof (induction n arbitrary: t src dst)
  case (Suc n)
  have "take (Suc n) (drop src t) = t ! src # take n (drop (Suc src) t)"
    using Suc.prems by (simp add: Cons_nth_drop_Suc [symmetric])
  with Suc show ?case
    by (simp add: put_at_def take_Suc_conv_app_nth drop_update_swap)
qed simp

definition tuple_small :: "Tuple \<Rightarrow> bool" where "tuple_small t \<longleftrightarrow> length t < 2 ^ 28"

lemma copy_from_other:
  assumes "tuple_small t" "tuple_small o1" "0 \<le> start" "0 \<le> n" "0 \<le> dest"
    and "start + n \<le> int (length o1)" "dest + n \<le> int (length t)"
  shows "Tuple_copy_from t (Some o1) start n dest = Inr (put_at t (nat dest) (take (nat n) (drop (nat start) o1)))"
proof -
  have small: "start < 2 ^ 28" "n < 2 ^ 28" "dest < 2 ^ 28" using assms by (simp_all add: tuple_small_def)
  have "copy_fields t (Some o1) (nat start) (nat dest) (nat n) = put_at t (nat dest) (take (nat n) (drop (nat start) o1))"
    using assms by (intro copy_fields_other) (simp_all add: nat_le_iff nat_add_distrib [symmetric])
  with assms small show ?thesis by (simp add: Tuple_copy_from_def num_fields_def Let_def)
qed

end
