(* ===== verification/Vm_Array_Refine.thy ===== *)
theory Vm_Array_Refine
  imports Vm_Array
begin

text \<open>
  The primitives of \<open>Array\<close> implement operations on lists. The tuple of an array is cut into the fields before
  the window, the window itself and a rest that holds only nil, which is what lets an array grow into the rest
  without writing to it. Tuples are shorter than 2^28 fields, so that their byte size fits in the \<open>int\<close> that
  stores it.
\<close>

section \<open>Representation\<close>

definition array_rep :: "Array \<Rightarrow> oop list \<Rightarrow> bool" where
  "array_rep a xs \<longleftrightarrow> tuple_small (a_tuple a) \<and>
     (\<exists>pre k. a_tuple a = pre @ xs @ replicate k Qnil \<and> a_start a = int (length pre) \<and> a_total a = int (length xs))"

definition list_set :: "oop list \<Rightarrow> nat \<Rightarrow> oop \<Rightarrow> oop list" where
  "list_set xs i v = (if i < length xs then xs[i := v] else xs @ replicate (i - length xs) Qnil @ [v])"

lemma array_repI:
  "a_tuple a = pre @ xs @ replicate k Qnil \<Longrightarrow> a_start a = int (length pre) \<Longrightarrow> a_total a = int (length xs) \<Longrightarrow>
   tuple_small (a_tuple a) \<Longrightarrow> array_rep a xs"
  unfolding array_rep_def by blast

lemma array_repE:
  assumes "array_rep a xs"
  obtains pre k where "a = \<lparr>a_tuple = pre @ xs @ replicate k Qnil, a_start = int (length pre), a_total = int (length xs)\<rparr>"
    "length pre + length xs + k < 2 ^ 28"
  using assms that by (cases a) (auto simp: array_rep_def tuple_small_def)

lemma replicate_update: "j < k \<Longrightarrow> (replicate k x)[j := v] = replicate j x @ v # replicate (k - Suc j) x"
  by (rule nth_equalityI) (auto simp: nth_append nth_Cons nth_list_update split: nat.split)

lemma window_set:
  assumes "i < length xs + k"
  shows "\<exists>k'. (pre @ xs @ replicate k Qnil)[length pre + i := v] = pre @ list_set xs i v @ replicate k' Qnil"
proof (cases "i < length xs")
  case True
  then show ?thesis by (intro exI [of _ k]) (simp add: list_set_def list_update_append)
next
  case False
  with assms have "i - length xs < k" by simp
  with False show ?thesis
    by (intro exI [of _ "k - Suc (i - length xs)"]) (simp add: list_set_def list_update_append replicate_update)
qed

lemma length_list_set: "length (list_set xs i v) = max (length xs) (Suc i)"
  by (auto simp: list_set_def)

section \<open>The operations\<close>

lemma Array_get_rep:
  assumes "array_rep a xs"
  shows "Array_get a (int i) = Inr (if i < length xs then xs ! i else Qnil)"
  using assms by (elim array_repE) (auto simp: Array_get_def Tuple_at_def num_fields_def nat_add_distrib nth_append add.commute)

lemma put_at_window: "length pre = s \<Longrightarrow> length xs = n \<Longrightarrow> n \<le> m \<Longrightarrow>
  put_at (replicate m Qnil) 0 (take n (drop s (pre @ xs @ r))) = xs @ replicate (m - n) Qnil"
  by (simp add: put_at_def)

lemma Array_set_rep:
  assumes rep: "array_rep a xs" and fits: "length (a_tuple a) div 2 + nat (a_start a) + i + 3 < 2 ^ 28"
  shows "\<exists>a'. Array_set a (int i) v = Inr a' \<and> array_rep a' (list_set xs i v) \<and> a_start a' \<le> a_start a"
proof -
  obtain pre k where a: "a = \<lparr>a_tuple = pre @ xs @ replicate k Qnil, a_start = int (length pre), a_total = int (length xs)\<rparr>"
    and small: "length pre + length xs + k < 2 ^ 28" using rep by (rule array_repE)
  let ?t = "pre @ xs @ replicate k Qnil"
  have total: "(if int (length xs) \<le> int i then int i + 1 else int (length xs)) = int (length (list_set xs i v))"
    by (auto simp: length_list_set)
  show ?thesis
  proof (cases "i < length xs + k")
    case True
    obtain k' where k': "?t[length pre + i := v] = pre @ list_set xs i v @ replicate k' Qnil"
      using window_set [OF True] by blast
    have "length (?t[length pre + i := v]) = length (pre @ list_set xs i v @ replicate k' Qnil)" unfolding k' ..
    then have len: "length pre + length (list_set xs i v) + k' = length pre + length xs + k" by simp
    define a' where "a' = \<lparr>a_tuple = ?t[length pre + i := v], a_start = int (length pre), a_total = int (length (list_set xs i v))\<rparr>"
    have "nat (int i + int (length pre)) = length pre + i" by simp
    then have "Array_set a (int i) v = Inr a'"
      using True unfolding total [symmetric] a'_def
      by (simp add: a Array_set_def Let_def num_fields_def Tuple_put_def)
    moreover have "array_rep a' (list_set xs i v)"
      by (rule array_repI [of _ pre _ k']) (use k' len small in \<open>simp_all add: a'_def tuple_small_def\<close>)
    ultimately show ?thesis by (simp add: a a'_def)
  next
    case False
    have fits: "(length pre + length xs + k) div 2 + length pre + i + 3 < 2 ^ 28" using fits by (simp add: a)
    define m where "m = max 3 ((length pre + length xs + k) div 2) + i + length pre"
    have m: "m < 2 ^ 28" "length xs \<le> m" "i < length xs + (m - length xs)" using fits False by (auto simp: m_def)
    have size: "(if int (length ?t) div 2 < 3 then 3 else int (length ?t) div 2) + (int i + int (length pre)) = int m"
      by (auto simp: m_def max_def zdiv_int)
    have copy: "Tuple_copy_from (replicate m Qnil) (Some ?t) (int (length pre)) (int (length xs)) 0 = Inr (xs @ replicate (m - length xs) Qnil)"
      using copy_from_other [of "replicate m Qnil" ?t "int (length pre)" "int (length xs)" 0] m small
        put_at_window [of pre "length pre" xs "length xs" m] by (simp add: tuple_small_def)
    obtain k' where k': "(xs @ replicate (m - length xs) Qnil)[i := v] = list_set xs i v @ replicate k' Qnil"
      using window_set [OF m(3), of "[]" v] by auto
    have "length ((xs @ replicate (m - length xs) Qnil)[i := v]) = length (list_set xs i v @ replicate k' Qnil)" unfolding k' ..
    then have len: "length (list_set xs i v) + k' = m" using m by simp
    define a' where "a' = \<lparr>a_tuple = list_set xs i v @ replicate k' Qnil, a_start = 0, a_total = int (length (list_set xs i v))\<rparr>"
    have "Array_set a (int i) v = Inr a'"
    proof -
      have big: "int (length ?t) \<le> int i + int (length pre)" using False by simp
      have put: "Tuple_put (xs @ replicate (m - length xs) Qnil) (int i) v = Inr (list_set xs i v @ replicate k' Qnil)"
        using m k' by (simp add: Tuple_put_def num_fields_def)
      show ?thesis
        unfolding a Array_set_def Let_def num_fields_def Tuple_create_def Array.simps size nat_int if_P [OF big]
          copy vbind_simps prod.case put a'_def
        using False by (simp add: length_list_set)
    qed
    moreover have "array_rep a' (list_set xs i v)"
      by (rule array_repI [of _ "[]" _ k']) (use m len in \<open>simp_all add: a'_def tuple_small_def\<close>)
    ultimately show ?thesis by (simp add: a a'_def)
  qed
qed

lemma rep_bound: "array_rep a xs \<Longrightarrow> nat (a_start a) + length xs \<le> length (a_tuple a)"
  by (auto simp: array_rep_def)

lemma fits_set: "array_rep a xs \<Longrightarrow> length (a_tuple a) + i < 2 ^ 27 \<Longrightarrow> length (a_tuple a) div 2 + nat (a_start a) + i + 3 < 2 ^ 28"
  using rep_bound [of a xs] by simp

lemma fits_append: "array_rep a xs \<Longrightarrow> length (a_tuple a) < 2 ^ 27 \<Longrightarrow> length (a_tuple a) div 2 + nat (a_start a) + length xs + 3 < 2 ^ 28"
  using rep_bound [of a xs] by simp

lemma Array_append_rep:
  assumes "array_rep a xs" and "length (a_tuple a) < 2 ^ 27"
  shows "\<exists>a'. Array_append a v = Inr a' \<and> array_rep a' (xs @ [v])"
proof -
  have "a_total a = int (length xs)" using assms(1) by (auto simp: array_rep_def)
  with Array_set_rep [OF assms(1) fits_append [OF assms], of v] show ?thesis by (auto simp: Array_append_def list_set_def)
qed

lemma Array_unshift_rep:
  assumes rep: "array_rep a xs" and fits: "length (a_tuple a) < 2 ^ 27"
  shows "\<exists>a'. Array_unshift a v = Inr a' \<and> array_rep a' (v # xs)"
proof -
  obtain pre k where a: "a = \<lparr>a_tuple = pre @ xs @ replicate k Qnil, a_start = int (length pre), a_total = int (length xs)\<rparr>"
    using rep by (rule array_repE)
  have small: "length pre + length xs + k < 2 ^ 27" using fits by (simp add: a)
  show ?thesis
  proof (cases "pre = []")
    case True
    have "Tuple_copy_from (replicate (Suc (length xs)) Qnil) (Some (xs @ replicate k Qnil)) 0 (int (length xs)) 1 = Inr (Qnil # xs)"
      using copy_from_other [of "replicate (Suc (length xs)) Qnil" "xs @ replicate k Qnil" 0 "int (length xs)" 1] small
      by (simp add: tuple_small_def put_at_def)
    then have "Array_unshift a v = Inr \<lparr>a_tuple = v # xs, a_start = 0, a_total = int (length (v # xs))\<rparr>"
      using True by (simp add: a Array_unshift_def Let_def Tuple_create_def Tuple_put_def num_fields_def nat_add_distrib add.commute)
    moreover have "array_rep \<lparr>a_tuple = v # xs, a_start = 0, a_total = int (length (v # xs))\<rparr> (v # xs)"
      by (rule array_repI [of _ "[]" _ 0]) (use small in \<open>simp_all add: tuple_small_def\<close>)
    ultimately show ?thesis by blast
  next
    case False
    then obtain pre' y where pre: "pre = pre' @ [y]" by (cases pre rule: rev_cases) auto
    let ?a = "\<lparr>a_tuple = pre' @ (v # xs) @ replicate k Qnil, a_start = int (length pre'), a_total = int (length (v # xs))\<rparr>"
    have "Array_unshift a v = Inr ?a"
      by (simp add: a pre Array_unshift_def Let_def Tuple_put_def num_fields_def list_update_append)
    moreover have "array_rep ?a (v # xs)"
      by (rule array_repI [of _ pre' _ k]) (use small in \<open>simp_all add: pre tuple_small_def\<close>)
    ultimately show ?thesis by blast
  qed
qed

lemma Array_shift_rep:
  assumes rep: "array_rep a xs"
  shows "\<exists>a'. Array_shift a = Inr (if xs = [] then Qnil else hd xs, a') \<and> array_rep a' (tl xs)"
proof (cases xs)
  case Nil
  with rep have "a_total a = 0" by (auto simp: array_rep_def)
  with rep Nil show ?thesis by (simp add: Array_shift_def)
next
  case (Cons y ys)
  obtain pre k where a: "a = \<lparr>a_tuple = pre @ xs @ replicate k Qnil, a_start = int (length pre), a_total = int (length xs)\<rparr>"
    and small: "length pre + length xs + k < 2 ^ 28" using rep by (rule array_repE)
  let ?a = "\<lparr>a_tuple = (pre @ [Qnil]) @ ys @ replicate k Qnil, a_start = int (length (pre @ [Qnil])), a_total = int (length ys)\<rparr>"
  have "Array_shift a = Inr (y, ?a)"
    by (simp add: a Cons Array_shift_def Array_get_def Array_set_def Let_def Tuple_at_def Tuple_put_def num_fields_def
        nth_append list_update_append)
  moreover have "array_rep ?a ys"
    by (rule array_repI [of _ "pre @ [Qnil]" _ k]) (use small Cons in \<open>simp_all add: tuple_small_def\<close>)
  ultimately show ?thesis using Cons by auto
qed

lemma Array_pop_rep:
  assumes rep: "array_rep a xs"
  shows "\<exists>a'. Array_pop a = Inr (if xs = [] then Qnil else last xs, a') \<and> array_rep a' (butlast xs)"
proof (cases xs rule: rev_cases)
  case Nil
  with rep have "a_total a = 0" by (auto simp: array_rep_def)
  with rep Nil show ?thesis by (simp add: Array_pop_def)
next
  case (snoc ys y)
  obtain pre k where a: "a = \<lparr>a_tuple = pre @ xs @ replicate k Qnil, a_start = int (length pre), a_total = int (length xs)\<rparr>"
    and small: "length pre + length xs + k < 2 ^ 28" using rep by (rule array_repE)
  let ?a = "\<lparr>a_tuple = pre @ ys @ replicate (Suc k) Qnil, a_start = int (length pre), a_total = int (length ys)\<rparr>"
  have "Array_pop a = Inr (y, ?a)"
    by (simp add: a snoc Array_pop_def Array_get_def Array_set_def Let_def Tuple_at_def Tuple_put_def num_fields_def
        nth_append list_update_append nat_add_distrib)
  moreover have "array_rep ?a ys"
    by (rule array_repI [of _ pre _ "Suc k"]) (use small snoc in \<open>simp_all add: tuple_small_def\<close>)
  ultimately show ?thesis using snoc by auto
qed

lemma Array_from_tuple_rep: "tuple_small ys \<Longrightarrow> \<exists>o1. Array_from_tuple ys = Inr o1 \<and> array_rep o1 ys"
  using copy_from_other [of "replicate (length ys) Qnil" ys 0 "int (length ys)" 0]
  by (simp add: Array_from_tuple_def Array_create_def Let_def Tuple_create_def num_fields_def tuple_small_def put_at_def
      array_rep_def)

lemma Array_concat_rep:
  assumes rep: "array_rep a xs" and other: "array_rep o1 ys" and fits: "length (a_tuple a) + length ys < 2 ^ 27"
  shows "\<exists>a'. Array_concat a o1 = Inr a' \<and> array_rep a' (xs @ ys)"
proof -
  obtain pre k where a: "a = \<lparr>a_tuple = pre @ xs @ replicate k Qnil, a_start = int (length pre), a_total = int (length xs)\<rparr>"
    using rep by (rule array_repE)
  obtain pre' k' where o1: "o1 = \<lparr>a_tuple = pre' @ ys @ replicate k' Qnil, a_start = int (length pre'), a_total = int (length ys)\<rparr>"
    and small': "length pre' + length ys + k' < 2 ^ 28" using other by (rule array_repE)
  have small: "length pre + length xs + k + length ys < 2 ^ 27" using fits by (simp add: a)
  consider "ys = []" | y where "ys = [y]" | "2 \<le> length ys" by (cases ys; cases "tl ys") auto
  then show ?thesis
  proof cases
    case 1
    with rep show ?thesis by (simp add: o1 Array_concat_def Let_def)
  next
    case (2 y)
    have "Array_get o1 0 = Inr y" using Array_get_rep [OF other, of 0] 2 by simp
    then have "Array_concat a o1 = Array_append a y"
      by (simp add: Array_concat_def Array_append_def Let_def 2 o1)
    with 2 Array_append_rep [OF rep, of y] fits show ?thesis by simp
  next
    case 3
    let ?n = "length xs + length ys"
    have c1: "Tuple_copy_from (replicate ?n Qnil) (Some (pre @ xs @ replicate k Qnil)) (int (length pre)) (int (length xs)) 0
        = Inr (xs @ replicate (length ys) Qnil)"
      using copy_from_other [of "replicate ?n Qnil" "pre @ xs @ replicate k Qnil" "int (length pre)" "int (length xs)" 0]
        put_at_window [of pre "length pre" xs "length xs" ?n] small by (simp add: tuple_small_def)
    have c2: "Tuple_copy_from (xs @ replicate (length ys) Qnil) (Some (pre' @ ys @ replicate k' Qnil))
        (int (length pre')) (int (length ys)) (int (length xs)) = Inr (xs @ ys)"
      using copy_from_other [of "xs @ replicate (length ys) Qnil" "pre' @ ys @ replicate k' Qnil" "int (length pre')" "int (length ys)" "int (length xs)"]
        small small' by (simp add: tuple_small_def put_at_def)
    have "Array_concat a o1 = Inr \<lparr>a_tuple = xs @ ys, a_start = 0, a_total = int (length (xs @ ys))\<rparr>"
      using 3 c1 c2 by (auto simp: Array_concat_def Let_def a o1 Tuple_create_def nat_add_distrib)
    moreover have "array_rep \<lparr>a_tuple = xs @ ys, a_start = 0, a_total = int (length (xs @ ys))\<rparr> (xs @ ys)"
      by (rule array_repI [of _ "[]" _ 0]) (use small in \<open>simp_all add: tuple_small_def\<close>)
    ultimately show ?thesis by blast
  qed
qed

section \<open>Runs\<close>

datatype array_op =
  Get nat | Set nat oop | Append oop | Unshift oop | Shift | Pop | Concat "oop list"

fun array_exec :: "array_op \<Rightarrow> Array \<Rightarrow> vm_error + (oop \<times> Array)" where
  "array_exec (Get i) a = vbind (Array_get a (int i)) (\<lambda>v. Inr (v, a))"
| "array_exec (Set i v) a = vbind (Array_set a (int i) v) (\<lambda>a. Inr (v, a))"
| "array_exec (Append v) a = vbind (Array_append a v) (\<lambda>a. Inr (v, a))"
| "array_exec (Unshift v) a = vbind (Array_unshift a v) (\<lambda>a. Inr (v, a))"
| "array_exec Shift a = Array_shift a"
| "array_exec Pop a = Array_pop a"
| "array_exec (Concat ys) a = vbind (Array_from_tuple ys) (\<lambda>o1. vbind (Array_concat a o1) (\<lambda>a. Inr (Qnil, a)))"

fun seq_exec :: "array_op \<Rightarrow> oop list \<Rightarrow> oop \<times> oop list" where
  "seq_exec (Get i) xs = (if i < length xs then xs ! i else Qnil, xs)"
| "seq_exec (Set i v) xs = (v, list_set xs i v)"
| "seq_exec (Append v) xs = (v, xs @ [v])"
| "seq_exec (Unshift v) xs = (v, v # xs)"
| "seq_exec Shift xs = (if xs = [] then Qnil else hd xs, tl xs)"
| "seq_exec Pop xs = (if xs = [] then Qnil else last xs, butlast xs)"
| "seq_exec (Concat ys) xs = (Qnil, xs @ ys)"

fun op_size :: "array_op \<Rightarrow> nat" where
  "op_size (Set i v) = i" | "op_size (Concat ys) = length ys" | "op_size op = 0"

fun array_run :: "array_op list \<Rightarrow> Array \<Rightarrow> vm_error + (oop list \<times> Array)" where
  "array_run [] a = Inr ([], a)"
| "array_run (op # ops) a = vbind (array_exec op a) (\<lambda>(v, a). vbind (array_run ops a) (\<lambda>(vs, a). Inr (v # vs, a)))"

fun seq_run :: "array_op list \<Rightarrow> oop list \<Rightarrow> oop list \<times> oop list" where
  "seq_run [] xs = ([], xs)"
| "seq_run (op # ops) xs = (let (v, xs) = seq_exec op xs; (vs, xs) = seq_run ops xs in (v # vs, xs))"

text \<open>Before every operation the tuple and the argument together have fewer than 2^27 fields.\<close>

fun run_fits :: "array_op list \<Rightarrow> Array \<Rightarrow> bool" where
  "run_fits [] a = True"
| "run_fits (op # ops) a =
     (length (a_tuple a) + op_size op < 2 ^ 27 \<and> (case array_exec op a of Inl _ \<Rightarrow> True | Inr (v, a) \<Rightarrow> run_fits ops a))"

lemma array_exec_rep:
  assumes rep: "array_rep a xs" and fits: "length (a_tuple a) + op_size op < 2 ^ 27"
  shows "\<exists>a'. array_exec op a = Inr (fst (seq_exec op xs), a') \<and> array_rep a' (snd (seq_exec op xs))"
proof (cases op)
  case (Get i)
  with Array_get_rep [OF rep, of i] rep show ?thesis by simp
next
  case (Set i v)
  with Array_set_rep [OF rep fits_set [OF rep], of i v] fits show ?thesis by auto
next
  case (Append v)
  with Array_append_rep [OF rep, of v] fits show ?thesis by auto
next
  case (Unshift v)
  with Array_unshift_rep [OF rep, of v] fits show ?thesis by auto
next
  case (Concat ys)
  with fits have "tuple_small ys" by (simp add: tuple_small_def)
  then obtain o1 where "Array_from_tuple ys = Inr o1" "array_rep o1 ys" using Array_from_tuple_rep by blast
  with Array_concat_rep [OF rep, of o1 ys] fits Concat show ?thesis by auto
qed (use Array_shift_rep [OF rep] Array_pop_rep [OF rep] in simp_all)

text \<open>C14. Arrays behave as lists. Any sequence of reads, writes, appends, unshifts, shifts, pops and concatenations
  returns what it returns on the list of the array's elements and leaves the array with the elements of the
  list that results, never raising an exception: reads beyond the end give nil, a write beyond the end fills the gap
  with nil, whatever fields the tuple has in front of and behind its window and whenever it is replaced by a
  larger one. (Tuples are assumed to stay below 2^27 fields.)\<close>

theorem array_runs_refine_lists:
  assumes "array_rep a xs" and "run_fits ops a"
  shows "\<exists>a'. array_run ops a = Inr (fst (seq_run ops xs), a') \<and> array_rep a' (snd (seq_run ops xs))"
  using assms
proof (induction ops arbitrary: a xs)
  case (Cons op ops)
  then obtain a1 where a1: "array_exec op a = Inr (fst (seq_exec op xs), a1)" "array_rep a1 (snd (seq_exec op xs))"
    using array_exec_rep by force
  with Cons.prems have "run_fits ops a1" by simp
  from Cons.IH [OF a1(2) this] a1(1) show ?case by (auto simp: case_prod_beta Let_def)
qed simp

theorem array_runs_refine_lists_witness:
  "\<exists>a'. array_run [Append 3, Unshift 5, Pop] (Array_create 1) = Inr ([3, 5, 3], a') \<and> array_rep a' [5]"
proof -
  have create: "Array_create 1 = \<lparr>a_tuple = [Qnil], a_start = 0, a_total = 0\<rparr>"
    by (simp add: Array_create_def Tuple_create_def)
  have rep: "array_rep (Array_create 1) []"
    by (rule array_repI [of _ "[]" _ 1]) (simp_all add: create tuple_small_def)
  have "Array_append (Array_create 1) 3 = Inr \<lparr>a_tuple = [3], a_start = 0, a_total = 1\<rparr>"
    by (simp add: create Array_append_def Array_set_def Let_def num_fields_def Tuple_put_def)
  moreover have "Tuple_copy_from [Qnil, Qnil] (Some [3]) 0 1 1 = Inr [Qnil, 3]"
    by code_simp
  then have "Array_unshift \<lparr>a_tuple = [3], a_start = 0, a_total = 1\<rparr> 5 = Inr \<lparr>a_tuple = [5, 3], a_start = 0, a_total = 2\<rparr>"
    by (simp add: Array_unshift_def Let_def Tuple_create_def Tuple_put_def num_fields_def numeral_2_eq_2)
  ultimately have "run_fits [Append 3, Unshift 5, Pop] (Array_create 1)"
    by (simp add: create split: sum.split)
  from array_runs_refine_lists [OF rep this] show ?thesis by simp
qed

section \<open>Deleting within a tuple\<close>

lemma compact_from_filter:
  assumes "j \<le> i" and "i \<le> rend" and "rend \<le> length t"
  shows "compact_from t i j rend obj =
    (let f = filter (\<lambda>v. v \<noteq> obj) (take (rend - i) (drop i t)) in (put_at t j f, j + length f))"
  using assms
proof (induction t i j rend obj rule: compact_from.induct)
  case (1 t i j rend obj)
  show ?case
  proof (cases "i < rend")
    case True
    then have step: "take (rend - i) (drop i t) = t ! i # take (rend - Suc i) (drop (Suc i) t)"
      using "1.prems" by (simp add: Cons_nth_drop_Suc [symmetric] Suc_diff_Suc [symmetric])
    show ?thesis
    proof (cases "t ! i = obj")
      case eq: True
      with True "1.IH"(2) [OF True refl] "1.prems" step show ?thesis by (simp add: compact_from.simps [of t i] Let_def)
    next
      case False
      with True "1.IH"(1) [OF True refl] "1.prems" step show ?thesis
        by (simp add: compact_from.simps [of t i] Let_def put_at_Cons)
    qed
  next
    case False
    with "1.prems" show ?thesis by (subst compact_from.simps) (simp add: Let_def)
  qed
qed

lemma clear_from_nil: "i \<le> rend \<Longrightarrow> rend \<le> length t \<Longrightarrow> clear_from t i rend = put_at t i (replicate (rend - i) Qnil)"
proof (induction t i rend rule: clear_from.induct)
  case (1 t i rend)
  show ?case
  proof (cases "i < rend")
    case True
    then have "rend - i = Suc (rend - Suc i)" by simp
    with True "1" show ?thesis by (simp add: clear_from.simps [of t i rend] put_at_Cons)
  next
    case False
    with "1.prems" show ?thesis by (subst clear_from.simps) simp
  qed
qed

lemma put_at_twice:
  "i + length f \<le> length t \<Longrightarrow> put_at (put_at t i f) (i + length f) g = put_at t i (f @ g)"
  by (simp add: put_at_def min_def drop_drop [symmetric] add.commute add.left_commute del: drop_drop) (cases f; auto simp: add.commute add.left_commute)

lemma put_at_self: "i + n \<le> length t \<Longrightarrow> put_at t i (take n (drop i t)) = t"
  by (simp add: put_at_def) (metis add.commute append_take_drop_id drop_drop)

definition without :: "oop \<Rightarrow> oop list \<Rightarrow> oop list" where
  "without obj ws = (let f = filter (\<lambda>v. v \<noteq> obj) ws in f @ replicate (length ws - length f) Qnil)"

lemma delete_from_without:
  "i \<le> rend \<Longrightarrow> rend \<le> length t \<Longrightarrow>
   delete_from t i rend obj =
     (put_at t i (without obj (take (rend - i) (drop i t))), count_list (take (rend - i) (drop i t)) obj)"
proof (induction t i rend obj rule: delete_from.induct)
  case (1 t i rend obj)
  show ?case
  proof (cases "i < rend")
    case True
    let ?ws = "take (rend - i) (drop i t)" and ?ws' = "take (rend - Suc i) (drop (Suc i) t)"
    have step: "?ws = t ! i # ?ws'" using True "1.prems" by (simp add: Cons_nth_drop_Suc [symmetric] Suc_diff_Suc [symmetric])
    let ?f = "filter (\<lambda>v. v \<noteq> obj) ?ws"
    have f: "length ?f \<le> rend - i" using length_filter_le [of "\<lambda>v. v \<noteq> obj" ?ws] by simp
    have "filter ((=) obj) ?ws = filter (\<lambda>v. v = obj) ?ws" by (rule filter_cong) auto
    then have count: "count_list ?ws obj = rend - i - length ?f"
      using sum_length_filter_compl [of "\<lambda>v. v = obj" ?ws] "1.prems" by (simp add: count_list_eq_length_filter)
    show ?thesis
    proof (cases "t ! i = obj")
      case eq: True
      have ff: "filter (\<lambda>v. v \<noteq> obj) ?ws' = ?f" using step eq by simp
      have "compact_from t (Suc i) i rend obj = (put_at t i ?f, i + length ?f)"
        using compact_from_filter [of i "Suc i" rend t obj] True "1.prems" ff by (simp add: Let_def)
      moreover have "clear_from (put_at t i ?f) (i + length ?f) rend = put_at t i (without obj ?ws)"
        using f "1.prems" True by (subst clear_from_nil) (simp_all add: length_put_at put_at_twice without_def Let_def)
      ultimately show ?thesis using True eq count f by (simp add: delete_from.simps [of t i rend obj])
    next
      case False
      have "put_at t i (without obj ?ws) = put_at t (Suc i) (without obj ?ws')"
        using put_at_Cons [of i t "t ! i" "without obj ?ws'"] False True "1.prems" step by (simp add: without_def Let_def)
      with True False "1.IH" [OF True False] "1.prems" step show ?thesis by (simp add: delete_from.simps [of t i rend obj])
    qed
  next
    case False
    with "1.prems" show ?thesis by (subst delete_from.simps) (simp add: without_def)
  qed
qed

text \<open>\<open>Tuple#delete_inplace\<close> removes every occurrence of the object from the given range: the other fields of the range
  keep their order and move to its start, the freed fields become nil, nothing outside the range changes, and
  the number of fields freed is returned. A range that does not lie within the tuple raises an error.\<close>

theorem tuple_delete_inplace:
  assumes "tuple_small t" and "t \<noteq> []" and "\<bar>start\<bar> < 2 ^ 28" and "\<bar>len\<bar> < 2 ^ 28"
  shows "Tuple_delete_inplace t start len obj =
    (if 0 \<le> start \<and> start < int (length t) \<and> 0 \<le> start + len \<and> start + len \<le> int (length t)
     then if 0 \<le> len
          then let ws = take (nat len) (drop (nat start) t)
               in Inr (put_at t (nat start) (without obj ws), count_list ws obj)
          else Inr (t, 0)
     else Inl ObjectBoundsExceeded)"
proof -
  have "delete_from t (nat start) (nat (start + len)) obj =
     (let ws = take (nat len) (drop (nat start) t) in (put_at t (nat start) (without obj ws), count_list ws obj))"
    if "0 \<le> start" "0 \<le> len" "start + len \<le> int (length t)"
    using that delete_from_without [of "nat start" "nat (start + len)" t obj] by (simp add: Let_def nat_add_distrib)
  moreover have "delete_from t (nat start) (nat (start + len)) obj = (t, 0)" if "0 \<le> start" "len < 0"
    using that by (simp add: delete_from.simps [of t "nat start"])
  ultimately show ?thesis
    using assms by (auto simp: Tuple_delete_inplace_def Let_def num_fields_def not_le not_less)
qed

theorem tuple_delete_inplace_witness: "Tuple_delete_inplace [1, 2, 1, 3, 1] 1 3 1 = Inr ([1, 2, 3, Qnil, 1], 1)"
  using tuple_delete_inplace [of "[1, 2, 1, 3, 1]" 1 3 1]
  by (simp add: tuple_small_def without_def put_at_def Let_def numeral_3_eq_3)

end
