(* ===== verification/Vm_List.thy ===== *)
theory Vm_List
  imports Vm_Oop
begin

text \<open>
  \<open>List\<close>, the machine's singly linked list (\<open>vm/builtin/list.hpp\<close>, \<open>list.cpp\<close>), with which channels and
  threads queue. The nodes are kept in a store, a node is named by its position in it and \<open>None\<close> is nil: the
  operations share nodes and change their links in place. \<open>None\<close> as the result of an operation is a crash, the
  use of nil as a node. The loop of \<open>remove\<close> has the number of nodes as its fuel, which is enough for every
  list without a cycle.
\<close>

section \<open>Nodes and lists\<close>

record ListNode =
  node_object :: oop
  node_next :: "nat option"

record List =
  nodes :: "ListNode list"
  l_first :: "nat option"
  l_last :: "nat option"
  l_count :: int

definition List_empty_p :: "List \<Rightarrow> bool" where "List_empty_p l \<longleftrightarrow> l_count l = 0"
definition List_size :: "List \<Rightarrow> int" where "List_size l = l_count l"
definition List_create :: List where "List_create = \<lparr>nodes = [], l_first = None, l_last = None, l_count = 0\<rparr>"

definition set_next :: "ListNode list \<Rightarrow> nat \<Rightarrow> nat option \<Rightarrow> ListNode list" where
  "set_next ns i n = ns[i := (ns ! i)\<lparr>node_next := n\<rparr>]"

definition List_append :: "List \<Rightarrow> oop \<Rightarrow> List" where
  "List_append l obj =
     (let node = length (nodes l);
          cur_last = l_last l;
          ns = nodes l @ [\<lparr>node_object = obj, node_next = None\<rparr>];
          ns = (case cur_last of None \<Rightarrow> ns | Some i \<Rightarrow> set_next ns i (Some node))
      in \<lparr>nodes = ns, l_first = (if l_first l = None then Some node else l_first l), l_last = Some node,
          l_count = l_count l + 1\<rparr>)"

fun locate_from :: "ListNode list \<Rightarrow> nat option \<Rightarrow> nat \<Rightarrow> oop" where
  "locate_from ns None index = Qnil"
| "locate_from ns (Some i) 0 = node_object (ns ! i)"
| "locate_from ns (Some i) (Suc index) = locate_from ns (node_next (ns ! i)) index"

definition List_locate :: "List \<Rightarrow> nat \<Rightarrow> oop" where
  "List_locate l index = locate_from (nodes l) (l_first l) index"

definition List_shift :: "List \<Rightarrow> (oop \<times> List) option" where
  "List_shift l =
     (if List_empty_p l then Some (Qnil, l)
      else case l_first l of None \<Rightarrow> None
      | Some n \<Rightarrow> Some (node_object (nodes l ! n),
          l\<lparr>l_count := l_count l - 1, l_first := node_next (nodes l ! n),
            l_last := (if l_last l = Some n then None else l_last l)\<rparr>))"

fun remove_loop :: "nat \<Rightarrow> oop \<Rightarrow> List \<Rightarrow> nat option \<Rightarrow> nat option \<Rightarrow> nat \<Rightarrow> nat \<Rightarrow> (nat \<times> nat \<times> List) option" where
  "remove_loop fuel obj l None lst deleted counted = Some (deleted, counted, l)"
| "remove_loop 0 obj l (Some node) lst deleted counted = None"
| "remove_loop (Suc fuel) obj l (Some node) lst deleted counted =
     (let nxt = node_next (nodes l ! node)
      in if node_object (nodes l ! node) = obj
         then let l = (case lst of None \<Rightarrow> l\<lparr>l_first := nxt\<rparr> | Some i \<Rightarrow> l\<lparr>nodes := set_next (nodes l) i nxt\<rparr>);
                  l = (if l_last l = Some node then l\<lparr>l_last := lst\<rparr> else l)
              in remove_loop fuel obj l nxt None (deleted + 1) counted
         else remove_loop fuel obj l nxt (Some node) deleted (counted + 1))"

definition List_remove :: "List \<Rightarrow> oop \<Rightarrow> (nat \<times> List) option" where
  "List_remove l obj =
     (if List_empty_p l then Some (0, l)
      else map_option (\<lambda>(deleted, counted, l). (deleted, l\<lparr>l_count := int counted\<rparr>))
             (remove_loop (length (nodes l)) obj l (l_first l) None 0 0))"

section \<open>What a list holds\<close>

fun path :: "ListNode list \<Rightarrow> nat option \<Rightarrow> nat list \<Rightarrow> bool" where
  "path ns n [] = (n = None)"
| "path ns n (i # is) = (n = Some i \<and> i < length ns \<and> path ns (node_next (ns ! i)) is)"

definition objects :: "ListNode list \<Rightarrow> nat list \<Rightarrow> oop list" where
  "objects ns is = map (\<lambda>i. node_object (ns ! i)) is"

definition last_of :: "nat list \<Rightarrow> nat option" where
  "last_of is = (if is = [] then None else Some (last is))"

text \<open>The links of a list hold the objects \<open>xs\<close>; the list is well formed when its count is their number.\<close>

definition list_holds :: "List \<Rightarrow> oop list \<Rightarrow> bool" where
  "list_holds l xs \<longleftrightarrow>
     (\<exists>is. path (nodes l) (l_first l) is \<and> distinct is \<and> objects (nodes l) is = xs \<and> l_last l = last_of is)"

definition list_rep :: "List \<Rightarrow> oop list \<Rightarrow> bool" where
  "list_rep l xs \<longleftrightarrow> list_holds l xs \<and> l_count l = int (length xs)"

lemma path_bound: "path ns n is \<Longrightarrow> i \<in> set is \<Longrightarrow> i < length ns"
  by (induction "is" arbitrary: n) auto

lemma path_cong:
  "path ns n is \<Longrightarrow> (\<And>i. i \<in> set is \<Longrightarrow> i < length ns' \<and> node_next (ns' ! i) = node_next (ns ! i)) \<Longrightarrow> path ns' n is"
  by (induction "is" arbitrary: n) auto

lemma set_next_simps [simp]:
  "length (set_next ns a m) = length ns"
  "set_next ns a m ! i = (if i = a \<and> a < length ns then (ns ! a)\<lparr>node_next := m\<rparr> else ns ! i)"
  by (auto simp: set_next_def nth_list_update not_less list_update_beyond)

lemma path_redirect:
  "path ns n (as @ a # bs) \<Longrightarrow> distinct (as @ [a]) \<Longrightarrow> path ns m cs \<Longrightarrow> a \<notin> set cs \<Longrightarrow>
   path (set_next ns a m) n (as @ a # cs)"
proof (induction as arbitrary: n)
  case Nil
  then show ?case
    by (auto intro!: path_cong [of ns m cs] dest: path_bound)
next
  case (Cons b as)
  then show ?case by auto
qed

lemma objects_set_next [simp]: "objects (set_next ns a m) is = objects ns is"
  by (auto simp: objects_def)

section \<open>The operations\<close>

lemma List_create_holds: "list_rep List_create []"
  by (auto simp: list_rep_def list_holds_def List_create_def objects_def last_of_def intro!: exI [of _ "[]"])

lemma list_append_rep:
  assumes "list_rep l xs"
  shows "list_rep (List_append l x) (xs @ [x])"
proof -
  obtain "is" where p: "path (nodes l) (l_first l) is" "distinct is" "objects (nodes l) is = xs" "l_last l = last_of is"
    and count: "l_count l = int (length xs)" using assms by (auto simp: list_rep_def list_holds_def)
  define node where "node = length (nodes l)"
  define ns where "ns = nodes l @ [\<lparr>node_object = x, node_next = None\<rparr>]"
  have new: "node \<notin> set is" using p(1) path_bound by (fastforce simp: node_def)
  have old: "path ns (l_first l) is" by (rule path_cong [OF p(1)]) (use path_bound [OF p(1)] in \<open>auto simp: ns_def nth_append intro: less_SucI\<close>)
  have "node_object (ns ! i) = node_object (nodes l ! i)" if "i \<in> set is" for i
    using path_bound [OF p(1) that] by (simp add: ns_def nth_append)
  then have "objects ns is = objects (nodes l) is" by (simp add: objects_def)
  moreover have "objects ns (is @ [node]) = objects ns is @ [x]" by (simp add: objects_def ns_def node_def)
  ultimately have obj: "objects ns (is @ [node]) = xs @ [x]" using p(3) by simp
  have node: "path ns (Some node) [node]" by (simp add: ns_def node_def)
  show ?thesis
  proof (cases "is" rule: rev_cases)
    case Nil
    with p old obj node count show ?thesis
      by (auto simp: list_rep_def list_holds_def List_append_def Let_def last_of_def ns_def [symmetric] node_def [symmetric]
          intro!: exI [of _ "[node]"])
  next
    case (snoc js j)
    have first: "l_first l \<noteq> None" using p(1) snoc by (cases js) auto
    have "path (set_next ns j (Some node)) (l_first l) (js @ j # [node])"
      by (rule path_redirect [of ns _ js j "[]"]) (use old snoc p(2) new node in auto)
    moreover have "distinct (js @ j # [node])" using snoc p(2) new by auto
    moreover have "objects (set_next ns j (Some node)) (js @ j # [node]) = xs @ [x]" using obj snoc by simp
    moreover have "List_append l x = \<lparr>nodes = set_next ns j (Some node), l_first = l_first l, l_last = Some node, l_count = l_count l + 1\<rparr>"
      using p(4) snoc first by (simp add: List_append_def Let_def last_of_def ns_def node_def)
    ultimately show ?thesis using count
      by (auto simp: list_rep_def list_holds_def last_of_def intro!: exI [of _ "js @ j # [node]"])
  qed
qed

lemma list_locate_from: "path ns n is \<Longrightarrow> locate_from ns n k = (if k < length is then objects ns is ! k else Qnil)"
  by (induction "is" arbitrary: n k) (auto simp: objects_def gr0_conv_Suc nth_Cons split: nat.split)

lemma list_locate_rep: "list_rep l xs \<Longrightarrow> List_locate l k = (if k < length xs then xs ! k else Qnil)"
  by (auto simp: list_rep_def list_holds_def List_locate_def list_locate_from) (auto simp: objects_def)

lemma list_shift_rep:
  assumes "list_rep l xs"
  shows "\<exists>l'. List_shift l = Some (if xs = [] then Qnil else hd xs, l') \<and> list_rep l' (tl xs)"
proof (cases xs)
  case Nil
  with assms show ?thesis by (simp add: List_shift_def List_empty_p_def list_rep_def)
next
  case (Cons x ys)
  obtain "is" where p: "path (nodes l) (l_first l) is" "distinct is" "objects (nodes l) is = xs" "l_last l = last_of is"
    and count: "l_count l = int (length xs)" using assms by (auto simp: list_rep_def list_holds_def)
  then obtain i js where js: "is = i # js" using Cons by (cases "is") (auto simp: objects_def)
  have "l_last l = Some i \<longleftrightarrow> js = []" using p(2,4) js by (auto simp: last_of_def)
  then have "(if l_last l = Some i then None else l_last l) = last_of js" using p(4) js by (simp add: last_of_def)
  with p js count Cons show ?thesis
    by (auto simp: List_shift_def List_empty_p_def list_rep_def list_holds_def objects_def intro!: exI [of _ js])
qed

section \<open>Removal\<close>

text \<open>The objects that stay in the list: when the object removed follows another one removed, or stands first, the list
  starts anew behind it.\<close>

fun survivors :: "oop \<Rightarrow> bool \<Rightarrow> oop list \<Rightarrow> oop list \<Rightarrow> oop list" where
  "survivors obj fresh kept [] = kept"
| "survivors obj fresh kept (x # xs) =
     (if x = obj then survivors obj True (if fresh then [] else kept) xs else survivors obj False (kept @ [x]) xs)"

lemma remove_loop_survivors:
  assumes "path (nodes l) (l_first l) (ks @ is)" and "path (nodes l) node is" and "distinct (ks @ is)"
    and "lst = None \<or> ks \<noteq> [] \<and> lst = Some (last ks)" and "l_last l = last_of (ks @ is)"
    and "length is \<le> fuel"
  shows "\<exists>l'. remove_loop fuel obj l node lst d c =
      Some (d + count_list (objects (nodes l) is) obj, c + length (filter (\<lambda>x. x \<noteq> obj) (objects (nodes l) is)), l')
    \<and> list_holds l' (survivors obj (lst = None) (objects (nodes l) ks) (objects (nodes l) is))"
  using assms
proof (induction "is" arbitrary: l ks node lst d c fuel)
  case Nil
  then show ?case by (cases fuel) (auto simp: list_holds_def objects_def)
next
  case (Cons i "is")
  then obtain fuel' where fuel: "fuel = Suc fuel'" by (cases fuel) auto
  let ?nxt = "node_next (nodes l ! i)"
  have node: "node = Some i" "path (nodes l) ?nxt is" using Cons.prems(2) by auto
  show ?case
  proof (cases "node_object (nodes l ! i) = obj")
    case True
    define l1 where "l1 = (case lst of None \<Rightarrow> l\<lparr>l_first := ?nxt\<rparr> | Some k \<Rightarrow> l\<lparr>nodes := set_next (nodes l) k ?nxt\<rparr>)"
    define l2 where "l2 = (if l_last l1 = Some i then l1\<lparr>l_last := lst\<rparr> else l1)"
    define ks' where "ks' = (if lst = None then [] else ks)"
    have last_i: "l_last l = Some i \<longleftrightarrow> is = []" using Cons.prems(3,5) by (auto simp: last_of_def)
    have last2: "l_last l2 = last_of (ks' @ is)"
      using Cons.prems(4,5) last_i by (auto simp: l2_def l1_def ks'_def last_of_def split: option.split)
    have obj2: "objects (nodes l2) js = objects (nodes l) js" for js by (simp add: l2_def l1_def split: option.split)
    have path2: "path (nodes l2) (l_first l2) (ks' @ is) \<and> path (nodes l2) ?nxt is"
    proof (cases lst)
      case None
      then show ?thesis using node by (simp add: l2_def l1_def ks'_def)
    next
      case (Some k)
      with Cons.prems(4) obtain js where ks: "ks = js @ [k]" by (cases ks rule: rev_cases) auto
      have "path (set_next (nodes l) k ?nxt) (l_first l) (js @ k # is)"
        by (rule path_redirect [of _ _ js k "i # is"]) (use Cons.prems(1,3) ks node in auto)
      moreover have "path (set_next (nodes l) k ?nxt) ?nxt is"
        by (rule path_cong [OF node(2)]) (use path_bound [OF node(2)] Cons.prems(3) ks in auto)
      ultimately show ?thesis using Some ks by (simp add: l2_def l1_def ks'_def)
    qed
    have "distinct (ks' @ is)" using Cons.prems(3) by (auto simp: ks'_def)
    from Cons.IH [OF conjunct1 [OF path2] conjunct2 [OF path2] this _ last2, of None fuel' "d + 1" c] Cons.prems(6) fuel
    obtain l' where "remove_loop fuel' obj l2 ?nxt None (d + 1) c =
        Some (d + 1 + count_list (objects (nodes l) is) obj, c + length (filter (\<lambda>x. x \<noteq> obj) (objects (nodes l) is)), l')"
      "list_holds l' (survivors obj True (objects (nodes l) ks') (objects (nodes l) is))" by (auto simp: obj2)
    moreover have "remove_loop fuel obj l node lst d c = remove_loop fuel' obj l2 ?nxt None (d + 1) c"
      using True fuel node by (simp add: Let_def l2_def l1_def)
    ultimately show ?thesis using True by (auto simp: objects_def ks'_def)
  next
    case False
    from Cons.IH [of l "ks @ [i]" ?nxt "Some i" fuel' d "c + 1"] Cons.prems node fuel
    obtain l' where "remove_loop fuel' obj l ?nxt (Some i) d (c + 1) =
        Some (d + count_list (objects (nodes l) is) obj, c + 1 + length (filter (\<lambda>x. x \<noteq> obj) (objects (nodes l) is)), l')"
      "list_holds l' (survivors obj False (objects (nodes l) (ks @ [i])) (objects (nodes l) is))" by auto
    with False fuel node show ?thesis by (auto simp: objects_def Let_def)
  qed
qed

lemma distinct_bound: "path ns n is \<Longrightarrow> distinct is \<Longrightarrow> length is \<le> length ns"
proof -
  assume p: "path ns n is" "distinct is"
  have "set is \<subseteq> {..<length ns}" using path_bound [OF p(1)] by auto
  then have "card (set is) \<le> length ns" using card_mono [of "{..<length ns}"] by fastforce
  then show ?thesis using distinct_card [OF p(2)] by simp
qed

fun apart :: "oop \<Rightarrow> oop list \<Rightarrow> bool" where
  "apart obj (x # y # ys) = (\<not> (x = obj \<and> y = obj) \<and> apart obj (y # ys))"
| "apart obj xs = True"

lemma survivors_apart:
  "apart obj xs \<Longrightarrow> (fresh \<Longrightarrow> kept = [] \<or> xs = [] \<or> hd xs \<noteq> obj) \<Longrightarrow>
   survivors obj fresh kept xs = kept @ filter (\<lambda>x. x \<noteq> obj) xs"
proof (induction xs arbitrary: fresh kept)
  case (Cons x xs)
  show ?case
  proof (cases "x = obj")
    case True
    with Cons.prems have "apart obj xs" "xs = [] \<or> hd xs \<noteq> obj" by (cases xs; auto)+
    with Cons.IH [of True "if fresh then [] else kept"] Cons.prems(2) True show ?thesis by auto
  next
    case False
    have "apart obj xs" using Cons.prems(1) by (cases xs) auto
    with Cons.IH [of False "kept @ [x]"] False show ?thesis by simp
  qed
qed simp

lemma List_remove_holds:
  assumes "list_rep l xs"
  shows "\<exists>l'. List_remove l obj = Some (count_list xs obj, l') \<and> list_holds l' (survivors obj True [] xs)
    \<and> l_count l' = int (length (filter (\<lambda>x. x \<noteq> obj) xs))"
proof (cases "xs = []")
  case True
  with assms show ?thesis by (auto simp: List_remove_def List_empty_p_def list_rep_def)
next
  case False
  obtain "is" where p: "path (nodes l) (l_first l) is" "distinct is" "objects (nodes l) is = xs" "l_last l = last_of is"
    and count: "l_count l = int (length xs)" using assms by (auto simp: list_rep_def list_holds_def)
  from remove_loop_survivors [of l "[]" "is" "l_first l" None "length (nodes l)" obj 0 0] p distinct_bound [OF p(1,2)]
  obtain l' where "remove_loop (length (nodes l)) obj l (l_first l) None 0 0 = Some (count_list xs obj, length (filter (\<lambda>x. x \<noteq> obj) xs), l')"
    and l': "list_holds l' (survivors obj True [] xs)" by (auto simp: objects_def)
  then have "List_remove l obj = Some (count_list xs obj, l'\<lparr>l_count := int (length (filter (\<lambda>x. x \<noteq> obj) xs))\<rparr>)"
    using False count by (simp add: List_remove_def List_empty_p_def)
  moreover have "list_holds (l'\<lparr>l_count := n\<rparr>) ys = list_holds l' ys" for n ys by (simp add: list_holds_def)
  ultimately show ?thesis using l' by auto
qed

section \<open>Properties\<close>

datatype list_op = L_Append oop | L_Shift | L_Locate nat | L_Remove oop

fun list_exec :: "list_op \<Rightarrow> List \<Rightarrow> (oop \<times> List) option" where
  "list_exec (L_Append x) l = Some (x, List_append l x)"
| "list_exec L_Shift l = List_shift l"
| "list_exec (L_Locate k) l = Some (List_locate l k, l)"
| "list_exec (L_Remove x) l = map_option (\<lambda>(n, l). (APPLY_FIXNUM_TAG (int n), l)) (List_remove l x)"

fun queue_exec :: "list_op \<Rightarrow> oop list \<Rightarrow> oop \<times> oop list" where
  "queue_exec (L_Append x) xs = (x, xs @ [x])"
| "queue_exec L_Shift xs = (if xs = [] then Qnil else hd xs, tl xs)"
| "queue_exec (L_Locate k) xs = (if k < length xs then xs ! k else Qnil, xs)"
| "queue_exec (L_Remove x) xs = (APPLY_FIXNUM_TAG (int (count_list xs x)), filter (\<lambda>y. y \<noteq> x) xs)"

fun op_apart :: "list_op \<Rightarrow> oop list \<Rightarrow> bool" where
  "op_apart (L_Remove x) xs = apart x xs"
| "op_apart op xs = True"

fun list_run :: "list_op list \<Rightarrow> List \<Rightarrow> (oop list \<times> List) option" where
  "list_run [] l = Some ([], l)"
| "list_run (op # ops) l = (case list_exec op l of None \<Rightarrow> None
     | Some (v, l) \<Rightarrow> map_option (\<lambda>(vs, l). (v # vs, l)) (list_run ops l))"

fun queue_run :: "list_op list \<Rightarrow> oop list \<Rightarrow> oop list \<times> oop list" where
  "queue_run [] xs = ([], xs)"
| "queue_run (op # ops) xs = (let (v, xs) = queue_exec op xs; (vs, xs) = queue_run ops xs in (v # vs, xs))"

fun run_apart :: "list_op list \<Rightarrow> oop list \<Rightarrow> bool" where
  "run_apart [] xs = True"
| "run_apart (op # ops) xs = (op_apart op xs \<and> run_apart ops (snd (queue_exec op xs)))"

lemma list_exec_rep:
  assumes "list_rep l xs" and "op_apart op xs"
  shows "\<exists>l'. list_exec op l = Some (fst (queue_exec op xs), l') \<and> list_rep l' (snd (queue_exec op xs))"
proof (cases op)
  case (L_Remove x)
  with List_remove_holds [OF assms(1), of x] survivors_apart [of x xs True "[]"] assms(2) show ?thesis
    by (auto simp: list_rep_def)
qed (use list_append_rep [OF assms(1)] list_shift_rep [OF assms(1)] list_locate_rep [OF assms(1)] assms(1) in auto)

text \<open>C15. The linked list is a queue. Any sequence of appends, shifts, indexed reads and removals on a list built by
  \<open>List::create\<close> returns what it returns on the sequence of the objects queued, without a crash, as long as no
  object is removed that stands twice in a row.\<close>

theorem list_runs_refine_queue:
  assumes "list_rep l xs" and "run_apart ops xs"
  shows "\<exists>l'. list_run ops l = Some (fst (queue_run ops xs), l') \<and> list_rep l' (snd (queue_run ops xs))"
  using assms
proof (induction ops arbitrary: l xs)
  case (Cons op ops)
  then obtain l1 where l1: "list_exec op l = Some (fst (queue_exec op xs), l1)" "list_rep l1 (snd (queue_exec op xs))"
    using list_exec_rep by force
  from Cons.IH [OF l1(2)] Cons.prems l1(1) show ?case by (auto simp: case_prod_beta Let_def)
qed simp

theorem list_runs_refine_queue_witness:
  "\<exists>l'. list_run [L_Append 5, L_Append 7, L_Append 5, L_Remove 5, L_Shift] List_create = Some ([5, 7, 5, 5, 7], l') \<and> list_rep l' []"
  using list_runs_refine_queue [OF List_create_holds, of "[L_Append 5, L_Append 7, L_Append 5, L_Remove 5, L_Shift]"]
  by (simp add: APPLY_FIXNUM_TAG_def)

text \<open>\<open>List#remove\<close> in general: it counts right, but each removal of an object that follows another removed one makes
  the list start behind it, so that everything kept before is lost; the count is then larger than the number of
  objects in the list.\<close>

theorem list_remove_survivors:
  assumes "list_rep l xs"
  shows "\<exists>l'. List_remove l obj = Some (count_list xs obj, l') \<and> list_holds l' (survivors obj True [] xs)
    \<and> List_size l' = int (length (filter (\<lambda>x. x \<noteq> obj) xs))"
  using List_remove_holds [OF assms] by (simp add: List_size_def)

definition list_of :: "oop list \<Rightarrow> List" where "list_of xs = foldl List_append List_create xs"

lemma list_of_rep: "list_rep (list_of xs) xs"
  by (induction xs rule: rev_induct) (simp_all add: list_of_def List_create_holds list_append_rep)

theorem list_remove_survivors_witness:
  "\<exists>l'. List_remove (list_of [1, 2, 2]) 2 = Some (2, l') \<and> list_holds l' [] \<and> List_size l' = 1 \<and> List_shift l' = None"
proof -
  obtain l' where l': "List_remove (list_of [1, 2, 2]) 2 = Some (2, l')" "list_holds l' []" "List_size l' = 1"
    using list_remove_survivors [OF list_of_rep, of "[1, 2, 2]" 2] by auto
  then have "l_first l' = None" by (auto simp: list_holds_def objects_def)
  with l' have "List_shift l' = None" by (simp add: List_shift_def List_empty_p_def List_size_def)
  with l' show ?thesis by blast
qed

end
