(* ===== verification/Vm_Symbols.thy ===== *)
theory Vm_Symbols
  imports Vm_Oop
begin

text \<open>
  The symbol table (\<open>vm/symboltable.hpp\<close>, \<open>symboltable.cpp\<close>), the hash of \<open>String\<close> (\<open>vm/builtin/string.cpp\<close>) and
  the tagged indices of \<open>Symbol\<close> (\<open>vm/builtin/symbol.hpp\<close>, \<open>symbol.cpp\<close>). A C string is the list of its bytes
  before the terminating zero. The unordered map from hashes to the indices of the strings is a map; the lock
  around its use is not modelled, as every operation runs under it.
\<close>

section \<open>Hash and kinds of strings\<close>

definition FNVOffsetBasis :: u64 where "FNVOffsetBasis = 14695981039346656037"
definition FNVHashPrime :: u64 where "FNVHashPrime = 1099511628211"

definition update_hash :: "u64 \<Rightarrow> u8 \<Rightarrow> u64" where
  "update_hash hv byte = (hv XOR ucast byte) * FNVHashPrime"

definition finish_hash :: "u64 \<Rightarrow> u64" where
  "finish_hash hv = drop_bit FIXNUM_WIDTH hv XOR (hv AND word_of_int FIXNUM_MAX)"

text \<open>The hash of a C string, and that of \<open>sz\<close> bytes, where \<open>sz\<close> is an \<open>unsigned int\<close>.\<close>

definition hash_str :: "u8 list \<Rightarrow> u64" where
  "hash_str bp = finish_hash (foldl update_hash FNVOffsetBasis bp)"

definition hash_str_sized :: "u8 list \<Rightarrow> u32 \<Rightarrow> u64" where
  "hash_str_sized bp sz = finish_hash (foldl update_hash FNVOffsetBasis (take (unat sz) bp))"

datatype Kind = Normal | Constant | IVar | CVar | System

definition byte_at :: "u8 list \<Rightarrow> nat \<Rightarrow> u8" where
  "byte_at str i = (if i < length str then str ! i else 0)"

definition detect_kind :: "u8 list \<Rightarrow> nat \<Rightarrow> Kind" where
  "detect_kind str sz =
     (let one = byte_at str 0
      in if 65 \<le> one \<and> one \<le> 90 then Constant
         else if one = 64 \<and> sz > 1
         then (if byte_at str 1 = 64 then (if sz > 2 then CVar else Normal) else IVar)
         else if sz > 2 \<and> one = 95 \<and> byte_at str 1 = 95 then System
         else Normal)"

section \<open>The table\<close>

record SymbolTable =
  symbols :: "u64 \<Rightarrow> nat list option"
  sym_strings :: "u8 list list"
  kinds :: "Kind list"

definition SymbolTable_create :: SymbolTable where
  "SymbolTable_create = \<lparr>symbols = \<lambda>_. None, sym_strings = [], kinds = []\<rparr>"

definition Symbol_from_index :: "nat \<Rightarrow> oop" where "Symbol_from_index i = APPLY_SYMBOL_TAG (int i)"
definition Symbol_index :: "oop \<Rightarrow> int" where "Symbol_index sy = STRIP_SYMBOL_TAG sy"

definition SymbolTable_kind :: "SymbolTable \<Rightarrow> oop \<Rightarrow> Kind" where
  "SymbolTable_kind t sy = kinds t ! nat (Symbol_index sy)"

definition SymbolTable_add :: "SymbolTable \<Rightarrow> u8 list \<Rightarrow> SymbolTable \<times> nat" where
  "SymbolTable_add t str =
     (let t = t\<lparr>sym_strings := sym_strings t @ [str], kinds := kinds t @ [detect_kind str (length str)]\<rparr>
      in (t, length (sym_strings t) - 1))"

fun find_id :: "u8 list list \<Rightarrow> u8 list \<Rightarrow> nat list \<Rightarrow> nat option" where
  "find_id strings str [] = None"
| "find_id strings str (i # v) = (if strings ! i = str then Some i else find_id strings str v)"

definition SymbolTable_lookup_cstr :: "SymbolTable \<Rightarrow> u8 list \<Rightarrow> SymbolTable \<times> oop option" where
  "SymbolTable_lookup_cstr t str =
     (if str = [] then (t, None)
      else let hash = hash_str str
           in case symbols t hash of
                None \<Rightarrow> (case SymbolTable_add t str of (t, sy) \<Rightarrow>
                  (t\<lparr>symbols := (symbols t)(hash := Some [sy])\<rparr>, Some (Symbol_from_index sy)))
              | Some v \<Rightarrow>
                  (case find_id (sym_strings t) str v of
                     Some i \<Rightarrow> (t, Some (Symbol_from_index i))
                   | None \<Rightarrow> (case SymbolTable_add t str of (t, sy) \<Rightarrow>
                       (t\<lparr>symbols := (symbols t)(hash := Some (v @ [sy]))\<rparr>, Some (Symbol_from_index sy)))))"

definition SymbolTable_lookup_checked :: "SymbolTable \<Rightarrow> u8 list \<Rightarrow> SymbolTable \<times> (vm_error + oop)" where
  "SymbolTable_lookup_checked t str =
     (case SymbolTable_lookup_cstr t str of (t, None) \<Rightarrow> (t, Inl ArgumentError) | (t, Some sy) \<Rightarrow> (t, Inr sy))"

text \<open>\<open>lookup\<close> of a \<open>String\<close> object, whose bytes may contain zeros; \<open>None\<close> is nil.\<close>

definition SymbolTable_lookup :: "SymbolTable \<Rightarrow> u8 list option \<Rightarrow> SymbolTable \<times> (vm_error + oop)" where
  "SymbolTable_lookup t str =
     (case str of None \<Rightarrow> (t, Inl ArgumentError)
      | Some bytes \<Rightarrow> if 0 \<in> set bytes then (t, Inl ArgumentError) else SymbolTable_lookup_checked t bytes)"

definition SymbolTable_lookup_string :: "SymbolTable \<Rightarrow> oop \<Rightarrow> vm_error + u8 list" where
  "SymbolTable_lookup_string t sy =
     (if sy = Qnil then Inl ArgumentError else Inr (sym_strings t ! nat (Symbol_index sy)))"

definition SymbolTable_size :: "SymbolTable \<Rightarrow> nat" where "SymbolTable_size t = length (sym_strings t)"

text \<open>\<open>all_as_array\<close> walks the map in an order \<open>hs\<close> of its keys that the library chooses.\<close>

definition SymbolTable_all :: "SymbolTable \<Rightarrow> u64 list \<Rightarrow> oop list" where
  "SymbolTable_all t hs = concat (map (\<lambda>h. map Symbol_from_index (case symbols t h of None \<Rightarrow> [] | Some v \<Rightarrow> v)) hs)"

section \<open>Invariant\<close>

definition valid_str :: "u8 list \<Rightarrow> bool" where "valid_str s \<longleftrightarrow> s \<noteq> [] \<and> 0 \<notin> set s"

definition sym_ok :: "SymbolTable \<Rightarrow> bool" where
  "sym_ok t \<longleftrightarrow> distinct (sym_strings t) \<and> kinds t = map (\<lambda>s. detect_kind s (length s)) (sym_strings t)
     \<and> (\<forall>s\<in>set (sym_strings t). valid_str s)
     \<and> (\<forall>i<length (sym_strings t). \<exists>v. symbols t (hash_str (sym_strings t ! i)) = Some v \<and> i \<in> set v)
     \<and> (\<forall>h v i. symbols t h = Some v \<longrightarrow> i \<in> set v \<longrightarrow> i < length (sym_strings t) \<and> hash_str (sym_strings t ! i) = h)"

definition sym_small :: "SymbolTable \<Rightarrow> bool" where "sym_small t \<longleftrightarrow> length (sym_strings t) < 2 ^ 60"

lemma symbol_index [simp]: "i < 2 ^ 60 \<Longrightarrow> Symbol_index (Symbol_from_index i) = int i"
proof -
  assume "i < 2 ^ 60"
  then have "int i < 2 ^ 60" by (simp add: of_nat_less_iff [of i "2 ^ 60", symmetric] del: of_nat_less_iff)
  then show ?thesis
    by (simp add: Symbol_index_def Symbol_from_index_def strip_apply_symbol signed_take_bit_int_eq_self)
qed

lemma symbol_inj: "i < 2 ^ 60 \<Longrightarrow> j < 2 ^ 60 \<Longrightarrow> Symbol_from_index i = Symbol_from_index j \<longleftrightarrow> i = j"
  by (metis of_nat_eq_iff symbol_index)

lemma symbol_not_nil: "Symbol_from_index i \<noteq> Qnil"
  using apply_symbol_symbol [of "int i"] by (auto simp: Symbol_from_index_def SYMBOL_P_mod Qnil_def)

lemma find_id_Some: "find_id ss str v = Some i \<Longrightarrow> i \<in> set v \<and> ss ! i = str"
  by (induction v) (auto split: if_splits)

lemma find_id_None: "find_id ss str v = None \<Longrightarrow> i \<in> set v \<Longrightarrow> ss ! i \<noteq> str"
  by (induction v) (auto split: if_splits)

lemma sym_ok_index:
  assumes "sym_ok t" and "i < length (sym_strings t)"
  obtains v where "symbols t (hash_str (sym_strings t ! i)) = Some v" and "i \<in> set v"
  using assms unfolding sym_ok_def by blast

lemma sym_ok_entry:
  "sym_ok t \<Longrightarrow> symbols t h = Some v \<Longrightarrow> i \<in> set v \<Longrightarrow> i < length (sym_strings t) \<and> hash_str (sym_strings t ! i) = h"
  unfolding sym_ok_def by blast

lemma not_found_new:
  assumes ok: "sym_ok t" and nf: "case symbols t (hash_str s) of None \<Rightarrow> True | Some v \<Rightarrow> find_id (sym_strings t) s v = None"
  shows "s \<notin> set (sym_strings t)"
proof
  assume "s \<in> set (sym_strings t)"
  then obtain i where i: "i < length (sym_strings t)" "sym_strings t ! i = s" by (auto simp: in_set_conv_nth)
  from sym_ok_index [OF ok i(1)] i(2) obtain v where "symbols t (hash_str s) = Some v" "i \<in> set v" by metis
  with nf find_id_None [of "sym_strings t" s v i] i show False by simp
qed

lemma sym_ok_add:
  assumes ok: "sym_ok t" and s: "valid_str s" "s \<notin> set (sym_strings t)"
  shows "sym_ok (t\<lparr>sym_strings := sym_strings t @ [s], kinds := kinds t @ [detect_kind s (length s)],
    symbols := (symbols t)(hash_str s := Some ((case symbols t (hash_str s) of None \<Rightarrow> [] | Some v \<Rightarrow> v) @ [length (sym_strings t)]))\<rparr>)"
    (is "sym_ok ?t")
proof -
  let ?n = "length (sym_strings t)"
  have 1: "\<exists>v. symbols ?t (hash_str (sym_strings ?t ! i)) = Some v \<and> i \<in> set v" if "i < length (sym_strings ?t)" for i
  proof (cases "i = ?n")
    case False
    with that have i: "i < ?n" by simp
    from sym_ok_index [OF ok i] obtain v where "symbols t (hash_str (sym_strings t ! i)) = Some v" "i \<in> set v" .
    with i show ?thesis by (auto simp: nth_append)
  qed auto
  have 2: "i < length (sym_strings ?t) \<and> hash_str (sym_strings ?t ! i) = h"
    if "symbols ?t h = Some v" "i \<in> set v" for h v i
  proof -
    have old: "j < ?n \<and> hash_str (sym_strings t ! j) = h" if "symbols t h = Some w" "j \<in> set w" for w j
      using sym_ok_entry [OF ok] that by blast
    show ?thesis using that old by (auto simp: nth_append split: if_splits option.splits)
  qed
  from ok s 1 2 show ?thesis by (simp add: sym_ok_def)
qed

lemma lookup_interns:
  assumes ok: "sym_ok t" and s: "valid_str s"
  shows "\<exists>t' i. SymbolTable_lookup t (Some s) = (t', Inr (Symbol_from_index i)) \<and> sym_ok t'
    \<and> i < length (sym_strings t') \<and> sym_strings t' ! i = s
    \<and> (if s \<in> set (sym_strings t) then t' = t else sym_strings t' = sym_strings t @ [s])"
proof -
  let ?new = "t\<lparr>sym_strings := sym_strings t @ [s], kinds := kinds t @ [detect_kind s (length s)],
    symbols := (symbols t)(hash_str s := Some ((case symbols t (hash_str s) of None \<Rightarrow> [] | Some v \<Rightarrow> v) @ [length (sym_strings t)]))\<rparr>"
  have s': "s \<noteq> []" "0 \<notin> set s" using s by (simp_all add: valid_str_def)
  show ?thesis
  proof (cases "symbols t (hash_str s)")
    case None
    with ok have new: "s \<notin> set (sym_strings t)" using not_found_new [of t s] by simp
    have "SymbolTable_lookup t (Some s) = (?new, Inr (Symbol_from_index (length (sym_strings t))))"
      using s' None by (simp add: SymbolTable_lookup_def SymbolTable_lookup_checked_def SymbolTable_lookup_cstr_def SymbolTable_add_def Let_def)
    with sym_ok_add [OF ok s new] new show ?thesis by auto
  next
    case (Some v)
    show ?thesis
    proof (cases "find_id (sym_strings t) s v")
      case None
      with ok Some have new: "s \<notin> set (sym_strings t)" using not_found_new [of t s] by simp
      have "SymbolTable_lookup t (Some s) = (?new, Inr (Symbol_from_index (length (sym_strings t))))"
        using s' Some None by (simp add: SymbolTable_lookup_def SymbolTable_lookup_checked_def SymbolTable_lookup_cstr_def SymbolTable_add_def Let_def)
      with sym_ok_add [OF ok s new] new show ?thesis by auto
    next
      case found: (Some i)
      with find_id_Some [OF found] sym_ok_entry [OF ok Some] have i: "i < length (sym_strings t)" "sym_strings t ! i = s" by auto
      have "SymbolTable_lookup t (Some s) = (t, Inr (Symbol_from_index i))"
        using s' Some found by (simp add: SymbolTable_lookup_def SymbolTable_lookup_checked_def SymbolTable_lookup_cstr_def Let_def)
      with ok i nth_mem [OF i(1)] show ?thesis by auto
    qed
  qed
qed

section \<open>Interning\<close>

fun intern_all :: "SymbolTable \<Rightarrow> u8 list list \<Rightarrow> SymbolTable \<times> (vm_error + oop) list" where
  "intern_all t [] = (t, [])"
| "intern_all t (s # ss) =
     (case SymbolTable_lookup t (Some s) of (t, r) \<Rightarrow> case intern_all t ss of (t, rs) \<Rightarrow> (t, r # rs))"

lemma intern_all_ok:
  assumes "sym_ok t" and "\<forall>s\<in>set ss. valid_str s"
  shows "\<exists>t' ks. intern_all t ss = (t', map (\<lambda>i. Inr (Symbol_from_index i)) ks) \<and> sym_ok t'
     \<and> (\<exists>more. sym_strings t' = sym_strings t @ more \<and> length more \<le> length ss)
     \<and> (\<forall>i\<in>set ks. i < length (sym_strings t')) \<and> map ((!) (sym_strings t')) ks = ss"
  using assms
proof (induction ss arbitrary: t)
  case Nil
  then show ?case by (auto intro!: exI [of _ "[]"])
next
  case (Cons s ss)
  then obtain t1 i where t1: "SymbolTable_lookup t (Some s) = (t1, Inr (Symbol_from_index i))" "sym_ok t1"
      "i < length (sym_strings t1)" "sym_strings t1 ! i = s"
      "if s \<in> set (sym_strings t) then t1 = t else sym_strings t1 = sym_strings t @ [s]"
    using lookup_interns [of t s] by auto
  then obtain m1 where m1: "sym_strings t1 = sym_strings t @ m1" "length m1 \<le> 1" by (cases "s \<in> set (sym_strings t)") auto
  from Cons.IH [OF t1(2)] Cons.prems obtain t' ks more where t': "intern_all t1 ss = (t', map (\<lambda>i. Inr (Symbol_from_index i)) ks)"
      "sym_ok t'" "sym_strings t' = sym_strings t1 @ more" "length more \<le> length ss"
      "\<forall>i\<in>set ks. i < length (sym_strings t')" "map ((!) (sym_strings t')) ks = ss" by auto
  have "sym_strings t' ! i = s" "i < length (sym_strings t')" using t1(3,4) t'(3) by (simp_all add: nth_append)
  with t1(1) t' m1 show ?case by (auto intro!: exI [of _ "i # ks"] exI [of _ "m1 @ more"])
qed

text \<open>C20. Symbols and strings correspond one to one. Whatever strings (not empty, without zero bytes) are looked up one
  after the other in a symbol table, each is given a symbol; two are given the same symbol exactly when they are
  equal, although their hashes may collide, and every symbol gives back its string in the final table.\<close>

theorem symbols_one_to_one:
  assumes "sym_ok t" and "\<forall>s\<in>set ss. valid_str s" and "length (sym_strings t) + length ss < 2 ^ 60"
  shows "\<exists>t' syms. intern_all t ss = (t', map Inr syms) \<and> sym_ok t' \<and> length syms = length ss
    \<and> (\<forall>i<length ss. SymbolTable_lookup_string t' (syms ! i) = Inr (ss ! i)
         \<and> SymbolTable_kind t' (syms ! i) = detect_kind (ss ! i) (length (ss ! i)))
    \<and> (\<forall>i<length ss. \<forall>j<length ss. syms ! i = syms ! j \<longleftrightarrow> ss ! i = ss ! j)"
proof -
  from intern_all_ok [OF assms(1,2)] obtain t' ks more where t':
    "intern_all t ss = (t', map (\<lambda>i. Inr (Symbol_from_index i)) ks)" "sym_ok t'"
    "sym_strings t' = sym_strings t @ more" "length more \<le> length ss"
    "\<forall>i\<in>set ks. i < length (sym_strings t')" "map ((!) (sym_strings t')) ks = ss" by blast
  have len: "length ks = length ss" using t'(6) by auto
  have str: "sym_strings t' ! (ks ! i) = ss ! i" if "i < length ss" for i using t'(6) that by auto
  have small: "ks ! i < length (sym_strings t')" "ks ! i < 2 ^ 60" if "i < length ss" for i
  proof -
    show *: "ks ! i < length (sym_strings t')" using t'(5) that len by auto
    then show "ks ! i < 2 ^ 60" using t'(3,4) assms(3) by simp
  qed
  define syms where "syms = map Symbol_from_index ks"
  have "SymbolTable_lookup_string t' (syms ! i) = Inr (ss ! i)"
    "SymbolTable_kind t' (syms ! i) = detect_kind (ss ! i) (length (ss ! i))" if "i < length ss" for i
    using small [OF that] str [OF that] that len t'(2)
    by (simp_all add: syms_def SymbolTable_lookup_string_def symbol_not_nil SymbolTable_kind_def sym_ok_def)
  moreover have "syms ! i = syms ! j \<longleftrightarrow> ss ! i = ss ! j" if "i < length ss" "j < length ss" for i j
  proof -
    have "syms ! i = syms ! j \<longleftrightarrow> ks ! i = ks ! j" using small that len by (simp add: syms_def symbol_inj)
    also have "\<dots> \<longleftrightarrow> sym_strings t' ! (ks ! i) = sym_strings t' ! (ks ! j)"
      using t'(2) small(1) that by (simp add: sym_ok_def nth_eq_iff_index_eq)
    finally show ?thesis using str that by simp
  qed
  moreover have "intern_all t ss = (t', map Inr syms)" using t'(1) by (simp add: syms_def)
  ultimately show ?thesis using t'(2) len by (intro exI [of _ t'] exI [of _ syms]) (simp add: syms_def)
qed

theorem symbols_one_to_one_witness:
  "\<exists>t' syms. intern_all SymbolTable_create [[97], [98], [97]] = (t', map Inr syms) \<and> syms ! 0 = syms ! 2 \<and> syms ! 0 \<noteq> syms ! 1"
proof -
  have "sym_ok SymbolTable_create" by (simp add: sym_ok_def SymbolTable_create_def)
  moreover have "\<forall>s\<in>set [[97], [98], [97]]. valid_str s" by (simp add: valid_str_def)
  moreover have "length (sym_strings SymbolTable_create) + length [[97], [98], [97 :: u8]] < 2 ^ 60" by (simp add: SymbolTable_create_def)
  ultimately obtain t' syms where "intern_all SymbolTable_create [[97], [98], [97]] = (t', map Inr syms)"
    "\<forall>i<3. \<forall>j<3. (syms ! i = syms ! j) = ([[97], [98], [97 :: u8]] ! i = [[97], [98], [97]] ! j)"
    using symbols_one_to_one [of SymbolTable_create "[[97], [98], [97]]"] by auto
  moreover from this(2) have "syms ! 0 = syms ! 2" "syms ! 0 \<noteq> syms ! 1" by (simp_all add: numeral_2_eq_2)
  ultimately show ?thesis by blast
qed

end
