(* ===== verification/Vm_Buckets.thy ===== *)
theory Vm_Buckets
  imports Vm_Symbols "HOL-Library.Multiset"
begin

text \<open>
  The hash tables of the virtual machine that chain their entries in buckets: \<open>LookupTable\<close>
  (\<open>vm/builtin/lookuptable.cpp\<close>) and \<open>MethodTable\<close> (\<open>methodtable.cpp\<close>). The two files have the same
  operations over different entries, so the shared steps take the function that reads the key of an entry as
  an argument. A chain of linked buckets is the list of its entries; a table of bins is the list of the chains.
  The contract of a table (looking up after storing and removing) is the locale \<open>map_table\<close>.
\<close>

section \<open>Bins\<close>

definition key_hash :: "oop \<Rightarrow> u32" where "key_hash obj = ucast obj"

definition find_bin :: "u32 \<Rightarrow> nat \<Rightarrow> nat" where
  "find_bin hash bins = nat (uint hash AND (int bins - 1))"

text \<open>The densities 0.75 and 0.3, as quotients of integers.\<close>

definition max_density_p :: "nat \<Rightarrow> nat \<Rightarrow> bool" where "max_density_p ents bins \<longleftrightarrow> 4 * ents \<ge> 3 * bins"
definition min_density_p :: "nat \<Rightarrow> nat \<Rightarrow> bool" where "min_density_p ents bins \<longleftrightarrow> 10 * ents < 3 * bins"

definition TABLE_MIN_SIZE :: nat where "TABLE_MIN_SIZE = 16"

lemma find_bin_less: "0 < bins \<Longrightarrow> find_bin h bins < bins"
proof -
  assume "0 < bins"
  have "uint h AND (int bins - 1) \<le> int bins - 1" using \<open>0 < bins\<close> by (intro AND_upper2) simp
  then have "nat (uint h AND (int bins - 1)) \<le> nat (int bins - 1)" by (rule nat_mono)
  with \<open>0 < bins\<close> show ?thesis by (simp add: find_bin_def)
qed

section \<open>Tables\<close>

record 'e bucket_table =
  tbl_values :: "'e list list"
  tbl_bins :: nat
  tbl_entries :: nat

definition table_setup :: "nat \<Rightarrow> 'e bucket_table" where
  "table_setup sz =
     (let sz = (if sz = 0 then TABLE_MIN_SIZE else sz)
      in \<lparr>tbl_values = replicate sz [], tbl_bins = sz, tbl_entries = 0\<rparr>)"

text \<open>Every entry is appended to the chain of its bin in the new table.\<close>

definition append_bucket :: "('e \<Rightarrow> oop) \<Rightarrow> nat \<Rightarrow> 'e list list \<Rightarrow> 'e \<Rightarrow> 'e list list" where
  "append_bucket key bins vs e =
     (let bin = find_bin (key_hash (key e)) bins in vs[bin := vs ! bin @ [e]])"

definition table_redistribute :: "('e \<Rightarrow> oop) \<Rightarrow> 'e bucket_table \<Rightarrow> nat \<Rightarrow> 'e bucket_table" where
  "table_redistribute key t bins =
     t\<lparr>tbl_values := foldl (append_bucket key bins) (replicate bins []) (concat (take (tbl_bins t) (tbl_values t))),
       tbl_bins := bins\<rparr>"

fun chain_find :: "('e \<Rightarrow> oop) \<Rightarrow> oop \<Rightarrow> 'e list \<Rightarrow> 'e option" where
  "chain_find key k [] = None"
| "chain_find key k (e # es) = (if key e = k then Some e else chain_find key k es)"

fun chain_update :: "('e \<Rightarrow> oop) \<Rightarrow> ('e \<Rightarrow> 'e) \<Rightarrow> oop \<Rightarrow> 'e list \<Rightarrow> 'e list" where
  "chain_update key upd k [] = []"
| "chain_update key upd k (e # es) = (if key e = k then upd e # es else e # chain_update key upd k es)"

fun chain_remove :: "('e \<Rightarrow> oop) \<Rightarrow> oop \<Rightarrow> 'e list \<Rightarrow> 'e list" where
  "chain_remove key k [] = []"
| "chain_remove key k (e # es) = (if key e = k then es else e # chain_remove key k es)"

definition table_bin :: "'e bucket_table \<Rightarrow> oop \<Rightarrow> nat" where
  "table_bin t k = find_bin (key_hash k) (tbl_bins t)"

definition table_find :: "('e \<Rightarrow> oop) \<Rightarrow> 'e bucket_table \<Rightarrow> oop \<Rightarrow> 'e option" where
  "table_find key t k = chain_find key k (tbl_values t ! table_bin t k)"

text \<open>Storing: the table grows first when it is dense; the number of bins is an \<open>unsigned int\<close>.\<close>

definition table_grow :: "('e \<Rightarrow> oop) \<Rightarrow> 'e bucket_table \<Rightarrow> 'e bucket_table" where
  "table_grow key t =
     (if max_density_p (tbl_entries t) (tbl_bins t)
      then table_redistribute key t (take_bit 32 (tbl_bins t * 2)) else t)"

definition table_put :: "('e \<Rightarrow> oop) \<Rightarrow> ('e \<Rightarrow> 'e) \<Rightarrow> 'e \<Rightarrow> 'e bucket_table \<Rightarrow> 'e bucket_table" where
  "table_put key upd new t =
     (let bin = table_bin t (key new); chain = tbl_values t ! bin
      in case chain_find key (key new) chain of
           Some e \<Rightarrow> t\<lparr>tbl_values := (tbl_values t)[bin := chain_update key upd (key new) chain]\<rparr>
         | None \<Rightarrow> t\<lparr>tbl_values := (tbl_values t)[bin := chain @ [new]], tbl_entries := tbl_entries t + 1\<rparr>)"

text \<open>Removing: a sparse table shrinks first.\<close>

definition table_shrink :: "('e \<Rightarrow> oop) \<Rightarrow> 'e bucket_table \<Rightarrow> 'e bucket_table" where
  "table_shrink key t =
     (if min_density_p (tbl_entries t) (tbl_bins t) \<and> tbl_bins t div 2 \<ge> TABLE_MIN_SIZE
      then table_redistribute key t (tbl_bins t div 2) else t)"

definition table_take :: "('e \<Rightarrow> oop) \<Rightarrow> oop \<Rightarrow> 'e bucket_table \<Rightarrow> 'e bucket_table \<times> 'e option" where
  "table_take key k t =
     (let bin = table_bin t k; chain = tbl_values t ! bin
      in case chain_find key k chain of
           Some e \<Rightarrow> (t\<lparr>tbl_values := (tbl_values t)[bin := chain_remove key k chain], tbl_entries := tbl_entries t - 1\<rparr>, Some e)
         | None \<Rightarrow> (t, None))"

definition table_collect :: "('e \<Rightarrow> 'r) \<Rightarrow> 'e bucket_table \<Rightarrow> 'r list" where
  "table_collect action t = map action (concat (take (tbl_bins t) (tbl_values t)))"

section \<open>Chains\<close>

lemma chain_find_Some: "chain_find key k es = Some e \<Longrightarrow> e \<in> set es \<and> key e = k"
  by (induction es) (auto split: if_splits)

lemma chain_find_None: "chain_find key k es = None \<longleftrightarrow> k \<notin> key ` set es"
  by (induction es) auto

lemma chain_find_mem:
  "distinct (map key es) \<Longrightarrow> chain_find key k es = Some e \<longleftrightarrow> e \<in> set es \<and> key e = k"
  by (induction es) auto

lemma chain_find_mset:
  assumes "mset es = mset fs" and "distinct (map key es)"
  shows "chain_find key k es = chain_find key k fs"
proof (rule option_eqI)
  have "mset (map key es) = mset (map key fs)" using assms(1) by simp
  then have "distinct (map key fs)" using assms(2) by (metis mset_eq_imp_distinct_iff)
  with mset_eq_setD [OF assms(1)] show "chain_find key k es = Some e \<longleftrightarrow> chain_find key k fs = Some e" for e
    by (simp only: chain_find_mem [OF assms(2)] chain_find_mem)
qed

lemma map_key_update: "(\<And>e. key (upd e) = key e) \<Longrightarrow> map key (chain_update key upd k es) = map key es"
  by (induction es) auto

lemma chain_update_split:
  "chain_find key k es = Some e \<Longrightarrow> \<exists>us vs. es = us @ e # vs \<and> key e = k \<and> chain_update key upd k es = us @ upd e # vs
    \<and> chain_remove key k es = us @ vs"
proof (induction es)
  case (Cons f es)
  show ?case
  proof (cases "key f = k")
    case True
    with Cons.prems show ?thesis by (intro exI [of _ "[]"] exI [of _ es]) auto
  next
    case False
    with Cons obtain us vs where "es = us @ e # vs" "key e = k" "chain_update key upd k es = us @ upd e # vs"
      "chain_remove key k es = us @ vs" by auto
    with False show ?thesis by (intro exI [of _ "f # us"] exI [of _ vs]) auto
  qed
qed simp

section \<open>The entries of a table\<close>

definition all_buckets :: "'e bucket_table \<Rightarrow> 'e list" where "all_buckets t = concat (tbl_values t)"

definition table_ok :: "('e \<Rightarrow> oop) \<Rightarrow> 'e bucket_table \<Rightarrow> bool" where
  "table_ok key t \<longleftrightarrow> 0 < tbl_bins t \<and> length (tbl_values t) = tbl_bins t
     \<and> tbl_entries t = length (all_buckets t)
     \<and> (\<forall>i<tbl_bins t. \<forall>e\<in>set (tbl_values t ! i). find_bin (key_hash (key e)) (tbl_bins t) = i)
     \<and> distinct (map key (all_buckets t))"

text \<open>The number of bins stays where doubling it does not overflow an \<open>unsigned int\<close>.\<close>

definition table_fits :: "'e bucket_table \<Rightarrow> bool" where
  "table_fits t \<longleftrightarrow> tbl_bins t < 2 ^ 31 \<and> tbl_entries t < 2 ^ 28"

lemma set_nth_concat: "i < length vs \<Longrightarrow> set (vs ! i) \<subseteq> set (concat vs)"
  by (metis UN_upper nth_mem set_concat)

lemma table_find_all:
  assumes "table_ok key t"
  shows "table_find key t k = chain_find key k (all_buckets t)"
proof (rule option_eqI)
  fix e
  let ?b = "table_bin t k"
  have b: "?b < length (tbl_values t)" using assms by (simp add: table_ok_def table_bin_def find_bin_less)
  have in_bin: "e \<in> set (tbl_values t ! ?b)" if "e \<in> set (all_buckets t)" "key e = k"
  proof -
    from that(1) obtain vs where "vs \<in> set (tbl_values t)" "e \<in> set vs" by (auto simp: all_buckets_def)
    then obtain i where "i < length (tbl_values t)" "e \<in> set (tbl_values t ! i)" by (auto simp: in_set_conv_nth)
    moreover from this assms that(2) have "i = ?b" by (auto simp: table_ok_def table_bin_def)
    ultimately show ?thesis by simp
  qed
  have "distinct (map key (all_buckets t))" using assms by (simp add: table_ok_def)
  note all = chain_find_mem [OF this]
  show "table_find key t k = Some e \<longleftrightarrow> chain_find key k (all_buckets t) = Some e"
  proof
    assume "table_find key t k = Some e"
    with chain_find_Some [of key k "tbl_values t ! ?b" e] b show "chain_find key k (all_buckets t) = Some e"
      unfolding all by (auto simp: table_find_def all_buckets_def dest: set_nth_concat)
  next
    assume "chain_find key k (all_buckets t) = Some e"
    then have e: "e \<in> set (all_buckets t)" "key e = k" unfolding all by auto
    from in_bin [OF this] e have "chain_find key k (tbl_values t ! ?b) \<noteq> None" by (auto simp: chain_find_None)
    then obtain f where f: "chain_find key k (tbl_values t ! ?b) = Some f" by auto
    with chain_find_Some [OF f] b have "f \<in> set (all_buckets t)" "key f = k" by (auto simp: all_buckets_def)
    with e have "f = e" using all by (metis option.inject)
    with f show "table_find key t k = Some e" by (simp add: table_find_def)
  qed
qed

section \<open>Redistribution\<close>

definition placed :: "('e \<Rightarrow> oop) \<Rightarrow> nat \<Rightarrow> 'e list list \<Rightarrow> bool" where
  "placed key bins vs \<longleftrightarrow> length vs = bins \<and> (\<forall>i<bins. \<forall>e\<in>set (vs ! i). find_bin (key_hash (key e)) bins = i)"

lemma append_bucket_placed:
  assumes "0 < bins" and "placed key bins vs"
  shows "placed key bins (append_bucket key bins vs e) \<and> mset (concat (append_bucket key bins vs e)) = add_mset e (mset (concat vs))"
proof -
  let ?b = "find_bin (key_hash (key e)) bins"
  have b: "?b < bins" using assms(1) by (rule find_bin_less)
  have "mset (concat (vs[?b := vs ! ?b @ [e]])) + mset (vs ! ?b) = mset (concat vs) + mset (vs ! ?b @ [e])"
    using b assms(2) by (intro mset_concat_update) (simp add: placed_def)
  then have "mset (concat (vs[?b := vs ! ?b @ [e]])) = add_mset e (mset (concat vs))" by simp
  moreover have "placed key bins (vs[?b := vs ! ?b @ [e]])"
    using b assms(2) by (auto simp: placed_def nth_list_update)
  ultimately show ?thesis by (simp add: append_bucket_def Let_def)
qed

lemma append_buckets_placed:
  assumes "0 < bins"
  shows "placed key bins vs \<Longrightarrow> placed key bins (foldl (append_bucket key bins) vs es)
    \<and> mset (concat (foldl (append_bucket key bins) vs es)) = mset (concat vs) + mset es"
proof (induction es arbitrary: vs)
  case (Cons e es)
  from append_bucket_placed [OF assms Cons.prems, of e]
  have 1: "placed key bins (append_bucket key bins vs e)"
    and 2: "mset (concat (append_bucket key bins vs e)) = add_mset e (mset (concat vs))" by blast+
  from Cons.IH [OF 1] 2 show ?case by simp
qed simp

lemma concat_replicate_Nil [simp]: "concat (replicate n []) = []"
  by (induction n) auto

lemma redistribute_ok:
  assumes ok: "table_ok key t" and bins: "0 < bins"
  shows "table_ok key (table_redistribute key t bins)"
    and "mset (all_buckets (table_redistribute key t bins)) = mset (all_buckets t)"
proof -
  have "placed key bins (replicate bins [])" by (simp add: placed_def)
  from append_buckets_placed [OF bins this, of "all_buckets t"] ok
  have *: "placed key bins (tbl_values (table_redistribute key t bins))"
    "mset (all_buckets (table_redistribute key t bins)) = mset (all_buckets t)"
    by (simp_all add: table_redistribute_def all_buckets_def table_ok_def)
  show "mset (all_buckets (table_redistribute key t bins)) = mset (all_buckets t)" by (rule *(2))
  have "distinct (map key (all_buckets (table_redistribute key t bins)))"
    using ok *(2) mset_eq_imp_distinct_iff [of "map key (all_buckets t)" "map key (all_buckets (table_redistribute key t bins))"]
    by (simp add: table_ok_def)
  moreover have "length (all_buckets (table_redistribute key t bins)) = length (all_buckets t)"
    using *(2) by (rule mset_eq_length)
  ultimately show "table_ok key (table_redistribute key t bins)"
    using ok * bins by (simp add: table_ok_def placed_def) (simp add: table_redistribute_def)
qed

lemma redistribute_find:
  assumes "table_ok key t" and "0 < bins"
  shows "table_find key (table_redistribute key t bins) k = table_find key t k"
proof -
  have "table_find key (table_redistribute key t bins) k = chain_find key k (all_buckets (table_redistribute key t bins))"
    by (rule table_find_all [OF redistribute_ok(1) [OF assms]])
  also have "\<dots> = chain_find key k (all_buckets t)"
    using redistribute_ok [OF assms] by (intro chain_find_mset) (auto simp: table_ok_def)
  finally show ?thesis using table_find_all [OF assms(1)] by simp
qed

lemma redistribute_entries [simp]:
  "tbl_entries (table_redistribute key t bins) = tbl_entries t" "tbl_bins (table_redistribute key t bins) = bins"
  by (simp_all add: table_redistribute_def)

lemma table_ok_bins: "table_ok key t \<Longrightarrow> 0 < tbl_bins t"
  by (simp add: table_ok_def)

lemma table_grow_ok:
  assumes ok: "table_ok key t" and fits: "table_fits t"
  shows "table_ok key (table_grow key t)" and "table_find key (table_grow key t) = table_find key t"
    and "tbl_entries (table_grow key t) = tbl_entries t" and "tbl_bins (table_grow key t) < 2 ^ 31"
    and "mset (all_buckets (table_grow key t)) = mset (all_buckets t)"
proof -
  have two: "take_bit 32 (tbl_bins t * 2) = tbl_bins t * 2" if "max_density_p (tbl_entries t) (tbl_bins t)"
    and "tbl_bins t * 2 < 2 ^ 31" using that by (simp add: take_bit_nat_eq_self)
  have small: "tbl_bins t * 2 < 2 ^ 31" if "max_density_p (tbl_entries t) (tbl_bins t)"
    using that fits by (simp add: max_density_p_def table_fits_def)
  from two small have eq: "table_grow key t = (if max_density_p (tbl_entries t) (tbl_bins t) then table_redistribute key t (tbl_bins t * 2) else t)"
    by (simp add: table_grow_def)
  have pos: "0 < tbl_bins t * 2" using table_ok_bins [OF ok] by simp
  show "table_ok key (table_grow key t)" using redistribute_ok(1) [OF ok pos] ok by (simp add: eq)
  show "table_find key (table_grow key t) = table_find key t" using redistribute_find [OF ok pos] by (auto simp: eq)
  show "tbl_entries (table_grow key t) = tbl_entries t" by (simp add: eq)
  show "tbl_bins (table_grow key t) < 2 ^ 31" using small fits by (simp add: eq table_fits_def)
  show "mset (all_buckets (table_grow key t)) = mset (all_buckets t)" using redistribute_ok(2) [OF ok pos] by (simp add: eq)
qed

lemma table_shrink_ok:
  assumes ok: "table_ok key t"
  shows "table_ok key (table_shrink key t)" and "table_find key (table_shrink key t) = table_find key t"
    and "tbl_entries (table_shrink key t) = tbl_entries t" and "tbl_bins (table_shrink key t) \<le> tbl_bins t"
proof -
  have pos: "0 < tbl_bins t div 2" if "tbl_bins t div 2 \<ge> TABLE_MIN_SIZE" using that by (simp add: TABLE_MIN_SIZE_def)
  note ok' = redistribute_ok(1) [OF ok] redistribute_find [OF ok]
  show "table_ok key (table_shrink key t)" using ok' pos ok by (simp add: table_shrink_def)
  show "table_find key (table_shrink key t) = table_find key t" using ok' pos by (auto simp: table_shrink_def)
  show "tbl_entries (table_shrink key t) = tbl_entries t" "tbl_bins (table_shrink key t) \<le> tbl_bins t"
    by (simp_all add: table_shrink_def)
qed

section \<open>Storing and removing\<close>

lemma chain_find_update:
  "(\<And>e. key (upd e) = key e) \<Longrightarrow>
   chain_find key j (chain_update key upd k es) = (if j = k then map_option upd (chain_find key k es) else chain_find key j es)"
  by (induction es) auto

lemma chain_find_append:
  "chain_find key j (es @ fs) = (case chain_find key j es of Some e \<Rightarrow> Some e | None \<Rightarrow> chain_find key j fs)"
  by (induction es) auto

lemma chain_find_remove:
  "distinct (map key es) \<Longrightarrow> chain_find key j (chain_remove key k es) = (if j = k then None else chain_find key j es)"
  by (induction es) (auto simp: chain_find_None)

lemma set_chain_update: "set (chain_update key upd k es) \<subseteq> set es \<union> upd ` set es"
  by (induction es) auto

lemma set_chain_remove: "set (chain_remove key k es) \<subseteq> set es"
  by (induction es) auto

lemma chain_distinct:
  assumes "table_ok key t" and "i < tbl_bins t"
  shows "distinct (map key (tbl_values t ! i))"
proof -
  from assms have "distinct (concat (map (map key) (tbl_values t)))" by (simp add: table_ok_def all_buckets_def map_concat)
  moreover from assms have "map key (tbl_values t ! i) \<in> set (map (map key) (tbl_values t))" by (simp add: table_ok_def)
  ultimately show ?thesis by (simp only: distinct_concat_iff)
qed

text \<open>Replacing one chain: the keys change by what the chain gains and loses.\<close>

lemma keys_update:
  assumes "table_ok key t" and "i < tbl_bins t"
  shows "mset (map key (concat ((tbl_values t)[i := es]))) + mset (map key (tbl_values t ! i))
    = mset (map key (all_buckets t)) + mset (map key es)"
  using mset_concat_update [of i "map (map key) (tbl_values t)" "map key es"] assms
  by (simp add: table_ok_def all_buckets_def map_concat map_update)

lemma table_ok_update:
  assumes ok: "table_ok key t" and i: "i < tbl_bins t"
    and es: "\<forall>e\<in>set es. find_bin (key_hash (key e)) (tbl_bins t) = i"
    and keys: "distinct (map key (concat ((tbl_values t)[i := es])))"
    and n: "n + length (tbl_values t ! i) = tbl_entries t + length es"
  shows "table_ok key (t\<lparr>tbl_values := (tbl_values t)[i := es], tbl_entries := n\<rparr>)"
proof -
  have "size (mset (map key (concat ((tbl_values t)[i := es]))) + mset (map key (tbl_values t ! i)))
      = size (mset (map key (all_buckets t)) + mset (map key es))"
    by (simp only: keys_update [OF ok i])
  with ok n have "n = length (concat ((tbl_values t)[i := es]))" by (simp add: table_ok_def del: mset_map)
  with ok i es keys show ?thesis by (auto simp: table_ok_def all_buckets_def nth_list_update)
qed

lemma table_bin_less: "table_ok key t \<Longrightarrow> table_bin t k < tbl_bins t"
  by (simp add: table_bin_def find_bin_less table_ok_bins)

lemma bin_of_chain: "table_ok key t \<Longrightarrow> i < tbl_bins t \<Longrightarrow> e \<in> set (tbl_values t ! i) \<Longrightarrow> find_bin (key_hash (key e)) (tbl_bins t) = i"
  by (simp add: table_ok_def)

lemma find_in_update:
  assumes "table_ok key t"
  shows "table_find key (t\<lparr>tbl_values := (tbl_values t)[table_bin t k := es], tbl_entries := n\<rparr>) j
    = (if table_bin t j = table_bin t k then chain_find key j es else table_find key t j)"
  using table_bin_less [OF assms, of k] assms by (simp add: table_find_def table_bin_def table_ok_def)

lemma table_put_ok:
  assumes ok: "table_ok key t" and upd: "\<And>e. key (upd e) = key e"
  shows "table_ok key (table_put key upd new t)"
    and "table_find key (table_put key upd new t) j =
      (if j = key new then Some (case table_find key t (key new) of Some e \<Rightarrow> upd e | None \<Rightarrow> new) else table_find key t j)"
    and "tbl_entries (table_put key upd new t) \<le> tbl_entries t + 1" and "tbl_bins (table_put key upd new t) = tbl_bins t"
proof -
  let ?k = "key new" and ?i = "table_bin t (key new)"
  let ?es = "tbl_values t ! ?i"
  have i: "?i < tbl_bins t" by (rule table_bin_less [OF ok])
  have "table_ok key (table_put key upd new t)
    \<and> table_find key (table_put key upd new t) j =
      (if j = ?k then Some (case table_find key t ?k of Some e \<Rightarrow> upd e | None \<Rightarrow> new) else table_find key t j)
    \<and> tbl_entries (table_put key upd new t) \<le> tbl_entries t + 1 \<and> tbl_bins (table_put key upd new t) = tbl_bins t"
  proof (cases "chain_find key ?k ?es")
    case None
    let ?t = "t\<lparr>tbl_values := (tbl_values t)[?i := ?es @ [new]], tbl_entries := tbl_entries t + 1\<rparr>"
    have put: "table_put key upd new t = ?t" using None by (simp add: table_put_def Let_def)
    have "chain_find key ?k (all_buckets t) = None" using None table_find_all [OF ok, of ?k] by (simp add: table_find_def)
    then have "?k \<notin> set (map key (all_buckets t))" by (simp add: chain_find_None)
    moreover have "mset (map key (concat ((tbl_values t)[?i := ?es @ [new]]))) = mset (?k # map key (all_buckets t))"
      using keys_update [OF ok i, of "?es @ [new]"] by simp
    ultimately have "distinct (map key (concat ((tbl_values t)[?i := ?es @ [new]])))"
      using ok by (simp add: mset_eq_imp_distinct_iff [of _ "?k # map key (all_buckets t)"] table_ok_def del: mset_map)
    then have "table_ok key ?t"
      using bin_of_chain [OF ok i] by (intro table_ok_update [OF ok i]) (auto simp: table_bin_def)
    moreover have "table_find key ?t j = (if j = ?k then Some new else table_find key t j)"
      using None find_in_update [OF ok, where k = ?k and es = "?es @ [new]" and n = "tbl_entries t + 1" and j = j]
      by (auto simp: chain_find_append table_find_def split: option.splits)
    ultimately show ?thesis using None by (simp add: put) (simp add: table_find_def)
  next
    case (Some e)
    let ?us = "chain_update key upd ?k ?es"
    let ?t = "t\<lparr>tbl_values := (tbl_values t)[?i := ?us], tbl_entries := tbl_entries t\<rparr>"
    have put: "table_put key upd new t = ?t" using Some by (simp add: table_put_def Let_def)
    have len: "length ?us = length ?es" using map_key_update [of key upd ?k ?es, OF upd] by (metis length_map)
    have "mset (map key (concat ((tbl_values t)[?i := ?us]))) = mset (map key (all_buckets t))"
      using keys_update [OF ok i, of ?us] map_key_update [of key upd ?k ?es, OF upd] by (simp del: mset_map)
    then have "distinct (map key (concat ((tbl_values t)[?i := ?us])))"
      using ok by (metis mset_eq_imp_distinct_iff table_ok_def)
    then have "table_ok key ?t"
      using bin_of_chain [OF ok i] set_chain_update [of key upd ?k ?es] len upd by (intro table_ok_update [OF ok i]) auto
    moreover have "table_find key ?t j = (if j = ?k then Some (upd e) else table_find key t j)"
      using Some find_in_update [OF ok, where k = ?k and es = ?us and n = "tbl_entries t" and j = j]
      by (simp add: chain_find_update [of key upd, OF upd] table_find_def split: if_splits)
    ultimately show ?thesis using Some by (simp add: put) (simp add: table_find_def)
  qed
  then show "table_ok key (table_put key upd new t)"
    "table_find key (table_put key upd new t) j =
      (if j = ?k then Some (case table_find key t ?k of Some e \<Rightarrow> upd e | None \<Rightarrow> new) else table_find key t j)"
    "tbl_entries (table_put key upd new t) \<le> tbl_entries t + 1" "tbl_bins (table_put key upd new t) = tbl_bins t"
    by blast+
qed

lemma table_take_ok:
  assumes ok: "table_ok key t"
  shows "table_ok key (fst (table_take key k t))"
    and "table_find key (fst (table_take key k t)) j = (if j = k then None else table_find key t j)"
    and "snd (table_take key k t) = table_find key t k"
    and "tbl_entries (fst (table_take key k t)) \<le> tbl_entries t" and "tbl_bins (fst (table_take key k t)) = tbl_bins t"
proof -
  let ?i = "table_bin t k"
  let ?es = "tbl_values t ! ?i"
  have i: "?i < tbl_bins t" by (rule table_bin_less [OF ok])
  have "table_ok key (fst (table_take key k t))
    \<and> table_find key (fst (table_take key k t)) j = (if j = k then None else table_find key t j)
    \<and> snd (table_take key k t) = table_find key t k
    \<and> tbl_entries (fst (table_take key k t)) \<le> tbl_entries t \<and> tbl_bins (fst (table_take key k t)) = tbl_bins t"
  proof (cases "chain_find key k ?es")
    case None
    then show ?thesis using ok by (simp add: table_take_def Let_def table_find_def)
  next
    case (Some e)
    let ?rs = "chain_remove key k ?es"
    let ?t = "t\<lparr>tbl_values := (tbl_values t)[?i := ?rs], tbl_entries := tbl_entries t - 1\<rparr>"
    have take: "table_take key k t = (?t, Some e)" using Some by (simp add: table_take_def Let_def)
    from chain_update_split [OF Some] obtain us vs where es: "?es = us @ e # vs" "key e = k" "?rs = us @ vs" by metis
    have "0 < length ?es" using es by simp
    moreover have "length ?es \<le> tbl_entries t"
      using elem_le_sum_list [of ?i "map length (tbl_values t)"] ok i by (simp add: table_ok_def all_buckets_def length_concat)
    ultimately have n: "tbl_entries t - 1 + length ?es = tbl_entries t + length ?rs" using es by simp
    have "mset (k # map key (concat ((tbl_values t)[?i := ?rs]))) = mset (map key (all_buckets t))"
      using keys_update [OF ok i, of ?rs] es by simp
    then have "distinct (map key (concat ((tbl_values t)[?i := ?rs])))"
      using ok mset_eq_imp_distinct_iff [of "k # map key (concat ((tbl_values t)[?i := ?rs]))" "map key (all_buckets t)"]
      by (simp add: table_ok_def)
    then have "table_ok key ?t"
      using bin_of_chain [OF ok i] set_chain_remove [of key k ?es] n by (intro table_ok_update [OF ok i]) auto
    moreover have "table_find key ?t j = (if j = k then None else table_find key t j)"
      using find_in_update [OF ok, where k = k and es = ?rs and n = "tbl_entries t - 1" and j = j] chain_find_remove [OF chain_distinct [OF ok i]]
      by (simp add: table_find_def split: if_splits)
    ultimately show ?thesis using Some by (simp add: take) (simp add: table_find_def)
  qed
  then show "table_ok key (fst (table_take key k t))"
    "table_find key (fst (table_take key k t)) j = (if j = k then None else table_find key t j)"
    "snd (table_take key k t) = table_find key t k"
    "tbl_entries (fst (table_take key k t)) \<le> tbl_entries t" "tbl_bins (fst (table_take key k t)) = tbl_bins t"
    by blast+
qed

end
