(* ===== verification/Vm_Tables.thy ===== *)
theory Vm_Tables
  imports Vm_Buckets
begin

text \<open>
  \<open>LookupTable\<close> (\<open>vm/builtin/lookuptable.hpp\<close>, \<open>lookuptable.cpp\<close>) and \<open>MethodTable\<close> (\<open>methodtable.hpp\<close>,
  \<open>methodtable.cpp\<close>): their buckets and operations over the steps of \<open>Vm_Buckets\<close>. Both interpret the locale
  \<open>map_table\<close>, which states what their clients rely on. A key of a \<open>LookupTable\<close> that is a \<open>String\<close> is turned
  into its symbol first; which references are strings, and their bytes, is the parameter \<open>string_of\<close>.
\<close>

section \<open>The contract\<close>

datatype 'v table_op = Put oop 'v | Del oop | Get oop

text \<open>What a sequence of operations does to a map.\<close>

primrec map_exec :: "(oop \<rightharpoonup> 'v) \<Rightarrow> 'v table_op \<Rightarrow> oop \<rightharpoonup> 'v" where
  "map_exec m (Put k v) = m(k \<mapsto> v)"
| "map_exec m (Del k) = m(k := None)"
| "map_exec m (Get k) = m"

locale map_table =
  fixes ok :: "'t \<Rightarrow> bool" and room :: "'t \<Rightarrow> nat"
    and find :: "'t \<Rightarrow> oop \<Rightarrow> 'v option" and put :: "'t \<Rightarrow> oop \<Rightarrow> 'v \<Rightarrow> 't" and del :: "'t \<Rightarrow> oop \<Rightarrow> 't"
  assumes put_ok: "ok t \<Longrightarrow> 0 < room t \<Longrightarrow> ok (put t k v)"
    and put_find: "ok t \<Longrightarrow> 0 < room t \<Longrightarrow> find (put t k v) = (find t)(k \<mapsto> v)"
    and put_room: "ok t \<Longrightarrow> 0 < room t \<Longrightarrow> room t \<le> room (put t k v) + 1"
    and del_ok: "ok t \<Longrightarrow> ok (del t k)"
    and del_find: "ok t \<Longrightarrow> find (del t k) = (find t)(k := None)"
    and del_room: "ok t \<Longrightarrow> room t \<le> room (del t k)"
begin

primrec op_exec :: "'t \<Rightarrow> 'v table_op \<Rightarrow> 't" where
  "op_exec t (Put k v) = put t k v"
| "op_exec t (Del k) = del t k"
| "op_exec t (Get k) = t"

lemma run_ok:
  "ok t \<Longrightarrow> length ops \<le> room t \<Longrightarrow> ok (foldl op_exec t ops) \<and> room t \<le> room (foldl op_exec t ops) + length ops"
proof (induction ops arbitrary: t)
  case (Cons op ops)
  have "ok (op_exec t op) \<and> room t \<le> room (op_exec t op) + 1"
    using Cons.prems put_ok put_room del_ok del_room by (cases op) (auto simp: le_SucI)
  with Cons.IH [of "op_exec t op"] Cons.prems show ?case by fastforce
qed simp

lemma run_find: "ok t \<Longrightarrow> length ops \<le> room t \<Longrightarrow> find (foldl op_exec t ops) = foldl map_exec (find t) ops"
proof (induction ops arbitrary: t)
  case (Cons op ops)
  have "ok (op_exec t op)" "length ops \<le> room (op_exec t op)" using run_ok [of t "[op]"] Cons.prems by auto
  moreover have "find (op_exec t op) = map_exec (find t) op" using Cons.prems put_find del_find by (cases op) auto
  ultimately show ?case using Cons.IH by simp
qed simp

end

section \<open>Lookup tables\<close>

record LookupTableBucket =
  bucket_key :: oop
  bucket_value :: oop

type_synonym LookupTable = "LookupTableBucket bucket_table"

definition LookupTableBucket_create :: "oop \<Rightarrow> oop \<Rightarrow> LookupTableBucket" where
  "LookupTableBucket_create key val = \<lparr>bucket_key = key, bucket_value = val\<rparr>"

definition LookupTable_create :: "nat \<Rightarrow> LookupTable" where "LookupTable_create sz = table_setup sz"

definition key_to_sym :: "(oop \<Rightarrow> u8 list option) \<Rightarrow> SymbolTable \<Rightarrow> oop \<Rightarrow> SymbolTable \<times> (vm_error + oop)" where
  "key_to_sym string_of syms key =
     (case string_of key of None \<Rightarrow> (syms, Inr key) | Some bytes \<Rightarrow> SymbolTable_lookup syms (Some bytes))"

definition LookupTable_put :: "LookupTable \<Rightarrow> oop \<Rightarrow> oop \<Rightarrow> LookupTable" where
  "LookupTable_put t key val = table_put bucket_key (\<lambda>e. e\<lparr>bucket_value := val\<rparr>) (LookupTableBucket_create key val) t"

definition LookupTable_store ::
  "(oop \<Rightarrow> u8 list option) \<Rightarrow> SymbolTable \<Rightarrow> LookupTable \<Rightarrow> oop \<Rightarrow> oop \<Rightarrow> (SymbolTable \<times> LookupTable) \<times> (vm_error + oop)" where
  "LookupTable_store string_of syms t key val =
     (let t = table_grow bucket_key t
      in case key_to_sym string_of syms key of
           (syms, Inl err) \<Rightarrow> ((syms, t), Inl err)
         | (syms, Inr key) \<Rightarrow> ((syms, LookupTable_put t key val), Inr val))"

definition LookupTable_find_entry ::
  "(oop \<Rightarrow> u8 list option) \<Rightarrow> SymbolTable \<Rightarrow> LookupTable \<Rightarrow> oop \<Rightarrow> SymbolTable \<times> (vm_error + LookupTableBucket option)" where
  "LookupTable_find_entry string_of syms t key =
     (case key_to_sym string_of syms key of
        (syms, Inl err) \<Rightarrow> (syms, Inl err)
      | (syms, Inr key) \<Rightarrow> (syms, Inr (table_find bucket_key t key)))"

text \<open>\<open>aref\<close>, \<open>fetch\<close>, \<open>find\<close> and \<open>has_key\<close> differ in what they return for an entry and for none.\<close>

definition LookupTable_answer ::
  "oop \<Rightarrow> (LookupTableBucket \<Rightarrow> oop) \<Rightarrow> (oop \<Rightarrow> u8 list option) \<Rightarrow> SymbolTable \<Rightarrow> LookupTable \<Rightarrow> oop
    \<Rightarrow> SymbolTable \<times> (vm_error + oop)" where
  "LookupTable_answer failure action string_of syms t key =
     (case LookupTable_find_entry string_of syms t key of
        (syms, Inl err) \<Rightarrow> (syms, Inl err)
      | (syms, Inr None) \<Rightarrow> (syms, Inr failure)
      | (syms, Inr (Some entry)) \<Rightarrow> (syms, Inr (action entry)))"

definition LookupTable_aref where "LookupTable_aref = LookupTable_answer Qnil bucket_value"
definition LookupTable_fetch where "LookupTable_fetch return_on_failure = LookupTable_answer return_on_failure bucket_value"
definition LookupTable_find where "LookupTable_find = LookupTable_answer Qundef bucket_value"
definition LookupTable_has_key where "LookupTable_has_key = LookupTable_answer Qfalse (\<lambda>_. Qtrue)"

definition LookupTable_fetch_found ::
  "(oop \<Rightarrow> u8 list option) \<Rightarrow> SymbolTable \<Rightarrow> LookupTable \<Rightarrow> oop \<Rightarrow> SymbolTable \<times> (vm_error + oop \<times> bool)" where
  "LookupTable_fetch_found string_of syms t key =
     (case LookupTable_find_entry string_of syms t key of
        (syms, Inl err) \<Rightarrow> (syms, Inl err)
      | (syms, Inr None) \<Rightarrow> (syms, Inr (Qnil, False))
      | (syms, Inr (Some entry)) \<Rightarrow> (syms, Inr (bucket_value entry, True)))"

definition LookupTable_remove ::
  "(oop \<Rightarrow> u8 list option) \<Rightarrow> SymbolTable \<Rightarrow> LookupTable \<Rightarrow> oop \<Rightarrow> (SymbolTable \<times> LookupTable) \<times> (vm_error + oop)" where
  "LookupTable_remove string_of syms t key =
     (let t = table_shrink bucket_key t
      in case key_to_sym string_of syms key of
           (syms, Inl err) \<Rightarrow> ((syms, t), Inl err)
         | (syms, Inr key) \<Rightarrow> (case table_take bucket_key key t of
             (t, None) \<Rightarrow> ((syms, t), Inr Qnil)
           | (t, Some entry) \<Rightarrow> ((syms, t), Inr (bucket_value entry))))"

definition LookupTable_all_keys :: "LookupTable \<Rightarrow> oop list" where "LookupTable_all_keys = table_collect bucket_key"
definition LookupTable_all_values :: "LookupTable \<Rightarrow> oop list" where "LookupTable_all_values = table_collect bucket_value"
definition LookupTable_all_entries :: "LookupTable \<Rightarrow> LookupTableBucket list" where "LookupTable_all_entries = table_collect (\<lambda>e. e)"

definition LookupTable_duplicate ::
  "(oop \<Rightarrow> u8 list option) \<Rightarrow> SymbolTable \<Rightarrow> LookupTable \<Rightarrow> SymbolTable \<times> LookupTable" where
  "LookupTable_duplicate string_of syms t =
     foldl (\<lambda>(syms, dup) entry. fst (LookupTable_store string_of syms dup (bucket_key entry) (bucket_value entry)))
       (syms, LookupTable_create (tbl_bins t)) (take (tbl_entries t) (LookupTable_all_entries t))"

section \<open>Method tables\<close>

record MethodTableBucket =
  mb_name :: oop
  mb_visibility :: oop
  mb_method :: oop

type_synonym MethodTable = "MethodTableBucket bucket_table"

definition MethodTableBucket_create :: "oop \<Rightarrow> oop \<Rightarrow> oop \<Rightarrow> MethodTableBucket" where
  "MethodTableBucket_create nm method vis = \<lparr>mb_name = nm, mb_visibility = vis, mb_method = method\<rparr>"

definition MethodTable_create :: "nat \<Rightarrow> MethodTable" where "MethodTable_create sz = table_setup sz"

definition MethodTable_put :: "MethodTable \<Rightarrow> oop \<Rightarrow> oop \<Rightarrow> oop \<Rightarrow> MethodTable" where
  "MethodTable_put t nm method vis =
     table_put mb_name (\<lambda>e. e\<lparr>mb_method := method, mb_visibility := vis\<rparr>) (MethodTableBucket_create nm method vis)
       (table_grow mb_name t)"

text \<open>Which references are executables is the parameter \<open>executable_p\<close>.\<close>

definition MethodTable_store ::
  "(oop \<Rightarrow> bool) \<Rightarrow> MethodTable \<Rightarrow> oop \<Rightarrow> oop \<Rightarrow> oop \<Rightarrow> vm_error + (MethodTable \<times> oop)" where
  "MethodTable_store executable_p t nm exec vis =
     (if exec \<noteq> Qnil \<and> \<not> executable_p exec then Inl TypeError
      else Inr (MethodTable_put t nm exec vis, nm))"

definition MethodTable_find_entry :: "MethodTable \<Rightarrow> oop \<Rightarrow> MethodTableBucket option" where
  "MethodTable_find_entry t nm = table_find mb_name t nm"

definition MethodTable_remove :: "MethodTable \<Rightarrow> oop \<Rightarrow> MethodTable \<times> oop" where
  "MethodTable_remove t nm =
     (case table_take mb_name nm (table_shrink mb_name t) of (t, None) \<Rightarrow> (t, Qnil) | (t, Some entry) \<Rightarrow> (t, mb_method entry))"

definition MethodTable_has_name :: "MethodTable \<Rightarrow> oop \<Rightarrow> oop" where
  "MethodTable_has_name t nm = (case MethodTable_find_entry t nm of None \<Rightarrow> Qfalse | Some _ \<Rightarrow> Qtrue)"

definition MethodTable_all_names :: "MethodTable \<Rightarrow> oop list" where "MethodTable_all_names = table_collect mb_name"
definition MethodTable_all_values :: "MethodTable \<Rightarrow> oop list" where "MethodTable_all_values = table_collect mb_method"
definition MethodTable_all_entries :: "MethodTable \<Rightarrow> MethodTableBucket list" where "MethodTable_all_entries = table_collect (\<lambda>e. e)"

definition MethodTable_duplicate :: "MethodTable \<Rightarrow> MethodTable" where
  "MethodTable_duplicate t =
     foldl (\<lambda>dup entry. MethodTable_put dup (mb_name entry) (mb_method entry) (mb_visibility entry))
       (MethodTable_create (tbl_bins t)) (take (tbl_entries t) (MethodTable_all_entries t))"

section \<open>Both are maps\<close>

definition table_room :: "'e bucket_table \<Rightarrow> nat" where
  "table_room t = (if tbl_bins t < 2 ^ 31 then 2 ^ 28 - tbl_entries t else 0)"

lemma room_fits: "0 < table_room t \<longleftrightarrow> table_fits t"
  by (simp add: table_room_def table_fits_def)

definition bucket_find :: "LookupTable \<Rightarrow> oop \<Rightarrow> oop option" where
  "bucket_find t k = map_option bucket_value (table_find bucket_key t k)"

definition method_find :: "MethodTable \<Rightarrow> oop \<Rightarrow> (oop \<times> oop) option" where
  "method_find t nm = map_option (\<lambda>e. (mb_method e, mb_visibility e)) (table_find mb_name t nm)"

lemma table_setup_ok: "table_ok key (table_setup sz)" "table_find key (table_setup sz) k = None"
proof -
  show "table_ok key (table_setup sz)" by (simp add: table_setup_def table_ok_def all_buckets_def TABLE_MIN_SIZE_def Let_def)
  then show "table_find key (table_setup sz) k = None"
    by (subst table_find_all) (auto simp: table_setup_def all_buckets_def Let_def)
qed

lemma put_room_le:
  assumes ok: "table_ok key t" and fits: "table_fits t" and upd: "\<And>e. key (upd e) = key e"
  shows "table_room t \<le> table_room (table_put key upd new (table_grow key t)) + 1"
proof -
  note grow = table_grow_ok [OF ok fits]
  show ?thesis
    using table_put_ok(3,4) [OF grow(1), where upd = upd and new = new] upd grow(3,4) fits
    by (simp add: table_room_def table_fits_def)
qed

interpretation lookup: map_table "table_ok bucket_key" table_room bucket_find
  "\<lambda>t k v. LookupTable_put (table_grow bucket_key t) k v" "\<lambda>t k. fst (table_take bucket_key k (table_shrink bucket_key t))"
proof
  fix t :: LookupTable and k v
  assume ok: "table_ok bucket_key t"
  note shrink = table_shrink_ok [OF ok]
  show "table_ok bucket_key (fst (table_take bucket_key k (table_shrink bucket_key t)))"
    by (rule table_take_ok(1) [OF shrink(1)])
  show "bucket_find (fst (table_take bucket_key k (table_shrink bucket_key t))) = (bucket_find t)(k := None)"
    by (rule ext) (simp add: bucket_find_def table_take_ok(2) [OF shrink(1)] shrink(2))
  show "table_room t \<le> table_room (fst (table_take bucket_key k (table_shrink bucket_key t)))"
    using table_take_ok(4,5) [OF shrink(1), of k] shrink(3,4) by (auto simp: table_room_def)
  assume "0 < table_room t"
  then have fits: "table_fits t" by (simp add: room_fits)
  note grow = table_grow_ok [OF ok fits]
  let ?upd = "\<lambda>e :: LookupTableBucket. e\<lparr>bucket_value := v\<rparr>" and ?new = "LookupTableBucket_create k v"
  show "table_ok bucket_key (LookupTable_put (table_grow bucket_key t) k v)"
    unfolding LookupTable_put_def by (rule table_put_ok(1) [OF grow(1)]) simp
  show "bucket_find (LookupTable_put (table_grow bucket_key t) k v) = (bucket_find t)(k \<mapsto> v)"
  proof
    fix j
    show "bucket_find (LookupTable_put (table_grow bucket_key t) k v) j = ((bucket_find t)(k \<mapsto> v)) j"
      using table_put_ok(2) [OF grow(1), where upd = ?upd and new = ?new and j = j]
      by (simp add: bucket_find_def LookupTable_put_def LookupTableBucket_create_def grow(2) split: option.split)
  qed
  show "table_room t \<le> table_room (LookupTable_put (table_grow bucket_key t) k v) + 1"
    unfolding LookupTable_put_def by (rule put_room_le [OF ok fits]) simp
qed

interpretation methods: map_table "table_ok mb_name" table_room method_find
  "\<lambda>t nm (m, vis). MethodTable_put t nm m vis" "\<lambda>t nm. fst (MethodTable_remove t nm)"
proof
  fix t :: MethodTable and k and v :: "oop \<times> oop"
  assume ok: "table_ok mb_name t"
  note shrink = table_shrink_ok [OF ok]
  have remove: "fst (MethodTable_remove t k) = fst (table_take mb_name k (table_shrink mb_name t))"
    by (simp add: MethodTable_remove_def split: prod.split option.split)
  show "table_ok mb_name (fst (MethodTable_remove t k))"
    unfolding remove by (rule table_take_ok(1) [OF shrink(1)])
  show "method_find (fst (MethodTable_remove t k)) = (method_find t)(k := None)"
    unfolding remove by (rule ext) (simp add: method_find_def table_take_ok(2) [OF shrink(1)] shrink(2))
  show "table_room t \<le> table_room (fst (MethodTable_remove t k))"
    unfolding remove using table_take_ok(4,5) [OF shrink(1), of k] shrink(3,4) by (auto simp: table_room_def)
  assume "0 < table_room t"
  then have fits: "table_fits t" by (simp add: room_fits)
  note grow = table_grow_ok [OF ok fits]
  obtain m vis where v: "v = (m, vis)" by (cases v)
  let ?upd = "\<lambda>e :: MethodTableBucket. e\<lparr>mb_method := m, mb_visibility := vis\<rparr>" and ?new = "MethodTableBucket_create k m vis"
  show "table_ok mb_name (case v of (m, vis) \<Rightarrow> MethodTable_put t k m vis)"
    unfolding v prod.case MethodTable_put_def by (rule table_put_ok(1) [OF grow(1)]) simp
  show "method_find (case v of (m, vis) \<Rightarrow> MethodTable_put t k m vis) = (method_find t)(k \<mapsto> v)"
  proof
    fix j
    show "method_find (case v of (m, vis) \<Rightarrow> MethodTable_put t k m vis) j = ((method_find t)(k \<mapsto> v)) j"
      using table_put_ok(2) [OF grow(1), where upd = ?upd and new = ?new and j = j]
      by (simp add: v method_find_def MethodTable_put_def MethodTableBucket_create_def grow(2) split: option.split)
  qed
  show "table_room t \<le> table_room (case v of (m, vis) \<Rightarrow> MethodTable_put t k m vis) + 1"
    unfolding v prod.case MethodTable_put_def by (rule put_room_le [OF ok fits]) simp
qed

section \<open>Sequences of operations on a lookup table\<close>

datatype lookup_op = LStore oop oop | LAref oop | LFetch oop oop | LFind oop | LHasKey oop | LRemove oop

primrec lookup_exec ::
  "(oop \<Rightarrow> u8 list option) \<Rightarrow> SymbolTable \<times> LookupTable \<Rightarrow> lookup_op \<Rightarrow> (SymbolTable \<times> LookupTable) \<times> (vm_error + oop)" where
  "lookup_exec f s (LStore k v) = LookupTable_store f (fst s) (snd s) k v"
| "lookup_exec f s (LRemove k) = LookupTable_remove f (fst s) (snd s) k"
| "lookup_exec f s (LAref k) = (case LookupTable_aref f (fst s) (snd s) k of (syms, r) \<Rightarrow> ((syms, snd s), r))"
| "lookup_exec f s (LFetch k d) = (case LookupTable_fetch d f (fst s) (snd s) k of (syms, r) \<Rightarrow> ((syms, snd s), r))"
| "lookup_exec f s (LFind k) = (case LookupTable_find f (fst s) (snd s) k of (syms, r) \<Rightarrow> ((syms, snd s), r))"
| "lookup_exec f s (LHasKey k) = (case LookupTable_has_key f (fst s) (snd s) k of (syms, r) \<Rightarrow> ((syms, snd s), r))"

text \<open>The same on a map; only the conversion of the key remains.\<close>

primrec op_key :: "lookup_op \<Rightarrow> oop" where
  "op_key (LStore k v) = k" | "op_key (LRemove k) = k" | "op_key (LAref k) = k" | "op_key (LFetch k d) = k"
| "op_key (LFind k) = k" | "op_key (LHasKey k) = k"

definition value_or :: "oop \<Rightarrow> oop option \<Rightarrow> oop" where "value_or d x = (case x of None \<Rightarrow> d | Some v \<Rightarrow> v)"

primrec map_answer :: "(oop \<rightharpoonup> oop) \<Rightarrow> oop \<Rightarrow> lookup_op \<Rightarrow> (oop \<rightharpoonup> oop) \<times> oop" where
  "map_answer m k (LStore _ v) = (m(k \<mapsto> v), v)"
| "map_answer m k (LRemove _) = (m(k := None), value_or Qnil (m k))"
| "map_answer m k (LAref _) = (m, value_or Qnil (m k))"
| "map_answer m k (LFetch _ d) = (m, value_or d (m k))"
| "map_answer m k (LFind _) = (m, value_or Qundef (m k))"
| "map_answer m k (LHasKey _) = (m, if m k = None then Qfalse else Qtrue)"

definition lookup_map_exec ::
  "(oop \<Rightarrow> u8 list option) \<Rightarrow> SymbolTable \<times> (oop \<rightharpoonup> oop) \<Rightarrow> lookup_op \<Rightarrow> (SymbolTable \<times> (oop \<rightharpoonup> oop)) \<times> (vm_error + oop)" where
  "lookup_map_exec f s op =
     (case key_to_sym f (fst s) (op_key op) of
        (syms, Inl err) \<Rightarrow> ((syms, snd s), Inl err)
      | (syms, Inr k) \<Rightarrow> (case map_answer (snd s) k op of (m, r) \<Rightarrow> ((syms, m), Inr r)))"

fun run_with :: "('s \<Rightarrow> 'o \<Rightarrow> 's \<times> 'r) \<Rightarrow> 's \<Rightarrow> 'o list \<Rightarrow> 's \<times> 'r list" where
  "run_with exec s [] = (s, [])"
| "run_with exec s (op # ops) = (case exec s op of (s, r) \<Rightarrow> case run_with exec s ops of (s, rs) \<Rightarrow> (s, r # rs))"

lemma answer_map:
  "LookupTable_answer d act f syms t k = (case key_to_sym f syms k of
     (syms, Inl err) \<Rightarrow> (syms, Inl err)
   | (syms, Inr k) \<Rightarrow> (syms, Inr (case table_find bucket_key t k of None \<Rightarrow> d | Some e \<Rightarrow> act e)))"
  by (auto simp: LookupTable_answer_def LookupTable_find_entry_def split: prod.splits sum.splits option.splits)

lemmas answer_defs = LookupTable_aref_def LookupTable_fetch_def LookupTable_find_def LookupTable_has_key_def answer_map

lemma value_or_find: "value_or d (bucket_find t k) = (case table_find bucket_key t k of None \<Rightarrow> d | Some e \<Rightarrow> bucket_value e)"
  by (simp add: value_or_def bucket_find_def split: option.split)

lemma bucket_find_None: "bucket_find t k = None \<longleftrightarrow> table_find bucket_key t k = None"
  by (simp add: bucket_find_def)

lemma lookup_exec_map:
  assumes ok: "table_ok bucket_key t" and room: "0 < table_room t"
  obtains t' r where "lookup_exec f (syms, t) op = ((fst (key_to_sym f syms (op_key op)), t'), r)"
    and "lookup_map_exec f (syms, bucket_find t) op = ((fst (key_to_sym f syms (op_key op)), bucket_find t'), r)"
    and "table_ok bucket_key t'" and "table_room t \<le> table_room t' + 1"
proof -
  obtain syms' ke where k: "key_to_sym f syms (op_key op) = (syms', ke)" by fastforce
  have fits: "table_fits t" using room by (simp add: room_fits)
  note grow = table_grow_ok [OF ok fits] and shrink = table_shrink_ok [OF ok]
  have grow_find: "bucket_find (table_grow bucket_key t) = bucket_find t" "bucket_find (table_shrink bucket_key t) = bucket_find t"
    using grow(2) shrink(2) by (auto simp: bucket_find_def)
  have grow_room: "table_room t \<le> table_room (table_grow bucket_key t) + 1" "table_room t \<le> table_room (table_shrink bucket_key t) + 1"
    using grow(3,4) shrink(3,4) by (auto simp: table_room_def)
  show thesis
  proof (cases op)
    case (LStore key v)
    show thesis
    proof (cases ke)
      case (Inl err)
      with LStore k grow_find grow_room grow(1) show thesis
        by (intro that [of "table_grow bucket_key t" "Inl err"]) (auto simp: LookupTable_store_def lookup_map_exec_def)
    next
      case (Inr j)
      with LStore k lookup.put_ok [OF ok room, of j v] lookup.put_find [OF ok room, of j v] lookup.put_room [OF ok room, of j v]
      show thesis
        by (intro that [of "LookupTable_put (table_grow bucket_key t) j v" "Inr v"])
          (auto simp: LookupTable_store_def lookup_map_exec_def)
    qed
  next
    case (LRemove key)
    show thesis
    proof (cases ke)
      case (Inl err)
      with LRemove k grow_find grow_room shrink(1) show thesis
        by (intro that [of "table_shrink bucket_key t" "Inl err"]) (auto simp: LookupTable_remove_def lookup_map_exec_def)
    next
      case (Inr j)
      let ?t = "fst (table_take bucket_key j (table_shrink bucket_key t))"
      have "snd (table_take bucket_key j (table_shrink bucket_key t)) = table_find bucket_key t j"
        using table_take_ok(3) [OF shrink(1), of j] shrink(2) by simp
      with LRemove Inr k lookup.del_ok [OF ok, of j] lookup.del_find [OF ok, of j] lookup.del_room [OF ok, of j]
      show thesis
        by (intro that [of ?t "Inr (value_or Qnil (bucket_find t j))"])
          (auto simp: LookupTable_remove_def lookup_map_exec_def value_or_find split: prod.splits option.splits)
    qed
  qed (use k ok in \<open>auto intro!: that [of t "snd (lookup_map_exec f (syms, bucket_find t) op)"]
    simp: answer_defs lookup_map_exec_def value_or_find bucket_find_None split: sum.splits option.splits\<close>)
qed

end
