(* ===== verification/Vm_Tables_Run.thy ===== *)
theory Vm_Tables_Run
  imports Vm_Tables
begin

text \<open>
  What the operations of \<open>Vm_Tables\<close> amount to: any sequence of them on a \<open>LookupTable\<close> behaves as on a map,
  a \<open>MethodTable\<close> likewise, and duplicates hold the same entries.
\<close>

section \<open>Keys\<close>

lemma collect_buckets: "table_ok key t \<Longrightarrow> table_collect act t = map act (all_buckets t)"
  by (simp add: table_collect_def all_buckets_def table_ok_def)

lemma table_find_dom:
  assumes "table_ok key t"
  shows "table_find key t k \<noteq> None \<longleftrightarrow> k \<in> key ` set (all_buckets t)"
  using table_find_all [OF assms, of k] by (simp add: chain_find_None)

lemma table_keys:
  assumes ok: "table_ok key t"
  shows "distinct (table_collect key t)" and "set (table_collect key t) = {k. table_find key t k \<noteq> None}"
    and "tbl_entries t = card {k. table_find key t k \<noteq> None}"
proof -
  show 1: "distinct (table_collect key t)" using ok by (simp add: collect_buckets [OF ok]) (simp add: table_ok_def)
  show 2: "set (table_collect key t) = {k. table_find key t k \<noteq> None}"
    using table_find_dom [OF ok] by (simp add: collect_buckets [OF ok])
  have "tbl_entries t = length (table_collect key t)" using ok by (simp add: collect_buckets [OF ok] table_ok_def)
  with distinct_card [OF 1] 2 show "tbl_entries t = card {k. table_find key t k \<noteq> None}" by simp
qed

lemma lookup_keys:
  assumes "table_ok bucket_key t"
  shows "distinct (LookupTable_all_keys t) \<and> set (LookupTable_all_keys t) = dom (bucket_find t)
    \<and> tbl_entries t = card (dom (bucket_find t))"
  using table_keys [OF assms] by (simp add: LookupTable_all_keys_def dom_def bucket_find_def)

section \<open>Lookup tables\<close>



lemma create_room: "sz < 2 ^ 31 \<Longrightarrow> table_room (table_setup sz) = 2 ^ 28"
  by (simp add: table_room_def table_setup_def TABLE_MIN_SIZE_def Let_def)

lemma create_find: "bucket_find (LookupTable_create sz) = Map.empty"
  by (rule ext) (simp add: bucket_find_def LookupTable_create_def table_setup_ok)


section \<open>Duplicates\<close>

lemma puts_find:
  assumes "distinct (map key es)"
  shows "foldl map_exec Map.empty (map (\<lambda>e. Put (key e) (val e)) es) = (\<lambda>k. map_option val (chain_find key k es))"
  using assms
proof (induction es rule: rev_induct)
  case (snoc e es)
  then have "chain_find key (key e) es = None" by (simp add: chain_find_None)
  with snoc show ?case by (auto simp: chain_find_append fun_eq_iff split: option.split)
qed simp

lemma store_plain:
  assumes "f k = None"
  shows "fst (LookupTable_store f syms t k v) = (syms, LookupTable_put (table_grow bucket_key t) k v)"
  using assms by (simp add: LookupTable_store_def key_to_sym_def Let_def)

lemma stores_are_puts:
  assumes "\<forall>e\<in>set es. f (bucket_key e) = None"
  shows "foldl (\<lambda>(syms, dup) e. fst (LookupTable_store f syms dup (bucket_key e) (bucket_value e))) (syms, d) es
    = (syms, foldl lookup.op_exec d (map (\<lambda>e. Put (bucket_key e) (bucket_value e)) es))"
  using assms by (induction es arbitrary: d) (auto simp: store_plain)

lemma all_entries_taken:
  "table_ok key t \<Longrightarrow> take (tbl_entries t) (table_collect (\<lambda>e. e) t) = all_buckets t"
  by (simp add: collect_buckets) (simp add: table_ok_def)

lemma setup_room:
  assumes "table_fits t" and "table_ok key t"
  shows "tbl_entries t \<le> table_room (table_setup (tbl_bins t))"
  using assms by (simp add: create_room table_fits_def)

lemma lookup_duplicate_find:
  assumes ok: "table_ok bucket_key t" and fits: "table_fits t"
    and plain: "\<forall>k. bucket_find t k \<noteq> None \<longrightarrow> f k = None"
  shows "\<exists>d. LookupTable_duplicate f syms t = (syms, d) \<and> table_ok bucket_key d \<and> bucket_find d = bucket_find t"
proof -
  let ?ops = "map (\<lambda>e. Put (bucket_key e) (bucket_value e)) (all_buckets t)"
  let ?d = "foldl lookup.op_exec (LookupTable_create (tbl_bins t)) ?ops"
  have es: "\<forall>e\<in>set (all_buckets t). f (bucket_key e) = None"
    using plain table_find_dom [OF ok] by (auto simp: bucket_find_None image_iff)
  have room: "length ?ops \<le> table_room (LookupTable_create (tbl_bins t))"
    using setup_room [OF fits ok] ok by (simp add: LookupTable_create_def table_ok_def)
  have new: "table_ok bucket_key (LookupTable_create (tbl_bins t))" by (simp add: LookupTable_create_def table_setup_ok)
  have "LookupTable_duplicate f syms t = (syms, ?d)"
    using all_entries_taken [OF ok] stores_are_puts [OF es]
    by (simp add: LookupTable_duplicate_def LookupTable_all_entries_def)
  moreover have "bucket_find ?d = (\<lambda>k. map_option bucket_value (chain_find bucket_key k (all_buckets t)))"
    using lookup.run_find [OF new room] ok by (simp add: create_find puts_find table_ok_def)
  then have "bucket_find ?d = bucket_find t" using table_find_all [OF ok] by (simp add: bucket_find_def fun_eq_iff)
  ultimately show ?thesis using lookup.run_ok [OF new room] by blast
qed

section \<open>Method tables\<close>

lemma methods_create_find: "method_find (MethodTable_create sz) = Map.empty"
  by (rule ext) (simp add: method_find_def MethodTable_create_def table_setup_ok)

lemma puts_methods:
  "foldl (\<lambda>dup e. MethodTable_put dup (mb_name e) (mb_method e) (mb_visibility e)) d es
    = foldl methods.op_exec d (map (\<lambda>e. Put (mb_name e) (mb_method e, mb_visibility e)) es)"
  by (induction es arbitrary: d) auto

lemma method_duplicate_find:
  assumes ok: "table_ok mb_name t" and fits: "table_fits t"
  shows "table_ok mb_name (MethodTable_duplicate t)" and "method_find (MethodTable_duplicate t) = method_find t"
proof -
  let ?ops = "map (\<lambda>e. Put (mb_name e) (mb_method e, mb_visibility e)) (all_buckets t)"
  have room: "length ?ops \<le> table_room (MethodTable_create (tbl_bins t))"
    using setup_room [OF fits ok] ok by (simp add: MethodTable_create_def table_ok_def)
  have new: "table_ok mb_name (MethodTable_create (tbl_bins t))" by (simp add: MethodTable_create_def table_setup_ok)
  have d: "MethodTable_duplicate t = foldl methods.op_exec (MethodTable_create (tbl_bins t)) ?ops"
    using all_entries_taken [OF ok] by (simp add: MethodTable_duplicate_def MethodTable_all_entries_def puts_methods)
  show "table_ok mb_name (MethodTable_duplicate t)" using methods.run_ok [OF new room] by (simp add: d)
  have "method_find (MethodTable_duplicate t) = (\<lambda>k. map_option (\<lambda>e. (mb_method e, mb_visibility e)) (chain_find mb_name k (all_buckets t)))"
    using methods.run_find [OF new room] ok by (simp add: d methods_create_find puts_find table_ok_def)
  then show "method_find (MethodTable_duplicate t) = method_find t"
    using table_find_all [OF ok] by (simp add: method_find_def fun_eq_iff)
qed

text \<open>A duplicate of a LookupTable, and of a MethodTable, finds for every key what the original finds, and lists the
  same number of entries; the symbol table is left alone, as no key of a table is a String.\<close>

theorem duplicates_equal:
  assumes "table_ok bucket_key t" and "table_fits t" and "\<forall>k. bucket_find t k \<noteq> None \<longrightarrow> f k = None"
    and "table_ok mb_name u" and "table_fits u"
  shows "(\<exists>d. LookupTable_duplicate f syms t = (syms, d) \<and> bucket_find d = bucket_find t \<and> tbl_entries d = tbl_entries t)
    \<and> method_find (MethodTable_duplicate u) = method_find u \<and> tbl_entries (MethodTable_duplicate u) = tbl_entries u"
proof -
  from lookup_duplicate_find [OF assms(1-3), of syms] obtain d where
    d: "LookupTable_duplicate f syms t = (syms, d)" "table_ok bucket_key d" "bucket_find d = bucket_find t" by blast
  have "tbl_entries d = tbl_entries t" using lookup_keys [OF d(2)] lookup_keys [OF assms(1)] d(3) by argo
  note m = method_duplicate_find [OF assms(4,5)]
  have "table_find mb_name v k \<noteq> None \<longleftrightarrow> method_find v k \<noteq> None" for v k by (simp add: method_find_def)
  then have "{k. table_find mb_name (MethodTable_duplicate u) k \<noteq> None} = {k. table_find mb_name u k \<noteq> None}"
    by (simp only: m(2))
  then have "tbl_entries (MethodTable_duplicate u) = tbl_entries u"
    using table_keys(3) [OF m(1)] table_keys(3) [OF assms(4)] by argo
  with d m(2) \<open>tbl_entries d = tbl_entries t\<close> show ?thesis by blast
qed

theorem duplicates_equal_witness:
  "\<exists>d. LookupTable_duplicate (\<lambda>_. None) SymbolTable_create (LookupTable_put (LookupTable_create 16) 8 1) = (SymbolTable_create, d)
    \<and> bucket_find d 8 = Some 1"
proof -
  let ?t = "LookupTable_put (table_grow bucket_key (LookupTable_create 16)) 8 1"
  have new: "table_ok bucket_key (LookupTable_create 16)" "0 < table_room (LookupTable_create 16)"
    by (simp_all add: LookupTable_create_def table_setup_ok create_room)
  have grow: "table_grow bucket_key (LookupTable_create 16) = LookupTable_create 16"
    by (simp add: table_grow_def LookupTable_create_def table_setup_def max_density_p_def)
  have room: "table_room (LookupTable_create 16) = 2 ^ 28" by (simp add: LookupTable_create_def create_room)
  have "2 ^ 28 \<le> table_room ?t + 1"
    using lookup.put_room [OF new, of 8 1] by (simp add: room)
  then have fits: "table_fits ?t" by (simp add: room_fits [symmetric])
  have "table_ok mb_name (MethodTable_create 16)" "0 < table_room (MethodTable_create 16)"
    by (simp_all add: MethodTable_create_def table_setup_ok create_room)
  from duplicates_equal [OF lookup.put_ok [OF new] fits _ this(1) this(2) [unfolded room_fits], of "\<lambda>_. None" SymbolTable_create]
  show ?thesis using lookup.put_find [OF new, of 8 1] by (auto simp: grow)
qed

text \<open>A symbol carries its tag in the lowest three bits, so with a power of two of bins only one bin in eight is
  ever used for symbols.\<close>

lemma symbols_use_one_bin_in_eight:
  assumes "3 \<le> k"
  shows "find_bin (key_hash (Symbol_from_index i)) (2 ^ k) mod 8 = 6"
proof -
  have m: "n AND (int (2 ^ k) - 1) = take_bit k n" for n by (simp add: take_bit_eq_mask mask_eq_exp_minus_1)
  have six: "take_bit 3 (uint (Symbol_from_index i)) = 6"
    using apply_symbol_symbol [of "int i"] by (simp add: Symbol_from_index_def SYMBOL_P_mod take_bit_eq_mod)
  have "find_bin (key_hash (Symbol_from_index i)) (2 ^ k) = nat (take_bit k (take_bit 32 (uint (Symbol_from_index i))))"
    by (simp only: find_bin_def key_hash_def m unsigned_ucast_eq) simp
  moreover have "take_bit 3 (take_bit k (take_bit 32 (uint (Symbol_from_index i)))) = 6"
    using six assms by (simp add: min_absorb1)
  then have "nat (take_bit k (take_bit 32 (uint (Symbol_from_index i)))) mod 8 = nat 6"
    by (subst nat_mod_as_int) (simp add: take_bit_eq_mod)
  ultimately show ?thesis by simp
qed

end
