(* ===== verification/Vm_Ivars.thy ===== *)
theory Vm_Ivars
  imports Vm_Tables_Run Vm_Integer
begin

text \<open>
  Instance variables: the \<open>CompactLookupTable\<close> (\<open>vm/builtin/compactlookuptable.hpp\<close>, \<open>compactlookuptable.cpp\<close>), a
  tuple of six keys and values that is searched linearly, and the operations of \<open>Object\<close> (\<open>vm/builtin/object.cpp\<close>)
  that keep instance variables in no table, in a compact one or, when that is full, in a \<open>LookupTable\<close>. The keys
  are symbols, so that none of them is a \<open>String\<close> or nil. Modelled is an object on the heap with the \<open>TypeInfo\<close> of its class
  (\<open>vm/type_info.cpp\<close>): which symbols name a slot, and the functions \<open>set_field\<close> and \<open>get_field\<close>, which either are those of
  \<open>TypeInfo\<close>, which refuse, or have been generated by \<open>vm/codegen/field_extract.rb\<close> from the fields that the class declares.
  Objects that are no references keep their variables in a \<open>LookupTable\<close> of the globals, which is not modelled.
\<close>

section \<open>Compact lookup tables\<close>

definition COMPACTLOOKUPTABLE_SIZE :: nat where "COMPACTLOOKUPTABLE_SIZE = 12"

type_synonym CompactLookupTable = "oop list"

definition CompactLookupTable_create :: CompactLookupTable where
  "CompactLookupTable_create = replicate COMPACTLOOKUPTABLE_SIZE Qnil"

text \<open>The even indices, in the order in which every loop visits them.\<close>

definition compact_slots :: "nat list" where
  "compact_slots = filter even [0..<COMPACTLOOKUPTABLE_SIZE]"

definition CompactLookupTable_fetch :: "CompactLookupTable \<Rightarrow> oop \<Rightarrow> oop" where
  "CompactLookupTable_fetch t key =
     (case find (\<lambda>i. t ! i = key) compact_slots of Some i \<Rightarrow> t ! (i + 1) | None \<Rightarrow> Qnil)"

definition CompactLookupTable_remove :: "CompactLookupTable \<Rightarrow> oop \<Rightarrow> CompactLookupTable \<times> oop" where
  "CompactLookupTable_remove t key =
     (case find (\<lambda>i. t ! i = key) compact_slots of
        Some i \<Rightarrow> (t[i := Qnil, i + 1 := Qnil], t ! (i + 1))
      | None \<Rightarrow> (t, Qnil))"

definition CompactLookupTable_store :: "CompactLookupTable \<Rightarrow> oop \<Rightarrow> oop \<Rightarrow> CompactLookupTable \<times> oop" where
  "CompactLookupTable_store t key val =
     (case find (\<lambda>i. t ! i = key \<or> t ! i = Qnil) compact_slots of
        Some i \<Rightarrow> (t[i := key, i + 1 := val], Qtrue)
      | None \<Rightarrow> (t, Qfalse))"

definition CompactLookupTable_has_key :: "CompactLookupTable \<Rightarrow> oop \<Rightarrow> oop" where
  "CompactLookupTable_has_key t key = (case find (\<lambda>i. t ! i = key) compact_slots of Some i \<Rightarrow> Qtrue | None \<Rightarrow> Qfalse)"

definition CompactLookupTable_keys :: "CompactLookupTable \<Rightarrow> oop list" where
  "CompactLookupTable_keys t = map (\<lambda>i. t ! i) (filter (\<lambda>i. t ! i \<noteq> Qnil) compact_slots)"

definition CompactLookupTable_values :: "CompactLookupTable \<Rightarrow> oop list" where
  "CompactLookupTable_values t = map (\<lambda>i. t ! (i + 1)) (filter (\<lambda>i. t ! i \<noteq> Qnil) compact_slots)"

definition CompactLookupTable_to_lookuptable :: "CompactLookupTable \<Rightarrow> LookupTable" where
  "CompactLookupTable_to_lookuptable t =
     foldl (\<lambda>tbl i. LookupTable_put (table_grow bucket_key tbl) (t ! i) (t ! (i + 1)))
       (LookupTable_create TABLE_MIN_SIZE) (filter (\<lambda>i. t ! i \<noteq> Qnil) compact_slots)"

section \<open>Instance variables of an object\<close>

datatype ivars = NoIvars | Compact CompactLookupTable | Table LookupTable

record RObject =
  obj_fields :: "oop list"
  obj_ivars :: ivars

definition Object_get_table_ivar :: "RObject \<Rightarrow> oop \<Rightarrow> oop" where
  "Object_get_table_ivar obj nm =
     (case obj_ivars obj of
        Compact tbl \<Rightarrow> CompactLookupTable_fetch tbl nm
      | Table tbl \<Rightarrow> value_or Qnil (bucket_find tbl nm)
      | NoIvars \<Rightarrow> Qnil)"

text \<open>A full compact table makes way for a \<open>LookupTable\<close>.\<close>

definition Object_set_table_ivar :: "RObject \<Rightarrow> oop \<Rightarrow> oop \<Rightarrow> RObject \<times> oop" where
  "Object_set_table_ivar obj nm val =
     (case obj_ivars obj of
        NoIvars \<Rightarrow> (obj\<lparr>obj_ivars := Compact (fst (CompactLookupTable_store CompactLookupTable_create nm val))\<rparr>, val)
      | Compact tbl \<Rightarrow> (case CompactLookupTable_store tbl nm val of (tbl', r) \<Rightarrow>
          if r = Qtrue then (obj\<lparr>obj_ivars := Compact tbl'\<rparr>, val)
          else (obj\<lparr>obj_ivars := Table (LookupTable_put (table_grow bucket_key (CompactLookupTable_to_lookuptable tbl)) nm val)\<rparr>, val))
      | Table tbl \<Rightarrow> (obj\<lparr>obj_ivars := Table (LookupTable_put (table_grow bucket_key tbl) nm val)\<rparr>, val))"

text \<open>
  Fields of the class: \<open>fld_type\<close> says of which objects the \<open>as<>\<close> in the generated \<open>set_field\<close> accepts, the type of the field
  being declared in the class. Without fields of its own a class has the functions of \<open>TypeInfo\<close>. A \<open>switch\<close> over the index of
  the generated \<open>set_field\<close> has no default case, that of \<open>get_field\<close> is followed by an exception.
\<close>

datatype field_error = Field_type_error | Field_readonly | Field_access_denied | Field_unknown

record field_info =
  fld_readonly :: bool
  fld_type :: "oop \<Rightarrow> bool"

record TypeInfo =
  ti_slots :: "oop \<Rightarrow> nat option"
  ti_fields :: "field_info list option"

text \<open>The functions of \<open>TypeInfo\<close> itself.\<close>

definition TypeInfo_set_field :: "oop list \<Rightarrow> nat \<Rightarrow> oop \<Rightarrow> field_error + oop list" where
  "TypeInfo_set_field target index val = Inl Field_access_denied"

definition TypeInfo_get_field :: "oop list \<Rightarrow> nat \<Rightarrow> field_error + oop" where
  "TypeInfo_get_field target index = Inl Field_access_denied"

text \<open>The generated ones.\<close>

definition Info_set_field :: "field_info list \<Rightarrow> oop list \<Rightarrow> nat \<Rightarrow> oop \<Rightarrow> field_error + oop list" where
  "Info_set_field infos target index val =
     (if index < length infos
      then (if fld_readonly (infos ! index) then Inl Field_readonly
            else if val = Qnil \<or> fld_type (infos ! index) val then Inr (target[index := val])
            else Inl Field_type_error)
      else Inr target)"

definition Info_get_field :: "field_info list \<Rightarrow> oop list \<Rightarrow> nat \<Rightarrow> field_error + oop" where
  "Info_get_field infos target index = (if index < length infos then Inr (target ! index) else Inl Field_unknown)"

text \<open>They are virtual.\<close>

definition ti_set_field :: "TypeInfo \<Rightarrow> oop list \<Rightarrow> nat \<Rightarrow> oop \<Rightarrow> field_error + oop list" where
  "ti_set_field ti = (case ti_fields ti of None \<Rightarrow> TypeInfo_set_field | Some infos \<Rightarrow> Info_set_field infos)"

definition ti_get_field :: "TypeInfo \<Rightarrow> oop list \<Rightarrow> nat \<Rightarrow> field_error + oop" where
  "ti_get_field ti = (case ti_fields ti of None \<Rightarrow> TypeInfo_get_field | Some infos \<Rightarrow> Info_get_field infos)"

definition Object_get_ivar :: "TypeInfo \<Rightarrow> RObject \<Rightarrow> oop \<Rightarrow> field_error + oop" where
  "Object_get_ivar ti obj nm =
     (case ti_slots ti nm of Some i \<Rightarrow> ti_get_field ti (obj_fields obj) i | None \<Rightarrow> Inr (Object_get_table_ivar obj nm))"

definition Object_set_ivar :: "TypeInfo \<Rightarrow> RObject \<Rightarrow> oop \<Rightarrow> oop \<Rightarrow> RObject \<times> (field_error + oop)" where
  "Object_set_ivar ti obj nm val =
     (case ti_slots ti nm of
        Some i \<Rightarrow> (case ti_set_field ti (obj_fields obj) i val of
                     Inl e \<Rightarrow> (obj, Inl e)
                   | Inr fs \<Rightarrow> (obj\<lparr>obj_fields := fs\<rparr>, Inr val))
      | None \<Rightarrow> (case Object_set_table_ivar obj nm val of (obj, v) \<Rightarrow> (obj, Inr v)))"

definition Object_del_ivar :: "TypeInfo \<Rightarrow> RObject \<Rightarrow> oop \<Rightarrow> RObject" where
  "Object_del_ivar ti obj nm =
     (case ti_slots ti nm of Some i \<Rightarrow> obj | None \<Rightarrow>
       (case obj_ivars obj of
          NoIvars \<Rightarrow> obj
        | Compact tbl \<Rightarrow> obj\<lparr>obj_ivars := Compact (fst (CompactLookupTable_remove tbl nm))\<rparr>
        | Table tbl \<Rightarrow> obj\<lparr>obj_ivars := Table (fst (table_take bucket_key nm (table_shrink bucket_key tbl)))\<rparr>))"

text \<open>Flags that are instance variables; \<open>frozen\<close> and \<open>tainted\<close> are the symbols of these names.\<close>

definition Object_freeze where
  "Object_freeze ti frozen obj = (case Object_set_ivar ti obj frozen Qtrue of (obj, r) \<Rightarrow> (obj, map_sum id (\<lambda>_. ()) r))"
definition Object_frozen_p where
  "Object_frozen_p ti frozen obj = map_sum id (\<lambda>v. if v = Qnil then Qfalse else Qtrue) (Object_get_ivar ti obj frozen)"
definition Object_taint where
  "Object_taint ti tainted obj = (case Object_set_ivar ti obj tainted Qtrue of (obj, r) \<Rightarrow> (obj, map_sum id (\<lambda>_. ()) r))"
definition Object_untaint where "Object_untaint ti tainted obj = Object_del_ivar ti obj tainted"
definition Object_tainted_p where
  "Object_tainted_p ti tainted obj = map_sum id (\<lambda>v. if v = Qnil then Qfalse else Qtrue) (Object_get_ivar ti obj tainted)"

text \<open>\<open>id\<close>: references have even ids, which are allocated when asked for and kept in an instance variable.\<close>

definition Object_id :: "TypeInfo \<Rightarrow> oop \<Rightarrow> int \<times> RObject \<Rightarrow> (int \<times> RObject) \<times> (field_error + oop)" where
  "Object_id ti sym_object_id s =
     (case s of (last_object_id, obj) \<Rightarrow>
       case Object_get_ivar ti obj sym_object_id of
         Inl e \<Rightarrow> (s, Inl e)
       | Inr oid \<Rightarrow>
           if oid = Qnil
           then let last_object_id = last_object_id + 2; oid = Fixnum_from last_object_id
                in (case Object_set_ivar ti obj sym_object_id oid of (obj, r) \<Rightarrow> ((last_object_id, obj), map_sum id (\<lambda>_. oid) r))
           else (s, Inr oid))"

section \<open>The cells of a compact table\<close>

definition compact_ok :: "CompactLookupTable \<Rightarrow> bool" where "compact_ok t \<longleftrightarrow> length t = COMPACTLOOKUPTABLE_SIZE"

definition cells :: "CompactLookupTable \<Rightarrow> (oop \<times> oop) list" where
  "cells t = map (\<lambda>i. (t ! i, t ! (i + 1))) compact_slots"

definition live :: "(oop \<times> oop) list \<Rightarrow> (oop \<times> oop) list" where "live cs = filter (\<lambda>(k, v). k \<noteq> Qnil) cs"

lemma compact_slots_eq: "compact_slots = [0, 2, 4, 6, 8, 10]"
  by (simp add: compact_slots_def COMPACTLOOKUPTABLE_SIZE_def upt_rec)

lemma slots_nth: "j < 6 \<Longrightarrow> compact_slots ! j = 2 * j"
  by (auto simp: compact_slots_eq less_Suc_eq numeral_eq_Suc)

lemma length_cells [simp]: "length (cells t) = 6" "length compact_slots = 6"
  by (simp_all add: cells_def compact_slots_eq)

lemma cells_nth: "j < 6 \<Longrightarrow> cells t ! j = (t ! (2 * j), t ! (2 * j + 1))"
  by (simp add: cells_def slots_nth)

lemma live_simps [simp]:
  "live [] = []" "live (c # cs) = (if fst c = Qnil then live cs else c # live cs)" "live (cs @ ds) = live cs @ live ds"
  by (auto simp: live_def split: prod.split)

text \<open>A search finds the first cell whose key qualifies; writing there replaces this cell.\<close>

lemma find_cell:
  assumes ok: "compact_ok t" and found: "find (\<lambda>i. Q (t ! i)) compact_slots = Some i"
  obtains us v vs where "cells t = us @ (t ! i, v) # vs" and "v = t ! (i + 1)" and "Q (t ! i)" and "\<forall>c\<in>set us. \<not> Q (fst c)"
    and "\<And>k2 v2. cells (t[i := k2, i + 1 := v2]) = us @ (k2, v2) # vs" and "compact_ok (t[i := k2, i + 1 := v2])"
proof -
  from found obtain j where j: "j < 6" "i = 2 * j" "Q (t ! i)" "\<forall>l<j. \<not> Q (t ! (2 * l))"
    by (auto simp: find_Some_iff slots_nth)
  have len: "length t = 12" using ok by (simp add: compact_ok_def COMPACTLOOKUPTABLE_SIZE_def)
  show thesis
  proof (rule that [of "take j (cells t)" "t ! (i + 1)" "drop (Suc j) (cells t)"])
    show "cells t = take j (cells t) @ (t ! i, t ! (i + 1)) # drop (Suc j) (cells t)"
      using id_take_nth_drop [of j "cells t"] j by (simp add: cells_nth)
    show "\<forall>c\<in>set (take j (cells t)). \<not> Q (fst c)"
      using j by (auto simp: in_set_conv_nth cells_nth)
    show "cells (t[i := k2, i + 1 := v2]) = take j (cells t) @ (k2, v2) # drop (Suc j) (cells t)" for k2 v2
    proof -
      have "cells (t[i := k2, i + 1 := v2]) = (cells t)[j := (k2, v2)]"
        using j len by (intro nth_equalityI) (auto simp: cells_nth nth_list_update)
      then show ?thesis using j by (simp add: upd_conv_take_nth_drop)
    qed
  qed (use j ok in \<open>auto simp: compact_ok_def\<close>)
qed

lemma find_no_cell:
  assumes "find (\<lambda>i. Q (t ! i)) compact_slots = None"
  shows "\<forall>c\<in>set (cells t). \<not> Q (fst c)"
  using assms by (auto simp: find_None_iff cells_def)

lemma map_of_live_None: "\<forall>c\<in>set cs. fst c \<noteq> k \<Longrightarrow> map_of (live cs) k = None"
  by (auto simp: map_of_eq_None_iff live_def)

lemma map_of_live_key: "k \<noteq> Qnil \<Longrightarrow> map_of (live cs) k = map_of cs k"
  by (induction cs) auto

lemma compact_fetch:
  assumes "compact_ok t" and "key \<noteq> Qnil"
  shows "CompactLookupTable_fetch t key = value_or Qnil (map_of (live (cells t)) key)"
proof (cases "find (\<lambda>i. t ! i = key) compact_slots")
  case None
  with map_of_live_None [OF find_no_cell [OF None]] show ?thesis by (simp add: CompactLookupTable_fetch_def value_or_def)
next
  case (Some i)
  from find_cell [OF assms(1) Some] obtain us v vs where "cells t = us @ (t ! i, v) # vs" "v = t ! (i + 1)" "t ! i = key" "\<forall>c\<in>set us. fst c \<noteq> key"
    by metis
  with Some assms(2) map_of_live_None [of us key] show ?thesis by (simp add: CompactLookupTable_fetch_def value_or_def map_add_def)
qed

definition uniq :: "CompactLookupTable \<Rightarrow> bool" where "uniq t \<longleftrightarrow> distinct (map fst (live (cells t)))"

text \<open>No empty cell stands before one that is in use.\<close>

definition packed :: "CompactLookupTable \<Rightarrow> bool" where
  "packed t \<longleftrightarrow> (\<exists>n. cells t = live (cells t) @ replicate n (Qnil, Qnil))"

lemma nothing_after_hole:
  assumes "(Qnil, v) # vs = live vs @ replicate n (Qnil, Qnil)"
  shows "live vs = [] \<and> (\<exists>m. vs = replicate m (Qnil, Qnil))"
proof (cases "live vs")
  case Nil
  with assms show ?thesis by (cases n) auto
next
  case (Cons c cs)
  then have "c \<in> set (live vs)" by simp
  then have "fst c \<noteq> Qnil" by (auto simp: live_def)
  with assms Cons show ?thesis by auto
qed

lemma live_replicate [simp]: "live (replicate n (Qnil, v)) = []"
  by (simp add: live_def)

lemma compact_store:
  assumes ok: "compact_ok t" "uniq t" and key: "key \<noteq> Qnil" and safe: "packed t \<or> map_of (live (cells t)) key = None"
    and room: "CompactLookupTable_store t key val = (t', Qtrue)"
  shows "compact_ok t' \<and> uniq t' \<and> map_of (live (cells t')) = (map_of (live (cells t)))(key \<mapsto> val) \<and> (packed t \<longrightarrow> packed t')"
proof -
  from room obtain i where i: "find (\<lambda>i. t ! i = key \<or> t ! i = Qnil) compact_slots = Some i" and t': "t' = t[i := key, i + 1 := val]"
    by (auto simp: CompactLookupTable_store_def Qtrue_def Qfalse_def split: option.splits)
  from find_cell [OF ok(1), where Q = "\<lambda>k. k = key \<or> k = Qnil", OF i] obtain us v vs where
    c: "cells t = us @ (t ! i, v) # vs" "t ! i = key \<or> t ! i = Qnil" "\<forall>c\<in>set us. \<not> (fst c = key \<or> fst c = Qnil)"
      "cells t' = us @ (key, val) # vs" "compact_ok t'"
    unfolding t' by metis
  have us: "live us = us" using c(3) by (auto simp: live_def intro!: filter_True)
  have vs: "key \<notin> fst ` set (live vs)" if "t ! i = Qnil"
    using safe
  proof
    assume "packed t"
    then obtain n where n: "cells t = live (cells t) @ replicate n (Qnil, Qnil)" by (auto simp: packed_def)
    then have "(Qnil, v) # vs = live vs @ replicate n (Qnil, Qnil)" using c(1) us that by simp
    from nothing_after_hole [OF this] show ?thesis by simp
  next
    assume "map_of (live (cells t)) key = None"
    then show ?thesis using c(1) that key by (auto simp: map_of_eq_None_iff)
  qed
  have k: "key \<notin> fst ` set us" using c(3) by auto
  have u: "uniq t'" using ok(2) c(1,2,4) key us vs k by (cases "t ! i = Qnil") (simp_all add: uniq_def)
  have m: "map_of (live (cells t')) = (map_of (live (cells t)))(key \<mapsto> val)"
  proof
    fix k
    have "map_of us key = None" using c(3) by (auto simp: map_of_eq_None_iff)
    then show "map_of (live (cells t')) k = ((map_of (live (cells t)))(key \<mapsto> val)) k"
      using c key us by (cases "t ! i = Qnil") (auto simp: map_add_def split: option.split)
  qed
  have "packed t'" if "packed t"
  proof -
    from that obtain n where n: "cells t = live (cells t) @ replicate n (Qnil, Qnil)" by (auto simp: packed_def)
    show ?thesis
    proof (cases "t ! i = Qnil")
      case True
      with c(1) us n have "(Qnil, v) # vs = live vs @ replicate n (Qnil, Qnil)" by simp
      from nothing_after_hole [OF this] obtain m where "live vs = []" "vs = replicate m (Qnil, Qnil)" by blast
      with c(4) us key show ?thesis by (auto simp: packed_def)
    next
      case False
      with c(1) us n have "vs = live vs @ replicate n (Qnil, Qnil)" by simp
      with c(4) us key show ?thesis by (auto simp: packed_def)
    qed
  qed
  with u m c(5) show ?thesis by blast
qed

lemma compact_store_full:
  assumes ok: "compact_ok t" and full: "CompactLookupTable_store t key val = (t', r)" and r: "r \<noteq> Qtrue"
  shows "t' = t \<and> live (cells t) = cells t \<and> map_of (cells t) key = None"
proof -
  have none: "find (\<lambda>i. t ! i = key \<or> t ! i = Qnil) compact_slots = None" and t': "t' = t"
    using full r by (auto simp: CompactLookupTable_store_def split: option.splits)
  from find_no_cell [where Q = "\<lambda>k. k = key \<or> k = Qnil", OF none] t' show ?thesis
    by (auto simp: live_def map_of_eq_None_iff intro!: filter_True)
qed

lemma compact_remove:
  assumes ok: "compact_ok t" "uniq t" and key: "key \<noteq> Qnil"
  shows "compact_ok (fst (CompactLookupTable_remove t key)) \<and> uniq (fst (CompactLookupTable_remove t key))
    \<and> map_of (live (cells (fst (CompactLookupTable_remove t key)))) = (map_of (live (cells t)))(key := None)"
proof (cases "find (\<lambda>i. t ! i = key) compact_slots")
  case None
  with map_of_live_None [OF find_no_cell [OF None]] ok show ?thesis by (simp add: CompactLookupTable_remove_def fun_upd_idem)
next
  case (Some i)
  from find_cell [OF ok(1) Some] obtain us v vs where
    c: "cells t = us @ (t ! i, v) # vs" "t ! i = key" "\<forall>c\<in>set us. fst c \<noteq> key"
      "cells (t[i := Qnil, i + 1 := Qnil]) = us @ (Qnil, Qnil) # vs" "compact_ok (t[i := Qnil, i + 1 := Qnil])"
    by metis
  have u: "key \<notin> fst ` set (live us)" "key \<notin> fst ` set (live vs)" using c(1-3) ok(2) key by (auto simp: uniq_def live_def)
  have "map_of (live us @ live vs) = (map_of (live us @ (key, v) # live vs))(key := None)"
  proof
    fix k
    have "map_of (live us) key = None" "map_of (live vs) key = None" using u by (auto simp: map_of_eq_None_iff)
    then show "map_of (live us @ live vs) k = ((map_of (live us @ (key, v) # live vs))(key := None)) k"
      by (auto simp: map_add_def split: option.split)
  qed
  with c ok(2) key u Some show ?thesis by (auto simp: CompactLookupTable_remove_def uniq_def)
qed

section \<open>Turning it into a lookup table\<close>

lemma live_slots: "map (\<lambda>i. (t ! i, t ! (i + 1))) (filter (\<lambda>i. t ! i \<noteq> Qnil) compact_slots) = live (cells t)"
  by (simp add: cells_def live_def filter_map comp_def)

lemma to_lookuptable_puts:
  "CompactLookupTable_to_lookuptable t = foldl lookup.op_exec (LookupTable_create TABLE_MIN_SIZE) (map (\<lambda>(k, v). Put k v) (live (cells t)))"
proof -
  have "foldl lookup.op_exec d (map (\<lambda>(k, v). Put k v) (map (\<lambda>i. (t ! i, t ! (i + 1))) is))
    = foldl (\<lambda>tbl i. LookupTable_put (table_grow bucket_key tbl) (t ! i) (t ! (i + 1))) d is" for d "is"
    by (induction "is" arbitrary: d) auto
  then show ?thesis unfolding CompactLookupTable_to_lookuptable_def live_slots [symmetric] by simp
qed

lemma puts_pairs:
  "distinct (map fst cs) \<Longrightarrow> foldl map_exec Map.empty (map (\<lambda>(k, v). Put k v) cs) = map_of cs"
proof (induction cs rule: rev_induct)
  case (snoc c cs)
  obtain k v where c: "c = (k, v)" by (cases c)
  from snoc.prems c have "map_of cs k = None" by (auto simp: map_of_eq_None_iff)
  with snoc c show ?case by (auto simp: map_add_def fun_eq_iff split: option.split)
qed simp

lemma length_live: "length (live (cells t)) \<le> 6"
  using length_filter_le [of "\<lambda>(k, v). k \<noteq> Qnil" "cells t"] by (simp add: live_def)

lemma to_lookuptable_ok:
  shows "table_ok bucket_key (CompactLookupTable_to_lookuptable t)"
    and "2 ^ 28 - 6 \<le> table_room (CompactLookupTable_to_lookuptable t)"
    and "bucket_find (CompactLookupTable_to_lookuptable t) = foldl map_exec Map.empty (map (\<lambda>(k, v). Put k v) (live (cells t)))"
proof -
  let ?new = "LookupTable_create TABLE_MIN_SIZE" and ?ops = "map (\<lambda>(k, v). Put k v) (live (cells t))"
  have new: "table_ok bucket_key ?new" "table_room ?new = 2 ^ 28"
    by (simp_all add: LookupTable_create_def table_setup_ok create_room TABLE_MIN_SIZE_def)
  have room: "length ?ops \<le> table_room ?new" using length_live [of t] new(2) by simp
  from lookup.run_ok [OF new(1) room] length_live [of t] new(2)
  show "table_ok bucket_key (CompactLookupTable_to_lookuptable t)" "2 ^ 28 - 6 \<le> table_room (CompactLookupTable_to_lookuptable t)"
    by (simp_all add: to_lookuptable_puts)
  show "bucket_find (CompactLookupTable_to_lookuptable t) = foldl map_exec Map.empty ?ops"
    using lookup.run_find [OF new(1) room] by (simp add: to_lookuptable_puts create_find)
qed

end
