(* ===== verification/Vm_Ivars_Run.thy ===== *)
theory Vm_Ivars_Run
  imports Vm_Ivars
begin

text \<open>
  Instance variables as a map, through all three ways of keeping them, and what goes wrong when a variable is set
  again after another one has been removed from a compact table.
\<close>

section \<open>Sequences of operations\<close>

datatype ivar_op = ISet oop oop | IDel oop | IGet oop

primrec ivar_exec :: "TypeInfo \<Rightarrow> RObject \<Rightarrow> ivar_op \<Rightarrow> RObject \<times> (field_error + oop)" where
  "ivar_exec ti obj (ISet k v) = Object_set_ivar ti obj k v"
| "ivar_exec ti obj (IDel k) = (Object_del_ivar ti obj k, Inr Qnil)"
| "ivar_exec ti obj (IGet k) = (obj, Object_get_ivar ti obj k)"

text \<open>Why a write to a slot is refused, if it is, and the slots that a write reaches.\<close>

definition refused :: "TypeInfo \<Rightarrow> nat \<Rightarrow> oop \<Rightarrow> field_error option" where
  "refused ti i v =
     (case ti_fields ti of None \<Rightarrow> Some Field_access_denied
      | Some infos \<Rightarrow> if length infos \<le> i then None
                    else if fld_readonly (infos ! i) then Some Field_readonly
                    else if v \<noteq> Qnil \<and> \<not> fld_type (infos ! i) v then Some Field_type_error else None)"

definition is_field :: "TypeInfo \<Rightarrow> nat \<Rightarrow> bool" where
  "is_field ti i \<longleftrightarrow> (case ti_fields ti of None \<Rightarrow> False | Some infos \<Rightarrow> i < length infos)"

text \<open>The same over the fields and a map.\<close>

primrec ivar_spec :: "TypeInfo \<Rightarrow> oop list \<times> (oop \<rightharpoonup> oop) \<Rightarrow> ivar_op \<Rightarrow> (oop list \<times> (oop \<rightharpoonup> oop)) \<times> (field_error + oop)" where
  "ivar_spec ti s (ISet k v) =
     (case ti_slots ti k of
        None \<Rightarrow> ((fst s, (snd s)(k \<mapsto> v)), Inr v)
      | Some i \<Rightarrow> (case refused ti i v of
                    Some e \<Rightarrow> (s, Inl e)
                  | None \<Rightarrow> ((if is_field ti i then (fst s)[i := v] else fst s, snd s), Inr v)))"
| "ivar_spec ti s (IDel k) = (case ti_slots ti k of Some i \<Rightarrow> s | None \<Rightarrow> (fst s, (snd s)(k := None)), Inr Qnil)"
| "ivar_spec ti s (IGet k) =
     (s, case ti_slots ti k of
           None \<Rightarrow> Inr (value_or Qnil (snd s k))
         | Some i \<Rightarrow> if ti_fields ti = None then Inl Field_access_denied
                    else if is_field ti i then Inr (fst s ! i) else Inl Field_unknown)"

lemma set_field_spec:
  "ti_set_field ti fs i v =
     (case refused ti i v of Some e \<Rightarrow> Inl e | None \<Rightarrow> Inr (if is_field ti i then fs[i := v] else fs))"
  by (simp add: ti_set_field_def TypeInfo_set_field_def Info_set_field_def refused_def is_field_def split: option.split)

lemma get_field_spec:
  "ti_get_field ti fs i =
     (if ti_fields ti = None then Inl Field_access_denied else if is_field ti i then Inr (fs ! i) else Inl Field_unknown)"
  by (simp add: ti_get_field_def TypeInfo_get_field_def Info_get_field_def is_field_def split: option.split)

primrec ivar_key :: "ivar_op \<Rightarrow> oop" where
  "ivar_key (ISet k v) = k" | "ivar_key (IDel k) = k" | "ivar_key (IGet k) = k"

text \<open>No variable that exists is set after one has been removed.\<close>

fun no_set_after_removal :: "TypeInfo \<Rightarrow> bool \<Rightarrow> oop list \<times> (oop \<rightharpoonup> oop) \<Rightarrow> ivar_op list \<Rightarrow> bool" where
  "no_set_after_removal ti removed s [] = True"
| "no_set_after_removal ti removed s (op # ops) =
     ((case op of ISet k v \<Rightarrow> ti_slots ti k = None \<longrightarrow> removed \<longrightarrow> snd s k = None | _ \<Rightarrow> True)
      \<and> no_set_after_removal ti (removed \<or> (case op of IDel k \<Rightarrow> ti_slots ti k = None | _ \<Rightarrow> False)) (fst (ivar_spec ti s op)) ops)"

definition ivars_map :: "ivars \<Rightarrow> oop \<rightharpoonup> oop" where
  "ivars_map iv = (case iv of NoIvars \<Rightarrow> Map.empty | Compact t \<Rightarrow> map_of (live (cells t)) | Table t \<Rightarrow> bucket_find t)"

definition ivars_ok :: "nat \<Rightarrow> bool \<Rightarrow> ivars \<Rightarrow> bool" where
  "ivars_ok n removed iv = (case iv of NoIvars \<Rightarrow> True
     | Compact t \<Rightarrow> compact_ok t \<and> uniq t \<and> (removed \<or> packed t)
     | Table t \<Rightarrow> table_ok bucket_key t \<and> n \<le> table_room t)"

definition obj_state :: "RObject \<Rightarrow> oop list \<times> (oop \<rightharpoonup> oop)" where
  "obj_state obj = (obj_fields obj, ivars_map (obj_ivars obj))"

lemma cells_create: "cells CompactLookupTable_create = replicate 6 (Qnil, Qnil)"
  by (simp add: cells_def compact_slots_eq CompactLookupTable_create_def COMPACTLOOKUPTABLE_SIZE_def)
    (simp add: numeral_eq_Suc)

lemma create_compact:
  "compact_ok CompactLookupTable_create" "uniq CompactLookupTable_create" "packed CompactLookupTable_create"
  by (auto simp: compact_ok_def CompactLookupTable_create_def [symmetric] uniq_def packed_def cells_create)
    (simp add: CompactLookupTable_create_def)

lemma create_store: "CompactLookupTable_store CompactLookupTable_create k v = (fst (CompactLookupTable_store CompactLookupTable_create k v), Qtrue)"
  by (simp add: CompactLookupTable_store_def compact_slots_eq CompactLookupTable_create_def COMPACTLOOKUPTABLE_SIZE_def)

lemma set_table_ivar_ok:
  assumes ok: "ivars_ok (Suc n) removed (obj_ivars obj)" and n: "n < 2 ^ 27" and key: "k \<noteq> Qnil"
    and safe: "removed \<longrightarrow> ivars_map (obj_ivars obj) k = None"
  shows "snd (Object_set_table_ivar obj k v) = v
    \<and> obj_state (fst (Object_set_table_ivar obj k v)) = (obj_fields obj, (ivars_map (obj_ivars obj))(k \<mapsto> v))
    \<and> ivars_ok n removed (obj_ivars (fst (Object_set_table_ivar obj k v)))"
proof (cases "obj_ivars obj")
  case NoIvars
  from compact_store [OF create_compact(1,2) key _ create_store] create_compact
  show ?thesis
    by (simp add: NoIvars Object_set_table_ivar_def obj_state_def ivars_map_def ivars_ok_def cells_create)
next
  case (Compact t)
  obtain t' r where st: "CompactLookupTable_store t k v = (t', r)" by fastforce
  have t: "compact_ok t" "uniq t" "removed \<or> packed t" using ok Compact by (simp_all add: ivars_ok_def)
  show ?thesis
  proof (cases "r = Qtrue")
    case True
    have "packed t \<or> map_of (live (cells t)) k = None" using t(3) safe Compact by (auto simp: ivars_map_def)
    from compact_store [OF t(1,2) key this] st t(3) True show ?thesis
      by (auto simp: Compact Object_set_table_ivar_def obj_state_def ivars_map_def ivars_ok_def)
  next
    case False
    let ?l = "CompactLookupTable_to_lookuptable t"
    note l = to_lookuptable_ok [of t]
    have room: "0 < table_room ?l" using l(2) by simp
    have "bucket_find ?l = map_of (live (cells t))" using l(3) puts_pairs t(2) by (simp add: uniq_def)
    with lookup.put_ok [OF l(1) room, of k v] lookup.put_find [OF l(1) room, of k v] lookup.put_room [OF l(1) room, of k v] l(2) n st False
    show ?thesis by (simp add: Compact Object_set_table_ivar_def obj_state_def ivars_map_def ivars_ok_def)
  qed
next
  case (Table t)
  then have t: "table_ok bucket_key t" "Suc n \<le> table_room t" using ok by (simp_all add: ivars_ok_def)
  then have room: "0 < table_room t" by simp
  from lookup.put_ok [OF t(1) room, of k v] lookup.put_find [OF t(1) room, of k v] lookup.put_room [OF t(1) room, of k v] t(2)
  show ?thesis by (simp add: Table Object_set_table_ivar_def obj_state_def ivars_map_def ivars_ok_def)
qed

lemma get_table_ivar_ok:
  assumes "ivars_ok n removed (obj_ivars obj)" and "k \<noteq> Qnil"
  shows "Object_get_table_ivar obj k = value_or Qnil (ivars_map (obj_ivars obj) k)"
  using assms
  by (cases "obj_ivars obj") (simp_all add: Object_get_table_ivar_def ivars_map_def ivars_ok_def compact_fetch value_or_def)

lemma del_ivar_ok:
  assumes ok: "ivars_ok (Suc n) removed (obj_ivars obj)" and key: "k \<noteq> Qnil" and ti: "ti_slots ti k = None"
  shows "obj_state (Object_del_ivar ti obj k) = (obj_fields obj, (ivars_map (obj_ivars obj))(k := None))
    \<and> ivars_ok n True (obj_ivars (Object_del_ivar ti obj k))"
proof (cases "obj_ivars obj")
  case NoIvars
  then show ?thesis by (simp add: Object_del_ivar_def ti obj_state_def ivars_map_def ivars_ok_def)
next
  case (Compact t)
  with ok have "compact_ok t" "uniq t" by (simp_all add: ivars_ok_def)
  from compact_remove [OF this key] Compact show ?thesis
    by (simp add: Object_del_ivar_def ti obj_state_def ivars_map_def ivars_ok_def)
next
  case (Table t)
  with ok have t: "table_ok bucket_key t" "Suc n \<le> table_room t" by (simp_all add: ivars_ok_def)
  from lookup.del_ok [OF t(1), of k] lookup.del_find [OF t(1), of k] lookup.del_room [OF t(1), of k] t(2) Table show ?thesis
    by (simp add: Object_del_ivar_def ti obj_state_def ivars_map_def ivars_ok_def)
qed

lemma ivars_ok_less: "ivars_ok (Suc n) removed iv \<Longrightarrow> ivars_ok n removed iv"
  by (auto simp: ivars_ok_def split: ivars.splits)

lemma ivar_exec_ok:
  assumes ok: "ivars_ok (Suc n) removed (obj_ivars obj)" and n: "n < 2 ^ 27" and key: "ivar_key op \<noteq> Qnil"
    and safe: "case op of ISet k v \<Rightarrow> ti_slots ti k = None \<longrightarrow> removed \<longrightarrow> ivars_map (obj_ivars obj) k = None | _ \<Rightarrow> True"
  shows "snd (ivar_exec ti obj op) = snd (ivar_spec ti (obj_state obj) op)
    \<and> obj_state (fst (ivar_exec ti obj op)) = fst (ivar_spec ti (obj_state obj) op)
    \<and> ivars_ok n (removed \<or> (case op of IDel k \<Rightarrow> ti_slots ti k = None | _ \<Rightarrow> False)) (obj_ivars (fst (ivar_exec ti obj op)))"
proof (cases op)
  case (ISet k v)
  show ?thesis
  proof (cases "ti_slots ti k")
    case None
    with set_table_ivar_ok [OF ok n, of k v] key safe ISet show ?thesis
      by (simp add: Object_set_ivar_def obj_state_def split_beta)
  next
    case (Some i)
    with ivars_ok_less [OF ok] show ?thesis
      by (simp add: ISet Object_set_ivar_def obj_state_def set_field_spec split: option.split)
  qed
next
  case (IDel k)
  show ?thesis
  proof (cases "ti_slots ti k")
    case None
    with del_ivar_ok [OF ok, of k ti] key IDel show ?thesis by (simp add: obj_state_def)
  next
    case (Some i)
    with ivars_ok_less [OF ok] show ?thesis by (simp add: IDel Object_del_ivar_def)
  qed
next
  case (IGet k)
  with get_table_ivar_ok [OF ok, of k] key ivars_ok_less [OF ok] show ?thesis
    by (auto simp: Object_get_ivar_def obj_state_def get_field_spec split: option.split)
qed

lemma ivar_run_ok:
  assumes "ivars_ok (length ops) removed (obj_ivars obj)" and "length ops < 2 ^ 27" and "\<forall>op\<in>set ops. ivar_key op \<noteq> Qnil"
    and "no_set_after_removal ti removed (obj_state obj) ops"
  shows "snd (run_with (ivar_exec ti) obj ops) = snd (run_with (ivar_spec ti) (obj_state obj) ops)
    \<and> obj_state (fst (run_with (ivar_exec ti) obj ops)) = fst (run_with (ivar_spec ti) (obj_state obj) ops)"
  using assms
proof (induction ops arbitrary: obj removed)
  case (Cons op ops)
  obtain obj1 r where e: "ivar_exec ti obj op = (obj1, r)" by fastforce
  have "case op of ISet k v \<Rightarrow> ti_slots ti k = None \<longrightarrow> removed \<longrightarrow> ivars_map (obj_ivars obj) k = None | _ \<Rightarrow> True"
    using Cons.prems(4) by (simp add: obj_state_def split: ivar_op.splits)
  with ivar_exec_ok [of "length ops" removed obj op ti] Cons.prems e
  have s: "ivar_spec ti (obj_state obj) op = (obj_state obj1, r)"
    and ok: "ivars_ok (length ops) (removed \<or> (case op of IDel k \<Rightarrow> ti_slots ti k = None | _ \<Rightarrow> False)) (obj_ivars obj1)"
    by (auto simp: prod_eq_iff)
  from Cons.IH [OF ok] Cons.prems(2-4) s e show ?case
    by (simp add: split_beta)
qed simp

text \<open>C10. Instance variables behave as a map, whether the object has no table yet, a compact one or, after the seventh
  variable, a LookupTable: any sequence of setting, reading and removing gives the answers of a map; provided that no existing variable
  is set after one has been removed. Names that are slots of the class go to the fields of the object instead. There a write goes through
  \<open>set_field\<close>, which raises an exception and leaves the object as it is when the field is read-only, when the value is neither nil nor of
  the type of the field, or when the class has no accessors of its own ("field access denied"); removing a slot has no effect.\<close>

theorem ivars_are_a_map:
  assumes "obj_ivars obj = NoIvars" and "length ops < 2 ^ 27" and "\<forall>op\<in>set ops. ivar_key op \<noteq> Qnil"
    and "no_set_after_removal ti False (obj_fields obj, Map.empty) ops"
  shows "snd (run_with (ivar_exec ti) obj ops) = snd (run_with (ivar_spec ti) (obj_fields obj, Map.empty) ops)
    \<and> obj_state (fst (run_with (ivar_exec ti) obj ops)) = fst (run_with (ivar_spec ti) (obj_fields obj, Map.empty) ops)"
proof -
  have "obj_state obj = (obj_fields obj, Map.empty)" using assms(1) by (simp add: obj_state_def ivars_map_def)
  moreover have "ivars_ok (length ops) False (obj_ivars obj)" using assms(1) by (simp add: ivars_ok_def)
  ultimately show ?thesis using ivar_run_ok [of ops False obj ti] assms(2-4) by simp
qed

text \<open>A class with a field for fixnums, named 6, and a read-only one, named 70.\<close>

definition two_fields :: TypeInfo where
  "two_fields = \<lparr>ti_slots = (\<lambda>k. if k = 6 then Some 0 else if k = 70 then Some 1 else None),
     ti_fields = Some [\<lparr>fld_readonly = False, fld_type = FIXNUM_P\<rparr>, \<lparr>fld_readonly = True, fld_type = (\<lambda>_. True)\<rparr>]\<rparr>"

theorem ivars_are_a_map_witness:
  "snd (run_with (ivar_exec two_fields) \<lparr>obj_fields = [0, 8], obj_ivars = NoIvars\<rparr>
     ([ISet 6 9, ISet 14 1, ISet 22 2, ISet 14 3, ISet 6 16, ISet 70 9] @ map (\<lambda>k. ISet k 5) [30, 38, 46, 54, 62]
      @ [IDel 22, IDel 6, IGet 6, IGet 14, IGet 22, IGet 62, IGet 70]))
   = [Inr 9, Inr 1, Inr 2, Inr 3, Inl Field_type_error, Inl Field_readonly, Inr 5, Inr 5, Inr 5, Inr 5, Inr 5,
      Inr Qnil, Inr Qnil, Inr 9, Inr 3, Inr Qnil, Inr 5, Inr 8]"
proof -
  let ?ops = "[ISet 6 9, ISet 14 1, ISet 22 2, ISet 14 3, ISet 6 16, ISet 70 9] @ map (\<lambda>k. ISet k 5) [30, 38, 46, 54, 62]
      @ [IDel 22, IDel 6, IGet 6, IGet 14, IGet 22, IGet 62, IGet 70]"
  let ?obj = "\<lparr>obj_fields = [0, 8], obj_ivars = NoIvars\<rparr>"
  have "snd (run_with (ivar_exec two_fields) ?obj ?ops) = snd (run_with (ivar_spec two_fields) (obj_fields ?obj, Map.empty) ?ops)"
    using ivars_are_a_map [of ?obj ?ops two_fields] by (simp add: Qnil_def two_fields_def refused_def is_field_def FIXNUM_P_def)
  also have "\<dots> = [Inr 9, Inr 1, Inr 2, Inr 3, Inl Field_type_error, Inl Field_readonly, Inr 5, Inr 5, Inr 5, Inr 5, Inr 5,
      Inr Qnil, Inr Qnil, Inr 9, Inr 3, Inr Qnil, Inr 5, Inr 8]"
    by (simp add: two_fields_def value_or_def refused_def is_field_def Qnil_def FIXNUM_P_def)
  finally show ?thesis .
qed

section \<open>Setting after removing\<close>

text \<open>The state after two variables have been set, the first removed and the second set again: the second is there
  twice, the new value in front of the old one.\<close>

definition set_again :: "oop \<Rightarrow> oop \<Rightarrow> oop \<Rightarrow> oop \<Rightarrow> oop \<Rightarrow> ivar_op list" where
  "set_again a b u v w = [ISet a u, ISet b v, IDel a, ISet b w]"

lemma twelve: "replicate 12 x = [x, x, x, x, x, x, x, x, x, x, x, x]"
  by (simp add: numeral_eq_Suc)

lemmas compact_eval = Object_set_ivar_def Object_set_table_ivar_def Object_del_ivar_def Object_get_ivar_def
  Object_get_table_ivar_def CompactLookupTable_store_def CompactLookupTable_remove_def CompactLookupTable_fetch_def
  compact_slots_eq CompactLookupTable_create_def COMPACTLOOKUPTABLE_SIZE_def twelve

lemma set_again_twice:
  assumes "obj_ivars obj = NoIvars" and "distinct [a, b, Qnil]" and "ti_slots ti a = None" and "ti_slots ti b = None"
  shows "obj_ivars (fst (run_with (ivar_exec ti) obj (set_again a b u v w))) =
    Compact [b, w, b, v, Qnil, Qnil, Qnil, Qnil, Qnil, Qnil, Qnil, Qnil]"
proof -
  have "a \<noteq> b" "b \<noteq> a" "a \<noteq> Qnil" "b \<noteq> Qnil" "Qnil \<noteq> a" "Qnil \<noteq> b" using assms(2) by auto
  with assms(1,3,4) show ?thesis
    by (simp add: set_again_def compact_eval)
qed

lemma run_with_append:
  "run_with exec s (xs @ ys) = (fst (run_with exec (fst (run_with exec s xs)) ys), snd (run_with exec s xs) @ snd (run_with exec (fst (run_with exec s xs)) ys))"
  by (induction xs arbitrary: s) (auto simp: split_beta)

lemma fill_up:
  assumes "distinct [b, c, d, e, f, Qnil]" and "\<forall>k\<in>{c, d, e, f}. ti_slots ti k = None"
    and "obj_ivars obj = Compact [b, w, b, v, Qnil, Qnil, Qnil, Qnil, Qnil, Qnil, Qnil, Qnil]"
  shows "obj_ivars (fst (run_with (ivar_exec ti) obj (map (\<lambda>k. ISet k x) [c, d, e, f]))) = Compact [b, w, b, v, c, x, d, x, e, x, f, x]"
proof -
  have "b \<noteq> c" "b \<noteq> d" "b \<noteq> e" "b \<noteq> f" "c \<noteq> d" "c \<noteq> e" "c \<noteq> f" "d \<noteq> e" "d \<noteq> f" "e \<noteq> f"
    "b \<noteq> Qnil" "c \<noteq> Qnil" "d \<noteq> Qnil" "e \<noteq> Qnil" "f \<noteq> Qnil"
    using assms(1) by auto
  note ne = this this [symmetric]
  from assms(2,3) ne show ?thesis by (simp add: compact_eval)
qed

lemma convert_stale:
  assumes "distinct [b, c, d, e, f, g, Qnil]" and "ti_slots ti g = None" and "ti_slots ti b = None"
    and "obj_ivars obj = Compact [b, w, b, v, c, x, d, x, e, x, f, x]"
  shows "Object_get_ivar ti (fst (Object_set_ivar ti obj g x)) b = Inr v"
proof -
  let ?t = "[b, w, b, v, c, x, d, x, e, x, f, x]"
  have "b \<noteq> c" "b \<noteq> d" "b \<noteq> e" "b \<noteq> f" "b \<noteq> g" "c \<noteq> g" "d \<noteq> g" "e \<noteq> g" "f \<noteq> g"
    "b \<noteq> Qnil" "c \<noteq> Qnil" "d \<noteq> Qnil" "e \<noteq> Qnil" "f \<noteq> Qnil" "g \<noteq> Qnil"
    using assms(1) by auto
  note ne = this this [symmetric]
  let ?l = "CompactLookupTable_to_lookuptable ?t"
  have l: "table_ok bucket_key ?l" "0 < table_room ?l" using to_lookuptable_ok(1,2) [of ?t] by simp_all
  have "live (cells ?t) = [(b, w), (b, v), (c, x), (d, x), (e, x), (f, x)]"
    using ne by (simp add: cells_def compact_slots_eq)
  then have "bucket_find ?l b = Some v" using ne by (simp add: to_lookuptable_ok(3))
  moreover have "CompactLookupTable_store ?t g x = (?t, Qfalse)" using ne by (simp add: CompactLookupTable_store_def compact_slots_eq)
  ultimately show ?thesis using lookup.put_find [OF l, of g x] ne assms(2-4)
    by (simp add: Object_get_ivar_def Object_set_ivar_def Object_set_table_ivar_def Object_get_table_ivar_def
      Qtrue_def Qfalse_def value_or_def)
qed

text \<open>What the proviso excludes does go wrong. After @a and @b have been set, @a removed and @b set to w, the compact
  table holds @b twice: the removal of @b then leaves its former value v to be read, and once four more variables
  have been set and a fifth makes the table a LookupTable, @b is back at v although nobody has set it.\<close>

theorem ivar_comes_back:
  assumes "obj_ivars obj = NoIvars" and "distinct [a, b, c, d, e, f, g, Qnil]" and "\<forall>k\<in>{a, b, c, d, e, f, g}. ti_slots ti k = None"
  shows "last (snd (run_with (ivar_exec ti) obj (set_again a b u v w @ [IDel b, IGet b]))) = Inr v
    \<and> last (snd (run_with (ivar_exec ti) obj (set_again a b u v w @ [IGet b]))) = Inr w
    \<and> last (snd (run_with (ivar_exec ti) obj (set_again a b u v w @ map (\<lambda>k. ISet k x) [c, d, e, f] @ [ISet g x, IGet b]))) = Inr v"
proof -
  let ?obj = "fst (run_with (ivar_exec ti) obj (set_again a b u v w))"
  have ab: "b \<noteq> Qnil" "Qnil \<noteq> b" using assms(2) by auto
  have 1: "obj_ivars ?obj = Compact [b, w, b, v, Qnil, Qnil, Qnil, Qnil, Qnil, Qnil, Qnil, Qnil]"
    using assms by (intro set_again_twice) auto
  have 2: "obj_ivars (fst (run_with (ivar_exec ti) ?obj (map (\<lambda>k. ISet k x) [c, d, e, f]))) = Compact [b, w, b, v, c, x, d, x, e, x, f, x]"
    by (rule fill_up [OF _ _ 1]) (use assms(2,3) in auto)
  have "Object_get_ivar ti (fst (Object_set_ivar ti (fst (run_with (ivar_exec ti) ?obj (map (\<lambda>k. ISet k x) [c, d, e, f]))) g x)) b = Inr v"
    by (rule convert_stale [OF _ _ _ 2]) (use assms(2,3) in auto)
  then have "last (snd (run_with (ivar_exec ti) obj (set_again a b u v w @ map (\<lambda>k. ISet k x) [c, d, e, f] @ [ISet g x, IGet b]))) = Inr v"
    by (simp add: run_with_append split_beta del: list.map)
  moreover have "last (snd (run_with (ivar_exec ti) obj (set_again a b u v w @ [IDel b, IGet b]))) = Inr v"
    "last (snd (run_with (ivar_exec ti) obj (set_again a b u v w @ [IGet b]))) = Inr w"
    using 1 ab assms(3) by (simp_all add: run_with_append compact_eval)
  ultimately show ?thesis by blast
qed

definition no_slots :: TypeInfo where "no_slots = \<lparr>ti_slots = (\<lambda>_. None), ti_fields = None\<rparr>"

theorem ivar_comes_back_witness:
  "last (snd (run_with (ivar_exec no_slots) \<lparr>obj_fields = [], obj_ivars = NoIvars\<rparr>
     (set_again 6 14 1 2 3 @ [IDel 14, IGet 14]))) = Inr 2"
  using ivar_comes_back [of "\<lparr>obj_fields = [], obj_ivars = NoIvars\<rparr>" 6 14 22 30 38 46 54 no_slots 1 2 3 9]
  by (simp add: Qnil_def no_slots_def)

end
