(* ===== verification/Vm_Modules.thy ===== *)
theory Vm_Modules
  imports Vm_Tables_Run
begin

text \<open>
  Modules and the search through their ancestors: \<open>vm/builtin/module.hpp\<close>, \<open>module.cpp\<close>, the class of a reference
  (\<open>object.hpp\<close>, \<open>ontology.cpp\<close>), \<open>kind_of_p\<close> (\<open>object.cpp\<close>), the searches for a method of \<open>HierarchyResolver\<close> and
  \<open>SendSite\<close> (\<open>sendsite.cpp\<close>) and of \<open>InlineCache\<close> (\<open>inline_cache.cpp\<close>), and for a constant (\<open>helpers.cpp\<close>). Every
  search is a loop over \<open>superclass\<close> links that ends at nil; \<open>module_walk\<close> is this loop with its body as an argument,
  and it need not end, so its value is an option.
\<close>

section \<open>Modules\<close>

text \<open>\<open>included\<close> is the module that an \<open>IncludedModule\<close> stands for.\<close>

record Module =
  method_table :: MethodTable
  constants :: LookupTable
  superclass :: oop
  included :: "oop option"

type_synonym modules = "oop \<Rightarrow> Module"

record Globals =
  sym_public :: oop
  sym_private :: oop
  sym_protected :: oop
  sym_undef :: oop
  sym_method_missing :: oop

definition private_p :: "Globals \<Rightarrow> MethodTableBucket \<Rightarrow> bool" where "private_p G e \<longleftrightarrow> mb_visibility e = sym_private G"
definition protected_p :: "Globals \<Rightarrow> MethodTableBucket \<Rightarrow> bool" where "protected_p G e \<longleftrightarrow> mb_visibility e = sym_protected G"
definition public_p :: "Globals \<Rightarrow> MethodTableBucket \<Rightarrow> bool" where "public_p G e \<longleftrightarrow> mb_visibility e = sym_public G"
definition undef_p :: "Globals \<Rightarrow> MethodTableBucket \<Rightarrow> bool" where "undef_p G e \<longleftrightarrow> mb_visibility e = sym_undef G"

definition find_entry :: "modules \<Rightarrow> oop \<Rightarrow> oop \<Rightarrow> MethodTableBucket option" where
  "find_entry mods m nm = MethodTable_find_entry (method_table (mods m)) nm"

section \<open>The loop over the ancestors\<close>

text \<open>The body returns from the loop (\<open>Inr\<close>) or goes on with a new state (\<open>Inl\<close>); at the end the search fails.\<close>

partial_function (option) module_walk ::
  "modules \<Rightarrow> (oop \<Rightarrow> 's \<Rightarrow> 's + 'r option) \<Rightarrow> oop \<Rightarrow> 's \<Rightarrow> 'r option option" where
  "module_walk mods body m s =
     (case body m s of
        Inr r \<Rightarrow> Some r
      | Inl s \<Rightarrow> let m = superclass (mods m) in if m = Qnil then Some None else module_walk mods body m s)"

declare module_walk.simps [simp del]

inductive ancestors :: "modules \<Rightarrow> oop \<Rightarrow> oop list \<Rightarrow> bool" for mods where
  last: "superclass (mods m) = Qnil \<Longrightarrow> ancestors mods m [m]"
| up: "superclass (mods m) \<noteq> Qnil \<Longrightarrow> ancestors mods (superclass (mods m)) ms \<Longrightarrow> ancestors mods m (m # ms)"

inductive_cases ancestors_cases: "ancestors mods m ms"

fun list_walk :: "(oop \<Rightarrow> 's \<Rightarrow> 's + 'r option) \<Rightarrow> oop list \<Rightarrow> 's \<Rightarrow> 'r option" where
  "list_walk body [] s = None"
| "list_walk body (m # ms) s = (case body m s of Inr r \<Rightarrow> r | Inl s \<Rightarrow> list_walk body ms s)"

text \<open>When the chain ends, the loop ends as well and visits the ancestors in order.\<close>

lemma module_walk_list: "ancestors mods m ms \<Longrightarrow> module_walk mods body m s = Some (list_walk body ms s)"
proof (induction arbitrary: s rule: ancestors.induct)
  case (last m)
  then show ?case by (subst module_walk.simps) (simp split: sum.split)
next
  case (up m ms)
  then show ?case by (subst module_walk.simps) (simp split: sum.split)
qed

lemma ancestors_unique: "ancestors mods m ms \<Longrightarrow> ancestors mods m ns \<Longrightarrow> ms = ns"
proof (induction arbitrary: ns rule: ancestors.induct)
  case (last m)
  from last.prems show ?case by (rule ancestors_cases) (use last.hyps in simp_all)
next
  case (up m ms)
  from up.prems show ?case by (rule ancestors_cases) (use up.hyps(1) up.IH in blast)+
qed

lemma ancestors_hd: "ancestors mods m ms \<Longrightarrow> m \<in> set ms"
  by (erule ancestors_cases) simp_all

section \<open>The class of an object\<close>

definition SPECIAL_CLASS_MASK :: oop where "SPECIAL_CLASS_MASK = 0x1f"

record Classes =
  c_object :: oop
  c_symbol :: oop
  c_fixnum :: oop
  c_nil :: oop
  c_true :: oop
  c_false :: oop

definition special_classes :: "Classes \<Rightarrow> oop list" where
  "special_classes C =
     (map (\<lambda>i. if SYMBOL_P (of_nat i) then c_symbol C else if FIXNUM_P (of_nat i) then c_fixnum C else c_object C) [0..<32])
       [unat Qfalse := c_false C, unat Qnil := c_nil C, unat Qtrue := c_true C]"

text \<open>\<open>klass\<close> reads the class from the header of an object on the heap.\<close>

definition lookup_begin :: "Classes \<Rightarrow> (oop \<Rightarrow> oop) \<Rightarrow> oop \<Rightarrow> oop" where
  "lookup_begin C klass obj =
     (if REFERENCE_P obj then klass obj else special_classes C ! unat (obj AND SPECIAL_CLASS_MASK))"

definition kind_of_body :: "modules \<Rightarrow> oop \<Rightarrow> oop \<Rightarrow> unit \<Rightarrow> unit + unit option" where
  "kind_of_body mods module found s =
     (if found = module \<or> included (mods found) = Some module then Inr (Some ()) else Inl ())"

definition Object_kind_of_p :: "modules \<Rightarrow> oop \<Rightarrow> oop \<Rightarrow> bool option" where
  "Object_kind_of_p mods found module = map_option (\<lambda>r. r \<noteq> None) (module_walk mods (kind_of_body mods module) found ())"

section \<open>Searching for a method\<close>

text \<open>\<open>kind m\<close> says whether the object that the code asks is a \<open>kind_of_p\<close> the module \<open>m\<close>. The loops return the entry
  found and its module; their state is \<open>skip_vis_check\<close>.\<close>

definition hierarchy_body ::
  "Globals \<Rightarrow> modules \<Rightarrow> (oop \<Rightarrow> bool) \<Rightarrow> oop \<Rightarrow> bool \<Rightarrow> oop \<Rightarrow> bool \<Rightarrow> bool + (MethodTableBucket \<times> oop \<times> bool) option" where
  "hierarchy_body G mods kind nm priv m skip_vis_check =
     (case find_entry mods m nm of
        None \<Rightarrow> Inl skip_vis_check
      | Some entry \<Rightarrow>
          if undef_p G entry then Inr None
          else if priv \<or> skip_vis_check
          then (if mb_method entry = Qnil then Inl skip_vis_check else Inr (Some (entry, m, private_p G entry)))
          else if private_p G entry then Inr None
          else if protected_p G entry \<and> \<not> kind m then Inr None
          else if mb_method entry = Qnil then Inl True
          else Inr (Some (entry, m, False)))"

definition HierarchyResolver_resolve ::
  "Globals \<Rightarrow> modules \<Rightarrow> (oop \<Rightarrow> bool) \<Rightarrow> oop \<Rightarrow> bool \<Rightarrow> oop \<Rightarrow> (MethodTableBucket \<times> oop \<times> bool) option option" where
  "HierarchyResolver_resolve G mods kind nm priv from = module_walk mods (hierarchy_body G mods kind nm priv) from False"

definition find_method_body ::
  "Globals \<Rightarrow> modules \<Rightarrow> (oop \<Rightarrow> bool) \<Rightarrow> oop \<Rightarrow> oop \<Rightarrow> bool \<Rightarrow> bool + (MethodTableBucket \<times> oop) option" where
  "find_method_body G mods kind nm m priv =
     (case find_entry mods m nm of
        None \<Rightarrow> Inl priv
      | Some entry \<Rightarrow>
          if undef_p G entry then Inr None
          else if priv then (if mb_method entry = Qnil then Inl priv else Inr (Some (entry, m)))
          else if private_p G entry then Inr None
          else if protected_p G entry \<and> \<not> kind m then Inr None
          else if mb_method entry = Qnil then Inl True
          else Inr (Some (entry, m)))"

definition SendSite_find_method where
  "SendSite_find_method G mods kind nm priv m = module_walk mods (find_method_body G mods kind nm) m priv"

definition fill_public_body ::
  "Globals \<Rightarrow> modules \<Rightarrow> (oop \<Rightarrow> bool) \<Rightarrow> oop \<Rightarrow> oop \<Rightarrow> bool \<Rightarrow> bool + (MethodTableBucket \<times> oop) option" where
  "fill_public_body G mods kind nm m skip_vis_check =
     (case find_entry mods m nm of
        None \<Rightarrow> Inl skip_vis_check
      | Some entry \<Rightarrow>
          if undef_p G entry then Inr None
          else if \<not> skip_vis_check \<and> private_p G entry then Inr None
          else if \<not> skip_vis_check \<and> protected_p G entry \<and> \<not> kind m then Inr None
          else if mb_method entry = Qnil then Inl True
          else Inr (Some (entry, m)))"

definition fill_private_body :: "Globals \<Rightarrow> modules \<Rightarrow> oop \<Rightarrow> oop \<Rightarrow> unit \<Rightarrow> unit + (MethodTableBucket \<times> oop) option" where
  "fill_private_body G mods nm m s =
     (case find_entry mods m nm of
        None \<Rightarrow> Inl ()
      | Some entry \<Rightarrow>
          if undef_p G entry then Inr None
          else if mb_method entry \<noteq> Qnil then Inr (Some (entry, m)) else Inl ())"

definition find_any_body :: "modules \<Rightarrow> oop \<Rightarrow> oop \<Rightarrow> unit \<Rightarrow> unit + (MethodTableBucket \<times> oop) option" where
  "find_any_body mods nm m s = (case find_entry mods m nm of None \<Rightarrow> Inl () | Some entry \<Rightarrow> Inr (Some (entry, m)))"

definition Module_find_method where "Module_find_method mods m nm = module_walk mods (find_any_body mods nm) m ()"

section \<open>Constants\<close>

definition Module_get_const :: "modules \<Rightarrow> oop \<Rightarrow> oop \<Rightarrow> oop option" where
  "Module_get_const mods m nm = bucket_find (constants (mods m)) nm"

definition const_body :: "modules \<Rightarrow> oop \<Rightarrow> oop \<Rightarrow> unit \<Rightarrow> unit + oop option" where
  "const_body mods nm m s = (case Module_get_const mods m nm of Some c \<Rightarrow> Inr (Some c) | None \<Rightarrow> Inl ())"

text \<open>\<open>Helpers::const_get\<close> under a module, and from a call frame: first the lexical scopes up to, and not including,
  the top level, then the ancestors of the innermost scope's module, then \<open>Object\<close>. A scope is the list of the
  modules from the innermost to the top level.\<close>

definition const_get_under :: "modules \<Rightarrow> oop \<Rightarrow> oop \<Rightarrow> oop option option" where
  "const_get_under mods m nm = (if m = Qnil then Some None else module_walk mods (const_body mods nm) m ())"

fun const_in_scopes :: "modules \<Rightarrow> oop list \<Rightarrow> oop \<Rightarrow> oop option" where
  "const_in_scopes mods (m # m' # scopes) nm =
     (case Module_get_const mods m nm of Some c \<Rightarrow> Some c | None \<Rightarrow> const_in_scopes mods (m' # scopes) nm)"
| "const_in_scopes mods scopes nm = None"

definition const_get :: "Classes \<Rightarrow> modules \<Rightarrow> oop list \<Rightarrow> oop \<Rightarrow> oop option option" where
  "const_get C mods scopes nm =
     (case const_in_scopes mods scopes nm of
        Some c \<Rightarrow> Some (Some c)
      | None \<Rightarrow> (case const_get_under mods (hd scopes) nm of
          None \<Rightarrow> None
        | Some (Some c) \<Rightarrow> Some (Some c)
        | Some None \<Rightarrow> Some (Module_get_const mods (c_object C) nm)))"

section \<open>Changing a module\<close>

text \<open>\<open>set_const\<close> also counts up the global serial, by which caches of constants are found out of date.\<close>

definition Module_set_const :: "modules \<times> int \<Rightarrow> oop \<Rightarrow> oop \<Rightarrow> oop \<Rightarrow> modules \<times> int" where
  "Module_set_const s m nm val =
     (case s of (mods, global_serial) \<Rightarrow>
       (mods(m := (mods m)\<lparr>constants := LookupTable_put (table_grow bucket_key (constants (mods m))) nm val\<rparr>),
        int32 (global_serial + 1)))"

definition store_method :: "modules \<Rightarrow> oop \<Rightarrow> oop \<Rightarrow> oop \<Rightarrow> oop \<Rightarrow> modules" where
  "store_method mods m nm method vis =
     mods(m := (mods m)\<lparr>method_table := MethodTable_put (method_table (mods m)) nm method vis\<rparr>)"

end
