(* ===== verification/Vm_Caches.thy ===== *)
theory Vm_Caches
  imports Vm_Modules
begin

text \<open>
  The caches of method lookup: the global cache (\<open>vm/global_cache.hpp\<close>, \<open>global_cache.cpp\<close>), the inline caches of
  call sites and their registry (\<open>vm/inline_cache.hpp\<close>, \<open>inline_cache.cpp\<close>), the cached resolution of
  \<open>Dispatch\<close> (\<open>vm/dispatch.cpp\<close>, \<open>GlobalCacheResolver\<close> in \<open>sendsite.cpp\<close>), and what a redefinition of a method
  does to them (\<open>Module::add_method\<close>, \<open>System::vm_reset_method_cache\<close>). Executing a method is outside of the model:
  a call yields its target, that is the method and module found and whether the name was put in front of the
  arguments for \<open>method_missing\<close>. The null pointer is 0.
\<close>

section \<open>The global cache\<close>

definition CPU_CACHE_SIZE :: nat where "CPU_CACHE_SIZE = 0x1000"
definition CPU_CACHE_MASK :: oop where "CPU_CACHE_MASK = 0xfff"

definition CPU_CACHE_HASH :: "oop \<Rightarrow> oop \<Rightarrow> nat" where
  "CPU_CACHE_HASH c m = unat ((drop_bit 3 c XOR m) AND CPU_CACHE_MASK)"

record cache_entry =
  ce_klass :: oop
  ce_name :: oop
  ce_module :: oop
  ce_method :: oop
  ce_is_public :: bool
  ce_method_missing :: bool

type_synonym GlobalCache = "cache_entry list"

definition GlobalCache_lookup :: "GlobalCache \<Rightarrow> oop \<Rightarrow> oop \<Rightarrow> cache_entry option" where
  "GlobalCache_lookup gc cls nm =
     (let entry = gc ! CPU_CACHE_HASH cls nm
      in if ce_name entry = nm \<and> ce_klass entry = cls then Some entry else None)"

definition GlobalCache_clear :: "GlobalCache \<Rightarrow> GlobalCache" where
  "GlobalCache_clear gc = replicate CPU_CACHE_SIZE
     \<lparr>ce_klass = 0, ce_name = 0, ce_module = 0, ce_method = 0, ce_is_public = True, ce_method_missing = False\<rparr>"

definition clear_entry :: "cache_entry \<Rightarrow> cache_entry" where
  "clear_entry e = e\<lparr>ce_klass := 0, ce_name := 0, ce_module := 0, ce_method := 0, ce_method_missing := False\<rparr>"

definition GlobalCache_clear_name :: "GlobalCache \<Rightarrow> oop \<Rightarrow> GlobalCache" where
  "GlobalCache_clear_name gc nm = map (\<lambda>e. if ce_name e = nm then clear_entry e else e) gc"

definition GlobalCache_clear_method :: "GlobalCache \<Rightarrow> oop \<Rightarrow> oop \<Rightarrow> GlobalCache" where
  "GlobalCache_clear_method gc cls nm =
     (let i = CPU_CACHE_HASH cls nm; entry = gc ! i
      in if ce_name entry = nm \<and> ce_klass entry = cls then gc[i := clear_entry entry] else gc)"

definition GlobalCache_retain :: "GlobalCache \<Rightarrow> oop \<Rightarrow> oop \<Rightarrow> oop \<Rightarrow> oop \<Rightarrow> bool \<Rightarrow> bool \<Rightarrow> GlobalCache" where
  "GlobalCache_retain gc cls nm module meth missing was_private =
     gc[CPU_CACHE_HASH cls nm := \<lparr>ce_klass = cls, ce_name = nm, ce_module = module, ce_method = meth,
          ce_is_public = (\<not> was_private), ce_method_missing = missing\<rparr>]"

text \<open>The collectors remove entries of unmarked objects, and follow or remove those of moved objects.\<close>

definition prune_entry :: "cache_entry \<Rightarrow> cache_entry" where
  "prune_entry e = e\<lparr>ce_klass := 0, ce_name := 0, ce_module := 0, ce_is_public := True, ce_method_missing := False\<rparr>"

definition GlobalCache_prune_unmarked :: "(oop \<Rightarrow> bool) \<Rightarrow> GlobalCache \<Rightarrow> GlobalCache" where
  "GlobalCache_prune_unmarked marked_p gc =
     map (\<lambda>e. if ce_klass e = 0 then e
              else if \<not> marked_p (ce_klass e) \<or> \<not> marked_p (ce_module e) \<or> \<not> marked_p (ce_method e) then prune_entry e else e) gc"

text \<open>The new address of an object, if it is young and has been moved or is not young; \<open>None\<close> if it is dead.\<close>

definition follow :: "(oop \<Rightarrow> bool) \<Rightarrow> (oop \<Rightarrow> oop option) \<Rightarrow> oop \<Rightarrow> oop option" where
  "follow young_object_p forward obj = (if young_object_p obj then forward obj else Some obj)"

definition prune_young_entry :: "(oop \<Rightarrow> bool) \<Rightarrow> (oop \<Rightarrow> oop option) \<Rightarrow> cache_entry \<Rightarrow> cache_entry" where
  "prune_young_entry young_object_p forward e =
     (let klass = follow young_object_p forward (ce_klass e); module = follow young_object_p forward (ce_module e);
          exec = follow young_object_p forward (ce_method e);
          e' = e\<lparr>ce_klass := (case klass of Some k \<Rightarrow> k | None \<Rightarrow> ce_klass e),
                 ce_module := (case module of Some m \<Rightarrow> m | None \<Rightarrow> ce_module e),
                 ce_method := (case exec of Some x \<Rightarrow> x | None \<Rightarrow> ce_method e)\<rparr>
      in if klass = None \<or> module = None \<or> exec = None then prune_entry e' else e')"

definition GlobalCache_prune_young :: "(oop \<Rightarrow> bool) \<Rightarrow> (oop \<Rightarrow> oop option) \<Rightarrow> GlobalCache \<Rightarrow> GlobalCache" where
  "GlobalCache_prune_young young_object_p forward gc =
     map (\<lambda>e. if ce_klass e = 0 then e else prune_young_entry young_object_p forward e) gc"

section \<open>Inline caches\<close>

datatype CacheExecutor = empty_cache | empty_cache_private | empty_cache_super
  | check_cache_fixnum | check_cache_symbol | check_cache_reference | check_cache | check_cache_mm

text \<open>\<open>ic_hits\<close> is the index of the tracked class whose counter \<open>hits_\<close> points to.\<close>

record InlineCache =
  ic_name :: oop
  ic_module :: oop
  ic_method :: oop
  ic_klass :: oop
  initial_backend :: CacheExecutor
  execute_backend :: CacheExecutor
  ic_hits :: nat
  seen_classes :: "(oop \<times> int) list"
  seen_classes_overflow :: int

definition cTrackedICHits :: nat where "cTrackedICHits = 3"

definition InlineCache_new :: "oop \<Rightarrow> CacheExecutor \<Rightarrow> InlineCache" where
  "InlineCache_new nm backend = \<lparr>ic_name = nm, ic_module = 0, ic_method = 0, ic_klass = 0, initial_backend = backend,
     execute_backend = backend, ic_hits = 0, seen_classes = replicate cTrackedICHits (0, 0), seen_classes_overflow = 0\<rparr>"

definition InlineCache_clear :: "InlineCache \<Rightarrow> InlineCache" where "InlineCache_clear ic = ic\<lparr>ic_klass := 0\<rparr>"

definition InlineCache_inc_hits :: "InlineCache \<Rightarrow> InlineCache" where
  "InlineCache_inc_hits ic = ic\<lparr>seen_classes := (seen_classes ic)[ic_hits ic :=
     (case seen_classes ic ! ic_hits ic of (c, n) \<Rightarrow> (c, int32 (n + 1)))]\<rparr>"

definition update_seen_classes :: "InlineCache \<Rightarrow> InlineCache" where
  "update_seen_classes ic =
     (case find (\<lambda>i. fst (seen_classes ic ! i) = ic_klass ic \<or> snd (seen_classes ic ! i) = 0) [0..<cTrackedICHits] of
        Some i \<Rightarrow> if fst (seen_classes ic ! i) = ic_klass ic then ic\<lparr>ic_hits := i\<rparr>
          else ic\<lparr>seen_classes := (seen_classes ic)[i := (ic_klass ic, 0)], ic_hits := i\<rparr>
      | None \<Rightarrow> ic\<lparr>seen_classes_overflow := int32 (seen_classes_overflow ic + 1)\<rparr>)"

definition set_target :: "InlineCache \<Rightarrow> oop \<Rightarrow> oop \<Rightarrow> InlineCache" where
  "set_target ic method module = ic\<lparr>ic_method := method, ic_module := module\<rparr>"

text \<open>The searches of \<open>fill_public\<close> and \<open>fill_private\<close> from \<open>start\<close>, after which the result is kept.\<close>

definition fill_walk ::
  "Globals \<Rightarrow> (MethodTableBucket \<times> oop) option option \<Rightarrow> oop \<Rightarrow> GlobalCache \<Rightarrow> InlineCache
    \<Rightarrow> (GlobalCache \<times> InlineCache \<times> bool) option" where
  "fill_walk G found start gc ic =
     (case found of
        None \<Rightarrow> None
      | Some None \<Rightarrow> Some (gc, ic, False)
      | Some (Some (entry, m)) \<Rightarrow>
          Some (GlobalCache_retain gc start (ic_name ic) m (mb_method entry) False (\<not> public_p G entry),
                set_target ic (mb_method entry) m, True))"

definition fill_public ::
  "Globals \<Rightarrow> modules \<Rightarrow> (oop \<Rightarrow> bool) \<Rightarrow> GlobalCache \<Rightarrow> InlineCache \<Rightarrow> (GlobalCache \<times> InlineCache \<times> bool) option" where
  "fill_public G mods kind gc ic =
     (case GlobalCache_lookup gc (ic_klass ic) (ic_name ic) of
        Some e \<Rightarrow> if ce_is_public e \<and> \<not> ce_method_missing e then Some (gc, set_target ic (ce_method e) (ce_module e), True)
                  else fill_walk G (module_walk mods (fill_public_body G mods kind (ic_name ic)) (ic_klass ic) False) (ic_klass ic) gc ic
      | None \<Rightarrow> fill_walk G (module_walk mods (fill_public_body G mods kind (ic_name ic)) (ic_klass ic) False) (ic_klass ic) gc ic)"

definition fill_private ::
  "Globals \<Rightarrow> modules \<Rightarrow> oop \<Rightarrow> GlobalCache \<Rightarrow> InlineCache \<Rightarrow> (GlobalCache \<times> InlineCache \<times> bool) option" where
  "fill_private G mods start gc ic =
     (case GlobalCache_lookup gc start (ic_name ic) of
        Some e \<Rightarrow> if \<not> ce_method_missing e then Some (gc, set_target ic (ce_method e) (ce_module e), True)
                  else fill_walk G (module_walk mods (fill_private_body G mods (ic_name ic)) start ()) start gc ic
      | None \<Rightarrow> fill_walk G (module_walk mods (fill_private_body G mods (ic_name ic)) start ()) start gc ic)"

definition fill_method_missing :: "Globals \<Rightarrow> modules \<Rightarrow> oop \<Rightarrow> InlineCache \<Rightarrow> (InlineCache \<times> bool) option" where
  "fill_method_missing G mods start ic =
     (case module_walk mods (fill_private_body G mods (sym_method_missing G)) start () of
        None \<Rightarrow> None
      | Some None \<Rightarrow> Some (ic, False)
      | Some (Some (entry, m)) \<Rightarrow> Some (set_target ic (mb_method entry) m, True))"

section \<open>Calls\<close>

text \<open>\<open>Execute method module unshifted\<close>; a search that finds not even \<open>method_missing\<close> fails an assertion.\<close>

datatype Target = Execute oop oop bool | NoMethodMissing

text \<open>What the three \<open>empty_cache\<close> functions share: the result of the search, otherwise \<open>method_missing\<close>, sets the
  cache up for the next call.\<close>

definition set_up ::
  "Globals \<Rightarrow> modules \<Rightarrow> oop \<Rightarrow> CacheExecutor \<Rightarrow> (GlobalCache \<times> InlineCache \<times> bool) option
    \<Rightarrow> (GlobalCache \<times> InlineCache \<times> Target) option" where
  "set_up G mods start hit filled =
     (case filled of
        None \<Rightarrow> None
      | Some (gc, ic, True) \<Rightarrow>
          Some (gc, update_seen_classes (ic\<lparr>execute_backend := hit\<rparr>), Execute (ic_method ic) (ic_module ic) False)
      | Some (gc, ic, False) \<Rightarrow>
          (case fill_method_missing G mods start ic of
             None \<Rightarrow> None
           | Some (ic, False) \<Rightarrow> Some (gc, ic, NoMethodMissing)
           | Some (ic, True) \<Rightarrow>
               Some (gc, update_seen_classes (ic\<lparr>execute_backend := check_cache_mm\<rparr>), Execute (ic_method ic) (ic_module ic) True)))"

definition empty_cache_run where
  "empty_cache_run G mods kind klass_of gc ic recv =
     (let ic = ic\<lparr>ic_klass := klass_of recv\<rparr>
      in set_up G mods (ic_klass ic)
           (if FIXNUM_P recv then check_cache_fixnum else if SYMBOL_P recv then check_cache_symbol
            else if REFERENCE_P recv then check_cache_reference else check_cache)
           (fill_public G mods kind gc ic))"

definition empty_cache_private_run where
  "empty_cache_private_run G mods klass_of gc ic recv =
     (let ic = ic\<lparr>ic_klass := klass_of recv\<rparr>
      in set_up G mods (ic_klass ic) check_cache (fill_private G mods (ic_klass ic) gc ic))"

definition empty_cache_super_run where
  "empty_cache_super_run G mods klass_of gc ic recv frame_module =
     (let ic = ic\<lparr>ic_klass := klass_of recv\<rparr>; start = superclass (mods frame_module)
      in set_up G mods start check_cache (fill_private G mods start gc ic))"

text \<open>\<open>initialize\<close>: the initial backend, which is one of the three.\<close>

definition InlineCache_initialize where
  "InlineCache_initialize G mods kind klass_of gc ic recv frame_module =
     (case initial_backend ic of
        empty_cache_private \<Rightarrow> empty_cache_private_run G mods klass_of gc ic recv
      | empty_cache_super \<Rightarrow> empty_cache_super_run G mods klass_of gc ic recv frame_module
      | _ \<Rightarrow> empty_cache_run G mods kind klass_of gc ic recv)"

definition cache_hit :: "GlobalCache \<Rightarrow> InlineCache \<Rightarrow> bool \<Rightarrow> (GlobalCache \<times> InlineCache \<times> Target) option" where
  "cache_hit gc ic missing = (let ic = InlineCache_inc_hits ic in Some (gc, ic, Execute (ic_method ic) (ic_module ic) missing))"

definition InlineCache_execute where
  "InlineCache_execute G mods kind klass_of gc ic recv frame_module =
     (let initialize = InlineCache_initialize G mods kind klass_of gc ic recv frame_module
      in case execute_backend ic of
           empty_cache \<Rightarrow> empty_cache_run G mods kind klass_of gc ic recv
         | empty_cache_private \<Rightarrow> empty_cache_private_run G mods klass_of gc ic recv
         | empty_cache_super \<Rightarrow> empty_cache_super_run G mods klass_of gc ic recv frame_module
         | check_cache_fixnum \<Rightarrow> if FIXNUM_P recv then cache_hit gc ic False else initialize
         | check_cache_symbol \<Rightarrow> if SYMBOL_P recv then cache_hit gc ic False else initialize
         | check_cache_reference \<Rightarrow> if REFERENCE_P recv \<and> klass_of recv = ic_klass ic then cache_hit gc ic False else initialize
         | check_cache \<Rightarrow> if ic_klass ic = klass_of recv then cache_hit gc ic False else initialize
         | check_cache_mm \<Rightarrow> if ic_klass ic = klass_of recv then cache_hit gc ic True else initialize)"

text \<open>The instructions \<open>check_serial\<close> and \<open>check_serial_private\<close> ask their cache to be brought up to date without a
  call: \<open>update_and_validate\<close> says whether a method was found, \<open>rbx_check_serial\<close> compares its serial number. A null
  method (0) is dereferenced, for which the answer is \<open>None\<close>.\<close>

definition validate ::
  "(oop \<Rightarrow> oop) \<Rightarrow> (GlobalCache \<Rightarrow> InlineCache \<Rightarrow> (GlobalCache \<times> InlineCache \<times> bool) option)
    \<Rightarrow> GlobalCache \<Rightarrow> InlineCache \<Rightarrow> oop \<Rightarrow> (GlobalCache \<times> InlineCache \<times> bool) option" where
  "validate klass_of fill gc ic recv =
     (if ic_klass ic = klass_of recv then Some (gc, ic, True)
      else case fill gc (ic\<lparr>ic_klass := klass_of recv\<rparr>) of
             None \<Rightarrow> None
           | Some (gc, ic, False) \<Rightarrow> Some (gc, ic, False)
           | Some (gc, ic, True) \<Rightarrow> Some (gc, update_seen_classes ic, True))"

definition update_and_validate where
  "update_and_validate G mods kind klass_of = validate klass_of (fill_public G mods kind)"

definition update_and_validate_private where
  "update_and_validate_private G mods klass_of = validate klass_of (\<lambda>gc ic. fill_private G mods (ic_klass ic) gc ic)"

definition check_serial_answer :: "(oop \<Rightarrow> int) \<Rightarrow> int \<Rightarrow> (GlobalCache \<times> InlineCache \<times> bool) option \<Rightarrow> (GlobalCache \<times> InlineCache \<times> oop option) option" where
  "check_serial_answer serial_of serial validated =
     (case validated of
        None \<Rightarrow> None
      | Some (gc, ic, False) \<Rightarrow> Some (gc, ic, Some Qfalse)
      | Some (gc, ic, True) \<Rightarrow>
          Some (gc, ic, if ic_method ic = 0 then None else Some (if serial_of (ic_method ic) = serial then Qtrue else Qfalse)))"

definition rbx_check_serial where
  "rbx_check_serial G mods kind klass_of serial_of gc ic serial recv =
     check_serial_answer serial_of serial (update_and_validate G mods kind klass_of gc ic recv)"

text \<open>Compiled code runs \<open>check_serial_private\<close> with the search for public methods, too.\<close>

definition rbx_check_serial_private where "rbx_check_serial_private = rbx_check_serial"

text \<open>What the just-in-time compiler reads of a cache: the classes seen, and the class to compile for.\<close>

definition classes_seen :: "InlineCache \<Rightarrow> nat" where
  "classes_seen ic = length (filter (\<lambda>i. fst (seen_classes ic ! i) \<noteq> 0) [0..<cTrackedICHits])"

definition dominating_class :: "InlineCache \<Rightarrow> oop" where
  "dominating_class ic = (if classes_seen ic = 1 then fst (seen_classes ic ! 0) else 0)"

definition total_hits :: "InlineCache \<Rightarrow> int" where
  "total_hits ic = fold (\<lambda>i n. if fst (seen_classes ic ! i) \<noteq> 0 then int32 (n + snd (seen_classes ic ! i)) else n) [0..<cTrackedICHits] 0"

section \<open>Dispatch through the global cache only\<close>

record Dispatch =
  d_name :: oop
  d_module :: oop
  d_method :: oop
  d_method_missing :: bool

definition Dispatch_new :: "oop \<Rightarrow> Dispatch" where
  "Dispatch_new nm = \<lparr>d_name = nm, d_module = Qnil, d_method = Qnil, d_method_missing = False\<rparr>"

text \<open>\<open>kind\<close> belongs to the receiver here.\<close>

definition GlobalCacheResolver_resolve ::
  "Globals \<Rightarrow> modules \<Rightarrow> (oop \<Rightarrow> bool) \<Rightarrow> GlobalCache \<Rightarrow> oop \<Rightarrow> Dispatch \<Rightarrow> oop \<Rightarrow> bool \<Rightarrow> (GlobalCache \<times> Dispatch \<times> bool) option" where
  "GlobalCacheResolver_resolve G mods kind gc nm msg from priv =
     (let miss = (case HierarchyResolver_resolve G mods kind nm priv from of
                    None \<Rightarrow> None
                  | Some None \<Rightarrow> Some (gc, msg, False)
                  | Some (Some (entry, m, was_private)) \<Rightarrow>
                      Some (GlobalCache_retain gc from nm m (mb_method entry) (d_method_missing msg) was_private,
                            msg\<lparr>d_method := mb_method entry, d_module := m\<rparr>, True))
      in case GlobalCache_lookup gc from nm of
           Some e \<Rightarrow> if priv \<or> ce_is_public e
             then Some (gc, msg\<lparr>d_method := ce_method e, d_module := ce_module e, d_method_missing := ce_method_missing e\<rparr>, True)
             else miss
         | None \<Rightarrow> miss)"

definition Dispatch_send ::
  "Globals \<Rightarrow> modules \<Rightarrow> (oop \<Rightarrow> bool) \<Rightarrow> GlobalCache \<Rightarrow> oop \<Rightarrow> oop \<Rightarrow> bool \<Rightarrow> (GlobalCache \<times> Target) option" where
  "Dispatch_send G mods kind gc nm from priv =
     (case GlobalCacheResolver_resolve G mods kind gc nm (Dispatch_new nm) from priv of
        None \<Rightarrow> None
      | Some (gc, msg, True) \<Rightarrow> Some (gc, Execute (d_method msg) (d_module msg) (d_method_missing msg))
      | Some (gc, msg, False) \<Rightarrow>
          (case GlobalCacheResolver_resolve G mods kind gc (sym_method_missing G) (msg\<lparr>d_method_missing := True\<rparr>) from True of
             None \<Rightarrow> None
           | Some (gc, msg, False) \<Rightarrow> Some (gc, NoMethodMissing)
           | Some (gc, msg, True) \<Rightarrow> Some (gc, Execute (d_method msg) (d_module msg) (d_method_missing msg))))"

section \<open>The state of the machine\<close>

record VM =
  vm_modules :: modules
  global_cache :: GlobalCache
  inline_caches :: "InlineCache list"
  ic_registry :: "int \<Rightarrow> nat list"

definition InlineCacheRegistry_add_cache :: "VM \<Rightarrow> oop \<Rightarrow> nat \<Rightarrow> VM" where
  "InlineCacheRegistry_add_cache vm nm i =
     vm\<lparr>ic_registry := (ic_registry vm)(Symbol_index nm := ic_registry vm (Symbol_index nm) @ [i])\<rparr>"

definition InlineCacheRegistry_clear :: "VM \<Rightarrow> oop \<Rightarrow> VM" where
  "InlineCacheRegistry_clear vm nm =
     vm\<lparr>inline_caches := map (\<lambda>i. if i \<in> set (ic_registry vm (Symbol_index nm)) then InlineCache_clear (inline_caches vm ! i) else inline_caches vm ! i)
       [0..<length (inline_caches vm)]\<rparr>"

definition Module_add_method :: "VM \<Rightarrow> oop \<Rightarrow> oop \<Rightarrow> oop \<Rightarrow> oop \<Rightarrow> VM" where
  "Module_add_method vm m nm exec vis =
     vm\<lparr>vm_modules := store_method (vm_modules vm) m nm exec vis,
        global_cache := GlobalCache_clear_method (global_cache vm) m nm\<rparr>"

definition vm_reset_method_cache :: "VM \<Rightarrow> oop \<Rightarrow> VM" where
  "vm_reset_method_cache vm nm =
     InlineCacheRegistry_clear (vm\<lparr>global_cache := GlobalCache_clear_name (global_cache vm) nm\<rparr>) nm"

definition VM_call ::
  "Globals \<Rightarrow> (oop \<Rightarrow> oop) \<Rightarrow> (oop \<Rightarrow> oop \<Rightarrow> bool) \<Rightarrow> VM \<Rightarrow> nat \<Rightarrow> oop \<Rightarrow> oop \<Rightarrow> oop \<Rightarrow> (VM \<times> Target) option" where
  "VM_call G klass_of kind vm i recv self frame_module =
     (case InlineCache_execute G (vm_modules vm) (kind self) klass_of (global_cache vm) (inline_caches vm ! i) recv frame_module of
        None \<Rightarrow> None
      | Some (gc, ic, target) \<Rightarrow> Some (vm\<lparr>global_cache := gc, inline_caches := (inline_caches vm)[i := ic]\<rparr>, target))"

end
