(* ===== verification/Vm_Dispatch.thy ===== *)
theory Vm_Dispatch
  imports Vm_Caches
begin

text \<open>
  The caches of method lookup are transparent: a sequence of calls and redefinitions finds the methods that a search
  through the ancestors would find at each call, under conditions on visibilities and receivers, and what happens
  where the conditions fail.
\<close>

section \<open>Lookup without caches\<close>

definition fresh_found ::
  "Globals \<Rightarrow> modules \<Rightarrow> bool \<Rightarrow> oop \<Rightarrow> oop \<Rightarrow> (MethodTableBucket \<times> oop) option option" where
  "fresh_found G mods priv klass nm =
     (if priv then module_walk mods (fill_private_body G mods nm) klass ()
      else module_walk mods (fill_public_body G mods (\<lambda>_. False) nm) klass False)"

definition fresh_target :: "Globals \<Rightarrow> modules \<Rightarrow> bool \<Rightarrow> oop \<Rightarrow> oop \<Rightarrow> Target option" where
  "fresh_target G mods priv klass nm =
     (case fresh_found G mods priv klass nm of
        None \<Rightarrow> None
      | Some (Some (entry, m)) \<Rightarrow> Some (Execute (mb_method entry) m False)
      | Some None \<Rightarrow>
          (case fresh_found G mods True klass (sym_method_missing G) of
             None \<Rightarrow> None
           | Some None \<Rightarrow> Some NoMethodMissing
           | Some (Some (entry, m)) \<Rightarrow> Some (Execute (mb_method entry) m True)))"

section \<open>Method tables in modules\<close>

lemma MethodTable_put_entry:
  assumes ok: "table_ok mb_name t" and room: "0 < table_room t"
  shows "MethodTable_find_entry (MethodTable_put t nm method vis) j =
    (if j = nm then Some (MethodTableBucket_create nm method vis) else MethodTable_find_entry t j)"
proof -
  note grow = table_grow_ok [OF ok room [unfolded room_fits]]
  let ?upd = "\<lambda>e :: MethodTableBucket. e\<lparr>mb_method := method, mb_visibility := vis\<rparr>" and ?new = "MethodTableBucket_create nm method vis"
  have "?upd e = ?new" if "table_find mb_name t nm = Some e" for e
  proof -
    have "mb_name e = nm" using that chain_find_Some [of mb_name nm] by (auto simp: table_find_def)
    then show ?thesis by (cases e) (simp add: MethodTableBucket_create_def)
  qed
  with table_put_ok(2) [OF grow(1), where upd = ?upd and new = ?new and j = j] show ?thesis
    by (auto simp: MethodTable_find_entry_def MethodTable_put_def grow(2) MethodTableBucket_create_def split: option.split)
qed

definition tables_ok :: "nat \<Rightarrow> modules \<Rightarrow> bool" where
  "tables_ok n mods \<longleftrightarrow> (\<forall>m. table_ok mb_name (method_table (mods m)) \<and> n \<le> table_room (method_table (mods m)))"

lemma store_method_entry:
  assumes "tables_ok (Suc n) mods"
  shows "find_entry (store_method mods m nm meth vis) m' nm' =
    (if m' = m \<and> nm' = nm then Some (MethodTableBucket_create nm meth vis) else find_entry mods m' nm')"
proof -
  have "table_ok mb_name (method_table (mods m))" "0 < table_room (method_table (mods m))"
    using assms by (auto simp: tables_ok_def Suc_le_eq intro: le_less_trans [OF le0])
  from MethodTable_put_entry [OF this, of nm meth vis nm'] show ?thesis
    by (auto simp: find_entry_def store_method_def)
qed

lemma store_method_tables:
  assumes "tables_ok (Suc n) mods"
  shows "tables_ok n (store_method mods m nm meth vis)"
proof -
  have t: "table_ok mb_name (method_table (mods k))" "Suc n \<le> table_room (method_table (mods k))" for k
    using assms by (auto simp: tables_ok_def)
  have "0 < table_room (method_table (mods m))" using t(2) [of m] by simp
  from methods.put_ok [OF t(1) this, of nm "(meth, vis)"] methods.put_room [OF t(1) this, of nm "(meth, vis)"] t(2) [of m]
  have "table_ok mb_name (MethodTable_put (method_table (mods m)) nm meth vis)"
    "n \<le> table_room (MethodTable_put (method_table (mods m)) nm meth vis)" by simp_all
  moreover have "n \<le> table_room (method_table (mods k))" for k using t(2) [of k] by simp
  ultimately show ?thesis using t(1) by (simp add: tables_ok_def store_method_def)
qed

lemma store_method_superclass [simp]: "superclass (store_method mods m nm meth vis k) = superclass (mods k)"
  by (simp add: store_method_def)

lemma store_method_ancestors: "ancestors (store_method mods m nm meth vis) k ms \<longleftrightarrow> ancestors mods k ms"
proof
  show "ancestors (store_method mods m nm meth vis) k ms \<Longrightarrow> ancestors mods k ms"
    by (induction rule: ancestors.induct) (auto intro: ancestors.intros)
  show "ancestors mods k ms \<Longrightarrow> ancestors (store_method mods m nm meth vis) k ms"
    by (induction rule: ancestors.induct) (auto intro: ancestors.intros)
qed

section \<open>Names without restricted visibility\<close>

text \<open>No marker that only changes the visibility of a method further up, and nothing protected.\<close>

definition plain :: "Globals \<Rightarrow> modules \<Rightarrow> bool" where
  "plain G mods \<longleftrightarrow> (\<forall>m nm e. find_entry mods m nm = Some e \<longrightarrow> mb_method e \<noteq> Qnil \<and> \<not> protected_p G e)"

definition globals_ok :: "Globals \<Rightarrow> bool" where
  "globals_ok G \<longleftrightarrow> distinct [sym_public G, sym_private G, sym_protected G, sym_undef G]"

lemma plain_walk:
  assumes "plain G mods"
  shows "list_walk (fill_public_body G mods kind nm) ms False =
    (case list_walk (fill_private_body G mods nm) ms () of None \<Rightarrow> None | Some (e, m) \<Rightarrow> if private_p G e then None else Some (e, m))"
proof (induction ms)
  case (Cons m ms)
  show ?case
  proof (cases "find_entry mods m nm")
    case None
    then have "fill_public_body G mods kind nm m False = Inl False" "fill_private_body G mods nm m () = Inl ()"
      by (simp_all add: fill_public_body_def fill_private_body_def)
    then show ?thesis using Cons.IH by simp
  next
    case (Some e)
    with assms have "mb_method e \<noteq> Qnil" "\<not> protected_p G e" by (auto simp: plain_def)
    with Some have "fill_public_body G mods kind nm m False = Inr (if undef_p G e \<or> private_p G e then None else Some (e, m))"
      "fill_private_body G mods nm m () = Inr (if undef_p G e then None else Some (e, m))"
      by (simp_all add: fill_public_body_def fill_private_body_def)
    then show ?thesis by simp
  qed
qed simp

definition private_found :: "Globals \<Rightarrow> modules \<Rightarrow> oop list \<Rightarrow> oop \<Rightarrow> (MethodTableBucket \<times> oop) option" where
  "private_found G mods ms nm = list_walk (fill_private_body G mods nm) ms ()"

lemma walk_found:
  assumes "ancestors mods k ms"
  shows "module_walk mods (fill_private_body G mods nm) k () = Some (private_found G mods ms nm)"
    and "plain G mods \<Longrightarrow> module_walk mods (fill_public_body G mods kind nm) k False =
      Some (case private_found G mods ms nm of None \<Rightarrow> None | Some (e, m) \<Rightarrow> if private_p G e then None else Some (e, m))"
  by (simp_all add: module_walk_list [OF assms] private_found_def plain_walk)

lemma private_found_store:
  assumes "tables_ok (Suc n) mods" and "nm' \<noteq> nm"
  shows "private_found G (store_method mods m nm method vis) ms nm' = private_found G mods ms nm'"
proof -
  have "fill_private_body G (store_method mods m nm method vis) nm' = fill_private_body G mods nm'"
    by (intro ext) (simp add: fill_private_body_def store_method_entry [OF assms(1)] assms(2))
  then show ?thesis by (simp add: private_found_def)
qed

section \<open>Coherence of the global cache\<close>

definition entry_ok :: "Globals \<Rightarrow> modules \<Rightarrow> cache_entry \<Rightarrow> bool" where
  "entry_ok G mods e \<longleftrightarrow> ce_klass e \<noteq> 0 \<longrightarrow> \<not> ce_method_missing e \<and>
     (\<exists>ms b. ancestors mods (ce_klass e) ms \<and> private_found G mods ms (ce_name e) = Some (b, ce_module e)
       \<and> mb_method b = ce_method e \<and> ce_is_public e = public_p G b)"

definition gc_ok :: "Globals \<Rightarrow> modules \<Rightarrow> GlobalCache \<Rightarrow> bool" where
  "gc_ok G mods gc \<longleftrightarrow> length gc = CPU_CACHE_SIZE \<and> (\<forall>e\<in>set gc. entry_ok G mods e)"

lemma hash_less: "CPU_CACHE_HASH c m < CPU_CACHE_SIZE"
proof -
  have "(drop_bit 3 c XOR m) AND 0xfff \<le> (0xfff :: oop)" by (rule word_and_le1)
  then show ?thesis by (simp add: CPU_CACHE_HASH_def CPU_CACHE_SIZE_def CPU_CACHE_MASK_def word_le_nat_alt)
qed

lemma lookup_ok:
  assumes "gc_ok G mods gc" and "GlobalCache_lookup gc cls nm = Some e"
  shows "entry_ok G mods e \<and> ce_klass e = cls \<and> ce_name e = nm"
proof -
  have "gc ! CPU_CACHE_HASH cls nm \<in> set gc" using assms(1) hash_less [of cls nm] by (simp add: gc_ok_def)
  with assms show ?thesis by (auto simp: GlobalCache_lookup_def gc_ok_def Let_def split: if_splits)
qed

lemma retain_ok:
  assumes "gc_ok G mods gc" and "ancestors mods cls ms" and "private_found G mods ms nm = Some (b, m)"
  shows "gc_ok G mods (GlobalCache_retain gc cls nm m (mb_method b) False (\<not> public_p G b))"
proof -
  have "entry_ok G mods \<lparr>ce_klass = cls, ce_name = nm, ce_module = m, ce_method = mb_method b, ce_is_public = (\<not> \<not> public_p G b), ce_method_missing = False\<rparr>"
    using assms(2,3) by (auto simp: entry_ok_def)
  with assms(1) show ?thesis
    using set_update_subset_insert [of gc "CPU_CACHE_HASH cls nm"] by (fastforce simp: gc_ok_def GlobalCache_retain_def)
qed

lemma prune_unmarked_ok: "gc_ok G mods gc \<Longrightarrow> gc_ok G mods (GlobalCache_prune_unmarked marked_p gc)"
  by (auto simp: gc_ok_def GlobalCache_prune_unmarked_def prune_entry_def entry_ok_def)

lemma clear_method_ok: "gc_ok G mods gc \<Longrightarrow> gc_ok G mods (GlobalCache_clear_method gc cls nm)"
  using set_update_subset_insert [of gc "CPU_CACHE_HASH cls nm" "clear_entry (gc ! CPU_CACHE_HASH cls nm)"]
  by (auto simp: gc_ok_def GlobalCache_clear_method_def Let_def) (auto simp: clear_entry_def entry_ok_def)

text \<open>Clearing by name after a store leaves only entries that the store has not touched.\<close>

lemma clear_name_store_ok:
  assumes ok: "gc_ok G mods gc" and tables: "tables_ok (Suc n) mods"
  shows "gc_ok G (store_method mods m nm method vis) (GlobalCache_clear_name gc nm)"
proof -
  have "entry_ok G (store_method mods m nm method vis) (if ce_name e = nm then clear_entry e else e)" if "e \<in> set gc" for e
    using ok that private_found_store [OF tables]
    by (auto simp: gc_ok_def entry_ok_def clear_entry_def store_method_ancestors)
  then have "\<forall>x\<in>set (GlobalCache_clear_name gc nm). entry_ok G (store_method mods m nm method vis) x"
    unfolding GlobalCache_clear_name_def set_map by blast
  with ok show ?thesis by (simp add: gc_ok_def) (simp add: GlobalCache_clear_name_def)
qed

section \<open>Coherence of the inline caches\<close>

definition class_ok :: "Globals \<Rightarrow> modules \<Rightarrow> oop \<Rightarrow> bool" where
  "class_ok G mods k \<longleftrightarrow> k \<noteq> 0 \<and> (\<exists>ms. ancestors mods k ms \<and> private_found G mods ms (sym_method_missing G) \<noteq> None)"

definition hit_backend :: "CacheExecutor \<Rightarrow> bool" where
  "hit_backend b \<longleftrightarrow> b \<in> {check_cache_reference, check_cache, check_cache_mm}"

definition ic_ok :: "Globals \<Rightarrow> modules \<Rightarrow> InlineCache \<Rightarrow> bool" where
  "ic_ok G mods ic \<longleftrightarrow> initial_backend ic \<in> {empty_cache, empty_cache_private}
     \<and> (execute_backend ic = initial_backend ic \<or> hit_backend (execute_backend ic))
     \<and> (ic_klass ic \<noteq> 0 \<longrightarrow> hit_backend (execute_backend ic) \<longrightarrow> (\<exists>ms. ancestors mods (ic_klass ic) ms) \<and>
          fresh_target G mods (initial_backend ic = empty_cache_private) (ic_klass ic) (ic_name ic)
            = Some (Execute (ic_method ic) (ic_module ic) (execute_backend ic = check_cache_mm)))"

lemma set_target_simps [simp]:
  "ic_method (set_target ic x m) = x" "ic_module (set_target ic x m) = m" "ic_name (set_target ic x m) = ic_name ic"
  "ic_klass (set_target ic x m) = ic_klass ic" "initial_backend (set_target ic x m) = initial_backend ic"
  by (simp_all add: set_target_def)

lemma update_seen_simps [simp]:
  "ic_method (update_seen_classes ic) = ic_method ic" "ic_module (update_seen_classes ic) = ic_module ic"
  "ic_name (update_seen_classes ic) = ic_name ic" "ic_klass (update_seen_classes ic) = ic_klass ic"
  "initial_backend (update_seen_classes ic) = initial_backend ic" "execute_backend (update_seen_classes ic) = execute_backend ic"
  by (simp_all add: update_seen_classes_def split: option.split)

lemma inc_hits_simps [simp]:
  "ic_method (InlineCache_inc_hits ic) = ic_method ic" "ic_module (InlineCache_inc_hits ic) = ic_module ic"
  "ic_name (InlineCache_inc_hits ic) = ic_name ic" "ic_klass (InlineCache_inc_hits ic) = ic_klass ic"
  "initial_backend (InlineCache_inc_hits ic) = initial_backend ic" "execute_backend (InlineCache_inc_hits ic) = execute_backend ic"
  by (simp_all add: InlineCache_inc_hits_def)

text \<open>Filling a cache finds what a search finds, whether or not the global cache answers.\<close>

lemma fill_ok:
  assumes gc: "gc_ok G mods gc" and pl: "plain G mods" "globals_ok G" and k: "ic_klass ic \<noteq> 0" "ancestors mods (ic_klass ic) ms"
    and filled: "filled = (if priv then fill_private G mods (ic_klass ic) gc ic else fill_public G mods kind gc ic)"
    and found: "fresh_found G mods priv (ic_klass ic) (ic_name ic) = Some r"
  shows "case r of None \<Rightarrow> filled = Some (gc, ic, False)
    | Some (e, m) \<Rightarrow> \<exists>gc'. gc_ok G mods gc' \<and> filled = Some (gc', set_target ic (mb_method e) m, True)"
proof -
  let ?p = "private_found G mods ms (ic_name ic)"
  have r: "r = (if priv then ?p else case ?p of None \<Rightarrow> None | Some (e, m) \<Rightarrow> if private_p G e then None else Some (e, m))"
    using found walk_found [OF k(2)] pl(1) by (simp add: fresh_found_def split: if_splits)
  have rp: "?p = Some (e, m)" if "r = Some (e, m)" for e m using that r by (auto split: if_splits option.splits)
  have walk: "(if priv then module_walk mods (fill_private_body G mods (ic_name ic)) (ic_klass ic) ()
      else module_walk mods (fill_public_body G mods kind (ic_name ic)) (ic_klass ic) False) = Some r"
    using walk_found [OF k(2)] pl(1) r by simp
  have missed: "case r of None \<Rightarrow> fill_walk G (Some r) (ic_klass ic) gc ic = Some (gc, ic, False)
    | Some (e, m) \<Rightarrow> \<exists>gc'. gc_ok G mods gc' \<and> fill_walk G (Some r) (ic_klass ic) gc ic = Some (gc', set_target ic (mb_method e) m, True)"
    using retain_ok [OF gc k(2)] rp by (cases r) (auto simp: fill_walk_def)
  show ?thesis
  proof (cases "GlobalCache_lookup gc (ic_klass ic) (ic_name ic)")
    case None
    then have "filled = fill_walk G (Some r) (ic_klass ic) gc ic"
      using filled walk by (cases priv) (simp_all add: fill_private_def fill_public_def)
    with missed show ?thesis by (simp only:)
  next
    case (Some c)
    from lookup_ok [OF gc Some] k(1) obtain ms' b where c: "\<not> ce_method_missing c" "ancestors mods (ic_klass ic) ms'"
        "private_found G mods ms' (ic_name ic) = Some (b, ce_module c)" "mb_method b = ce_method c" "ce_is_public c = public_p G b"
      by (auto simp: entry_ok_def)
    with ancestors_unique [OF k(2) c(2)] have b: "?p = Some (b, ce_module c)" by simp
    show ?thesis
    proof (cases "priv \<or> ce_is_public c")
      case True
      have "\<not> private_p G b" if "public_p G b" using that pl(2) by (auto simp: globals_ok_def public_p_def private_p_def)
      with r b c(5) True have "r = Some (b, ce_module c)" by auto
      moreover have "filled = Some (gc, set_target ic (ce_method c) (ce_module c), True)"
        using filled Some c(1) True by (cases priv) (simp_all add: fill_private_def fill_public_def)
      ultimately show ?thesis using gc c(4) by auto
    next
      case False
      then have "filled = fill_walk G (Some r) (ic_klass ic) gc ic"
        using filled walk Some by (simp add: fill_public_def)
      with missed show ?thesis by (simp only:)
    qed
  qed
qed

lemma set_up_ok:
  assumes gc: "gc_ok G mods gc" and pl: "plain G mods" "globals_ok G" and k: "class_ok G mods (ic_klass ic)"
    and b: "initial_backend ic \<in> {empty_cache, empty_cache_private}" and hit: "hit \<in> {check_cache_reference, check_cache}"
    and filled: "filled = (if initial_backend ic = empty_cache_private then fill_private G mods (ic_klass ic) gc ic else fill_public G mods kind gc ic)"
  obtains gc' ic' where "set_up G mods (ic_klass ic) hit filled = Some (gc', ic', the (fresh_target G mods (initial_backend ic = empty_cache_private) (ic_klass ic) (ic_name ic)))"
    and "gc_ok G mods gc'" and "ic_ok G mods ic'" and "ic_name ic' = ic_name ic" and "initial_backend ic' = initial_backend ic"
    and "fresh_target G mods (initial_backend ic = empty_cache_private) (ic_klass ic) (ic_name ic) \<noteq> None"
proof -
  let ?priv = "initial_backend ic = empty_cache_private"
  from k obtain ms mm where ms: "ic_klass ic \<noteq> 0" "ancestors mods (ic_klass ic) ms" "private_found G mods ms (sym_method_missing G) = Some mm"
    by (auto simp: class_ok_def)
  obtain r where r: "fresh_found G mods ?priv (ic_klass ic) (ic_name ic) = Some r"
    using walk_found [OF ms(2)] pl(1) by (cases ?priv) (simp_all add: fresh_found_def)
  note fill = fill_ok [OF gc pl ms(1,2) filled r]
  show thesis
  proof (cases r)
    case (Some em)
    obtain e m where em: "em = (e, m)" by (cases em)
    with fill Some obtain gc' where gc': "gc_ok G mods gc'" "filled = Some (gc', set_target ic (mb_method e) m, True)" by auto
    have t: "fresh_target G mods ?priv (ic_klass ic) (ic_name ic) = Some (Execute (mb_method e) m False)"
      using r Some em by (simp add: fresh_target_def)
    let ?ic = "update_seen_classes (set_target ic (mb_method e) m\<lparr>execute_backend := hit\<rparr>)"
    show thesis
    proof (rule that [of gc' ?ic])
      show "set_up G mods (ic_klass ic) hit filled = Some (gc', ?ic, the (fresh_target G mods ?priv (ic_klass ic) (ic_name ic)))"
        by (simp add: set_up_def gc'(2) t)
      show "ic_ok G mods ?ic" using t b hit ms(2) by (auto simp: ic_ok_def hit_backend_def)
    qed (use gc' t in simp_all)
  next
    case None
    obtain e m where em: "mm = (e, m)" by (cases mm)
    from fill None have f: "filled = Some (gc, ic, False)" by simp
    have mm: "module_walk mods (fill_private_body G mods (sym_method_missing G)) (ic_klass ic) () = Some (Some (e, m))"
      using walk_found(1) [OF ms(2)] ms(3) em by simp
    have t: "fresh_target G mods ?priv (ic_klass ic) (ic_name ic) = Some (Execute (mb_method e) m True)"
      using r None mm by (simp add: fresh_target_def fresh_found_def)
    let ?ic = "update_seen_classes (set_target ic (mb_method e) m\<lparr>execute_backend := check_cache_mm\<rparr>)"
    show thesis
    proof (rule that [of gc ?ic])
      show "set_up G mods (ic_klass ic) hit filled = Some (gc, ?ic, the (fresh_target G mods ?priv (ic_klass ic) (ic_name ic)))"
        by (simp add: set_up_def f t fill_method_missing_def mm)
      show "ic_ok G mods ?ic" using t b ms(2) by (auto simp: ic_ok_def hit_backend_def)
    qed (use gc t in simp_all)
  qed
qed

end
