(* ===== verification/Vm_Dispatch_Run.thy ===== *)
theory Vm_Dispatch_Run
  imports Vm_Dispatch
begin

text \<open>
  Runs of the machine: calls at call sites, redefinitions of methods as the kernel makes them (\<open>add_method\<close>, then
  \<open>reset_method_cache\<close>) and collections that prune the global cache, compared with lookups that use no cache.
\<close>

section \<open>Runs\<close>

datatype vm_op = Redefine oop oop oop oop | Call nat oop oop oop | Prune "oop \<Rightarrow> bool"

primrec vm_exec ::
  "Globals \<Rightarrow> (oop \<Rightarrow> oop) \<Rightarrow> (oop \<Rightarrow> oop \<Rightarrow> bool) \<Rightarrow> VM \<Rightarrow> vm_op \<Rightarrow> VM \<times> Target option" where
  "vm_exec G klass_of kind vm (Redefine m nm exec vis) = (vm_reset_method_cache (Module_add_method vm m nm exec vis) nm, None)"
| "vm_exec G klass_of kind vm (Call i recv self frame_module) =
     (case VM_call G klass_of kind vm i recv self frame_module of None \<Rightarrow> (vm, None) | Some (vm, t) \<Rightarrow> (vm, Some t))"
| "vm_exec G klass_of kind vm (Prune marked_p) = (vm\<lparr>global_cache := GlobalCache_prune_unmarked marked_p (global_cache vm)\<rparr>, None)"

text \<open>The same without caches. A site is given by its name and whether it makes private calls.\<close>

primrec spec_exec ::
  "Globals \<Rightarrow> (oop \<Rightarrow> oop) \<Rightarrow> (oop \<times> bool) list \<Rightarrow> modules \<Rightarrow> vm_op \<Rightarrow> modules \<times> Target option" where
  "spec_exec G klass_of site mods (Redefine m nm exec vis) = (store_method mods m nm exec vis, None)"
| "spec_exec G klass_of site mods (Call i recv self frame_module) =
     (mods, fresh_target G mods (snd (site ! i)) (klass_of recv) (fst (site ! i)))"
| "spec_exec G klass_of site mods (Prune marked_p) = (mods, None)"

text \<open>Methods are not nil and not protected, \<open>method_missing\<close> stays as it is, receivers are neither fixnums nor symbols.\<close>

primrec op_fine :: "Globals \<Rightarrow> nat \<Rightarrow> vm_op \<Rightarrow> bool" where
  "op_fine G sites (Redefine m nm exec vis) \<longleftrightarrow> exec \<noteq> Qnil \<and> vis \<noteq> sym_protected G \<and> nm \<noteq> sym_method_missing G"
| "op_fine G sites (Call i recv self frame_module) \<longleftrightarrow> i < sites \<and> \<not> FIXNUM_P recv \<and> \<not> SYMBOL_P recv"
| "op_fine G sites (Prune marked_p) \<longleftrightarrow> True"

definition site_of :: "VM \<Rightarrow> (oop \<times> bool) list" where
  "site_of vm = map (\<lambda>ic. (ic_name ic, initial_backend ic = empty_cache_private)) (inline_caches vm)"

lemma length_sites: "length (site_of vm) = length (inline_caches vm)"
  by (simp add: site_of_def)

text \<open>What holds between the operations; \<open>n\<close> more methods can be stored in any table.\<close>

definition vm_ok :: "nat \<Rightarrow> Globals \<Rightarrow> (oop \<Rightarrow> oop) \<Rightarrow> VM \<Rightarrow> bool" where
  "vm_ok n G klass_of vm \<longleftrightarrow> globals_ok G \<and> plain G (vm_modules vm) \<and> tables_ok n (vm_modules vm)
     \<and> (\<forall>obj. class_ok G (vm_modules vm) (klass_of obj))
     \<and> gc_ok G (vm_modules vm) (global_cache vm)
     \<and> (\<forall>i<length (inline_caches vm). ic_ok G (vm_modules vm) (inline_caches vm ! i)
          \<and> i \<in> set (ic_registry vm (Symbol_index (ic_name (inline_caches vm ! i)))))"

lemma tables_ok_less: "tables_ok (Suc n) mods \<Longrightarrow> tables_ok n mods"
  unfolding tables_ok_def using Suc_leD by blast

section \<open>Calls\<close>

lemma execute_ok:
  assumes gc: "gc_ok G mods gc" and pl: "plain G mods" "globals_ok G" and ic: "ic_ok G mods ic"
    and k: "class_ok G mods (klass_of recv)" and recv: "\<not> FIXNUM_P recv" "\<not> SYMBOL_P recv"
  shows "\<exists>gc' ic' t. InlineCache_execute G mods kind klass_of gc ic recv frame_module = Some (gc', ic', t)
    \<and> fresh_target G mods (initial_backend ic = empty_cache_private) (klass_of recv) (ic_name ic) = Some t
    \<and> gc_ok G mods gc' \<and> ic_ok G mods ic' \<and> ic_name ic' = ic_name ic \<and> initial_backend ic' = initial_backend ic"
proof -
  let ?ic = "ic\<lparr>ic_klass := klass_of recv\<rparr>" and ?priv = "initial_backend ic = empty_cache_private"
  let ?P = "\<lambda>res. \<exists>gc' ic' t. res = Some (gc', ic', t) \<and> fresh_target G mods ?priv (klass_of recv) (ic_name ic) = Some t
    \<and> gc_ok G mods gc' \<and> ic_ok G mods ic' \<and> ic_name ic' = ic_name ic \<and> initial_backend ic' = initial_backend ic"
  have b: "initial_backend ic = empty_cache \<or> initial_backend ic = empty_cache_private" using ic by (auto simp: ic_ok_def)
  have k': "class_ok G mods (ic_klass ?ic)" and b': "initial_backend ?ic \<in> {empty_cache, empty_cache_private}"
    using k b by auto
  have init: "?P (InlineCache_initialize G mods kind klass_of gc ic recv frame_module)"
  proof (cases ?priv)
    case True
    with set_up_ok [OF gc pl k' b', of check_cache _ kind] show ?thesis
      by (simp add: InlineCache_initialize_def empty_cache_private_run_def Let_def) fastforce
  next
    case False
    with set_up_ok [OF gc pl k' b', of "if REFERENCE_P recv then check_cache_reference else check_cache" _ kind] b recv show ?thesis
      by (simp add: InlineCache_initialize_def empty_cache_run_def Let_def) fastforce
  qed
  have hit: "?P (cache_hit gc ic (execute_backend ic = check_cache_mm))"
    if "ic_klass ic = klass_of recv" "hit_backend (execute_backend ic)"
  proof -
    have "ic_klass ic \<noteq> 0" using k that by (simp add: class_ok_def)
    with ic that have "fresh_target G mods ?priv (klass_of recv) (ic_name ic) = Some (Execute (ic_method ic) (ic_module ic) (execute_backend ic = check_cache_mm))"
      by (simp add: ic_ok_def)
    moreover have "ic_ok G mods (InlineCache_inc_hits ic)" using ic by (simp add: ic_ok_def)
    ultimately show ?thesis using gc by (simp add: cache_hit_def Let_def)
  qed
  have "InlineCache_execute G mods kind klass_of gc ic recv frame_module = InlineCache_initialize G mods kind klass_of gc ic recv frame_module
    \<or> ic_klass ic = klass_of recv \<and> hit_backend (execute_backend ic)
      \<and> InlineCache_execute G mods kind klass_of gc ic recv frame_module = cache_hit gc ic (execute_backend ic = check_cache_mm)"
  proof (cases "hit_backend (execute_backend ic)")
    case True
    then show ?thesis
      by (cases "execute_backend ic") (simp_all add: hit_backend_def InlineCache_execute_def Let_def eq_commute [of "klass_of recv"])
  next
    case False
    then have "execute_backend ic = initial_backend ic" using ic by (simp add: ic_ok_def)
    with b show ?thesis by (auto simp: InlineCache_execute_def InlineCache_initialize_def)
  qed
  with init hit show ?thesis by metis
qed

section \<open>Redefinitions\<close>

lemma fresh_target_store:
  assumes pl: "plain G mods" "plain G (store_method mods m nm exec vis)" and tables: "tables_ok (Suc n) mods"
    and k: "ancestors mods k ms" and nm: "nm' \<noteq> nm" "sym_method_missing G \<noteq> nm"
  shows "fresh_target G (store_method mods m nm exec vis) priv k nm' = fresh_target G mods priv k nm'"
proof -
  have k': "ancestors (store_method mods m nm exec vis) k ms" using k by (simp add: store_method_ancestors)
  have same: "fresh_found G (store_method mods m nm exec vis) p k j = fresh_found G mods p k j" if "j \<noteq> nm" for p j
    using walk_found [OF k] walk_found [OF k'] pl private_found_store [OF tables that] by (simp add: fresh_found_def)
  show ?thesis by (simp only: fresh_target_def same [OF nm(1)] same [OF nm(2)])
qed

lemma redefine_ok:
  assumes ok: "vm_ok (Suc n) G klass_of vm" and fine: "op_fine G sites (Redefine m nm exec vis)"
  shows "vm_ok n G klass_of (vm_reset_method_cache (Module_add_method vm m nm exec vis) nm)"
proof -
  let ?mods = "vm_modules vm" and ?mods' = "store_method (vm_modules vm) m nm exec vis"
  have tables: "tables_ok (Suc n) ?mods" and pl: "plain G ?mods" using ok by (simp_all add: vm_ok_def)
  have pl': "plain G ?mods'"
    using pl fine by (auto simp: plain_def store_method_entry [OF tables] MethodTableBucket_create_def protected_p_def split: if_splits)
  have classes: "class_ok G ?mods' (klass_of obj)" for obj
    using ok fine private_found_store [OF tables] by (auto simp: vm_ok_def class_ok_def store_method_ancestors)
  have gc: "gc_ok G ?mods' (GlobalCache_clear_name (GlobalCache_clear_method (global_cache vm) m nm) nm)"
    using ok clear_name_store_ok [OF clear_method_ok tables] by (simp add: vm_ok_def)
  have ics: "ic_ok G ?mods' (if i \<in> set (ic_registry vm (Symbol_index nm)) then InlineCache_clear (inline_caches vm ! i) else inline_caches vm ! i)"
    if i: "i < length (inline_caches vm)" for i
  proof (cases "i \<in> set (ic_registry vm (Symbol_index nm))")
    case True
    with ok i show ?thesis by (auto simp: vm_ok_def ic_ok_def InlineCache_clear_def)
  next
    case False
    let ?ic = "inline_caches vm ! i"
    have ne: "ic_name ?ic \<noteq> nm" using False ok i by (auto simp: vm_ok_def)
    have ic: "ic_ok G ?mods ?ic" using ok i by (simp add: vm_ok_def)
    have "fresh_target G ?mods' p (ic_klass ?ic) (ic_name ?ic) = fresh_target G ?mods p (ic_klass ?ic) (ic_name ?ic)
      \<and> ancestors ?mods' (ic_klass ?ic) ms" if ms: "ancestors ?mods (ic_klass ?ic) ms" for p ms
      using fresh_target_store [OF pl pl' tables ms ne] fine ms by (auto simp: store_method_ancestors)
    with ic have "ic_ok G ?mods' ?ic" unfolding ic_ok_def by metis
    with False show ?thesis by simp
  qed
  have names: "ic_name (if b then InlineCache_clear ic else ic) = ic_name ic" for b ic by (simp add: InlineCache_clear_def)
  have "vm_reset_method_cache (Module_add_method vm m nm exec vis) nm =
    vm\<lparr>vm_modules := ?mods', global_cache := GlobalCache_clear_name (GlobalCache_clear_method (global_cache vm) m nm) nm,
      inline_caches := map (\<lambda>i. if i \<in> set (ic_registry vm (Symbol_index nm)) then InlineCache_clear (inline_caches vm ! i) else inline_caches vm ! i)
        [0..<length (inline_caches vm)]\<rparr>"
    by (simp add: vm_reset_method_cache_def Module_add_method_def InlineCacheRegistry_clear_def cong: if_cong)
  with ok store_method_tables [OF tables] pl' classes gc ics show ?thesis
    by (simp add: vm_ok_def names cong: if_cong split del: if_split)
qed

lemma redefine_site: "site_of (vm_reset_method_cache (Module_add_method vm m nm exec vis) nm) = site_of vm"
  by (rule nth_equalityI) (simp_all add: site_of_def vm_reset_method_cache_def Module_add_method_def InlineCacheRegistry_clear_def InlineCache_clear_def)

lemma redefine_modules [simp]:
  "vm_modules (vm_reset_method_cache (Module_add_method vm m nm exec vis) nm) = store_method (vm_modules vm) m nm exec vis"
  by (simp add: vm_reset_method_cache_def Module_add_method_def InlineCacheRegistry_clear_def)

section \<open>The caches are transparent\<close>

lemma vm_exec_ok:
  assumes ok: "vm_ok (Suc n) G klass_of vm" and fine: "op_fine G (length (inline_caches vm)) op"
  shows "snd (vm_exec G klass_of kind vm op) = snd (spec_exec G klass_of (site_of vm) (vm_modules vm) op)
    \<and> vm_modules (fst (vm_exec G klass_of kind vm op)) = fst (spec_exec G klass_of (site_of vm) (vm_modules vm) op)
    \<and> site_of (fst (vm_exec G klass_of kind vm op)) = site_of vm \<and> vm_ok n G klass_of (fst (vm_exec G klass_of kind vm op))"
proof (cases op)
  case (Redefine m nm exec vis)
  with redefine_ok [OF ok, of "length (inline_caches vm)" m nm exec vis] fine redefine_site show ?thesis by simp
next
  case (Prune marked_p)
  with ok tables_ok_less prune_unmarked_ok show ?thesis by (simp add: vm_ok_def site_of_def)
next
  case (Call i recv self frame_module)
  with fine have i: "i < length (inline_caches vm)" by simp
  have "gc_ok G (vm_modules vm) (global_cache vm)" "plain G (vm_modules vm)" "globals_ok G"
    "ic_ok G (vm_modules vm) (inline_caches vm ! i)" "class_ok G (vm_modules vm) (klass_of recv)"
    using ok i by (auto simp: vm_ok_def)
  from execute_ok [where klass_of = klass_of, OF this, of "kind self" frame_module] fine Call obtain gc ic t where
    e: "InlineCache_execute G (vm_modules vm) (kind self) klass_of (global_cache vm) (inline_caches vm ! i) recv frame_module = Some (gc, ic, t)"
      "fresh_target G (vm_modules vm) (snd (site_of vm ! i)) (klass_of recv) (fst (site_of vm ! i)) = Some t"
      "gc_ok G (vm_modules vm) gc" "ic_ok G (vm_modules vm) ic"
      "ic_name ic = ic_name (inline_caches vm ! i)" "initial_backend ic = initial_backend (inline_caches vm ! i)"
    by (auto simp: site_of_def i)
  have "vm_ok n G klass_of (vm\<lparr>global_cache := gc, inline_caches := (inline_caches vm)[i := ic]\<rparr>)"
    using ok tables_ok_less e(3-6) i by (auto simp: vm_ok_def nth_list_update)
  moreover have "site_of (vm\<lparr>global_cache := gc, inline_caches := (inline_caches vm)[i := ic]\<rparr>) = site_of vm"
    using e(5,6) i by (intro nth_equalityI) (auto simp: site_of_def nth_list_update)
  ultimately show ?thesis using e(1,2) by (simp add: Call VM_call_def)
qed

text \<open>C1. The caches of method lookup are transparent. In any interleaving of calls, redefinitions of methods followed by
  reset_method_cache, and collections that prune the global cache, every call executes the method that a search through
  the ancestors of the receiver's class finds at that moment, without global or inline cache: of visibility private or
  any as the call site allows, or else method_missing with the name in front of the arguments; the search always ends.
  Provided: receivers are neither fixnums nor symbols, no method is protected, no method table entry is a mere
  visibility marker, method_missing is not redefined, and every class has an ancestor that defines it.\<close>

theorem caches_transparent:
  assumes "vm_ok (length ops) G klass_of vm" and "\<forall>op\<in>set ops. op_fine G (length (inline_caches vm)) op"
  shows "snd (run_with (vm_exec G klass_of kind) vm ops) = snd (run_with (spec_exec G klass_of (site_of vm)) (vm_modules vm) ops)"
proof -
  have "snd (run_with (vm_exec G klass_of kind) vm ops) = snd (run_with (spec_exec G klass_of site) (vm_modules vm) ops)"
    if "site = site_of vm" for site
    using assms that
  proof (induction ops arbitrary: vm)
    case (Cons op ops)
    then have "vm_ok (Suc (length ops)) G klass_of vm" "op_fine G (length (inline_caches vm)) op" by simp_all
    note step = vm_exec_ok [OF this, of kind]
    have "length (inline_caches (fst (vm_exec G klass_of kind vm op))) = length (inline_caches vm)"
      using step by (simp add: length_sites [symmetric])
    with step Cons.IH [of "fst (vm_exec G klass_of kind vm op)"] Cons.prems show ?case by (simp add: split_beta)
  qed simp
  then show ?thesis by simp
qed

text \<open>A machine with one class (at 8), in which only \<open>method_missing\<close> is defined, and one call site.\<close>

definition sample_globals :: Globals where
  "sample_globals = \<lparr>sym_public = 6, sym_private = 14, sym_protected = 22, sym_undef = 30, sym_method_missing = 38\<rparr>"

definition empty_modules :: modules where
  "empty_modules = (\<lambda>m. \<lparr>method_table = MethodTable_create 16, constants = LookupTable_create 16, superclass = Qnil, included = None\<rparr>)"

definition sample_vm :: VM where
  "sample_vm = \<lparr>vm_modules = store_method empty_modules 8 38 800 6, global_cache = GlobalCache_clear [],
     inline_caches = [InlineCache_new 46 empty_cache], ic_registry = (\<lambda>_. [0])\<rparr>"

lemma empty_modules_tables: "tables_ok (2 ^ 28) empty_modules"
  by (simp add: tables_ok_def empty_modules_def MethodTable_create_def table_setup_ok create_room)

lemma empty_modules_find: "find_entry empty_modules m nm = None"
  by (simp add: find_entry_def empty_modules_def MethodTable_create_def MethodTable_find_entry_def table_setup_ok)

lemma tables_ok_mono: "tables_ok n mods \<Longrightarrow> k \<le> n \<Longrightarrow> tables_ok k mods"
  unfolding tables_ok_def using le_trans by blast

lemma tables_ok_store_n: "tables_ok n mods \<Longrightarrow> 0 < n \<Longrightarrow> tables_ok (n - 1) (store_method mods m nm exec vis)"
  by (rule store_method_tables) simp

lemma store_find_n:
  "tables_ok n mods \<Longrightarrow> 0 < n \<Longrightarrow> find_entry (store_method mods m nm method vis) m' nm' =
    (if m' = m \<and> nm' = nm then Some (MethodTableBucket_create nm method vis) else find_entry mods m' nm')"
  by (rule store_method_entry [where n = "n - 1"]) simp

lemma gc_clear_ok: "gc_ok G mods (GlobalCache_clear gc)"
  by (simp add: gc_ok_def GlobalCache_clear_def entry_ok_def)

lemma one_ancestor: "superclass (mods k) = Qnil \<Longrightarrow> ancestors mods k [k]"
  by (rule ancestors.last)

lemma sample_vm_ok: "vm_ok 100 sample_globals (\<lambda>_. 8) sample_vm"
proof -
  let ?mods = "store_method empty_modules 8 38 800 6"
  have find: "find_entry ?mods m nm = (if m = 8 \<and> nm = 38 then Some (MethodTableBucket_create 38 800 6) else None)" for m nm
    using store_find_n [OF empty_modules_tables] by (simp add: empty_modules_find)
  have "tables_ok (2 ^ 28 - 1) ?mods" by (rule tables_ok_store_n [OF empty_modules_tables]) simp
  then have "tables_ok 100 ?mods" by (rule tables_ok_mono) simp
  moreover have "plain sample_globals ?mods"
    by (simp add: plain_def find MethodTableBucket_create_def protected_p_def sample_globals_def Qnil_def)
  moreover have "ancestors ?mods 8 [8]" by (rule one_ancestor) (simp add: empty_modules_def)
  then have "class_ok sample_globals ?mods 8"
    by (auto simp: class_ok_def private_found_def fill_private_body_def find sample_globals_def undef_p_def MethodTableBucket_create_def Qnil_def
      intro!: exI [of _ "[8]"])
  ultimately show ?thesis
    by (simp add: vm_ok_def sample_vm_def gc_clear_ok globals_ok_def ic_ok_def InlineCache_new_def hit_backend_def)
      (simp add: sample_globals_def)
qed

theorem caches_transparent_witness:
  "snd (run_with (vm_exec sample_globals (\<lambda>_. 8) (\<lambda>_ _. True)) sample_vm
     [Call 0 16 16 8, Redefine 8 46 808 6, Call 0 16 16 8, Redefine 8 46 816 6, Call 0 16 16 8])
   = [Some (Execute 800 8 True), None, Some (Execute 808 8 False), None, Some (Execute 816 8 False)]"
proof -
  let ?ops = "[Call 0 16 16 8, Redefine 8 46 808 6, Call 0 16 16 8, Redefine 8 46 816 6, Call 0 16 16 8]"
  have "vm_ok (length ?ops) sample_globals (\<lambda>_. 8) sample_vm"
    using sample_vm_ok tables_ok_mono [of 100 "vm_modules sample_vm" "length ?ops"] by (simp add: vm_ok_def)
  moreover have "\<forall>op\<in>set ?ops. op_fine sample_globals (length (inline_caches sample_vm)) op"
    by (simp add: sample_globals_def sample_vm_def Qnil_def FIXNUM_P_def SYMBOL_P_def)
  ultimately have "snd (run_with (vm_exec sample_globals (\<lambda>_. 8) (\<lambda>_ _. True)) sample_vm ?ops)
      = snd (run_with (spec_exec sample_globals (\<lambda>_. 8) (site_of sample_vm)) (vm_modules sample_vm) ?ops)"
    by (rule caches_transparent)
  also have "\<dots> = [Some (Execute 800 8 True), None, Some (Execute 808 8 False), None, Some (Execute 816 8 False)]"
  proof -
    let ?m0 = "store_method empty_modules 8 38 800 6"
    let ?m1 = "store_method ?m0 8 46 808 6"
    let ?m2 = "store_method ?m1 8 46 816 6"
    have t0: "tables_ok (2 ^ 28 - 1) ?m0" by (rule tables_ok_store_n [OF empty_modules_tables]) simp
    have t1: "tables_ok (2 ^ 28 - 1 - 1) ?m1" by (rule tables_ok_store_n [OF t0]) simp
    note find = store_find_n [OF empty_modules_tables] store_find_n [OF t0] store_find_n [OF t1] empty_modules_find
    have a: "ancestors ?m0 8 [8]" "ancestors ?m1 8 [8]" "ancestors ?m2 8 [8]"
      by (rule one_ancestor, simp add: empty_modules_def)+
    show ?thesis
      by (simp add: sample_vm_def site_of_def InlineCache_new_def fresh_target_def fresh_found_def module_walk_list [OF a(1)]
        module_walk_list [OF a(2)] module_walk_list [OF a(3)] fill_public_body_def fill_private_body_def find
        sample_globals_def undef_p_def private_p_def protected_p_def MethodTableBucket_create_def Qnil_def)
  qed
  finally show ?thesis .
qed

end
