(* ===== verification/Vm_Dispatch_Stale.thy ===== *)
theory Vm_Dispatch_Stale
  imports Vm_Dispatch_Run
begin

text \<open>
  What the provisos of the transparency of the caches exclude: call sites that keep a method which has been redefined, methods
  that a cache makes public, and a \<open>method_missing\<close> that is called without the name or with it once too often.
\<close>

section \<open>Call sites for fixnums\<close>

definition keeps :: "CacheExecutor \<Rightarrow> oop \<Rightarrow> oop \<Rightarrow> nat \<Rightarrow> VM \<Rightarrow> bool" where
  "keeps b x m i vm \<longleftrightarrow> i < length (inline_caches vm) \<and> execute_backend (inline_caches vm ! i) = b
     \<and> ic_method (inline_caches vm ! i) = x \<and> ic_module (inline_caches vm ! i) = m"

lemma keeps_redefine: "keeps b x m i vm \<Longrightarrow> keeps b x m i (vm_reset_method_cache (Module_add_method vm k nm exec vis) nm)"
  by (simp add: keeps_def vm_reset_method_cache_def Module_add_method_def InlineCacheRegistry_clear_def InlineCache_clear_def)

text \<open>The kind of receiver a site has been set up for, and operations that call it with no other: redefinitions, prunings of the
  global cache, calls of other sites, and calls of this one with a receiver of the kind.\<close>

definition of_kind :: "CacheExecutor \<Rightarrow> oop \<Rightarrow> bool" where
  "of_kind b recv \<longleftrightarrow> b = check_cache_fixnum \<and> FIXNUM_P recv \<or> b = check_cache_symbol \<and> SYMBOL_P recv"

definition only_kind :: "CacheExecutor \<Rightarrow> nat \<Rightarrow> vm_op \<Rightarrow> bool" where
  "only_kind b i op \<longleftrightarrow> (case op of Call j recv self fm \<Rightarrow> j \<noteq> i \<or> of_kind b recv | _ \<Rightarrow> True)"

lemma kept_hit: "keeps b x m i vm \<Longrightarrow> of_kind b recv \<Longrightarrow>
    \<exists>gc ic. InlineCache_execute G mods kd klass_of (global_cache vm) (inline_caches vm ! i) recv fm = Some (gc, ic, Execute x m False)
      \<and> execute_backend ic = b \<and> ic_method ic = x \<and> ic_module ic = m"
  by (auto simp: keeps_def of_kind_def InlineCache_execute_def cache_hit_def Let_def)

lemma keeps_step:
  assumes "keeps b x m i vm" and "only_kind b i op"
  shows "keeps b x m i (fst (vm_exec G klass_of kind vm op))"
proof (cases op)
  case (Redefine k nm exec vis)
  with keeps_redefine [OF assms(1)] show ?thesis by simp
next
  case (Prune marked)
  with assms(1) show ?thesis by (simp add: keeps_def)
next
  case (Call j recv self fm)
  show ?thesis
  proof (cases "j = i")
    case True
    then have "of_kind b recv" using assms(2) Call by (simp add: only_kind_def)
    from kept_hit [OF assms(1) this, of G "vm_modules vm" "kind self" klass_of fm] obtain gc ic where
      "InlineCache_execute G (vm_modules vm) (kind self) klass_of (global_cache vm) (inline_caches vm ! i) recv fm = Some (gc, ic, Execute x m False)"
      "execute_backend ic = b \<and> ic_method ic = x \<and> ic_module ic = m" by blast
    with assms(1) Call True show ?thesis by (simp add: keeps_def VM_call_def)
  next
    case False
    with assms(1) Call show ?thesis by (auto simp: keeps_def VM_call_def split: option.split)
  qed
qed

lemma keeps_run:
  "keeps b x m i vm \<Longrightarrow> \<forall>op\<in>set ops. only_kind b i op \<Longrightarrow> keeps b x m i (fst (run_with (vm_exec G klass_of kind) vm ops))"
proof (induction ops arbitrary: vm)
  case (Cons op ops)
  have "keeps b x m i (fst (vm_exec G klass_of kind vm op))"
    by (rule keeps_step [OF Cons.prems(1)]) (use Cons.prems(2) in simp)
  with Cons.IH Cons.prems(2) show ?case by (simp add: split_beta)
qed simp

lemma set_up_hit:
  "set_up G mods start hit filled = Some (gc, ic, Execute x m False) \<Longrightarrow>
    execute_backend ic = hit \<and> ic_method ic = x \<and> ic_module ic = m"
  by (auto simp: set_up_def split: option.splits bool.splits)

lemma set_up_missing:
  "set_up G mods start hit filled = Some (gc, ic, Execute x m True) \<Longrightarrow>
    execute_backend ic = check_cache_mm \<and> ic_method ic = x \<and> ic_module ic = m"
  by (auto simp: set_up_def split: option.splits bool.splits)

text \<open>C36. A call site that is still empty (its executor is \<open>empty_cache\<close>, that of a public call) and is called with a fixnum, which finds
  a method other than \<open>method_missing\<close>, executes this method for every fixnum it is called with afterwards, whatever
  methods are redefined in between, whatever other sites are called and however the global cache is pruned, as long as this site
  itself is called with fixnums only: a call of it with any other receiver sets it up anew. The reason is that
  InlineCacheRegistry::clear only empties klass_, which the check for fixnums does not look at. The same holds for symbols.\<close>

theorem fixnum_sites_never_change:
  assumes "i < length (inline_caches vm)" and "execute_backend (inline_caches vm ! i) = empty_cache"
    and "vm_exec G klass_of kind vm (Call i recv self fm) = (vm1, Some (Execute x m False))"
    and "b = check_cache_fixnum \<and> FIXNUM_P recv \<or> b = check_cache_symbol \<and> SYMBOL_P recv \<and> \<not> FIXNUM_P recv"
    and "\<forall>op\<in>set ops. only_kind b i op" and "of_kind b recv'"
  shows "snd (vm_exec G klass_of kind (fst (run_with (vm_exec G klass_of kind) vm1 ops)) (Call i recv' self' fm'))
    = Some (Execute x m False)"
proof -
  from assms(3) obtain gc ic where
    e: "InlineCache_execute G (vm_modules vm) (kind self) klass_of (global_cache vm) (inline_caches vm ! i) recv fm = Some (gc, ic, Execute x m False)"
    and vm1: "vm1 = vm\<lparr>global_cache := gc, inline_caches := (inline_caches vm)[i := ic]\<rparr>"
    by (auto simp: VM_call_def split: option.splits)
  have "execute_backend ic = b \<and> ic_method ic = x \<and> ic_module ic = m"
    using e assms(2,4) by (auto simp: InlineCache_execute_def empty_cache_run_def Let_def dest!: set_up_hit split: if_splits)
  with assms(1) vm1 have "keeps b x m i vm1" by (simp add: keeps_def)
  from keeps_run [OF this assms(5)] have k: "keeps b x m i (fst (run_with (vm_exec G klass_of kind) vm1 ops))" .
  let ?vm = "fst (run_with (vm_exec G klass_of kind) vm1 ops)"
  from kept_hit [OF k assms(6), of G "vm_modules ?vm" "kind self'" klass_of fm'] show ?thesis by (auto simp: VM_call_def)
qed

text \<open>Likewise a site that has come to \<open>method_missing\<close>: when \<open>method_missing\<close> is redefined, only the sites registered
  under that name are cleared.\<close>

lemma missing_sites_keep_method:
  assumes "i < length (inline_caches vm)" and "execute_backend (inline_caches vm ! i) = check_cache_mm"
    and "ic_klass (inline_caches vm ! i) = klass_of recv" and "i \<notin> set (ic_registry vm (Symbol_index (sym_method_missing G)))"
  shows "snd (vm_exec G klass_of kind (fst (vm_exec G klass_of kind vm (Redefine k (sym_method_missing G) exec vis))) (Call i recv self fm))
    = Some (Execute (ic_method (inline_caches vm ! i)) (ic_module (inline_caches vm ! i)) True)"
  using assms
  by (simp add: vm_reset_method_cache_def Module_add_method_def InlineCacheRegistry_clear_def VM_call_def
    InlineCache_execute_def cache_hit_def Let_def)

section \<open>Visibility\<close>

lemma blank_lookup: "k \<noteq> 0 \<Longrightarrow> GlobalCache_lookup (GlobalCache_clear gc) k nm = None"
  using hash_less [of k nm] by (simp add: GlobalCache_lookup_def GlobalCache_clear_def Let_def)

lemma length_blank [simp]: "length (GlobalCache_clear gc) = CPU_CACHE_SIZE"
  by (simp add: GlobalCache_clear_def)

lemma lookup_retained:
  assumes "length gc = CPU_CACHE_SIZE"
  shows "GlobalCache_lookup (GlobalCache_retain gc k nm m x missing priv) k nm =
    Some \<lparr>ce_klass = k, ce_name = nm, ce_module = m, ce_method = x, ce_is_public = (\<not> priv), ce_method_missing = missing\<rparr>"
  using assms hash_less [of k nm] by (simp add: GlobalCache_lookup_def GlobalCache_retain_def Let_def)

lemma lookup_other:
  assumes "length gc = CPU_CACHE_SIZE" and "nm' \<noteq> nm" and "GlobalCache_lookup gc k nm' = None"
  shows "GlobalCache_lookup (GlobalCache_retain gc k nm m x missing priv) k nm' = None"
  using assms hash_less [of k nm] hash_less [of k nm']
  by (cases "CPU_CACHE_HASH k nm = CPU_CACHE_HASH k nm'") (auto simp: GlobalCache_lookup_def GlobalCache_retain_def Let_def)

text \<open>C37. Two ways in which the global cache makes a method public. A class makes an inherited public method private,
  which leaves an entry without method in its table: a public call is refused, but after one private call, which keeps
  the inherited method with the visibility of the ancestor, it succeeds. And a protected method: the uncached lookup of
  Dispatch asks whether the receiver, not the caller, is of the module, which it always is, and keeps the method as
  public, so that from then on an inline cache serves it to any caller.\<close>

theorem cache_makes_public:
  assumes G: "globals_ok G" and k: "k \<noteq> 0" "ic_klass ic = k" "ic_name ic = nm"
    and chain: "ancestors mods k (k # s # ms)" "ancestors mods k' (k' # ms')" "k' \<noteq> 0" "ic_klass ic' = k'" "ic_name ic' = nm"
    and marker: "find_entry mods k nm = Some e0" "mb_method e0 = Qnil" "private_p G e0"
    and inherited: "find_entry mods s nm = Some e" "mb_method e \<noteq> Qnil" "public_p G e"
    and protected: "find_entry mods k' nm = Some e'" "mb_method e' \<noteq> Qnil" "protected_p G e'" "kind k'"
  shows "fill_public G mods any (GlobalCache_clear []) ic = Some (GlobalCache_clear [], ic, False)
    \<and> (\<exists>gc. fill_private G mods k (GlobalCache_clear []) ic = Some (gc, set_target ic (mb_method e) s, True)
         \<and> fill_public G mods any gc ic = Some (gc, set_target ic (mb_method e) s, True))
    \<and> fill_public G mods (\<lambda>_. False) (GlobalCache_clear []) ic' = Some (GlobalCache_clear [], ic', False)
    \<and> (\<exists>gc msg. GlobalCacheResolver_resolve G mods kind (GlobalCache_clear []) nm (Dispatch_new nm) k' False = Some (gc, msg, True)
         \<and> d_method msg = mb_method e'
         \<and> fill_public G mods (\<lambda>_. False) gc ic' = Some (gc, set_target ic' (mb_method e') k', True))"
proof -
  have vis: "\<not> undef_p G e0" "\<not> undef_p G e" "\<not> undef_p G e'" "\<not> private_p G e'"
    using G marker(3) inherited(3) protected(3)
    by (auto simp: globals_ok_def undef_p_def private_p_def public_p_def protected_p_def)
  have pub: "module_walk mods (fill_public_body G mods any nm) k False = Some None"
    using marker vis by (simp add: module_walk_list [OF chain(1)] fill_public_body_def)
  have pri: "module_walk mods (fill_private_body G mods nm) k () = Some (Some (e, s))"
    using marker inherited vis by (simp add: module_walk_list [OF chain(1)] fill_private_body_def)
  have prot: "module_walk mods (fill_public_body G mods (\<lambda>_. False) nm) k' False = Some None"
    using protected vis by (simp add: module_walk_list [OF chain(2)] fill_public_body_def)
  have res: "module_walk mods (hierarchy_body G mods kind nm False) k' False = Some (Some (e', k', False))"
    using protected vis by (simp add: module_walk_list [OF chain(2)] hierarchy_body_def)
  have 1: "fill_public G mods any (GlobalCache_clear []) ic = Some (GlobalCache_clear [], ic, False)"
    using k pub by (simp add: fill_public_def blank_lookup fill_walk_def)
  let ?gc = "GlobalCache_retain (GlobalCache_clear []) k nm s (mb_method e) False False"
  have 2: "fill_private G mods k (GlobalCache_clear []) ic = Some (?gc, set_target ic (mb_method e) s, True)"
    using k pri inherited(3) by (simp add: fill_private_def blank_lookup fill_walk_def)
  have 3: "fill_public G mods any ?gc ic = Some (?gc, set_target ic (mb_method e) s, True)"
    using k by (simp add: fill_public_def lookup_retained)
  have 4: "fill_public G mods (\<lambda>_. False) (GlobalCache_clear []) ic' = Some (GlobalCache_clear [], ic', False)"
    using chain(3-5) prot by (simp add: fill_public_def blank_lookup fill_walk_def)
  let ?gc' = "GlobalCache_retain (GlobalCache_clear []) k' nm k' (mb_method e') False False"
  have 5: "GlobalCacheResolver_resolve G mods kind (GlobalCache_clear []) nm (Dispatch_new nm) k' False
      = Some (?gc', (Dispatch_new nm)\<lparr>d_method := mb_method e', d_module := k'\<rparr>, True)"
    using chain(3) res
    by (simp add: GlobalCacheResolver_resolve_def HierarchyResolver_resolve_def blank_lookup Let_def) (simp add: Dispatch_new_def)
  have 6: "fill_public G mods (\<lambda>_. False) ?gc' ic' = Some (?gc', set_target ic' (mb_method e') k', True)"
    using chain(4,5) by (simp add: fill_public_def lookup_retained)
  from 1 2 3 4 5 6 show ?thesis by auto
qed

section \<open>\<open>method_missing\<close> through Dispatch\<close>

lemma hierarchy_private:
  "list_walk (hierarchy_body G mods kind nm True) ms False = map_option (\<lambda>(e, m). (e, m, private_p G e)) (private_found G mods ms nm)"
proof (induction ms)
  case (Cons m ms)
  show ?case
  proof (cases "find_entry mods m nm")
    case None
    then have "hierarchy_body G mods kind nm True m False = Inl False" "fill_private_body G mods nm m () = Inl ()"
      by (simp_all add: hierarchy_body_def fill_private_body_def)
    then show ?thesis using Cons.IH by (simp add: private_found_def)
  next
    case (Some e)
    then show ?thesis using Cons.IH
      by (simp add: private_found_def hierarchy_body_def [of G mods kind nm True m] fill_private_body_def [of G mods nm m])
  qed
qed (simp add: private_found_def)

lemma hierarchy_none:
  assumes "\<forall>m\<in>set ms. find_entry mods m nm = None"
  shows "list_walk (hierarchy_body G mods kind nm priv) ms s = None"
  using assms
proof (induction ms)
  case (Cons m ms)
  then have "hierarchy_body G mods kind nm priv m s = Inl s" by (simp add: hierarchy_body_def)
  with Cons show ?case by simp
qed simp

text \<open>Dispatch::send takes the flag that tells method_missing from an ordinary method out of the global cache. So after
  method_missing has been called by its name, the next call of an undefined method executes it as an ordinary method,
  without the name in front of the arguments; and after a call of an undefined method, an explicit call of
  method_missing gets its own name in front of them.\<close>

theorem dispatch_confuses_missing:
  assumes chain: "ancestors mods k ms" "k \<noteq> 0" and mm: "private_found G mods ms (sym_method_missing G) = Some (b, m)"
    and nm: "\<forall>m\<in>set ms. find_entry mods m nm = None" "nm \<noteq> sym_method_missing G"
  shows "\<exists>gc1 gc2 gc3 gc4.
      Dispatch_send G mods kind (GlobalCache_clear []) (sym_method_missing G) k True = Some (gc1, Execute (mb_method b) m False)
    \<and> Dispatch_send G mods kind gc1 nm k priv = Some (gc2, Execute (mb_method b) m False)
    \<and> Dispatch_send G mods kind (GlobalCache_clear []) nm k priv = Some (gc3, Execute (mb_method b) m True)
    \<and> Dispatch_send G mods kind gc3 (sym_method_missing G) k True = Some (gc4, Execute (mb_method b) m True)"
proof -
  let ?mm = "sym_method_missing G" and ?blank = "GlobalCache_clear []"
  let ?gc = "\<lambda>missing. GlobalCache_retain ?blank k ?mm m (mb_method b) missing (private_p G b)"
  have found: "HierarchyResolver_resolve G mods kind ?mm True k = Some (Some (b, m, private_p G b))"
    by (simp add: HierarchyResolver_resolve_def module_walk_list [OF chain(1)] hierarchy_private mm)
  have none: "HierarchyResolver_resolve G mods kind nm priv k = Some None"
    by (simp add: HierarchyResolver_resolve_def module_walk_list [OF chain(1)] hierarchy_none [OF nm(1)])
  note blank = blank_lookup [OF chain(2)]
  have other: "GlobalCache_lookup (?gc missing) k nm = None" for missing
    by (rule lookup_other) (simp_all add: nm(2) blank)
  have "Dispatch_send G mods kind ?blank ?mm k True = Some (?gc False, Execute (mb_method b) m False)"
    by (simp add: Dispatch_send_def GlobalCacheResolver_resolve_def found blank Let_def Dispatch_new_def)
  moreover have "Dispatch_send G mods kind (?gc False) nm k priv = Some (?gc False, Execute (mb_method b) m False)"
    by (simp add: Dispatch_send_def GlobalCacheResolver_resolve_def none other lookup_retained Let_def Dispatch_new_def)
  moreover have "Dispatch_send G mods kind ?blank nm k priv = Some (?gc True, Execute (mb_method b) m True)"
    by (simp add: Dispatch_send_def GlobalCacheResolver_resolve_def none found blank Let_def Dispatch_new_def)
  moreover have "Dispatch_send G mods kind (?gc True) ?mm k True = Some (?gc True, Execute (mb_method b) m True)"
    by (simp add: Dispatch_send_def GlobalCacheResolver_resolve_def lookup_retained Let_def Dispatch_new_def)
  ultimately show ?thesis by blast
qed

section \<open>Examples\<close>

lemma sample_find: "find_entry (store_method empty_modules 8 38 800 6) m nm =
    (if m = 8 \<and> nm = 38 then Some (MethodTableBucket_create 38 800 6) else None)"
  using store_find_n [OF empty_modules_tables] by (simp add: empty_modules_find)

lemma sample_ancestors: "ancestors (store_method empty_modules 8 nm x vis) k [k]"
  by (rule one_ancestor) (simp add: empty_modules_def)

theorem dispatch_confuses_missing_witness:
  "\<exists>gc1 gc2. Dispatch_send sample_globals (store_method empty_modules 8 38 800 6) (\<lambda>_. True) (GlobalCache_clear []) 38 8 True
      = Some (gc1, Execute 800 8 False)
    \<and> Dispatch_send sample_globals (store_method empty_modules 8 38 800 6) (\<lambda>_. True) gc1 46 8 True = Some (gc2, Execute 800 8 False)"
proof -
  have "private_found sample_globals (store_method empty_modules 8 38 800 6) [8] (sym_method_missing sample_globals) = Some (MethodTableBucket_create 38 800 6, 8)"
    by (simp add: private_found_def fill_private_body_def sample_find sample_globals_def undef_p_def MethodTableBucket_create_def Qnil_def)
  from dispatch_confuses_missing [OF sample_ancestors _ this, of 46 "\<lambda>_. True" True] show ?thesis
    by (auto simp: sample_find sample_globals_def MethodTableBucket_create_def)
qed

definition fixnum_vm :: VM where
  "fixnum_vm = \<lparr>vm_modules = store_method empty_modules 8 46 808 6, global_cache = GlobalCache_clear [],
     inline_caches = [InlineCache_new 46 empty_cache], ic_registry = (\<lambda>_. [0])\<rparr>"

theorem fixnum_sites_never_change_witness:
  "\<exists>vm1. vm_exec sample_globals (\<lambda>_. 8) (\<lambda>_ _. True) fixnum_vm (Call 0 3 3 8) = (vm1, Some (Execute 808 8 False))
    \<and> snd (vm_exec sample_globals (\<lambda>_. 8) (\<lambda>_ _. True)
        (fst (run_with (vm_exec sample_globals (\<lambda>_. 8) (\<lambda>_ _. True)) vm1 [Redefine 8 46 816 6, Call 0 7 7 8, Prune (\<lambda>_. False)])) (Call 0 5 5 8))
      = Some (Execute 808 8 False)"
proof -
  let ?exec = "vm_exec sample_globals (\<lambda>_. 8) (\<lambda>_ _. True)"
  have find: "find_entry (store_method empty_modules 8 46 808 6) m nm =
      (if m = 8 \<and> nm = 46 then Some (MethodTableBucket_create 46 808 6) else None)" for m nm
    using store_find_n [OF empty_modules_tables] by (simp add: empty_modules_find)
  have "snd (?exec fixnum_vm (Call 0 3 3 8)) = Some (Execute 808 8 False)"
    by (simp add: fixnum_vm_def VM_call_def InlineCache_execute_def InlineCache_new_def empty_cache_run_def fill_public_def blank_lookup
      module_walk_list [OF sample_ancestors] fill_public_body_def find fill_walk_def set_up_def sample_globals_def undef_p_def private_p_def
      protected_p_def MethodTableBucket_create_def Qnil_def Let_def)
  then obtain vm1 where vm1: "?exec fixnum_vm (Call 0 3 3 8) = (vm1, Some (Execute 808 8 False))" by (metis prod.collapse)
  from fixnum_sites_never_change [OF _ _ this, of check_cache_fixnum "[Redefine 8 46 816 6, Call 0 7 7 8, Prune (\<lambda>_. False)]" 5 5 8] vm1
  show ?thesis by (simp add: fixnum_vm_def InlineCache_new_def only_kind_def of_kind_def FIXNUM_P_def)
qed

text \<open>Class 8 below class 16, which defines the public method 808 that class 8 makes private; class 24 with a protected
  method.\<close>

definition two_classes :: modules where
  "two_classes = (\<lambda>m. (empty_modules m)\<lparr>superclass := (if m = 8 then 16 else Qnil)\<rparr>)"

definition visibility_modules :: modules where
  "visibility_modules = store_method (store_method (store_method two_classes 8 46 Qnil 14) 16 46 808 6) 24 46 816 22"

lemma visibility_find:
  "find_entry visibility_modules 8 46 = Some (MethodTableBucket_create 46 Qnil 14)"
  "find_entry visibility_modules 16 46 = Some (MethodTableBucket_create 46 808 6)"
  "find_entry visibility_modules 24 46 = Some (MethodTableBucket_create 46 816 22)"
proof -
  have t: "tables_ok (2 ^ 28) two_classes"
    using empty_modules_tables by (simp add: tables_ok_def two_classes_def)
  have t1: "tables_ok (2 ^ 28 - 1) (store_method two_classes 8 46 Qnil 14)" by (rule tables_ok_store_n [OF t]) simp
  have t2: "tables_ok (2 ^ 28 - 1 - 1) (store_method (store_method two_classes 8 46 Qnil 14) 16 46 808 6)"
    by (rule tables_ok_store_n [OF t1]) simp
  note find = store_find_n [OF t] store_find_n [OF t1] store_find_n [OF t2]
  show "find_entry visibility_modules 8 46 = Some (MethodTableBucket_create 46 Qnil 14)"
    "find_entry visibility_modules 16 46 = Some (MethodTableBucket_create 46 808 6)"
    "find_entry visibility_modules 24 46 = Some (MethodTableBucket_create 46 816 22)"
    by (simp_all add: visibility_modules_def find)
qed

theorem cache_makes_public_witness:
  "\<exists>gc ic. fill_public sample_globals visibility_modules (\<lambda>_. True) (GlobalCache_clear []) ((InlineCache_new 46 empty_cache)\<lparr>ic_klass := 8\<rparr>)
      = Some (GlobalCache_clear [], (InlineCache_new 46 empty_cache)\<lparr>ic_klass := 8\<rparr>, False)
    \<and> fill_public sample_globals visibility_modules (\<lambda>_. True) gc ((InlineCache_new 46 empty_cache)\<lparr>ic_klass := 8\<rparr>) = Some (gc, ic, True)"
proof -
  let ?ic = "\<lambda>k. (InlineCache_new 46 empty_cache)\<lparr>ic_klass := k\<rparr>"
  have super: "superclass (visibility_modules m) = (if m = 8 then 16 else Qnil)" for m
    by (simp add: visibility_modules_def two_classes_def)
  have c16: "ancestors visibility_modules 16 [16]" by (rule ancestors.last) (simp add: super)
  have "superclass (visibility_modules 8) \<noteq> Qnil" by (simp add: super Qnil_def)
  then have c8: "ancestors visibility_modules 8 [8, 16]" using c16 by (intro ancestors.up) (simp_all add: super)
  have c24: "ancestors visibility_modules 24 [24]" by (rule ancestors.last) (simp add: super)
  have G: "globals_ok sample_globals" by (simp add: globals_ok_def sample_globals_def)
  from cache_makes_public [OF G _ _ _ c8 c24 _ _ _ visibility_find(1) _ _ visibility_find(2) _ _ visibility_find(3), of "?ic 8" "?ic 24" "\<lambda>_. True" "\<lambda>_. True"]
  show ?thesis
    by (simp add: InlineCache_new_def MethodTableBucket_create_def private_p_def public_p_def protected_p_def sample_globals_def Qnil_def) blast
qed

section \<open>Checking serial numbers\<close>

lemma fill_public_frame:
  "fill_public G mods kind gc ic = Some (gc', ic', found) \<Longrightarrow> ic_klass ic' = ic_klass ic \<and> (found \<or> ic' = ic)"
  by (auto simp: fill_public_def fill_walk_def set_target_def split: option.splits if_splits)

text \<open>An inline cache whose search failed in \<open>check_serial\<close> has taken the class of the receiver but keeps the
  method it had: the same check for the same receiver then succeeds with that method, and when there was none it
  dereferences a null pointer.\<close>

theorem failed_validation_sticks:
  assumes "update_and_validate G mods kind klass_of gc ic recv = Some (gc', ic', False)"
  shows "rbx_check_serial G mods kind klass_of serial_of gc ic serial recv = Some (gc', ic', Some Qfalse) \<and>
    rbx_check_serial G mods kind klass_of serial_of gc' ic' serial recv =
      Some (gc', ic', if ic_method ic = 0 then None else Some (if serial_of (ic_method ic) = serial then Qtrue else Qfalse))"
proof -
  from assms have "fill_public G mods kind gc (ic\<lparr>ic_klass := klass_of recv\<rparr>) = Some (gc', ic', False)"
    by (auto simp: update_and_validate_def validate_def split: option.splits if_splits bool.splits)
  then have "ic' = ic\<lparr>ic_klass := klass_of recv\<rparr>" by (auto dest: fill_public_frame)
  then show ?thesis
    using assms by (simp add: rbx_check_serial_def check_serial_answer_def update_and_validate_def validate_def)
qed

text \<open>No module has a method here: the first check answers false, the second one crashes.\<close>

theorem failed_validation_sticks_witness:
  "let check = \<lambda>gc ic. rbx_check_serial sample_globals empty_modules (\<lambda>_. True) (\<lambda>_. 8) (\<lambda>_. 0) gc ic 0 16
   in \<exists>gc ic. check (GlobalCache_clear []) (InlineCache_new 46 empty_cache) = Some (gc, ic, Some Qfalse) \<and> check gc ic = Some (gc, ic, None)"
proof -
  let ?ic = "(InlineCache_new 46 empty_cache)\<lparr>ic_klass := 8\<rparr>"
  have anc: "ancestors empty_modules 8 [8]" by (rule ancestors.last) (simp add: empty_modules_def)
  have gone: "GlobalCache_lookup (GlobalCache_clear []) 8 46 = None"
    by (simp add: GlobalCache_lookup_def GlobalCache_clear_def CPU_CACHE_SIZE_def CPU_CACHE_HASH_def CPU_CACHE_MASK_def Let_def)
  have "update_and_validate sample_globals empty_modules (\<lambda>_. True) (\<lambda>_. 8) (GlobalCache_clear []) (InlineCache_new 46 empty_cache) 16 =
      Some (GlobalCache_clear [], ?ic, False)"
    by (simp add: update_and_validate_def validate_def fill_public_def gone module_walk_list [OF anc] fill_public_body_def empty_modules_find fill_walk_def
        InlineCache_new_def)
  from failed_validation_sticks [OF this, of "\<lambda>_. 0" 0] show ?thesis by (simp add: InlineCache_new_def)
qed

end
