(* ===== verification/Vm_Marshal.thy ===== *)
theory Vm_Marshal
  imports Vm_Symbols Vm_Integer_Laws
begin

text \<open>
  The format of compiled files: the reader of the virtual machine, \<open>UnMarshaller\<close> (\<open>vm/marshal.cpp\<close>), and the
  writer of the compiler, \<open>CompiledFile::Marshal\<close> (\<open>kernel/compiler/compiled_file.rb\<close>). A reader takes the symbol
  table and the bytes left in the stream to its result; \<open>None\<close> says that it does not return. Of a float only the line
  that holds it is kept, its conversion belongs to the C library. The calls of \<open>post_marshal\<close> are not
  modelled.
\<close>

section \<open>Readers\<close>

datatype unmarshal_failure = Raised vm_error | StackOverrun

type_synonym stream_state = "SymbolTable \<times> u8 list"
type_synonym 'a reader = "stream_state \<Rightarrow> (unmarshal_failure + 'a \<times> stream_state) option"

definition returns :: "'a \<Rightarrow> 'a reader" where "returns a s = Some (Inr (a, s))"
definition raises :: "unmarshal_failure \<Rightarrow> 'a reader" where "raises e s = Some (Inl e)"

definition rbind :: "'a reader \<Rightarrow> ('a \<Rightarrow> 'b reader) \<Rightarrow> 'b reader" where
  "rbind m f s =
     (case m s of None \<Rightarrow> None | Some (Inl e) \<Rightarrow> Some (Inl e) | Some (Inr (a, s)) \<Rightarrow> f a s)"

primrec repeat_read :: "nat \<Rightarrow> 'a reader \<Rightarrow> 'a list reader" where
  "repeat_read 0 m = returns []"
| "repeat_read (Suc n) m = rbind m (\<lambda>x. rbind (repeat_read n m) (\<lambda>xs. returns (x # xs)))"

text \<open>\<open>stream.get()\<close> answers EOF, which is -1, at the end of the stream, as often as it is called.\<close>

fun get_byte :: "u8 list \<Rightarrow> int \<times> u8 list" where
  "get_byte [] = (- 1, [])"
| "get_byte (b # s) = (uint b, s)"

definition stream_get :: "int reader" where
  "stream_get s = (case s of (t, bytes) \<Rightarrow> case get_byte bytes of (c, bytes) \<Rightarrow> Some (Inr (c, (t, bytes))))"

section \<open>Integers of variable length\<close>

text \<open>\<open>byte & ~128\<close>.\<close>

definition seven_bits :: "'a :: len word \<Rightarrow> 'a word" where "seven_bits byte = byte AND NOT 128"

text \<open>At most \<open>sizeof(long)\<close> bytes; the flag says whether the last one has been read.\<close>

primrec varint_loop :: "nat \<Rightarrow> nat \<Rightarrow> u64 \<Rightarrow> (u64 \<times> bool) reader" where
  "varint_loop 0 shift val = returns (val, False)"
| "varint_loop (Suc n) shift val = rbind stream_get (\<lambda>c.
     let byte = word_of_int c; val = val + push_bit shift (seven_bits byte)
     in if byte < 128 then returns (val, True) else varint_loop n (shift + 7) val)"

definition get_varint_done :: "(u64 \<times> bool) reader" where "get_varint_done = varint_loop 8 0 0"

definition get_varint :: "u64 reader" where
  "get_varint = rbind get_varint_done (\<lambda>(val, finished). if finished then returns val else raises (Raised TypeError))"

definition Bignum_from_mp :: "int \<Rightarrow> Integer" where
  "Bignum_from_mp num =
     (if mp_count_bits num \<le> FIXNUM_WIDTH
      then Fixnum (Fixnum_from (native (if num < 0 then - mp_get_long num else mp_get_long num))) else Bignum num)"

definition Integer_from_ulong :: "u64 \<Rightarrow> Integer" where
  "Integer_from_ulong num =
     (if uint num > FIXNUM_MAX then Bignum (uint num) else Fixnum (APPLY_FIXNUM_TAG (native (uint num))))"

partial_function (option) bignum_loop :: "nat \<Rightarrow> int \<Rightarrow> u8 list \<Rightarrow> (int \<times> u8 list) option" where
  "bignum_loop shift val s =
     (case get_byte s of (c, s) \<Rightarrow>
        let byte = word_of_int c :: u32; val = mp_mul_2d (uint (seven_bits byte)) shift + val
        in if byte < 128 then Some (val, s) else bignum_loop (shift + 7) val s)"

declare bignum_loop.simps [simp del]

text \<open>\<open>mp_set_int\<close> takes 32 bits: the first eight bytes are set in two parts.\<close>

definition set_int_parts :: "u64 \<Rightarrow> int" where
  "set_int_parts val = mp_mul_2d (uint (take_bit 32 (drop_bit 32 val))) 32 + uint (take_bit 32 val)"

definition get_positive_varint :: "Integer reader" where
  "get_positive_varint = rbind get_varint_done (\<lambda>(val, finished) (t, s).
     if finished then Some (Inr (Integer_from_ulong val, (t, s)))
     else case bignum_loop (8 * 7) (set_int_parts val) s of
            None \<Rightarrow> None
          | Some (n, s) \<Rightarrow> Some (Inr (Bignum_from_mp n, (t, s))))"

definition get_negative_varint :: "Integer reader" where
  "get_negative_varint = rbind get_positive_varint (\<lambda>result.
     returns (case result of Bignum n \<Rightarrow> Bignum (- n) | Fixnum fix \<Rightarrow> Fixnum (Fixnum_neg fix)))"

section \<open>Strings, symbols and floats\<close>

text \<open>A string is created with zeros in it; what the stream has no bytes for stays zero.\<close>

definition get_string :: "u8 list reader" where
  "get_string = rbind get_varint (\<lambda>count (t, s).
     Some (Inr (put_at (replicate (unat count) 0) 0 (take (unat count) s), (t, drop (unat count) s))))"

text \<open>The name of a symbol is read into \<open>data\<close>, 1024 bytes on the stack, whose contents so far are \<open>raw\<close>; the zero
  behind it is written without a test.\<close>

definition get_symbol :: "u8 list \<Rightarrow> oop reader" where
  "get_symbol raw = rbind get_varint (\<lambda>count (t, s).
     if unat count \<ge> 1024 then Some (Inl StackOverrun)
     else let data = put_at raw 0 (take (unat count) s);
              str = takeWhile (\<lambda>b. b \<noteq> 0) (take (unat count) data)
          in case SymbolTable_lookup_checked t str of
               (t, Inl e) \<Rightarrow> Some (Inl (Raised e))
             | (t, Inr sy) \<Rightarrow> Some (Inr (sy, (t, drop (unat count) s))))"

datatype Float_text = Scaled "u8 list" | Infinite bool | NaN

definition starts_with :: "u8 list \<Rightarrow> u8 list \<Rightarrow> bool" where
  "starts_with text line \<longleftrightarrow> map (\<lambda>c. if 65 \<le> c \<and> c \<le> 90 then c + 32 else c) (take (length text) line) = text"

text \<open>\<open>getline\<close> fails when it finds neither a byte nor the end of a line, or more than 1023 bytes before it. The
  texts are infinity, -infinity and nan.\<close>

definition float_text :: "u8 list \<Rightarrow> Float_text option" where
  "float_text line =
     (if starts_with [32] line then Some (Scaled line)
      else if starts_with [105, 110, 102, 105, 110, 105, 116, 121] line then Some (Infinite False)
      else if starts_with [45, 105, 110, 102, 105, 110, 105, 116, 121] line then Some (Infinite True)
      else if starts_with [110, 97, 110] line then Some NaN
      else None)"

definition get_float :: "Float_text reader" where
  "get_float s = (case s of (t, bytes) \<Rightarrow>
     let line = takeWhile (\<lambda>b. b \<noteq> 10) bytes
     in if bytes = [] \<or> length line > 1023 then Some (Inl (Raised TypeError))
        else case float_text line of None \<Rightarrow> Some (Inl (Raised TypeError))
             | Some f \<Rightarrow> Some (Inr (f, (t, drop (length line + 1) bytes))))"

section \<open>Objects\<close>

text \<open>A compiled method is the list of its fourteen slots, in the order in which they are read: ivars, primitive, name,
  iseq, stack size, local count, required and total arguments, splat, literals, exceptions, lines, file and local
  names.\<close>

datatype Obj = Immediate oop | AnInteger Integer | AString "u8 list" | ASymbol oop | ASendSite oop | ATuple "Obj list"
  | AFloat Float_text | AnISeq "oop list" | ACompiledMethod "Obj list"

definition get_iseq :: "oop list reader" where
  "get_iseq = rbind get_varint (\<lambda>count. repeat_read (unat count) (rbind get_varint (\<lambda>op. returns (Fixnum_from (uint op)))))"

text \<open>The version of a compiled method is read and not looked at.\<close>

definition get_tuple :: "'a reader \<Rightarrow> 'a list reader" where
  "get_tuple m = rbind get_varint (\<lambda>count. repeat_read (unat count) m)"

definition get_cmethod :: "'a reader \<Rightarrow> 'a list reader" where
  "get_cmethod m = rbind get_varint (\<lambda>version. repeat_read 14 m)"

definition as_obj :: "('a \<Rightarrow> Obj) \<Rightarrow> 'a reader \<Rightarrow> Obj reader" where
  "as_obj f m = rbind m (\<lambda>x. returns (f x))"

text \<open>The nesting is bounded by the fuel; the codes are the characters n t f I J s x S p d i M.\<close>

primrec unmarshal :: "nat \<Rightarrow> u8 list \<Rightarrow> Obj reader" where
  "unmarshal 0 raw = (\<lambda>s. None)"
| "unmarshal (Suc fuel) raw = rbind stream_get (\<lambda>c. let code = word_of_int c :: u8 in
     if code = 110 then returns (Immediate Qnil)
     else if code = 116 then returns (Immediate Qtrue)
     else if code = 102 then returns (Immediate Qfalse)
     else if code = 73 then as_obj AnInteger get_positive_varint
     else if code = 74 then as_obj AnInteger get_negative_varint
     else if code = 115 then as_obj AString get_string
     else if code = 120 then as_obj ASymbol (get_symbol raw)
     else if code = 83 then as_obj ASendSite (get_symbol raw)
     else if code = 112 then as_obj ATuple (get_tuple (unmarshal fuel raw))
     else if code = 100 then as_obj AFloat get_float
     else if code = 105 then as_obj AnISeq get_iseq
     else if code = 77 then as_obj ACompiledMethod (get_cmethod (unmarshal fuel raw))
     else raises (Raised TypeError))"

section \<open>The writer\<close>

text \<open>What a compiled file holds, with names for symbols and the formatted text of a float.\<close>

datatype val = Nil_val | True_val | False_val | Int_val int | String_val "u8 list" | Symbol_val "u8 list" | SendSite_val "u8 list"
  | Tuple_val "val list" | Float_val "u8 list" | ISeq_val "nat list" | Method_val "val list"

fun varint_bytes :: "nat \<Rightarrow> u8 list" where
  "varint_bytes v = (if v = 0 then [] else (word_of_nat (v mod 128) OR (if v > 127 then 128 else 0)) # varint_bytes (v div 128))"

declare varint_bytes.simps [simp del]

definition to_varint :: "nat \<Rightarrow> u8 list" where
  "to_varint v = (if v = 0 then [0] else varint_bytes v)"

fun marshal :: "val \<Rightarrow> u8 list" where
  "marshal Nil_val = [110]"
| "marshal True_val = [116]"
| "marshal False_val = [102]"
| "marshal (Int_val n) = (if n < 0 then 74 # to_varint (nat (- n)) else 73 # to_varint (nat n))"
| "marshal (String_val s) = 115 # to_varint (length s) @ s"
| "marshal (Symbol_val s) = 120 # to_varint (length s) @ s"
| "marshal (SendSite_val s) = 83 # to_varint (length s) @ s"
| "marshal (Tuple_val vs) = 112 # to_varint (length vs) @ concat (map marshal vs)"
| "marshal (Float_val line) = 100 # line @ [10]"
| "marshal (ISeq_val ops) = 105 # to_varint (length ops) @ concat (map to_varint ops)"
| "marshal (Method_val vs) = 77 # to_varint 1 @ concat (map marshal vs)"

end
