(* ===== verification/Vm_Marshal_Run.thy ===== *)
theory Vm_Marshal_Run
  imports Vm_Marshal
begin

text \<open>
  What \<open>marshal\<close> writes, \<open>unmarshal\<close> reads back, whatever follows in the stream; what the reader does with
  files that no writer has produced is shown at the end.
\<close>

section \<open>Bytes of variable length integers\<close>

lemma get_byte_uint [simp]: "get_byte (b # s) = (uint b, s)"
  by simp

lemma stream_get_simps [simp]: "stream_get (t, b # s) = Some (Inr (uint b, (t, s)))" "stream_get (t, []) = Some (Inr (- 1, (t, [])))"
  by (simp_all add: stream_get_def)

lemma rbind_simps [simp]:
  "m s = Some (Inr (a, s')) \<Longrightarrow> rbind m f s = f a s'"
  "m s = Some (Inl e) \<Longrightarrow> rbind m f s = Some (Inl e)"
  "m s = None \<Longrightarrow> rbind m f s = None"
  by (simp_all add: rbind_def)

lemma returns_simp [simp]: "returns a s = Some (Inr (a, s))" by (simp add: returns_def)
lemma raises_simp [simp]: "raises e s = Some (Inl e)" by (simp add: raises_def)

lemma as_obj_simps [simp]:
  "m s = Some (Inr (a, s')) \<Longrightarrow> as_obj f m s = Some (Inr (f a, s'))"
  "m s = None \<Longrightarrow> as_obj f m s = None"
  "m s = Some (Inl e) \<Longrightarrow> as_obj f m s = Some (Inl e)"
  by (simp_all add: as_obj_def)

lemma clear_bit_mod: "0 \<le> c \<Longrightarrow> c < 2 ^ Suc k \<Longrightarrow> (word_of_int c :: 'a :: len word) AND NOT (2 ^ k) = word_of_int (take_bit k c)"
proof (rule bit_word_eqI)
  fix n assume c: "0 \<le> c" "c < 2 ^ Suc k" and n: "n < LENGTH('a)"
  from c have "take_bit (Suc k) c = c" by (simp add: take_bit_int_eq_self)
  then have "bit c n \<Longrightarrow> n \<le> k" by (metis bit_take_bit_iff less_Suc_eq_le)
  then show "bit ((word_of_int c :: 'a word) AND NOT (2 ^ k)) n = bit (word_of_int (take_bit k c) :: 'a word) n"
    using n by (auto simp: bit_and_iff bit_not_iff bit_exp_iff bit_word_of_int_iff bit_take_bit_iff)
qed

lemma seven_bits_mod: "0 \<le> c \<Longrightarrow> c < 256 \<Longrightarrow> seven_bits (word_of_int c) = word_of_int (c mod 128)"
  using clear_bit_mod [of c 7] by (simp add: seven_bits_def take_bit_eq_mod)

lemma or_128: "k < 128 \<Longrightarrow> uint ((word_of_nat k :: u8) OR 128) = int k + 128"
proof -
  assume k: "k < 128"
  have "bit (int k) n \<Longrightarrow> n < 7" for n
  proof -
    assume b: "bit (int k) n"
    from k have "int k < 2 ^ 7" by simp
    then have "take_bit 7 (int k) = int k" by (simp add: take_bit_int_eq_self)
    then have "bit (take_bit 7 (int k)) n" using b by simp
    then show "n < 7" by (simp add: bit_take_bit_iff)
  qed
  then have "int k AND 2 ^ 7 = 0" by (intro bit_eqI) (auto simp: bit_and_iff bit_exp_iff simp del: power_numeral)
  then have "int k OR 128 = int k + 128" using disjunctive_add_eq_or [of "int k" 128] by simp
  moreover have "uint ((word_of_nat k :: u8) OR 128) = uint (word_of_nat k :: u8) OR uint (128 :: u8)" by (rule uint_or)
  moreover have "uint (word_of_nat k :: u8) = int k" using k by (simp add: unsigned_of_nat take_bit_nat_eq_self)
  ultimately show ?thesis by simp
qed

definition varint_byte :: "nat \<Rightarrow> int" where "varint_byte v = int (v mod 128) + (if v > 127 then 128 else 0)"

lemma varint_bytes_Cons:
  "0 < v \<Longrightarrow> \<exists>b. varint_bytes v = b # varint_bytes (v div 128) \<and> uint b = varint_byte v"
proof -
  assume "0 < v"
  then have "varint_bytes v = (word_of_nat (v mod 128) OR (if v > 127 then 128 else 0)) # varint_bytes (v div 128)"
    by (subst varint_bytes.simps) simp
  moreover have "uint (word_of_nat (v mod 128) OR (if v > 127 then 128 else 0) :: u8) = varint_byte v"
  proof (cases "v > 127")
    case True
    then show ?thesis using or_128 [of "v mod 128"] by (simp add: varint_byte_def)
  next
    case False
    then show ?thesis by (simp add: varint_byte_def unsigned_of_nat take_bit_nat_eq_self)
  qed
  ultimately show ?thesis by blast
qed

lemma varint_byte_range: "0 \<le> varint_byte v" "varint_byte v < 256" "varint_byte v mod 128 = int (v mod 128)"
  "varint_byte v < 128 \<longleftrightarrow> v < 128"
proof -
  have "v mod 128 < 128" by simp
  then show "0 \<le> varint_byte v" "varint_byte v < 256" by (simp_all add: varint_byte_def)
  show "varint_byte v mod 128 = int (v mod 128)" by (simp add: varint_byte_def zmod_int)
  show "varint_byte v < 128 \<longleftrightarrow> v < 128" by (simp add: varint_byte_def)
qed

lemma varint_word:
  "seven_bits (word_of_int (varint_byte v) :: 'a :: len word) = word_of_nat (v mod 128)"
  "7 < LENGTH('a) \<Longrightarrow> (word_of_int (varint_byte v) :: 'a :: len word) < 128 \<longleftrightarrow> v < 128"
proof -
  show "seven_bits (word_of_int (varint_byte v) :: 'a word) = word_of_nat (v mod 128)"
    by (simp add: seven_bits_mod varint_byte_range)
  assume l: "7 < LENGTH('a)"
  then have "(2 :: int) ^ 8 \<le> 2 ^ LENGTH('a)" by (intro power_increasing) simp_all
  then have "uint (word_of_int (varint_byte v) :: 'a word) = varint_byte v" "uint (128 :: 'a word) = 128"
    using varint_byte_range [of v] by (simp_all add: uint_word_of_int unsigned_numeral take_bit_int_eq_self)
  then show "(word_of_int (varint_byte v) :: 'a word) < 128 \<longleftrightarrow> v < 128"
    by (simp add: word_less_def varint_byte_range)
qed

lemma varint_step:
  fixes v :: nat
  assumes "0 < v"
  obtains b where "varint_bytes v = b # varint_bytes (v div 128)" "seven_bits (ucast b :: u64) = word_of_nat (v mod 128)"
    "(ucast b :: u64) < 128 \<longleftrightarrow> v < 128" "uint (seven_bits (ucast b :: u32)) = int (v mod 128)"
    "(ucast b :: u32) < 128 \<longleftrightarrow> v < 128"
proof -
  obtain b where b: "varint_bytes v = b # varint_bytes (v div 128)" "uint b = varint_byte v"
    using varint_bytes_Cons [OF assms] by blast
  have "v mod 128 < 128" by simp
  then have "v mod 128 < 2 ^ 32" by (rule less_trans) simp
  then have "uint (word_of_nat (v mod 128) :: u32) = int (v mod 128)" by (simp add: unsigned_of_nat take_bit_nat_eq_self)
  moreover have "(ucast b :: u64) = word_of_int (varint_byte v)" "(ucast b :: u32) = word_of_int (varint_byte v)"
    by (simp_all flip: b(2))
  ultimately show thesis using that [OF b(1)] by (simp add: varint_word)
qed

lemma varint_loop_short:
  assumes "0 < v" and "v < 128 ^ n"
  shows "varint_loop n shift val (t, varint_bytes v @ after) = Some (Inr ((val + push_bit shift (word_of_nat v), True), (t, after)))"
  using assms
proof (induction n arbitrary: v shift val)
  case (Suc n)
  from Suc.prems(1) obtain b where b: "varint_bytes v = b # varint_bytes (v div 128)"
    "seven_bits (ucast b :: u64) = word_of_nat (v mod 128)" "(ucast b :: u64) < 128 \<longleftrightarrow> v < 128"
    by (rule varint_step)
  show ?case
  proof (cases "v < 128")
    case True
    then have "varint_bytes (v div 128) = []" by (subst varint_bytes.simps) simp
    with True b show ?thesis by simp
  next
    case False
    then have "0 < v div 128" by (simp add: div_greater_zero_iff)
    moreover have "v div 128 < 128 ^ n" using Suc.prems(2) by (simp add: less_mult_imp_div_less mult.commute)
    ultimately have IH: "varint_loop n (shift + 7) (val + push_bit shift (word_of_nat (v mod 128))) (t, varint_bytes (v div 128) @ after)
        = Some (Inr ((val + push_bit shift (word_of_nat (v mod 128)) + push_bit (shift + 7) (word_of_nat (v div 128)), True), (t, after)))"
      by (rule Suc.IH)
    have "push_bit shift (word_of_nat (v mod 128) :: u64) + push_bit (shift + 7) (word_of_nat (v div 128))
        = push_bit shift (word_of_nat (v mod 128) + 128 * word_of_nat (v div 128))"
      by (simp add: push_bit_eq_mult power_add algebra_simps)
    also have "(word_of_nat (v mod 128) + 128 * word_of_nat (v div 128) :: u64) = word_of_nat (v mod 128 + 128 * (v div 128))"
      by (simp only: of_nat_add of_nat_mult) simp
    also have "v mod 128 + 128 * (v div 128) = v" by simp
    finally show ?thesis using IH b False by (simp add: Let_def add.assoc)
  qed
qed simp

text \<open>A longer integer leaves the loop after \<open>n\<close> bytes.\<close>

lemma varint_loop_prefix:
  assumes "128 ^ n \<le> v"
  shows "\<exists>pre. length pre = n \<and> varint_bytes v = pre @ varint_bytes (v div 128 ^ n) \<and>
    (\<forall>shift val t after. varint_loop n shift val (t, pre @ after) =
       Some (Inr ((val + push_bit shift (word_of_nat (v mod 128 ^ n)), False), (t, after))))"
  using assms
proof (induction n arbitrary: v)
  case (Suc n)
  have "(1 :: nat) \<le> 128 ^ n" by simp
  then have "128 * (1 :: nat) \<le> 128 * 128 ^ n" by (rule mult_le_mono2)
  also have "128 * 128 ^ n \<le> v" using Suc.prems by simp
  finally have v: "128 \<le> v" by simp
  then have "0 < v" by simp
  then obtain b where b: "varint_bytes v = b # varint_bytes (v div 128)"
    "seven_bits (ucast b :: u64) = word_of_nat (v mod 128)" "(ucast b :: u64) < 128 \<longleftrightarrow> v < 128"
    by (rule varint_step)
  have "128 ^ n \<le> v div 128" using Suc.prems by (simp add: less_eq_div_iff_mult_less_eq mult.commute)
  from Suc.IH [OF this] obtain pre where pre: "length pre = n" "varint_bytes (v div 128) = pre @ varint_bytes (v div 128 div 128 ^ n)"
    "\<And>shift val t after. varint_loop n shift val (t, pre @ after) =
       Some (Inr ((val + push_bit shift (word_of_nat (v div 128 mod 128 ^ n)), False), (t, after)))" by blast
  have sum: "push_bit shift (word_of_nat (v mod 128) :: u64) + push_bit (shift + 7) (word_of_nat (v div 128 mod 128 ^ n))
      = push_bit shift (word_of_nat (v mod 128 ^ Suc n))" for shift
  proof -
    have "push_bit shift (word_of_nat (v mod 128) :: u64) + push_bit (shift + 7) (word_of_nat (v div 128 mod 128 ^ n))
        = push_bit shift (word_of_nat (v mod 128) + 128 * word_of_nat (v div 128 mod 128 ^ n))"
      by (simp add: push_bit_eq_mult power_add algebra_simps)
    also have "(word_of_nat (v mod 128) + 128 * word_of_nat (v div 128 mod 128 ^ n) :: u64) = word_of_nat (v mod 128 + 128 * (v div 128 mod 128 ^ n))"
      by (simp only: of_nat_add of_nat_mult) simp
    also have "v mod 128 + 128 * (v div 128 mod 128 ^ n) = v mod 128 ^ Suc n"
      by (simp add: mod_mult2_eq)
    finally show ?thesis .
  qed
  have "varint_loop (Suc n) shift val (t, (b # pre) @ after) =
      Some (Inr ((val + push_bit shift (word_of_nat (v mod 128 ^ Suc n)), False), (t, after)))" for shift val t after
    using b(2,3) v pre(3) [of "shift + 7"] by (simp add: Let_def add.assoc sum del: power_Suc)
  moreover have "varint_bytes v = (b # pre) @ varint_bytes (v div 128 ^ Suc n)"
    using b(1) pre(2) by (simp add: div_mult2_eq)
  ultimately show ?case using pre(1) by (intro exI [of _ "b # pre"]) simp
qed simp

lemma bignum_loop_bytes:
  "0 < v \<Longrightarrow> bignum_loop shift val (varint_bytes v @ after) = Some (int v * 2 ^ shift + val, after)"
proof (induction v arbitrary: shift val rule: less_induct)
  case (less v)
  from less.prems obtain b where b: "varint_bytes v = b # varint_bytes (v div 128)"
    "uint (seven_bits (ucast b :: u32)) = int (v mod 128)" "(ucast b :: u32) < 128 \<longleftrightarrow> v < 128"
    by (rule varint_step)
  show ?case
  proof (cases "v < 128")
    case True
    then have "varint_bytes (v div 128) = []" by (subst varint_bytes.simps) simp
    with True b show ?thesis by (subst bignum_loop.simps) (simp add: Let_def mp_mul_2d_def)
  next
    case False
    then have "0 < v div 128" by (simp add: div_greater_zero_iff)
    from less.IH [OF _ this] less.prems
    have "bignum_loop (shift + 7) (mp_mul_2d (int (v mod 128)) shift + val) (varint_bytes (v div 128) @ after)
        = Some (int (v div 128) * 2 ^ (shift + 7) + (mp_mul_2d (int (v mod 128)) shift + val), after)" by simp
    also have "int (v div 128) * 2 ^ (shift + 7) + (mp_mul_2d (int (v mod 128)) shift + val)
        = (int (v mod 128) + 128 * int (v div 128)) * 2 ^ shift + val"
      by (simp add: mp_mul_2d_def power_add algebra_simps)
    also have "int (v mod 128) + 128 * int (v div 128) = int v"
      by (metis mod_mult_div_eq of_nat_add of_nat_mult of_nat_numeral)
    finally show ?thesis using b False by (subst bignum_loop.simps) (simp add: Let_def)
  qed
qed

section \<open>Integers\<close>

lemma to_varint_pos: "0 < v \<Longrightarrow> to_varint v = varint_bytes v" by (simp add: to_varint_def)

lemma varint_loop_zero: "varint_loop (Suc n) shift val (t, 0 # after) = Some (Inr ((val, True), (t, after)))"
  by (simp add: Let_def seven_bits_def)

lemma get_varint_done_short:
  assumes "v < 2 ^ 56"
  shows "get_varint_done (t, to_varint v @ after) = Some (Inr ((word_of_nat v, True), (t, after)))"
proof (cases "v = 0")
  case True
  with varint_loop_zero [of 7 0 0 t after] show ?thesis by (simp add: get_varint_done_def to_varint_def)
next
  case False
  with assms varint_loop_short [of v 8 0 0 t after] show ?thesis by (simp add: get_varint_done_def to_varint_pos)
qed

lemma get_varint_short: "v < 2 ^ 56 \<Longrightarrow> get_varint (t, to_varint v @ after) = Some (Inr (word_of_nat v, (t, after)))"
  by (simp add: get_varint_def get_varint_done_short)

lemma from_mp_is_int [simp]: "is_int (Bignum_from_mp n) n"
proof -
  have "Bignum_from_mp n = Bignum_normalize n" by (simp add: Bignum_from_mp_def Bignum_normalize_def Bignum_to_native_def)
  then show ?thesis by simp
qed

lemma uint_word_of_nat: "v < 2 ^ 56 \<Longrightarrow> uint (word_of_nat v :: u64) = int v"
  by (simp add: unsigned_of_nat take_bit_nat_eq_self)

lemma int_less_power: "v < 2 ^ n \<longleftrightarrow> int v < 2 ^ n"
  by (metis of_nat_less_iff of_nat_numeral of_nat_power)

lemma set_int_parts_nat: "v < 2 ^ 56 \<Longrightarrow> set_int_parts (word_of_nat v) = int v"
proof -
  assume v: "v < 2 ^ 56"
  then have "int v < 2 ^ 64" using int_less_power [of v 56] by simp
  then have v64: "take_bit 64 (int v) = int v" by (simp add: take_bit_int_eq_self)
  have "int v div 2 ^ 32 < 2 ^ 32" using \<open>int v < 2 ^ 64\<close> by simp
  then have "take_bit 32 (int v div 2 ^ 32) = int v div 2 ^ 32" by (simp add: take_bit_int_eq_self)
  then have "uint (take_bit 32 (drop_bit 32 (word_of_nat v :: u64))) = int v div 2 ^ 32"
    by (simp only: unsigned_take_bit_eq unsigned_drop_bit_eq uint_word_of_nat [OF v]) (simp add: v64 drop_bit_eq_div)
  moreover have "uint (take_bit 32 (word_of_nat v :: u64)) = int v mod 2 ^ 32"
    by (simp only: unsigned_take_bit_eq uint_word_of_nat [OF v]) (simp only: take_bit_eq_mod)
  ultimately show ?thesis unfolding set_int_parts_def mp_mul_2d_def by presburger
qed

lemma from_ulong_is_int: "v < 2 ^ 56 \<Longrightarrow> is_int (Integer_from_ulong (word_of_nat v)) (int v)"
proof -
  assume v: "v < 2 ^ 56"
  then have "int v < 2 ^ 56" by (simp only: int_less_power)
  then have "int v \<le> FIXNUM_MAX" "FIXNUM_MIN \<le> int v" "native (int v) = int v"
    by (simp_all add: fixnum_range native_def signed_take_bit_int_eq_self)
  then show ?thesis using is_int_fixnum [of "int v"] unfolding Integer_from_ulong_def uint_word_of_nat [OF v] Fixnum_from_def by simp
qed

lemma get_varint_done_prefix:
  assumes "2 ^ 56 \<le> v"
  obtains pre where "length pre = 8" "to_varint v = pre @ varint_bytes (v div 2 ^ 56)"
    "\<And>t after. get_varint_done (t, pre @ after) = Some (Inr ((word_of_nat (v mod 2 ^ 56), False), (t, after)))"
proof -
  have p: "(128 :: nat) ^ 8 = 2 ^ 56" by simp
  have "0 < v" using assms by (rule less_le_trans [rotated]) simp
  with varint_loop_prefix [of 8 v, unfolded p, OF assms] that show thesis
    by (auto simp: get_varint_done_def to_varint_pos)
qed

lemma get_varint_done_long:
  assumes "2 ^ 56 \<le> v"
  shows "get_varint_done (t, to_varint v @ after) =
    Some (Inr ((word_of_nat (v mod 2 ^ 56), False), (t, varint_bytes (v div 2 ^ 56) @ after)))"
  using get_varint_done_prefix [OF assms] by (metis append.assoc)

lemma get_positive_varint_long:
  assumes "2 ^ 56 \<le> v"
  shows "get_positive_varint (t, to_varint v @ after) = Some (Inr (Bignum_from_mp (int v), (t, after)))"
proof -
  have "0 < v div 2 ^ 56" using assms by (simp add: div_greater_zero_iff)
  note loop = bignum_loop_bytes [OF this, of 56 "int (v mod 2 ^ 56)" after]
  have "int (v div 2 ^ 56) * 2 ^ 56 + int (v mod 2 ^ 56) = int (v div 2 ^ 56 * 2 ^ 56 + v mod 2 ^ 56)"
    by (simp only: of_nat_add of_nat_mult of_nat_power of_nat_numeral)
  also have "\<dots> = int v" by (simp only: div_mult_mod_eq)
  finally have "bignum_loop (8 * 7) (set_int_parts (word_of_nat (v mod 2 ^ 56))) (varint_bytes (v div 2 ^ 56) @ after) = Some (int v, after)"
    using loop set_int_parts_nat [of "v mod 2 ^ 56"] by simp
  then show ?thesis
    unfolding get_positive_varint_def rbind_simps(1) [of get_varint_done, OF get_varint_done_long [OF assms]] by simp
qed

lemma get_positive_varint_ok:
  "\<exists>i. get_positive_varint (t, to_varint v @ after) = Some (Inr (i, (t, after))) \<and> is_int i (int v)"
proof (cases "v < 2 ^ 56")
  case True
  then show ?thesis
    unfolding get_positive_varint_def rbind_simps(1) [of get_varint_done, OF get_varint_done_short [OF True]] using from_ulong_is_int by simp
next
  case False
  then show ?thesis using get_positive_varint_long [of v t after] by (simp only: not_less) simp
qed

lemma neg_is_int: "is_int (Fixnum fix) n \<Longrightarrow> is_int (Fixnum (Fixnum_neg fix)) (- n)"
  using is_int_fixnum [of "- n"] by (simp add: is_int_def fix_ok_def Fixnum_neg_def fixnum_range native_def signed_take_bit_int_eq_self)

lemma get_negative_varint_ok:
  "\<exists>i. get_negative_varint (t, to_varint v @ after) = Some (Inr (i, (t, after))) \<and> is_int i (- int v)"
proof -
  obtain i where i: "get_positive_varint (t, to_varint v @ after) = Some (Inr (i, (t, after)))" "is_int i (int v)"
    using get_positive_varint_ok by blast
  then show ?thesis
    by (cases i) (auto simp: get_negative_varint_def intro: neg_is_int, auto simp: is_int_def fixnum_range)
qed

section \<open>Objects\<close>

fun writable :: "val \<Rightarrow> bool" where
  "writable (String_val s) \<longleftrightarrow> length s < 2 ^ 56"
| "writable (Symbol_val s) \<longleftrightarrow> valid_str s \<and> length s < 1024"
| "writable (SendSite_val s) \<longleftrightarrow> valid_str s \<and> length s < 1024"
| "writable (Tuple_val vs) \<longleftrightarrow> length vs < 2 ^ 56 \<and> (\<forall>v\<in>set vs. writable v)"
| "writable (Float_val line) \<longleftrightarrow> 10 \<notin> set line \<and> length line < 1024 \<and> float_text line \<noteq> None"
| "writable (ISeq_val ops) \<longleftrightarrow> length ops < 2 ^ 56 \<and> (\<forall>op\<in>set ops. op < 2 ^ 56)"
| "writable (Method_val vs) \<longleftrightarrow> length vs = 14 \<and> (\<forall>v\<in>set vs. writable v)"
| "writable v \<longleftrightarrow> True"

text \<open>The object that is read stands for a value when its integers are normal and its symbols are those of the names in
  the table.\<close>

definition names :: "SymbolTable \<Rightarrow> oop \<Rightarrow> u8 list \<Rightarrow> bool" where
  "names t sy s \<longleftrightarrow> (\<exists>i<length (sym_strings t). sy = Symbol_from_index i \<and> sym_strings t ! i = s)"

fun describes :: "SymbolTable \<Rightarrow> Obj \<Rightarrow> val \<Rightarrow> bool" where
  "describes t obj Nil_val \<longleftrightarrow> obj = Immediate Qnil"
| "describes t obj True_val \<longleftrightarrow> obj = Immediate Qtrue"
| "describes t obj False_val \<longleftrightarrow> obj = Immediate Qfalse"
| "describes t obj (Int_val n) \<longleftrightarrow> (\<exists>i. obj = AnInteger i \<and> is_int i n)"
| "describes t obj (String_val s) \<longleftrightarrow> obj = AString s"
| "describes t obj (Symbol_val s) \<longleftrightarrow> (\<exists>sy. obj = ASymbol sy \<and> names t sy s)"
| "describes t obj (SendSite_val s) \<longleftrightarrow> (\<exists>sy. obj = ASendSite sy \<and> names t sy s)"
| "describes t obj (Tuple_val vs) \<longleftrightarrow> (\<exists>objs. obj = ATuple objs \<and> list_all2 (describes t) objs vs)"
| "describes t obj (Float_val line) \<longleftrightarrow> (\<exists>f. obj = AFloat f \<and> float_text line = Some f)"
| "describes t obj (ISeq_val ops) \<longleftrightarrow> obj = AnISeq (map (\<lambda>op. Fixnum_from (int op)) ops)"
| "describes t obj (Method_val vs) \<longleftrightarrow> (\<exists>objs. obj = ACompiledMethod objs \<and> list_all2 (describes t) objs vs)"

definition extends :: "SymbolTable \<Rightarrow> SymbolTable \<Rightarrow> bool" where
  "extends t t' \<longleftrightarrow> sym_ok t' \<and> (\<exists>new. sym_strings t' = sym_strings t @ new)"

lemma extends_trans: "extends t t' \<Longrightarrow> extends t' t'' \<Longrightarrow> extends t t''"
  by (auto simp: extends_def)

lemma names_extends: "extends t t' \<Longrightarrow> names t sy s \<Longrightarrow> names t' sy s"
proof -
  assume "extends t t'" "names t sy s"
  then obtain i new where "i < length (sym_strings t)" "sy = Symbol_from_index i" "sym_strings t ! i = s" "sym_strings t' = sym_strings t @ new"
    by (auto simp: extends_def names_def)
  then show ?thesis unfolding names_def by (intro exI [of _ i]) (simp add: nth_append)
qed

lemma describes_extends: "describes t obj v \<Longrightarrow> extends t t' \<Longrightarrow> describes t' obj v"
proof (induction t obj v rule: describes.induct)
  case (8 t obj vs)
  then show ?case by simp (metis (mono_tags, lifting) list.rel_mono_strong)
next
  case (11 t obj vs)
  then show ?case by simp (metis (mono_tags, lifting) list.rel_mono_strong)
qed (auto dest: names_extends)

definition reads :: "'a reader \<Rightarrow> u8 list \<Rightarrow> (SymbolTable \<Rightarrow> 'a \<Rightarrow> bool) \<Rightarrow> bool" where
  "reads m bytes P \<longleftrightarrow> (\<forall>t after. sym_ok t \<longrightarrow>
     (\<exists>x t'. m (t, bytes @ after) = Some (Inr (x, (t', after))) \<and> extends t t' \<and> P t' x))"

lemma readsI:
  "(\<And>t after. sym_ok t \<Longrightarrow> \<exists>x t'. m (t, bytes @ after) = Some (Inr (x, (t', after))) \<and> extends t t' \<and> P t' x) \<Longrightarrow> reads m bytes P"
  by (simp add: reads_def)

lemma extends_refl: "sym_ok t \<Longrightarrow> extends t t" by (simp add: extends_def)

lemma readsE:
  assumes "reads m bytes P" and "sym_ok t"
  obtains x t' where "m (t, bytes @ after) = Some (Inr (x, (t', after)))" "extends t t'" "P t' x"
  using assms unfolding reads_def by blast

lemma reads_list:
  assumes "\<And>v. v \<in> set vs \<Longrightarrow> reads m (enc v) (\<lambda>t x. R t x v)"
    and mono: "\<And>t t' x v. R t x v \<Longrightarrow> extends t t' \<Longrightarrow> R t' x v"
  shows "reads (repeat_read (length vs) m) (concat (map enc vs)) (\<lambda>t xs. list_all2 (R t) xs vs)"
  using assms(1)
proof (induction vs)
  case Nil
  then show ?case by (auto intro!: readsI extends_refl)
next
  case (Cons v vs)
  show ?case
  proof (rule readsI)
    fix t after assume t: "sym_ok t"
    from Cons.prems have "reads m (enc v) (\<lambda>t x. R t x v)" by simp
    from readsE [OF this t] obtain x t1 where
      1: "m (t, enc v @ concat (map enc vs) @ after) = Some (Inr (x, (t1, concat (map enc vs) @ after)))" "extends t t1" "R t1 x v" by blast
    then have "sym_ok t1" by (simp add: extends_def)
    with Cons obtain xs t2 where
      2: "repeat_read (length vs) m (t1, concat (map enc vs) @ after) = Some (Inr (xs, (t2, after)))" "extends t1 t2" "list_all2 (R t2) xs vs"
      by (auto elim!: readsE)
    from 1 2 have "repeat_read (length (v # vs)) m (t, concat (map enc (v # vs)) @ after) = Some (Inr (x # xs, (t2, after)))" by simp
    with 2 mono [OF 1(3) 2(2)] extends_trans [OF 1(2) 2(2)]
    show "\<exists>xs t'. repeat_read (length (v # vs)) m (t, concat (map enc (v # vs)) @ after) = Some (Inr (xs, (t', after)))
        \<and> extends t t' \<and> list_all2 (R t') xs (v # vs)" by auto
  qed
qed

text \<open>The readers for the contents of a string or a symbol, and for the elements of a tuple.\<close>

lemma unmarshal_code: "unmarshal (Suc fuel) raw (t, code # s) =
     (if code = 110 then returns (Immediate Qnil)
     else if code = 116 then returns (Immediate Qtrue)
     else if code = 102 then returns (Immediate Qfalse)
     else if code = 73 then as_obj AnInteger get_positive_varint
     else if code = 74 then as_obj AnInteger get_negative_varint
     else if code = 115 then as_obj AString get_string
     else if code = 120 then as_obj ASymbol (get_symbol raw)
     else if code = 83 then as_obj ASendSite (get_symbol raw)
     else if code = 112 then as_obj ATuple (rbind get_varint (\<lambda>count. repeat_read (unat count) (unmarshal fuel raw)))
     else if code = 100 then as_obj AFloat get_float
     else if code = 105 then as_obj AnISeq get_iseq
     else if code = 77 then as_obj ACompiledMethod (rbind get_varint (\<lambda>version. repeat_read 14 (unmarshal fuel raw)))
     else raises (Raised TypeError)) (t, s)"
  by (simp add: Let_def get_tuple_def get_cmethod_def)

lemma unat_word_of_nat: "v < 2 ^ 56 \<Longrightarrow> unat (word_of_nat v :: u64) = v"
  by (simp add: unsigned_of_nat take_bit_nat_eq_self)

lemma counted_read:
  "n < 2 ^ 56 \<Longrightarrow> rbind get_varint f (t, to_varint n @ after) = f (word_of_nat n) (t, after)"
  by (rule rbind_simps(1)) (rule get_varint_short)

lemma get_string_ok: "length s < 2 ^ 56 \<Longrightarrow> get_string (t, to_varint (length s) @ s @ after) = Some (Inr (s, (t, after)))"
  by (simp add: get_string_def counted_read unat_word_of_nat put_at_full)

lemma takeWhile_nonzero: "0 \<notin> set s \<Longrightarrow> takeWhile (\<lambda>b. b \<noteq> 0) s = s"
  by (metis (mono_tags, lifting) takeWhile_eq_all_conv)

lemma get_symbol_ok:
  assumes "valid_str s" and "length s < 1024" and "sym_ok t"
  shows "\<exists>sy t'. get_symbol raw (t, to_varint (length s) @ s @ after) = Some (Inr (sy, (t', after))) \<and> extends t t' \<and> names t' sy s"
proof -
  from assms(1) have s: "s \<noteq> []" "0 \<notin> set s" by (simp_all add: valid_str_def)
  obtain t' i where i: "SymbolTable_lookup t (Some s) = (t', Inr (Symbol_from_index i))" "sym_ok t'" "i < length (sym_strings t')"
      "sym_strings t' ! i = s" "if s \<in> set (sym_strings t) then t' = t else sym_strings t' = sym_strings t @ [s]"
    using lookup_interns [OF assms(3,1)] by blast
  then have "SymbolTable_lookup_checked t s = (t', Inr (Symbol_from_index i))" using s by (simp add: SymbolTable_lookup_def)
  moreover have "take (length s) (put_at raw 0 s) = s" by (simp add: put_at_def)
  moreover have "length s < 2 ^ 56" using assms(2) by simp
  ultimately have "get_symbol raw (t, to_varint (length s) @ s @ after) = Some (Inr (Symbol_from_index i, (t', after)))"
    using assms(2) s by (simp add: get_symbol_def counted_read unat_word_of_nat takeWhile_nonzero)
  moreover have "extends t t'" using i(2,5) by (auto simp: extends_def split: if_splits)
  ultimately show ?thesis using i(3,4) by (auto simp: names_def)
qed

lemma get_float_ok:
  assumes "10 \<notin> set line" and "length line < 1024" and "float_text line = Some f"
  shows "get_float (t, line @ 10 # after) = Some (Inr (f, (t, after)))"
proof -
  have "takeWhile (\<lambda>b. b \<noteq> 10) (line @ 10 # after) = line"
    using assms(1) by (subst takeWhile_append2) auto
  with assms(2,3) show ?thesis by (simp add: get_float_def Let_def)
qed

lemma reads_ops:
  assumes "\<forall>op\<in>set ops. op < 2 ^ 56"
  shows "reads (repeat_read (length ops) (rbind get_varint (\<lambda>op. returns (Fixnum_from (uint op))))) (concat (map to_varint ops))
    (\<lambda>t xs. list_all2 (\<lambda>x op. x = Fixnum_from (int op)) xs ops)"
proof (rule reads_list)
  fix op assume "op \<in> set ops"
  with assms have "op < 2 ^ 56" by blast
  then show "reads (rbind get_varint (\<lambda>op. returns (Fixnum_from (uint op)))) (to_varint op) (\<lambda>t x. x = Fixnum_from (int op))"
    by (intro readsI) (simp add: counted_read uint_word_of_nat extends_refl)
qed

lemma list_all2_map: "list_all2 (\<lambda>x y. x = f y) xs ys \<longleftrightarrow> xs = map f ys"
  by (induction xs arbitrary: ys) (auto simp: list_all2_Cons1)

lemma size_element: "v \<in> set vs \<Longrightarrow> size v < size (Tuple_val vs)" "v \<in> set vs \<Longrightarrow> size v < size (Method_val vs)"
  by (induction vs) auto

lemma reads_elements:
  assumes "\<And>v. v \<in> set vs \<Longrightarrow> reads (unmarshal k raw) (marshal v) (\<lambda>t obj. describes t obj v)" and "sym_ok t"
  obtains objs t' where
    "repeat_read (length vs) (unmarshal k raw) (t, concat (map marshal vs) @ after) = Some (Inr (objs, (t', after)))"
    "extends t t'" "list_all2 (describes t') objs vs"
proof -
  have "reads (repeat_read (length vs) (unmarshal k raw)) (concat (map marshal vs)) (\<lambda>t objs. list_all2 (describes t) objs vs)"
    by (intro reads_list assms(1)) (auto intro: describes_extends)
  from readsE [OF this assms(2)] that show thesis by blast
qed

lemma reads_value:
  "writable v \<Longrightarrow> size v < fuel \<Longrightarrow> reads (unmarshal fuel raw) (marshal v) (\<lambda>t obj. describes t obj v)"
proof (induction v arbitrary: fuel)
  case (Int_val n)
  then obtain k where "fuel = Suc k" by (cases fuel) auto
  then show ?case
  proof (intro readsI)
    fix t after assume t: "sym_ok t" and k: "fuel = Suc k"
    obtain i where "get_positive_varint (t, to_varint (nat n) @ after) = Some (Inr (i, (t, after)))" "is_int i (int (nat n))"
      using get_positive_varint_ok by blast
    moreover obtain j where "get_negative_varint (t, to_varint (nat (- n)) @ after) = Some (Inr (j, (t, after)))" "is_int j (- int (nat (- n)))"
      using get_negative_varint_ok by blast
    ultimately show "\<exists>x t'. unmarshal fuel raw (t, marshal (Int_val n) @ after) = Some (Inr (x, (t', after))) \<and> extends t t' \<and> describes t' x (Int_val n)"
      using t by (cases "n < 0") (auto simp: k unmarshal_code extends_refl simp del: unmarshal.simps)
  qed
next
  case (Tuple_val vs)
  then obtain k where k: "fuel = Suc k" by (cases fuel) auto
  have IH: "reads (unmarshal k raw) (marshal v) (\<lambda>t obj. describes t obj v)" if "v \<in> set vs" for v
    using Tuple_val.IH [OF that, of k] Tuple_val.prems that size_element(1) [OF that] k by simp
  show ?case
  proof (intro readsI)
    fix t after assume "sym_ok t"
    with IH obtain objs t' where
      "repeat_read (length vs) (unmarshal k raw) (t, concat (map marshal vs) @ after) = Some (Inr (objs, (t', after)))"
      "extends t t'" "list_all2 (describes t') objs vs" by (rule reads_elements)
    with Tuple_val.prems(1) show "\<exists>x t'. unmarshal fuel raw (t, marshal (Tuple_val vs) @ after) = Some (Inr (x, (t', after)))
        \<and> extends t t' \<and> describes t' x (Tuple_val vs)"
      by (auto simp: k unmarshal_code counted_read unat_word_of_nat simp del: unmarshal.simps)
  qed
next
  case (Method_val vs)
  then obtain k where k: "fuel = Suc k" by (cases fuel) auto
  have IH: "reads (unmarshal k raw) (marshal v) (\<lambda>t obj. describes t obj v)" if "v \<in> set vs" for v
    using Method_val.IH [OF that, of k] Method_val.prems that size_element(2) [OF that] k by simp
  show ?case
  proof (intro readsI)
    fix t after assume "sym_ok t"
    with IH obtain objs t' where
      "repeat_read (length vs) (unmarshal k raw) (t, concat (map marshal vs) @ after) = Some (Inr (objs, (t', after)))"
      "extends t t'" "list_all2 (describes t') objs vs" by (rule reads_elements)
    with Method_val.prems(1) show "\<exists>x t'. unmarshal fuel raw (t, marshal (Method_val vs) @ after) = Some (Inr (x, (t', after)))
        \<and> extends t t' \<and> describes t' x (Method_val vs)"
      by (auto simp: k unmarshal_code counted_read simp del: unmarshal.simps)
  qed
next
  case (ISeq_val ops)
  then obtain k where k: "fuel = Suc k" by (cases fuel) auto
  show ?case
  proof (intro readsI)
    fix t after assume t: "sym_ok t"
    from ISeq_val.prems(1) have "\<forall>op\<in>set ops. op < 2 ^ 56" and n: "length ops < 2 ^ 56" by auto
    from readsE [OF reads_ops [OF this(1)] t] obtain xs t' where
      "repeat_read (length ops) (rbind get_varint (\<lambda>op. returns (Fixnum_from (uint op)))) (t, concat (map to_varint ops) @ after)
         = Some (Inr (xs, (t', after)))" "extends t t'" "list_all2 (\<lambda>x op. x = Fixnum_from (int op)) xs ops" by blast
    with n show "\<exists>x t'. unmarshal fuel raw (t, marshal (ISeq_val ops) @ after) = Some (Inr (x, (t', after)))
        \<and> extends t t' \<and> describes t' x (ISeq_val ops)"
      by (auto simp: k unmarshal_code get_iseq_def counted_read unat_word_of_nat list_all2_map simp del: unmarshal.simps)
  qed
next
  case (Symbol_val s)
  then obtain k where k: "fuel = Suc k" by (cases fuel) auto
  show ?case
  proof (intro readsI)
    fix t after assume "sym_ok t"
    with Symbol_val.prems(1) obtain sy t' where "get_symbol raw (t, to_varint (length s) @ s @ after) = Some (Inr (sy, (t', after)))"
      "extends t t'" "names t' sy s" using get_symbol_ok [of s t raw after] by auto
    then show "\<exists>x t'. unmarshal fuel raw (t, marshal (Symbol_val s) @ after) = Some (Inr (x, (t', after)))
        \<and> extends t t' \<and> describes t' x (Symbol_val s)"
      by (auto simp: k unmarshal_code simp del: unmarshal.simps)
  qed
next
  case (SendSite_val s)
  then obtain k where k: "fuel = Suc k" by (cases fuel) auto
  show ?case
  proof (intro readsI)
    fix t after assume "sym_ok t"
    with SendSite_val.prems(1) obtain sy t' where "get_symbol raw (t, to_varint (length s) @ s @ after) = Some (Inr (sy, (t', after)))"
      "extends t t'" "names t' sy s" using get_symbol_ok [of s t raw after] by auto
    then show "\<exists>x t'. unmarshal fuel raw (t, marshal (SendSite_val s) @ after) = Some (Inr (x, (t', after)))
        \<and> extends t t' \<and> describes t' x (SendSite_val s)"
      by (auto simp: k unmarshal_code simp del: unmarshal.simps)
  qed
next
  case (Float_val line)
  then obtain k f where "fuel = Suc k" "float_text line = Some f" by (cases fuel) auto
  with Float_val show ?case
    by (intro readsI) (auto simp: unmarshal_code get_float_ok extends_refl simp del: unmarshal.simps)
next
  case (String_val s)
  then obtain k where "fuel = Suc k" by (cases fuel) auto
  with String_val show ?case
    by (intro readsI) (auto simp: unmarshal_code get_string_ok extends_refl simp del: unmarshal.simps)
qed (rule readsI, rename_tac fuel t after, case_tac fuel, auto simp: unmarshal_code extends_refl simp del: unmarshal.simps)+

section \<open>Compiled files\<close>

text \<open>C3. What the compiler writes, the virtual machine reads back, whatever follows in the file: the object describes
  the value, with normal integers and with symbols that the table has for its names, and exactly the bytes written have
  been consumed. The conditions on the value are those of the format: names are not empty, have no zero bytes and
  less than 1024 bytes, lengths and operands take at most eight bytes.\<close>

theorem unmarshal_marshal:
  assumes "sym_ok t" and "writable v" and "size v < fuel"
  shows "\<exists>obj t'. unmarshal fuel raw (t, marshal v @ after) = Some (Inr (obj, (t', after))) \<and> describes t' obj v
    \<and> sym_ok t' \<and> take (length (sym_strings t)) (sym_strings t') = sym_strings t"
proof -
  obtain obj t' where "unmarshal fuel raw (t, marshal v @ after) = Some (Inr (obj, (t', after)))" "extends t t'" "describes t' obj v"
    using readsE [OF reads_value [OF assms(2,3)] assms(1)] by blast
  then show ?thesis by (auto simp: extends_def)
qed

text \<open>A method, of which some slots are filled.\<close>

definition sample_method :: val where
  "sample_method = Method_val ([Nil_val, Symbol_val [102, 111, 111], Int_val (- (2 ^ 70)), ISeq_val [1, 300], String_val [],
     Tuple_val [True_val, Symbol_val [102, 111, 111], SendSite_val [43]], Float_val [78, 97, 78]] @ replicate 7 False_val)"

theorem unmarshal_marshal_witness:
  "\<exists>obj t'. unmarshal 100 [] (SymbolTable_create, marshal sample_method @ [1, 2]) = Some (Inr (obj, (t', [1, 2])))
    \<and> describes t' obj sample_method"
proof -
  have "sym_ok SymbolTable_create" by (simp add: sym_ok_def SymbolTable_create_def)
  moreover have "writable sample_method"
    by (simp add: sample_method_def valid_str_def float_text_def starts_with_def)
  moreover have "size sample_method < 100" by (simp add: sample_method_def replicate_numeral)
  ultimately show ?thesis using unmarshal_marshal [of SymbolTable_create sample_method 100 "[]" "[1, 2]"] by blast
qed

text \<open>Without a byte below 128 the loop over a large integer never ends: at the end of the stream it goes on reading
  EOF.\<close>

lemma bignum_loop_last: "bignum_loop shift val s = Some r \<Longrightarrow> \<exists>b\<in>set s. b < 128"
proof (induction rule: bignum_loop.raw_induct [rotated, consumes 1])
  case (1 loop shift val s r)
  show ?case
  proof (cases s)
    case Nil
    with 1(2) have "loop (shift + 7) (mp_mul_2d (uint (seven_bits (- 1 :: u32))) shift + val) [] = Some r"
      by (simp add: Let_def not_less split: if_splits)
    from 1(1) [OF this] show ?thesis by simp
  next
    case (Cons b bs)
    have "uint b < 256" using unsigned_less [of b] by simp
    then have "(ucast b :: u32) < 128 \<longleftrightarrow> b < 128" by (simp add: word_less_def unsigned_ucast_eq take_bit_int_eq_self)
    with Cons 1 show ?thesis by (auto simp: Let_def split: if_splits)
  qed
qed

lemma varint_bytes_high: "b \<in> set (take j (varint_bytes v)) \<Longrightarrow> j < length (varint_bytes v) \<Longrightarrow> \<not> b < 128"
proof (induction v arbitrary: j rule: less_induct)
  case (less v)
  then have "0 < v" by (cases "v = 0") (simp_all add: varint_bytes.simps [of 0])
  then obtain c where c: "varint_bytes v = c # varint_bytes (v div 128)" "uint c = varint_byte v"
    using varint_bytes_Cons by blast
  from less.prems c obtain i where i: "j = Suc i" "i < length (varint_bytes (v div 128))" by (cases j) auto
  have "varint_bytes 0 = []" by (subst varint_bytes.simps) simp
  with i(2) have "v div 128 \<noteq> 0" by (intro notI) simp
  then have "\<not> v < 128" by auto
  then have "\<not> c < 128" using c(2) varint_byte_range(4) [of v] by (simp add: word_less_def)
  with less.IH [of "v div 128" i] less.prems c i \<open>0 < v\<close> show ?case by auto
qed

text \<open>C38. A file that ends in the middle of an integer of more than eight bytes hangs the virtual machine: the loop waits for
  a byte below 128, and EOF is none. This holds for every integer of a magnitude from \<open>2 ^ 56\<close> on, of which the code and at
  least eight bytes but not all are there, and whatever the nesting allowed.\<close>

theorem truncated_integer_hangs:
  assumes "2 ^ 56 \<le> \<bar>n\<bar>" and "9 \<le> k" and "k < length (marshal (Int_val n))"
  shows "unmarshal fuel raw (t, take k (marshal (Int_val n))) = None"
proof (cases fuel)
  case (Suc m)
  let ?v = "nat \<bar>n\<bar>"
  have "2 ^ 56 \<le> ?v" using assms(1) by (simp add: nat_le_eq_zle le_nat_iff)
  then obtain pre where pre: "length pre = 8" "to_varint ?v = pre @ varint_bytes (?v div 2 ^ 56)"
    "\<And>t after. get_varint_done (t, pre @ after) = Some (Inr ((word_of_nat (?v mod 2 ^ 56), False), (t, after)))"
    using get_varint_done_prefix by blast
  obtain code where code: "marshal (Int_val n) = code # to_varint ?v" "code = 73 \<or> code = 74"
    by (cases "n < 0") auto
  obtain j where k: "k = Suc (8 + j)" using assms(2) by (metis Suc_eq_plus1 add.commute add.left_commute le_Suc_ex numeral_plus_one semiring_norm(5) semiring_norm(8))
  have j: "j < length (varint_bytes (?v div 2 ^ 56))" using assms(3) unfolding k code(1) pre(2) by (simp add: pre(1))
  have t: "take k (marshal (Int_val n)) = code # pre @ take j (varint_bytes (?v div 2 ^ 56))"
    unfolding k code(1) pre(2) by (simp only: take_Suc_Cons take_append pre(1)) (simp add: pre(1))
  have "bignum_loop shift val (take j (varint_bytes (?v div 2 ^ 56))) = None" for shift val
    using bignum_loop_last [of shift val] varint_bytes_high [OF _ j] by (cases "bignum_loop shift val (take j (varint_bytes (?v div 2 ^ 56)))") blast+
  then have "get_positive_varint (t, pre @ take j (varint_bytes (?v div 2 ^ 56))) = None"
    unfolding get_positive_varint_def rbind_simps(1) [of get_varint_done, OF pre(3)] by simp
  with code(2) show ?thesis unfolding t Suc unmarshal_code by (auto simp: get_negative_varint_def)
qed simp

theorem truncated_integer_hangs_witness:
  "unmarshal 1 [] (SymbolTable_create, take 9 (marshal (Int_val (2 ^ 60)))) = None \<and> length (marshal (Int_val (2 ^ 60))) = 10"
proof -
  have "length (marshal (Int_val (2 ^ 60))) = 10" by (simp add: to_varint_def varint_bytes.simps)
  with truncated_integer_hangs [of "2 ^ 60" 9 1 "[]" SymbolTable_create] show ?thesis by simp
qed

text \<open>The name of a symbol is read into 1024 bytes on the stack, and nothing tests its length: a file with a longer name,
  or one of exactly 1024 bytes, makes the reader write behind them. The same holds for the name of a send site.\<close>

theorem long_symbol_overruns:
  assumes "1024 \<le> n" and "n < 2 ^ 56" and "code = 120 \<or> code = 83"
  shows "unmarshal (Suc fuel) raw (t, code # to_varint n @ s) = Some (Inl StackOverrun)"
proof -
  have "get_symbol raw (t, to_varint n @ s) = Some (Inl StackOverrun)"
    using assms(1) by (simp add: get_symbol_def counted_read [OF assms(2)] unat_word_of_nat [OF assms(2)])
  with assms(3) show ?thesis by (auto simp: unmarshal_code simp del: unmarshal.simps)
qed

theorem long_symbol_overruns_witness:
  "unmarshal 1 [] (SymbolTable_create, 120 # to_varint 1024 @ replicate 1024 97) = Some (Inl StackOverrun)"
  using long_symbol_overruns [of 1024 120 0] by simp

end
