(* ===== verification/Vm_Arguments.thy ===== *)
theory Vm_Arguments
  imports Vm_Array_Refine
begin

text \<open>
  The arguments of a call (\<open>vm/arguments.hpp\<close>, \<open>arguments.cpp\<close>) and how a method takes them over into its local
  variables (the argument handlers of \<open>vm/vmmethod.cpp\<close>). The buffer of arguments is a list, of less than \<open>2 ^ 31\<close>
  elements; a local variable holds a reference or the array that the handler has just made for the splat. A write
  outside of the locals, which nothing in the code prevents, is an error of the model.
\<close>

section \<open>Arguments\<close>

record Arguments =
  arg_recv :: oop
  arg_block :: oop
  arg_list :: "oop list"

definition arg_total :: "Arguments \<Rightarrow> nat" where "arg_total args = length (arg_list args)"
definition get_argument :: "Arguments \<Rightarrow> nat \<Rightarrow> oop" where "get_argument args which = arg_list args ! which"

definition use_array :: "Arguments \<Rightarrow> Array \<Rightarrow> Arguments" where
  "use_array args ary = args\<lparr>arg_list := take (nat (a_total ary)) (drop (nat (a_start ary)) (a_tuple ary))\<rparr>"

definition use_tuple :: "Arguments \<Rightarrow> Tuple \<Rightarrow> nat \<Rightarrow> Arguments" where
  "use_tuple args tup n = args\<lparr>arg_list := take n tup\<rparr>"

text \<open>The loops that fill a tuple from \<open>offset\<close> on, and an array.\<close>

primrec put_all :: "(nat \<Rightarrow> vm_error + oop) \<Rightarrow> nat \<Rightarrow> nat \<Rightarrow> Tuple \<Rightarrow> vm_error + Tuple" where
  "put_all get offset 0 tup = Inr tup"
| "put_all get offset (Suc n) tup = vbind (put_all get offset n tup)
     (\<lambda>tup. vbind (get n) (\<lambda>v. Tuple_put tup (int (offset + n)) v))"

primrec fill_array :: "(nat \<Rightarrow> oop) \<Rightarrow> nat \<Rightarrow> Array \<Rightarrow> vm_error + Array" where
  "fill_array get 0 ary = Inr ary"
| "fill_array get (Suc n) ary = vbind (fill_array get n ary) (\<lambda>ary. Array_set ary (int n) (get n))"

definition Arguments_append :: "Arguments \<Rightarrow> Array \<Rightarrow> vm_error + Arguments" where
  "Arguments_append args ary =
     vbind (put_all (\<lambda>i. Inr (get_argument args i)) 0 (arg_total args) (Tuple_create (a_total ary + int (arg_total args))))
       (\<lambda>tup. vbind (put_all (\<lambda>i. Array_get ary (int i)) (arg_total args) (nat (a_total ary)) tup)
         (\<lambda>tup. Inr (use_tuple args tup (arg_total args + nat (a_total ary)))))"

definition Arguments_prepend :: "Arguments \<Rightarrow> Array \<Rightarrow> vm_error + Arguments" where
  "Arguments_prepend args ary =
     vbind (put_all (\<lambda>i. Array_get ary (int i)) 0 (nat (a_total ary)) (Tuple_create (a_total ary + int (arg_total args))))
       (\<lambda>tup. vbind (put_all (\<lambda>i. Inr (get_argument args i)) (nat (a_total ary)) (arg_total args) tup)
         (\<lambda>tup. Inr (use_tuple args tup (arg_total args + nat (a_total ary)))))"

definition Arguments_as_array :: "Arguments \<Rightarrow> vm_error + Array" where
  "Arguments_as_array args = fill_array (get_argument args) (arg_total args) (Array_create (int (arg_total args)))"

definition Arguments_unshift :: "Arguments \<Rightarrow> oop \<Rightarrow> vm_error + Arguments" where
  "Arguments_unshift args val =
     vbind (Tuple_put (Tuple_create (int (arg_total args + 1))) 0 val)
       (\<lambda>tup. vbind (put_all (\<lambda>i. Inr (get_argument args i)) 1 (arg_total args) tup)
         (\<lambda>tup. Inr (use_tuple args tup (arg_total args + 1))))"

definition Arguments_unshift2 :: "Arguments \<Rightarrow> oop \<Rightarrow> oop \<Rightarrow> vm_error + Arguments" where
  "Arguments_unshift2 args one two =
     vbind (Tuple_put (Tuple_create (int (arg_total args + 2))) 0 one)
       (\<lambda>tup. vbind (Tuple_put tup 1 two)
         (\<lambda>tup. vbind (put_all (\<lambda>i. Inr (get_argument args i)) 2 (arg_total args) tup)
           (\<lambda>tup. Inr (use_tuple args tup (arg_total args + 2)))))"

text \<open>Shifting when there is no argument reads the buffer that is not there: \<open>None\<close>.\<close>

definition Arguments_shift :: "Arguments \<Rightarrow> (oop \<times> Arguments) option" where
  "Arguments_shift args =
     (case arg_list args of [] \<Rightarrow> None | first # as \<Rightarrow> Some (first, args\<lparr>arg_list := as\<rparr>))"

section \<open>Argument handlers\<close>

datatype slot = Ref oop | Splat Array
datatype call_error = ArrayError vm_error | LocalOverrun | WrongArguments

type_synonym locals = "slot list"

record VMMethod =
  total_args :: int
  required_args :: int
  splat_position :: int
  number_of_locals :: nat

definition set_local :: "locals \<Rightarrow> int \<Rightarrow> slot \<Rightarrow> call_error + locals" where
  "set_local scope which v =
     (if 0 \<le> which \<and> which < int (length scope) then Inr (scope[nat which := v]) else Inl LocalOverrun)"

primrec set_args :: "Arguments \<Rightarrow> nat \<Rightarrow> locals \<Rightarrow> call_error + locals" where
  "set_args args 0 scope = Inr scope"
| "set_args args (Suc n) scope = vbind (set_args args n scope) (\<lambda>scope. set_local scope (int n) (Ref (get_argument args n)))"

definition set_splat :: "(nat \<Rightarrow> oop) \<Rightarrow> nat \<Rightarrow> int \<Rightarrow> locals \<Rightarrow> call_error + locals" where
  "set_splat get n position scope =
     vbind (map_sum ArrayError id (fill_array get n (Array_create (int n)))) (\<lambda>ary. set_local scope position (Splat ary))"

definition done_with :: "call_error + locals \<Rightarrow> call_error + locals \<times> bool" where
  "done_with scope = vbind scope (\<lambda>scope. Inr (scope, True))"

definition NoArguments where
  "NoArguments (vmm :: VMMethod) (scope :: locals) args = (Inr (scope, arg_total args = 0) :: call_error + locals \<times> bool)"

definition OneArgument where
  "OneArgument (vmm :: VMMethod) scope args =
     (if arg_total args \<noteq> 1 then Inr (scope, False) else done_with (set_local scope 0 (Ref (get_argument args 0))))"

definition TwoArguments where
  "TwoArguments (vmm :: VMMethod) scope args =
     (if arg_total args \<noteq> 2 then Inr (scope, False)
      else done_with (vbind (set_local scope 0 (Ref (get_argument args 0)))
        (\<lambda>scope. set_local scope 1 (Ref (get_argument args 1)))))"

definition ThreeArguments where
  "ThreeArguments (vmm :: VMMethod) scope args =
     (if arg_total args \<noteq> 3 then Inr (scope, False)
      else done_with (vbind (set_local scope 0 (Ref (get_argument args 0)))
        (\<lambda>scope. vbind (set_local scope 1 (Ref (get_argument args 1)))
          (\<lambda>scope. set_local scope 2 (Ref (get_argument args 2))))))"

definition FixedArguments where
  "FixedArguments vmm scope args =
     (if int (arg_total args) \<noteq> total_args vmm then Inr (scope, False) else done_with (set_args args (nat (total_args vmm)) scope))"

definition SplatOnlyArgument where
  "SplatOnlyArgument vmm scope args = done_with (set_splat (get_argument args) (arg_total args) (splat_position vmm) scope)"

definition GenericArguments where
  "GenericArguments vmm scope args =
     (let has_splat = splat_position vmm \<ge> 0; given = int (arg_total args)
      in if total_args vmm = 0 \<and> given = 0
         then if has_splat then done_with (set_local scope (splat_position vmm) (Splat (Array_create 0))) else Inr (scope, True)
         else if given < required_args vmm then Inr (scope, False)
         else if \<not> has_splat \<and> given > total_args vmm then Inr (scope, False)
         else let fixed_args = (if given < total_args vmm then given else total_args vmm)
              in done_with (vbind (set_args args (nat fixed_args) scope)
                (\<lambda>scope. if has_splat
                   then if given > total_args vmm
                        then set_splat (\<lambda>i. get_argument args (nat (int i + total_args vmm))) (nat (given - total_args vmm)) (splat_position vmm) scope
                        else set_local scope (splat_position vmm) (Splat (Array_create 0))
                   else Inr scope)))"

definition setup_argument_handler where
  "setup_argument_handler vmm =
     (if total_args vmm = required_args vmm
      then if total_args vmm = 0 then (if splat_position vmm = - 1 then NoArguments else SplatOnlyArgument)
           else if splat_position vmm = - 1
           then (if total_args vmm = 1 then OneArgument else if total_args vmm = 2 then TwoArguments
                 else if total_args vmm = 3 then ThreeArguments else FixedArguments)
           else GenericArguments
      else GenericArguments)"

text \<open>Entering a method: its locals are nil first, and the wrong number of arguments raises an exception.\<close>

definition execute_specialized where
  "execute_specialized handler vmm args =
     vbind (handler vmm (replicate (number_of_locals vmm) (Ref Qnil)) args)
       (\<lambda>(scope, ok). if ok then Inr scope else Inl WrongArguments)"

section \<open>The specialized handlers\<close>

lemma set_args_numeral:
  "set_args args 1 scope = set_local scope 0 (Ref (get_argument args 0))"
  "set_args args 2 scope = vbind (set_local scope 0 (Ref (get_argument args 0))) (\<lambda>scope. set_local scope 1 (Ref (get_argument args 1)))"
  "set_args args 3 scope = vbind (vbind (set_local scope 0 (Ref (get_argument args 0))) (\<lambda>scope. set_local scope 1 (Ref (get_argument args 1))))
     (\<lambda>scope. set_local scope 2 (Ref (get_argument args 2)))"
  by (simp_all add: numeral_eq_Suc)

lemma vbind_assoc: "vbind (vbind m f) g = vbind m (\<lambda>x. vbind (f x) g)"
  by (cases m) simp_all

lemma vbind_Inr [simp]: "vbind m Inr = m"
  by (cases m) simp_all

lemmas handler_defs = NoArguments_def OneArgument_def TwoArguments_def ThreeArguments_def FixedArguments_def SplatOnlyArgument_def

lemma handler_generic:
  assumes "- 1 \<le> splat_position vmm"
  shows "setup_argument_handler vmm vmm scope args = GenericArguments vmm scope args"
proof (cases "total_args vmm = required_args vmm")
  case eq: True
  show ?thesis
  proof (cases "total_args vmm = 0")
    case True
    with eq assms show ?thesis
      by (cases "arg_total args = 0") (auto simp: setup_argument_handler_def GenericArguments_def handler_defs set_splat_def Let_def)
  next
    case False
    with eq show ?thesis
      by (cases "splat_position vmm = - 1") (simp_all add: setup_argument_handler_def,
        auto simp: setup_argument_handler_def GenericArguments_def handler_defs Let_def set_args_numeral vbind_assoc)
  qed
qed (simp add: setup_argument_handler_def)

text \<open>C33. The specialized argument handlers are equivalent to the generic one: whichever handler a method is given by
  \<open>setup_argument_handler\<close>, it accepts the same calls and sets the same locals, with splat or without, for any number of
  arguments.\<close>

theorem argument_handlers_agree:
  assumes "- 1 \<le> splat_position vmm"
  shows "setup_argument_handler vmm vmm scope args = GenericArguments vmm scope args"
  by (rule handler_generic [OF assms])

theorem argument_handlers_agree_witness:
  "let vmm = \<lparr>total_args = 2, required_args = 2, splat_position = - 1, number_of_locals = 3\<rparr>; nil3 = replicate 3 (Ref Qnil)
   in setup_argument_handler vmm vmm nil3 \<lparr>arg_recv = 0, arg_block = Qnil, arg_list = [3, 5]\<rparr> = Inr ([Ref 3, Ref 5, Ref Qnil], True)"
proof -
  let ?vmm = "\<lparr>total_args = 2, required_args = 2, splat_position = - 1, number_of_locals = 3\<rparr>"
  have "setup_argument_handler ?vmm ?vmm (replicate 3 (Ref Qnil)) \<lparr>arg_recv = 0, arg_block = Qnil, arg_list = [3, 5]\<rparr>
      = GenericArguments ?vmm (replicate 3 (Ref Qnil)) \<lparr>arg_recv = 0, arg_block = Qnil, arg_list = [3, 5]\<rparr>"
    by (rule argument_handlers_agree) simp
  also have "\<dots> = Inr ([Ref 3, Ref 5, Ref Qnil], True)"
    by (simp add: GenericArguments_def arg_total_def done_with_def set_args_numeral set_local_def get_argument_def replicate_numeral)
  finally show ?thesis by (simp only: Let_def)
qed

section \<open>What the handlers bind\<close>

lemma fill_array_ok:
  "k \<le> n \<Longrightarrow> fill_array get k (Array_create (int n)) =
    Inr \<lparr>a_tuple = map get [0..<k] @ replicate (n - k) Qnil, a_start = 0, a_total = int k\<rparr>"
proof (induction k)
  case 0
  then show ?case by (simp add: Array_create_def Tuple_create_def)
next
  case (Suc k)
  then have "(map get [0..<k] @ replicate (n - k) Qnil)[k := get k] = map get [0..<Suc k] @ replicate (n - Suc k) Qnil"
    by (simp add: list_update_append replicate_update)
  with Suc show ?case by (simp add: Array_set_def num_fields_def Tuple_put_def)
qed

lemma fill_array_rep: "n < 2 ^ 28 \<Longrightarrow> \<exists>a. fill_array get n (Array_create (int n)) = Inr a \<and> array_rep a (map get [0..<n])"
  by (simp add: fill_array_ok array_rep_def tuple_small_def)

lemma set_args_ok: "n \<le> length scope \<Longrightarrow> set_args args n scope = Inr (map (\<lambda>i. Ref (get_argument args i)) [0..<n] @ drop n scope)"
proof (induction n)
  case (Suc n)
  then have "(map (\<lambda>i. Ref (get_argument args i)) [0..<n] @ drop n scope)[n := Ref (get_argument args n)]
      = map (\<lambda>i. Ref (get_argument args i)) [0..<Suc n] @ drop (Suc n) scope"
    by (simp add: list_update_append Cons_nth_drop_Suc [symmetric])
  with Suc show ?case by (simp add: set_local_def)
qed simp

text \<open>C6. A method takes over its arguments as Ruby says, through whichever handler: a call succeeds when at least the required
  arguments are given and, without a splat, not more than all of them. The first arguments are then the first locals, a
  splat holds an array of the remaining ones, which is empty when there are none, and every other local keeps its
  value; otherwise no local has changed.\<close>

theorem arguments_bound:
  assumes "0 \<le> required_args vmm" and "required_args vmm \<le> total_args vmm" and "total_args vmm \<le> int (length scope)"
    and "splat_position vmm = - 1 \<or> total_args vmm \<le> splat_position vmm \<and> splat_position vmm < int (length scope)"
    and "arg_total args < 2 ^ 28"
  defines "n \<equiv> arg_total args" and "wanted \<equiv> nat (total_args vmm)" and "given \<equiv> arg_list args"
  shows "\<exists>scope' ok. setup_argument_handler vmm vmm scope args = Inr (scope', ok) \<and>
    (ok \<longleftrightarrow> nat (required_args vmm) \<le> n \<and> (splat_position vmm = - 1 \<longrightarrow> n \<le> wanted)) \<and>
    (\<not> ok \<longrightarrow> scope' = scope) \<and> length scope' = length scope \<and>
    (ok \<longrightarrow> (\<forall>i<length scope. int i \<noteq> splat_position vmm \<longrightarrow> scope' ! i = (if i < min n wanted then Ref (given ! i) else scope ! i)) \<and>
      (splat_position vmm \<noteq> - 1 \<longrightarrow> (\<exists>a. scope' ! nat (splat_position vmm) = Splat a \<and> array_rep a (drop wanted given))))"
    (is "\<exists>scope' ok. _ = _ \<and> ?P scope' ok")
proof -
  let ?splat = "splat_position vmm"
  have handler: "setup_argument_handler vmm vmm scope args = GenericArguments vmm scope args"
    using assms(1,2,4) by (intro handler_generic) auto
  have n: "n = length given" and lim: "wanted \<le> length scope" and tot: "total_args vmm = int wanted"
    using assms(1,2,3) by (simp_all add: n_def given_def arg_total_def wanted_def)
  show ?thesis
  proof (cases "nat (required_args vmm) \<le> n \<and> (?splat = - 1 \<longrightarrow> n \<le> wanted)")
    case False
    then have "GenericArguments vmm scope args = Inr (scope, False)"
      using assms(1,2,4) n_def tot by (auto simp: GenericArguments_def Let_def)
    with handler False show ?thesis by auto
  next
    case ok: True
    define fixed where "fixed = min n wanted"
    define scope1 where "scope1 = map (\<lambda>i. Ref (get_argument args i)) [0..<fixed] @ drop fixed scope"
    have args: "set_args args fixed scope = Inr scope1" and len: "length scope1 = length scope"
      using lim by (simp_all add: set_args_ok scope1_def fixed_def)
    have fl: "fixed \<le> length scope" using lim fixed_def by simp
    have at: "scope1 ! i = (if i < fixed then Ref (given ! i) else scope ! i)" for i
      using fl by (cases "i < fixed") (simp_all add: scope1_def nth_append get_argument_def given_def)
    obtain a where a: "fill_array (\<lambda>i. get_argument args (i + wanted)) (n - wanted) (Array_create (int (n - wanted))) = Inr a"
        "array_rep a (map (\<lambda>i. get_argument args (i + wanted)) [0..<n - wanted])"
      using fill_array_rep [of "n - wanted" "\<lambda>i. get_argument args (i + wanted)"] less_imp_diff_less [OF assms(5), of wanted]
      by (auto simp: n_def)
    have rest: "map (\<lambda>i. get_argument args (i + wanted)) [0..<n - wanted] = drop wanted given"
      by (rule nth_equalityI) (simp_all add: n get_argument_def given_def add.commute)
    have gen: "GenericArguments vmm scope args =
        Inr (if ?splat = - 1 then scope1 else scope1[nat ?splat := Splat a], True)"
    proof (cases "?splat = - 1")
      case True
      with ok assms(1,2) args show ?thesis
        by (auto simp: GenericArguments_def Let_def tot n_def [symmetric] done_with_def fixed_def min_def scope1_def)
    next
      case False
      with assms(4) have splat: "int wanted \<le> ?splat" "?splat < int (length scope)" by (simp_all add: tot)
      have "fixed = 0 \<Longrightarrow> scope1 = scope" by (simp add: scope1_def)
      moreover have "n \<le> wanted \<Longrightarrow> a = Array_create 0" using a(1) by simp
      ultimately show ?thesis using False splat ok assms(1,2) args a(1) len
        by (auto simp: GenericArguments_def Let_def tot n_def [symmetric] done_with_def fixed_def min_def set_local_def set_splat_def
            nat_add_distrib nat_diff_distrib nat_int_add split: if_splits)
    qed
    show ?thesis
    proof (intro exI conjI)
      show "setup_argument_handler vmm vmm scope args = Inr (if ?splat = - 1 then scope1 else scope1[nat ?splat := Splat a], True)"
        using handler gen by simp
    qed (use ok at len a rest assms(4) tot in \<open>auto simp: fixed_def nth_list_update\<close>)
  qed
qed

theorem arguments_bound_witness:
  "let vmm = \<lparr>total_args = 2, required_args = 1, splat_position = 2, number_of_locals = 3\<rparr>
   in \<exists>scope a. setup_argument_handler vmm vmm (replicate 3 (Ref Qnil)) \<lparr>arg_recv = 0, arg_block = Qnil, arg_list = [3, 5, 7]\<rparr> = Inr (scope, True)
     \<and> scope ! 0 = Ref 3 \<and> scope ! 1 = Ref 5 \<and> scope ! 2 = Splat a \<and> array_rep a [7]"
proof -
  let ?vmm = "\<lparr>total_args = 2, required_args = 1, splat_position = 2, number_of_locals = 3\<rparr>"
  let ?args = "\<lparr>arg_recv = 0, arg_block = Qnil, arg_list = [3, 5, 7]\<rparr>"
  have "\<exists>scope' a. setup_argument_handler ?vmm ?vmm (replicate 3 (Ref Qnil)) ?args = Inr (scope', True) \<and>
    (\<forall>i<3. i \<noteq> 2 \<longrightarrow> scope' ! i = (if i < 2 then Ref ([3, 5, 7] ! i) else replicate 3 (Ref Qnil) ! i)) \<and> scope' ! 2 = Splat a \<and> array_rep a [7]"
    using arguments_bound [of ?vmm "replicate 3 (Ref Qnil)" ?args] by (simp add: arg_total_def) metis
  then obtain scope' a where r: "setup_argument_handler ?vmm ?vmm (replicate 3 (Ref Qnil)) ?args = Inr (scope', True)"
    "\<forall>i<3. i \<noteq> 2 \<longrightarrow> scope' ! i = (if i < 2 then Ref ([3, 5, 7] ! i) else replicate 3 (Ref Qnil) ! i)"
    "scope' ! 2 = Splat a" "array_rep a [7]" by blast
  from r(2) have "scope' ! 0 = Ref 3" "scope' ! 1 = Ref 5" by simp_all
  with r(1,3,4) show ?thesis unfolding Let_def by blast
qed

section \<open>Changing the arguments of a call\<close>

lemma put_all_ok:
  "offset + n \<le> length tup \<Longrightarrow> (\<And>i. i < n \<Longrightarrow> get i = Inr (f i)) \<Longrightarrow>
    put_all get offset n tup = Inr (put_at tup offset (map f [0..<n]))"
proof (induction n)
  case 0
  then show ?case by (simp add: put_at_def)
next
  case (Suc n)
  then have "(put_at tup offset (map f [0..<n]))[offset + n := f n] = put_at tup offset (map f [0..<Suc n])"
    by (simp add: put_at_def list_update_append Cons_nth_drop_Suc [symmetric] flip: add.assoc)
  with Suc show ?case by (simp add: Tuple_put_def num_fields_def length_put_at nat_int_add)
qed

lemma arguments_map: "map (get_argument args) [0..<arg_total args] = arg_list args"
  by (rule nth_equalityI) (simp_all add: get_argument_def arg_total_def)

lemma array_elements:
  assumes "array_rep ary xs"
  shows "nat (a_total ary) = length xs" and "a_total ary = int (length xs)"
    and "offset + length xs \<le> length tup \<Longrightarrow> put_all (\<lambda>i. Array_get ary (int i)) offset (length xs) tup = Inr (put_at tup offset xs)"
proof -
  show "a_total ary = int (length xs)" using assms by (auto simp: array_rep_def)
  then show "nat (a_total ary) = length xs" by simp
  assume "offset + length xs \<le> length tup"
  moreover have "Array_get ary (int i) = Inr (xs ! i)" if "i < length xs" for i using Array_get_rep [OF assms] that by simp
  ultimately show "put_all (\<lambda>i. Array_get ary (int i)) offset (length xs) tup = Inr (put_at tup offset xs)"
    using put_all_ok [of offset "length xs" tup "\<lambda>i. Array_get ary (int i)" "(!) xs"] by (simp add: map_nth)
qed

lemma own_arguments: "offset + arg_total args \<le> length tup \<Longrightarrow>
    put_all (\<lambda>i. Inr (get_argument args i)) offset (arg_total args) tup = Inr (put_at tup offset (arg_list args))"
  using put_all_ok [of offset "arg_total args" tup "\<lambda>i. Inr (get_argument args i)" "get_argument args"] by (simp add: arguments_map)

text \<open>\<open>append\<close>, \<open>prepend\<close>, \<open>unshift\<close> and \<open>as_array\<close> are the operations of these names on lists.\<close>

theorem arguments_edited:
  assumes "array_rep ary xs" and "arg_total args < 2 ^ 28"
  shows "Arguments_append args ary = Inr (args\<lparr>arg_list := arg_list args @ xs\<rparr>)"
    and "Arguments_prepend args ary = Inr (args\<lparr>arg_list := xs @ arg_list args\<rparr>)"
    and "Arguments_unshift args val = Inr (args\<lparr>arg_list := val # arg_list args\<rparr>)"
    and "Arguments_unshift2 args val val2 = Inr (args\<lparr>arg_list := val # val2 # arg_list args\<rparr>)"
    and "\<exists>a. Arguments_as_array args = Inr a \<and> array_rep a (arg_list args)"
    and "use_array args ary = args\<lparr>arg_list := xs\<rparr>"
proof -
  note array = array_elements [OF assms(1)]
  have len: "length (Tuple_create (int n)) = n" for n by (simp add: Tuple_create_def)
  show "Arguments_append args ary = Inr (args\<lparr>arg_list := arg_list args @ xs\<rparr>)"
    by (simp add: Arguments_append_def array own_arguments Tuple_create_def nat_add_distrib length_put_at arg_total_def [symmetric])
      (simp add: put_at_def use_tuple_def arg_total_def)
  show "Arguments_prepend args ary = Inr (args\<lparr>arg_list := xs @ arg_list args\<rparr>)"
    by (simp add: Arguments_prepend_def array own_arguments Tuple_create_def nat_add_distrib length_put_at arg_total_def [symmetric])
      (simp add: put_at_def use_tuple_def arg_total_def)
  show "Arguments_unshift args val = Inr (args\<lparr>arg_list := val # arg_list args\<rparr>)"
    by (simp add: Arguments_unshift_def Tuple_put_def num_fields_def Tuple_create_def own_arguments nat_add_distrib)
      (simp add: put_at_def use_tuple_def arg_total_def)
  show "Arguments_unshift2 args val val2 = Inr (args\<lparr>arg_list := val # val2 # arg_list args\<rparr>)"
    by (simp add: Arguments_unshift2_def Tuple_put_def num_fields_def Tuple_create_def own_arguments nat_add_distrib)
      (simp add: put_at_def use_tuple_def arg_total_def)
  show "\<exists>a. Arguments_as_array args = Inr a \<and> array_rep a (arg_list args)"
    using fill_array_rep [OF assms(2), of "get_argument args"] by (simp add: Arguments_as_array_def arguments_map)
  show "use_array args ary = args\<lparr>arg_list := xs\<rparr>"
    using assms(1) by (auto simp: array_rep_def use_array_def)
qed

end
