(* ===== verification/Vm_Channel.thy ===== *)
theory Vm_Channel
  imports Vm_List
begin

text \<open>
  Channels (\<open>vm/builtin/channel.cpp\<close>): the values sent wait in a \<open>List\<close>, the threads that receive wait on one condition. A
  thread holds the global lock while it runs, so that each operation, up to the point where it waits and from the point
  where it wakes up, is one step of the model. Which sleeping thread \<open>pthread_cond_signal\<close> wakes up is a parameter of
  the step; a thread may also wake up by itself, or when its time is over. A thread waits on this channel only.
\<close>

section \<open>State\<close>

datatype phase = Running | Asleep | Woken | TimedOut

record VMThread =
  phase :: phase
  timed :: bool
  waiter_set :: bool
  waiter_used :: bool
  check_local_interrupts :: bool
  raise_reason :: bool
  thread_sleep :: bool

record Channel =
  ch_value :: List
  ch_waiters :: int
  ch_threads :: "VMThread list"

definition new_thread :: VMThread where
  "new_thread = \<lparr>phase = Running, timed = False, waiter_set = False, waiter_used = False, check_local_interrupts = False,
     raise_reason = False, thread_sleep = False\<rparr>"

definition Channel_create :: "nat \<Rightarrow> Channel" where
  "Channel_create n = \<lparr>ch_value = List_create, ch_waiters = 0, ch_threads = replicate n new_thread\<rparr>"

definition has_readers_p :: "Channel \<Rightarrow> bool" where "has_readers_p ch \<longleftrightarrow> ch_waiters ch > 0"

definition upd_thread :: "Channel \<Rightarrow> nat \<Rightarrow> (VMThread \<Rightarrow> VMThread) \<Rightarrow> Channel" where
  "upd_thread ch t f = ch\<lparr>ch_threads := (ch_threads ch)[t := f (ch_threads ch ! t)]\<rparr>"

definition in_phase :: "phase \<Rightarrow> Channel \<Rightarrow> nat \<Rightarrow> bool" where
  "in_phase p ch t \<longleftrightarrow> t < length (ch_threads ch) \<and> phase (ch_threads ch ! t) = p"

definition awake :: "Channel \<Rightarrow> nat \<Rightarrow> bool" where "awake ch t \<longleftrightarrow> in_phase Woken ch t \<or> in_phase TimedOut ch t"

text \<open>Signalling the condition wakes up one sleeping thread, if there is any.\<close>

definition cond_choice :: "Channel \<Rightarrow> nat option \<Rightarrow> bool" where
  "cond_choice ch w =
     (case w of None \<Rightarrow> list_all (\<lambda>th. phase th \<noteq> Asleep) (ch_threads ch) | Some t \<Rightarrow> in_phase Asleep ch t)"

definition cond_signal :: "Channel \<Rightarrow> nat option \<Rightarrow> Channel" where
  "cond_signal ch w = (case w of None \<Rightarrow> ch | Some t \<Rightarrow> upd_thread ch t (\<lambda>th. th\<lparr>phase := Woken\<rparr>))"

section \<open>Operations\<close>

datatype outcome = Returns oop | Propagates | Waits | PrimitiveFails
datatype duration = Seconds int | Nanoseconds nat | Forever | OtherDuration

definition Channel_send :: "Channel \<Rightarrow> oop \<Rightarrow> nat option \<Rightarrow> Channel" where
  "Channel_send ch val w =
     (let ch = ch\<lparr>ch_value := List_append (ch_value ch) val\<rparr> in if ch_waiters ch > 0 then cond_signal ch w else ch)"

definition shift_value :: "Channel \<Rightarrow> (oop \<times> Channel) option" where
  "shift_value ch = map_option (\<lambda>(v, l). (v, ch\<lparr>ch_value := l\<rparr>)) (List_shift (ch_value ch))"

definition Channel_try_receive :: "Channel \<Rightarrow> (oop \<times> Channel) option" where
  "Channel_try_receive ch = (if List_empty_p (ch_value ch) then Some (Qnil, ch) else shift_value ch)"

definition begin_wait :: "Channel \<Rightarrow> nat \<Rightarrow> bool \<Rightarrow> Channel" where
  "begin_wait ch t use_timed_wait =
     upd_thread (ch\<lparr>ch_waiters := ch_waiters ch + 1\<rparr>) t
       (\<lambda>th. th\<lparr>phase := Asleep, timed := use_timed_wait, waiter_set := True, waiter_used := False, thread_sleep := True\<rparr>)"

definition receive_timeout :: "Channel \<Rightarrow> nat \<Rightarrow> duration \<Rightarrow> (outcome \<times> Channel) option" where
  "receive_timeout ch t d =
     (if \<not> List_empty_p (ch_value ch) then map_option (\<lambda>(v, ch). (Returns v, ch)) (shift_value ch)
      else case d of OtherDuration \<Rightarrow> Some (PrimitiveFails, ch)
      | Forever \<Rightarrow> Some (Waits, begin_wait ch t False)
      | _ \<Rightarrow> Some (Waits, begin_wait ch t True))"

definition Channel_receive :: "Channel \<Rightarrow> nat \<Rightarrow> (outcome \<times> Channel) option" where
  "Channel_receive ch t = receive_timeout ch t Forever"

text \<open>The time at which a timed wait ends, from the duration and the time of day in seconds and microseconds.\<close>

definition wait_deadline :: "duration \<Rightarrow> int \<times> nat \<Rightarrow> int \<times> nat" where
  "wait_deadline d now =
     (let (sec, nsec) = (case d of Seconds s \<Rightarrow> (s, 0) | Nanoseconds n \<Rightarrow> (int (n div 1000000000), n mod 1000000000) | _ \<Rightarrow> (0, 0));
          nano = nsec + snd now * 1000
      in (sec + fst now + int (nano div 1000000000), nano mod 1000000000))"

definition process_async :: "Channel \<Rightarrow> nat \<Rightarrow> bool \<times> Channel" where
  "process_async ch t =
     (\<not> raise_reason (ch_threads ch ! t), upd_thread ch t (\<lambda>th. th\<lparr>check_local_interrupts := False\<rparr>))"

definition check_async :: "Channel \<Rightarrow> nat \<Rightarrow> bool \<times> Channel" where
  "check_async ch t = (if check_local_interrupts (ch_threads ch ! t) then process_async ch t else (True, ch))"

definition stop_waiting :: "Channel \<Rightarrow> nat \<Rightarrow> (outcome \<times> Channel) option" where
  "stop_waiting ch t =
     (let ch = upd_thread (ch\<lparr>ch_waiters := ch_waiters ch - 1\<rparr>) t (\<lambda>th. th\<lparr>phase := Running, waiter_set := False, thread_sleep := False\<rparr>);
          (ok, ch) = check_async ch t
      in if \<not> ok then Some (Propagates, ch)
         else if List_empty_p (ch_value ch) then Some (Returns Qnil, ch)
         else map_option (\<lambda>(v, ch). (Returns v, ch)) (shift_value ch))"

definition after_wait :: "Channel \<Rightarrow> nat \<Rightarrow> (outcome \<times> Channel) option" where
  "after_wait ch t =
     (if phase (ch_threads ch ! t) = TimedOut \<or> waiter_used (ch_threads ch ! t) \<or> \<not> List_empty_p (ch_value ch) then stop_waiting ch t
      else Some (Waits, upd_thread ch t (\<lambda>th. th\<lparr>phase := Asleep\<rparr>)))"

text \<open>Waking up a thread (\<open>vm.cpp\<close>, \<open>native_thread.hpp\<close>, \<open>builtin/thread.cpp\<close>).\<close>

definition VM_wakeup :: "Channel \<Rightarrow> nat \<Rightarrow> nat option \<Rightarrow> bool \<times> Channel" where
  "VM_wakeup ch t w =
     (if waiter_set (ch_threads ch ! t)
      then (True, cond_signal (upd_thread ch t (\<lambda>th. th\<lparr>waiter_used := True, waiter_set := False\<rparr>)) w)
      else (False, ch))"

definition register_raise :: "Channel \<Rightarrow> nat \<Rightarrow> Channel" where
  "register_raise ch t = upd_thread ch t (\<lambda>th. th\<lparr>raise_reason := True, check_local_interrupts := True\<rparr>)"

definition Thread_wakeup :: "Channel \<Rightarrow> nat \<Rightarrow> nat option \<Rightarrow> Channel" where
  "Thread_wakeup ch t w = snd (VM_wakeup ch t w)"

definition Thread_raise :: "Channel \<Rightarrow> nat \<Rightarrow> nat option \<Rightarrow> Channel" where
  "Thread_raise ch t w = snd (VM_wakeup (register_raise ch t) t w)"

section \<open>Runs\<close>

datatype event = Sent oop | Took oop | Raised | Quiet

definition event_of :: "Channel \<Rightarrow> outcome \<Rightarrow> event" where
  "event_of ch r = (case r of Returns v \<Rightarrow> (if List_empty_p (ch_value ch) then Quiet else Took v) | _ \<Rightarrow> Quiet)"

inductive channel_step :: "Channel \<Rightarrow> event \<Rightarrow> Channel \<Rightarrow> bool" where
  send: "cond_choice ch w \<Longrightarrow> channel_step ch (Sent v) (Channel_send ch v w)"
| poll: "Channel_try_receive ch = Some (v, ch') \<Longrightarrow> channel_step ch (event_of ch (Returns v)) ch'"
| receive: "in_phase Running ch t \<Longrightarrow> receive_timeout ch t d = Some (r, ch') \<Longrightarrow> channel_step ch (event_of ch r) ch'"
| resume: "awake ch t \<Longrightarrow> after_wait ch t = Some (r, ch') \<Longrightarrow> channel_step ch (event_of ch r) ch'"
| time_out: "in_phase Asleep ch t \<Longrightarrow> timed (ch_threads ch ! t) \<Longrightarrow>
    channel_step ch Quiet (upd_thread ch t (\<lambda>th. th\<lparr>phase := TimedOut\<rparr>))"
| spurious: "in_phase Asleep ch t \<Longrightarrow> channel_step ch Quiet (upd_thread ch t (\<lambda>th. th\<lparr>phase := Woken\<rparr>))"
| wakeup: "t < length (ch_threads ch) \<Longrightarrow> cond_choice ch w \<Longrightarrow> channel_step ch Quiet (Thread_wakeup ch t w)"
| raise: "t < length (ch_threads ch) \<Longrightarrow> cond_choice ch w \<Longrightarrow> channel_step ch Raised (Thread_raise ch t w)"
| interrupts: "in_phase Running ch t \<Longrightarrow> channel_step ch Quiet (snd (check_async ch t))"

inductive channel_run :: "nat \<Rightarrow> event list \<Rightarrow> Channel \<Rightarrow> bool" for n where
  start: "channel_run n [] (Channel_create n)"
| step: "channel_run n tr ch \<Longrightarrow> channel_step ch e ch' \<Longrightarrow> channel_run n (tr @ [e]) ch'"

fun sent_by :: "event list \<Rightarrow> oop list" where
  "sent_by [] = []" | "sent_by (Sent v # tr) = v # sent_by tr" | "sent_by (_ # tr) = sent_by tr"

fun taken_by :: "event list \<Rightarrow> oop list" where
  "taken_by [] = []" | "taken_by (Took v # tr) = v # taken_by tr" | "taken_by (_ # tr) = taken_by tr"

text \<open>How many threads are in a phase, and how a step changes it.\<close>

definition in_phases :: "phase set \<Rightarrow> Channel \<Rightarrow> int" where
  "in_phases ps ch = int (length (filter (\<lambda>th. phase th \<in> ps) (ch_threads ch)))"


lemma filter_length_update:
  "i < length xs \<Longrightarrow> int (length (filter P (xs[i := x]))) = int (length (filter P xs)) - of_bool (P (xs ! i)) + of_bool (P x)"
proof (induction xs arbitrary: i)
  case (Cons y ys)
  then show ?case by (cases i) auto
qed simp

lemma upd_thread_simps [simp]:
  "ch_value (upd_thread ch t f) = ch_value ch" "ch_waiters (upd_thread ch t f) = ch_waiters ch"
  "length (ch_threads (upd_thread ch t f)) = length (ch_threads ch)"
  "t < length (ch_threads ch) \<Longrightarrow> ch_threads (upd_thread ch t f) ! u = (if u = t then f (ch_threads ch ! t) else ch_threads ch ! u)"
  by (auto simp: upd_thread_def nth_list_update)

lemma in_phases_upd:
  "t < length (ch_threads ch) \<Longrightarrow> in_phases ps (upd_thread ch t f) =
    in_phases ps ch - of_bool (phase (ch_threads ch ! t) \<in> ps) + of_bool (phase (f (ch_threads ch ! t)) \<in> ps)"
  by (simp add: in_phases_def upd_thread_def filter_length_update)

lemma in_phases_cong [simp]:
  "in_phases ps (ch\<lparr>ch_value := l\<rparr>) = in_phases ps ch" "in_phases ps (ch\<lparr>ch_waiters := k\<rparr>) = in_phases ps ch"
  by (simp_all add: in_phases_def)

lemma in_phases_ge_0: "0 \<le> in_phases ps ch"
  by (simp add: in_phases_def)

lemma in_phases_split: "in_phases {Asleep, Woken, TimedOut} ch = in_phases {Asleep} ch + in_phases {Woken, TimedOut} ch"
proof -
  have "length (filter (\<lambda>th. phase th \<in> {Asleep, Woken, TimedOut}) ths) =
      length (filter (\<lambda>th. phase th \<in> {Asleep}) ths) + length (filter (\<lambda>th. phase th \<in> {Woken, TimedOut}) ths)" for ths :: "VMThread list"
    by (induction ths) auto
  then show ?thesis by (simp only: in_phases_def of_nat_add)
qed

lemma in_phases_pos: "0 < in_phases ps ch \<longleftrightarrow> (\<exists>t<length (ch_threads ch). phase (ch_threads ch ! t) \<in> ps)"
proof -
  have "0 < in_phases ps ch \<longleftrightarrow> (\<exists>th\<in>set (ch_threads ch). phase th \<in> ps)" by (auto simp: in_phases_def filter_empty_conv)
  also have "\<dots> \<longleftrightarrow> (\<exists>t<length (ch_threads ch). phase (ch_threads ch ! t) \<in> ps)" by (metis in_set_conv_nth)
  finally show ?thesis .
qed

lemma in_phase_length: "in_phase p ch t \<Longrightarrow> t < length (ch_threads ch)"
  by (simp add: in_phase_def)

section \<open>The invariant\<close>

definition no_raise :: "Channel \<Rightarrow> bool" where
  "no_raise ch \<longleftrightarrow> list_all (\<lambda>th. \<not> raise_reason th) (ch_threads ch)"

text \<open>The list of the channel holds \<open>xs\<close>, and \<open>waiters_\<close> counts the threads that wait.\<close>

definition channel_ok :: "Channel \<Rightarrow> oop list \<Rightarrow> bool" where
  "channel_ok ch xs \<longleftrightarrow> list_rep (ch_value ch) xs \<and> ch_waiters ch = in_phases {Asleep} ch + in_phases {Woken, TimedOut} ch"

text \<open>As long as no exception is sent to a thread, there are as many threads awake as values, or nobody sleeps.\<close>

definition alert :: "Channel \<Rightarrow> oop list \<Rightarrow> bool" where
  "alert ch xs \<longleftrightarrow> no_raise ch \<and> (int (length xs) \<le> in_phases {Woken, TimedOut} ch \<or> in_phases {Asleep} ch = 0)"

text \<open>What an event does to the values that wait.\<close>

definition effect :: "event \<Rightarrow> oop list \<Rightarrow> oop list \<Rightarrow> bool" where
  "effect e xs xs' \<longleftrightarrow> (case e of Sent v \<Rightarrow> xs' = xs @ [v] | Took v \<Rightarrow> xs = v # xs' | _ \<Rightarrow> xs' = xs)"

lemma cond_signal_counts:
  assumes "cond_choice ch w"
  shows "in_phases {Asleep} (cond_signal ch w) = in_phases {Asleep} ch - of_bool (in_phases {Asleep} ch > 0)"
    and "in_phases {Woken, TimedOut} (cond_signal ch w) = in_phases {Woken, TimedOut} ch + of_bool (in_phases {Asleep} ch > 0)"
proof -
  have "in_phases {Asleep} (cond_signal ch w) = in_phases {Asleep} ch - of_bool (in_phases {Asleep} ch > 0) \<and>
      in_phases {Woken, TimedOut} (cond_signal ch w) = in_phases {Woken, TimedOut} ch + of_bool (in_phases {Asleep} ch > 0)"
  proof (cases w)
    case None
    with assms have "\<not> in_phases {Asleep} ch > 0"
      by (auto simp: cond_choice_def in_phases_pos list_all_length)
    then show ?thesis using None by (simp add: cond_signal_def)
  next
    case (Some t)
    with assms have "t < length (ch_threads ch)" "phase (ch_threads ch ! t) = Asleep" by (simp_all add: cond_choice_def in_phase_def)
    then show ?thesis using Some in_phases_pos [of "{Asleep}" ch] by (auto simp: cond_signal_def in_phases_upd)
  qed
  then show "in_phases {Asleep} (cond_signal ch w) = in_phases {Asleep} ch - of_bool (in_phases {Asleep} ch > 0)"
    and "in_phases {Woken, TimedOut} (cond_signal ch w) = in_phases {Woken, TimedOut} ch + of_bool (in_phases {Asleep} ch > 0)" by simp_all
qed

lemma cond_signal_simps [simp]:
  "ch_value (cond_signal ch w) = ch_value ch" "ch_waiters (cond_signal ch w) = ch_waiters ch"
  "length (ch_threads (cond_signal ch w)) = length (ch_threads ch)"
  by (simp_all add: cond_signal_def split: option.split)

lemma no_raise_upd: "no_raise ch \<Longrightarrow> (\<And>th. raise_reason (f th) = raise_reason th) \<Longrightarrow> no_raise (upd_thread ch t f)"
  by (cases "t < length (ch_threads ch)")
    (auto simp: no_raise_def upd_thread_def list_all_length nth_list_update list_update_beyond)

lemma no_raise_cong [simp]: "no_raise (ch\<lparr>ch_value := l\<rparr>) = no_raise ch" "no_raise (ch\<lparr>ch_waiters := k\<rparr>) = no_raise ch"
  by (simp_all add: no_raise_def)

lemma no_raise_signal: "no_raise ch \<Longrightarrow> no_raise (cond_signal ch w)"
  by (auto simp: cond_signal_def intro: no_raise_upd split: option.split)

lemma cond_choice_cong [simp]: "cond_choice (ch\<lparr>ch_value := l\<rparr>) w = cond_choice ch w"
  by (simp add: cond_choice_def in_phase_def split: option.split)

lemma cond_choice_upd: "cond_choice ch w \<Longrightarrow> (\<And>th. phase (f th) = phase th) \<Longrightarrow> cond_choice (upd_thread ch t f) w"
  by (cases "t < length (ch_threads ch)")
    (auto simp: cond_choice_def in_phase_def upd_thread_def list_all_length nth_list_update list_update_beyond split: option.splits)

lemma empty_rep: "list_rep l xs \<Longrightarrow> List_empty_p l \<longleftrightarrow> xs = []"
  by (simp add: list_rep_def List_empty_p_def)

lemma shift_value_ok:
  assumes "channel_ok ch xs"
  shows "shift_value ch = Some (v, ch') \<Longrightarrow> channel_ok ch' (tl xs) \<and> v = (if xs = [] then Qnil else hd xs) \<and>
    ch_threads ch' = ch_threads ch \<and> ch_waiters ch' = ch_waiters ch"
  using list_shift_rep [of "ch_value ch" xs] assms by (auto simp: channel_ok_def shift_value_def)


lemma in_phases_same: "(\<And>th. phase (f th) = phase th) \<Longrightarrow> in_phases ps (upd_thread ch t f) = in_phases ps ch"
  by (cases "t < length (ch_threads ch)") (simp_all add: in_phases_upd, simp add: upd_thread_def list_update_beyond)

lemmas counts = in_phases_upd in_phases_same in_phase_def awake_def

lemma check_async_ok:
  assumes "check_async ch t = (ok, ch')"
  shows "ch_value ch' = ch_value ch" and "ch_waiters ch' = ch_waiters ch" and "in_phases ps ch' = in_phases ps ch"
    and "t < length (ch_threads ch) \<Longrightarrow> no_raise ch \<Longrightarrow> ok \<and> no_raise ch'"
  using assms by (auto simp: check_async_def process_async_def in_phases_same no_raise_upd split: if_splits)
    (simp_all add: no_raise_def list_all_length)

lemma send_ok:
  assumes "channel_ok ch xs" and "cond_choice ch w"
  shows "channel_ok (Channel_send ch v w) (xs @ [v])" and "alert ch xs \<Longrightarrow> alert (Channel_send ch v w) (xs @ [v])"
proof -
  let ?ch = "ch\<lparr>ch_value := List_append (ch_value ch) v\<rparr>"
  have c: "list_rep (List_append (ch_value ch) v) (xs @ [v])" "ch_waiters ch = in_phases {Asleep} ch + in_phases {Woken, TimedOut} ch"
    using assms(1) list_append_rep by (auto simp: channel_ok_def)
  have choice: "cond_choice ?ch w" using assms(2) by simp
  show "channel_ok (Channel_send ch v w) (xs @ [v])"
    using c cond_signal_counts [OF choice] by (auto simp: channel_ok_def Channel_send_def Let_def)
  assume "alert ch xs"
  then show "alert (Channel_send ch v w) (xs @ [v])"
    using c(2) cond_signal_counts [OF choice] in_phases_ge_0 [of "{Asleep}" ch] in_phases_ge_0 [of "{Woken, TimedOut}" ch]
    by (auto simp: alert_def Channel_send_def Let_def no_raise_signal)
qed

lemma shift_effect:
  assumes "channel_ok ch xs" and "shift_value ch = Some (v, ch')" and "xs \<noteq> []"
  shows "channel_ok ch' (tl xs)" and "effect (event_of ch (Returns v)) xs (tl xs)"
    and "in_phases ps ch' = in_phases ps ch" and "no_raise ch' = no_raise ch"
proof -
  have "list_rep (ch_value ch) xs" using assms(1) by (simp add: channel_ok_def)
  with assms shift_value_ok [OF assms(1,2)] show "channel_ok ch' (tl xs)" "effect (event_of ch (Returns v)) xs (tl xs)"
    by (auto simp: effect_def event_of_def empty_rep)
  show "in_phases ps ch' = in_phases ps ch" "no_raise ch' = no_raise ch"
    using shift_value_ok [OF assms(1,2)] by (simp_all add: in_phases_def no_raise_def)
qed

text \<open>One step: some list of values \<open>xs'\<close> follows on \<open>xs\<close> as the event says.\<close>

definition step_ok :: "Channel \<Rightarrow> oop list \<Rightarrow> event \<Rightarrow> Channel \<Rightarrow> bool" where
  "step_ok ch xs e ch' \<longleftrightarrow> (\<exists>xs'. effect e xs xs' \<and> channel_ok ch' xs' \<and> (e \<noteq> Raised \<longrightarrow> alert ch xs \<longrightarrow> alert ch' xs'))"

lemma shift_step:
  assumes "channel_ok ch xs" and "shift_value ch = Some (v, ch')" and "xs \<noteq> []"
  shows "step_ok ch xs (event_of ch (Returns v)) ch'"
  using shift_effect [OF assms] assms(3) by (fastforce simp: step_ok_def alert_def)

lemma receive_ok:
  assumes "channel_ok ch xs" and "in_phase Running ch t" and "receive_timeout ch t d = Some (r, ch')"
  shows "step_ok ch xs (event_of ch r) ch'"
proof (cases "xs = []")
  case False
  moreover have "list_rep (ch_value ch) xs" using assms(1) by (simp add: channel_ok_def)
  ultimately obtain v where "r = Returns v" "shift_value ch = Some (v, ch')"
    using assms(3) by (auto simp: receive_timeout_def empty_rep)
  with False assms(1) show ?thesis using shift_step by blast
next
  case True
  have rep: "list_rep (ch_value ch) []" using True assms(1) by (simp add: channel_ok_def)
  have "channel_ok (begin_wait ch t b) [] \<and> (alert ch [] \<longrightarrow> alert (begin_wait ch t b) [])" for b
    using assms(1,2) True in_phases_ge_0
    by (auto simp: begin_wait_def channel_ok_def counts alert_def intro!: no_raise_upd)
  then show ?thesis using assms True rep
    by (cases d) (auto simp: receive_timeout_def empty_rep step_ok_def effect_def event_of_def)
qed

lemma after_wait_ok:
  assumes "channel_ok ch xs" and "awake ch t" and "after_wait ch t = Some (r, ch')"
  shows "step_ok ch xs (event_of ch r) ch'"
proof -
  define stop where "stop = upd_thread (ch\<lparr>ch_waiters := ch_waiters ch - 1\<rparr>) t (\<lambda>th. th\<lparr>phase := Running, waiter_set := False, thread_sleep := False\<rparr>)"
  obtain ok ch1 where c: "check_async stop t = (ok, ch1)" by fastforce
  have rep: "list_rep (ch_value ch) xs" using assms(1) by (simp add: channel_ok_def)
  have t: "t < length (ch_threads ch)" using assms(2) by (auto simp: awake_def in_phase_def)
  have counts1: "in_phases {Asleep} stop = in_phases {Asleep} ch" "in_phases {Woken, TimedOut} stop = in_phases {Woken, TimedOut} ch - 1"
    using assms(2) by (auto simp: stop_def counts)
  have nr: "no_raise ch \<Longrightarrow> no_raise stop" by (auto simp: stop_def intro: no_raise_upd)
  have val: "ch_value stop = ch_value ch" "ch_waiters stop = ch_waiters ch - 1" "length (ch_threads stop) = length (ch_threads ch)"
    by (simp_all add: stop_def)
  have ok1: "channel_ok ch1 xs" using assms(1) counts1 val check_async_ok(1-3) [OF c] by (simp add: channel_ok_def)
  have nr1: "no_raise ch \<Longrightarrow> ok \<and> no_raise ch1" using check_async_ok(4) [OF c] t nr val by simp
  consider (wait) "r = Waits" "xs = []" "ch' = upd_thread ch t (\<lambda>th. th\<lparr>phase := Asleep\<rparr>)"
    | (raised) "\<not> ok" "r = Propagates" "ch' = ch1"
    | (none) "ok" "r = Returns Qnil" "xs = []" "ch' = ch1"
    | (some) v where "ok" "r = Returns v" "xs \<noteq> []" "shift_value ch1 = Some (v, ch')"
    using assms(3) c rep empty_rep [OF rep] check_async_ok(1) [OF c] val(1)
    by (auto simp: after_wait_def stop_waiting_def stop_def [symmetric] Let_def split: if_splits)
  then show ?thesis
  proof cases
    case wait
    have "channel_ok ch' [] \<and> (alert ch [] \<longrightarrow> alert ch' [])"
      using assms(1,2) wait in_phases_ge_0 by (auto simp: channel_ok_def counts alert_def intro!: no_raise_upd)
    with wait show ?thesis by (auto simp: step_ok_def effect_def event_of_def)
  next
    case raised
    with ok1 nr1 show ?thesis by (auto simp: step_ok_def effect_def event_of_def alert_def)
  next
    case none
    with ok1 nr1 empty_rep [OF rep] show ?thesis using in_phases_ge_0
      by (auto simp: step_ok_def effect_def event_of_def alert_def)
  next
    case some
    have ev: "event_of ch (Returns v) = event_of ch1 (Returns v)"
      using val(1) check_async_ok(1) [OF c] by (simp add: event_of_def)
    show ?thesis
      using shift_effect [OF ok1 some(4,3)] nr1 some(2,3) counts1 check_async_ok(3) [OF c] ev
      by (cases xs) (auto simp: step_ok_def alert_def)
  qed
qed

lemma wakeup_ok:
  assumes "channel_ok ch xs" and "cond_choice ch w"
  shows "channel_ok (snd (VM_wakeup ch t w)) xs" and "alert ch xs \<Longrightarrow> alert (snd (VM_wakeup ch t w)) xs"
proof -
  let ?ch = "upd_thread ch t (\<lambda>th. th\<lparr>waiter_used := True, waiter_set := False\<rparr>)"
  have choice: "cond_choice ?ch w" using assms(2) by (rule cond_choice_upd) simp
  show "channel_ok (snd (VM_wakeup ch t w)) xs"
    using assms(1) cond_signal_counts [OF choice] by (auto simp: VM_wakeup_def channel_ok_def in_phases_same)
  assume "alert ch xs"
  then show "alert (snd (VM_wakeup ch t w)) xs"
    using cond_signal_counts [OF choice] in_phases_ge_0 [of "{Asleep}" ch]
    by (auto simp: VM_wakeup_def alert_def in_phases_same no_raise_signal no_raise_upd)
qed

lemma channel_step_ok: "channel_step ch e ch' \<Longrightarrow> channel_ok ch xs \<Longrightarrow> step_ok ch xs e ch'"
proof (induction rule: channel_step.induct)
  case (send ch w v)
  then show ?case using send_ok by (auto simp: step_ok_def effect_def)
next
  case (poll ch v ch')
  then show ?case
    using shift_step [OF poll(2), of v ch'] by (auto simp: Channel_try_receive_def channel_ok_def empty_rep step_ok_def effect_def event_of_def split: if_splits)
next
  case (receive ch t d r ch')
  then show ?case using receive_ok by blast
next
  case (resume ch t r ch')
  then show ?case using after_wait_ok by blast
next
  case (time_out ch t)
  then show ?case using in_phases_pos [of "{Asleep}" ch]
    by (auto simp: step_ok_def effect_def channel_ok_def alert_def counts intro!: no_raise_upd)
next
  case (spurious ch t)
  then show ?case using in_phases_pos [of "{Asleep}" ch]
    by (auto simp: step_ok_def effect_def channel_ok_def alert_def counts intro!: no_raise_upd)
next
  case (wakeup t ch w)
  then show ?case using wakeup_ok by (auto simp: step_ok_def effect_def Thread_wakeup_def)
next
  case (raise t ch w)
  have "channel_ok (register_raise ch t) xs" using raise(3) by (simp add: register_raise_def channel_ok_def in_phases_same)
  moreover have "cond_choice (register_raise ch t) w" using raise(2) by (auto simp: register_raise_def intro: cond_choice_upd)
  ultimately show ?case using wakeup_ok(1) by (auto simp: step_ok_def effect_def Thread_raise_def)
next
  case (interrupts ch t)
  obtain ok ch1 where "check_async ch t = (ok, ch1)" by fastforce
  with interrupts check_async_ok [OF this] show ?case
    by (auto simp: step_ok_def effect_def channel_ok_def alert_def in_phase_def)
qed


section \<open>Every run\<close>

lemma sent_by_append: "sent_by (tr @ tr') = sent_by tr @ sent_by tr'"
  by (induction tr rule: sent_by.induct) simp_all

lemma taken_by_append: "taken_by (tr @ tr') = taken_by tr @ taken_by tr'"
  by (induction tr rule: taken_by.induct) simp_all

lemma Channel_create_ok: "channel_ok (Channel_create n) []" "alert (Channel_create n) []"
  by (simp_all add: channel_ok_def alert_def Channel_create_def in_phases_def new_thread_def List_create_holds no_raise_def list_all_length)

lemma channel_run_ok: "channel_run n tr ch \<Longrightarrow>
    \<exists>xs. channel_ok ch xs \<and> sent_by tr = taken_by tr @ xs \<and> (Raised \<notin> set tr \<longrightarrow> alert ch xs)"
proof (induction rule: channel_run.induct)
  case start
  then show ?case using Channel_create_ok by (intro exI [of _ "[]"]) simp
next
  case (step tr ch e ch')
  then obtain xs where xs: "channel_ok ch xs" "sent_by tr = taken_by tr @ xs" "Raised \<notin> set tr \<Longrightarrow> alert ch xs" by blast
  from channel_step_ok [OF step.hyps(2) xs(1)] obtain xs' where "effect e xs xs'" "channel_ok ch' xs'" "e \<noteq> Raised \<Longrightarrow> alert ch xs \<Longrightarrow> alert ch' xs'"
    by (auto simp: step_ok_def)
  then show ?case using xs by (cases e) (auto simp: effect_def sent_by_append taken_by_append)
qed

text \<open>C7. Whatever threads send, receive, wait with or without a limit of time, wake up and interrupt one another, in any order: the
  values received from a channel, by all threads together, are the values sent, in the order in which they were
  sent, none twice and none lost; the rest is the content of the list, and \<open>waiters_\<close> is the number of the threads that wait.\<close>

theorem channel_delivers_in_order:
  assumes "channel_run n tr ch"
  shows "\<exists>xs. list_rep (ch_value ch) xs \<and> sent_by tr = taken_by tr @ xs \<and>
    ch_waiters ch = int (length (filter (\<lambda>th. phase th \<in> {Asleep, Woken, TimedOut}) (ch_threads ch)))"
  using channel_run_ok [OF assms] in_phases_split [of ch] by (auto simp: channel_ok_def in_phases_def)

theorem channel_delivers_in_order_witness:
  "\<exists>ch. channel_run 1 [Sent 5, Took 5, Sent 7] ch \<and> list_rep (ch_value ch) [7]"
proof -
  define ch1 where "ch1 = Channel_send (Channel_create 1) 5 None"
  define ch2 where "ch2 = snd (the (Channel_try_receive ch1))"
  have idle: "cond_choice (Channel_create 1) None" by (simp add: cond_choice_def Channel_create_def new_thread_def)
  have poll: "Channel_try_receive ch1 = Some (5, ch2)" "event_of ch1 (Returns 5) = Took 5" "cond_choice ch2 None"
    by (simp_all add: ch2_def ch1_def Channel_send_def Channel_create_def Channel_try_receive_def shift_value_def List_append_def
        List_create_def List_shift_def List_empty_p_def event_of_def cond_choice_def new_thread_def)
  have "channel_run 1 ([] @ [Sent 5]) ch1" unfolding ch1_def by (intro channel_run.step [OF channel_run.start] channel_step.send idle)
  then have "channel_run 1 ([Sent 5] @ [Took 5]) ch2"
    using channel_step.poll [OF poll(1)] poll(2) by (intro channel_run.step) simp_all
  then have run: "channel_run 1 ([Sent 5, Took 5] @ [Sent 7]) (Channel_send ch2 7 None)"
    using channel_step.send [OF poll(3), of 7] by (intro channel_run.step) simp_all
  from channel_delivers_in_order [OF this] have "list_rep (ch_value (Channel_send ch2 7 None)) [7]" by auto
  with run show ?thesis by auto
qed

text \<open>C8. No wakeup is lost as long as no exception is sent to a thread: when a channel holds values and threads wait
  on it, at least one of these threads has been woken up, and the value it receives when it goes on is the first of the channel.\<close>

theorem channel_no_lost_wakeup:
  assumes "channel_run n tr ch" and "Raised \<notin> set tr" and "\<not> List_empty_p (ch_value ch)" and "has_readers_p ch"
  shows "\<exists>t ch'. awake ch t \<and> after_wait ch t = Some (Returns (List_locate (ch_value ch) 0), ch')"
proof -
  obtain xs where xs: "channel_ok ch xs" "alert ch xs" using channel_run_ok [OF assms(1)] assms(2) by blast
  have rep: "list_rep (ch_value ch) xs" using xs(1) by (simp add: channel_ok_def)
  have ne: "xs \<noteq> []" using assms(3) empty_rep [OF rep] by simp
  have "0 < in_phases {Asleep} ch + in_phases {Woken, TimedOut} ch"
    using xs(1) assms(4) by (simp add: has_readers_p_def channel_ok_def)
  moreover have "0 < int (length xs)" using ne by simp
  ultimately have "0 < in_phases {Woken, TimedOut} ch" using xs(2) unfolding alert_def by linarith
  then obtain t where t: "awake ch t" "t < length (ch_threads ch)" by (auto simp: in_phases_pos awake_def in_phase_def)
  define stop where "stop = upd_thread (ch\<lparr>ch_waiters := ch_waiters ch - 1\<rparr>) t (\<lambda>th. th\<lparr>phase := Running, waiter_set := False, thread_sleep := False\<rparr>)"
  obtain ok ch1 where c: "check_async stop t = (ok, ch1)" by fastforce
  have "no_raise stop" using xs(2) by (auto simp: stop_def alert_def intro: no_raise_upd)
  then have ok: ok using check_async_ok(4) [OF c] t(2) by (simp add: stop_def)
  have val: "ch_value ch1 = ch_value ch" using check_async_ok(1) [OF c] by (simp add: stop_def)
  obtain l where l: "List_shift (ch_value ch) = Some (hd xs, l)" using list_shift_rep [OF rep] ne by auto
  have "List_locate (ch_value ch) 0 = hd xs" using list_locate_rep [OF rep, of 0] ne by (simp add: hd_conv_nth)
  then have "after_wait ch t = Some (Returns (List_locate (ch_value ch) 0), ch1\<lparr>ch_value := l\<rparr>)"
    using assms(3) c ok val l by (simp add: after_wait_def stop_waiting_def stop_def [symmetric] shift_value_def)
  with t(1) show ?thesis by blast
qed


text \<open>Two threads that wait: the events after which both sleep.\<close>

definition waiting2 :: Channel where
  "waiting2 = begin_wait (begin_wait (Channel_create 2) 0 False) 1 False"

lemmas two_threads = waiting2_def begin_wait_def Channel_create_def upd_thread_def new_thread_def numeral_2_eq_2

lemma waiting2_run: "channel_run 2 [Quiet, Quiet] waiting2"
proof -
  let ?ch = "begin_wait (Channel_create 2) 0 False"
  have "channel_step (Channel_create 2) (event_of (Channel_create 2) Waits) ?ch"
    by (rule channel_step.receive [of _ 0 Forever])
      (simp_all add: in_phase_def receive_timeout_def two_threads List_empty_p_def List_create_def)
  then have "channel_run 2 ([] @ [Quiet]) ?ch" by (intro channel_run.step [OF channel_run.start]) (simp add: event_of_def)
  moreover have "channel_step ?ch (event_of ?ch Waits) waiting2"
    by (rule channel_step.receive [of _ 1 Forever])
      (simp_all add: in_phase_def receive_timeout_def two_threads List_empty_p_def List_create_def)
  ultimately have "channel_run 2 ([Quiet] @ [Quiet]) waiting2" by (intro channel_run.step) (simp_all add: event_of_def)
  then show ?thesis by simp
qed

theorem channel_no_lost_wakeup_witness:
  "\<exists>ch t ch'. channel_run 2 [Quiet, Quiet, Sent 5] ch \<and> awake ch t \<and> after_wait ch t = Some (Returns 5, ch')"
proof -
  let ?ch = "Channel_send waiting2 5 (Some 1)"
  have choice: "cond_choice waiting2 (Some 1)" by (simp add: cond_choice_def in_phase_def two_threads)
  have run: "channel_run 2 ([Quiet, Quiet] @ [Sent 5]) ?ch"
    by (intro channel_run.step [OF waiting2_run] channel_step.send choice)
  have "\<not> List_empty_p (ch_value ?ch)" "has_readers_p ?ch" "List_locate (ch_value ?ch) 0 = 5"
    by (simp_all add: Channel_send_def cond_signal_def has_readers_p_def two_threads List_append_def List_create_def List_empty_p_def List_locate_def)
  with channel_no_lost_wakeup [OF run] obtain t ch' where "awake ?ch t" "after_wait ?ch t = Some (Returns 5, ch')" by auto
  with run show ?thesis by auto
qed

definition raised2 :: Channel where
  "raised2 = upd_thread (Thread_raise waiting2 0 (Some 1)) 1 (\<lambda>th. th\<lparr>phase := Asleep\<rparr>)"

lemma raised2_threads:
  "ch_threads raised2 =
    [\<lparr>phase = Asleep, timed = False, waiter_set = False, waiter_used = True, check_local_interrupts = True, raise_reason = True, thread_sleep = True\<rparr>,
     \<lparr>phase = Asleep, timed = False, waiter_set = True, waiter_used = False, check_local_interrupts = False, raise_reason = False, thread_sleep = True\<rparr>]"
  "ch_value raised2 = List_create" "ch_waiters raised2 = 2"
  by (simp_all add: raised2_def Thread_raise_def VM_wakeup_def register_raise_def cond_signal_def two_threads)

lemma raised2_run: "channel_run 2 [Quiet, Quiet, Raised, Quiet] raised2"
proof -
  let ?ch = "Thread_raise waiting2 0 (Some 1)"
  have "channel_run 2 ([Quiet, Quiet] @ [Raised]) ?ch"
    by (intro channel_run.step [OF waiting2_run] channel_step.raise) (simp_all add: cond_choice_def in_phase_def two_threads)
  moreover have "channel_step ?ch (event_of ?ch Waits) raised2"
    by (rule channel_step.resume [of _ 1])
      (simp_all add: awake_def in_phase_def after_wait_def raised2_def Thread_raise_def VM_wakeup_def register_raise_def cond_signal_def
        two_threads List_empty_p_def List_create_def)
  ultimately have "channel_run 2 ([Quiet, Quiet, Raised] @ [Quiet]) raised2"
    by (intro channel_run.step) (simp_all add: event_of_def)
  then show ?thesis by simp
qed

text \<open>C34. An exception sent to a thread may wake up another one. \<open>WaitingOnCondition\<close> signals the condition, which all threads
  that wait on the channel share: with two of them, the exception for the first can wake up the second, which finds
  no value and sleeps again. Both sleep then, with the exception pending, and neither another exception nor a
  wakeup, sent to the first thread any number of times, has any effect on it.\<close>

theorem raise_wakes_wrong_thread:
  "\<exists>ch. channel_run 2 [Quiet, Quiet, Raised, Quiet] ch \<and> raise_reason (ch_threads ch ! 0) \<and> (\<forall>t. \<not> awake ch t) \<and>
    (\<forall>k w. in_phase Asleep (((\<lambda>ch. Thread_raise ch 0 w) ^^ k) ch) 0 \<and> in_phase Asleep (((\<lambda>ch. Thread_wakeup ch 0 w) ^^ k) ch) 0)"
proof (intro exI conjI allI)
  show "channel_run 2 [Quiet, Quiet, Raised, Quiet] raised2" by (rule raised2_run)
  show "raise_reason (ch_threads raised2 ! 0)" by (simp add: raised2_threads)
  show "\<not> awake raised2 t" for t by (cases t) (auto simp: awake_def in_phase_def raised2_threads nth_Cons split: nat.splits)
  have "Thread_raise raised2 0 w = raised2" for w
    by (rule Channel.equality) (simp_all add: Thread_raise_def VM_wakeup_def register_raise_def upd_thread_def raised2_threads)
  then have "((\<lambda>ch. Thread_raise ch 0 w) ^^ k) raised2 = raised2" for k w by (induction k) simp_all
  then show "in_phase Asleep (((\<lambda>ch. Thread_raise ch 0 w) ^^ k) raised2) 0" for k w by (simp add: in_phase_def raised2_threads)
  have "Thread_wakeup raised2 0 w = raised2" for w
    by (simp add: Thread_wakeup_def VM_wakeup_def raised2_threads)
  then have "((\<lambda>ch. Thread_wakeup ch 0 w) ^^ k) raised2 = raised2" for k w by (induction k) simp_all
  then show "in_phase Asleep (((\<lambda>ch. Thread_wakeup ch 0 w) ^^ k) raised2) 0" for k w by (simp add: in_phase_def raised2_threads)
qed

text \<open>After that the next value can be lost to the second thread: it wakes up the first one, which leaves with the exception.\<close>

theorem raise_loses_wakeup:
  "\<exists>ch. channel_run 2 [Quiet, Quiet, Raised, Quiet, Sent v, Quiet] ch \<and> \<not> List_empty_p (ch_value ch) \<and> in_phase Asleep ch 1 \<and>
    (\<forall>t. \<not> awake ch t)"
proof -
  let ?ch = "Channel_send raised2 v (Some 0)"
  have run: "channel_run 2 ([Quiet, Quiet, Raised, Quiet] @ [Sent v]) ?ch"
    by (intro channel_run.step [OF raised2_run] channel_step.send) (simp add: cond_choice_def in_phase_def raised2_threads)
  define ch' where "ch' = snd (the (after_wait ?ch 0))"
  have "after_wait ?ch 0 = Some (Propagates, ch')" and ths: "map phase (ch_threads ch') = [Running, Asleep]" "\<not> List_empty_p (ch_value ch')"
    by (simp_all add: ch'_def after_wait_def stop_waiting_def check_async_def process_async_def Channel_send_def cond_signal_def upd_thread_def
        raised2_threads List_append_def List_create_def List_empty_p_def)
  then have "channel_step ?ch (event_of ?ch Propagates) ch'"
    by (intro channel_step.resume [of _ 0]) (simp_all add: awake_def in_phase_def Channel_send_def cond_signal_def upd_thread_def raised2_threads)
  then have "channel_run 2 (([Quiet, Quiet, Raised, Quiet] @ [Sent v]) @ [Quiet]) ch'"
    by (intro channel_run.step [OF run]) (simp add: event_of_def)
  moreover obtain a b where "ch_threads ch' = [a, b]" "phase a = Running" "phase b = Asleep" using ths(1) by auto
  then have "in_phase Asleep ch' 1" "\<not> awake ch' t" for t
    by (auto simp: in_phase_def awake_def nth_Cons split: nat.splits)
  ultimately show ?thesis using ths(2) by auto
qed

text \<open>The time at which a timed wait ends is the time of day and the duration together, as a normal \<open>timespec\<close>.\<close>

lemma nat_split: "int (k div m) * int m + int (k mod m) = int k"
  by (simp flip: of_nat_mult of_nat_add)

lemmas nanoseconds_split = nat_split [of _ 1000000000, unfolded of_nat_numeral]

lemma wait_deadline_exact:
  assumes "d = Seconds s \<and> time = s * 1000000000 \<or> d = Nanoseconds n \<and> time = int n"
  shows "snd (wait_deadline d now) < 1000000000 \<and>
    fst (wait_deadline d now) * 1000000000 + int (snd (wait_deadline d now)) = time + fst now * 1000000000 + int (snd now * 1000)"
proof -
  define sec nsec where "sec = (case d of Seconds s \<Rightarrow> s | Nanoseconds n \<Rightarrow> int (n div 1000000000) | _ \<Rightarrow> 0)"
    and "nsec = (case d of Nanoseconds n \<Rightarrow> n mod 1000000000 | _ \<Rightarrow> 0)"
  have time: "sec * 1000000000 + int nsec = time"
    using assms nanoseconds_split [of n] by (auto simp: sec_def nsec_def)
  have dl: "wait_deadline d now =
      (sec + fst now + int ((nsec + snd now * 1000) div 1000000000), (nsec + snd now * 1000) mod 1000000000)"
    by (simp add: wait_deadline_def sec_def nsec_def Let_def split: duration.split)
  have "(sec + fst now + int ((nsec + snd now * 1000) div 1000000000)) * 1000000000 + int ((nsec + snd now * 1000) mod 1000000000)
      = sec * 1000000000 + fst now * 1000000000 + int (nsec + snd now * 1000)"
    using nanoseconds_split [of "nsec + snd now * 1000"] by (simp only: distrib_right)
  then show ?thesis using time unfolding dl by (simp only: fst_conv snd_conv of_nat_add) simp
qed

end
