(* ===== verification/Vm_Immix.thy ===== *)
theory Vm_Immix
  imports Prelude
begin

text \<open>
  The Immix heap (\<open>vm/util/immix.hpp\<close>): chunks of 32 blocks, blocks of 256 lines, lines of 128 bytes. A block has a table
  of the lines in use, which the collector marks; an allocator fills the holes between them. An address is a natural
  number, a block is named by the numbers of its chunk and of its place in it. The memory that the operating
  system gives for the chunks is a parameter, the results of the two calls of \<open>mmap\<close> for each chunk. The partial functions
  are loops that need not end; \<open>None\<close> is then their result, and also that of a write behind the table of lines.
\<close>

section \<open>Blocks\<close>

abbreviation cBlockSize :: nat where "cBlockSize \<equiv> 32768"
abbreviation cLineSize :: nat where "cLineSize \<equiv> 128"
abbreviation cLineTableSize :: nat where "cLineTableSize \<equiv> 256"
abbreviation cChunkSize :: nat where "cChunkSize \<equiv> 1048576"
abbreviation cBlocksPerChunk :: nat where "cBlocksPerChunk \<equiv> 32"

datatype BlockStatus = cFree | cRecyclable | cUnavailable | cEvacuate

record Block =
  b_address :: nat
  b_status :: BlockStatus
  b_holes :: nat
  b_lines_used :: nat
  b_objects :: nat
  b_object_bytes :: nat
  b_lines :: "bool list"

definition fresh_lines :: "bool list" where "fresh_lines = True # replicate 255 False"

definition new_block :: "nat \<Rightarrow> Block" where
  "new_block addr = \<lparr>b_address = addr, b_status = cFree, b_holes = 1, b_lines_used = 1, b_objects = 0, b_object_bytes = 0,
     b_lines = fresh_lines\<rparr>"

definition clear_lines :: "Block \<Rightarrow> Block" where
  "clear_lines b = b\<lparr>b_objects := 0, b_object_bytes := 0, b_lines := fresh_lines\<rparr>"

definition align :: "nat \<Rightarrow> nat" where "align addr = addr div cBlockSize * cBlockSize"

definition address_of_line :: "Block \<Rightarrow> nat \<Rightarrow> nat" where "address_of_line b line = b_address b + line * cLineSize"

definition mark_line :: "Block \<Rightarrow> nat \<Rightarrow> Block option" where
  "mark_line b line = (if line < cLineTableSize then Some (b\<lparr>b_lines := (b_lines b)[line := True]\<rparr>) else None)"

primrec mark_lines :: "Block \<Rightarrow> nat \<Rightarrow> nat \<Rightarrow> Block option" where
  "mark_lines b line 0 = Some b"
| "mark_lines b line (Suc n) = Option.bind (mark_lines b line n) (\<lambda>b. mark_line b (line + n))"

definition Block_mark_address :: "Block \<Rightarrow> nat \<Rightarrow> nat \<Rightarrow> Block option" where
  "Block_mark_address b addr sz =
     (let line = (addr - b_address b) div cLineSize;
          line_offset = addr mod cLineSize;
          additional_lines = (line_offset + sz - 1) div cLineSize
      in map_option (\<lambda>b. b\<lparr>b_objects := b_objects b + 1, b_object_bytes := b_object_bytes b + sz\<rparr>)
           (mark_lines b line (1 + additional_lines)))"

fun stats_loop :: "bool list \<Rightarrow> bool \<Rightarrow> nat \<Rightarrow> nat \<Rightarrow> nat \<times> nat" where
  "stats_loop [] inside holes used = (holes, used)"
| "stats_loop (line # lines) inside holes used =
     (if \<not> line then stats_loop lines True (if inside then holes else holes + 1) used
      else stats_loop lines False holes (used + 1))"

definition update_stats :: "Block \<Rightarrow> Block" where
  "update_stats b =
     (let (holes, used) = stats_loop (b_lines b) False 0 0
      in b\<lparr>b_holes := holes, b_lines_used := used,
           b_status := (if used = 1 then cFree else if holes > 1 then cRecyclable else cUnavailable)\<rparr>)"

definition usable :: "Block \<Rightarrow> bool" where "usable b \<longleftrightarrow> b_status b = cFree \<or> b_status b = cRecyclable"

section \<open>Chunks and the block allocator\<close>

type_synonym bpos = "nat \<times> nat"

text \<open>A chunk starts at the first address that is aligned in what the operating system has given for it.\<close>

definition chunk_base :: "nat \<times> nat \<Rightarrow> nat" where
  "chunk_base sys = (if fst sys = align (fst sys) then fst sys else align (snd sys + cBlockSize))"

definition chunk_region :: "nat \<times> nat \<Rightarrow> nat \<times> nat" where
  "chunk_region sys = (if fst sys = align (fst sys) then (fst sys, cChunkSize) else (snd sys, cChunkSize + cBlockSize))"

definition new_chunk :: "nat \<Rightarrow> Block list" where
  "new_chunk base = map (\<lambda>index. new_block (base + index * cBlockSize)) [0..<cBlocksPerChunk]"

record BlockAllocator =
  chunks :: "Block list list"
  current_chunk :: "nat option"
  chunk_cursor :: nat
  block_cursor :: nat

definition BlockAllocator_create :: BlockAllocator where
  "BlockAllocator_create = \<lparr>chunks = [], current_chunk = None, chunk_cursor = 0, block_cursor = 0\<rparr>"

definition block_ref :: "BlockAllocator \<Rightarrow> bpos \<Rightarrow> Block" where "block_ref ba pos = chunks ba ! fst pos ! snd pos"

definition add_chunk :: "(nat \<Rightarrow> nat \<times> nat) \<Rightarrow> BlockAllocator \<Rightarrow> BlockAllocator" where
  "add_chunk mmap ba =
     ba\<lparr>chunks := chunks ba @ [new_chunk (chunk_base (mmap (length (chunks ba))))], chunk_cursor := length (chunks ba),
        block_cursor := 1, current_chunk := Some (length (chunks ba))\<rparr>"

definition next_chunk :: "(nat \<Rightarrow> nat \<times> nat) \<Rightarrow> BlockAllocator \<Rightarrow> BlockAllocator" where
  "next_chunk mmap ba =
     (if block_cursor ba \<ge> cBlocksPerChunk
      then let ba = ba\<lparr>chunk_cursor := chunk_cursor ba + 1\<rparr>;
               ba = (if chunk_cursor ba \<ge> length (chunks ba) then add_chunk mmap ba else ba\<lparr>block_cursor := 0\<rparr>)
           in ba\<lparr>current_chunk := Some (chunk_cursor ba)\<rparr>
      else ba)"

partial_function (option) get_block_loop :: "(nat \<Rightarrow> nat \<times> nat) \<Rightarrow> BlockAllocator \<Rightarrow> (bpos \<times> BlockAllocator) option" where
  "get_block_loop mmap ba =
     (let ba = next_chunk mmap ba;
          pos = (the (current_chunk ba), block_cursor ba);
          ba = ba\<lparr>block_cursor := block_cursor ba + 1\<rparr>
      in if usable (block_ref ba pos) then Some (pos, ba) else get_block_loop mmap ba)"

definition get_block :: "(nat \<Rightarrow> nat \<times> nat) \<Rightarrow> BlockAllocator \<Rightarrow> (bpos \<times> BlockAllocator) option" where
  "get_block mmap ba =
     (case current_chunk ba of None \<Rightarrow> let ba = add_chunk mmap ba in Some ((the (current_chunk ba), 0), ba)
      | Some _ \<Rightarrow> get_block_loop mmap ba)"

definition BlockAllocator_reset :: "BlockAllocator \<Rightarrow> BlockAllocator" where
  "BlockAllocator_reset ba =
     ba\<lparr>chunks := map (map update_stats) (chunks ba), chunk_cursor := 0, block_cursor := 0, current_chunk := Some 0\<rparr>"

section \<open>Holes and allocators\<close>

record HoleFinder =
  h_cursor :: nat
  h_limit :: nat
  hole_start_line :: nat
  h_block :: bpos

text \<open>The first line from \<open>i\<close> on that is not in the state \<open>used\<close>.\<close>

function next_line :: "bool \<Rightarrow> bool list \<Rightarrow> nat \<Rightarrow> nat" where
  "next_line used lines i = (if i < cLineTableSize \<and> lines ! i = used then next_line used lines (i + 1) else i)"
  by pat_completeness auto
termination by (relation "measure (\<lambda>(used, lines, i). cLineTableSize - i)") auto

declare next_line.simps [simp del]

definition find_hole :: "Block \<Rightarrow> HoleFinder \<Rightarrow> bool \<times> HoleFinder" where
  "find_hole b hf =
     (let i = next_line True (b_lines b) (hole_start_line hf)
      in if i < cLineTableSize
         then let j = next_line False (b_lines b) i
              in (True, hf\<lparr>h_cursor := address_of_line b i, hole_start_line := j, h_limit := address_of_line b j\<rparr>)
         else (False, hf\<lparr>hole_start_line := i\<rparr>))"

definition HoleFinder_reset :: "Block \<Rightarrow> bpos \<Rightarrow> HoleFinder \<Rightarrow> bool \<times> HoleFinder" where
  "HoleFinder_reset b pos hf = find_hole b (hf\<lparr>h_block := pos, hole_start_line := 0\<rparr>)"

definition bump :: "HoleFinder \<Rightarrow> nat \<Rightarrow> nat \<times> HoleFinder" where
  "bump hf sz = (h_cursor hf, hf\<lparr>h_cursor := h_cursor hf + sz\<rparr>)"

text \<open>In one block; \<open>Inl\<close> when there is no hole for the object, for the null address.\<close>

partial_function (option) single_allocate :: "Block \<Rightarrow> HoleFinder \<Rightarrow> nat \<Rightarrow> (nat option \<times> HoleFinder) option" where
  "single_allocate b hf sz =
     (if h_cursor hf + sz > h_limit hf
      then (case find_hole b hf of (found, hf) \<Rightarrow> if found then single_allocate b hf sz else Some (None, hf))
      else let (a, hf) = bump hf sz in Some (Some a, hf))"

partial_function (option) get_new_block ::
    "(nat \<Rightarrow> nat \<times> nat) \<Rightarrow> HoleFinder \<Rightarrow> BlockAllocator \<Rightarrow> (HoleFinder \<times> BlockAllocator) option" where
  "get_new_block mmap hf ba =
     Option.bind (get_block mmap ba) (\<lambda>(pos, ba).
       case HoleFinder_reset (block_ref ba pos) pos hf of (found, hf) \<Rightarrow> if found then Some (hf, ba) else get_new_block mmap hf ba)"

definition ExpandingAllocator_create :: "(nat \<Rightarrow> nat \<times> nat) \<Rightarrow> BlockAllocator \<Rightarrow> (HoleFinder \<times> BlockAllocator) option" where
  "ExpandingAllocator_create mmap ba =
     get_new_block mmap \<lparr>h_cursor = 0, h_limit = 0, hole_start_line = 0, h_block = (0, 0)\<rparr> ba"

partial_function (option) ea_allocate ::
    "(nat \<Rightarrow> nat \<times> nat) \<Rightarrow> HoleFinder \<Rightarrow> BlockAllocator \<Rightarrow> nat \<Rightarrow> (nat \<times> HoleFinder \<times> BlockAllocator) option" where
  "ea_allocate mmap hf ba sz =
     (if h_cursor hf + sz > h_limit hf
      then (case find_hole (block_ref ba (h_block hf)) hf of (found, hf) \<Rightarrow>
              if found then ea_allocate mmap hf ba sz
              else Option.bind (get_new_block mmap hf ba) (\<lambda>(hf, ba). ea_allocate mmap hf ba sz))
      else let (a, hf) = bump hf sz in Some (a, hf, ba))"

declare get_block_loop.simps [simp del] single_allocate.simps [simp del] get_new_block.simps [simp del] ea_allocate.simps [simp del]

section \<open>The lines of an object\<close>

lemma mark_lines_ok:
  "line + n \<le> cLineTableSize \<Longrightarrow> length (b_lines b) = cLineTableSize \<Longrightarrow>
    \<exists>b'. mark_lines b line n = Some b' \<and> length (b_lines b') = cLineTableSize \<and> b_address b' = b_address b \<and> b_status b' = b_status b \<and>
      (\<forall>i<cLineTableSize. b_lines b' ! i \<longleftrightarrow> b_lines b ! i \<or> line \<le> i \<and> i < line + n)"
proof (induction n)
  case (Suc n)
  then obtain b' where "mark_lines b line n = Some b'" "length (b_lines b') = cLineTableSize" "b_address b' = b_address b"
    "b_status b' = b_status b" "\<forall>i<cLineTableSize. b_lines b' ! i \<longleftrightarrow> b_lines b ! i \<or> line \<le> i \<and> i < line + n" by auto
  with Suc.prems show ?case by (auto simp: mark_line_def nth_list_update)
qed auto

text \<open>The byte at an address lies in this line of the block.\<close>

definition line_of :: "Block \<Rightarrow> nat \<Rightarrow> nat" where "line_of b x = (x - b_address b) div cLineSize"

text \<open>An object marks the lines in which it has a byte, and no others.\<close>

lemma Block_mark_address_ok:
  assumes "length (b_lines b) = cLineTableSize" and "b_address b \<le> addr" and "addr + sz \<le> b_address b + cBlockSize" and "0 < sz"
    and "b_address b mod cLineSize = 0"
  shows "\<exists>b'. Block_mark_address b addr sz = Some b' \<and> length (b_lines b') = cLineTableSize \<and> b_address b' = b_address b \<and>
    b_status b' = b_status b \<and>
    (\<forall>i<cLineTableSize. b_lines b' ! i \<longleftrightarrow> b_lines b ! i \<or> (\<exists>x. addr \<le> x \<and> x < addr + sz \<and> line_of b x = i))"
proof -
  define off where "off = addr - b_address b"
  have addr: "addr = b_address b + off" using assms(2) by (simp add: off_def)
  have o: "addr mod cLineSize = off mod cLineSize" using assms(5) unfolding addr by (simp add: mod_add_left_eq [symmetric])
  define n where "n = 1 + (off mod cLineSize + sz - 1) div cLineSize"
  have last: "off div cLineSize + (off mod cLineSize + sz - 1) div cLineSize = (off + sz - 1) div cLineSize"
  proof -
    have "off + sz - 1 = off div cLineSize * cLineSize + (off mod cLineSize + sz - 1)" using assms(4) by simp
    then show ?thesis by simp
  qed
  have "off + sz \<le> cBlockSize" using assms(3) addr by simp
  then have "(off + sz - 1) div cLineSize < cLineTableSize" using assms(4) by (simp add: div_less_iff_less_mult)
  then have fit: "off div cLineSize + n \<le> cLineTableSize" using last by (simp add: n_def)
  have lines: "(off div cLineSize \<le> i \<and> i < off div cLineSize + n) \<longleftrightarrow> (\<exists>x. addr \<le> x \<and> x < addr + sz \<and> line_of b x = i)" for i
  proof
    assume i: "off div cLineSize \<le> i \<and> i < off div cLineSize + n"
    define y where "y = max off (i * cLineSize)"
    have "i \<le> (off + sz - 1) div cLineSize" using i last by (simp add: n_def)
    then have "i * cLineSize \<le> off + sz - 1" by (simp add: less_eq_div_iff_mult_less_eq)
    then have "off \<le> y" "y < off + sz" using assms(4) by (simp_all add: y_def)
    moreover have "y div cLineSize = i"
    proof (cases "off \<le> i * cLineSize")
      case False
      then have "i \<le> off div cLineSize" by (simp add: less_eq_div_iff_mult_less_eq)
      with i False show ?thesis by (simp add: y_def)
    qed (simp add: y_def max_def)
    ultimately show "\<exists>x. addr \<le> x \<and> x < addr + sz \<and> line_of b x = i"
      by (intro exI [of _ "b_address b + y"]) (simp add: addr line_of_def)
  next
    assume "\<exists>x. addr \<le> x \<and> x < addr + sz \<and> line_of b x = i"
    then obtain x where x: "addr \<le> x" "x < addr + sz" "line_of b x = i" by blast
    define y where "y = x - b_address b"
    have "off \<le> y" "y \<le> off + sz - 1" using x addr by (simp_all add: y_def)
    then have "off div cLineSize \<le> y div cLineSize" "y div cLineSize \<le> (off + sz - 1) div cLineSize" by (simp_all add: div_le_mono)
    with x(3) last show "off div cLineSize \<le> i \<and> i < off div cLineSize + n" by (auto simp: line_of_def y_def n_def)
  qed
  have "Block_mark_address b addr sz =
      map_option (\<lambda>b. b\<lparr>b_objects := b_objects b + 1, b_object_bytes := b_object_bytes b + sz\<rparr>) (mark_lines b (off div cLineSize) n)"
    by (simp only: Block_mark_address_def Let_def o n_def off_def)
  with mark_lines_ok [OF fit assms(1)] show ?thesis by (auto simp: lines)
qed

section \<open>Well-formed heaps\<close>

definition block_wf :: "nat \<Rightarrow> Block \<Rightarrow> bool" where
  "block_wf base b \<longleftrightarrow> b_address b = base \<and> length (b_lines b) = cLineTableSize \<and> b_lines b ! 0"

text \<open>A usable block has a free line; this holds of every block after the statistics have been updated.\<close>

definition block_fresh :: "Block \<Rightarrow> bool" where
  "block_fresh b \<longleftrightarrow> (usable b \<longrightarrow> (\<exists>i<cLineTableSize. \<not> b_lines b ! i))"

definition valid_pos :: "BlockAllocator \<Rightarrow> bpos \<Rightarrow> bool" where
  "valid_pos ba pos \<longleftrightarrow> fst pos < length (chunks ba) \<and> snd pos < cBlocksPerChunk"

definition ba_wf :: "(nat \<Rightarrow> nat \<times> nat) \<Rightarrow> BlockAllocator \<Rightarrow> bool" where
  "ba_wf mmap ba \<longleftrightarrow> (\<forall>c<length (chunks ba). length (chunks ba ! c) = cBlocksPerChunk) \<and>
     (\<forall>pos. valid_pos ba pos \<longrightarrow> block_wf (chunk_base (mmap (fst pos)) + snd pos * cBlockSize) (block_ref ba pos))"

definition ba_fresh :: "BlockAllocator \<Rightarrow> bool" where
  "ba_fresh ba \<longleftrightarrow> (\<forall>pos. valid_pos ba pos \<longrightarrow> block_fresh (block_ref ba pos))"

definition cursor_ok :: "BlockAllocator \<Rightarrow> bool" where
  "cursor_ok ba \<longleftrightarrow> current_chunk ba = Some (chunk_cursor ba) \<and> chunk_cursor ba < length (chunks ba) \<and> block_cursor ba \<le> cBlocksPerChunk"

definition pos_index :: "bpos \<Rightarrow> nat" where "pos_index pos = cBlocksPerChunk * fst pos + snd pos"
definition frontier :: "BlockAllocator \<Rightarrow> nat" where "frontier ba = cBlocksPerChunk * chunk_cursor ba + block_cursor ba"

text \<open>Only chunks have been added.\<close>

definition grown :: "BlockAllocator \<Rightarrow> BlockAllocator \<Rightarrow> bool" where
  "grown ba ba' \<longleftrightarrow> (\<exists>cs. chunks ba' = chunks ba @ cs)"

lemma grown_refl: "grown ba ba" by (simp add: grown_def)
lemma grown_trans: "grown a b \<Longrightarrow> grown b c \<Longrightarrow> grown a c" by (auto simp: grown_def)
lemma grown_ref: "grown ba ba' \<Longrightarrow> valid_pos ba pos \<Longrightarrow> valid_pos ba' pos \<and> block_ref ba' pos = block_ref ba pos"
  by (auto simp: grown_def valid_pos_def block_ref_def nth_append)

lemma fresh_lines_nth: "i < cLineTableSize \<Longrightarrow> fresh_lines ! i \<longleftrightarrow> i = 0"
  by (cases i) (simp_all add: fresh_lines_def)

lemma new_block_ok: "block_wf base (new_block base)" "block_fresh (new_block base)" "usable (new_block base)"
proof -
  have "length fresh_lines = cLineTableSize" "fresh_lines ! 0" by (simp_all add: fresh_lines_def)
  then show "block_wf base (new_block base)" by (simp add: block_wf_def new_block_def)
  show "usable (new_block base)" by (simp add: usable_def new_block_def)
  show "block_fresh (new_block base)" unfolding block_fresh_def
    by (intro impI exI [of _ 1]) (simp add: new_block_def fresh_lines_nth)
qed

lemma add_chunk_ok:
  assumes "ba_wf mmap ba" and "ba_fresh ba"
  shows "ba_wf mmap (add_chunk mmap ba)" and "ba_fresh (add_chunk mmap ba)" and "cursor_ok (add_chunk mmap ba)"
    and "grown ba (add_chunk mmap ba)" and "frontier (add_chunk mmap ba) = cBlocksPerChunk * length (chunks ba) + 1"
    and "k < cBlocksPerChunk \<Longrightarrow> valid_pos (add_chunk mmap ba) (length (chunks ba), k) \<and>
      block_ref (add_chunk mmap ba) (length (chunks ba), k) = new_block (chunk_base (mmap (length (chunks ba))) + k * cBlockSize)"
    and "current_chunk (add_chunk mmap ba) = Some (length (chunks ba))"
proof -
  let ?ba = "add_chunk mmap ba"
  have new: "valid_pos ?ba (length (chunks ba), k) \<and>
      block_ref ?ba (length (chunks ba), k) = new_block (chunk_base (mmap (length (chunks ba))) + k * cBlockSize)" if "k < cBlocksPerChunk" for k
    using that by (simp add: valid_pos_def block_ref_def add_chunk_def new_chunk_def del: upt_Suc upt.simps)
  then show "k < cBlocksPerChunk \<Longrightarrow> valid_pos ?ba (length (chunks ba), k) \<and>
      block_ref ?ba (length (chunks ba), k) = new_block (chunk_base (mmap (length (chunks ba))) + k * cBlockSize)" .
  show g: "grown ba ?ba" by (simp add: grown_def add_chunk_def)
  show "cursor_ok ?ba" "frontier ?ba = cBlocksPerChunk * length (chunks ba) + 1" "current_chunk ?ba = Some (length (chunks ba))"
    by (simp_all add: cursor_ok_def add_chunk_def frontier_def)
  have pos: "valid_pos ba pos \<or> fst pos = length (chunks ba) \<and> snd pos < cBlocksPerChunk" if "valid_pos ?ba pos" for pos
    using that by (auto simp: valid_pos_def add_chunk_def less_Suc_eq)
  have "block_wf (chunk_base (mmap (fst pos)) + snd pos * cBlockSize) (block_ref ?ba pos) \<and> block_fresh (block_ref ?ba pos)"
    if "valid_pos ?ba pos" for pos
    using pos [OF that]
  proof
    assume "valid_pos ba pos"
    with assms grown_ref [OF g] show ?thesis by (simp add: ba_wf_def ba_fresh_def del: split_paired_All)
  next
    assume "fst pos = length (chunks ba) \<and> snd pos < cBlocksPerChunk"
    with new [of "snd pos"] new_block_ok show ?thesis by (metis prod.collapse)
  qed
  moreover have "length (chunks ?ba ! c) = cBlocksPerChunk" if "c < length (chunks ?ba)" for c
    using assms(1) that by (auto simp: ba_wf_def add_chunk_def new_chunk_def nth_append less_Suc_eq)
  ultimately show "ba_wf mmap ?ba" "ba_fresh ?ba" by (simp_all add: ba_wf_def ba_fresh_def)
qed

section \<open>Getting a block\<close>

lemma next_chunk_ok:
  assumes "ba_wf mmap ba" and "ba_fresh ba" and "cursor_ok ba"
  defines "ba' \<equiv> next_chunk mmap ba"
  shows "ba_wf mmap ba' \<and> ba_fresh ba' \<and> cursor_ok ba' \<and> block_cursor ba' < cBlocksPerChunk \<and> grown ba ba' \<and> frontier ba \<le> frontier ba' \<and>
    (chunks ba' = chunks ba \<or>
      block_ref ba' (chunk_cursor ba', block_cursor ba') = new_block (chunk_base (mmap (chunk_cursor ba')) + block_cursor ba' * cBlockSize))"
proof -
  have wf_cong: "ba_wf mmap b \<longleftrightarrow> ba_wf mmap ba" "ba_fresh b \<longleftrightarrow> ba_fresh ba" "grown ba b" if "chunks b = chunks ba" for b
    using that by (simp_all add: ba_wf_def ba_fresh_def valid_pos_def block_ref_def grown_def)
  consider (same) "block_cursor ba < cBlocksPerChunk" | (more) "\<not> block_cursor ba < cBlocksPerChunk" "chunk_cursor ba + 1 < length (chunks ba)"
    | (new) "\<not> block_cursor ba < cBlocksPerChunk" "\<not> chunk_cursor ba + 1 < length (chunks ba)" by blast
  then show ?thesis
  proof cases
    case same
    then have "ba' = ba" by (simp add: ba'_def next_chunk_def)
    with assms(1-3) same show ?thesis by (simp add: grown_refl)
  next
    case more
    have "ba' = ba\<lparr>chunk_cursor := chunk_cursor ba + 1, block_cursor := 0, current_chunk := Some (chunk_cursor ba + 1)\<rparr>"
      using more by (simp add: ba'_def next_chunk_def Let_def)
    with more assms(1-3) show ?thesis using wf_cong [of ba'] by (simp add: cursor_ok_def frontier_def)
  next
    case new
    define ba1 where "ba1 = ba\<lparr>chunk_cursor := chunk_cursor ba + 1\<rparr>"
    have eq: "ba' = add_chunk mmap ba1" using new by (simp add: ba'_def next_chunk_def Let_def ba1_def add_chunk_def)
    have c: "chunks ba1 = chunks ba" by (simp add: ba1_def)
    have wf: "ba_wf mmap ba1" "ba_fresh ba1" using wf_cong [OF c] assms(1,2) by simp_all
    note ok = add_chunk_ok [OF wf]
    have cur: "chunk_cursor ba' = length (chunks ba)" "block_cursor ba' = 1" by (simp_all add: eq add_chunk_def c)
    have "frontier ba \<le> frontier ba'" using new assms(3) ok(5) by (simp add: eq c cursor_ok_def frontier_def)
    moreover have "grown ba ba'" using ok(4) by (simp add: eq grown_def c)
    ultimately show ?thesis using ok(1-3) ok(6) [of 1] cur by (simp add: eq c)
  qed
qed

definition remaining :: "BlockAllocator \<Rightarrow> nat" where "remaining ba = cBlocksPerChunk * length (chunks ba) - frontier ba"

text \<open>The loop ends: after the blocks that are left comes a new chunk, whose blocks are usable.\<close>

definition got_block :: "(nat \<Rightarrow> nat \<times> nat) \<Rightarrow> BlockAllocator \<Rightarrow> bpos \<Rightarrow> BlockAllocator \<Rightarrow> bool" where
  "got_block mmap ba pos ba' \<longleftrightarrow> ba_wf mmap ba' \<and> ba_fresh ba' \<and> cursor_ok ba' \<and> grown ba ba' \<and> valid_pos ba' pos \<and>
     pos_index pos < frontier ba' \<and> usable (block_ref ba' pos) \<and>
     (chunks ba' = chunks ba \<and> frontier ba \<le> pos_index pos \<or> cBlocksPerChunk * length (chunks ba) \<le> pos_index pos \<and> (\<exists>a. block_ref ba' pos = new_block a))"

lemma get_block_loop_ok:
  "ba_wf mmap ba \<Longrightarrow> ba_fresh ba \<Longrightarrow> cursor_ok ba \<Longrightarrow> \<exists>pos ba'. get_block_loop mmap ba = Some (pos, ba') \<and> got_block mmap ba pos ba'"
proof (induction "remaining ba" arbitrary: ba rule: less_induct)
  case less
  define ba1 where "ba1 = next_chunk mmap ba"
  define pos where "pos = (chunk_cursor ba1, block_cursor ba1)"
  define ba2 where "ba2 = ba1\<lparr>block_cursor := block_cursor ba1 + 1\<rparr>"
  have one: "ba_wf mmap ba1" "ba_fresh ba1" "cursor_ok ba1" "block_cursor ba1 < cBlocksPerChunk" "grown ba ba1" "frontier ba \<le> frontier ba1"
      "chunks ba1 = chunks ba \<or> block_ref ba1 pos = new_block (chunk_base (mmap (chunk_cursor ba1)) + block_cursor ba1 * cBlockSize)"
    using next_chunk_ok [OF less.prems] by (simp_all add: ba1_def pos_def)
  have two: "ba_wf mmap ba2" "ba_fresh ba2" "cursor_ok ba2" "grown ba ba2" "valid_pos ba2 pos" "pos_index pos < frontier ba2"
      "block_ref ba2 pos = block_ref ba1 pos" "chunks ba2 = chunks ba1" "pos_index pos = frontier ba1" "frontier ba2 = frontier ba1 + 1"
    using one by (simp_all add: ba2_def pos_def ba_wf_def ba_fresh_def cursor_ok_def valid_pos_def block_ref_def grown_def pos_index_def frontier_def)
  have loop: "get_block_loop mmap ba = (if usable (block_ref ba2 pos) then Some (pos, ba2) else get_block_loop mmap ba2)"
    using one(3) by (subst get_block_loop.simps) (simp add: ba1_def [symmetric] ba2_def pos_def cursor_ok_def Let_def)
  show ?case
  proof (cases "usable (block_ref ba2 pos)")
    case True
    have "got_block mmap ba pos ba2"
    proof (cases "chunks ba2 = chunks ba")
      case same: True
      with True two one(6) show ?thesis by (simp add: got_block_def)
    next
      case False
      then have new: "chunks ba1 \<noteq> chunks ba" using two(8) by simp
      then have "length (chunks ba) \<le> chunk_cursor ba1"
        using less.prems(3) by (auto simp: ba1_def next_chunk_def Let_def add_chunk_def split: if_splits)
      with True False two one(7) new show ?thesis by (auto simp: got_block_def pos_index_def pos_def)
    qed
    with loop True show ?thesis by simp
  next
    case False
    then have same: "chunks ba1 = chunks ba" using one(7) two(7) new_block_ok(3) by auto
    have "frontier ba1 < cBlocksPerChunk * length (chunks ba1)" using one(3,4) by (simp add: frontier_def cursor_ok_def)
    then have "remaining ba2 < remaining ba" using one(6) two(8,10) same by (simp add: remaining_def)
    from less.hyps [OF this two(1-3)] obtain p b where pb: "get_block_loop mmap ba2 = Some (p, b)" "got_block mmap ba2 p b" by blast
    have "got_block mmap ba p b"
      using pb(2) two(8,10) same one(6) grown_trans [OF two(4)] by (auto simp: got_block_def)
    with loop False pb(1) show ?thesis by simp
  qed
qed

end
