(* ===== verification/Vm_Immix_Run.thy ===== *)
theory Vm_Immix_Run
  imports Vm_Immix
begin

text \<open>
  Allocation in the Immix heap and its collection: which memory the allocators hand out, when they return, which objects
  the collector marks (\<open>GC::mark_address\<close>, \<open>process_mark_stack\<close>, \<open>ImmixGC::collect\<close>), and that no object that the
  program can still reach is given to another one. Objects are not evacuated: no block of the running machine gets the status
  \<open>cEvacuate\<close>. Their sizes and references are parameters of a collection.
\<close>

section \<open>Holes\<close>

lemma next_line_ok:
  "i \<le> next_line u ls i" "i \<le> cLineTableSize \<Longrightarrow> next_line u ls i \<le> cLineTableSize"
  "i \<le> k \<Longrightarrow> k < next_line u ls i \<Longrightarrow> ls ! k = u"
  "next_line u ls i < cLineTableSize \<Longrightarrow> ls ! next_line u ls i \<noteq> u"
proof -
  have "i \<le> next_line u ls i \<and> (i \<le> cLineTableSize \<longrightarrow> next_line u ls i \<le> cLineTableSize) \<and>
      (\<forall>k. i \<le> k \<longrightarrow> k < next_line u ls i \<longrightarrow> ls ! k = u) \<and> (next_line u ls i < cLineTableSize \<longrightarrow> ls ! next_line u ls i \<noteq> u)"
  proof (induction u ls i rule: next_line.induct)
    case (1 u ls i)
    show ?case
    proof (cases "i < cLineTableSize \<and> ls ! i = u")
      case True
      then have "next_line u ls i = next_line u ls (i + 1)" by (subst next_line.simps) simp
      with 1 [OF True] True show ?thesis by (metis Suc_eq_plus1 Suc_leD Suc_leI le_antisym not_less_eq_eq)
    next
      case False
      then have "next_line u ls i = i" by (subst next_line.simps) auto
      with False show ?thesis by auto
    qed
  qed
  then show "i \<le> next_line u ls i" "i \<le> cLineTableSize \<Longrightarrow> next_line u ls i \<le> cLineTableSize"
    "i \<le> k \<Longrightarrow> k < next_line u ls i \<Longrightarrow> ls ! k = u" "next_line u ls i < cLineTableSize \<Longrightarrow> ls ! next_line u ls i \<noteq> u" by blast+
qed

text \<open>The cursor stands in a run of free lines that ends at the limit.\<close>

definition in_hole :: "Block \<Rightarrow> HoleFinder \<Rightarrow> bool" where
  "in_hole b hf \<longleftrightarrow> (\<exists>s. 1 \<le> s \<and> s < hole_start_line hf \<and> hole_start_line hf \<le> cLineTableSize \<and>
     (\<forall>k. s \<le> k \<longrightarrow> k < hole_start_line hf \<longrightarrow> \<not> b_lines b ! k) \<and> address_of_line b s \<le> h_cursor hf) \<and>
     h_cursor hf \<le> h_limit hf \<and> h_limit hf = address_of_line b (hole_start_line hf)"

lemma find_hole_ok:
  assumes "block_wf base b" and "find_hole b hf = (found, hf')" and "hole_start_line hf \<le> cLineTableSize"
  shows "h_block hf' = h_block hf"
    and "found \<Longrightarrow> in_hole b hf' \<and> hole_start_line hf < hole_start_line hf' \<and> address_of_line b (hole_start_line hf) \<le> h_cursor hf'"
    and "\<not> found \<Longrightarrow> hole_start_line hf \<le> k \<Longrightarrow> k < cLineTableSize \<Longrightarrow> b_lines b ! k"
proof -
  let ?i = "next_line True (b_lines b) (hole_start_line hf)"
  let ?j = "next_line False (b_lines b) ?i"
  note i = next_line_ok [where u = True and ls = "b_lines b" and i = "hole_start_line hf"]
  note j = next_line_ok [where u = False and ls = "b_lines b" and i = ?i]
  show "h_block hf' = h_block hf" using assms(2) by (auto simp: find_hole_def Let_def split: if_splits)
  {
    assume found
    then have lt: "?i < cLineTableSize"
      and hf': "hf' = hf\<lparr>h_cursor := address_of_line b ?i, hole_start_line := ?j, h_limit := address_of_line b ?j\<rparr>"
      using assms(2) by (auto simp: find_hole_def Let_def split: if_splits)
    have free: "\<not> b_lines b ! ?i" using i(4) lt by simp
    then have "1 \<le> ?i" using assms(1) by (cases ?i) (simp_all add: block_wf_def)
    moreover have "?j = next_line False (b_lines b) (?i + 1)" using free lt by (subst next_line.simps) simp
    then have "?i < ?j" using next_line_ok(1) [of "?i + 1" False "b_lines b"] by simp
    ultimately have "in_hole b hf'" using j lt by (auto simp: in_hole_def hf' address_of_line_def)
    with i(1) \<open>?i < ?j\<close> show "in_hole b hf' \<and> hole_start_line hf < hole_start_line hf' \<and> address_of_line b (hole_start_line hf) \<le> h_cursor hf'"
      by (simp add: hf' address_of_line_def)
  }
  assume "\<not> found" "hole_start_line hf \<le> k" "k < cLineTableSize"
  then show "b_lines b ! k" using assms(2) i(3) by (auto simp: find_hole_def Let_def split: if_splits)
qed

lemma reset_new_block:
  assumes "HoleFinder_reset (new_block base) pos hf = (found, hf')"
  shows "found \<and> h_cursor hf' = base + cLineSize \<and> h_limit hf' = base + cBlockSize"
proof -
  let ?i = "next_line True fresh_lines 0"
  note i = next_line_ok [where u = True and ls = fresh_lines and i = 0]
  have "?i \<noteq> 0" using i(4) fresh_lines_nth [of 0] by (cases ?i) auto
  moreover have "\<not> 1 < ?i" using i(3) [of 1] fresh_lines_nth [of 1] by auto
  ultimately have "?i = 1" by simp
  moreover let ?j = "next_line False fresh_lines 1"
  note j = next_line_ok [where u = False and ls = fresh_lines and i = 1]
  have "?j = cLineTableSize"
  proof (rule ccontr)
    assume "?j \<noteq> cLineTableSize"
    then have "?j < cLineTableSize" using j(2) by simp
    then have "fresh_lines ! ?j" "1 \<le> ?j" using j(1,4) by auto
    with \<open>?j < cLineTableSize\<close> fresh_lines_nth show False by fastforce
  qed
  ultimately show ?thesis
    using assms by (auto simp: HoleFinder_reset_def find_hole_def new_block_def Let_def address_of_line_def)
qed

section \<open>Allocation\<close>

definition heap_ok :: "(nat \<Rightarrow> nat \<times> nat) \<Rightarrow> HoleFinder \<Rightarrow> BlockAllocator \<Rightarrow> bool" where
  "heap_ok mmap hf ba \<longleftrightarrow> ba_wf mmap ba \<and> ba_fresh ba \<and> cursor_ok ba \<and> valid_pos ba (h_block hf) \<and>
     pos_index (h_block hf) < frontier ba \<and> in_hole (block_ref ba (h_block hf)) hf"

definition can_get :: "BlockAllocator \<Rightarrow> bool" where
  "can_get ba \<longleftrightarrow> cursor_ok ba \<or> chunks ba = [] \<and> current_chunk ba = None"

lemma get_block_ok:
  assumes "ba_wf mmap ba" and "ba_fresh ba" and "can_get ba"
  shows "\<exists>pos ba'. get_block mmap ba = Some (pos, ba') \<and> got_block mmap ba pos ba'"
proof (cases "current_chunk ba")
  case None
  then have "chunks ba = []" using assms(3) by (auto simp: can_get_def cursor_ok_def)
  with None add_chunk_ok [OF assms(1,2)] add_chunk_ok(6) [OF assms(1,2), of 0] new_block_ok(3) show ?thesis
    by (auto simp: get_block_def Let_def got_block_def pos_index_def)
next
  case (Some c)
  then have "cursor_ok ba" using assms(3) by (simp add: can_get_def)
  with get_block_loop_ok [OF assms(1,2)] Some show ?thesis by (auto simp: get_block_def)
qed

lemma get_new_block_ok:
  assumes "ba_wf mmap ba" and "ba_fresh ba" and "can_get ba"
  shows "\<exists>hf' ba'. get_new_block mmap hf ba = Some (hf', ba') \<and> got_block mmap ba (h_block hf') ba' \<and> heap_ok mmap hf' ba' \<and>
    (\<forall>a. block_ref ba' (h_block hf') = new_block a \<longrightarrow> h_cursor hf' = a + cLineSize \<and> h_limit hf' = a + cBlockSize)"
proof -
  obtain pos ba' where got: "get_block mmap ba = Some (pos, ba')" "got_block mmap ba pos ba'" using get_block_ok [OF assms] by blast
  let ?b = "block_ref ba' pos"
  obtain found hf' where reset: "HoleFinder_reset ?b pos hf = (found, hf')" by fastforce
  have wf: "block_wf (chunk_base (mmap (fst pos)) + snd pos * cBlockSize) ?b" and "usable ?b" "block_fresh ?b"
    using got(2) by (auto simp: got_block_def ba_wf_def ba_fresh_def simp del: split_paired_All)
  then obtain i where i: "i < cLineTableSize" "\<not> b_lines ?b ! i" by (auto simp: block_fresh_def)
  note hole = find_hole_ok [OF wf reset [unfolded HoleFinder_reset_def]]
  have found: found using hole(3) [of i] i by auto
  then have "in_hole ?b hf'" "h_block hf' = pos" using hole(1,2) by simp_all
  then have "heap_ok mmap hf' ba'" "h_block hf' = pos" using got(2) by (simp_all add: heap_ok_def got_block_def)
  moreover have "get_new_block mmap hf ba = Some (hf', ba')"
    using got(1) reset found by (subst get_new_block.simps) simp
  moreover have "?b = new_block a \<Longrightarrow> h_cursor hf' = a + cLineSize \<and> h_limit hf' = a + cBlockSize" for a
    using reset_new_block [of a pos hf] reset by simp
  ultimately show ?thesis using got(2) by auto
qed

text \<open>All the lines of a range of addresses are in the block and free.\<close>

definition free_range :: "Block \<Rightarrow> nat \<Rightarrow> nat \<Rightarrow> bool" where
  "free_range b a n \<longleftrightarrow> b_address b + cLineSize \<le> a \<and> a + n \<le> b_address b + cBlockSize \<and>
     (\<forall>x. a \<le> x \<longrightarrow> x < a + n \<longrightarrow> \<not> b_lines b ! line_of b x)"

lemma hole_free:
  assumes "in_hole b hf" and "h_cursor hf + n \<le> h_limit hf"
  shows "free_range b (h_cursor hf) n" and "in_hole b (hf\<lparr>h_cursor := h_cursor hf + n\<rparr>)"
proof -
  obtain s where s: "1 \<le> s" "hole_start_line hf \<le> cLineTableSize" "\<And>k. s \<le> k \<Longrightarrow> k < hole_start_line hf \<Longrightarrow> \<not> b_lines b ! k"
      "address_of_line b s \<le> h_cursor hf" "h_limit hf = address_of_line b (hole_start_line hf)"
    using assms(1) by (auto simp: in_hole_def)
  have "\<not> b_lines b ! line_of b x" if "h_cursor hf \<le> x" "x < h_cursor hf + n" for x
  proof (rule s(3))
    have "s * cLineSize \<le> x - b_address b" "x - b_address b < hole_start_line hf * cLineSize"
      using that s(4,5) assms(2) by (auto simp: address_of_line_def)
    then show "s \<le> line_of b x" "line_of b x < hole_start_line hf"
      by (simp_all add: line_of_def less_eq_div_iff_mult_less_eq div_less_iff_less_mult)
  qed
  moreover have "b_address b + cLineSize \<le> h_cursor hf" using s(1,4) by (simp add: address_of_line_def)
  moreover have "h_cursor hf + n \<le> b_address b + cBlockSize" using s(2,5) assms(2) by (simp add: address_of_line_def)
  ultimately show "free_range b (h_cursor hf) n" by (simp add: free_range_def)
  show "in_hole b (hf\<lparr>h_cursor := h_cursor hf + n\<rparr>)" using assms by (force simp: in_hole_def)
qed

text \<open>What a successful allocation hands out: free lines of the block of the cursor, which has moved on.\<close>

definition allocated :: "(nat \<Rightarrow> nat \<times> nat) \<Rightarrow> HoleFinder \<Rightarrow> BlockAllocator \<Rightarrow> nat \<Rightarrow> nat \<Rightarrow> HoleFinder \<Rightarrow> BlockAllocator \<Rightarrow> bool" where
  "allocated mmap hf ba n a hf' ba' \<longleftrightarrow> heap_ok mmap hf' ba' \<and> grown ba ba' \<and> a + n = h_cursor hf' \<and>
     free_range (block_ref ba' (h_block hf')) a n \<and>
     (pos_index (h_block hf) < pos_index (h_block hf') \<or> h_block hf' = h_block hf \<and> h_cursor hf \<le> a)"

lemma heap_wf: "heap_ok mmap hf ba \<Longrightarrow>
    block_wf (chunk_base (mmap (fst (h_block hf))) + snd (h_block hf) * cBlockSize) (block_ref ba (h_block hf))"
  by (auto simp: heap_ok_def ba_wf_def simp del: split_paired_All)

lemma hole_start: "in_hole b hf \<Longrightarrow> hole_start_line hf \<le> cLineTableSize \<and> h_limit hf = address_of_line b (hole_start_line hf) \<and> h_cursor hf \<le> h_limit hf"
  by (auto simp: in_hole_def)

text \<open>The steps of the loop: another hole of the block, or another block.\<close>

lemma find_hole_step:
  assumes "heap_ok mmap hf ba" and "find_hole (block_ref ba (h_block hf)) hf = (True, hf1)"
  shows "heap_ok mmap hf1 ba" and "h_block hf1 = h_block hf" and "h_cursor hf \<le> h_cursor hf1" and "hole_start_line hf < hole_start_line hf1"
proof -
  have hole: "in_hole (block_ref ba (h_block hf)) hf" using assms(1) by (simp add: heap_ok_def)
  note f = find_hole_ok [OF heap_wf [OF assms(1)] assms(2)]
  show "h_block hf1 = h_block hf" "hole_start_line hf < hole_start_line hf1" using f hole_start [OF hole] by simp_all
  show "h_cursor hf \<le> h_cursor hf1" using f(2) hole_start [OF hole] by simp
  show "heap_ok mmap hf1 ba" using assms(1) f hole_start [OF hole] by (simp add: heap_ok_def)
qed

lemma find_hole_block: "find_hole b hf = (found, hf1) \<Longrightarrow> h_block hf1 = h_block hf"
  by (auto simp: find_hole_def Let_def split: if_splits)

lemma new_block_step:
  assumes "heap_ok mmap hf ba"
  shows "\<exists>hf2 ba2. get_new_block mmap hf1 ba = Some (hf2, ba2) \<and> heap_ok mmap hf2 ba2 \<and> grown ba ba2 \<and> pos_index (h_block hf) < pos_index (h_block hf2) \<and>
    (remaining ba2 < remaining ba \<or> h_limit hf2 = h_cursor hf2 + 32640)"
proof -
  have pre: "ba_wf mmap ba" "ba_fresh ba" "can_get ba" "pos_index (h_block hf) < frontier ba"
    using assms by (simp_all add: heap_ok_def can_get_def)
  obtain hf2 ba2 where new: "get_new_block mmap hf1 ba = Some (hf2, ba2)" "got_block mmap ba (h_block hf2) ba2" "heap_ok mmap hf2 ba2"
      "\<And>a. block_ref ba2 (h_block hf2) = new_block a \<Longrightarrow> h_cursor hf2 = a + cLineSize \<and> h_limit hf2 = a + cBlockSize"
    using get_new_block_ok [OF pre(1-3), of hf1] by blast
  have fr: "frontier ba \<le> cBlocksPerChunk * length (chunks ba)" using assms by (simp add: heap_ok_def cursor_ok_def frontier_def)
  from new(2) have "pos_index (h_block hf) < pos_index (h_block hf2)" "grown ba ba2"
    using pre(4) fr by (auto simp: got_block_def)
  moreover have "remaining ba2 < remaining ba \<or> h_limit hf2 = h_cursor hf2 + 32640"
  proof (cases "\<exists>a. block_ref ba2 (h_block hf2) = new_block a")
    case True
    with new(4) show ?thesis by auto
  next
    case False
    with new(2) have "chunks ba2 = chunks ba" "frontier ba \<le> pos_index (h_block hf2)" "pos_index (h_block hf2) < frontier ba2"
      "valid_pos ba2 (h_block hf2)"
      by (auto simp: got_block_def)
    moreover from this have "pos_index (h_block hf2) < cBlocksPerChunk * length (chunks ba)" by (simp add: valid_pos_def pos_index_def)
    ultimately have "frontier ba < frontier ba2" "frontier ba < cBlocksPerChunk * length (chunks ba)" "chunks ba2 = chunks ba" by simp_all
    then have "remaining ba2 < remaining ba" by (simp add: remaining_def diff_less_mono2)
    then show ?thesis ..
  qed
  ultimately show ?thesis using new(1,3) by blast
qed

lemma allocated_trans:
  assumes "allocated mmap hf1 ba1 n a hf' ba'" and "grown ba ba1"
    and "pos_index (h_block hf) < pos_index (h_block hf1) \<or> h_block hf1 = h_block hf \<and> h_cursor hf \<le> h_cursor hf1"
  shows "allocated mmap hf ba n a hf' ba'"
  using assms(1,3) grown_trans [OF assms(2)] by (auto simp: allocated_def)

lemma ea_allocate_ok: "ea_allocate mmap hf ba n = Some r \<Longrightarrow> heap_ok mmap hf ba \<Longrightarrow> allocated mmap hf ba n (fst r) (fst (snd r)) (snd (snd r))"
proof (induction rule: ea_allocate.raw_induct [rotated, consumes 1])
  case (1 alloc mmap hf ba n r)
  obtain found hf1 where f: "find_hole (block_ref ba (h_block hf)) hf = (found, hf1)" by fastforce
  consider (fits) "\<not> h_cursor hf + n > h_limit hf" | (hole) "h_cursor hf + n > h_limit hf" found | (more) "h_cursor hf + n > h_limit hf" "\<not> found" by blast
  then show ?case
  proof cases
    case fits
    then have "r = (h_cursor hf, hf\<lparr>h_cursor := h_cursor hf + n\<rparr>, ba)" using 1(2) by (auto simp: bump_def)
    with hole_free [of "block_ref ba (h_block hf)" hf n] fits 1(3) show ?thesis
      by (simp add: allocated_def heap_ok_def grown_refl)
  next
    case hole
    then have "alloc mmap hf1 ba n = Some r" using 1(2) f by simp
    from find_hole_step [OF 1(3), of hf1] f hole have s: "heap_ok mmap hf1 ba" "h_block hf1 = h_block hf" "h_cursor hf \<le> h_cursor hf1" by simp_all
    from 1(1) [OF \<open>alloc mmap hf1 ba n = Some r\<close> s(1)] show ?thesis by (rule allocated_trans) (simp_all add: s grown_refl)
  next
    case more
    from new_block_step [OF 1(3), of hf1] obtain hf2 ba2 where b: "get_new_block mmap hf1 ba = Some (hf2, ba2)" "heap_ok mmap hf2 ba2"
      "grown ba ba2" "pos_index (h_block hf) < pos_index (h_block hf2)" by blast
    have "alloc mmap hf2 ba2 n = Some r" using 1(2) f more b(1) by simp
    from 1(1) [OF this b(2)] show ?thesis by (rule allocated_trans) (simp_all add: b)
  qed
qed

lemma ea_allocate_returns:
  "n \<le> 32640 \<Longrightarrow> heap_ok mmap hf ba \<Longrightarrow> \<exists>r. ea_allocate mmap hf ba n = Some r"
proof (induction "(remaining ba, cLineTableSize - hole_start_line hf)" arbitrary: hf ba rule: wf_induct_rule [OF wf_lex_prod [OF wf_less_than wf_less_than]])
  case 1
  obtain found hf1 where f: "find_hole (block_ref ba (h_block hf)) hf = (found, hf1)" by fastforce
  have loop: "ea_allocate mmap hf ba n =
      (if h_cursor hf + n > h_limit hf
       then if found then ea_allocate mmap hf1 ba n else Option.bind (get_new_block mmap hf1 ba) (\<lambda>(hf, ba). ea_allocate mmap hf ba n)
       else Some (h_cursor hf, hf\<lparr>h_cursor := h_cursor hf + n\<rparr>, ba))"
    if "find_hole (block_ref ba (h_block hf)) hf = (found, hf1)" for hf ba found hf1
    using that by (subst ea_allocate.simps) (simp add: bump_def)
  consider (fits) "\<not> h_cursor hf + n > h_limit hf" | (hole) "h_cursor hf + n > h_limit hf" found | (more) "h_cursor hf + n > h_limit hf" "\<not> found" by blast
  then show ?case
  proof cases
    case fits
    with loop [OF f] show ?thesis by simp
  next
    case hole
    from find_hole_step [OF 1(3), of hf1] f hole have s: "heap_ok mmap hf1 ba" "hole_start_line hf < hole_start_line hf1" by simp_all
    moreover have "hole_start_line hf1 \<le> cLineTableSize" using s(1) by (auto simp: heap_ok_def in_hole_def)
    ultimately have "\<exists>r. ea_allocate mmap hf1 ba n = Some r" using 1(1) [OF _ 1(2) s(1)] by simp
    with loop [OF f] hole show ?thesis by simp
  next
    case more
    from new_block_step [OF 1(3), of hf1] obtain hf2 ba2 where b: "get_new_block mmap hf1 ba = Some (hf2, ba2)" "heap_ok mmap hf2 ba2"
      "remaining ba2 < remaining ba \<or> h_limit hf2 = h_cursor hf2 + 32640" by blast
    have "\<exists>r. ea_allocate mmap hf2 ba2 n = Some r"
    proof (cases "remaining ba2 < remaining ba")
      case True
      with 1(1) [OF _ 1(2) b(2)] show ?thesis by simp
    next
      case False
      with b(3) 1(2) have fit: "\<not> h_cursor hf2 + n > h_limit hf2" by simp
      obtain found2 hf3 where "find_hole (block_ref ba2 (h_block hf2)) hf2 = (found2, hf3)" by fastforce
      from loop [OF this] fit show ?thesis by simp
    qed
    with loop [OF f] more b(1) show ?thesis by simp
  qed
qed


section \<open>Marking\<close>

text \<open>The block of an address is the one whose header stands at the aligned address.\<close>

definition from_address :: "BlockAllocator \<Rightarrow> nat \<Rightarrow> bpos option" where
  "from_address ba addr =
     find (\<lambda>pos. b_address (block_ref ba pos) = align addr) (List.product [0..<length (chunks ba)] [0..<cBlocksPerChunk])"

definition update_block :: "BlockAllocator \<Rightarrow> bpos \<Rightarrow> Block \<Rightarrow> BlockAllocator" where
  "update_block ba pos b = ba\<lparr>chunks := (chunks ba)[fst pos := (chunks ba ! fst pos)[snd pos := b]]\<rparr>"

record MarkState =
  m_marked :: "nat list"
  mark_stack :: "nat list"
  m_blocks :: BlockAllocator

definition GC_mark_address :: "(nat \<Rightarrow> nat) \<Rightarrow> nat \<Rightarrow> MarkState \<Rightarrow> MarkState option" where
  "GC_mark_address size_of addr st =
     (if addr \<in> set (m_marked st) then Some st
      else let st = st\<lparr>m_marked := addr # m_marked st, mark_stack := addr # mark_stack st\<rparr>
           in Option.bind (from_address (m_blocks st) addr) (\<lambda>pos.
             map_option (\<lambda>b. st\<lparr>m_blocks := update_block (m_blocks st) pos b\<rparr>)
               (Block_mark_address (block_ref (m_blocks st) pos) addr (size_of addr))))"

primrec mark_all :: "(nat \<Rightarrow> nat) \<Rightarrow> nat list \<Rightarrow> MarkState \<Rightarrow> MarkState option" where
  "mark_all size_of [] st = Some st"
| "mark_all size_of (a # as) st = Option.bind (GC_mark_address size_of a st) (mark_all size_of as)"

partial_function (option) process_mark_stack :: "(nat \<Rightarrow> nat) \<Rightarrow> (nat \<Rightarrow> nat list) \<Rightarrow> MarkState \<Rightarrow> MarkState option" where
  "process_mark_stack size_of pointers st =
     (case mark_stack st of [] \<Rightarrow> Some st
      | addr # stack \<Rightarrow> Option.bind (mark_all size_of (pointers addr) (st\<lparr>mark_stack := stack\<rparr>)) (process_mark_stack size_of pointers))"

declare process_mark_stack.simps [simp del]

definition GC_clear_lines :: "BlockAllocator \<Rightarrow> BlockAllocator" where
  "GC_clear_lines ba = ba\<lparr>chunks := map (map clear_lines) (chunks ba)\<rparr>"

definition ImmixGC_collect :: "(nat \<Rightarrow> nat \<times> nat) \<Rightarrow> (nat \<Rightarrow> nat) \<Rightarrow> (nat \<Rightarrow> nat list) \<Rightarrow> nat list \<Rightarrow> HoleFinder \<Rightarrow> BlockAllocator \<Rightarrow>
    (nat list \<times> HoleFinder \<times> BlockAllocator) option" where
  "ImmixGC_collect mmap size_of pointers roots hf ba =
     Option.bind (mark_all size_of roots \<lparr>m_marked = [], mark_stack = [], m_blocks = GC_clear_lines ba\<rparr>) (\<lambda>st.
       Option.bind (process_mark_stack size_of pointers st) (\<lambda>st.
         map_option (Pair (m_marked st)) (get_new_block mmap hf (BlockAllocator_reset (m_blocks st)))))"

inductive reachable :: "nat list \<Rightarrow> (nat \<Rightarrow> nat list) \<Rightarrow> nat \<Rightarrow> bool" for roots pointers where
  root: "a \<in> set roots \<Longrightarrow> reachable roots pointers a"
| pointer: "reachable roots pointers a \<Longrightarrow> b \<in> set (pointers a) \<Longrightarrow> reachable roots pointers b"

section \<open>Addresses of blocks\<close>

text \<open>The memory of different chunks does not overlap.\<close>

definition mmap_ok :: "(nat \<Rightarrow> nat \<times> nat) \<Rightarrow> bool" where
  "mmap_ok mmap \<longleftrightarrow> (\<forall>m n. m \<noteq> n \<longrightarrow> (let (s, l) = chunk_region (mmap m); (s', l') = chunk_region (mmap n) in s + l \<le> s' \<or> s' + l' \<le> s))"

definition block_base :: "(nat \<Rightarrow> nat \<times> nat) \<Rightarrow> bpos \<Rightarrow> nat" where
  "block_base mmap pos = chunk_base (mmap (fst pos)) + snd pos * cBlockSize"

lemma chunk_base_inside:
  "fst (chunk_region sys) \<le> chunk_base sys" "chunk_base sys + cChunkSize \<le> fst (chunk_region sys) + snd (chunk_region sys)"
  "chunk_base sys mod cBlockSize = 0"
proof -
  have al: "x \<le> align (x + cBlockSize)" "align (x + cBlockSize) \<le> cBlockSize + x" "align x mod cBlockSize = 0" for x
    by (simp_all add: align_def)
  then show "fst (chunk_region sys) \<le> chunk_base sys" "chunk_base sys + cChunkSize \<le> fst (chunk_region sys) + snd (chunk_region sys)"
    by (auto simp: chunk_base_def chunk_region_def)
  show "chunk_base sys mod cBlockSize = 0"
    using al(3) [of "fst sys"] al(3) [of "snd sys + cBlockSize"] by (auto simp: chunk_base_def)
qed

lemma blocks_disjoint:
  assumes "mmap_ok mmap" and "snd p < cBlocksPerChunk" and "snd q < cBlocksPerChunk" and "p \<noteq> q"
  shows "block_base mmap p + cBlockSize \<le> block_base mmap q \<or> block_base mmap q + cBlockSize \<le> block_base mmap p"
proof (cases "fst p = fst q")
  case True
  with assms(4) have "snd p < snd q \<or> snd q < snd p" by (metis linorder_neqE_nat prod_eqI)
  then show ?thesis using True by (auto simp: block_base_def)
next
  case False
  let ?p = "chunk_region (mmap (fst p))" and ?q = "chunk_region (mmap (fst q))"
  have "fst ?p + snd ?p \<le> fst ?q \<or> fst ?q + snd ?q \<le> fst ?p"
    using assms(1) False unfolding mmap_ok_def Let_def case_prod_unfold by blast
  moreover have "(snd p + 1) * cBlockSize \<le> cChunkSize" "(snd q + 1) * cBlockSize \<le> cChunkSize" using assms(2,3) by simp_all
  ultimately show ?thesis using chunk_base_inside [of "mmap (fst p)"] chunk_base_inside [of "mmap (fst q)"] by (auto simp: block_base_def)
qed

text \<open>An object lies in the lines of a block.\<close>

definition object_at :: "(nat \<Rightarrow> nat \<times> nat) \<Rightarrow> BlockAllocator \<Rightarrow> bpos \<Rightarrow> nat \<Rightarrow> nat \<Rightarrow> bool" where
  "object_at mmap ba pos a n \<longleftrightarrow> 0 < n \<and> valid_pos ba pos \<and> block_base mmap pos + cLineSize \<le> a \<and> a + n \<le> block_base mmap pos + cBlockSize"

definition lines_marked :: "BlockAllocator \<Rightarrow> bpos \<Rightarrow> nat \<Rightarrow> nat \<Rightarrow> bool" where
  "lines_marked ba pos a n \<longleftrightarrow> (\<forall>x. a \<le> x \<longrightarrow> x < a + n \<longrightarrow> b_lines (block_ref ba pos) ! line_of (block_ref ba pos) x)"

lemma wf_ref: "ba_wf mmap ba \<Longrightarrow> valid_pos ba pos \<Longrightarrow> block_wf (block_base mmap pos) (block_ref ba pos)"
  unfolding ba_wf_def block_base_def by blast

lemma from_address_ok:
  assumes "mmap_ok mmap" and "ba_wf mmap ba" and "object_at mmap ba pos a n"
  shows "from_address ba a = Some pos"
proof -
  have v: "valid_pos ba pos" and a: "block_base mmap pos \<le> a" "a < block_base mmap pos + cBlockSize"
    using assms(3) by (auto simp: object_at_def)
  have "block_base mmap pos mod cBlockSize = 0" using chunk_base_inside(3) by (simp add: block_base_def mod_add_left_eq [symmetric])
  then obtain k where k: "block_base mmap pos = k * cBlockSize" by (metis mult_div_mod_eq add_0_right mult.commute)
  then have "a div cBlockSize = k" using a by (intro div_nat_eqI) simp_all
  then have al: "align a = block_base mmap pos" by (simp add: align_def k)
  have uniq: "q = pos" if "valid_pos ba q" "b_address (block_ref ba q) = align a" for q
  proof (rule ccontr)
    assume "q \<noteq> pos"
    with blocks_disjoint [OF assms(1), of q pos] that v wf_ref [OF assms(2) that(1)] al show False
      by (auto simp: valid_pos_def block_wf_def)
  qed
  have mem: "q \<in> set (List.product [0..<length (chunks ba)] [0..<cBlocksPerChunk]) \<longleftrightarrow> valid_pos ba q" for q
    by (cases q) (auto simp: valid_pos_def)
  have "b_address (block_ref ba pos) = align a" using wf_ref [OF assms(2) v] al by (simp add: block_wf_def)
  with v mem obtain q where q: "from_address ba a = Some q"
    by (metis (mono_tags, lifting) find_None_iff from_address_def option.exhaust)
  then have "q \<in> set (List.product [0..<length (chunks ba)] [0..<cBlocksPerChunk])" "b_address (block_ref ba q) = align a"
    unfolding from_address_def find_Some_iff by (metis nth_mem)+
  then have "valid_pos ba q" "b_address (block_ref ba q) = align a" using mem by blast+
  with uniq q show ?thesis by simp
qed

lemma update_block_ok:
  assumes "ba_wf mmap ba" and "valid_pos ba pos" and "block_wf (block_base mmap pos) b"
  shows "valid_pos (update_block ba pos b) q \<longleftrightarrow> valid_pos ba q" and "length (chunks (update_block ba pos b)) = length (chunks ba)"
    and "valid_pos ba q \<Longrightarrow> block_ref (update_block ba pos b) q = (if q = pos then b else block_ref ba q)"
    and "ba_wf mmap (update_block ba pos b)"
proof -
  let ?ba = "update_block ba pos b"
  show v: "valid_pos ?ba q \<longleftrightarrow> valid_pos ba q" for q by (simp add: valid_pos_def update_block_def)
  show "length (chunks ?ba) = length (chunks ba)" by (simp add: update_block_def)
  have len: "length (chunks ba ! fst pos) = cBlocksPerChunk" using assms(1,2) by (simp add: ba_wf_def valid_pos_def)
  show ref: "block_ref ?ba q = (if q = pos then b else block_ref ba q)" if "valid_pos ba q" for q
    using that len assms(2) by (cases q; cases pos) (auto simp: block_ref_def update_block_def valid_pos_def nth_list_update)
  have "length (chunks ?ba ! c) = cBlocksPerChunk" if "c < length (chunks ba)" for c
    using assms(1) that len by (cases "c = fst pos") (simp_all add: ba_wf_def update_block_def)
  then show "ba_wf mmap ?ba"
    using assms(3) ref v wf_ref [OF assms(1)] unfolding ba_wf_def block_base_def by (auto simp: update_block_def)
qed


section \<open>The mark phase\<close>

text \<open>The state of the mark phase, for the objects at \<open>a\<close> of size \<open>size_of a\<close>: the lines of all marked objects are marked.\<close>

definition marking_ok :: "(nat \<Rightarrow> nat \<times> nat) \<Rightarrow> (nat \<Rightarrow> nat) \<Rightarrow> nat \<Rightarrow> MarkState \<Rightarrow> bool" where
  "marking_ok mmap size_of n st \<longleftrightarrow> ba_wf mmap (m_blocks st) \<and> length (chunks (m_blocks st)) = n \<and>
     (\<forall>a\<in>set (m_marked st). \<exists>pos. object_at mmap (m_blocks st) pos a (size_of a) \<and> lines_marked (m_blocks st) pos a (size_of a))"

text \<open>The number of chunks says where an object can lie.\<close>

definition located :: "(nat \<Rightarrow> nat \<times> nat) \<Rightarrow> nat \<Rightarrow> nat \<Rightarrow> nat \<Rightarrow> bool" where
  "located mmap n a sz \<longleftrightarrow> 0 < sz \<and> (\<exists>pos. fst pos < n \<and> snd pos < cBlocksPerChunk \<and> block_base mmap pos + cLineSize \<le> a \<and>
     a + sz \<le> block_base mmap pos + cBlockSize)"

lemma located_iff: "located mmap (length (chunks ba)) a sz \<longleftrightarrow> (\<exists>pos. object_at mmap ba pos a sz)"
  by (auto simp: located_def object_at_def valid_pos_def)

lemma block_base_line: "block_base mmap pos mod cLineSize = 0"
proof -
  have "chunk_base (mmap (fst pos)) mod cBlockSize mod cLineSize = 0" using chunk_base_inside(3) by simp
  then have "chunk_base (mmap (fst pos)) mod cLineSize = 0" by (simp add: mod_mod_cancel)
  then show ?thesis by (simp add: block_base_def mod_add_left_eq [symmetric])
qed

lemma GC_mark_address_ok:
  assumes "mmap_ok mmap" and "marking_ok mmap size_of n st" and "located mmap n a (size_of a)"
  shows "\<exists>st'. GC_mark_address size_of a st = Some st' \<and> marking_ok mmap size_of n st' \<and>
    set (m_marked st') = insert a (set (m_marked st)) \<and>
    mark_stack st' = (if a \<in> set (m_marked st) then mark_stack st else a # mark_stack st)"
proof (cases "a \<in> set (m_marked st)")
  case True
  with assms(2) show ?thesis by (auto simp: GC_mark_address_def)
next
  case False
  let ?ba = "m_blocks st"
  have wf: "ba_wf mmap ?ba" and n: "length (chunks ?ba) = n" using assms(2) by (simp_all add: marking_ok_def)
  obtain pos where pos: "object_at mmap ?ba pos a (size_of a)" using assms(3) located_iff [of mmap ?ba] n by auto
  have v: "valid_pos ?ba pos" using pos by (simp add: object_at_def)
  let ?b = "block_ref ?ba pos"
  have b: "block_wf (block_base mmap pos) ?b" using wf_ref [OF wf v] .
  obtain b' where b': "Block_mark_address ?b a (size_of a) = Some b'" "length (b_lines b') = cLineTableSize" "b_address b' = b_address ?b"
      "\<forall>i<cLineTableSize. b_lines b' ! i \<longleftrightarrow> b_lines ?b ! i \<or> (\<exists>x. a \<le> x \<and> x < a + size_of a \<and> line_of ?b x = i)"
    using Block_mark_address_ok [of ?b a "size_of a"] b pos block_base_line by (auto simp: block_wf_def object_at_def)
  have wf': "block_wf (block_base mmap pos) b'" using b b' by (simp add: block_wf_def)
  note upd = update_block_ok [OF wf v wf']
  let ?st = "st\<lparr>m_marked := a # m_marked st, mark_stack := a # mark_stack st, m_blocks := update_block ?ba pos b'\<rparr>"
  have "GC_mark_address size_of a st = Some ?st"
    using False from_address_ok [OF assms(1) wf pos] b'(1) by (simp add: GC_mark_address_def Let_def)
  moreover have "marking_ok mmap size_of n ?st"
  proof -
    have at: "object_at mmap (update_block ?ba pos b') q c sz \<longleftrightarrow> object_at mmap ?ba q c sz" for q c sz by (simp add: object_at_def upd(1))
    have line: "line_of ?b x < cLineTableSize" if "block_base mmap pos \<le> x" "x < block_base mmap pos + cBlockSize" for x
      using that b by (simp add: line_of_def block_wf_def div_less_iff_less_mult)
    have own: "lines_marked (update_block ?ba pos b') pos a (size_of a)"
      using b' line pos by (auto simp: lines_marked_def upd(3) [OF v] line_of_def object_at_def)
    have old: "lines_marked (update_block ?ba pos b') q c (size_of c)"
      if "object_at mmap ?ba q c (size_of c)" "lines_marked ?ba q c (size_of c)" for q c
    proof (cases "q = pos")
      case True
      with that b' line show ?thesis by (auto simp: lines_marked_def upd(3) [OF v] line_of_def object_at_def)
    next
      case False
      have "valid_pos ?ba q" using that(1) by (simp add: object_at_def)
      with False that(2) show ?thesis by (simp add: lines_marked_def upd(3))
    qed
    have "\<exists>q. object_at mmap ?ba q c (size_of c) \<and> lines_marked (update_block ?ba pos b') q c (size_of c)" if "c \<in> insert a (set (m_marked st))" for c
      using that own pos old assms(2) by (fastforce simp: marking_ok_def)
    then show ?thesis using upd(2,4) n at by (simp add: marking_ok_def)
  qed
  ultimately show ?thesis using False by simp
qed

text \<open>Each marking pushes an object that was not marked before: the stack and the unmarked objects are as many as before.\<close>

lemma mark_all_ok:
  assumes "mmap_ok mmap" and "finite R" and "\<And>a. a \<in> R \<Longrightarrow> located mmap n a (size_of a)"
  shows "marking_ok mmap size_of n st \<Longrightarrow> set as \<subseteq> R \<Longrightarrow> set (mark_stack st) \<subseteq> set (m_marked st) \<Longrightarrow>
    \<exists>st'. mark_all size_of as st = Some st' \<and> marking_ok mmap size_of n st' \<and> set (m_marked st') = set as \<union> set (m_marked st) \<and>
      set (mark_stack st') = set (mark_stack st) \<union> (set as - set (m_marked st)) \<and>
      length (mark_stack st') + card (R - set (m_marked st')) = length (mark_stack st) + card (R - set (m_marked st))"
proof (induction as arbitrary: st)
  case (Cons a as)
  then have "located mmap n a (size_of a)" using assms(3) by simp
  from GC_mark_address_ok [OF assms(1) Cons.prems(1) this] obtain st1 where one: "GC_mark_address size_of a st = Some st1"
    "marking_ok mmap size_of n st1" "set (m_marked st1) = insert a (set (m_marked st))"
    "mark_stack st1 = (if a \<in> set (m_marked st) then mark_stack st else a # mark_stack st)" by blast
  have "card (R - set (m_marked st)) = Suc (card (R - set (m_marked st1)))" if "a \<notin> set (m_marked st)"
  proof -
    have "R - set (m_marked st1) = (R - set (m_marked st)) - {a}" using one(3) by auto
    moreover have "a \<in> R - set (m_marked st)" using that Cons.prems(2) by simp
    ultimately show ?thesis using card.remove [of "R - set (m_marked st)" a] assms(2) by simp
  qed
  then have len: "length (mark_stack st1) + card (R - set (m_marked st1)) = length (mark_stack st) + card (R - set (m_marked st))"
    using one(3,4) by (cases "a \<in> set (m_marked st)") (simp_all add: insert_absorb)
  have "set as \<subseteq> R" "set (mark_stack st1) \<subseteq> set (m_marked st1)" using Cons.prems(2,3) one(3,4) by auto
  from Cons.IH [OF one(2) this] obtain st' where two: "mark_all size_of as st1 = Some st'" "marking_ok mmap size_of n st'"
    "set (m_marked st') = set as \<union> set (m_marked st1)" "set (mark_stack st') = set (mark_stack st1) \<union> (set as - set (m_marked st1))"
    "length (mark_stack st') + card (R - set (m_marked st')) = length (mark_stack st1) + card (R - set (m_marked st1))"
    by blast
  show ?case
  proof (intro exI conjI)
    show "mark_all size_of (a # as) st = Some st'" using one(1) two(1) by simp
    show "marking_ok mmap size_of n st'" by (rule two(2))
    show "set (m_marked st') = set (a # as) \<union> set (m_marked st)" using one(3) two(3) by auto
    show "set (mark_stack st') = set (mark_stack st) \<union> (set (a # as) - set (m_marked st))"
      using one(3,4) two(4) by (cases "a \<in> set (m_marked st)") auto
    show "length (mark_stack st') + card (R - set (m_marked st')) = length (mark_stack st) + card (R - set (m_marked st))"
      using two(5) len by simp
  qed
qed auto

lemma process_ok:
  assumes "mmap_ok mmap" and "finite R" and "\<And>a. a \<in> R \<Longrightarrow> located mmap n a (size_of a)" and "\<And>a. a \<in> R \<Longrightarrow> set (pointers a) \<subseteq> R"
  shows "marking_ok mmap size_of n st \<Longrightarrow> set (mark_stack st) \<subseteq> set (m_marked st) \<Longrightarrow> set (m_marked st) \<subseteq> R \<Longrightarrow>
    (\<And>a. a \<in> set (m_marked st) - set (mark_stack st) \<Longrightarrow> set (pointers a) \<subseteq> set (m_marked st)) \<Longrightarrow>
    \<exists>st'. process_mark_stack size_of pointers st = Some st' \<and> marking_ok mmap size_of n st' \<and>
      set (m_marked st) \<subseteq> set (m_marked st') \<and> set (m_marked st') \<subseteq> R \<and>
      (\<forall>a\<in>set (m_marked st'). set (pointers a) \<subseteq> set (m_marked st'))"
proof (induction "length (mark_stack st) + card (R - set (m_marked st))" arbitrary: st rule: less_induct)
  case less
  show ?case
  proof (cases "mark_stack st")
    case Nil
    then show ?thesis using less.prems by (subst process_mark_stack.simps) auto
  next
    case (Cons a stack)
    let ?st = "st\<lparr>mark_stack := stack\<rparr>"
    have "a \<in> R" using less.prems(2,3) Cons by auto
    then have pre: "marking_ok mmap size_of n ?st" "set (pointers a) \<subseteq> R" "set (mark_stack ?st) \<subseteq> set (m_marked ?st)"
      using less.prems(1,2) assms(4) Cons by (simp_all add: marking_ok_def)
    obtain st1 where one: "mark_all size_of (pointers a) ?st = Some st1" "marking_ok mmap size_of n st1"
      "set (m_marked st1) = set (pointers a) \<union> set (m_marked st)" "set (mark_stack st1) = set stack \<union> (set (pointers a) - set (m_marked st))"
      "length (mark_stack st1) + card (R - set (m_marked st1)) = length stack + card (R - set (m_marked st))"
      using mark_all_ok [OF assms(1-3) pre] by auto
    have closed: "set (pointers c) \<subseteq> set (m_marked st1)" if "c \<in> set (m_marked st1) - set (mark_stack st1)" for c
    proof (cases "c = a")
      case False
      with that have "c \<in> set (m_marked st) - set (mark_stack st)" by (auto simp: one(3,4) Cons)
      with less.prems(4) show ?thesis by (auto simp: one(3))
    qed (simp add: one(3))
    have "length (mark_stack st1) + card (R - set (m_marked st1)) < length (mark_stack st) + card (R - set (m_marked st))"
      using one(5) Cons by simp
    moreover have "set (mark_stack st1) \<subseteq> set (m_marked st1)" "set (m_marked st1) \<subseteq> R"
      using less.prems(2,3) Cons pre(2) by (auto simp: one(3,4))
    ultimately obtain st' where two: "process_mark_stack size_of pointers st1 = Some st'" "marking_ok mmap size_of n st'"
      "set (m_marked st1) \<subseteq> set (m_marked st')" "set (m_marked st') \<subseteq> R" "\<forall>a\<in>set (m_marked st'). set (pointers a) \<subseteq> set (m_marked st')"
      using less.hyps [OF _ one(2) _ _ closed] by blast
    have "process_mark_stack size_of pointers st = Some st'"
      using one(1) two(1) by (subst process_mark_stack.simps) (simp add: Cons)
    with two one(3) show ?thesis by blast
  qed
qed

end
