(* ===== verification/Vm_Immix_Heap.thy ===== *)
theory Vm_Immix_Heap
  imports Vm_Immix_Run
begin

text \<open>
  The life of the Immix heap: any sequence of allocations and collections. The state of a run is the set of the
  objects, address and size, that have been allocated or found reachable by the last collection.
\<close>

section \<open>A collection\<close>

lemma stats_loop_full: "\<forall>l\<in>set lines. l \<Longrightarrow> stats_loop lines inside holes used = (holes, used + length lines)"
  by (induction lines arbitrary: inside used) auto

lemma update_stats_ok:
  assumes "block_wf base b"
  shows "block_wf base (update_stats b)" and "block_fresh (update_stats b)" and "b_lines (update_stats b) = b_lines b"
    and "b_address (update_stats b) = b_address b"
proof -
  show same: "b_lines (update_stats b) = b_lines b" "b_address (update_stats b) = b_address b"
    by (simp_all add: update_stats_def split: prod.split)
  then show "block_wf base (update_stats b)" using assms by (simp add: block_wf_def)
  show "block_fresh (update_stats b)"
  proof (cases "\<forall>l\<in>set (b_lines b). l")
    case True
    then have "stats_loop (b_lines b) False 0 0 = (0, cLineTableSize)" using stats_loop_full assms by (simp add: block_wf_def)
    then show ?thesis by (simp add: block_fresh_def usable_def update_stats_def)
  next
    case False
    then obtain i where "i < cLineTableSize" "\<not> b_lines b ! i" using assms by (auto simp: block_wf_def in_set_conv_nth)
    with same show ?thesis by (auto simp: block_fresh_def)
  qed
qed

lemma map_blocks_ok:
  assumes "ba_wf mmap ba" and "chunks ba' = map (map f) (chunks ba)"
  shows "valid_pos ba' pos \<longleftrightarrow> valid_pos ba pos" and "valid_pos ba pos \<Longrightarrow> block_ref ba' pos = f (block_ref ba pos)"
    and "(\<And>base b. block_wf base b \<Longrightarrow> block_wf base (f b)) \<Longrightarrow> ba_wf mmap ba'"
proof -
  show v: "valid_pos ba' pos \<longleftrightarrow> valid_pos ba pos" for pos using assms(2) by (simp add: valid_pos_def)
  show r: "block_ref ba' pos = f (block_ref ba pos)" if "valid_pos ba pos" for pos
    using that assms by (auto simp: block_ref_def valid_pos_def ba_wf_def)
  show "ba_wf mmap ba'" if "\<And>base b. block_wf base b \<Longrightarrow> block_wf base (f b)"
    using assms v r that wf_ref [OF assms(1)] unfolding ba_wf_def block_base_def by auto
qed

lemma clear_lines_wf: "block_wf base b \<Longrightarrow> block_wf base (clear_lines b)"
  by (simp add: block_wf_def clear_lines_def fresh_lines_def)

lemma reset_ok:
  assumes "ba_wf mmap ba" and "chunks ba \<noteq> []"
  shows "ba_wf mmap (BlockAllocator_reset ba)" and "ba_fresh (BlockAllocator_reset ba)" and "cursor_ok (BlockAllocator_reset ba)"
    and "object_at mmap (BlockAllocator_reset ba) pos a n \<longleftrightarrow> object_at mmap ba pos a n"
    and "valid_pos ba pos \<Longrightarrow> lines_marked (BlockAllocator_reset ba) pos a n \<longleftrightarrow> lines_marked ba pos a n"
proof -
  let ?ba = "BlockAllocator_reset ba"
  have c: "chunks ?ba = map (map update_stats) (chunks ba)" by (simp add: BlockAllocator_reset_def)
  note m = map_blocks_ok [OF assms(1) c]
  show "ba_wf mmap ?ba" by (rule m(3)) (rule update_stats_ok)
  have "block_fresh (block_ref ?ba pos)" if "valid_pos ?ba pos" for pos
    using that m(1,2) update_stats_ok(2) [OF wf_ref [OF assms(1)]] by metis
  then show "ba_fresh ?ba" unfolding ba_fresh_def by blast
  show "cursor_ok ?ba" using assms(2) by (simp add: cursor_ok_def BlockAllocator_reset_def)
  show "object_at mmap ?ba pos a n \<longleftrightarrow> object_at mmap ba pos a n" by (simp add: object_at_def m(1))
  show "lines_marked ?ba pos a n \<longleftrightarrow> lines_marked ba pos a n" if "valid_pos ba pos"
    using m(2) [OF that] update_stats_ok(3,4) [OF wf_ref [OF assms(1) that]] by (simp add: lines_marked_def line_of_def)
qed

lemma collect_ok:
  assumes "mmap_ok mmap" and "heap_ok mmap hf ba" and "finite {a. reachable roots pointers a}"
    and "\<And>a. reachable roots pointers a \<Longrightarrow> located mmap (length (chunks ba)) a (size_of a)"
  shows "\<exists>marked hf' ba'. ImmixGC_collect mmap size_of pointers roots hf ba = Some (marked, hf', ba') \<and>
    set marked = {a. reachable roots pointers a} \<and> heap_ok mmap hf' ba' \<and>
    (\<forall>a\<in>set marked. \<exists>pos. object_at mmap ba' pos a (size_of a) \<and> lines_marked ba' pos a (size_of a))"
proof -
  let ?R = "{a. reachable roots pointers a}" and ?n = "length (chunks ba)"
  let ?st = "\<lparr>m_marked = [], mark_stack = [], m_blocks = GC_clear_lines ba\<rparr>"
  have wf: "ba_wf mmap ba" and ne: "?n \<noteq> 0" using assms(2) by (auto simp: heap_ok_def cursor_ok_def)
  have clear: "ba_wf mmap (GC_clear_lines ba)"
    by (rule map_blocks_ok(3) [OF wf, where f = clear_lines]) (simp_all add: GC_clear_lines_def clear_lines_wf)
  have start: "marking_ok mmap size_of ?n ?st" using clear by (simp add: marking_ok_def GC_clear_lines_def)
  have loc: "located mmap ?n a (size_of a)" if "a \<in> ?R" for a using that assms(4) by simp
  have roots: "set roots \<subseteq> ?R" by (auto intro: reachable.root)
  obtain st1 where one: "mark_all size_of roots ?st = Some st1" "marking_ok mmap size_of ?n st1" "set (m_marked st1) = set roots"
      "set (mark_stack st1) = set roots"
    using mark_all_ok [OF assms(1,3) loc start roots] by auto
  have closed: "set (pointers a) \<subseteq> ?R" if "a \<in> ?R" for a using that by (auto intro: reachable.pointer)
  obtain st2 where two: "process_mark_stack size_of pointers st1 = Some st2" "marking_ok mmap size_of ?n st2" "set roots \<subseteq> set (m_marked st2)"
      "set (m_marked st2) \<subseteq> ?R" "\<forall>a\<in>set (m_marked st2). set (pointers a) \<subseteq> set (m_marked st2)"
    using process_ok [where pointers = pointers, OF assms(1,3) loc closed one(2)] one(3,4) roots by auto
  have "reachable roots pointers a \<Longrightarrow> a \<in> set (m_marked st2)" for a
    by (induction rule: reachable.induct) (use two(3,5) in auto)
  with two(4) have marked: "set (m_marked st2) = ?R" by auto
  let ?ba = "BlockAllocator_reset (m_blocks st2)"
  have wf2: "ba_wf mmap (m_blocks st2)" "chunks (m_blocks st2) \<noteq> []" using two(2) ne by (auto simp: marking_ok_def)
  note reset = reset_ok [OF wf2]
  obtain hf' ba' where new: "get_new_block mmap hf ?ba = Some (hf', ba')" "got_block mmap ?ba (h_block hf') ba'" "heap_ok mmap hf' ba'"
    using get_new_block_ok [OF reset(1,2), of hf] reset(3) by (auto simp: can_get_def)
  have "ImmixGC_collect mmap size_of pointers roots hf ba = Some (m_marked st2, hf', ba')"
    using one(1) two(1) new(1) by (simp add: ImmixGC_collect_def)
  moreover have "\<exists>pos. object_at mmap ba' pos a (size_of a) \<and> lines_marked ba' pos a (size_of a)" if "a \<in> set (m_marked st2)" for a
  proof -
    have "\<forall>a\<in>set (m_marked st2). \<exists>pos. object_at mmap (m_blocks st2) pos a (size_of a) \<and> lines_marked (m_blocks st2) pos a (size_of a)"
      using two(2) unfolding marking_ok_def by (elim conjE)
    from bspec [OF this that] obtain pos where
      p: "object_at mmap (m_blocks st2) pos a (size_of a)" "lines_marked (m_blocks st2) pos a (size_of a)" by (elim exE conjE)
    then have "valid_pos (m_blocks st2) pos" by (simp add: object_at_def)
    with p have "object_at mmap ?ba pos a (size_of a)" "lines_marked ?ba pos a (size_of a)" using reset(4,5) by blast+
    moreover have "grown ?ba ba'" using new(2) by (simp add: got_block_def)
    ultimately have "object_at mmap ba' pos a (size_of a)" "lines_marked ba' pos a (size_of a)"
      using grown_ref [of ?ba ba' pos] by (simp_all add: object_at_def lines_marked_def)
    then show ?thesis by blast
  qed
  ultimately show ?thesis using marked new(3) by blast
qed

section \<open>Runs\<close>

inductive gc_run :: "(nat \<Rightarrow> nat \<times> nat) \<Rightarrow> (nat \<times> nat) set \<Rightarrow> HoleFinder \<Rightarrow> BlockAllocator \<Rightarrow> bool" for mmap where
  create: "ExpandingAllocator_create mmap BlockAllocator_create = Some (hf, ba) \<Longrightarrow> gc_run mmap {} hf ba"
| allocate: "gc_run mmap L hf ba \<Longrightarrow> 0 < n \<Longrightarrow> ea_allocate mmap hf ba n = Some (a, hf', ba') \<Longrightarrow> gc_run mmap (insert (a, n) L) hf' ba'"
| collect: "gc_run mmap L hf ba \<Longrightarrow> (\<And>a. reachable roots pointers a \<Longrightarrow> (a, size_of a) \<in> L) \<Longrightarrow>
    ImmixGC_collect mmap size_of pointers roots hf ba = Some (marked, hf', ba') \<Longrightarrow> gc_run mmap {(a, size_of a) |a. a \<in> set marked} hf' ba'"

text \<open>Every object lies in lines that are marked, or that were free and that the allocator has passed.\<close>

definition placed :: "(nat \<Rightarrow> nat \<times> nat) \<Rightarrow> HoleFinder \<Rightarrow> BlockAllocator \<Rightarrow> nat \<Rightarrow> nat \<Rightarrow> bool" where
  "placed mmap hf ba a n \<longleftrightarrow> (\<exists>pos. object_at mmap ba pos a n \<and> (lines_marked ba pos a n \<or>
     pos_index pos < pos_index (h_block hf) \<or> pos = h_block hf \<and> a + n \<le> h_cursor hf))"

lemma create_ok:
  "\<exists>hf ba. ExpandingAllocator_create mmap BlockAllocator_create = Some (hf, ba) \<and> heap_ok mmap hf ba"
proof -
  have "ba_wf mmap BlockAllocator_create" "ba_fresh BlockAllocator_create" "can_get BlockAllocator_create"
    by (simp_all add: ba_wf_def ba_fresh_def can_get_def valid_pos_def BlockAllocator_create_def)
  from get_new_block_ok [OF this] show ?thesis unfolding ExpandingAllocator_create_def by blast
qed

lemma allocate_placed:
  assumes "allocated mmap hf ba n a hf' ba'" and "0 < n"
  shows "placed mmap hf' ba' a n" and "placed mmap hf ba b m \<Longrightarrow> placed mmap hf' ba' b m"
proof -
  have heap: "heap_ok mmap hf' ba'" and grown: "grown ba ba'" and free: "free_range (block_ref ba' (h_block hf')) a n" "a + n = h_cursor hf'"
    using assms(1) by (simp_all add: allocated_def)
  have v: "valid_pos ba' (h_block hf')" and wf: "ba_wf mmap ba'" using heap by (simp_all add: heap_ok_def)
  have at: "object_at mmap ba' (h_block hf') a n"
    using free(1) wf_ref [OF wf v] v assms(2) by (simp add: object_at_def free_range_def block_wf_def)
  with free(2) show "placed mmap hf' ba' a n" unfolding placed_def by (metis order_refl)
  assume "placed mmap hf ba b m"
  then obtain pos where p: "object_at mmap ba pos b m" "lines_marked ba pos b m \<or> pos_index pos < pos_index (h_block hf) \<or> pos = h_block hf \<and> b + m \<le> h_cursor hf"
    by (auto simp: placed_def)
  have "valid_pos ba pos" using p(1) by (simp add: object_at_def)
  with grown_ref [OF grown] have "block_ref ba' pos = block_ref ba pos" "valid_pos ba' pos" by simp_all
  then have "object_at mmap ba' pos b m" "lines_marked ba' pos b m \<longleftrightarrow> lines_marked ba pos b m"
    using p(1) by (simp_all add: object_at_def lines_marked_def)
  moreover have "pos_index (h_block hf) < pos_index (h_block hf') \<or> h_block hf' = h_block hf \<and> h_cursor hf \<le> h_cursor hf'"
    using assms(1) by (auto simp: allocated_def)
  ultimately have "lines_marked ba' pos b m \<or> pos_index pos < pos_index (h_block hf') \<or> pos = h_block hf' \<and> b + m \<le> h_cursor hf'"
    using p(2) by auto
  with \<open>object_at mmap ba' pos b m\<close> show "placed mmap hf' ba' b m" unfolding placed_def by blast
qed

lemma allocate_disjoint:
  assumes "mmap_ok mmap" and "allocated mmap hf ba n a hf' ba'" and "0 < n" and "placed mmap hf ba b m"
  shows "a + n \<le> b \<or> b + m \<le> a"
proof -
  let ?q = "h_block hf'"
  have heap: "heap_ok mmap hf' ba'" and grown: "grown ba ba'" and free: "free_range (block_ref ba' ?q) a n"
    and later: "pos_index (h_block hf) < pos_index ?q \<or> ?q = h_block hf \<and> h_cursor hf \<le> a"
    using assms(2) by (simp_all add: allocated_def)
  have v: "valid_pos ba' ?q" and wf: "ba_wf mmap ba'" using heap by (simp_all add: heap_ok_def)
  obtain pos where p: "object_at mmap ba pos b m" "lines_marked ba pos b m \<or> pos_index pos < pos_index (h_block hf) \<or> pos = h_block hf \<and> b + m \<le> h_cursor hf"
    using assms(4) by (auto simp: placed_def)
  have vp: "valid_pos ba pos" using p(1) by (simp add: object_at_def)
  have range: "block_base mmap ?q \<le> a" "a + n \<le> block_base mmap ?q + cBlockSize"
    using free wf_ref [OF wf v] by (simp_all add: free_range_def block_wf_def)
  show ?thesis
  proof (cases "pos = ?q")
    case False
    then have "block_base mmap pos + cBlockSize \<le> block_base mmap ?q \<or> block_base mmap ?q + cBlockSize \<le> block_base mmap pos"
      using blocks_disjoint [OF assms(1), of pos ?q] vp v by (simp add: valid_pos_def)
    with range p(1) show ?thesis by (auto simp: object_at_def)
  next
    case True
    have "lines_marked ba pos b m \<Longrightarrow> ?thesis"
    proof (rule ccontr)
      assume marked: "lines_marked ba pos b m" and "\<not> ?thesis"
      then have x: "b \<le> max a b" "max a b < b + m" and "a \<le> max a b" "max a b < a + n" using assms(3) p(1) by (auto simp: object_at_def)
      have ref: "block_ref ba' ?q = block_ref ba pos" using True grown_ref [OF grown vp] by simp
      have "b_lines (block_ref ba pos) ! line_of (block_ref ba pos) (max a b)" using marked x unfolding lines_marked_def by blast
      moreover have "\<not> b_lines (block_ref ba pos) ! line_of (block_ref ba pos) (max a b)"
        using free \<open>a \<le> max a b\<close> \<open>max a b < a + n\<close> unfolding ref free_range_def by blast
      ultimately show False by simp
    qed
    moreover have "pos_index pos < pos_index (h_block hf) \<or> pos = h_block hf \<and> b + m \<le> h_cursor hf \<Longrightarrow> b + m \<le> a"
      using later True by auto
    ultimately show ?thesis using p(2) by blast
  qed
qed

lemma gc_run_ok: "gc_run mmap L hf ba \<Longrightarrow> mmap_ok mmap \<Longrightarrow> heap_ok mmap hf ba \<and> finite L \<and> (\<forall>(a, n)\<in>L. placed mmap hf ba a n)"
proof (induction rule: gc_run.induct)
  case (create hf ba)
  with create_ok [of mmap] show ?case by simp
next
  case (allocate L hf ba n a hf' ba')
  then have "allocated mmap hf ba n a hf' ba'" using ea_allocate_ok [of mmap hf ba n "(a, hf', ba')"] by simp
  with allocate allocate_placed [OF this] show ?case by (auto simp: allocated_def)
next
  case (collect L hf ba roots pointers size_of marked hf' ba')
  let ?R = "{a. reachable roots pointers a}"
  have "?R \<subseteq> fst ` L" using collect.hyps(2) by force
  then have "finite ?R" using collect finite_subset by blast
  moreover have "located mmap (length (chunks ba)) a (size_of a)" if "reachable roots pointers a" for a
    using collect.IH [OF collect.prems] collect.hyps(2) [OF that] by (force simp: placed_def located_iff)
  ultimately show ?case
    using collect_ok [of mmap hf ba roots pointers size_of] collect by (auto simp: placed_def) blast+
qed


section \<open>Properties\<close>

text \<open>Chunks that follow one another in memory.\<close>

definition mmap0 :: "nat \<Rightarrow> nat \<times> nat" where "mmap0 n = (n * cChunkSize, 0)"

lemma mmap0_ok: "mmap_ok mmap0"
proof -
  have "chunk_region (mmap0 n) = (n * cChunkSize, cChunkSize)" for n
    by (simp add: chunk_region_def mmap0_def align_def)
  moreover have "m * cChunkSize + cChunkSize \<le> n * cChunkSize \<or> n * cChunkSize + cChunkSize \<le> m * cChunkSize" if "m \<noteq> n" for m n :: nat
    using that by auto
  ultimately show ?thesis by (simp add: mmap_ok_def)
qed

lemma allocate_exists:
  assumes "gc_run mmap L hf ba" and "mmap_ok mmap" and "0 < n" and "n \<le> 32640"
  shows "\<exists>a hf' ba'. ea_allocate mmap hf ba n = Some (a, hf', ba') \<and> gc_run mmap (insert (a, n) L) hf' ba'"
proof -
  have "heap_ok mmap hf ba" using gc_run_ok [OF assms(1,2)] by simp
  from ea_allocate_returns [OF assms(4) this] obtain a hf' ba' where "ea_allocate mmap hf ba n = Some (a, hf', ba')" by auto
  with gc_run.allocate [OF assms(1,3)] show ?thesis by blast
qed

lemma gc_run_start: "\<exists>hf ba. gc_run mmap {} hf ba"
  using create_ok [of mmap] gc_run.create by blast

lemma gc_run_one: "\<exists>a hf ba. gc_run mmap0 {(a, 64)} hf ba"
  using gc_run_start [of mmap0] allocate_exists [OF _ mmap0_ok, of _ _ _ 64] by fastforce

text \<open>C4. Memory that is in use is not handed out again: after any sequence of allocations and collections, whatever
  the sizes and references of the objects and the addresses of the chunks are, a new object overlaps none of the objects
  that have been allocated since the last collection or that were reachable in it, nor the header of a block.\<close>

theorem immix_allocation_safe:
  assumes "mmap_ok mmap" and "gc_run mmap L hf ba" and "0 < n" and "ea_allocate mmap hf ba n = Some (a, hf', ba')"
  shows "(\<forall>(b, m)\<in>L. a + n \<le> b \<or> b + m \<le> a) \<and>
    (\<exists>c k. k < cBlocksPerChunk \<and> chunk_base (mmap c) + k * cBlockSize + cLineSize \<le> a \<and> a + n \<le> chunk_base (mmap c) + (k + 1) * cBlockSize)"
proof -
  have run: "heap_ok mmap hf ba" "\<And>b m. (b, m) \<in> L \<Longrightarrow> placed mmap hf ba b m" using gc_run_ok [OF assms(2,1)] by auto
  have alloc: "allocated mmap hf ba n a hf' ba'" using ea_allocate_ok [OF assms(4) run(1)] by simp
  obtain pos where "object_at mmap ba' pos a n" using allocate_placed(1) [OF alloc assms(3)] by (auto simp: placed_def)
  then have "snd pos < cBlocksPerChunk \<and> chunk_base (mmap (fst pos)) + snd pos * cBlockSize + cLineSize \<le> a \<and>
      a + n \<le> chunk_base (mmap (fst pos)) + (snd pos + 1) * cBlockSize"
    by (simp add: object_at_def valid_pos_def block_base_def)
  with allocate_disjoint [OF assms(1) alloc assms(3)] run(2) show ?thesis by blast
qed

theorem immix_allocation_safe_witness:
  "\<exists>a b hf ba hf' ba'. gc_run mmap0 {(a, 64)} hf ba \<and> ea_allocate mmap0 hf ba 128 = Some (b, hf', ba') \<and> (b + 128 \<le> a \<or> a + 64 \<le> b)"
proof -
  obtain a hf ba where run: "gc_run mmap0 {(a, 64)} hf ba" using gc_run_one by blast
  from allocate_exists [OF run mmap0_ok, of 128] obtain b hf' ba' where "ea_allocate mmap0 hf ba 128 = Some (b, hf', ba')" by auto
  with immix_allocation_safe [OF mmap0_ok run, of 128] run show ?thesis by fastforce
qed

text \<open>C5. A collection ends, and it marks the objects that can be reached from the roots over the references, no more and no
  less, provided that these are objects of the heap.\<close>

theorem immix_collection_marks_reachable:
  assumes "mmap_ok mmap" and "gc_run mmap L hf ba" and "\<And>a. reachable roots pointers a \<Longrightarrow> (a, size_of a) \<in> L"
  shows "\<exists>marked hf' ba'. ImmixGC_collect mmap size_of pointers roots hf ba = Some (marked, hf', ba') \<and>
    set marked = {a. reachable roots pointers a}"
proof -
  have run: "heap_ok mmap hf ba" "finite L" "\<And>b m. (b, m) \<in> L \<Longrightarrow> placed mmap hf ba b m" using gc_run_ok [OF assms(2,1)] by auto
  have "{a. reachable roots pointers a} \<subseteq> fst ` L" using assms(3) by force
  then have "finite {a. reachable roots pointers a}" using run(2) finite_subset by blast
  moreover have "located mmap (length (chunks ba)) a (size_of a)" if "reachable roots pointers a" for a
    using run(3) [OF assms(3) [OF that]] by (auto simp: placed_def located_iff)
  ultimately show ?thesis using collect_ok [OF assms(1) run(1)] by blast
qed

theorem immix_collection_marks_reachable_witness:
  "\<exists>a hf ba marked hf' ba'. gc_run mmap0 {(a, 64)} hf ba \<and>
    ImmixGC_collect mmap0 (\<lambda>_. 64) (\<lambda>_. [a]) [a] hf ba = Some (marked, hf', ba') \<and> set marked = {a}"
proof -
  obtain a hf ba where run: "gc_run mmap0 {(a, 64)} hf ba" using gc_run_one by blast
  have "reachable [a] (\<lambda>_. [a]) b \<Longrightarrow> b = a" for b by (induction rule: reachable.induct) simp_all
  then have reach: "{b. reachable [a] (\<lambda>_. [a]) b} = {a}" by (auto intro: reachable.root)
  then have "\<And>b. reachable [a] (\<lambda>_. [a]) b \<Longrightarrow> (b, 64) \<in> {(a, 64)}" by auto
  from immix_collection_marks_reachable [where roots = "[a]" and pointers = "\<lambda>_. [a]" and size_of = "\<lambda>_. 64", OF mmap0_ok run this] run show ?thesis unfolding reach by blast
qed

text \<open>C35. An allocation ends exactly for the sizes that fit into the 255 lines of an empty block. For a larger object
  the allocator adds chunks for ever.\<close>

theorem immix_allocation_returns:
  assumes "mmap_ok mmap" and "gc_run mmap L hf ba"
  shows "(\<exists>r. ea_allocate mmap hf ba n = Some r) \<longleftrightarrow> n \<le> 255 * cLineSize"
proof -
  have heap: "heap_ok mmap hf ba" using gc_run_ok [OF assms(2,1)] by simp
  have "n \<le> 255 * cLineSize" if "ea_allocate mmap hf ba n = Some r" for r
  proof -
    have "free_range (block_ref (snd (snd r)) (h_block (fst (snd r)))) (fst r) n"
      using ea_allocate_ok [OF that heap] by (simp add: allocated_def)
    then show ?thesis by (simp add: free_range_def)
  qed
  then show ?thesis using ea_allocate_returns [OF _ heap, of n] by auto
qed

theorem immix_allocation_returns_witness:
  "\<exists>hf ba. gc_run mmap0 {} hf ba \<and> (\<exists>r. ea_allocate mmap0 hf ba 32640 = Some r) \<and> ea_allocate mmap0 hf ba 32641 = None"
proof -
  obtain hf ba where run: "gc_run mmap0 {} hf ba" using gc_run_start by blast
  note r = immix_allocation_returns [OF mmap0_ok run]
  have "\<exists>r. ea_allocate mmap0 hf ba 32640 = Some r" using r [of 32640] by simp
  moreover have "ea_allocate mmap0 hf ba 32641 = None" using r [of 32641] not_Some_eq by fastforce
  ultimately show ?thesis using run by blast
qed

section \<open>Memory that is not used\<close>

text \<open>The loop of \<open>get_block\<close> starts a new chunk with its second block: the first one stays unused until the next collection.\<close>

lemma new_chunk_skips_block:
  assumes "cursor_ok ba" and "block_cursor ba = cBlocksPerChunk" and "chunk_cursor ba + 1 = length (chunks ba)"
  shows "\<exists>ba'. get_block mmap ba = Some ((length (chunks ba), 1), ba')"
proof -
  have "current_chunk ba = Some (chunk_cursor ba)" using assms(1) by (simp add: cursor_ok_def)
  moreover have "chunks ba ! k = chunks ba ! k" for k ..
  ultimately show ?thesis using assms(2,3)
    by (simp add: get_block_def get_block_loop.simps [of mmap ba] next_chunk_def Let_def add_chunk_def block_ref_def new_chunk_def
        usable_def new_block_def del: upt_Suc upt.simps)
qed

text \<open>A block with a single hole gets no new objects, however large the hole is.\<close>

lemma single_hole_unusable:
  assumes "b_lines b = [True, True] @ replicate 254 False"
  shows "\<not> usable (update_stats b)"
proof -
  have "stats_loop (replicate n False) True holes used = (holes, used)" for n holes used by (induction n) simp_all
  then have "stats_loop (replicate 254 False) False 0 (Suc (Suc 0)) = (1, 2)"
    using replicate_Suc [of 253 False] by simp
  then show ?thesis by (simp add: update_stats_def assms usable_def)
qed

end
