(* ===== verification/Vm_To_I.thy ===== *)
theory Vm_To_I
  imports Vm_Integer_Bits
begin

text \<open>
  The conversion of strings to integers (\<open>String::to_i\<close> in \<open>vm/builtin/string.cpp\<close>), which \<open>String#to_i\<close> and, in its strict
  mode, \<open>Kernel#Integer\<close> use, over the arithmetic on fixnums and Bignums. \<open>None\<close> is nil, the answer for what is not a number.
\<close>

section \<open>The conversion\<close>

definition c_str :: "string \<Rightarrow> string" where "c_str s = takeWhile (\<lambda>c. c \<noteq> CHR 0x00) s"

definition is_space :: "char \<Rightarrow> bool" where
  "is_space c \<longleftrightarrow> c \<in> {CHR '' '', CHR 0x09, CHR 0x0A, CHR 0x0B, CHR 0x0C, CHR 0x0D}"

definition inner_space :: "char \<Rightarrow> bool" where
  "inner_space c \<longleftrightarrow> c \<in> {CHR '' '', CHR 0x09, CHR 0x0A, CHR 0x0D}"

fun skip_leading :: "bool \<Rightarrow> string \<Rightarrow> string option" where
  "skip_leading strict [] = Some []"
| "skip_leading strict (c # cs) =
     (if is_space c \<or> c = CHR ''_'' then (if c = CHR ''_'' \<and> strict then None else skip_leading strict cs) else Some (c # cs))"

definition take_sign :: "string \<Rightarrow> bool \<times> string" where
  "take_sign s = (case s of c # cs \<Rightarrow> (if c = CHR ''-'' then (True, cs) else if c = CHR ''+'' then (False, cs) else (False, s)) | [] \<Rightarrow> (False, s))"

definition detect_base :: "string \<Rightarrow> int \<times> string" where
  "detect_base s =
     (case s of c # cs \<Rightarrow>
        (if c = CHR ''0''
         then (case cs of [] \<Rightarrow> (8, cs)
               | d # ds \<Rightarrow> (if d \<in> {CHR ''b'', CHR ''B''} then (2, ds) else if d \<in> {CHR ''o'', CHR ''O''} then (8, ds)
                   else if d \<in> {CHR ''d'', CHR ''D''} then (10, ds) else if d \<in> {CHR ''x'', CHR ''X''} then (16, ds) else (8, cs)))
         else (0, s))
      | [] \<Rightarrow> (0, s))"

definition char_digit :: "char \<Rightarrow> int option" where
  "char_digit c =
     (let chr = of_char c
      in if 48 \<le> chr \<and> chr \<le> 57 then Some (chr - 48) else if 65 \<le> chr \<and> chr \<le> 90 then Some (chr - 55)
         else if 97 \<le> chr \<and> chr \<le> 122 then Some (chr - 87) else None)"

definition add_digit :: "int \<Rightarrow> Integer \<Rightarrow> int \<Rightarrow> Integer" where
  "add_digit base value chr =
     (let value = (if value \<noteq> Fixnum (Fixnum_from 0)
                   then (case value of Fixnum fix \<Rightarrow> Fixnum_mul fix (Fixnum_from base) | Bignum b \<Rightarrow> Bignum_mul_fixnum b (Fixnum_from base))
                   else value)
      in case value of Fixnum fix \<Rightarrow> Fixnum_add fix (Fixnum_from chr) | Bignum b \<Rightarrow> Bignum_add_fixnum b (Fixnum_from chr))"

fun to_i_loop :: "bool \<Rightarrow> int \<Rightarrow> Integer \<Rightarrow> bool \<Rightarrow> string \<Rightarrow> Integer option" where
  "to_i_loop strict base value underscore [] = (if underscore \<and> strict then None else Some value)"
| "to_i_loop strict base value underscore (c # cs) =
     (if inner_space c
      then (if dropWhile inner_space cs = [] then (if underscore \<and> strict then None else Some value) else if strict then None else Some value)
      else if c = CHR ''_'' then (if underscore \<and> strict then None else to_i_loop strict base value True cs)
      else (case char_digit c of None \<Rightarrow> (if strict then None else Some value)
            | Some chr \<Rightarrow> (if chr \<ge> base then (if strict then None else Some value)
                          else to_i_loop strict base (add_digit base value chr) False cs)))"

definition negate :: "Integer \<Rightarrow> Integer" where
  "negate value = (case value of Fixnum fix \<Rightarrow> Fixnum (Fixnum_neg fix) | Bignum b \<Rightarrow> Bignum_neg b)"

definition String_to_i :: "string \<Rightarrow> oop \<Rightarrow> bool \<Rightarrow> Integer option" where
  "String_to_i s fix_base strict =
     (let str = c_str s; base = int32 (Fixnum_to_native fix_base)
      in if strict \<and> length str < length s then None
         else if base < 0 \<or> base = 1 \<or> base > 36 then None
         else if base \<noteq> 0 \<and> strict then None
         else Option.bind (skip_leading strict str) (\<lambda>str.
           let (negative, str_start) = take_sign str;
               (detected_base, str) = detect_base str_start;
               (base, str) = (if base = 0 then (if detected_base = 0 then 10 else detected_base, str)
                              else if base \<noteq> detected_base then (base, str_start) else (base, str))
           in map_option (if negative then negate else id) (to_i_loop strict base (Fixnum (Fixnum_from 0)) False str)))"

text \<open>The primitive fails where \<open>to_i\<close> answers nil.\<close>

definition to_inum_prim :: "string \<Rightarrow> oop \<Rightarrow> bool \<Rightarrow> unit + Integer" where
  "to_inum_prim s base strict = (case String_to_i s base strict of None \<Rightarrow> Inl () | Some val \<Rightarrow> Inr val)"

section \<open>The value of the digits\<close>

definition digit_in :: "int \<Rightarrow> char \<Rightarrow> bool" where
  "digit_in base c \<longleftrightarrow> (case char_digit c of None \<Rightarrow> False | Some d \<Rightarrow> d < base)"

fun digits_value :: "int \<Rightarrow> int \<Rightarrow> string \<Rightarrow> int" where
  "digits_value base v [] = v"
| "digits_value base v (c # cs) = digits_value base (case char_digit c of None \<Rightarrow> v | Some d \<Rightarrow> v * base + d) cs"

lemma char_digit_range: "char_digit c = Some d \<Longrightarrow> 0 \<le> d \<and> d < 36"
  by (auto simp: char_digit_def Let_def split: if_splits)

lemma underscore_no_digit: "char_digit CHR ''_'' = None"
  by (simp add: char_digit_def)

lemma space_no_digit: "inner_space c \<Longrightarrow> char_digit c = None" "is_space c \<Longrightarrow> char_digit c = None"
  by (auto simp: inner_space_def is_space_def char_digit_def)

lemma is_int_small: "0 \<le> n \<Longrightarrow> n \<le> 36 \<Longrightarrow> Fixnum_to_native (Fixnum_from n) = n"
  by simp

lemma add_digit_int:
  assumes "is_int value v" and "2 \<le> base" "base \<le> 36" and "0 \<le> d" "d < 36"
  shows "is_int (add_digit base value d) (v * base + d)"
proof -
  let ?b = "Fixnum_from base" and ?d = "Fixnum_from d"
  have n: "Fixnum_to_native ?b = base" "Fixnum_to_native ?d = d" using assms by simp_all
  define w where "w = (if value \<noteq> Fixnum (Fixnum_from 0)
                   then (case value of Fixnum fix \<Rightarrow> Fixnum_mul fix ?b | Bignum b \<Rightarrow> Bignum_mul_fixnum b ?b) else value)"
  have w: "is_int w (v * base)"
  proof (cases "value = Fixnum (Fixnum_from 0)")
    case True
    then have "v = 0" using assms(1) by (simp add: is_int_def)
    with True assms(1) show ?thesis by (simp add: w_def)
  next
    case False
    then show ?thesis
      using assms(1) Fixnum_mul_int [of _ ?b] Bignum_mul_fixnum_int [of _ ?b] by (cases "value") (auto simp: w_def is_int_def n)
  qed
  have "is_int (case w of Fixnum fix \<Rightarrow> Fixnum_add fix ?d | Bignum b \<Rightarrow> Bignum_add_fixnum b ?d) (v * base + d)"
    using w Fixnum_add_int [of _ ?d] Bignum_fixnum_int(1) [of _ ?d] by (cases w) (auto simp: is_int_def n)
  then show ?thesis by (simp add: add_digit_def w_def Let_def)
qed

definition stops :: "int \<Rightarrow> string \<Rightarrow> bool" where
  "stops base rs \<longleftrightarrow> (case rs of [] \<Rightarrow> True | c # _ \<Rightarrow> c \<noteq> CHR ''_'' \<and> \<not> digit_in base c)"

lemma to_i_loop_value:
  assumes "2 \<le> base" "base \<le> 36" and "stops base rs"
  shows "is_int value v \<Longrightarrow> \<forall>c\<in>set body. c = CHR ''_'' \<or> digit_in base c \<Longrightarrow>
    \<exists>r. to_i_loop False base value u (body @ rs) = Some r \<and> is_int r (digits_value base v body)"
proof (induction body arbitrary: "value" v u)
  case Nil
  then show ?case using assms(3)
    by (cases rs) (auto simp: stops_def digit_in_def split: option.splits)
next
  case (Cons c body)
  show ?case
  proof (cases "c = CHR ''_''")
    case True
    with Cons show ?thesis by (simp add: underscore_no_digit inner_space_def)
  next
    case False
    with Cons.prems obtain d where d: "char_digit c = Some d" "d < base" by (auto simp: digit_in_def split: option.splits)
    then have "\<not> inner_space c" using space_no_digit by auto
    moreover have "is_int (add_digit base value d) (v * base + d)"
      using add_digit_int [OF Cons.prems(1) assms(1,2)] char_digit_range [OF d(1)] by simp
    ultimately show ?thesis using Cons.IH [of "add_digit base value d" "v * base + d" False] Cons.prems(2) False d by auto
  qed
qed

lemma skip_leading_ok: "\<forall>c\<in>set ws. is_space c \<or> c = CHR ''_'' \<Longrightarrow> s = [] \<or> \<not> is_space (hd s) \<and> hd s \<noteq> CHR ''_'' \<Longrightarrow>
    skip_leading False (ws @ s) = Some s"
  by (induction ws) (cases s; auto)+

lemma c_str_id: "CHR 0x00 \<notin> set s \<Longrightarrow> c_str s = s"
  by (auto simp: c_str_def takeWhile_eq_all_conv)

lemma negate_int: "is_int r v \<Longrightarrow> 0 \<le> v \<Longrightarrow> is_int (negate r) (- v)"
proof (cases r)
  case (Fixnum f)
  assume "is_int r v" "0 \<le> v"
  with Fixnum have f: "fix_ok f" "Fixnum_to_native f = v" by (simp_all add: is_int_def)
  then have "FIXNUM_MIN \<le> - v \<and> - v \<le> FIXNUM_MAX" "native (- v) = - v" using \<open>0 \<le> v\<close> fix_okD [OF f(1)]
    by (auto simp: fix_ok_def FIXNUM_MIN_def)
  with Fixnum f(2) is_int_fixnum [of "- v"] show ?thesis by (simp add: negate_def Fixnum_neg_def)
next
  case (Bignum b)
  assume "is_int r v"
  with Bignum show ?thesis by (simp add: negate_def Bignum_neg_def is_int_def [of "Bignum b"])
qed

lemma digits_value_nonneg: "0 \<le> v \<Longrightarrow> 0 \<le> base \<Longrightarrow> 0 \<le> digits_value base v s"
proof (induction s arbitrary: v)
  case (Cons c s)
  have "0 \<le> v * base + d" if "char_digit c = Some d" for d
    using char_digit_range [OF that] Cons.prems by simp
  with Cons show ?case by (cases "char_digit c") simp_all
qed simp

text \<open>The prefixes that name a base.\<close>

definition base_prefix :: "int \<Rightarrow> string \<Rightarrow> bool" where
  "base_prefix base pre \<longleftrightarrow> (base = 2 \<and> pre \<in> {''0b'', ''0B''}) \<or> (base = 8 \<and> pre \<in> {''0o'', ''0O''})
     \<or> (base = 10 \<and> pre \<in> {''0d'', ''0D''}) \<or> (base = 16 \<and> pre \<in> {''0x'', ''0X''})"

lemma base_prefix_detect: "base_prefix base pre \<Longrightarrow> detect_base (pre @ str) = (base, str)"
  by (auto simp: base_prefix_def detect_base_def)

lemma detect_letter: "d \<in> set ''bBoOdDxX'' \<Longrightarrow> base_prefix (fst (detect_base (CHR ''0'' # d # ds))) [CHR ''0'', d]"
  by (auto simp: base_prefix_def detect_base_def)

lemma base_prefix_start: "base_prefix base pre \<Longrightarrow> \<exists>d. pre = [CHR ''0'', d]"
  by (auto simp: base_prefix_def)

text \<open>The prefix that says the base is passed over only when it says the base asked for; a leading zero changes nothing.\<close>

lemma detect_base_ok:
  assumes "2 \<le> base" and "body \<noteq> []" and "digit_in base (hd body)" and "\<forall>c\<in>set body. c = CHR ''_'' \<or> digit_in base c"
    and "\<not> (body = ''0'' \<and> rs \<noteq> [] \<and> base_prefix base [CHR ''0'', hd rs])" and "detect_base (body @ rs) = (det, str)" and "det = base"
  shows "str = tl body @ rs \<and> hd body = CHR ''0''"
proof -
  obtain c cs where body: "body = c # cs" using assms(2) by (cases body) auto
  have zero: "c = CHR ''0''" using assms(1,6,7) body by (auto simp: detect_base_def split: if_splits)
  show ?thesis
  proof (cases "cs @ rs")
    case Nil
    with assms(6) body zero show ?thesis by (simp add: detect_base_def)
  next
    case (Cons d ds)
    have "d \<notin> set ''bBoOdDxX'' \<or> str = cs @ rs"
    proof (cases cs)
      case Nil
      then have "body = ''0''" "rs = d # ds" using body zero Cons by simp_all
      then have no: "\<not> base_prefix base [CHR ''0'', d]" using assms(5) by simp
      have det: "detect_base (CHR ''0'' # d # ds) = (base, str)" using assms(6,7) body zero \<open>cs @ rs = d # ds\<close> by simp
      have "d \<notin> set ''bBoOdDxX''" using detect_letter [of d ds] no unfolding det fst_conv by blast
      then show ?thesis ..
    next
      case (Cons e es)
      then have "d = e" using \<open>cs @ rs = d # ds\<close> by simp
      then have d: "d = CHR ''_'' \<or> digit_in base d" using assms(4) body Cons by simp
      have det: "detect_base (CHR ''0'' # d # ds) = (base, str)"
        using assms(6,7) body zero \<open>cs @ rs = d # ds\<close> by simp
      have letters: "char_digit CHR ''b'' = Some 11" "char_digit CHR ''B'' = Some 11" "char_digit CHR ''o'' = Some 24" "char_digit CHR ''O'' = Some 24"
        "char_digit CHR ''d'' = Some 13" "char_digit CHR ''D'' = Some 13" "char_digit CHR ''x'' = Some 33" "char_digit CHR ''X'' = Some 33"
        by (simp_all add: char_digit_def)
      have "d \<notin> set ''bBoOdDxX''"
      proof
        assume "d \<in> set ''bBoOdDxX''"
        then consider "d \<in> {CHR ''b'', CHR ''B''}" | "d \<in> {CHR ''o'', CHR ''O''}" | "d \<in> {CHR ''d'', CHR ''D''}" | "d \<in> {CHR ''x'', CHR ''X''}"
          by auto
        then show False using det d letters by cases (auto simp: detect_base_def digit_in_def)
      qed
      then show ?thesis ..
    qed
    then show ?thesis using assms(6) body zero Cons by (auto simp: detect_base_def split: if_splits)
  qed
qed

lemma digits_value_zero: "hd body = CHR ''0'' \<Longrightarrow> body \<noteq> [] \<Longrightarrow> digits_value base 0 (tl body) = digits_value base 0 body"
  by (cases body) (simp_all add: char_digit_def)

section \<open>Properties\<close>

definition sign_value :: "string \<Rightarrow> int" where "sign_value sign = (if sign = ''-'' then - 1 else 1)"

text \<open>A number: a prefix that names the base and then digits and underscores, or just a digit and then digits and underscores; but not
  a lone zero with the letter behind it that makes the two the prefix.\<close>

definition number_text :: "int \<Rightarrow> string \<Rightarrow> string \<Rightarrow> string \<Rightarrow> bool" where
  "number_text base pre body rs \<longleftrightarrow> (\<forall>c\<in>set body. c = CHR ''_'' \<or> digit_in base c) \<and>
     (base_prefix base pre \<or> pre = [] \<and> body \<noteq> [] \<and> digit_in base (hd body)
       \<and> \<not> (body = ''0'' \<and> rs \<noteq> [] \<and> base_prefix base [CHR ''0'', hd rs]))"

lemma number_start:
  assumes "number_text base pre body rs"
  obtains c cs dc where "pre @ body @ rs = c # cs" and "char_digit c = Some dc"
proof (cases "pre = []")
  case True
  then have b: "body \<noteq> []" "digit_in base (hd body)" using assms by (auto simp: number_text_def base_prefix_def)
  from b(2) obtain dc where "char_digit (hd body) = Some dc" by (auto simp: digit_in_def split: option.splits)
  then show thesis using that [of "hd body" "tl body @ rs" dc] True b(1) by simp
next
  case False
  then obtain d where "pre = [CHR ''0'', d]" using assms base_prefix_start by (auto simp: number_text_def)
  moreover have "char_digit CHR ''0'' = Some 0" by (simp add: char_digit_def)
  ultimately show thesis using that by simp
qed

lemma number_loop:
  assumes "2 \<le> base" and "base \<le> 36" and "number_text base pre body rs" and "stops base rs"
    and det: "detect_base (pre @ body @ rs) = (det, str)"
  shows "\<exists>r. to_i_loop False base (Fixnum (Fixnum_from 0)) False (if base \<noteq> det then pre @ body @ rs else str) = Some r
    \<and> is_int r (digits_value base 0 body)"
proof -
  have zero: "is_int (Fixnum (Fixnum_from 0)) 0" by (rule is_int_fixnum) (simp_all add: fixnum_range)
  have digits: "\<forall>c\<in>set body. c = CHR ''_'' \<or> digit_in base c" using assms(3) by (simp add: number_text_def)
  note loop = to_i_loop_value [OF assms(1,2,4) zero]
  show ?thesis
  proof (cases "base_prefix base pre")
    case True
    with det have "det = base" "str = body @ rs" by (simp_all add: base_prefix_detect)
    with loop [OF digits] show ?thesis by simp
  next
    case False
    then have p: "pre = []" "body \<noteq> []" "digit_in base (hd body)" "\<not> (body = ''0'' \<and> rs \<noteq> [] \<and> base_prefix base [CHR ''0'', hd rs])"
      using assms(3) by (simp_all add: number_text_def)
    show ?thesis
    proof (cases "base = det")
      case False
      then show ?thesis using loop [OF digits] p(1) by simp
    next
      case True
      with detect_base_ok [OF assms(1) p(2,3) digits p(4)] det p(1) have d: "str = tl body @ rs" "hd body = CHR ''0''" by simp_all
      have "\<forall>c\<in>set (tl body). c = CHR ''_'' \<or> digit_in base c" using digits p(2) by (cases body) auto
      from loop [OF this] show ?thesis using digits_value_zero [OF d(2) p(2)] True by (simp add: d(1))
    qed
  qed
qed

lemma to_i_value:
  assumes "2 \<le> base" and "base \<le> 36" and "CHR 0x00 \<notin> set (ws @ sign @ pre @ body @ rs)"
    and "\<forall>c\<in>set ws. is_space c \<or> c = CHR ''_''" and "sign \<in> {'''', ''+'', ''-''}"
    and "number_text base pre body rs" and "stops base rs"
  shows "\<exists>r. String_to_i (ws @ sign @ pre @ body @ rs) (Fixnum_from base) False = Some r
    \<and> is_int r (sign_value sign * digits_value base 0 body)"
proof -
  let ?num = "pre @ body @ rs"
  obtain c cs dc where num: "?num = c # cs" and dc: "char_digit c = Some dc" by (rule number_start [OF assms(6)])
  have c: "\<not> is_space c" "c \<noteq> CHR ''_''" "c \<noteq> CHR ''-''" "c \<noteq> CHR ''+''" using dc space_no_digit(2) by (auto simp: char_digit_def)
  have skip: "skip_leading False (ws @ sign @ ?num) = Some (sign @ ?num)"
    by (rule skip_leading_ok [OF assms(4)]) (use assms(5) c num in \<open>auto simp: is_space_def\<close>)
  have sign: "take_sign (sign @ ?num) = (sign = ''-'', ?num)" using assms(5) c num by (auto simp: take_sign_def)
  obtain det str where det: "detect_base ?num = (det, str)" by fastforce
  obtain r where r: "to_i_loop False base (Fixnum (Fixnum_from 0)) False (if base \<noteq> det then ?num else str) = Some r"
      "is_int r (digits_value base 0 body)"
    using number_loop [OF assms(1,2,6,7) det] by blast
  have "c_str (ws @ sign @ ?num) = ws @ sign @ ?num" by (rule c_str_id [OF assms(3)])
  then have "String_to_i (ws @ sign @ ?num) (Fixnum_from base) False = Some ((if sign = ''-'' then negate else id) r)"
    using assms(1,2) skip sign det r(1) by (auto simp: String_to_i_def Let_def)
  moreover have "is_int ((if sign = ''-'' then negate else id) r) (sign_value sign * digits_value base 0 body)"
    using r(2) negate_int [OF r(2)] digits_value_nonneg [of 0 base body] assms(1) by (simp add: sign_value_def)
  ultimately show ?thesis by blast
qed

text \<open>C12. \<open>String#to_i\<close> reads a number exactly, in any base from 2 to 36: after white space and underscores, an optional sign and, in
  the bases 2, 8, 10 and 16, an optional prefix \<open>0b\<close>, \<open>0o\<close>, \<open>0d\<close> or \<open>0x\<close> that names the base (in either case of the letter), it gives the
  value of the digits and underscores up to the first other character, as a fixnum or Bignum in normal form, however many digits
  there are. Without a prefix the number begins with a digit. What follows the number does not matter otherwise: the only
  letter that does is the one that makes a lone zero in front of it such a prefix, and then the number is the one behind the prefix.\<close>

theorem to_i_exact:
  assumes "2 \<le> base" and "base \<le> 36" and "CHR 0x00 \<notin> set (ws @ sign @ pre @ body @ rs)"
    and "\<forall>c\<in>set ws. is_space c \<or> c = CHR ''_''" and "sign \<in> {'''', ''+'', ''-''}"
    and "\<forall>c\<in>set body. c = CHR ''_'' \<or> digit_in base c"
    and "base_prefix base pre \<or> pre = [] \<and> body \<noteq> [] \<and> digit_in base (hd body)
      \<and> \<not> (body = ''0'' \<and> rs \<noteq> [] \<and> base_prefix base [CHR ''0'', hd rs])"
    and "rs = [] \<or> hd rs \<noteq> CHR ''_'' \<and> \<not> digit_in base (hd rs)"
  shows "\<exists>r. String_to_i (ws @ sign @ pre @ body @ rs) (Fixnum_from base) False = Some r
    \<and> is_int r (sign_value sign * digits_value base 0 body)"
proof (rule to_i_value [OF assms(1-5)])
  show "number_text base pre body rs" using assms(6,7) by (simp add: number_text_def)
  show "stops base rs" using assms(8) by (cases rs) (simp_all add: stops_def)
qed

theorem to_i_exact_witness:
  "(\<exists>r. String_to_i ''  -1_000 apples'' (Fixnum_from 10) False = Some r \<and> is_int r (- 1000))
   \<and> (\<exists>r. String_to_i ''0x1fg'' (Fixnum_from 16) False = Some r \<and> is_int r 31)"
  using to_i_exact [of 10 "''  ''" "''-''" "''''" "''1_000''" "'' apples''"] to_i_exact [of 16 "''''" "''''" "''0x''" "''1f''" "''g''"]
  by (simp add: is_space_def digit_in_def char_digit_def sign_value_def base_prefix_def)

lemma to_s_digits_chars:
  assumes "2 \<le> j" and "j \<le> 36" and "0 \<le> k"
  shows "\<exists>ds. to_s_digits j k b = ds @ b \<and> ds \<noteq> [] \<and> (\<forall>c\<in>set ds. digit_in j c) \<and> digits_value j 0 ds = k"
proof -
  have map: "\<forall>n\<in>set [0..<36]. char_digit (digitmap ! n) = Some (int n)" by code_simp
  have digit: "char_digit (digitmap ! nat i) = Some i" if "0 \<le> i" "i < 36" for i
    using map that by (auto simp: nat_less_iff)
  have app: "digits_value j v (ds @ [c]) = (case char_digit c of None \<Rightarrow> digits_value j v ds | Some d \<Rightarrow> digits_value j v ds * j + d)" for j v ds c
    by (induction ds arbitrary: v) (auto split: option.split)
  show ?thesis using assms
  proof (induction j k b rule: to_s_digits.induct)
    case (1 j k b)
    let ?c = "digitmap ! nat (k mod j)"
    have "k mod j < j" "0 \<le> k mod j" using "1.prems" by simp_all
    then have c: "char_digit ?c = Some (k mod j)" "digit_in j ?c"
      using digit [of "k mod j"] "1.prems"(2) by (simp_all add: digit_in_def)
    show ?case
    proof (cases "k div j = 0")
      case True
      then have "to_s_digits j k b = [?c] @ b" by (simp add: to_s_digits.simps [of j k b] Let_def)
      moreover have "k mod j = k" using True "1.prems" div_mult_mod_eq [of k j] by simp
      ultimately show ?thesis using c by (intro exI [of _ "[?c]"]) simp
    next
      case False
      have pos: "0 \<le> k div j" using "1.prems" by (simp add: pos_imp_zdiv_nonneg_iff)
      from "1.IH" [OF refl refl] False "1.prems" pos obtain ds where ds: "to_s_digits j (k div j) (?c # b) = ds @ ?c # b" "ds \<noteq> []"
        "\<forall>c\<in>set ds. digit_in j c" "digits_value j 0 ds = k div j" by auto
      have "to_s_digits j k b = (ds @ [?c]) @ b"
        using ds(1) False "1.prems" by (simp add: to_s_digits.simps [of j k b] Let_def)
      moreover have "digits_value j 0 (ds @ [?c]) = k" unfolding app c(1) ds(4) option.case by (rule div_mult_mod_eq)
      ultimately show ?thesis using ds(2,3) c(2) by (intro exI [of _ "ds @ [?c]"]) simp
    qed
  qed
qed

text \<open>C13. \<open>String#to_i\<close> takes back what \<open>Fixnum#to_s\<close> prints, for every fixnum and every base that \<open>to_s\<close> accepts.\<close>

theorem to_i_to_s:
  assumes "fix_ok a" and "2 \<le> base" and "base \<le> 36"
  shows "\<exists>s r. Fixnum_to_s a (Fixnum_from base) = Inr s \<and> String_to_i s (Fixnum_from base) False = Some r \<and> is_int r (Fixnum_to_native a)"
proof -
  define k where "k = Fixnum_to_native a"
  have k: "- (2 ^ 62) < k" "k < 2 ^ 62" using fix_okD [OF assms(1)] by (simp_all add: k_def)
  obtain ds where ds: "to_s_digits base \<bar>k\<bar> '''' = ds" "ds \<noteq> []" "\<forall>c\<in>set ds. digit_in base c" "digits_value base 0 ds = \<bar>k\<bar>"
    using to_s_digits_chars [OF assms(2,3), of "\<bar>k\<bar>" "''''"] by auto
  define sign where "sign = (if k < 0 then ''-'' else '''')"
  define body where "body = (if k = 0 then ''0'' else ds)"
  have body: "body \<noteq> []" "\<forall>c\<in>set body. digit_in base c" "digits_value base 0 body = \<bar>k\<bar>"
    using ds assms(2) by (auto simp: body_def digit_in_def char_digit_def)
  have "digit_in base (hd body)" using body(1,2) by simp
  moreover have "\<not> digit_in base (CHR 0x00)" by (simp add: digit_in_def char_digit_def)
  then have "CHR 0x00 \<notin> set ([] @ sign @ [] @ body @ [])" using body(2) by (auto simp: sign_def)
  ultimately have "\<exists>r. String_to_i ([] @ sign @ [] @ body @ []) (Fixnum_from base) False = Some r \<and> is_int r (sign_value sign * digits_value base 0 body)"
    by (intro to_i_value [OF assms(2,3)]) (use body in \<open>auto simp: sign_def number_text_def stops_def\<close>)
  moreover have "sign_value sign * digits_value base 0 body = k" by (simp add: sign_value_def sign_def body(3))
  moreover have "Fixnum_to_s a (Fixnum_from base) = Inr (sign @ body)"
    using assms(2,3) k ds(1) by (cases "k < 0") (simp_all add: Fixnum_to_s_def k_def [symmetric] sign_def body_def Let_def)
  ultimately show ?thesis by (auto simp: k_def)
qed

theorem to_i_to_s_witness:
  "\<exists>s r. Fixnum_to_s (Fixnum_from (- 255)) (Fixnum_from 16) = Inr s \<and> String_to_i s (Fixnum_from 16) False = Some r \<and> is_int r (- 255)"
proof -
  have "fix_ok (Fixnum_from (- 255))" using fix_ok_from [of "- 255"] by (simp add: fixnum_range)
  from to_i_to_s [OF this, of 16] show ?thesis by simp
qed

text \<open>In strict mode a sign or a prefix without a digit is zero, not an error.\<close>

lemma strict_accepts_no_digits:
  "String_to_i ''0x'' (Fixnum_from 0) True = Some (Fixnum (Fixnum_from 0))"
  "String_to_i ''+'' (Fixnum_from 0) True = Some (Fixnum (Fixnum_from 0))"
  by (simp_all add: String_to_i_def c_str_def Let_def is_space_def take_sign_def detect_base_def)

end
