(* ===== verification/Vm_Bytes.thy ===== *)
theory Vm_Bytes
  imports Vm_Symbols "HOL-Library.List_Lexorder"
begin

text \<open>
  \<open>ByteArray\<close> (\<open>vm/builtin/bytearray.cpp\<close>), in which strings keep their bytes. The array is the list of its bytes; a new one is
  rounded up to words, and what its last bytes hold that were not asked for is a parameter. \<open>BytesFault\<close> is an access outside
  of the array, which the bounds checks should prevent and, because they compare 32 bits only, not always do.
\<close>

datatype bytes_error = BoundsExceeded | BytesFault

type_synonym ByteArray = "u8 list"

section \<open>Operations\<close>

definition align8 :: "nat \<Rightarrow> nat" where "align8 n = (n + 7) div 8 * 8"

definition ByteArray_create :: "(nat \<Rightarrow> u8) \<Rightarrow> nat \<Rightarrow> ByteArray" where
  "ByteArray_create junk n = replicate n 0 @ map junk [n..<align8 n]"

definition get_byte :: "ByteArray \<Rightarrow> int \<Rightarrow> bytes_error + int" where
  "get_byte ba idx =
     (if idx < 0 \<or> uint32 idx \<ge> int (length ba) then Inl BoundsExceeded
      else if idx < int (length ba) then Inr (uint (ba ! nat idx)) else Inl BytesFault)"

definition set_byte :: "ByteArray \<Rightarrow> int \<Rightarrow> int \<Rightarrow> bytes_error + (int \<times> ByteArray)" where
  "set_byte ba idx val =
     (if idx < 0 \<or> uint32 idx \<ge> int (length ba) then Inl BoundsExceeded
      else if idx < int (length ba) then Inr (uint (word_of_int val :: u8), ba[nat idx := word_of_int val]) else Inl BytesFault)"

text \<open>\<open>memmove\<close> and \<open>memcpy\<close> between arrays.\<close>

definition in_bounds :: "ByteArray \<Rightarrow> int \<Rightarrow> int \<Rightarrow> bool" where
  "in_bounds ba start cnt \<longleftrightarrow> 0 \<le> start \<and> 0 \<le> cnt \<and> start + cnt \<le> int (length ba)"

definition slice :: "u8 list \<Rightarrow> int \<Rightarrow> int \<Rightarrow> u8 list" where "slice ba start cnt = take (nat cnt) (drop (nat start) ba)"

definition move_bytes :: "ByteArray \<Rightarrow> int \<Rightarrow> int \<Rightarrow> int \<Rightarrow> bytes_error + (int \<times> ByteArray)" where
  "move_bytes ba src cnt dst =
     (if src < 0 \<or> dst < 0 \<or> cnt < 0 \<or> uint32 (dst + cnt) > int (length ba) \<or> uint32 (src + cnt) > int (length ba) then Inl BoundsExceeded
      else if in_bounds ba src cnt \<and> in_bounds ba dst cnt then Inr (cnt, put_at ba (nat dst) (slice ba src cnt)) else Inl BytesFault)"

definition fetch_bytes :: "(nat \<Rightarrow> u8) \<Rightarrow> ByteArray \<Rightarrow> int \<Rightarrow> int \<Rightarrow> bytes_error + ByteArray" where
  "fetch_bytes junk ba src cnt =
     (if src < 0 \<or> cnt < 0 \<or> uint32 (src + cnt) > int (length ba) then Inl BoundsExceeded
      else if in_bounds ba src cnt
      then Inr ((put_at (ByteArray_create junk (nat cnt + 1)) 0 (slice ba src cnt))[nat cnt := 0]) else Inl BytesFault)"

fun memcmp :: "u8 list \<Rightarrow> u8 list \<Rightarrow> int" where
  "memcmp (x # xs) (y # ys) = (if x = y then memcmp xs ys else if x < y then - 1 else 1)"
| "memcmp _ _ = 0"

definition compare_bytes :: "ByteArray \<Rightarrow> ByteArray \<Rightarrow> int \<Rightarrow> int \<Rightarrow> bytes_error + int" where
  "compare_bytes self other slim olim =
     (if slim < 0 \<or> olim < 0 then Inl BoundsExceeded
      else let m = (if int (length self) < uint32 slim then int (length self) else slim);
               n = (if int (length other) < uint32 olim then int (length other) else olim);
               len = (if m < n then m else n)
           in if \<not> in_bounds self 0 len \<or> \<not> in_bounds other 0 len then Inl BytesFault
              else let cmp = memcmp (slice self 0 len) (slice other 0 len)
                   in Inr (if cmp = 0 then (if m < n then - 1 else if m > n then 1 else 0) else if cmp < 0 then - 1 else 1))"

text \<open>The bytes of the pattern are of type \<open>char\<close>, which is signed.\<close>

fun match_from :: "ByteArray \<Rightarrow> u8 list \<Rightarrow> nat \<Rightarrow> bool option" where
  "match_from ba [] i = Some True"
| "match_from ba (p # ps) i =
     (if i \<ge> length ba then None else if uint (ba ! i) = sint p then match_from ba ps (i + 1) else Some False)"

function locate_loop :: "ByteArray \<Rightarrow> u8 list \<Rightarrow> nat \<Rightarrow> nat \<Rightarrow> bytes_error + nat option" where
  "locate_loop ba pat limit i =
     (if i < limit
      then (case match_from ba pat i of None \<Rightarrow> Inl BytesFault
            | Some True \<Rightarrow> Inr (Some (i + length pat))
            | Some False \<Rightarrow> locate_loop ba pat limit (i + 1))
      else Inr None)"
  by pat_completeness auto
termination by (relation "measure (\<lambda>(ba, pat, limit, i). limit - i)") auto

declare locate_loop.simps [simp del]

definition size_t :: "int \<Rightarrow> nat" where "size_t n = nat (n mod 2 ^ 64)"

definition ByteArray_locate :: "ByteArray \<Rightarrow> u8 list \<Rightarrow> int \<Rightarrow> int \<Rightarrow> bytes_error + nat option" where
  "ByteArray_locate ba pat start max_o =
     (let len = length pat; max = size_t max_o
      in if len = 0 then Inr (Some (nat start))
         else let max = (if max = 0 \<or> max > length ba then length ba else max)
              in locate_loop ba pat (size_t (int max - (int len - 1))) (size_t start))"

section \<open>Bounds\<close>

lemma uint32_small: "0 \<le> n \<Longrightarrow> n < 2 ^ 32 \<Longrightarrow> uint32 n = n"
  by (simp add: uint32_def take_bit_int_eq_self)

lemma byte_array_accesses:
  assumes "idx < 2 ^ 32" and "src + cnt < 2 ^ 32" and "dst + cnt < 2 ^ 32"
  shows "get_byte ba idx = (if 0 \<le> idx \<and> idx < int (length ba) then Inr (uint (ba ! nat idx)) else Inl BoundsExceeded)"
    and "set_byte ba idx v = (if 0 \<le> idx \<and> idx < int (length ba) then Inr (v mod 256, ba[nat idx := word_of_int v]) else Inl BoundsExceeded)"
    and "move_bytes ba src cnt dst = (if in_bounds ba src cnt \<and> in_bounds ba dst cnt then Inr (cnt, put_at ba (nat dst) (slice ba src cnt))
      else Inl BoundsExceeded)"
    and "\<exists>r. fetch_bytes junk ba src cnt = (if in_bounds ba src cnt then Inr r else Inl BoundsExceeded) \<and>
      (in_bounds ba src cnt \<longrightarrow> take (nat cnt + 1) r = slice ba src cnt @ [0])"
proof -
  have idx: "\<not> idx < 0 \<Longrightarrow> uint32 idx = idx" using assms(1) by (simp add: uint32_small)
  show "get_byte ba idx = (if 0 \<le> idx \<and> idx < int (length ba) then Inr (uint (ba ! nat idx)) else Inl BoundsExceeded)"
    using idx by (auto simp: get_byte_def)
  show "set_byte ba idx v = (if 0 \<le> idx \<and> idx < int (length ba) then Inr (v mod 256, ba[nat idx := word_of_int v]) else Inl BoundsExceeded)"
    using idx by (auto simp: set_byte_def unsigned_of_int take_bit_eq_mod)
  have sums: "0 \<le> src \<Longrightarrow> 0 \<le> cnt \<Longrightarrow> uint32 (src + cnt) = src + cnt" "0 \<le> dst \<Longrightarrow> 0 \<le> cnt \<Longrightarrow> uint32 (dst + cnt) = dst + cnt"
    using assms(2,3) by (simp_all add: uint32_small)
  then show "move_bytes ba src cnt dst = (if in_bounds ba src cnt \<and> in_bounds ba dst cnt then Inr (cnt, put_at ba (nat dst) (slice ba src cnt))
      else Inl BoundsExceeded)"
    by (auto simp: move_bytes_def in_bounds_def)
  let ?r = "(put_at (ByteArray_create junk (nat cnt + 1)) 0 (slice ba src cnt))[nat cnt := 0]"
  have "take (nat cnt + 1) ?r = slice ba src cnt @ [0]" if "in_bounds ba src cnt"
  proof -
    have len: "length (slice ba src cnt) = nat cnt" using that by (auto simp: slice_def in_bounds_def min_def)
    have "length (ByteArray_create junk (nat cnt + 1)) \<ge> nat cnt + 1" by (simp add: ByteArray_create_def)
    then obtain b bs where "drop (nat cnt) (ByteArray_create junk (nat cnt + 1)) = b # bs"
      by (cases "drop (nat cnt) (ByteArray_create junk (nat cnt + 1))") auto
    then show ?thesis using len by (simp add: put_at_def list_update_append)
  qed
  moreover have "fetch_bytes junk ba src cnt = (if in_bounds ba src cnt then Inr ?r else Inl BoundsExceeded)"
    using sums(1) by (auto simp: fetch_bytes_def in_bounds_def)
  ultimately show "\<exists>r. fetch_bytes junk ba src cnt = (if in_bounds ba src cnt then Inr r else Inl BoundsExceeded) \<and>
      (in_bounds ba src cnt \<longrightarrow> take (nat cnt + 1) r = slice ba src cnt @ [0])" by blast
qed


text \<open>C17. As long as the sums of their arguments fit into 32 bits, the operations of \<open>ByteArray\<close> stay inside of the array: an index
  or a range outside of it raises an exception, and otherwise they read and write the bytes of the list.\<close>

theorem byte_array_bounds:
  assumes "idx < 2 ^ 32" and "src + cnt < 2 ^ 32" and "dst + cnt < 2 ^ 32"
  shows "get_byte ba idx = (if 0 \<le> idx \<and> idx < int (length ba) then Inr (uint (ba ! nat idx)) else Inl BoundsExceeded) \<and>
    set_byte ba idx v = (if 0 \<le> idx \<and> idx < int (length ba) then Inr (v mod 256, ba[nat idx := word_of_int v]) else Inl BoundsExceeded) \<and>
    move_bytes ba src cnt dst = (if in_bounds ba src cnt \<and> in_bounds ba dst cnt then Inr (cnt, put_at ba (nat dst) (slice ba src cnt))
      else Inl BoundsExceeded) \<and>
    (\<exists>r. fetch_bytes junk ba src cnt = (if in_bounds ba src cnt then Inr r else Inl BoundsExceeded) \<and>
      (in_bounds ba src cnt \<longrightarrow> take (nat cnt + 1) r = slice ba src cnt @ [0]))"
  using byte_array_accesses [OF assms] by simp

lemma byte_array_bounds_witness: "get_byte [7, 8] 1 = Inr 8 \<and> move_bytes [7, 8] 0 2 1 = Inl BoundsExceeded"
  using byte_array_bounds [of 1 0 2 1 "[7, 8]" 0 "\<lambda>_. 0"] by (simp add: in_bounds_def)

text \<open>The comparison is of 32 bits: an index of \<open>2 ^ 32\<close> passes the check of every array that is not empty.\<close>

lemma large_index_faults: "ba \<noteq> [] \<Longrightarrow> length ba \<le> 2 ^ 32 \<Longrightarrow> get_byte ba (2 ^ 32) = Inl BytesFault"
  by (simp add: get_byte_def uint32_def take_bit_eq_mod)

section \<open>Comparison\<close>

lemma memcmp_equal_length:
  "length xs = length ys \<Longrightarrow> memcmp xs ys = (if xs = ys then 0 else if xs < ys then - 1 else 1)"
  by (induction xs ys rule: list_induct2) auto

lemma memcmp_take:
  assumes "k = min (length xs) (length ys)"
  shows "(let cmp = memcmp (take k xs) (take k ys)
          in if cmp = 0 then (if length xs < length ys then - 1 else if length xs > length ys then 1 else 0) else if cmp < 0 then - 1 else 1)
    = (if xs = ys then 0 else if xs < ys then - 1 else (1 :: int))"
  using assms
proof (induction xs arbitrary: ys k)
  case Nil
  then show ?case by (cases ys) simp_all
next
  case (Cons x xs)
  show ?case
  proof (cases ys)
    case Nil
    with Cons.prems show ?thesis by simp
  next
    case (Cons y ys')
    define k' where "k' = min (length xs) (length ys')"
    have k: "k = Suc k'" using Cons.prems Cons by (simp add: k'_def)
    show ?thesis
    proof (cases "x = y")
      case True
      then have "memcmp (take k (x # xs)) (take k ys) = memcmp (take k' xs) (take k' ys')" "(x # xs = ys) = (xs = ys')" "(x # xs < ys) = (xs < ys')"
        by (simp_all add: Cons k)
      with Cons.IH [OF k'_def] show ?thesis by (simp only: Cons length_Cons Suc_less_eq)
    next
      case False
      then show ?thesis by (simp add: Cons k)
    qed
  qed
qed

text \<open>C18. \<open>compare_bytes\<close> compares the prefixes of the two arrays whose lengths are given, or the whole array where the length is
  larger, lexicographically by the values of the bytes, for lengths from 0 to \<open>2 ^ 32 - 1\<close>: the lengths are compared after
  their conversion to 32 bits, so that from \<open>2 ^ 32\<close> on another prefix is meant.\<close>

theorem compare_bytes_lexicographic:
  fixes self other :: ByteArray
  assumes "0 \<le> slim" "slim < 2 ^ 32" "0 \<le> olim" "olim < 2 ^ 32"
  defines "xs \<equiv> take (nat slim) self" and "ys \<equiv> take (nat olim) other"
  shows "compare_bytes self other slim olim = Inr (if xs = ys then 0 else if xs < ys then - 1 else 1)"
proof -
  define k where "k = min (length xs) (length ys)"
  have m: "(if int (length self) < uint32 slim then int (length self) else slim) = int (length xs)"
    using assms(1,2) by (auto simp: uint32_small xs_def min_def)
  have n: "(if int (length other) < uint32 olim then int (length other) else olim) = int (length ys)"
    using assms(3,4) by (auto simp: uint32_small ys_def min_def)
  have len: "(if int (length xs) < int (length ys) then int (length xs) else int (length ys)) = int k" by (auto simp: k_def)
  have sl: "slice self 0 (int k) = take k xs" "slice other 0 (int k) = take k ys"
    by (auto simp: slice_def xs_def ys_def k_def min_def)
  have ok: "in_bounds self 0 (int k)" "in_bounds other 0 (int k)" by (auto simp: in_bounds_def k_def xs_def ys_def)
  have "compare_bytes self other slim olim = Inr (let cmp = memcmp (take k xs) (take k ys)
          in if cmp = 0 then (if length xs < length ys then - 1 else if length xs > length ys then 1 else 0) else if cmp < 0 then - 1 else 1)"
    using assms(1,3) ok unfolding compare_bytes_def m n Let_def len sl by simp
  then show ?thesis using memcmp_take [OF k_def] by simp
qed

text \<open>Both length limits are needed: a negative length is refused, and a length of \<open>2 ^ 32\<close>, which is converted to 0, makes the
  comparison read that many bytes.\<close>

lemma compare_bytes_negative: "slim < 0 \<or> olim < 0 \<Longrightarrow> compare_bytes self other slim olim = Inl BoundsExceeded"
  by (auto simp: compare_bytes_def)

lemma compare_bytes_length_wraps: "compare_bytes [1] [2] (2 ^ 32) (2 ^ 32) = Inl BytesFault"
  by (simp add: compare_bytes_def uint32_def in_bounds_def take_bit_eq_mod)

lemma compare_bytes_lexicographic_witness: "compare_bytes [1, 200] [1, 3, 5] 2 3 = Inr 1"
proof -
  have "([1, 200] :: u8 list) \<noteq> [1, 3, 5]" "\<not> ([1, 200] :: u8 list) < [1, 3, 5]" by simp_all
  then show ?thesis using compare_bytes_lexicographic [of 2 3 "[1, 200]" "[1, 3, 5]"] by (simp add: numeral_eq_Suc)
qed

section \<open>Searching\<close>

lemma match_from_ascii:
  "\<forall>p\<in>set pat. p < 128 \<Longrightarrow> i + length pat \<le> length ba \<Longrightarrow> match_from ba pat i = Some (take (length pat) (drop i ba) = pat)"
proof (induction pat arbitrary: i)
  case (Cons p pat)
  have "uint p < 128" using Cons.prems(1) by (simp add: word_less_def)
  moreover have "- 128 \<le> uint p" using uint_ge_0 [of p] by linarith
  ultimately have "sint p = uint p" unfolding sint_uint by (intro signed_take_bit_int_eq_self) simp_all
  moreover have "drop i ba = ba ! i # drop (Suc i) ba" using Cons.prems(2) by (simp add: Cons_nth_drop_Suc)
  moreover have "uint (ba ! i) = uint p \<longleftrightarrow> ba ! i = p" by (simp only: word_uint_eq_iff)
  ultimately show ?case using Cons by auto
qed simp


lemma locate_loop_ascii:
  assumes "\<forall>p\<in>set pat. p < 128" and "limit + length pat \<le> length ba + 1" and "pat \<noteq> []"
  shows "i \<le> limit \<Longrightarrow> locate_loop ba pat limit i =
    Inr (map_option (\<lambda>k. k + length pat) (find (\<lambda>k. take (length pat) (drop k ba) = pat) [i..<limit]))"
proof (induction "limit - i" arbitrary: i)
  case 0
  then show ?case by (subst locate_loop.simps) simp
next
  case (Suc n)
  then have "i < limit" by simp
  moreover from this have "[i..<limit] = i # [Suc i..<limit]" by (rule upt_conv_Cons)
  moreover have "match_from ba pat i = Some (take (length pat) (drop i ba) = pat)"
    using assms(1,2) \<open>i < limit\<close> by (intro match_from_ascii) simp_all
  moreover have "locate_loop ba pat limit (i + 1) =
      Inr (map_option (\<lambda>k. k + length pat) (find (\<lambda>k. take (length pat) (drop k ba) = pat) [i + 1..<limit]))"
    using Suc.hyps(1) [of "i + 1"] Suc.hyps(2) \<open>i < limit\<close> by simp
  ultimately show ?case by (simp add: locate_loop.simps [of ba pat limit i])
qed

text \<open>C19. \<open>locate\<close> finds the first occurrence of a pattern of ASCII characters from \<open>start\<close> on, in the first \<open>max\<close> bytes or,
  when \<open>max\<close> is 0 or too large, in the whole array, and answers the position behind it, or nil when there is none; provided that
  the pattern is not empty and fits, that is, \<open>start\<close> is not negative and \<open>start\<close> and the length of the pattern together do not
  exceed the limit of the search. (A pattern that is longer than the limit makes the search run past the array.)\<close>

theorem locate_finds_first:
  assumes "pat \<noteq> []" and "\<forall>p\<in>set pat. p < 128" and "0 \<le> max_o" "max_o < 2 ^ 63" and "length ba < 2 ^ 63"
    and lim_def: "lim = (if nat max_o = 0 \<or> nat max_o > length ba then length ba else nat max_o)"
    and "0 \<le> start" and "start + int (length pat) \<le> int lim"
  shows "ByteArray_locate ba pat start max_o =
    Inr (map_option (\<lambda>k. k + length pat) (find (\<lambda>k. take (length pat) (drop k ba) = pat) [nat start..<lim + 1 - length pat]))"
proof -
  have lim: "lim \<le> length ba" by (simp add: lim_def)
  have "int lim - (int (length pat) - 1) < 2 ^ 63" using lim assms(1,5) by (cases pat) simp_all
  moreover have "0 \<le> int lim - (int (length pat) - 1)" using assms(7,8) by linarith
  ultimately have l: "size_t (int lim - (int (length pat) - 1)) = lim + 1 - length pat" by (simp add: size_t_def)
  have s: "size_t start = nat start" using assms(5,7,8) lim by (simp add: size_t_def)
  have m: "size_t max_o = nat max_o" using assms(3,4) by (simp add: size_t_def)
  have "ByteArray_locate ba pat start max_o = locate_loop ba pat (lim + 1 - length pat) (nat start)"
    using assms(1) unfolding ByteArray_locate_def Let_def m s lim_def [symmetric] l by simp
  also have "\<dots> = Inr (map_option (\<lambda>k. k + length pat) (find (\<lambda>k. take (length pat) (drop k ba) = pat) [nat start..<lim + 1 - length pat]))"
    using assms lim by (intro locate_loop_ascii) auto
  finally show ?thesis .
qed

lemma locate_finds_first_witness: "ByteArray_locate [9, 1, 2, 1, 2] [1, 2] 0 0 = Inr (Some 3)"
proof -
  have "find (\<lambda>k. take (Suc (Suc 0)) (drop k [9, 1, 2, 1, 2]) = [1, 2 :: u8]) [0..<4] = Some 1" by code_simp
  then show ?thesis using locate_finds_first [of "[1, 2]" 0 "[9, 1, 2, 1, 2]" 5 0] by simp
qed

text \<open>A byte from 128 on in the pattern is never found, and a pattern longer than the bytes searched makes the limit wrap
  around, so that the search runs past the end of the array.\<close>

lemma locate_misses_high_bytes: "ByteArray_locate [200] [200] 0 0 = Inr None"
proof -
  have "locate_loop [200] [200] 1 1 = Inr None" by (subst locate_loop.simps) simp
  then have "locate_loop [200] [200] 1 0 = Inr None" by (subst locate_loop.simps) simp
  then show ?thesis by (simp add: ByteArray_locate_def size_t_def)
qed

lemma locate_overruns: "ByteArray_locate [1] [2, 2, 2] 0 0 = Inl BytesFault"
proof -
  have limit: "size_t (- 1) = 18446744073709551615" by (simp add: size_t_def)
  have "locate_loop [1] [2, 2, 2] 18446744073709551615 1 = Inl BytesFault" by (subst locate_loop.simps) simp
  then have "locate_loop [1] [2, 2, 2] 18446744073709551615 0 = Inl BytesFault" by (subst locate_loop.simps) simp
  then show ?thesis by (simp add: ByteArray_locate_def limit) (simp add: size_t_def)
qed

end
