(* ===== verification/Vm_String.thy ===== *)
theory Vm_String
  imports Vm_Bytes
begin

text \<open>
  Strings (\<open>vm/builtin/string.cpp\<close>) over a store of byte arrays. A duplicate shares the array of its original, and both are
  marked as shared; \<open>append\<close> and the Ruby method \<open>modify!\<close> give a shared string an array of its own before they write.
  A string is named by its position in the store. The contents of the memory behind the bytes of a new array
  is a parameter.
\<close>

section \<open>Operations\<close>

record Str =
  num_bytes :: nat
  data :: nat
  hash_value :: "u64 option"
  shared :: bool

record SHeap =
  strs :: "Str list"
  arrays :: "ByteArray list"

type_synonym memory = "nat \<Rightarrow> nat \<Rightarrow> u8"

definition bytes_of :: "SHeap \<Rightarrow> nat \<Rightarrow> ByteArray" where "bytes_of h s = arrays h ! data (strs h ! s)"

definition set_str :: "SHeap \<Rightarrow> nat \<Rightarrow> (Str \<Rightarrow> Str) \<Rightarrow> SHeap" where
  "set_str h s f = h\<lparr>strs := (strs h)[s := f (strs h ! s)]\<rparr>"

definition write_bytes :: "SHeap \<Rightarrow> nat \<Rightarrow> nat \<Rightarrow> u8 list \<Rightarrow> SHeap" where
  "write_bytes h s off bs = (let d = data (strs h ! s) in h\<lparr>arrays := (arrays h)[d := put_at (arrays h ! d) off bs]\<rparr>)"

definition new_array :: "SHeap \<Rightarrow> ByteArray \<Rightarrow> SHeap \<times> nat" where
  "new_array h ba = (h\<lparr>arrays := arrays h @ [ba]\<rparr>, length (arrays h))"

definition String_create :: "memory \<Rightarrow> SHeap \<Rightarrow> nat \<Rightarrow> SHeap \<times> nat" where
  "String_create mem h n =
     (let (h, ba) = new_array h ((ByteArray_create (mem (length (arrays h))) (n + 1))[n := 0])
      in (h\<lparr>strs := strs h @ [\<lparr>num_bytes = n, data = ba, hash_value = None, shared = False\<rparr>]\<rparr>, length (strs h)))"

text \<open>From the bytes at a C pointer, up to the terminating zero when their number is 0.\<close>

definition String_create_bytes :: "memory \<Rightarrow> SHeap \<Rightarrow> u8 list \<Rightarrow> nat \<Rightarrow> SHeap \<times> nat" where
  "String_create_bytes mem h str n =
     (let n = (if n = 0 then length (takeWhile (\<lambda>b. b \<noteq> 0) str) else n);
          (h, s) = String_create mem h n
      in (write_bytes h s 0 (take n str), s))"

definition string_dup :: "SHeap \<Rightarrow> nat \<Rightarrow> SHeap \<times> nat" where
  "string_dup h s =
     (let ns = (strs h ! s)\<lparr>shared := True\<rparr>
      in (set_str (h\<lparr>strs := strs h @ [ns]\<rparr>) s (\<lambda>x. x\<lparr>shared := True\<rparr>), length (strs h)))"

definition unshare :: "SHeap \<Rightarrow> nat \<Rightarrow> SHeap" where
  "unshare h s = (let (h, ba) = new_array h (bytes_of h s) in set_str h s (\<lambda>x. x\<lparr>data := ba, shared := False\<rparr>))"

text \<open>The growth by doubling. An array without a byte would double for ever, but every string has one for the zero at its end.\<close>

function grow_capacity :: "nat \<Rightarrow> nat \<Rightarrow> nat" where
  "grow_capacity capacity needed =
     (if capacity * 2 < needed \<and> 0 < capacity then grow_capacity (capacity * 2) needed else capacity * 2)"
  by pat_completeness auto
termination by (relation "measure (\<lambda>(capacity, needed). needed - capacity)") auto

declare grow_capacity.simps [simp del]

text \<open>Room for \<open>new_size\<close> bytes and the zero, in an array that no other string has.\<close>

definition room_for :: "memory \<Rightarrow> SHeap \<Rightarrow> nat \<Rightarrow> nat \<Rightarrow> SHeap" where
  "room_for mem h s new_size =
     (if length (bytes_of h s) < new_size + 1
      then let capacity = grow_capacity (length (bytes_of h s)) (new_size + 1);
               h = set_str h s (\<lambda>x. x\<lparr>shared := False\<rparr>);
               (h, ba) = new_array h (put_at (ByteArray_create (mem (length (arrays h))) capacity) 0 (take (num_bytes (strs h ! s)) (bytes_of h s)))
           in set_str h s (\<lambda>x. x\<lparr>data := ba\<rparr>)
      else if shared (strs h ! s) then unshare h s else h)"

definition String_append :: "memory \<Rightarrow> SHeap \<Rightarrow> nat \<Rightarrow> u8 list \<Rightarrow> SHeap" where
  "String_append mem h s other =
     (let old = num_bytes (strs h ! s); new_size = old + length other;
          h = room_for mem h s new_size;
          h = write_bytes h s old other;
          h = write_bytes h s new_size [0]
      in set_str h s (\<lambda>x. x\<lparr>num_bytes := new_size, hash_value := None\<rparr>))"

definition String_append_string :: "memory \<Rightarrow> SHeap \<Rightarrow> nat \<Rightarrow> nat \<Rightarrow> SHeap" where
  "String_append_string mem h s other = String_append mem h s (take (num_bytes (strs h ! other)) (bytes_of h other))"

definition String_add :: "memory \<Rightarrow> SHeap \<Rightarrow> nat \<Rightarrow> nat \<Rightarrow> SHeap \<times> nat" where
  "String_add mem h s other = (let (h, ns) = string_dup h s in (String_append_string mem h ns other, ns))"

definition String_c_str :: "SHeap \<Rightarrow> nat \<Rightarrow> SHeap" where
  "String_c_str h s =
     (if bytes_of h s ! num_bytes (strs h ! s) \<noteq> 0 then write_bytes h s (num_bytes (strs h ! s)) [0] else h)"

definition String_hash_string :: "SHeap \<Rightarrow> nat \<Rightarrow> u64 \<times> SHeap" where
  "String_hash_string h s =
     (case hash_value (strs h ! s) of Some v \<Rightarrow> (v, h)
      | None \<Rightarrow> let sz = of_nat (num_bytes (strs h ! s)); v = hash_str_sized (bytes_of h s) sz in (v, set_str h s (\<lambda>x. x\<lparr>hash_value := Some v\<rparr>)))"

definition string_equal_p :: "SHeap \<Rightarrow> nat \<Rightarrow> nat \<Rightarrow> bool" where
  "string_equal_p h s t \<longleftrightarrow> num_bytes (strs h ! s) = num_bytes (strs h ! t) \<and>
     memcmp (take (num_bytes (strs h ! s)) (bytes_of h s)) (take (num_bytes (strs h ! s)) (bytes_of h t)) = 0"

text \<open>\<open>String#modify!\<close>, which the Ruby methods call before the primitives that write in place.\<close>

definition modify_bang :: "SHeap \<Rightarrow> nat \<Rightarrow> SHeap" where
  "modify_bang h s = (if shared (strs h ! s) then unshare h s else h)"

text \<open>A negative count is a huge size for \<open>memcpy\<close>: \<open>None\<close>.\<close>

definition copy_from :: "SHeap \<Rightarrow> nat \<Rightarrow> nat \<Rightarrow> int \<Rightarrow> int \<Rightarrow> int \<Rightarrow> SHeap option" where
  "copy_from h s other src cnt dst =
     (let osz = int (num_bytes (strs h ! other)); sz = int (num_bytes (strs h ! s))
      in if src \<ge> osz then Some h
         else let src = max src 0; cnt = min cnt (osz - src)
              in if dst \<ge> sz then Some h
                 else let dst = max dst 0; cnt = min cnt (sz - dst)
                      in if cnt < 0 then None else Some (write_bytes h s (nat dst) (slice (bytes_of h other) src cnt)))"

section \<open>The invariant\<close>

text \<open>The string \<open>s\<close> holds the bytes \<open>v\<close>, with a zero behind them.\<close>

definition str_holds :: "SHeap \<Rightarrow> nat \<Rightarrow> u8 list \<Rightarrow> bool" where
  "str_holds h s v \<longleftrightarrow> data (strs h ! s) < length (arrays h) \<and> num_bytes (strs h ! s) = length v \<and>
     length v < length (bytes_of h s) \<and> take (length v) (bytes_of h s) = v \<and> bytes_of h s ! length v = 0"

text \<open>The store holds the values \<open>vs\<close>; strings with a common array are all marked as shared.\<close>

definition heap_rep :: "SHeap \<Rightarrow> u8 list list \<Rightarrow> bool" where
  "heap_rep h vs \<longleftrightarrow> length (strs h) = length vs \<and> (\<forall>s<length vs. str_holds h s (vs ! s)) \<and>
     (\<forall>s<length vs. \<forall>t<length vs. s \<noteq> t \<longrightarrow> data (strs h ! s) = data (strs h ! t) \<longrightarrow> shared (strs h ! s))"

text \<open>The hash of a value: its length is converted to 32 bits. The hash values that are kept are these.\<close>

definition value_hash :: "u8 list \<Rightarrow> u64" where
  "value_hash v = finish_hash (foldl update_hash FNVOffsetBasis (take (length v mod 2 ^ 32) v))"

definition hashes_ok :: "SHeap \<Rightarrow> u8 list list \<Rightarrow> bool" where
  "hashes_ok h vs \<longleftrightarrow> (\<forall>s<length vs. hash_value (strs h ! s) = None \<or> hash_value (strs h ! s) = Some (value_hash (vs ! s)))"

lemma align8_ge: "n \<le> align8 n"
  by (simp add: align8_def)

lemma ByteArray_create_length [simp]: "length (ByteArray_create junk n) = align8 n"
  using align8_ge [of n] by (simp add: ByteArray_create_def)

lemma grow_capacity_ok: "0 < capacity \<Longrightarrow> needed \<le> grow_capacity capacity needed"
proof (induction capacity needed rule: grow_capacity.induct)
  case (1 capacity needed)
  then show ?case by (subst grow_capacity.simps) (simp add: not_less)
qed

text \<open>A string whose array no other string has can be changed freely: all the others keep their values.\<close>

definition owner :: "SHeap \<Rightarrow> nat \<Rightarrow> bool" where
  "owner h s \<longleftrightarrow> (\<forall>t<length (strs h). t \<noteq> s \<longrightarrow> data (strs h ! t) \<noteq> data (strs h ! s))"

lemma set_str_simps [simp]:
  "arrays (set_str h s f) = arrays h" "length (strs (set_str h s f)) = length (strs h)"
  "s < length (strs h) \<Longrightarrow> strs (set_str h s f) ! t = (if t = s then f (strs h ! s) else strs h ! t)"
  by (auto simp: set_str_def nth_list_update)

lemma write_bytes_simps [simp]:
  "strs (write_bytes h s off bs) = strs h" "length (arrays (write_bytes h s off bs)) = length (arrays h)"
  by (simp_all add: write_bytes_def Let_def)

lemma write_bytes_ref:
  "data (strs h ! s) < length (arrays h) \<Longrightarrow>
    arrays (write_bytes h s off bs) ! d = (if d = data (strs h ! s) then put_at (bytes_of h s) off bs else arrays h ! d)"
  by (auto simp: write_bytes_def Let_def bytes_of_def nth_list_update)

text \<open>One string changes to \<open>v\<close>; its array afterwards is one that only it has.\<close>

lemma heap_rep_update:
  assumes "heap_rep h vs" and "s < length vs" and "length (strs h') = length (strs h)"
    and "\<And>t. t < length vs \<Longrightarrow> t \<noteq> s \<Longrightarrow> strs h' ! t = strs h ! t"
    and "\<And>t. t < length vs \<Longrightarrow> t \<noteq> s \<Longrightarrow> arrays h' ! data (strs h ! t) = arrays h ! data (strs h ! t)"
    and "length (arrays h) \<le> length (arrays h')" and "owner h' s" and "str_holds h' s v"
  shows "heap_rep h' (vs[s := v])"
proof -
  have "str_holds h' t (vs ! t)" if "t < length vs" "t \<noteq> s" for t
    using assms(1,4,5,6) that by (auto simp: heap_rep_def str_holds_def bytes_of_def)
  then have "str_holds h' t (vs[s := v] ! t)" if "t < length vs" for t
    using assms(2,8) that by (cases "t = s") simp_all
  moreover have "shared (strs h' ! t)" if "t < length vs" "u < length vs" "t \<noteq> u" "data (strs h' ! t) = data (strs h' ! u)" for t u
  proof -
    have "t \<noteq> s" "u \<noteq> s" using assms(1,3,7) that by (auto simp: owner_def heap_rep_def)
    with assms(1,4) that show ?thesis by (auto simp: heap_rep_def)
  qed
  ultimately show ?thesis using assms(1,3) by (simp add: heap_rep_def)
qed


lemma unshared_owner: "heap_rep h vs \<Longrightarrow> s < length vs \<Longrightarrow> \<not> shared (strs h ! s) \<Longrightarrow> owner h s"
  by (fastforce simp: heap_rep_def owner_def)

lemma fresh_owner: "heap_rep h vs \<Longrightarrow> data x = length (arrays h) \<Longrightarrow> s < length vs \<Longrightarrow> strs h' = (strs h)[s := x] \<Longrightarrow> owner h' s"
  by (auto simp: owner_def heap_rep_def str_holds_def nth_list_update)

lemma unshare_ok:
  assumes "heap_rep h vs" and "s < length vs"
  shows "heap_rep (unshare h s) vs" and "owner (unshare h s) s" and "bytes_of (unshare h s) s = bytes_of h s"
    and "num_bytes (strs (unshare h s) ! s) = num_bytes (strs h ! s)"
    and "map hash_value (strs (unshare h s)) = map hash_value (strs h)"
proof -
  have len: "length (strs h) = length vs" and s: "str_holds h s (vs ! s)" using assms by (simp_all add: heap_rep_def)
  have eq: "unshare h s = \<lparr>strs = (strs h)[s := (strs h ! s)\<lparr>data := length (arrays h), shared := False\<rparr>], arrays = arrays h @ [bytes_of h s]\<rparr>"
    by (simp add: unshare_def new_array_def set_str_def)
  show own: "owner (unshare h s) s" by (rule fresh_owner [OF assms(1) _ assms(2)]) (simp_all add: eq)
  show bytes: "bytes_of (unshare h s) s = bytes_of h s" using assms(2) len by (simp add: eq bytes_of_def [of "_\<lparr>arrays := _\<rparr>"] bytes_of_def)
  show "num_bytes (strs (unshare h s) ! s) = num_bytes (strs h ! s)" using assms(2) len by (simp add: eq)
  show "map hash_value (strs (unshare h s)) = map hash_value (strs h)" using assms(2) len by (simp add: eq map_update list_update_same_conv)
  have "heap_rep (unshare h s) (vs[s := vs ! s])"
  proof (rule heap_rep_update [OF assms])
    show "str_holds (unshare h s) s (vs ! s)" using s bytes assms(2) len by (simp add: str_holds_def eq)
    show "arrays (unshare h s) ! data (strs h ! t) = arrays h ! data (strs h ! t)" if "t < length vs" for t
      using assms(1) that by (simp add: eq heap_rep_def str_holds_def nth_append)
  qed (use own in \<open>simp_all add: eq\<close>)
  then show "heap_rep (unshare h s) vs" by simp
qed

lemma modify_ok:
  assumes "heap_rep h vs" and "s < length vs"
  shows "heap_rep (modify_bang h s) vs" and "owner (modify_bang h s) s" and "map hash_value (strs (modify_bang h s)) = map hash_value (strs h)"
  using unshare_ok [OF assms] assms unshared_owner [OF assms] by (simp_all add: modify_bang_def)

text \<open>Writing into an array of one's own.\<close>

lemma write_own:
  assumes "heap_rep h vs" and "s < length vs" and "owner h s" and "str_holds (write_bytes h s off bs) s v"
  shows "heap_rep (write_bytes h s off bs) (vs[s := v])"
proof (rule heap_rep_update [OF assms(1,2)])
  have s: "data (strs h ! s) < length (arrays h)" using assms(1,2) by (simp add: heap_rep_def str_holds_def)
  have "data (strs h ! t) \<noteq> data (strs h ! s)" if "t < length vs" "t \<noteq> s" for t
    using assms(1,3) that by (simp add: owner_def heap_rep_def)
  then show "arrays (write_bytes h s off bs) ! data (strs h ! t) = arrays h ! data (strs h ! t)" if "t < length vs" "t \<noteq> s" for t
    using that write_bytes_ref [OF s] by simp
  show "owner (write_bytes h s off bs) s" using assms(3) by (simp add: owner_def)
qed (use assms(4) in simp_all)

section \<open>Appending\<close>

lemma room_for_ok:
  fixes mem :: memory and new_size :: nat
  assumes "heap_rep h vs" and "s < length vs" and "length (vs ! s) \<le> new_size"
  defines "h' \<equiv> room_for mem h s new_size"
  shows "heap_rep h' vs \<and> owner h' s \<and> new_size < length (bytes_of h' s) \<and> map hash_value (strs h') = map hash_value (strs h)"
proof (cases "length (bytes_of h s) < new_size + 1")
  case False
  then show ?thesis using unshare_ok [OF assms(1,2)] unshared_owner [OF assms(1,2)] assms(1) by (auto simp: h'_def room_for_def)
next
  case True
  let ?v = "vs ! s"
  have len: "length (strs h) = length vs" and s: "str_holds h s ?v" using assms(1,2) by (simp_all add: heap_rep_def)
  define capacity where "capacity = grow_capacity (length (bytes_of h s)) (new_size + 1)"
  have cap: "new_size + 1 \<le> capacity" unfolding capacity_def by (rule grow_capacity_ok) (use s in \<open>auto simp: str_holds_def\<close>)
  define ba where "ba = put_at (ByteArray_create (mem (length (arrays h))) capacity) 0 ?v"
  have eq: "h' = \<lparr>strs = (strs h)[s := (strs h ! s)\<lparr>shared := False, data := length (arrays h)\<rparr>], arrays = arrays h @ [ba]\<rparr>"
    using True s assms(2) len
    by (intro SHeap.equality) (simp_all add: h'_def room_for_def Let_def new_array_def set_str_def ba_def capacity_def str_holds_def bytes_of_def)
  have bytes: "bytes_of h' s = ba" using assms(2) len by (simp add: eq bytes_of_def)
  have fit: "length ?v < capacity" using cap assms(3) by simp
  have "capacity \<le> align8 capacity" by (rule align8_ge)
  then have lba: "length ba = align8 capacity" using fit by (simp add: ba_def length_put_at)
  have own: "owner h' s" by (rule fresh_owner [OF assms(1) _ assms(2)]) (simp_all add: eq)
  have "heap_rep h' (vs[s := ?v])"
  proof (rule heap_rep_update [OF assms(1,2)])
    have "ba ! length ?v = 0" "take (length ?v) ba = ?v"
      using fit \<open>capacity \<le> align8 capacity\<close> by (simp_all add: ba_def put_at_def nth_append ByteArray_create_def)
    then show "str_holds h' s ?v"
      using bytes lba fit \<open>capacity \<le> align8 capacity\<close> s assms(2) len by (simp add: str_holds_def) (simp add: eq)
    show "arrays h' ! data (strs h ! t) = arrays h ! data (strs h ! t)" if "t < length vs" for t
      using assms(1) that by (simp add: eq heap_rep_def str_holds_def nth_append)
  qed (use own in \<open>simp_all add: eq\<close>)
  moreover have "map hash_value (strs h') = map hash_value (strs h)" using assms(2) len by (simp add: eq map_update list_update_same_conv)
  ultimately show ?thesis using own bytes lba cap \<open>capacity \<le> align8 capacity\<close> by simp
qed


lemma hash_at: "map hash_value (strs h') = map hash_value (strs h) \<Longrightarrow> t < length (strs h) \<Longrightarrow> hash_value (strs h' ! t) = hash_value (strs h ! t)"
  by (metis length_map nth_map)

lemma append_ok:
  assumes "heap_rep h vs" and "s < length vs"
  shows "heap_rep (String_append mem h s other) (vs[s := vs ! s @ other])"
    and "hashes_ok h vs \<Longrightarrow> hashes_ok (String_append mem h s other) (vs[s := vs ! s @ other])"
proof -
  let ?v = "vs ! s" and ?n = "length (vs ! s) + length other"
  have len: "length (strs h) = length vs" and num: "num_bytes (strs h ! s) = length ?v" using assms by (simp_all add: heap_rep_def str_holds_def)
  define h1 where "h1 = room_for mem h s ?n"
  have h1: "heap_rep h1 vs" "owner h1 s" "?n < length (bytes_of h1 s)" "map hash_value (strs h1) = map hash_value (strs h)"
    using room_for_ok [OF assms, of ?n mem] by (simp_all add: h1_def)
  have len1: "length (strs h1) = length vs" and s1: "str_holds h1 s ?v" using h1(1) assms(2) by (simp_all add: heap_rep_def)
  define h2 where "h2 = write_bytes (write_bytes h1 s (length ?v) other) s ?n [0]"
  have eq: "String_append mem h s other = set_str h2 s (\<lambda>x. x\<lparr>num_bytes := ?n, hash_value := None\<rparr>)"
    by (simp add: String_append_def Let_def num h1_def h2_def)
  have d: "data (strs h1 ! s) < length (arrays h1)" using s1 by (simp add: str_holds_def)
  have bytes: "bytes_of h2 s = put_at (put_at (bytes_of h1 s) (length ?v) other) ?n [0]"
    using d by (simp add: h2_def bytes_of_def write_bytes_ref)
  have holds: "str_holds (set_str h2 s (\<lambda>x. x\<lparr>num_bytes := ?n, hash_value := None\<rparr>)) s (?v @ other)"
  proof -
    have "length (bytes_of h2 s) = length (bytes_of h1 s)" "take ?n (bytes_of h2 s) = ?v @ other" "bytes_of h2 s ! ?n = 0"
      using h1(3) s1 by (simp_all add: bytes put_at_def str_holds_def nth_append)
    then show ?thesis using d len1 assms(2) h1(3) by (simp add: str_holds_def bytes_of_def h2_def)
  qed
  have "heap_rep (set_str h2 s (\<lambda>x. x\<lparr>num_bytes := ?n, hash_value := None\<rparr>)) (vs[s := ?v @ other])"
  proof (rule heap_rep_update [OF h1(1) assms(2)])
    have "data (strs h1 ! t) \<noteq> data (strs h1 ! s)" if "t < length vs" "t \<noteq> s" for t
      using h1(2) that len1 by (simp add: owner_def)
    then show "arrays (set_str h2 s (\<lambda>x. x\<lparr>num_bytes := ?n, hash_value := None\<rparr>)) ! data (strs h1 ! t) = arrays h1 ! data (strs h1 ! t)"
      if "t < length vs" "t \<noteq> s" for t
      using that d by (simp add: h2_def write_bytes_ref)
    show "owner (set_str h2 s (\<lambda>x. x\<lparr>num_bytes := ?n, hash_value := None\<rparr>)) s"
      using h1(2) assms(2) len1 by (simp add: owner_def h2_def)
  qed (use len1 assms(2) holds in \<open>simp_all add: h2_def\<close>)
  then show "heap_rep (String_append mem h s other) (vs[s := ?v @ other])" by (simp add: eq)
  show "hashes_ok (String_append mem h s other) (vs[s := ?v @ other])" if "hashes_ok h vs"
    using that hash_at [OF h1(4)] assms(2) len len1 by (auto simp: hashes_ok_def eq h2_def nth_list_update)
qed

section \<open>New strings\<close>

lemma new_string_ok:
  assumes "heap_rep h vs" and "String_create mem h n = (h', s)"
  shows "heap_rep h' (vs @ [replicate n 0])" and "s = length vs" and "owner h' s" and "n < length (bytes_of h' s)"
    and "hashes_ok h vs \<Longrightarrow> hashes_ok h' (vs @ [replicate n 0])" and "hash_value (strs h' ! s) = None"
proof -
  let ?ba = "(ByteArray_create (mem (length (arrays h))) (n + 1))[n := 0]"
  let ?x = "\<lparr>num_bytes = n, data = length (arrays h), hash_value = None, shared = False\<rparr>"
  have len: "length (strs h) = length vs" using assms(1) by (simp add: heap_rep_def)
  have h': "strs h' = strs h @ [?x]" "arrays h' = arrays h @ [?ba]" and s: "s = length vs"
    using assms(2) len by (auto simp: String_create_def new_array_def)
  show "s = length vs" by (rule s)
  have old: "data (strs h ! t) < length (arrays h)" if "t < length vs" for t using assms(1) that by (simp add: heap_rep_def str_holds_def)
  have new: "strs h' ! length vs = ?x" by (metis h'(1) len nth_append_length)
  then have bytes: "bytes_of h' s = ?ba" by (simp add: s bytes_of_def h')
  have n: "n + 1 \<le> align8 (n + 1)" by (rule align8_ge)
  then show "n < length (bytes_of h' s)" by (simp add: bytes)
  have "take n ?ba = replicate n 0" "?ba ! n = 0"
    using n by (simp_all add: ByteArray_create_def nth_append take_update_swap list_update_beyond del: replicate.simps)
  then have "str_holds h' s (replicate n 0)" using n bytes s len new by (simp add: str_holds_def h')
  moreover have "str_holds h' t (vs ! t)" if "t < length vs" for t
    using assms(1) that old [OF that] len by (simp add: heap_rep_def str_holds_def bytes_of_def h' nth_append less_Suc_eq)
  ultimately have "str_holds h' t ((vs @ [replicate n 0]) ! t)" if "t < length vs + 1" for t
    using that s by (cases "t = length vs") (simp_all add: nth_append)
  moreover have "shared (strs h' ! t)"
    if "t < length vs + 1" "u < length vs + 1" "t \<noteq> u" "data (strs h' ! t) = data (strs h' ! u)" for t u
  proof -
    have at: "strs h' ! k = strs h ! k" if "k < length vs" for k using that len by (simp add: h' nth_append)
    have "t < length vs \<and> u < length vs"
      using that old [of t] old [of u] at [of t] at [of u] new by (cases "t = length vs"; cases "u = length vs") auto
    with that at [of t] at [of u] assms(1) show ?thesis unfolding heap_rep_def by metis
  qed
  ultimately show "heap_rep h' (vs @ [replicate n 0])" using len by (simp add: heap_rep_def h')
  show "owner h' s"
    unfolding owner_def
  proof (intro allI impI)
    fix t
    assume "t < length (strs h')" "t \<noteq> s"
    then have "t < length vs" using s len by (simp add: h')
    with old [of t] len show "data (strs h' ! t) \<noteq> data (strs h' ! s)" unfolding s new by (simp add: h' nth_append)
  qed
  show "hashes_ok h' (vs @ [replicate n 0])" if "hashes_ok h vs"
    using that len by (auto simp: hashes_ok_def h' nth_append)
  show "hash_value (strs h' ! s) = None" by (simp add: new s)
qed

lemma create_bytes_ok:
  assumes "heap_rep h vs" and "String_create_bytes mem h bs (length bs) = (h', s)"
  shows "heap_rep h' (vs @ [bs])" and "hashes_ok h vs \<Longrightarrow> hashes_ok h' (vs @ [bs])"
proof -
  have n: "(if length bs = 0 then length (takeWhile (\<lambda>b. b \<noteq> 0) bs) else length bs) = length bs" by simp
  obtain h1 where h1: "String_create mem h (length bs) = (h1, s)" and h': "h' = write_bytes h1 s 0 bs"
    using assms(2) n by (auto simp: String_create_bytes_def Let_def split: prod.splits if_splits)
  note c = new_string_ok [OF assms(1) h1]
  have s1: "s < length (vs @ [replicate (length bs) 0])" using c(2) by simp
  then have holds: "str_holds h1 s (replicate (length bs) 0)" using c(1,2) by (force simp: heap_rep_def)
  then have "bytes_of h' s = put_at (bytes_of h1 s) 0 bs" by (simp add: h' bytes_of_def write_bytes_ref str_holds_def)
  with holds have "str_holds h' s bs" by (simp add: str_holds_def h' put_at_def nth_append)
  then have "heap_rep h' ((vs @ [replicate (length bs) 0])[s := bs])" unfolding h' by (rule write_own [OF c(1) s1 c(3)])
  then show "heap_rep h' (vs @ [bs])" using c(2) by simp
  show "hashes_ok h' (vs @ [bs])" if "hashes_ok h vs"
    using c(5) [OF that] c(2,6) by (auto simp: hashes_ok_def h' nth_append less_Suc_eq)
qed

lemma dup_ok:
  assumes "heap_rep h vs" and "s < length vs" and "string_dup h s = (h', ns)"
  shows "heap_rep h' (vs @ [vs ! s])" and "ns = length vs" and "hashes_ok h vs \<Longrightarrow> hashes_ok h' (vs @ [vs ! s])"
proof -
  have len: "length (strs h) = length vs" using assms(1) by (simp add: heap_rep_def)
  have h': "strs h' = (strs h @ [(strs h ! s)\<lparr>shared := True\<rparr>])[s := (strs h ! s)\<lparr>shared := True\<rparr>]" "arrays h' = arrays h"
    and ns: "ns = length vs" using assms(2,3) len by (auto simp: string_dup_def set_str_def nth_append)
  show "ns = length vs" by (rule ns)
  have new: "strs h' ! t = (if t = s \<or> t = length vs then (strs h ! s)\<lparr>shared := True\<rparr> else strs h ! t)" if "t < length vs + 1" for t
    using that assms(2) len by (auto simp: h' nth_list_update nth_append)
  have "str_holds h' t ((vs @ [vs ! s]) ! t)" if "t < length vs + 1" for t
    using assms(1,2) that new [OF that] by (auto simp: heap_rep_def str_holds_def bytes_of_def h'(2) nth_append)
  moreover have "shared (strs h' ! t)"
    if "t < length vs + 1" "u < length vs + 1" "t \<noteq> u" "data (strs h' ! t) = data (strs h' ! u)" for t u
  proof (cases "t = s \<or> t = length vs")
    case True
    then show ?thesis using new [OF that(1)] by simp
  next
    case False
    define u' where "u' = (if u = length vs then s else u)"
    have "u' < length vs" "t < length vs" "t \<noteq> u'" "data (strs h ! t) = data (strs h ! u')"
      using that False assms(2) new [OF that(1)] new [OF that(2)] by (auto simp: u'_def split: if_splits)
    then have "shared (strs h ! t)" using assms(1) unfolding heap_rep_def by blast
    then show ?thesis using new [OF that(1)] False by simp
  qed
  ultimately show "heap_rep h' (vs @ [vs ! s])" using len by (simp add: heap_rep_def h')
  show "hashes_ok h' (vs @ [vs ! s])" if "hashes_ok h vs"
    using that new assms(2) by (auto simp: hashes_ok_def nth_append)
qed

section \<open>Writing in place\<close>

definition copy_value :: "u8 list \<Rightarrow> u8 list \<Rightarrow> int \<Rightarrow> int \<Rightarrow> int \<Rightarrow> u8 list" where
  "copy_value v w src cnt dst =
     (let src' = max src 0; dst' = max dst 0; cnt' = min (min cnt (int (length w) - src')) (int (length v) - dst')
      in if src \<ge> int (length w) \<or> dst \<ge> int (length v) then v else put_at v (nat dst') (slice w src' cnt'))"

lemma copy_from_ok:
  assumes "heap_rep h vs" and "s < length vs" and "other < length vs" and "owner h s" and "0 \<le> cnt"
  shows "\<exists>h'. copy_from h s other src cnt dst = Some h' \<and> heap_rep h' (vs[s := copy_value (vs ! s) (vs ! other) src cnt dst])"
proof -
  let ?v = "vs ! s" and ?w = "vs ! other"
  have s: "str_holds h s ?v" and o: "str_holds h other ?w" using assms(1-3) by (simp_all add: heap_rep_def)
  define src' dst' cnt' where "src' = max src 0" and "dst' = max dst 0"
    and "cnt' = min (min cnt (int (length ?w) - src')) (int (length ?v) - dst')"
  have num: "num_bytes (strs h ! s) = length ?v" "num_bytes (strs h ! other) = length ?w" using s o by (simp_all add: str_holds_def)
  show ?thesis
  proof (cases "src \<ge> int (length ?w) \<or> dst \<ge> int (length ?v)")
    case True
    then have "copy_from h s other src cnt dst = Some h" by (auto simp: copy_from_def Let_def num)
    moreover have "copy_value ?v ?w src cnt dst = ?v" using True by (simp add: copy_value_def)
    ultimately show ?thesis using assms(1) by simp
  next
    case False
    have range: "0 \<le> src'" "0 \<le> dst'" "0 \<le> cnt'" "src' + cnt' \<le> int (length ?w)" "dst' + cnt' \<le> int (length ?v)"
      using False assms(5) by (auto simp: src'_def dst'_def cnt'_def)
    let ?bs = "slice (bytes_of h other) src' cnt'"
    have bs: "?bs = slice ?w src' cnt'" "length ?bs = nat cnt'"
    proof -
      obtain r where r: "bytes_of h other = ?w @ r" using o by (metis append_take_drop_id str_holds_def)
      have in_range: "nat src' + nat cnt' \<le> length ?w" using range by linarith
      then show "?bs = slice ?w src' cnt'" by (simp add: slice_def r)
      have "length ?w < length (bytes_of h other)" using o by (simp add: str_holds_def)
      then show "length ?bs = nat cnt'" using in_range by (simp add: slice_def)
    qed
    have run: "copy_from h s other src cnt dst = Some (write_bytes h s (nat dst') ?bs)"
    proof -
      have "\<not> min (min cnt (int (length ?w) - max src 0)) (int (length ?v) - max dst 0) < 0"
        using range(3) unfolding src'_def dst'_def cnt'_def by (simp only: not_less)
      then show ?thesis using False by (simp add: copy_from_def Let_def num src'_def dst'_def cnt'_def del: min_less_iff_disj)
    qed
    have val: "copy_value ?v ?w src cnt dst = put_at ?v (nat dst') ?bs"
      using False bs(1) by (simp add: copy_value_def Let_def src'_def dst'_def cnt'_def)
    have fit: "nat dst' + length ?bs \<le> length ?v" using range bs(2) by linarith
    have "str_holds (write_bytes h s (nat dst') ?bs) s (put_at ?v (nat dst') ?bs)"
    proof -
      have new: "bytes_of (write_bytes h s (nat dst') ?bs) s = put_at (bytes_of h s) (nat dst') ?bs"
        using s by (simp add: bytes_of_def write_bytes_ref str_holds_def)
      obtain r where r: "bytes_of h s = ?v @ r" using s by (metis append_take_drop_id str_holds_def)
      have "put_at (bytes_of h s) (nat dst') b = put_at ?v (nat dst') b @ r" if "nat dst' + length b \<le> length ?v" for b
        unfolding r using that by (simp add: put_at_def)
      from this [OF fit] have "put_at (bytes_of h s) (nat dst') ?bs = put_at ?v (nat dst') ?bs @ drop (length ?v) (bytes_of h s)"
        by (simp add: r)
      then show ?thesis using s fit by (simp add: str_holds_def new length_put_at nth_append)
    qed
    then have "heap_rep (write_bytes h s (nat dst') ?bs) (vs[s := put_at ?v (nat dst') ?bs])"
      by (rule write_own [OF assms(1,2,4)])
    with run val show ?thesis by simp
  qed
qed

section \<open>Runs\<close>

text \<open>
  The operations a program can apply to its strings: one from a C buffer, the primitives, and a write in place, before which the Ruby
  code calls \<open>modify!\<close>.
\<close>

datatype string_op =
    New "u8 list"
  | Dup nat
  | Append nat "u8 list"
  | AppendString nat nat
  | Add nat nat
  | CStr nat
  | Hash nat
  | CopyFrom nat nat int int int

fun string_step :: "memory \<Rightarrow> string_op \<Rightarrow> SHeap \<Rightarrow> SHeap option" where
  "string_step mem (New bs) h = Some (fst (String_create_bytes mem h bs (length bs)))"
| "string_step mem (Dup s) h = Some (fst (string_dup h s))"
| "string_step mem (Append s bs) h = Some (String_append mem h s bs)"
| "string_step mem (AppendString s t) h = Some (String_append_string mem h s t)"
| "string_step mem (Add s t) h = Some (fst (String_add mem h s t))"
| "string_step mem (CStr s) h = Some (String_c_str h s)"
| "string_step mem (Hash s) h = Some (snd (String_hash_string h s))"
| "string_step mem (CopyFrom s t src cnt dst) h = copy_from (modify_bang h s) s t src cnt dst"

fun string_run :: "memory \<Rightarrow> string_op list \<Rightarrow> SHeap \<Rightarrow> SHeap option" where
  "string_run mem [] h = Some h"
| "string_run mem (x # xs) h = (case string_step mem x h of None \<Rightarrow> None | Some h' \<Rightarrow> string_run mem xs h')"

text \<open>What they mean when every string is a value of its own.\<close>

fun value_step :: "string_op \<Rightarrow> u8 list list \<Rightarrow> u8 list list" where
  "value_step (New bs) vs = vs @ [bs]"
| "value_step (Dup s) vs = vs @ [vs ! s]"
| "value_step (Append s bs) vs = vs[s := vs ! s @ bs]"
| "value_step (AppendString s t) vs = vs[s := vs ! s @ vs ! t]"
| "value_step (Add s t) vs = vs @ [vs ! s @ vs ! t]"
| "value_step (CStr s) vs = vs"
| "value_step (Hash s) vs = vs"
| "value_step (CopyFrom s t src cnt dst) vs = vs[s := copy_value (vs ! s) (vs ! t) src cnt dst]"

text \<open>The operations a caller may apply: the strings exist, and a copy in place is from another string and of no negative number of bytes.\<close>

fun op_ok :: "nat \<Rightarrow> string_op \<Rightarrow> bool" where
  "op_ok n (New bs) = True"
| "op_ok n (Dup s) = (s < n)"
| "op_ok n (Append s bs) = (s < n)"
| "op_ok n (AppendString s t) = (s < n \<and> t < n)"
| "op_ok n (Add s t) = (s < n \<and> t < n)"
| "op_ok n (CStr s) = (s < n)"
| "op_ok n (Hash s) = (s < n)"
| "op_ok n (CopyFrom s t src cnt dst) = (s < n \<and> t < n \<and> s \<noteq> t \<and> 0 \<le> cnt)"

fun string_run_ok :: "string_op list \<Rightarrow> u8 list list \<Rightarrow> bool" where
  "string_run_ok [] vs = True"
| "string_run_ok (x # xs) vs = (op_ok (length vs) x \<and> string_run_ok xs (value_step x vs))"

fun writes_in_place :: "string_op \<Rightarrow> bool" where
  "writes_in_place (CopyFrom s t src cnt dst) = True"
| "writes_in_place _ = False"

lemma rep_value:
  assumes "heap_rep h vs" and "s < length vs"
  shows "take (num_bytes (strs h ! s)) (bytes_of h s) = vs ! s" and "num_bytes (strs h ! s) = length (vs ! s)"
    and "bytes_of h s ! num_bytes (strs h ! s) = 0"
  using assms by (simp_all add: heap_rep_def str_holds_def)

lemma append_string_is: "heap_rep h vs \<Longrightarrow> t < length vs \<Longrightarrow> String_append_string mem h s t = String_append mem h s (vs ! t)"
  by (simp only: String_append_string_def rep_value(1))

lemma c_str_same: "heap_rep h vs \<Longrightarrow> s < length vs \<Longrightarrow> String_c_str h s = h"
  by (simp add: String_c_str_def rep_value(3))

lemma hash_of_rep: "heap_rep h vs \<Longrightarrow> s < length vs \<Longrightarrow> hash_str_sized (bytes_of h s) (of_nat (num_bytes (strs h ! s))) = value_hash (vs ! s)"
proof -
  assume rep: "heap_rep h vs" "s < length vs"
  note v = rep_value(1,2) [OF rep]
  have "take (length (vs ! s) mod 2 ^ 32) (bytes_of h s) = take (length (vs ! s) mod 2 ^ 32) (take (length (vs ! s)) (bytes_of h s))"
    by (simp add: min_absorb1)
  also have "\<dots> = take (length (vs ! s) mod 2 ^ 32) (vs ! s)" using v by simp
  finally show ?thesis using v(2) by (simp add: hash_str_sized_def value_hash_def unat_of_nat)
qed

lemma hash_ok:
  assumes "heap_rep h vs" and "s < length vs"
  shows "heap_rep (snd (String_hash_string h s)) vs" and "hashes_ok h vs \<Longrightarrow> hashes_ok (snd (String_hash_string h s)) vs"
    and "hashes_ok h vs \<Longrightarrow> fst (String_hash_string h s) = value_hash (vs ! s)"
proof -
  have len: "length (strs h) = length vs" using assms(1) by (simp add: heap_rep_def)
  show "heap_rep (snd (String_hash_string h s)) vs"
    using assms len by (auto simp: String_hash_string_def Let_def heap_rep_def str_holds_def bytes_of_def split: option.split)
  show "hashes_ok (snd (String_hash_string h s)) vs" if "hashes_ok h vs"
    using that assms len hash_of_rep [OF assms] by (auto simp: String_hash_string_def Let_def hashes_ok_def split: option.split)
  show "fst (String_hash_string h s) = value_hash (vs ! s)" if "hashes_ok h vs"
    using that assms(2) hash_of_rep [OF assms] by (auto simp: String_hash_string_def Let_def hashes_ok_def split: option.split)
qed

lemma add_ok:
  assumes "heap_rep h vs" and "s < length vs" and "t < length vs" and "String_add mem h s t = (h', ns)"
  shows "heap_rep h' (vs @ [vs ! s @ vs ! t])" and "hashes_ok h vs \<Longrightarrow> hashes_ok h' (vs @ [vs ! s @ vs ! t])"
proof -
  obtain h1 where h1: "string_dup h s = (h1, ns)" and h': "h' = String_append_string mem h1 ns t"
    using assms(4) by (auto simp: String_add_def split: prod.splits)
  note d = dup_ok [OF assms(1,2) h1]
  have "t < length (vs @ [vs ! s])" and ns: "ns < length (vs @ [vs ! s])" using assms(3) d(2) by simp_all
  from append_string_is [OF d(1) this(1)] have eq: "h' = String_append mem h1 ns (vs ! t)" using assms(3) by (simp add: h' nth_append)
  note a = append_ok [OF d(1) ns, where mem = mem and other = "vs ! t"]
  show "heap_rep h' (vs @ [vs ! s @ vs ! t])" using a(1) d(2) by (simp add: eq)
  show "hashes_ok h' (vs @ [vs ! s @ vs ! t])" if "hashes_ok h vs" using a(2) [OF d(3) [OF that]] d(2) by (simp add: eq)
qed

lemma step_ok:
  assumes "heap_rep h vs" and "op_ok (length vs) x"
  shows "\<exists>h'. string_step mem x h = Some h' \<and> heap_rep h' (value_step x vs) \<and>
    (hashes_ok h vs \<longrightarrow> \<not> writes_in_place x \<longrightarrow> hashes_ok h' (value_step x vs))"
proof (cases x)
  case (New bs)
  obtain h' s where h': "String_create_bytes mem h bs (length bs) = (h', s)" by (cases "String_create_bytes mem h bs (length bs)")
  with create_bytes_ok [OF assms(1) h'] show ?thesis by (simp add: New)
next
  case (Dup s)
  obtain h' ns where h': "string_dup h s = (h', ns)" by (cases "string_dup h s")
  with dup_ok [OF assms(1) _ h'] assms(2) show ?thesis by (simp add: Dup)
next
  case (Append s bs)
  with append_ok [OF assms(1)] assms(2) show ?thesis by simp
next
  case (AppendString s t)
  with append_ok [OF assms(1)] append_string_is [OF assms(1)] assms(2) show ?thesis by simp
next
  case (Add s t)
  obtain h' ns where h': "String_add mem h s t = (h', ns)" by (cases "String_add mem h s t")
  with add_ok [OF assms(1) _ _ h'] assms(2) show ?thesis by (simp add: Add)
next
  case (CStr s)
  with c_str_same [OF assms(1)] assms show ?thesis by simp
next
  case (Hash s)
  with hash_ok [OF assms(1)] assms(2) show ?thesis by simp
next
  case (CopyFrom s t src cnt dst)
  with modify_ok [OF assms(1)] copy_from_ok [of "modify_bang h s" vs s t cnt src dst] assms(2) show ?thesis by auto
qed

lemma run_ok_rep:
  assumes "heap_rep h vs" and "string_run_ok xs vs"
  shows "\<exists>h'. string_run mem xs h = Some h' \<and> heap_rep h' (fold value_step xs vs) \<and>
    (hashes_ok h vs \<longrightarrow> (\<forall>x\<in>set xs. \<not> writes_in_place x) \<longrightarrow> hashes_ok h' (fold value_step xs vs))"
  using assms
proof (induction xs arbitrary: h vs)
  case Nil
  then show ?case by simp
next
  case (Cons x xs)
  from Cons.prems(2) have ok: "op_ok (length vs) x" "string_run_ok xs (value_step x vs)" by simp_all
  from step_ok [OF Cons.prems(1) ok(1), of mem] obtain h1 where h1: "string_step mem x h = Some h1" "heap_rep h1 (value_step x vs)"
      "hashes_ok h vs \<longrightarrow> \<not> writes_in_place x \<longrightarrow> hashes_ok h1 (value_step x vs)" by blast
  from Cons.IH [OF h1(2) ok(2)] h1(1,3) show ?case by auto
qed

lemma equal_iff_values:
  assumes "heap_rep h vs" and "s < length vs" and "t < length vs"
  shows "string_equal_p h s t \<longleftrightarrow> vs ! s = vs ! t"
  using rep_value [OF assms(1,2)] rep_value [OF assms(1,3)] by (auto simp: string_equal_p_def memcmp_equal_length split: if_splits)

definition no_strings :: SHeap where "no_strings = \<lparr>strs = [], arrays = []\<rparr>"

lemma no_strings_rep: "heap_rep no_strings []" "hashes_ok no_strings []"
  by (simp_all add: no_strings_def heap_rep_def hashes_ok_def)

section \<open>Properties\<close>

text \<open>C11. However strings share their arrays of bytes, a program sees them as values of their own. After any sequence of operations from an
  empty store (creating, duplicating, appending, adding, asking for the C string or the hash, and copying
  into a string in place after \<open>modify!\<close>) that names strings that exist, copies from another string and copies no negative number
  of bytes, the code has returned, every string holds the bytes that the same operations on a list of byte lists give, with a zero behind
  them inside its array, and \<open>==\<close> holds of two strings exactly when they hold the same bytes. In particular appending to a
  duplicate never changes its original, nor the other way round, whatever was in the memory of the new arrays.
\<close>

theorem string_runs_refine_values:
  assumes "string_run_ok ops []"
  defines "vs \<equiv> fold value_step ops []"
  shows "\<exists>h. string_run mem ops no_strings = Some h \<and> length (strs h) = length vs \<and> (\<forall>s<length vs. str_holds h s (vs ! s)) \<and>
    (\<forall>s<length vs. \<forall>t<length vs. string_equal_p h s t \<longleftrightarrow> vs ! s = vs ! t)"
proof -
  from run_ok_rep [OF no_strings_rep(1) assms(1), of mem] obtain h where h: "string_run mem ops no_strings = Some h" "heap_rep h vs"
    unfolding vs_def by blast
  have "length (strs h) = length vs \<and> (\<forall>s<length vs. str_holds h s (vs ! s))" using h(2) by (simp add: heap_rep_def)
  with h equal_iff_values [OF h(2)] show ?thesis by blast
qed

definition sharing_run :: "string_op list" where
  "sharing_run = [New [97, 98], Dup 0, AppendString 1 0, CopyFrom 0 1 1 1 0, Add 0 1, CStr 2, Hash 0]"

lemma sharing_run_values: "string_run_ok sharing_run [] \<and> fold value_step sharing_run [] = [[98, 98], [97, 98, 97, 98], [98, 98, 97, 98, 97, 98]]"
  by (simp add: sharing_run_def copy_value_def slice_def put_at_def)

lemma string_runs_refine_values_witness:
  "\<exists>h. string_run (\<lambda>_ _. 7) sharing_run no_strings = Some h \<and> str_holds h 0 [98, 98] \<and> str_holds h 1 [97, 98, 97, 98] \<and> \<not> string_equal_p h 0 1"
proof -
  from string_runs_refine_values [OF sharing_run_values [THEN conjunct1], of "\<lambda>_ _. 7"] show ?thesis
    by (force simp: sharing_run_values)
qed

text \<open>C16. The kept hash value agrees with the bytes, after any run of operations without a copy in place: every operation that changes
  the bytes of a string forgets its hash, and a duplicate that keeps it has the same bytes. The hash is the FNV hash of all bytes of a string of
  less than \<open>2 ^ 32\<close> bytes; of a longer one it is that of a prefix, because \<open>hash_str\<close> takes the length as an \<open>unsigned int\<close>. In any case
  strings that are equal have equal hashes.
\<close>

theorem string_hash_agrees:
  assumes "string_run_ok ops []" and "\<forall>x\<in>set ops. \<not> writes_in_place x" and "s < length (fold value_step ops [])"
  defines "v \<equiv> fold value_step ops [] ! s"
  shows "\<exists>h. string_run mem ops no_strings = Some h
    \<and> fst (String_hash_string h s) = finish_hash (foldl update_hash FNVOffsetBasis (take (length v mod 2 ^ 32) v))
    \<and> (length v < 2 ^ 32 \<longrightarrow> fst (String_hash_string h s) = finish_hash (foldl update_hash FNVOffsetBasis v))
    \<and> (\<forall>t<length (fold value_step ops []). string_equal_p h s t \<longrightarrow> fst (String_hash_string h t) = fst (String_hash_string h s))"
proof -
  from run_ok_rep [OF no_strings_rep(1) assms(1), of mem] assms(2) no_strings_rep(2)
  obtain h where h: "string_run mem ops no_strings = Some h" "heap_rep h (fold value_step ops [])" "hashes_ok h (fold value_step ops [])"
    by blast
  have "fst (String_hash_string h t) = value_hash (fold value_step ops [] ! t)" if "t < length (fold value_step ops [])" for t
    by (rule hash_ok(3) [OF h(2) that h(3)])
  moreover from this [OF assms(3)] have "fst (String_hash_string h s) = value_hash v" by (simp add: v_def)
  moreover have "string_equal_p h s t \<longrightarrow> fold value_step ops [] ! t = v" if "t < length (fold value_step ops [])" for t
    using equal_iff_values [OF h(2) assms(3) that] by (simp add: v_def)
  ultimately show ?thesis using h(1) by (intro exI [of _ h]) (simp add: value_hash_def)
qed

definition hash_run :: "string_op list" where
  "hash_run = [New [97, 98], Hash 0, Dup 0, Append 1 [99], New [97, 98, 99]]"

lemma string_hash_agrees_witness:
  "\<exists>h. string_run (\<lambda>_ _. 7) hash_run no_strings = Some h
    \<and> fst (String_hash_string h 1) = finish_hash (foldl update_hash FNVOffsetBasis [97, 98, 99])
    \<and> (string_equal_p h 1 2 \<longrightarrow> fst (String_hash_string h 2) = fst (String_hash_string h 1))"
proof -
  have "string_run_ok hash_run []" "\<forall>x\<in>set hash_run. \<not> writes_in_place x" and v: "fold value_step hash_run [] = [[97, 98], [97, 98, 99], [97, 98, 99]]"
    by (simp_all add: hash_run_def)
  from string_hash_agrees [OF this(1,2), of 1 "\<lambda>_ _. 7"] obtain h where h: "string_run (\<lambda>_ _. 7) hash_run no_strings = Some h"
    "fst (String_hash_string h 1) = finish_hash (foldl update_hash FNVOffsetBasis [97, 98, 99])"
    "\<forall>t<3. string_equal_p h 1 t \<longrightarrow> fst (String_hash_string h t) = fst (String_hash_string h 1)" by (auto simp: v)
  then show ?thesis by (intro exI [of _ h]) simp
qed

text \<open>
  A copy in place keeps a hash value of the bytes before it: two strings that are equal then have different hashes, and a hash table
  does not find one by the other.
\<close>

lemma hash_after_copy_is_stale:
  "(case string_run (\<lambda>_ _. 0) [New [97], New [98], Hash 0, CopyFrom 0 1 0 1 0] no_strings of None \<Rightarrow> False
    | Some h \<Rightarrow> string_equal_p h 0 1 \<and> fst (String_hash_string h 0) \<noteq> fst (String_hash_string h 1))"
  by code_simp

end
