(* ===== verification/Spec2Isabelle.thy ===== *)
theory Spec2Isabelle
  imports Digest_Classes Bubblebabble St_Table Sdbm_Run Syck_Base64 Syck_Levels
    Vm_Integer_Run Vm_Compare Vm_Integer_Bits Vm_Bignum_Bits Vm_Array_Refine Vm_List Vm_Symbols Vm_Ivars_Run Vm_Dispatch_Stale
    Vm_Marshal_Run Vm_Arguments Vm_Channel Vm_Immix_Heap Vm_To_I Vm_String
begin

text \<open>
  Verification of Rubinius: the data structures and the method lookup of its virtual machine (\<open>src/vm\<close>) and the
  C extensions with algorithms of their own (\<open>src/lib/ext\<close>). The definitions are translations of the C and C++ code
  and are named as there, \<open>Class_method\<close> for a method of a class; all of them can be executed, except that the walks over
  the ancestors of a module (\<open>module_walk\<close>), the loops of the Immix heap, the readers of compiled files and the block loop of
  SHA-1 are partial functions, because these loops need not end.

  The virtual machine. A Ruby value is a tagged 64-bit word (\<open>Vm_Oop\<close>, \<open>vm/oop.hpp\<close>). On it stand

    \<^item> integers (\<open>Vm_Integer\<close>: \<open>builtin/fixnum.cpp\<close>, \<open>bignum.cpp\<close>, \<open>integer.cpp\<close>). \<open>Vm_Integer_Laws\<close> has their
      range and value, \<open>Vm_Integer_Run\<close> shows that every expression over \<open>+\<close>, \<open>-\<close>, \<open>*\<close> and negation is exact
      and normalized whatever mixture of fixnums and Bignums it runs through, \<open>Vm_Compare\<close> the comparisons,
      \<open>Vm_Integer_Bits\<close> the bitwise operations and shifts of fixnums, and \<open>Vm_Bignum_Bits\<close> those of Bignums, over digits
      of 63 bits;
    \<^item> tuples and arrays (\<open>Vm_Array\<close>: \<open>builtin/tuple.cpp\<close>, \<open>array.cpp\<close>), whose operations refine those of a
      list (\<open>Vm_Array_Refine\<close>), and the linked list of the machine (\<open>Vm_List\<close>: \<open>builtin/list.cpp\<close>) over an
      explicit store of nodes, which refines a queue;
    \<^item> symbols (\<open>Vm_Symbols\<close>: \<open>symboltable.cpp\<close>, \<open>builtin/symbol.cpp\<close>, the hash of \<open>builtin/string.cpp\<close>), which
      are one to one with their strings;
    \<^item> byte arrays (\<open>Vm_Bytes\<close>: \<open>builtin/bytearray.cpp\<close>) with their bounds, comparison and search; strings that share byte arrays
      until one of them is written (\<open>Vm_String\<close>: \<open>builtin/string.cpp\<close>), which refine values of their own and keep the hash of their
      bytes (of a prefix, from \<open>2 ^ 32\<close> bytes on); the conversion of strings to integers (\<open>Vm_To_I\<close>), exact with and without a prefix
      that names the base, which takes back what \<open>Fixnum#to_s\<close> prints;
    \<^item> hash tables with chains (\<open>Vm_Buckets\<close>, once for both tables): lookup tables and method tables (\<open>Vm_Tables\<close>:
      \<open>builtin/lookuptable.cpp\<close>, \<open>methodtable.cpp\<close>) interpret one contract of a map, the locale \<open>map_table\<close>
      (\<open>Vm_Tables_Run\<close>);
    \<^item> instance variables (\<open>Vm_Ivars\<close>, \<open>Vm_Ivars_Run\<close>: \<open>builtin/compactlookuptable.cpp\<close>, \<open>object.cpp\<close>), kept in a compact
      table of six pairs and then in a lookup table, or in the fields of the class, whose accessors (\<open>type_info.cpp\<close> and what
      \<open>codegen/field_extract.rb\<close> generates) check what is written;
    \<^item> modules, the searches for methods and constants (\<open>Vm_Modules\<close>: \<open>builtin/module.cpp\<close>, \<open>sendsite.cpp\<close>,
      \<open>helpers.cpp\<close>) and the caches of method lookup (\<open>Vm_Caches\<close>: \<open>global_cache.hpp\<close>, \<open>inline_cache.cpp\<close>,
      \<open>dispatch.cpp\<close>). \<open>Vm_Dispatch\<close> has the coherence invariant of global cache, inline caches and method tables,
      \<open>Vm_Dispatch_Run\<close> shows that calls and redefinitions in any order find what a search without
      caches finds, and \<open>Vm_Dispatch_Stale\<close> what happens outside of the conditions of that theorem, such as a call site that has been set up for
      fixnums and keeps its method as long as it sees nothing else;
    \<^item> calls: the arguments and the handlers that move them into the locals of a method (\<open>Vm_Arguments\<close>:
      \<open>arguments.cpp\<close>, \<open>vmmethod.cpp\<close>);
    \<^item> channels (\<open>Vm_Channel\<close>: \<open>builtin/channel.cpp\<close>), through which threads exchange values: a step relation over any number of
      threads that send, wait, wake up and interrupt one another;
    \<^item> the heap of old objects (\<open>Vm_Immix\<close>: \<open>util/immix.hpp\<close>): blocks of lines and the allocators that fill their holes. The
      loops of allocation and marking end, and marking finds what is reachable (\<open>Vm_Immix_Run\<close>: \<open>gc/immix.cpp\<close>); over
      all runs of allocations and collections no memory in use is handed out (\<open>Vm_Immix_Heap\<close>);
    \<^item> compiled files (\<open>Vm_Marshal\<close>, \<open>Vm_Marshal_Run\<close>): the reader of \<open>marshal.cpp\<close> takes back what the writer of
      \<open>kernel/compiler/compiled_file.rb\<close> has written.

  The digests. \<open>Digest_Stream\<close> and \<open>Digest_Unroll\<close> hold what the hash functions share: the message as blocks and a
  rest, its bit count, the padding, and unrolled rounds as a renaming of registers. \<open>Md5\<close>, \<open>Sha1\<close>, \<open>Sha2_Rounds\<close> with
  \<open>Sha256\<close> and \<open>Sha512\<close>, and \<open>Rmd160\<close> (\<open>lib/ext/digest/*\<close>) show that a context fed in any pieces
  yields the digest of the published algorithm. \<open>Digest_Base\<close> and \<open>Digest_Classes\<close> (\<open>digest.c\<close>) have the Ruby classes
  on top of them: sessions with a digest object refine the message it has been given. \<open>Bubblebabble\<close> is its second
  encoding. Their loops count in \<open>int\<close>; the theorems say up to which length that is enough, and what happens beyond it.

  The sdbm database (\<open>stdlib/ext/sdbm/_sdbm.c\<close>): pages (\<open>Sdbm_Page\<close>), the database with its directory (\<open>Sdbm\<close>), the
  directory as a trie over the bits of the hash (\<open>Sdbm_Trie\<close>), the refinement of both to a finite map (\<open>Sdbm_Refine\<close>), and
  sequences of operations and the iteration (\<open>Sdbm_Run\<close>).

  Syck (\<open>lib/ext/syck\<close>): its hash table (\<open>St_Table\<close>), base64 (\<open>Syck_Base64\<close>) and the stacks of nesting levels of
  parser and emitter, from a new parser or emitter on (\<open>Syck_Levels\<close>).

  Conventions. Machine integers are words where the code relies on their width, otherwise integers with the wrap-around
  (\<open>native\<close>, \<open>int32\<close>, \<open>c_int\<close>) written out, or the step beyond the largest \<open>int\<close>, which C leaves undefined, as a failure \<open>None\<close>; the
  machine is little-endian and LP64. An exception is a value of an error
  datatype. Code outside of the sources is a parameter: the hash of objects, the classes of objects on the heap, system
  calls on files, the contents of memory that has been allocated but not written. The theorems on whole runs of the sdbm database
  suppose that its system calls succeed; its operations are modelled with calls that fail as well. A table may grow by doubling up to \<open>2 ^ 28\<close> entries (\<open>table_room\<close>), far below where the
  arithmetic on \<open>unsigned int\<close> would wrap. The fuel of the loop of \<open>List::remove\<close> is the number of nodes, which every
  list without a cycle needs at most.

  Not modelled: the interpreter and the just-in-time compiler (\<open>vm/llvm\<close>, the generated instructions), the other garbage
  collectors and the enumeration of roots, native threads and events, IO, the foreign function interfaces (\<open>capi\<close>, \<open>subtend\<close>, \<open>ffi\<close>), which call into the operating
  system or depend on generated code; the parser (\<open>melbourne\<close>, generated); the bundled libraries
  (\<open>vm/external_libs\<close>, with libtommath and oniguruma); the Ruby sources under \<open>kernel\<close> and \<open>lib\<close>; the bindings
  to openssl, zlib, readline, sockets and curses. Of the components that are modelled, \<open>PROJECT.json\<close> says what is left out.
\<close>

end
